(* ===== verification/Prelude.thy ===== *)
theory Prelude
  imports Main "HOL-Library.AList" "HOL-Library.Monad_Syntax"
begin

text \<open>
  Shared vocabulary of the development: the bounds of Rust's machine integers, the collections of
  rewrite rules the component theories add to, and the generic facts on lists, options and
  association lists they share.

  Two conventions hold everywhere. A hash map is an association list read by \<^const>\<open>map_of\<close> and
  written by \<^const>\<open>AList.update\<close> and \<^const>\<open>AList.delete\<close>; where the code iterates over a hash map, the
  model iterates in the order of that list. A call that panics (a failed \<^verbatim>\<open>assert!\<close>,
  \<^verbatim>\<open>expect\<close>, index or checked arithmetic) has the value \<^const>\<open>None\<close>, and so has a loop that does
  not end; \<^term>\<open>Some x\<close> is a call that returns \<^term>\<open>x\<close>.
\<close>

section \<open>Machine integers\<close>

definition u32_max :: nat where
  "u32_max = 4294967295"

definition u64_max :: nat where
  "u64_max = 18446744073709551615"

section \<open>Collections of rewrite rules\<close>

named_theorems view_simps \<open>what an operation leaves of each component of the state it changes\<close>
named_theorems op_defs \<open>definitions of the small operations, for evaluation on concrete states\<close>

section \<open>Options\<close>

lemma bind_Some_eq [simp]: "(x \<bind> Some) = x"
  by (cases x) auto

lemma map_option_eqI: "map_option f x = map_option f y \<Longrightarrow> map_option (g \<circ> f) x = map_option (g \<circ> f) y"
  by (metis option.map_comp)

section \<open>Lists: the first element that satisfies a predicate\<close>

fun update_first :: "('a \<Rightarrow> bool) \<Rightarrow> ('a \<Rightarrow> 'a) \<Rightarrow> 'a list \<Rightarrow> 'a list" where
  "update_first P f [] = []"
| "update_first P f (x # xs) = (if P x then f x # xs else x # update_first P f xs)"

fun remove_first :: "('a \<Rightarrow> bool) \<Rightarrow> 'a list \<Rightarrow> 'a list" where
  "remove_first P [] = []"
| "remove_first P (x # xs) = (if P x then xs else x # remove_first P xs)"

lemma find_update_first_same:
  "(\<And>x. P x \<Longrightarrow> P (f x)) \<Longrightarrow> find P (update_first P f xs) = map_option f (find P xs)"
  by (induction xs) auto

lemma find_update_first_other:
  "(\<And>x. P x \<Longrightarrow> \<not> Q x \<and> \<not> Q (f x)) \<Longrightarrow> find Q (update_first P f xs) = find Q xs"
  by (induction xs) auto

lemma map_update_first: "(\<And>x. g (f x) = g x) \<Longrightarrow> map g (update_first P f xs) = map g xs"
  by (induction xs) auto

lemma set_update_first: "set (update_first P f xs) \<subseteq> set xs \<union> f ` {x \<in> set xs. P x}"
  by (induction xs) auto

lemma find_append: "find P (xs @ ys) = (case find P xs of None \<Rightarrow> find P ys | Some x \<Rightarrow> Some x)"
  by (induction xs) auto

lemma find_Some_in: "find P xs = Some x \<Longrightarrow> x \<in> set xs \<and> P x"
  by (auto simp: find_Some_iff)

lemma set_remove_first: "set (remove_first P xs) \<subseteq> set xs"
  by (induction xs) auto

lemma find_remove_first_other:
  "(\<And>x. P x \<Longrightarrow> \<not> Q x) \<Longrightarrow> find Q (remove_first P xs) = find Q xs"
  by (induction xs) auto

lemma distinct_map_remove_first: "distinct (map g xs) \<Longrightarrow> distinct (map g (remove_first P xs))"
  by (induction xs) (auto dest: subsetD [OF set_remove_first])

lemma find_remove_first_same:
  "distinct (map g xs) \<Longrightarrow> find (\<lambda>x. g x = k) (remove_first (\<lambda>x. g x = k) xs) = None"
  by (induction xs) (auto simp: find_None_iff, metis imageI)

lemma find_distinct_map:
  "distinct (map g xs) \<Longrightarrow> x \<in> set xs \<Longrightarrow> g x = k \<Longrightarrow> find (\<lambda>x. g x = k) xs = Some x"
  by (induction xs) auto

section \<open>Association lists\<close>

lemma map_of_update [simp]: "map_of (AList.update k v m) = (map_of m)(k \<mapsto> v)"
  by (rule update_conv')

lemma map_of_delete [simp]: "map_of (AList.delete k m) = (map_of m)(k := None)"
  by (rule delete_conv')

lemma map_of_map_values:
  "map_of (map (\<lambda>(k, v). (k, f k v)) m) k = map_option (f k) (map_of m k)"
  by (induction m) auto

lemma keys_update: "fst ` set (AList.update k v m) = insert k (fst ` set m)"
  by (induction m) auto

lemma map_of_eq_None: "map_of m k = None \<longleftrightarrow> k \<notin> fst ` set m"
  by (simp add: map_of_eq_None_iff)

lemma distinct_keys_update:
  "distinct (map fst m) \<Longrightarrow> distinct (map fst (AList.update k v m))"
  by (rule distinct_update)

lemma length_keys_update:
  "length (AList.update k v m) = (if k \<in> fst ` set m then length m else Suc (length m))"
  by (induction m) auto

lemma alist_update_member: "x \<in> set (AList.update k v m) \<Longrightarrow> x = (k, v) \<or> x \<in> set m"
  by (induction m) (auto split: if_splits)

lemma alist_delete_member: "x \<in> set (AList.delete k m) \<Longrightarrow> x \<in> set m"
  by (simp add: AList.delete_eq)

end
