(* ===== verification/Delegation.thy ===== *)
theory Delegation
  imports Prelude
begin

text \<open>
  Resolution through a chain of branches (\<^verbatim>\<open>dice/docs/incrementality.md\<close>, section 4.4), as an
  interface. A branch either answers for itself at a sequence number or delegates to the version
  it was forked from. The claims of a key, the assertion history of an injected key and the
  history of an untracked input all resolve this way, so the facts about delegation are proved
  here once, over an abstract answer \<open>own\<close> and an abstract parent map \<open>par\<close>.
\<close>

section \<open>Versions\<close>

datatype version = Version (vbranch: nat) (vseq: nat)

section \<open>Chains\<close>

text \<open>
  \<open>own b s\<close> is \<open>None\<close> where branch \<open>b\<close> delegates at \<open>s\<close>, \<open>Some r\<close> where it answers \<open>r\<close>; the
  answer \<open>r\<close> may itself be \<open>None\<close>, unknown.
\<close>

function chain ::
  "(nat \<Rightarrow> version option) \<Rightarrow> (nat \<Rightarrow> nat \<Rightarrow> 'x option option) \<Rightarrow> nat \<Rightarrow> nat \<Rightarrow> 'x option" where
  "chain par own b s =
     (case own b s of
        Some r \<Rightarrow> r
      | None \<Rightarrow> (case par b of
          None \<Rightarrow> None
        | Some v \<Rightarrow> if vbranch v < b then chain par own (vbranch v) (vseq v) else None))"
  by pat_completeness auto
termination
  by (relation "measure (\<lambda>(par, own, b, s). b)") auto

declare chain.simps [simp del]

lemma chain_own: "own b s = Some r \<Longrightarrow> chain par own b s = r"
  by (simp add: chain.simps)

lemma chain_root: "own b s = None \<Longrightarrow> par b = None \<Longrightarrow> chain par own b s = None"
  by (simp add: chain.simps)

text \<open>
  The one fact every change to a store comes down to. A new store \<open>own'\<close> with new parents
  \<open>par'\<close> resolves as the old one did on the versions in \<open>P\<close>, up to \<open>f\<close>, if every answer it
  gives itself is the one the old chain gave, and wherever it delegates, the version it delegates
  to used to resolve to the same thing.
\<close>

lemma chain_refine:
  assumes step: "\<And>b s. P b s \<Longrightarrow>
      (case own' b s of
         Some r \<Rightarrow> map_option f r = map_option f (chain par own b s)
       | None \<Rightarrow> (case par' b of
           None \<Rightarrow> chain par own b s = None
         | Some v \<Rightarrow> vbranch v < b \<and> P (vbranch v) (vseq v)
             \<and> map_option f (chain par own (vbranch v) (vseq v)) = map_option f (chain par own b s)))"
  shows "P b s \<Longrightarrow> map_option f (chain par' own' b s) = map_option f (chain par own b s)"
proof (induction b arbitrary: s rule: less_induct)
  case (less b)
  note st = step [OF less.prems]
  show ?case
  proof (cases "own' b s")
    case (Some r)
    with st show ?thesis by (simp add: chain_own)
  next
    case None
    then show ?thesis
    proof (cases "par' b")
      case None
      with st \<open>own' b s = None\<close> show ?thesis by (simp add: chain_root)
    next
      case (Some v)
      with st \<open>own' b s = None\<close> have v: "vbranch v < b" "P (vbranch v) (vseq v)"
        "map_option f (chain par own (vbranch v) (vseq v)) = map_option f (chain par own b s)"
        by auto
      from \<open>own' b s = None\<close> Some v(1)
      have "chain par' own' b s = chain par' own' (vbranch v) (vseq v)"
        by (simp add: chain.simps [of par' own' b s])
      with less.IH [OF v(1,2)] v(3) show ?thesis by simp
    qed
  qed
qed

text \<open>The common case: the parents stay, and the new store delegates only where the old one did.\<close>

lemma chain_refine_own:
  assumes up: "\<And>b s v. P b s \<Longrightarrow> par b = Some v \<Longrightarrow> vbranch v < b \<and> P (vbranch v) (vseq v)"
    and ans: "\<And>b s r. P b s \<Longrightarrow> own' b s = Some r \<Longrightarrow>
      map_option f r = map_option f (chain par own b s)"
    and del: "\<And>b s. P b s \<Longrightarrow> own' b s = None \<Longrightarrow> own b s = None"
  shows "P b s \<Longrightarrow> map_option f (chain par own' b s) = map_option f (chain par own b s)"
proof (rule chain_refine [where P = P])
  fix b s assume P: "P b s"
  show "case own' b s of
         Some r \<Rightarrow> map_option f r = map_option f (chain par own b s)
       | None \<Rightarrow> (case par b of
           None \<Rightarrow> chain par own b s = None
         | Some v \<Rightarrow> vbranch v < b \<and> P (vbranch v) (vseq v)
             \<and> map_option f (chain par own (vbranch v) (vseq v)) = map_option f (chain par own b s))"
  proof (cases "own' b s")
    case None
    with P have own: "own b s = None" by (rule del)
    show ?thesis
    proof (cases "par b")
      case None
      with own \<open>own' b s = None\<close> show ?thesis by (simp add: chain_root)
    next
      case (Some v)
      with up [OF P] have "vbranch v < b" "P (vbranch v) (vseq v)" by auto
      with own \<open>own' b s = None\<close> Some show ?thesis by (simp add: chain.simps [of par own b s])
    qed
  next
    case (Some r)
    with ans [OF P] show ?thesis by simp
  qed
qed

lemma chain_cong_on:
  assumes up: "\<And>b s v. P b s \<Longrightarrow> par b = Some v \<Longrightarrow> vbranch v < b \<and> P (vbranch v) (vseq v)"
    and eq: "\<And>b s. P b s \<Longrightarrow> own' b s = own b s"
    and P: "P b s"
  shows "chain par own' b s = chain par own b s"
proof -
  have "map_option id (chain par own' b s) = map_option id (chain par own b s)"
    by (rule chain_refine_own [where P = P, OF up]) (use eq P in \<open>auto simp: chain_own\<close>)
  then show ?thesis by (simp add: option.map_id)
qed

lemma chain_cong_le:
  assumes "\<And>d. d \<le> b \<Longrightarrow> par' d = par d" "\<And>d. d \<le> b \<Longrightarrow> own' d = own d"
  shows "chain par' own' b s = chain par own b s"
  using assms
proof (induction b arbitrary: s rule: less_induct)
  case (less b)
  have up: "chain par' own' (vbranch v) (vseq v) = chain par own (vbranch v) (vseq v)" if "vbranch v < b" for v
    using less.IH [OF that] less.prems that by simp
  show ?case
    unfolding chain.simps [of par' own' b s] chain.simps [of par own b s]
    using less.prems up by (auto split: option.splits)
qed

section \<open>The interface of a version tree\<close>

text \<open>
  A tree of branches as its clients read it: the live branches, the version each was forked from,
  and each branch's first and newest sequence number. The law is what the identities of
  \<^verbatim>\<open>ids.rs\<close> promise: a parent is live, older than its child, and has the fork point.
\<close>

locale version_tree =
  fixes liv :: "nat \<Rightarrow> bool"
    and par :: "nat \<Rightarrow> version option"
    and fst_seq :: "nat \<Rightarrow> nat"
    and head_seq :: "nat \<Rightarrow> nat"
  assumes parent_law: "liv b \<Longrightarrow> par b = Some v \<Longrightarrow>
      liv (vbranch v) \<and> vbranch v < b \<and> fst_seq (vbranch v) \<le> vseq v \<and> vseq v \<le> head_seq (vbranch v)"
    and nonempty_law: "liv b \<Longrightarrow> fst_seq b \<le> head_seq b"
begin

definition is_version :: "nat \<Rightarrow> nat \<Rightarrow> bool" where
  "is_version b s \<longleftrightarrow> liv b \<and> fst_seq b \<le> s \<and> s \<le> head_seq b"

definition from_first :: "nat \<Rightarrow> nat \<Rightarrow> bool" where
  "from_first b s \<longleftrightarrow> liv b \<and> fst_seq b \<le> s"

lemma is_version_parent:
  "is_version b s \<Longrightarrow> par b = Some v \<Longrightarrow> vbranch v < b \<and> is_version (vbranch v) (vseq v)"
  using parent_law unfolding is_version_def by blast

lemma from_first_parent:
  "from_first b s \<Longrightarrow> par b = Some v \<Longrightarrow> vbranch v < b \<and> from_first (vbranch v) (vseq v)"
  using parent_law unfolding from_first_def by blast

lemma live_parent:
  "liv b \<Longrightarrow> par b = Some v \<Longrightarrow> vbranch v < b \<and> liv (vbranch v)"
  using parent_law by blast

lemma chain_delegate:
  assumes "liv b" "own b s = None" "par b = Some v"
  shows "chain par own b s = chain par own (vbranch v) (vseq v)"
  using assms live_parent [OF assms(1,3)] by (simp add: chain.simps [of par own b s])

text \<open>Delegation is total across a branch's timeline: where a branch never answers, every version
  of it resolves alike.\<close>

lemma chain_constant:
  assumes "liv b" "own b s = None" "own b s' = None"
  shows "chain par own b s = chain par own b s'"
  using assms by (cases "par b") (auto simp: chain_root chain_delegate)

lemma chain_same_answers:
  assumes "liv b" "fst_seq b \<le> s"
    and ans: "\<And>b s r. from_first b s \<Longrightarrow> own' b s = Some r \<Longrightarrow>
      map_option f r = map_option f (chain par own b s)"
    and del: "\<And>b s. from_first b s \<Longrightarrow> own' b s = None \<Longrightarrow> own b s = None"
  shows "map_option f (chain par own' b s) = map_option f (chain par own b s)"
  by (rule chain_refine_own [where P = from_first, OF from_first_parent])
    (use assms in \<open>auto simp: from_first_def\<close>)

lemma chain_same_on_versions:
  assumes "is_version b s"
    and ans: "\<And>b s r. is_version b s \<Longrightarrow> own' b s = Some r \<Longrightarrow>
      map_option f r = map_option f (chain par own b s)"
    and del: "\<And>b s. is_version b s \<Longrightarrow> own' b s = None \<Longrightarrow> own b s = None"
  shows "map_option f (chain par own' b s) = map_option f (chain par own b s)"
  by (rule chain_refine_own [where P = is_version, OF is_version_parent])
    (use assms in auto)

end

end
