(* ===== verification/Dice_Ids.thy ===== *)
theory Dice_Ids
  imports Delegation
begin

text \<open>
  The identities and payloads of the DICE core state: \<^verbatim>\<open>dice/dice_core/src/ids.rs\<close>,
  \<^verbatim>\<open>env.rs\<close> and \<^verbatim>\<open>cert.rs\<close>. Keys, revisions, tokens, branches and
  sequence numbers are naturals; the checked arithmetic of their newtypes is written out, an abort
  on overflow being \<^const>\<open>None\<close>.
\<close>

section \<open>ids.rs\<close>

type_synonym key = nat
type_synonym revision = nat
type_synonym epsilon_token = nat
type_synonym branch_id = nat
type_synonym seq = nat

definition revision_FIRST :: revision where
  "revision_FIRST = 1"

definition revision_next :: "revision \<Rightarrow> revision option" where
  "revision_next r = (if r + 1 \<le> u32_max then Some (r + 1) else None)"

definition epsilon_INITIAL :: epsilon_token where
  "epsilon_INITIAL = 1"

text \<open>
  \<^verbatim>\<open>EpsilonToken::mint\<close> reads and advances a process-wide counter: the model takes the counter
  and returns the token with the advanced counter. \<^verbatim>\<open>fetch_add\<close> wraps, and a token of 0 panics.
\<close>

definition epsilon_NEXT_init :: nat where
  "epsilon_NEXT_init = epsilon_INITIAL + 1"

definition mint :: "nat \<Rightarrow> (epsilon_token \<times> nat) option" where
  "mint nxt = (if nxt = 0 then None else Some (nxt, (nxt + 1) mod (u64_max + 1)))"

definition branch_from_index :: "nat \<Rightarrow> branch_id option" where
  "branch_from_index index = (if index \<le> u32_max then Some index else None)"

definition seq_FIRST :: seq where
  "seq_FIRST = 1"

definition seq_next :: "seq \<Rightarrow> seq option" where
  "seq_next s = (if s + 1 \<le> u32_max then Some (s + 1) else None)"

datatype ordering = Less | Equal | Greater

definition cmp_nat :: "nat \<Rightarrow> nat \<Rightarrow> ordering" where
  "cmp_nat a b = (if a < b then Less else if a = b then Equal else Greater)"

definition cmp_on_chain :: "version \<Rightarrow> version \<Rightarrow> ordering" where
  "cmp_on_chain v w =
     (case cmp_nat (vbranch v) (vbranch w) of
        Equal \<Rightarrow> cmp_nat (vseq v) (vseq w)
      | o' \<Rightarrow> o')"

text \<open>\<^verbatim>\<open>Display\<close> of a version: the first root a state makes prints bare.\<close>

fun show_nat :: "nat \<Rightarrow> string" where
  "show_nat n =
     (if n < 10 then [char_of (48 + n)] else show_nat (n div 10) @ [char_of (48 + n mod 10)])"

declare show_nat.simps [simp del]

definition version_fmt :: "version \<Rightarrow> string" where
  "version_fmt v =
     (if vbranch v = 0 then ''v'' @ show_nat (vseq v)
      else ''v'' @ show_nat (vbranch v) @ ''.'' @ show_nat (vseq v))"

section \<open>env.rs\<close>

record premise =
  premise_key :: key
  premise_revision :: revision

text \<open>
  The \<^verbatim>\<open>Env\<close> trait and the \<^verbatim>\<open>Premises\<close> trait of its payload, as a record of their functions:
  \<open>premises_of\<close> is \<^verbatim>\<open>Premises::premises\<close>, the iterator as a list. Equality of payloads is
  equality.
\<close>

record ('p, 'd, 'a) env =
  premises_of :: "'p \<Rightarrow> premise list"
  env_EMPTY :: 'a
  env_assertion :: "version \<Rightarrow> 'd \<Rightarrow> 'a"
  env_combine :: "'a \<Rightarrow> 'a \<Rightarrow> 'a"

text \<open>The implementations of \<^verbatim>\<open>Premises\<close> for vectors of premises and of pairs.\<close>

definition premises_of_vec :: "premise list \<Rightarrow> premise list" where
  "premises_of_vec ps = ps"

definition premises_of_pairs :: "(key \<times> revision) list \<Rightarrow> premise list" where
  "premises_of_pairs ps = map (\<lambda>(k, r). \<lparr>premise_key = k, premise_revision = r\<rparr>) ps"

section \<open>cert.rs\<close>

record 'p cert =
  cert_key :: key
  cert_revision :: revision
  cert_deps :: 'p
  cert_epsilon :: epsilon_token

definition cert_premises :: "('p, 'd, 'a) env \<Rightarrow> 'p cert \<Rightarrow> premise list" where
  "cert_premises E c = premises_of E (cert_deps c)"

text \<open>Equal addresses hold equal certificates, so the first disjunct of \<^verbatim>\<open>same_trace\<close> adds nothing.\<close>

definition same_trace :: "'p cert \<Rightarrow> 'p cert \<Rightarrow> bool" where
  "same_trace c c' \<longleftrightarrow> c = c'"

text \<open>\<^verbatim>\<open>KeyMap\<close> and \<^verbatim>\<open>KeySet\<close> of \<^verbatim>\<open>collections.rs\<close>: association lists and lists without
  repetitions.\<close>

type_synonym 'v key_map = "(key \<times> 'v) list"
type_synonym key_set = "key list"

section \<open>Lemmas\<close>

lemmas [op_defs] = revision_FIRST_def revision_next_def epsilon_INITIAL_def epsilon_NEXT_init_def
  mint_def branch_from_index_def seq_FIRST_def seq_next_def cert_premises_def same_trace_def
  u32_max_def u64_max_def

lemma seq_next_Some: "seq_next s = Some s' \<Longrightarrow> s' = s + 1"
  by (auto simp: seq_next_def split: if_splits)

lemma branch_from_index_Some: "branch_from_index i = Some b \<Longrightarrow> b = i"
  by (auto simp: branch_from_index_def split: if_splits)

lemma cmp_on_chain_lex:
  "cmp_on_chain v w = Less \<longleftrightarrow>
     vbranch v < vbranch w \<or> vbranch v = vbranch w \<and> vseq v < vseq w"
  by (auto simp: cmp_on_chain_def cmp_nat_def)

lemma cmp_on_chain_Equal: "cmp_on_chain v w = Equal \<longleftrightarrow> v = w"
  by (cases v; cases w) (auto simp: cmp_on_chain_def cmp_nat_def)

text \<open>Decimal digits: printing a number is injective, and prints digits only.\<close>

lemma show_nat_ne: "show_nat n \<noteq> []"
  by (subst show_nat.simps) simp

definition is_digit :: "char \<Rightarrow> bool" where
  "is_digit c \<longleftrightarrow> 48 \<le> (of_char c :: nat) \<and> (of_char c :: nat) \<le> 57"

lemma of_char_digit: "d < 10 \<Longrightarrow> (of_char (char_of (48 + d) :: char) :: nat) = 48 + d"
  by simp

lemma show_nat_digits: "list_all is_digit (show_nat n)"
proof (induction n rule: show_nat.induct)
  case (1 n)
  have d: "is_digit (char_of (48 + n mod 10))" if "True" for n :: nat
    by (simp add: is_digit_def)
  have "is_digit (char_of (48 + n))" if "n < 10"
    using that d [of n] by simp
  with 1 d [of n] show ?case
    by (subst show_nat.simps) simp
qed

lemma show_nat_inj: "show_nat m = show_nat n \<Longrightarrow> m = n"
proof (induction m arbitrary: n rule: show_nat.induct)
  case (1 m)
  have c: "(of_char (char_of (48 + a mod 10) :: char) :: nat) = 48 + a mod 10" for a :: nat
    by simp
  have ci: "a mod 10 = b mod 10" if "(char_of (48 + a mod 10) :: char) = char_of (48 + b mod 10)" for a b :: nat
    using that c by (metis add_left_cancel)
  have ne: "show_nat (m div 10) \<noteq> []" "show_nat (n div 10) \<noteq> []" by (rule show_nat_ne)+
  show ?case
  proof (cases "m < 10")
    case True
    then have m: "show_nat m = [char_of (48 + m mod 10)]" by (simp add: show_nat.simps)
    show ?thesis
    proof (cases "n < 10")
      case True
      then have "show_nat n = [char_of (48 + n mod 10)]" by (simp add: show_nat.simps)
      with m 1(2) ci [of m n] \<open>m < 10\<close> True show ?thesis by simp
    next
      case False
      then show ?thesis using 1(2) m ne by (simp add: show_nat.simps [of n])
    qed
  next
    case False
    show ?thesis
    proof (cases "n < 10")
      case True
      then show ?thesis using 1(2) False ne by (simp add: show_nat.simps [of n] show_nat.simps [of m])
    next
      case n: False
      then have "show_nat (m div 10) = show_nat (n div 10)" "m mod 10 = n mod 10"
        using 1(2) False ci by (auto simp: show_nat.simps [of n] show_nat.simps [of m])
      with 1(1) [OF False] show ?thesis by (metis div_mult_mod_eq)
    qed
  qed
qed

lemma version_fmt_dot: "CHR ''.'' \<notin> set (show_nat n)"
  using show_nat_digits [of n] by (auto simp: list_all_iff is_digit_def)

lemma append_sep_inj:
  "c \<notin> set xs \<Longrightarrow> c \<notin> set xs' \<Longrightarrow> xs @ c # ys = xs' @ c # ys' \<Longrightarrow> xs = xs' \<and> ys = ys'"
proof (induction xs arbitrary: xs')
  case Nil
  then show ?case by (cases xs') auto
next
  case (Cons x xs)
  then show ?case by (cases xs') auto
qed

lemma version_fmt_injective: "version_fmt v = version_fmt w \<Longrightarrow> v = w"
proof -
  assume eq: "version_fmt v = version_fmt w"
  note dot = version_fmt_dot
  have mixed: False if "show_nat a = show_nat b @ CHR ''.'' # show_nat c" for a b c
    using dot [of a] that by simp
  show "v = w"
  proof (cases "vbranch v = 0"; cases "vbranch w = 0")
    assume "vbranch v = 0" "vbranch w = 0"
    with eq show ?thesis by (auto simp: version_fmt_def dest: show_nat_inj intro: version.expand)
  next
    assume "vbranch v = 0" "vbranch w \<noteq> 0"
    with eq mixed [of "vseq v" "vbranch w" "vseq w"] show ?thesis by (simp add: version_fmt_def)
  next
    assume "vbranch v \<noteq> 0" "vbranch w = 0"
    with eq mixed [of "vseq w" "vbranch v" "vseq v"] show ?thesis by (simp add: version_fmt_def)
  next
    assume "vbranch v \<noteq> 0" "vbranch w \<noteq> 0"
    with eq append_sep_inj [OF dot dot] show ?thesis
      by (auto simp: version_fmt_def dest!: show_nat_inj intro!: version.expand)
  qed
qed

end
