(* ===== verification/Dice_Slot.thy ===== *)
theory Dice_Slot
  imports Dice_Ids
begin

text \<open>
  What the core state keeps per key and per branch: assertion histories (\<^verbatim>\<open>history.rs\<close>), windows,
  claims and slots (\<^verbatim>\<open>slot.rs\<close>), and branches with their reverse-dependency maps
  (\<^verbatim>\<open>branch.rs\<close>), all of \<^verbatim>\<open>dice/dice_core/src\<close>. The lemmas say what a history answers after
  an entry is added at either end, when a window covers a sequence number, and that the in-place
  compaction of an edge list is a filter.
\<close>

section \<open>history.rs\<close>

record ('r, 'd) entry =
  entry_seq :: seq
  entry_revision :: 'r
  entry_data :: 'd

type_synonym ('r, 'd) history = "('r, 'd) entry list"

definition history_at :: "('r, 'd) history \<Rightarrow> seq \<Rightarrow> ('r, 'd) entry option" where
  "history_at h s = find (\<lambda>e. entry_seq e \<le> s) (rev h)"

definition history_first :: "('r, 'd) history \<Rightarrow> ('r, 'd) entry option" where
  "history_first h = (case h of [] \<Rightarrow> None | e # _ \<Rightarrow> Some e)"

definition history_last :: "('r, 'd) history \<Rightarrow> ('r, 'd) entry option" where
  "history_last h = (if h = [] then None else Some (last h))"

definition history_insert_first ::
  "('r, 'd) history \<Rightarrow> ('r, 'd) entry \<Rightarrow> ('r, 'd) history option" where
  "history_insert_first h e =
     (case history_first h of
        Some first \<Rightarrow> if entry_seq e < entry_seq first then Some (e # h) else None
      | None \<Rightarrow> Some (e # h))"

definition history_push :: "('r, 'd) history \<Rightarrow> ('r, 'd) entry \<Rightarrow> ('r, 'd) history option" where
  "history_push h e =
     (case history_last h of
        Some lst \<Rightarrow> if entry_seq lst < entry_seq e then Some (h @ [e]) else None
      | None \<Rightarrow> Some (h @ [e]))"

section \<open>slot.rs\<close>

record window =
  win_from :: seq
  win_until :: "seq option"

definition window_open :: "seq \<Rightarrow> window" where
  "window_open from = \<lparr>win_from = from, win_until = None\<rparr>"

definition window_closed :: "seq \<Rightarrow> seq \<Rightarrow> window option" where
  "window_closed from until =
     (if from \<le> until then Some \<lparr>win_from = from, win_until = Some until\<rparr> else None)"

definition window_empty :: "seq \<Rightarrow> window" where
  "window_empty at = \<lparr>win_from = at, win_until = Some at\<rparr>"

definition is_open :: "window \<Rightarrow> bool" where
  "is_open w \<longleftrightarrow> win_until w = None"

definition window_is_empty :: "window \<Rightarrow> bool" where
  "window_is_empty w \<longleftrightarrow> win_until w = Some (win_from w)"

definition is_nonempty_closed :: "window \<Rightarrow> bool" where
  "is_nonempty_closed w =
     (case win_until w of Some until \<Rightarrow> win_from w < until | None \<Rightarrow> False)"

definition covers :: "window \<Rightarrow> seq \<Rightarrow> bool" where
  "covers w s \<longleftrightarrow> win_from w \<le> s \<and> (case win_until w of None \<Rightarrow> True | Some until \<Rightarrow> s < until)"

text \<open>The debug assertion of \<^verbatim>\<open>close_at\<close> is kept: a window that is not open or does not reach
  \<open>until\<close> panics.\<close>

definition close_at :: "window \<Rightarrow> seq \<Rightarrow> window option" where
  "close_at w until =
     (if is_open w \<and> win_from w < until then Some (w\<lparr>win_until := Some until\<rparr>) else None)"

definition reach :: "window \<Rightarrow> nat" where
  "reach w = (case win_until w of None \<Rightarrow> u64_max | Some until \<Rightarrow> until)"

record ('p, 'a) claim =
  claim_cert :: "'p cert"
  claim_window :: window
  claim_attribute :: 'a

definition claim_revision :: "('p, 'a) claim \<Rightarrow> revision" where
  "claim_revision c = cert_revision (claim_cert c)"

record ('p, 'd, 'a) slot =
  slot_branch :: branch_id
  slot_claim :: "('p, 'a) claim option"
  slot_untracked :: "(epsilon_token, 'd) history"

definition slot_new :: "branch_id \<Rightarrow> ('p, 'd, 'a) slot" where
  "slot_new b = \<lparr>slot_branch = b, slot_claim = None, slot_untracked = []\<rparr>"

section \<open>branch.rs\<close>

record branch =
  br_parent :: "version option"
  br_children :: "(branch_id \<times> seq) list"
  br_first :: seq
  br_head :: seq
  br_rdeps :: "key list key_map"
  br_closed_index :: key_set

definition branch_root :: "seq \<Rightarrow> branch" where
  "branch_root first = \<lparr>br_parent = None, br_children = [], br_first = first, br_head = first,
     br_rdeps = [], br_closed_index = []\<rparr>"

definition branch_forked :: "version \<Rightarrow> branch" where
  "branch_forked parent = (branch_root seq_FIRST)\<lparr>br_parent := Some parent\<rparr>"

text \<open>\<^verbatim>\<open>remove_child\<close> swaps the child with the last one and pops it; a branch that is not a child
  panics.\<close>

definition swap_pop :: "nat \<Rightarrow> 'a list \<Rightarrow> 'a list" where
  "swap_pop i xs = butlast (xs[i := xs ! (length xs - 1), length xs - 1 := xs ! i])"

fun position :: "('a \<Rightarrow> bool) \<Rightarrow> 'a list \<Rightarrow> nat option" where
  "position P [] = None"
| "position P (x # xs) = (if P x then Some 0 else map_option Suc (position P xs))"

definition remove_child :: "branch \<Rightarrow> branch_id \<Rightarrow> branch option" where
  "remove_child br child =
     (case position (\<lambda>(c, _). c = child) (br_children br) of
        None \<Rightarrow> None
      | Some index \<Rightarrow> Some (br\<lparr>br_children := swap_pop index (br_children br)\<rparr>))"

definition rdeps_of :: "branch \<Rightarrow> key \<Rightarrow> key list" where
  "rdeps_of br dep = (case map_of (br_rdeps br) dep of None \<Rightarrow> [] | Some ks \<Rightarrow> ks)"

definition add_edge :: "branch \<Rightarrow> key \<Rightarrow> key \<Rightarrow> branch" where
  "add_edge br dep dependent =
     br\<lparr>br_rdeps := AList.update dep (rdeps_of br dep @ [dependent]) (br_rdeps br)\<rparr>"

definition take_rdeps :: "branch \<Rightarrow> key \<Rightarrow> key list \<times> branch" where
  "take_rdeps br dep = (rdeps_of br dep, br\<lparr>br_rdeps := AList.delete dep (br_rdeps br)\<rparr>)"

text \<open>The compaction loop of \<^verbatim>\<open>remove_edges\<close>: \<open>read\<close> runs over the slice, and what is kept is
  written back at \<open>write\<close>.\<close>

fun compact :: "key_set \<Rightarrow> key list \<Rightarrow> nat \<Rightarrow> nat list \<Rightarrow> key list \<times> nat" where
  "compact dependents slice write [] = (slice, write)"
| "compact dependents slice write (read # reads) =
     (if slice ! read \<notin> set dependents
      then compact dependents (slice[write := slice ! read]) (write + 1) reads
      else compact dependents slice write reads)"

definition remove_edges :: "branch \<Rightarrow> key \<Rightarrow> key_set \<Rightarrow> branch" where
  "remove_edges br dep dependents =
     (case map_of (br_rdeps br) dep of
        None \<Rightarrow> br
      | Some ks \<Rightarrow>
          (let (slice, write) = compact dependents ks 0 [0..<length ks]; kept = take write slice
           in if kept = [] then br\<lparr>br_rdeps := AList.delete dep (br_rdeps br)\<rparr>
              else br\<lparr>br_rdeps := AList.update dep kept (br_rdeps br)\<rparr>))"

lemmas [op_defs] = history_at_def history_first_def history_last_def history_insert_first_def
  history_push_def window_open_def window_closed_def window_empty_def is_open_def
  window_is_empty_def is_nonempty_closed_def covers_def close_at_def reach_def claim_revision_def
  slot_new_def branch_root_def branch_forked_def swap_pop_def remove_child_def rdeps_of_def
  add_edge_def take_rdeps_def remove_edges_def

section \<open>Lemmas on histories\<close>

definition sorted_history :: "('r, 'd) history \<Rightarrow> bool" where
  "sorted_history h \<longleftrightarrow> sorted_wrt (<) (map entry_seq h)"

lemma history_at_Nil [simp]: "history_at [] s = None"
  by (simp add: history_at_def)

lemma history_at_Some:
  "history_at h s = Some e \<Longrightarrow> e \<in> set h \<and> entry_seq e \<le> s"
  by (auto simp: history_at_def dest: find_Some_in)

lemma history_at_None: "history_at h s = None \<longleftrightarrow> (\<forall>e\<in>set h. s < entry_seq e)"
  by (auto simp: history_at_def find_None_iff not_le)

lemma history_at_append:
  "history_at (h @ [e]) s = (if entry_seq e \<le> s then Some e else history_at h s)"
  by (simp add: history_at_def)

lemma history_at_cons:
  "history_at (e # h) s =
     (case history_at h s of Some e' \<Rightarrow> Some e'
      | None \<Rightarrow> if entry_seq e \<le> s then Some e else None)"
  by (simp add: history_at_def find_append split: option.split)

lemma history_push_Some:
  "history_push h e = Some h' \<Longrightarrow> h' = h @ [e]"
  by (auto simp: history_push_def split: option.splits if_splits)

lemma history_push_total:
  "(\<And>x. x \<in> set h \<Longrightarrow> entry_seq x < entry_seq e) \<Longrightarrow> history_push h e = Some (h @ [e])"
  by (auto simp: history_push_def history_last_def)

lemma sorted_history_append:
  "sorted_history (h @ [e]) \<longleftrightarrow> sorted_history h \<and> (\<forall>x\<in>set h. entry_seq x < entry_seq e)"
  by (auto simp: sorted_history_def sorted_wrt_append)

lemma sorted_history_cons:
  "sorted_history (e # h) \<longleftrightarrow> sorted_history h \<and> (\<forall>x\<in>set h. entry_seq e < entry_seq x)"
  by (auto simp: sorted_history_def)

lemma sorted_history_Nil [simp]: "sorted_history []"
  by (simp add: sorted_history_def)

lemma history_insert_first_total:
  "(\<And>x. x \<in> set h \<Longrightarrow> entry_seq e < entry_seq x) \<Longrightarrow> history_insert_first h e = Some (e # h)"
  by (cases h) (auto simp: history_insert_first_def history_first_def)

section \<open>Lemmas on windows\<close>

lemma covers_open [simp]: "covers (window_open f) s \<longleftrightarrow> f \<le> s"
  by (simp add: covers_def window_open_def)

lemma covers_empty [simp]: "\<not> covers (window_empty f) s"
  by (simp add: covers_def window_empty_def)

lemma is_open_window [simp]: "is_open (window_open f)" "\<not> is_open (window_empty f)"
  by (simp_all add: is_open_def window_open_def window_empty_def)

lemma nonempty_closed_window [simp]:
  "\<not> is_nonempty_closed (window_open f)" "\<not> is_nonempty_closed (window_empty f)"
  by (simp_all add: is_nonempty_closed_def window_open_def window_empty_def)

lemma win_from_window [simp]: "win_from (window_open f) = f" "win_from (window_empty f) = f"
  by (simp_all add: window_open_def window_empty_def)

lemma win_until_window [simp]: "win_until (window_open f) = None" "win_until (window_empty f) = Some f"
  by (simp_all add: window_open_def window_empty_def)

lemma covers_nonempty: "covers w s \<Longrightarrow> \<not> is_open w \<Longrightarrow> is_nonempty_closed w"
  by (auto simp: covers_def is_open_def is_nonempty_closed_def)

section \<open>Lemmas on edge lists\<close>

text \<open>The compaction loop keeps, in place, exactly the elements outside \<open>dependents\<close>, in order.\<close>

lemma compact_filter:
  assumes "w \<le> n" "n \<le> length slice"
    and "take w slice = filter (\<lambda>k. k \<notin> set dependents) (take n orig)"
    and "drop n slice = drop n orig" "length slice = length orig"
    and "compact dependents slice w [n..<length slice] = (slice', w')"
  shows "take w' slice' = filter (\<lambda>k. k \<notin> set dependents) orig"
  using assms
proof (induction "length slice - n" arbitrary: n slice w)
  case 0
  then have "n = length slice" by simp
  with 0 show ?case by simp
next
  case (Suc m)
  then have n: "n < length slice" by simp
  then have up: "[n..<length slice] = n # [Suc n..<length slice]" by (simp add: upt_conv_Cons)
  have nth: "slice ! n = orig ! n"
    using Suc.prems(4,5) n by (metis nth_via_drop Cons_nth_drop_Suc)
  have tk: "take (Suc n) orig = take n orig @ [slice ! n]"
    using n nth Suc.prems(5) by (simp add: take_Suc_conv_app_nth)
  show ?case
  proof (cases "slice ! n \<in> set dependents")
    case True
    with Suc.prems(6) up have c: "compact dependents slice w [Suc n..<length slice] = (slice', w')"
      by simp
    show ?thesis
    proof (rule Suc.hyps(1) [of slice "Suc n" w])
      show "m = length slice - Suc n" using Suc.hyps(2) by simp
      show "drop (Suc n) slice = drop (Suc n) orig"
        using Suc.prems(4) by (metis drop_Suc tl_drop)
    qed (use Suc.prems n tk True c in auto)
  next
    case False
    let ?s = "slice[w := slice ! n]"
    from False Suc.prems(6) up
    have c: "compact dependents ?s (w + 1) [Suc n..<length ?s] = (slice', w')" by simp
    have twr: "take (w + 1) ?s = take w slice @ [slice ! n]"
      using Suc.prems(1) n by (simp add: take_Suc_conv_app_nth)
    show ?thesis
    proof (rule Suc.hyps(1) [of ?s "Suc n" "w + 1"])
      show "m = length ?s - Suc n" using Suc.hyps(2) by simp
      have "drop (Suc n) ?s = drop (Suc n) slice" using Suc.prems(1) by simp
      then show "drop (Suc n) ?s = drop (Suc n) orig"
        using Suc.prems(4) by (metis drop_Suc tl_drop)
      show "take (w + 1) ?s = filter (\<lambda>k. k \<notin> set dependents) (take (Suc n) orig)"
        using Suc.prems(3) twr tk False by simp
    qed (use Suc.prems n c in auto)
  qed
qed

lemma rdeps_of_remove_edges:
  "rdeps_of (remove_edges br dep ds) x =
     (if x = dep then filter (\<lambda>k. k \<notin> set ds) (rdeps_of br x) else rdeps_of br x)"
proof (cases "map_of (br_rdeps br) dep")
  case None
  then show ?thesis by (simp add: remove_edges_def rdeps_of_def)
next
  case (Some ks)
  obtain slice w where c: "compact ds ks 0 [0..<length ks] = (slice, w)"
    by (cases "compact ds ks 0 [0..<length ks]")
  have "take w slice = filter (\<lambda>k. k \<notin> set ds) ks"
    using compact_filter [of 0 0 ks ds ks slice w] c by simp
  with Some c show ?thesis by (auto simp: remove_edges_def rdeps_of_def Let_def)
qed

lemma rdeps_of_add_edge:
  "rdeps_of (add_edge br dep k) x = (if x = dep then rdeps_of br x @ [k] else rdeps_of br x)"
  by (simp add: add_edge_def rdeps_of_def)

lemma rdeps_of_take_rdeps:
  "rdeps_of (snd (take_rdeps br dep)) x = (if x = dep then [] else rdeps_of br x)"
  by (simp add: take_rdeps_def rdeps_of_def)

lemma branch_edge_frame [simp]:
  "br_parent (add_edge br d k) = br_parent br" "br_children (add_edge br d k) = br_children br"
  "br_first (add_edge br d k) = br_first br" "br_head (add_edge br d k) = br_head br"
  "br_closed_index (add_edge br d k) = br_closed_index br"
  "br_parent (snd (take_rdeps br d)) = br_parent br"
  "br_children (snd (take_rdeps br d)) = br_children br"
  "br_first (snd (take_rdeps br d)) = br_first br" "br_head (snd (take_rdeps br d)) = br_head br"
  "br_closed_index (snd (take_rdeps br d)) = br_closed_index br"
  "br_parent (remove_edges br d ds) = br_parent br"
  "br_children (remove_edges br d ds) = br_children br"
  "br_first (remove_edges br d ds) = br_first br" "br_head (remove_edges br d ds) = br_head br"
  "br_closed_index (remove_edges br d ds) = br_closed_index br"
  by (auto simp: add_edge_def take_rdeps_def remove_edges_def Let_def split: option.splits prod.splits)

section \<open>Lemmas on children\<close>

lemma position_Some:
  "position P xs = Some i \<Longrightarrow> i < length xs \<and> P (xs ! i)"
  by (induction xs arbitrary: i) (auto split: if_splits)

lemma position_None: "position P xs = None \<longleftrightarrow> (\<forall>x\<in>set xs. \<not> P x)"
  by (induction xs) (auto split: if_splits)

lemma mset_swap_pop:
  "i < length xs \<Longrightarrow> distinct xs \<Longrightarrow>
     set (swap_pop i xs) = set xs - {xs ! i} \<and> distinct (swap_pop i xs)"
proof -
  assume i: "i < length xs" and d: "distinct xs"
  let ?n = "length xs - 1"
  let ?ys = "xs[i := xs ! ?n, ?n := xs ! i]"
  have n: "?n < length xs" using i by auto
  have ys: "distinct ?ys" "set ?ys = set xs" using i n d by (simp_all add: distinct_swap)
  have "?ys \<noteq> []" using i by auto
  moreover have "last ?ys = ?ys ! ?n" using i by (subst last_conv_nth) auto
  ultimately have "?ys \<noteq> []" "last ?ys = xs ! i" using n by auto
  then have "?ys = butlast ?ys @ [xs ! i]" by (metis append_butlast_last_id)
  with ys have "distinct (butlast ?ys @ [xs ! i])" "set (butlast ?ys @ [xs ! i]) = set xs" by metis+
  then show ?thesis by (auto simp: swap_pop_def)
qed

end
