(* ===== verification/Dice_State.thy ===== *)
theory Dice_State
  imports Dice_Slot
begin

text \<open>
  The core state of \<^verbatim>\<open>dice/dice_core/src/state.rs\<close>: its record, its accessors and its small
  mutators. A method that hands out a \<^verbatim>\<open>&mut\<close> takes the update as a function. The second half
  reads a state through views (the parent, the claim, the histories and the edges of each branch),
  and says what each mutator leaves of each view; every later proof works on the views.
\<close>

section \<open>The state\<close>

type_synonym ('p, 'd, 'a) key_slots = "('p, 'd, 'a) slot list"
type_synonym 'd key_assertions = "(branch_id \<times> (revision, 'd) history) list"

record ('p, 'd, 'a) core_state =
  branches :: "branch option list"
  slots :: "('p, 'd, 'a) key_slots key_map"
  assertions :: "'d key_assertions key_map"
  key_count :: nat

definition core_new :: "('p, 'd, 'a) core_state" where
  "core_new = \<lparr>branches = [], slots = [], assertions = [], key_count = 0\<rparr>"

definition new_root :: "('p, 'd, 'a) core_state \<Rightarrow> (branch_id \<times> ('p, 'd, 'a) core_state) option" where
  "new_root st = do {
     b \<leftarrow> branch_from_index (length (branches st));
     Some (b, st\<lparr>branches := branches st @ [Some (branch_root seq_FIRST)]\<rparr>) }"

text \<open>\<^verbatim>\<open>branch\<close> and \<^verbatim>\<open>branch_mut\<close> panic on a branch that is out of range or deleted.\<close>

definition branch_of :: "('p, 'd, 'a) core_state \<Rightarrow> branch_id \<Rightarrow> branch option" where
  "branch_of st b = (if b < length (branches st) then branches st ! b else None)"

definition branch_mut ::
  "('p, 'd, 'a) core_state \<Rightarrow> branch_id \<Rightarrow> (branch \<Rightarrow> branch option) \<Rightarrow> ('p, 'd, 'a) core_state option" where
  "branch_mut st b f = do {
     br \<leftarrow> branch_of st b;
     br' \<leftarrow> f br;
     Some (st\<lparr>branches := (branches st)[b := Some br']\<rparr>) }"

definition head_of :: "('p, 'd, 'a) core_state \<Rightarrow> branch_id \<Rightarrow> version option" where
  "head_of st b = map_option (\<lambda>br. Version b (br_head br)) (branch_of st b)"

definition first_of :: "('p, 'd, 'a) core_state \<Rightarrow> branch_id \<Rightarrow> version option" where
  "first_of st b = map_option (\<lambda>br. Version b (br_first br)) (branch_of st b)"

definition parent_of :: "('p, 'd, 'a) core_state \<Rightarrow> branch_id \<Rightarrow> version option option" where
  "parent_of st b = map_option br_parent (branch_of st b)"

definition live_branches :: "('p, 'd, 'a) core_state \<Rightarrow> branch_id list" where
  "live_branches st =
     List.map_filter (\<lambda>(index, branch). map_option (\<lambda>_. index) branch)
       (List.enumerate 0 (branches st))"

definition is_live :: "('p, 'd, 'a) core_state \<Rightarrow> branch_id \<Rightarrow> bool" where
  "is_live st b \<longleftrightarrow> b < length (branches st) \<and> branches st ! b \<noteq> None"

definition is_asserted :: "('p, 'd, 'a) core_state \<Rightarrow> key \<Rightarrow> bool" where
  "is_asserted st key \<longleftrightarrow> map_of (assertions st) key \<noteq> None"

definition slots_of :: "('p, 'd, 'a) core_state \<Rightarrow> key \<Rightarrow> ('p, 'd, 'a) key_slots" where
  "slots_of st key = (case map_of (slots st) key of None \<Rightarrow> [] | Some ss \<Rightarrow> ss)"

definition slot_of :: "('p, 'd, 'a) core_state \<Rightarrow> key \<Rightarrow> branch_id \<Rightarrow> ('p, 'd, 'a) slot option" where
  "slot_of st key b = do {
     ss \<leftarrow> map_of (slots st) key;
     find (\<lambda>slot. slot_branch slot = b) ss }"

text \<open>\<^verbatim>\<open>slot_mut\<close>, with the update: a key without a slot at \<open>b\<close> is left alone.\<close>

definition slot_mut ::
  "('p, 'd, 'a) core_state \<Rightarrow> key \<Rightarrow> branch_id \<Rightarrow> (('p, 'd, 'a) slot \<Rightarrow> ('p, 'd, 'a) slot)
   \<Rightarrow> ('p, 'd, 'a) core_state" where
  "slot_mut st key b f =
     (case map_of (slots st) key of
        None \<Rightarrow> st
      | Some ss \<Rightarrow>
          st\<lparr>slots := AList.update key (update_first (\<lambda>slot. slot_branch slot = b) f ss) (slots st)\<rparr>)"

text \<open>\<^verbatim>\<open>slot_or_insert\<close>: the key's entry and its slot at \<open>b\<close> are made if they are missing.\<close>

definition slot_or_insert ::
  "('p, 'd, 'a) core_state \<Rightarrow> key \<Rightarrow> branch_id \<Rightarrow> ('p, 'd, 'a) core_state" where
  "slot_or_insert st key b =
     (let (ss, count) =
            (case map_of (slots st) key of
               Some ss \<Rightarrow> (ss, key_count st)
             | None \<Rightarrow> ([], if map_of (assertions st) key = None then key_count st + 1
                             else key_count st));
          ss' = (if \<exists>slot\<in>set ss. slot_branch slot = b then ss else ss @ [slot_new b])
      in st\<lparr>slots := AList.update key ss' (slots st), key_count := count\<rparr>)"

definition history_of :: "'d key_assertions \<Rightarrow> branch_id \<Rightarrow> (revision, 'd) history option" where
  "history_of hs b = map_option snd (find (\<lambda>(hb, _). hb = b) hs)"

text \<open>\<^verbatim>\<open>assertion_history_mut\<close>, with the update, which may panic.\<close>

definition assertion_history_mut ::
  "('p, 'd, 'a) core_state \<Rightarrow> key \<Rightarrow> branch_id
   \<Rightarrow> ((revision, 'd) history \<Rightarrow> (revision, 'd) history option)
   \<Rightarrow> ('p, 'd, 'a) core_state option" where
  "assertion_history_mut st key b f =
     (let (hs, count) =
            (case map_of (assertions st) key of
               Some hs \<Rightarrow> (hs, key_count st)
             | None \<Rightarrow> ([], if map_of (slots st) key = None then key_count st + 1
                             else key_count st));
          hs' = (if \<exists>(hb, _)\<in>set hs. hb = b then hs else hs @ [(b, [])])
      in do {
        h \<leftarrow> history_of hs' b;
        h' \<leftarrow> f h;
        Some (st\<lparr>assertions :=
                   AList.update key (update_first (\<lambda>(hb, _). hb = b) (\<lambda>(hb, _). (hb, h')) hs')
                     (assertions st),
                 key_count := count\<rparr>) })"

definition set_claim ::
  "('p, 'd, 'a) core_state \<Rightarrow> key \<Rightarrow> branch_id \<Rightarrow> ('p, 'a) claim option
   \<Rightarrow> ('p, 'd, 'a) core_state option" where
  "set_claim st key b claim =
     (let was_closed =
            (case slot_of st key b \<bind> slot_claim of
               None \<Rightarrow> False | Some c \<Rightarrow> is_nonempty_closed (claim_window c));
          now_closed =
            (case claim of None \<Rightarrow> False | Some c \<Rightarrow> is_nonempty_closed (claim_window c));
          st1 =
            (case claim of
               Some c \<Rightarrow> slot_mut (slot_or_insert st key b) key b (\<lambda>slot. slot\<lparr>slot_claim := Some c\<rparr>)
             | None \<Rightarrow> slot_mut st key b (\<lambda>slot. slot\<lparr>slot_claim := None\<rparr>))
      in branch_mut st1 b (\<lambda>br.
           if now_closed then Some (br\<lparr>br_closed_index := List.insert key (br_closed_index br)\<rparr>)
           else if was_closed then Some (br\<lparr>br_closed_index := removeAll key (br_closed_index br)\<rparr>)
           else Some br))"

definition detach ::
  "('p, 'd, 'a) core_state \<Rightarrow> key \<Rightarrow> branch_id \<Rightarrow> seq \<Rightarrow> ('p, 'd, 'a) core_state option" where
  "detach st key b at = do {
     claim \<leftarrow> slot_of st key b \<bind> slot_claim;
     w \<leftarrow> close_at (claim_window claim) at;
     branch_mut
       (slot_mut st key b (\<lambda>slot. slot\<lparr>slot_claim := Some (claim\<lparr>claim_window := w\<rparr>)\<rparr>)) b
       (\<lambda>br. Some (br\<lparr>br_closed_index := List.insert key (br_closed_index br)\<rparr>)) }"

definition register_edges ::
  "('p, 'd, 'a) env \<Rightarrow> ('p, 'd, 'a) core_state \<Rightarrow> branch_id \<Rightarrow> 'p cert
   \<Rightarrow> ('p, 'd, 'a) core_state option" where
  "register_edges E st b cert =
     branch_mut st b (\<lambda>br.
       Some (foldl (\<lambda>br p. add_edge br (premise_key p) (cert_key cert)) br (cert_premises E cert)))"

definition pinned_certs :: "('p, 'd, 'a) core_state \<Rightarrow> key \<Rightarrow> 'p cert list" where
  "pinned_certs st key = List.map_filter (\<lambda>slot. map_option claim_cert (slot_claim slot)) (slots_of st key)"

definition is_referenced :: "('p, 'd, 'a) core_state \<Rightarrow> key \<Rightarrow> revision \<Rightarrow> bool" where
  "is_referenced st key revision \<longleftrightarrow>
     (\<exists>cert\<in>set (pinned_certs st key). cert_revision cert = revision)
     \<or> (case map_of (assertions st) key of
          None \<Rightarrow> False
        | Some hs \<Rightarrow> \<exists>(_, history)\<in>set hs. \<exists>e\<in>set history. entry_revision e = revision)"

section \<open>introspect.rs\<close>

definition core_keys :: "('p, 'd, 'a) core_state \<Rightarrow> key list" where
  "core_keys st =
     map fst (slots st) @ filter (\<lambda>key. map_of (slots st) key = None) (map fst (assertions st))"

record ('p, 'd, 'a) key_introspection =
  ki_slots :: "('p, 'd, 'a) key_slots"
  ki_assertions :: "'d key_assertions"

definition introspect_key :: "('p, 'd, 'a) core_state \<Rightarrow> key \<Rightarrow> ('p, 'd, 'a) key_introspection" where
  "introspect_key st key =
     \<lparr>ki_slots = slots_of st key,
      ki_assertions = (case map_of (assertions st) key of None \<Rightarrow> [] | Some hs \<Rightarrow> hs)\<rparr>"

definition rdeps :: "('p, 'd, 'a) core_state \<Rightarrow> branch_id \<Rightarrow> key \<Rightarrow> key list option" where
  "rdeps st b key = map_option (\<lambda>br. rdeps_of br key) (branch_of st b)"

lemmas [op_defs] = core_new_def new_root_def branch_of_def branch_mut_def head_of_def first_of_def
  parent_of_def live_branches_def is_live_def is_asserted_def slots_of_def slot_of_def slot_mut_def
  slot_or_insert_def history_of_def assertion_history_mut_def set_claim_def detach_def
  register_edges_def pinned_certs_def is_referenced_def core_keys_def introspect_key_def rdeps_def

section \<open>Views of a state\<close>

text \<open>
  How later proofs read a state. \<open>par\<close>, \<open>fseq\<close>, \<open>hseq\<close> and \<open>kids\<close> are a branch's parent, first
  and newest sequence number and children; \<open>claim_at\<close> its claim of a key; \<open>dirts\<close> and \<open>hist\<close> its
  histories of an untracked input and of an asserted key; \<open>edges\<close> and \<open>closed_set\<close> its
  reverse dependencies and its index of closed claims.
\<close>

definition par :: "('p, 'd, 'a) core_state \<Rightarrow> branch_id \<Rightarrow> version option" where
  "par st b = branch_of st b \<bind> br_parent"

definition fseq :: "('p, 'd, 'a) core_state \<Rightarrow> branch_id \<Rightarrow> seq" where
  "fseq st b = (case branch_of st b of None \<Rightarrow> 0 | Some br \<Rightarrow> br_first br)"

definition hseq :: "('p, 'd, 'a) core_state \<Rightarrow> branch_id \<Rightarrow> seq" where
  "hseq st b = (case branch_of st b of None \<Rightarrow> 0 | Some br \<Rightarrow> br_head br)"

definition kids :: "('p, 'd, 'a) core_state \<Rightarrow> branch_id \<Rightarrow> (branch_id \<times> seq) list" where
  "kids st b = (case branch_of st b of None \<Rightarrow> [] | Some br \<Rightarrow> br_children br)"

definition claim_at :: "('p, 'd, 'a) core_state \<Rightarrow> key \<Rightarrow> branch_id \<Rightarrow> ('p, 'a) claim option" where
  "claim_at st k b = slot_of st k b \<bind> slot_claim"

definition dirts :: "('p, 'd, 'a) core_state \<Rightarrow> key \<Rightarrow> branch_id \<Rightarrow> (epsilon_token, 'd) history" where
  "dirts st k b = (case slot_of st k b of None \<Rightarrow> [] | Some slot \<Rightarrow> slot_untracked slot)"

definition hist :: "('p, 'd, 'a) core_state \<Rightarrow> key \<Rightarrow> branch_id \<Rightarrow> (revision, 'd) history" where
  "hist st k b = (case map_of (assertions st) k of None \<Rightarrow> []
     | Some hs \<Rightarrow> (case history_of hs b of None \<Rightarrow> [] | Some h \<Rightarrow> h))"

definition edges :: "('p, 'd, 'a) core_state \<Rightarrow> branch_id \<Rightarrow> key \<Rightarrow> key list" where
  "edges st b x = (case branch_of st b of None \<Rightarrow> [] | Some br \<Rightarrow> rdeps_of br x)"

definition closed_set :: "('p, 'd, 'a) core_state \<Rightarrow> branch_id \<Rightarrow> key set" where
  "closed_set st b = (case branch_of st b of None \<Rightarrow> {} | Some br \<Rightarrow> set (br_closed_index br))"

lemmas view_defs = par_def fseq_def hseq_def kids_def edges_def closed_set_def

lemma is_live_branch_of: "is_live st b \<longleftrightarrow> branch_of st b \<noteq> None"
  by (simp add: is_live_def branch_of_def)

lemma is_live_Some: "is_live st b \<Longrightarrow> \<exists>br. branch_of st b = Some br"
  by (simp add: is_live_branch_of)

lemma branch_of_length: "branch_of st b = Some br \<Longrightarrow> b < length (branches st)"
  by (auto simp: branch_of_def split: if_splits)

lemma is_live_less: "is_live st b \<Longrightarrow> b < length (branches st)"
  by (simp add: is_live_def)

subsection \<open>The same world\<close>

text \<open>
  Two states have the same world if they agree on the tree, on what has been asserted and on the
  histories of untracked inputs, that is, on everything but claims and edges.
\<close>

definition same_tree :: "('p, 'd, 'a) core_state \<Rightarrow> ('p, 'd, 'a) core_state \<Rightarrow> bool" where
  "same_tree st st' \<longleftrightarrow> length (branches st') = length (branches st) \<and> is_live st' = is_live st
     \<and> par st' = par st \<and> fseq st' = fseq st \<and> hseq st' = hseq st \<and> kids st' = kids st"

definition same_world :: "('p, 'd, 'a) core_state \<Rightarrow> ('p, 'd, 'a) core_state \<Rightarrow> bool" where
  "same_world st st' \<longleftrightarrow> same_tree st st' \<and> dirts st' = dirts st \<and> hist st' = hist st
     \<and> is_asserted st' = is_asserted st"

lemma same_tree_refl [simp]: "same_tree st st"
  by (simp add: same_tree_def)

lemma same_world_refl [simp]: "same_world st st"
  by (simp add: same_world_def)

lemma same_world_trans: "same_world a b \<Longrightarrow> same_world b c \<Longrightarrow> same_world a c"
  by (auto simp: same_world_def same_tree_def)

lemma same_world_views:
  assumes "same_world st st'"
  shows "is_live st' = is_live st" "par st' = par st" "fseq st' = fseq st" "hseq st' = hseq st"
    "kids st' = kids st" "dirts st' = dirts st" "hist st' = hist st"
    "is_asserted st' = is_asserted st" "length (branches st') = length (branches st)"
  using assms by (simp_all add: same_world_def same_tree_def)

subsection \<open>branch_mut\<close>

lemma branch_of_set:
  "b < length (branches st) \<Longrightarrow>
     branch_of (st\<lparr>branches := (branches st)[b := x]\<rparr>) = (branch_of st)(b := x)"
  by (intro ext) (simp add: branch_of_def nth_list_update)

lemma branch_mut_Some:
  assumes "branch_mut st b f = Some st'"
  shows "\<exists>br br'. branch_of st b = Some br \<and> f br = Some br'
    \<and> branch_of st' = (branch_of st)(b \<mapsto> br')
    \<and> slots st' = slots st \<and> assertions st' = assertions st \<and> key_count st' = key_count st
    \<and> length (branches st') = length (branches st)"
proof -
  obtain br br' where br: "branch_of st b = Some br" "f br = Some br'"
    "st' = st\<lparr>branches := (branches st)[b := Some br']\<rparr>"
    using assms by (auto simp: branch_mut_def bind_eq_Some_conv)
  with branch_of_set [OF branch_of_length [OF br(1)], of "Some br'"] show ?thesis by simp
qed

lemma branch_mut_total:
  "is_live st b \<Longrightarrow> (\<And>br. branch_of st b = Some br \<Longrightarrow> f br \<noteq> None) \<Longrightarrow> \<exists>st'. branch_mut st b f = Some st'"
  by (auto simp: branch_mut_def is_live_branch_of)

lemma slot_of_cong: "slots st' = slots st \<Longrightarrow> slot_of st' = slot_of st"
  by (intro ext) (simp add: slot_of_def)

lemma slot_views_cong:
  "slots st' = slots st \<Longrightarrow> claim_at st' = claim_at st \<and> dirts st' = dirts st"
  using slot_of_cong [of st' st] by (auto simp: claim_at_def dirts_def fun_eq_iff)

lemma assertion_views_cong:
  "assertions st' = assertions st \<Longrightarrow> hist st' = hist st \<and> is_asserted st' = is_asserted st"
  by (auto simp: hist_def is_asserted_def fun_eq_iff)

text \<open>A change to a branch that keeps its parent, children, first and head keeps the world.\<close>

lemma branch_mut_world:
  assumes m: "branch_mut st b f = Some st'"
    and f: "\<And>br br'. f br = Some br' \<Longrightarrow> br_parent br' = br_parent br
      \<and> br_children br' = br_children br \<and> br_first br' = br_first br \<and> br_head br' = br_head br"
  shows "same_world st st'" "claim_at st' = claim_at st"
    "slots st' = slots st" "assertions st' = assertions st" "key_count st' = key_count st"
proof -
  obtain br br' where br: "branch_of st b = Some br" "f br = Some br'"
    "branch_of st' = (branch_of st)(b \<mapsto> br')"
    "slots st' = slots st" "assertions st' = assertions st" "key_count st' = key_count st"
    "length (branches st') = length (branches st)"
    using branch_mut_Some [OF m] by blast
  note fr = f [OF br(2)]
  have tree: "is_live st' = is_live st" "par st' = par st" "fseq st' = fseq st"
    "hseq st' = hseq st" "kids st' = kids st"
    using br(1,3) fr by (auto simp: fun_eq_iff is_live_branch_of view_defs)
  with br slot_views_cong [OF br(4)] assertion_views_cong [OF br(5)]
  show "same_world st st'" "claim_at st' = claim_at st" "slots st' = slots st"
    "assertions st' = assertions st" "key_count st' = key_count st"
    by (simp_all add: same_world_def same_tree_def)
qed

subsection \<open>Slots\<close>

lemma slot_of_slots_of: "slot_of st k b = find (\<lambda>slot. slot_branch slot = b) (slots_of st k)"
  by (simp add: slot_of_def slots_of_def split: option.split)

lemma slots_of_slot_or_insert:
  "slots_of (slot_or_insert st k b) k' =
     (if k' = k \<and> slot_of st k b = None then slots_of st k @ [slot_new b] else slots_of st k')"
  by (auto simp: slot_or_insert_def slots_of_def slot_of_def Let_def find_None_iff
      split: option.splits prod.splits)

lemma slots_of_slot_mut:
  "slots_of (slot_mut st k b f) k' =
     (if k' = k then update_first (\<lambda>slot. slot_branch slot = b) f (slots_of st k) else slots_of st k')"
  by (auto simp: slot_mut_def slots_of_def split: option.splits)

lemma slot_of_slot_or_insert:
  "slot_of (slot_or_insert st k b) k' b' =
     (if k' = k \<and> b' = b \<and> slot_of st k b = None then Some (slot_new b) else slot_of st k' b')"
  by (auto simp: slot_of_slots_of slots_of_slot_or_insert find_append slot_new_def split: option.splits)

lemma slot_of_slot_mut:
  assumes "\<And>s. slot_branch (f s) = slot_branch s"
  shows "slot_of (slot_mut st k b f) k' b' =
     (if k' = k \<and> b' = b then map_option f (slot_of st k b) else slot_of st k' b')"
proof (cases "k' = k \<and> b' \<noteq> b")
  case True
  then show ?thesis
    using assms by (simp add: slot_of_slots_of slots_of_slot_mut)
      (rule find_update_first_other, auto)
next
  case False
  then show ?thesis
    using assms by (auto simp: slot_of_slots_of slots_of_slot_mut find_update_first_same)
qed

lemma slot_ops_frame [simp]:
  "branches (slot_mut st k b f) = branches st" "assertions (slot_mut st k b f) = assertions st"
  "key_count (slot_mut st k b f) = key_count st"
  "branches (slot_or_insert st k b) = branches st" "assertions (slot_or_insert st k b) = assertions st"
  by (auto simp: slot_mut_def slot_or_insert_def Let_def split: option.splits prod.splits)

lemma branch_of_cong: "branches st' = branches st \<Longrightarrow> branch_of st' = branch_of st"
  by (intro ext) (simp add: branch_of_def)

lemma branch_views_cong:
  assumes "branches st' = branches st"
  shows "is_live st' = is_live st" "par st' = par st" "fseq st' = fseq st" "hseq st' = hseq st"
    "kids st' = kids st" "edges st' = edges st" "closed_set st' = closed_set st"
  using branch_of_cong [OF assms] by (auto simp: fun_eq_iff is_live_branch_of view_defs)

lemma map_of_slots_slot_or_insert:
  "map_of (slots (slot_or_insert st k b)) k' =
     (if k' = k then Some (slots_of (slot_or_insert st k b) k) else map_of (slots st) k')"
  by (auto simp: slot_or_insert_def slots_of_def Let_def split: option.splits prod.splits)

lemma dom_slots_slot_mut: "dom (map_of (slots (slot_mut st k b f))) = dom (map_of (slots st))"
  by (auto simp: slot_mut_def split: option.splits)

lemma dom_slots_slot_or_insert:
  "dom (map_of (slots (slot_or_insert st k b))) = insert k (dom (map_of (slots st)))"
  by (auto simp: map_of_slots_slot_or_insert split: if_splits)

subsection \<open>set_claim, detach, register_edges\<close>

definition set_slot_claim ::
  "('p, 'd, 'a) core_state \<Rightarrow> key \<Rightarrow> branch_id \<Rightarrow> ('p, 'a) claim \<Rightarrow> ('p, 'd, 'a) core_state" where
  "set_slot_claim st k b c = slot_mut (slot_or_insert st k b) k b (\<lambda>slot. slot\<lparr>slot_claim := Some c\<rparr>)"

lemma slot_of_set_slot_claim:
  "slot_of (set_slot_claim st k b c) k' b' =
     (if k' = k \<and> b' = b
      then Some ((case slot_of st k b of None \<Rightarrow> slot_new b | Some s \<Rightarrow> s)\<lparr>slot_claim := Some c\<rparr>)
      else slot_of st k' b')"
  by (auto simp: set_slot_claim_def slot_of_slot_mut slot_of_slot_or_insert split: option.splits)

lemma set_slot_claim_views:
  "claim_at (set_slot_claim st k b c) k' b' = (if k' = k \<and> b' = b then Some c else claim_at st k' b')"
  "dirts (set_slot_claim st k b c) = dirts st"
  "same_world st (set_slot_claim st k b c)"
  "edges (set_slot_claim st k b c) = edges st"
  "closed_set (set_slot_claim st k b c) = closed_set st"
proof -
  have br: "branches (set_slot_claim st k b c) = branches st" by (simp add: set_slot_claim_def)
  have as: "assertions (set_slot_claim st k b c) = assertions st" by (simp add: set_slot_claim_def)
  show "claim_at (set_slot_claim st k b c) k' b' = (if k' = k \<and> b' = b then Some c else claim_at st k' b')"
    by (simp add: claim_at_def slot_of_set_slot_claim)
  show d: "dirts (set_slot_claim st k b c) = dirts st"
    by (intro ext) (auto simp: dirts_def slot_of_set_slot_claim slot_new_def split: option.splits)
  show "same_world st (set_slot_claim st k b c)"
    using branch_views_cong [OF br] assertion_views_cong [OF as] d br
    by (simp add: same_world_def same_tree_def)
  show "edges (set_slot_claim st k b c) = edges st" "closed_set (set_slot_claim st k b c) = closed_set st"
    using branch_views_cong [OF br] by auto
qed

lemma set_claim_eq:
  "set_claim st k b (Some c) = branch_mut (set_slot_claim st k b c) b
     (\<lambda>br. Some (if is_nonempty_closed (claim_window c)
                 then br\<lparr>br_closed_index := List.insert k (br_closed_index br)\<rparr>
                 else if (case claim_at st k b of None \<Rightarrow> False | Some c \<Rightarrow> is_nonempty_closed (claim_window c))
                 then br\<lparr>br_closed_index := removeAll k (br_closed_index br)\<rparr> else br))"
  by (auto simp: set_claim_def set_slot_claim_def claim_at_def Let_def intro!: arg_cong [where f = "branch_mut _ _"])

lemma set_claim_views:
  assumes "set_claim st k b (Some c) = Some st'"
  shows "claim_at st' k' b' = (if k' = k \<and> b' = b then Some c else claim_at st k' b')"
    and "same_world st st'" "edges st' = edges st"
    and "closed_set st' b' = (if b' = b then
        (if is_nonempty_closed (claim_window c) then insert k (closed_set st b)
         else if (case claim_at st k b of None \<Rightarrow> False | Some c \<Rightarrow> is_nonempty_closed (claim_window c))
         then closed_set st b - {k} else closed_set st b) else closed_set st b')"
    and "slots st' = slots (set_slot_claim st k b c)" "assertions st' = assertions st"
proof -
  note m = assms [unfolded set_claim_eq]
  note sv = set_slot_claim_views
  have w: "same_world (set_slot_claim st k b c) st'" "claim_at st' = claim_at (set_slot_claim st k b c)"
    "slots st' = slots (set_slot_claim st k b c)"
    "assertions st' = assertions (set_slot_claim st k b c)"
    by (rule branch_mut_world [OF m]; auto split: if_splits)+
  show "claim_at st' k' b' = (if k' = k \<and> b' = b then Some c else claim_at st k' b')"
    by (simp add: w(2) sv)
  show "same_world st st'" by (rule same_world_trans [OF sv(3) w(1)])
  show "slots st' = slots (set_slot_claim st k b c)" "assertions st' = assertions st"
    using w by (simp_all add: set_slot_claim_def)
  obtain br br' where br: "branch_of (set_slot_claim st k b c) b = Some br"
    "(if is_nonempty_closed (claim_window c)
                 then br\<lparr>br_closed_index := List.insert k (br_closed_index br)\<rparr>
                 else if (case claim_at st k b of None \<Rightarrow> False | Some c \<Rightarrow> is_nonempty_closed (claim_window c))
                 then br\<lparr>br_closed_index := removeAll k (br_closed_index br)\<rparr> else br) = br'"
    "branch_of st' = (branch_of (set_slot_claim st k b c))(b \<mapsto> br')"
    using branch_mut_Some [OF m] by auto
  have eq: "branch_of (set_slot_claim st k b c) = branch_of st"
    by (rule branch_of_cong) (simp add: set_slot_claim_def)
  show "edges st' = edges st"
    using br eq by (auto simp: fun_eq_iff edges_def rdeps_of_def)
  show "closed_set st' b' = (if b' = b then
        (if is_nonempty_closed (claim_window c) then insert k (closed_set st b)
         else if (case claim_at st k b of None \<Rightarrow> False | Some c \<Rightarrow> is_nonempty_closed (claim_window c))
         then closed_set st b - {k} else closed_set st b) else closed_set st b')"
    using br eq by (auto simp: closed_set_def)
qed

lemma set_claim_total: "is_live st b \<Longrightarrow> \<exists>st'. set_claim st k b (Some c) = Some st'"
  unfolding set_claim_eq
  by (rule branch_mut_total) (auto simp: same_world_views [OF set_slot_claim_views(3)])

lemma detach_eq:
  assumes "claim_at st k b = Some c" "close_at (claim_window c) at = Some w"
  shows "detach st k b at = branch_mut (set_slot_claim st k b (c\<lparr>claim_window := w\<rparr>)) b
       (\<lambda>br. Some (br\<lparr>br_closed_index := List.insert k (br_closed_index br)\<rparr>))"
proof -
  obtain s where s: "slot_of st k b = Some s" "slot_claim s = Some c"
    using assms(1) by (auto simp: claim_at_def bind_eq_Some_conv)
  obtain ss where ss: "map_of (slots st) k = Some ss" "\<exists>slot\<in>set ss. slot_branch slot = b"
    using s(1) by (auto simp: slot_of_def bind_eq_Some_conv dest: find_Some_in)
  then have "slot_or_insert st k b = st"
    by (simp add: slot_or_insert_def update_triv)
  with s assms(2) show ?thesis by (simp add: detach_def set_slot_claim_def)
qed

lemma close_at_Some:
  "close_at w u = Some w' \<longleftrightarrow> is_open w \<and> win_from w < u \<and> w' = w\<lparr>win_until := Some u\<rparr>"
  by (auto simp: close_at_def)

lemma detach_set_claim:
  assumes "claim_at st k b = Some c" "is_open (claim_window c)" "win_from (claim_window c) < at"
  shows "detach st k b at =
    set_claim st k b (Some (c\<lparr>claim_window := (claim_window c)\<lparr>win_until := Some at\<rparr>\<rparr>))"
proof -
  have "close_at (claim_window c) at = Some ((claim_window c)\<lparr>win_until := Some at\<rparr>)"
    using assms by (simp add: close_at_Some)
  moreover have "is_nonempty_closed ((claim_window c)\<lparr>win_until := Some at\<rparr>)"
    using assms by (simp add: is_nonempty_closed_def)
  ultimately show ?thesis using detach_eq [OF assms(1)] by (simp add: set_claim_eq)
qed

lemma rdeps_of_foldl_add_edge:
  "rdeps_of (foldl (\<lambda>br p. add_edge br (premise_key p) k) br ps) x =
     rdeps_of br x @ replicate (length (filter (\<lambda>p. premise_key p = x) ps)) k"
  by (induction ps arbitrary: br) (auto simp: rdeps_of_add_edge replicate_append_same)

lemma foldl_add_edge_frame:
  "br_parent (foldl (\<lambda>br p. add_edge br (premise_key p) k) br ps) = br_parent br"
  "br_children (foldl (\<lambda>br p. add_edge br (premise_key p) k) br ps) = br_children br"
  "br_first (foldl (\<lambda>br p. add_edge br (premise_key p) k) br ps) = br_first br"
  "br_head (foldl (\<lambda>br p. add_edge br (premise_key p) k) br ps) = br_head br"
  "br_closed_index (foldl (\<lambda>br p. add_edge br (premise_key p) k) br ps) = br_closed_index br"
  by (induction ps arbitrary: br) auto

lemma register_edges_views:
  assumes "register_edges E st b cert = Some st'"
  shows "same_world st st'" "claim_at st' = claim_at st" "closed_set st' = closed_set st"
    "slots st' = slots st" "assertions st' = assertions st"
    "set (edges st' b' x) = set (edges st b' x) \<union>
       (if b' = b \<and> x \<in> premise_key ` set (cert_premises E cert) then {cert_key cert} else {})"
proof -
  note m = assms [unfolded register_edges_def]
  show "same_world st st'" "claim_at st' = claim_at st" "slots st' = slots st"
    "assertions st' = assertions st"
    by (rule branch_mut_world [OF m]; force simp: foldl_add_edge_frame)+
  obtain br where br: "branch_of st b = Some br"
    "branch_of st' = (branch_of st)(b \<mapsto>
       foldl (\<lambda>br p. add_edge br (premise_key p) (cert_key cert)) br (cert_premises E cert))"
    using branch_mut_Some [OF m] by auto
  show "closed_set st' = closed_set st"
    using br by (auto simp: fun_eq_iff closed_set_def foldl_add_edge_frame)
  show "set (edges st' b' x) = set (edges st b' x) \<union>
       (if b' = b \<and> x \<in> premise_key ` set (cert_premises E cert) then {cert_key cert} else {})"
  proof (cases "b' = b")
    case True
    have "set (replicate (length (filter (\<lambda>p. premise_key p = x) (cert_premises E cert))) (cert_key cert))
      = (if x \<in> premise_key ` set (cert_premises E cert) then {cert_key cert} else {})"
      by (auto simp: set_replicate_conv_if filter_empty_conv)
    with True br show ?thesis by (simp add: edges_def rdeps_of_foldl_add_edge)
  next
    case False
    then have "branch_of st' b' = branch_of st b'" by (simp add: br(2))
    then have "edges st' b' x = edges st b' x" by (simp add: edges_def)
    moreover from False have "(b' = b) = False" by blast
    ultimately show ?thesis by (simp only: simp_thms if_False Un_empty_right)
  qed
qed

lemma register_edges_total: "is_live st b \<Longrightarrow> \<exists>st'. register_edges E st b cert = Some st'"
  unfolding register_edges_def by (rule branch_mut_total) auto


subsection \<open>Histories\<close>

definition set_untracked ::
  "('p, 'd, 'a) core_state \<Rightarrow> key \<Rightarrow> branch_id \<Rightarrow> (epsilon_token, 'd) history \<Rightarrow> ('p, 'd, 'a) core_state" where
  "set_untracked st k b h = slot_mut (slot_or_insert st k b) k b (\<lambda>slot. slot\<lparr>slot_untracked := h\<rparr>)"

lemma slot_of_set_untracked:
  "slot_of (set_untracked st k b h) k' b' =
     (if k' = k \<and> b' = b
      then Some ((case slot_of st k b of None \<Rightarrow> slot_new b | Some s \<Rightarrow> s)\<lparr>slot_untracked := h\<rparr>)
      else slot_of st k' b')"
  by (auto simp: set_untracked_def slot_of_slot_mut slot_of_slot_or_insert split: option.splits)

lemma set_untracked_views:
  "dirts (set_untracked st k b h) k' b' = (if k' = k \<and> b' = b then h else dirts st k' b')"
  "claim_at (set_untracked st k b h) = claim_at st"
  "branches (set_untracked st k b h) = branches st" "assertions (set_untracked st k b h) = assertions st"
  "k' \<noteq> k \<Longrightarrow> map_of (slots (set_untracked st k b h)) k' = map_of (slots st) k'"
  by (auto simp: dirts_def claim_at_def fun_eq_iff slot_of_set_untracked slot_new_def split: option.splits)
    (auto simp: set_untracked_def slot_mut_def map_of_slots_slot_or_insert split: option.splits)

lemma history_of_simps [simp]:
  "history_of [] b = None"
  "history_of ((hb, h) # hs) b = (if hb = b then Some h else history_of hs b)"
  by (simp_all add: history_of_def)

lemma history_of_None: "history_of hs b = None \<longleftrightarrow> b \<notin> fst ` set hs"
proof (induction hs)
  case (Cons x hs)
  then show ?case by (cases x) auto
qed simp

lemma history_of_update:
  "b \<in> fst ` set hs \<Longrightarrow> history_of (update_first (\<lambda>(hb, _). hb = b) (\<lambda>(hb, _). (hb, h)) hs) b' =
    (if b' = b then Some h else history_of hs b')"
proof (induction hs)
  case (Cons x hs)
  obtain hb h' where x: "x = (hb, h')" by (cases x)
  with Cons.prems have "hb \<noteq> b \<Longrightarrow> b \<in> fst ` set hs" by auto
  with Cons.IH x show ?case by auto
qed simp

lemma history_of_snoc:
  "history_of (hs @ [(b, h)]) b' = (case history_of hs b' of Some h \<Rightarrow> Some h | None \<Rightarrow> if b' = b then Some h else None)"
  by (induction hs) auto

text \<open>\<^const>\<open>assertion_history_mut\<close> is an update of one history.\<close>

definition histories_with :: "('p, 'd, 'a) core_state \<Rightarrow> key \<Rightarrow> branch_id \<Rightarrow> 'd key_assertions" where
  "histories_with st k b =
     (let hs = (case map_of (assertions st) k of Some hs \<Rightarrow> hs | None \<Rightarrow> [])
      in if b \<in> fst ` set hs then hs else hs @ [(b, [])])"

lemma ex_fst: "(\<exists>(hb, _)\<in>set hs. hb = b) \<longleftrightarrow> b \<in> fst ` set hs"
  by force

lemma histories_with:
  "b \<in> fst ` set (histories_with st k b)"
  "history_of (histories_with st k b) b = Some (hist st k b)"
  "(case history_of (histories_with st k b) d of None \<Rightarrow> [] | Some h \<Rightarrow> h) = hist st k d"
proof -
  define hs where "hs = (case map_of (assertions st) k of Some hs \<Rightarrow> hs | None \<Rightarrow> [])"
  have w: "histories_with st k b = (if b \<in> fst ` set hs then hs else hs @ [(b, [])])"
    by (simp add: histories_with_def hs_def Let_def)
  have h: "hist st k d = (case history_of hs d of None \<Rightarrow> [] | Some h \<Rightarrow> h)" for d
    by (simp add: hist_def hs_def split: option.split)
  show "b \<in> fst ` set (histories_with st k b)" by (simp add: w)
  show "history_of (histories_with st k b) b = Some (hist st k b)"
    using history_of_None [of hs b] by (auto simp: w h history_of_snoc split: option.splits)
  show "(case history_of (histories_with st k b) d of None \<Rightarrow> [] | Some h \<Rightarrow> h) = hist st k d"
    using history_of_None [of hs b] by (auto simp: w h history_of_snoc split: option.splits)
qed

lemma assertion_history_mut_eq:
  "assertion_history_mut st k b f = map_option (\<lambda>h. st\<lparr>assertions :=
       AList.update k (update_first (\<lambda>(hb, _). hb = b) (\<lambda>(hb, _). (hb, h)) (histories_with st k b)) (assertions st),
     key_count := (if map_of (assertions st) k = None \<and> map_of (slots st) k = None then key_count st + 1
                   else key_count st)\<rparr>) (f (hist st k b))"
proof -
  have "assertion_history_mut st k b f = (do {
        h \<leftarrow> history_of (histories_with st k b) b;
        h' \<leftarrow> f h;
        Some (st\<lparr>assertions :=
                   AList.update k (update_first (\<lambda>(hb, _). hb = b) (\<lambda>(hb, _). (hb, h')) (histories_with st k b))
                     (assertions st),
                 key_count := (if map_of (assertions st) k = None \<and> map_of (slots st) k = None
                   then key_count st + 1 else key_count st)\<rparr>) })"
    unfolding assertion_history_mut_def histories_with_def Let_def ex_fst
    by (cases "map_of (assertions st) k"; simp)
  also have "\<dots> = map_option (\<lambda>h. st\<lparr>assertions :=
       AList.update k (update_first (\<lambda>(hb, _). hb = b) (\<lambda>(hb, _). (hb, h)) (histories_with st k b)) (assertions st),
     key_count := (if map_of (assertions st) k = None \<and> map_of (slots st) k = None then key_count st + 1
                   else key_count st)\<rparr>) (f (hist st k b))"
    by (cases "f (hist st k b)") (simp_all add: histories_with(2))
  finally show ?thesis .
qed

lemma assertion_history_mut_views:
  assumes "assertion_history_mut st k b f = Some st'"
  shows "f (hist st k b) = Some (hist st' k b)"
    and "k' \<noteq> k \<or> b' \<noteq> b \<Longrightarrow> hist st' k' b' = hist st k' b'"
    and "is_asserted st' k' \<longleftrightarrow> k' = k \<or> is_asserted st k'"
    and "branches st' = branches st" "slots st' = slots st"
proof -
  obtain h where h: "f (hist st k b) = Some h"
    "assertions st' = AList.update k (update_first (\<lambda>(hb, _). hb = b) (\<lambda>(hb, _). (hb, h)) (histories_with st k b)) (assertions st)"
    "branches st' = branches st" "slots st' = slots st"
    using assms by (auto simp: assertion_history_mut_eq)
  have new: "hist st' k d = (if d = b then h else hist st k d)" for d
    using histories_with(3) [of st k b d]
    by (simp add: hist_def [of st'] h(2) history_of_update [OF histories_with(1)])
  show "f (hist st k b) = Some (hist st' k b)" using h(1) new by simp
  show "k' \<noteq> k \<or> b' \<noteq> b \<Longrightarrow> hist st' k' b' = hist st k' b'"
    using new [of b'] by (cases "k' = k") (auto simp: hist_def h(2))
  show "is_asserted st' k' \<longleftrightarrow> k' = k \<or> is_asserted st k'" by (auto simp: is_asserted_def h(2))
  show "branches st' = branches st" "slots st' = slots st" by fact+
qed

lemma assertion_history_mut_total:
  "f (hist st k b) \<noteq> None \<Longrightarrow> \<exists>st'. assertion_history_mut st k b f = Some st'"
  by (auto simp: assertion_history_mut_eq)

end
