(* ===== verification/Dice_Resolve.thy ===== *)
theory Dice_Resolve
  imports Dice_State
begin

text \<open>
  Resolution and certificate coverage, \<^verbatim>\<open>dice/dice_core/src/resolve.rs\<close>, and \<^verbatim>\<open>lookup\<close> and its
  companions of \<^verbatim>\<open>state.rs\<close>. Walking up the branch tree is a loop whose end depends on the tree,
  so it is a \<^theory_text>\<open>partial_function\<close>: \<^const>\<open>None\<close> is a walk that panics or never ends.
\<close>

section \<open>What a key resolves to\<close>

datatype ('p, 'd, 'a) resolved =
    RClaim branch_id "('p, 'a) claim"
  | RAsserted branch_id "(revision, 'd) entry"
  | RUnknown "'p cert option"

definition resolved_revision :: "('p, 'd, 'a) resolved \<Rightarrow> revision option" where
  "resolved_revision r =
     (case r of
        RClaim _ claim \<Rightarrow> Some (claim_revision claim)
      | RAsserted _ entry \<Rightarrow> Some (entry_revision entry)
      | RUnknown _ \<Rightarrow> None)"

datatype ('p, 'a) attached = Own "('p, 'a) claim" | Inherited "('p, 'a) claim"

definition attached_claim :: "('p, 'a) attached \<Rightarrow> ('p, 'a) claim" where
  "attached_claim a = (case a of Own claim \<Rightarrow> claim | Inherited claim \<Rightarrow> claim)"

text \<open>The loop of \<^verbatim>\<open>resolve\<close> over the assertion histories of an asserted key.\<close>

partial_function (option) resolve_asserted ::
  "('p, 'd, 'a) core_state \<Rightarrow> 'd key_assertions \<Rightarrow> version \<Rightarrow> ('p, 'd, 'a) resolved option" where
  "resolve_asserted st histories cur =
     (case history_of histories (vbranch cur) \<bind> (\<lambda>history. history_at history (vseq cur)) of
        Some entry \<Rightarrow> Some (RAsserted (vbranch cur) entry)
      | None \<Rightarrow>
          (case branch_of st (vbranch cur) of
             None \<Rightarrow> None
           | Some br \<Rightarrow>
               (case br_parent br of
                  Some parent \<Rightarrow> resolve_asserted st histories parent
                | None \<Rightarrow> Some (RUnknown None))))"

definition first_cert :: "('p, 'd, 'a) key_slots \<Rightarrow> 'p cert option" where
  "first_cert ss =
     map_option claim_cert (find (\<lambda>slot. slot_claim slot \<noteq> None) ss \<bind> slot_claim)"

text \<open>The loop of \<^verbatim>\<open>resolve\<close> over the slots of a key that was never asserted.\<close>

partial_function (option) resolve_slots ::
  "('p, 'd, 'a) core_state \<Rightarrow> ('p, 'd, 'a) key_slots \<Rightarrow> version \<Rightarrow> ('p, 'd, 'a) resolved option" where
  "resolve_slots st ss cur =
     (case find (\<lambda>slot. slot_branch slot = vbranch cur) ss \<bind> slot_claim of
        Some claim \<Rightarrow>
          Some (if covers (claim_window claim) (vseq cur) then RClaim (vbranch cur) claim
                else RUnknown (Some (claim_cert claim)))
      | None \<Rightarrow>
          (case branch_of st (vbranch cur) of
             None \<Rightarrow> None
           | Some br \<Rightarrow>
               (case br_parent br of
                  Some parent \<Rightarrow> resolve_slots st ss parent
                | None \<Rightarrow> Some (RUnknown (first_cert ss)))))"

definition resolve ::
  "('p, 'd, 'a) core_state \<Rightarrow> key \<Rightarrow> version \<Rightarrow> ('p, 'd, 'a) resolved option" where
  "resolve st key v =
     (case map_of (assertions st) key of
        Some histories \<Rightarrow> resolve_asserted st histories v
      | None \<Rightarrow> resolve_slots st (slots_of st key) v)"

text \<open>\<^verbatim>\<open>resolve_untracked\<close>: the outer \<^const>\<open>None\<close> is a panic, the inner one the root default.\<close>

partial_function (option) resolve_untracked_loop ::
  "('p, 'd, 'a) core_state \<Rightarrow> ('p, 'd, 'a) key_slots \<Rightarrow> version
   \<Rightarrow> (branch_id \<times> (epsilon_token, 'd) entry) option option" where
  "resolve_untracked_loop st ss cur =
     (case find (\<lambda>slot. slot_branch slot = vbranch cur) ss
             \<bind> (\<lambda>slot. history_at (slot_untracked slot) (vseq cur)) of
        Some entry \<Rightarrow> Some (Some (vbranch cur, entry))
      | None \<Rightarrow>
          (case branch_of st (vbranch cur) of
             None \<Rightarrow> None
           | Some br \<Rightarrow>
               (case br_parent br of
                  Some parent \<Rightarrow> resolve_untracked_loop st ss parent
                | None \<Rightarrow> Some None)))"

definition resolve_untracked ::
  "('p, 'd, 'a) core_state \<Rightarrow> key \<Rightarrow> version
   \<Rightarrow> (branch_id \<times> (epsilon_token, 'd) entry) option option" where
  "resolve_untracked st key v =
     (case map_of (slots st) key of
        None \<Rightarrow> Some None
      | Some ss \<Rightarrow> resolve_untracked_loop st ss v)"

definition epsilon :: "('p, 'd, 'a) core_state \<Rightarrow> key \<Rightarrow> version \<Rightarrow> epsilon_token option" where
  "epsilon st key v =
     map_option (\<lambda>r. case r of None \<Rightarrow> epsilon_INITIAL | Some (_, entry) \<Rightarrow> entry_revision entry)
       (resolve_untracked st key v)"

definition attached ::
  "('p, 'd, 'a) core_state \<Rightarrow> key \<Rightarrow> branch_id \<Rightarrow> ('p, 'a) attached option option" where
  "attached st key b = do {
     h \<leftarrow> head_of st b;
     r \<leftarrow> resolve st key h;
     Some (case r of
             RClaim owner claim \<Rightarrow>
               if owner = b then (if is_open (claim_window claim) then Some (Own claim) else None)
               else Some (Inherited claim)
           | RAsserted _ _ \<Rightarrow> None
           | RUnknown _ \<Rightarrow> None) }"

section \<open>Coverage\<close>

record interval =
  iv_from :: seq
  iv_until :: "seq option"

definition interval_is_empty :: "interval \<Rightarrow> bool" where
  "interval_is_empty i = (case iv_until i of Some until \<Rightarrow> until \<le> iv_from i | None \<Rightarrow> False)"

definition interval_contains :: "interval \<Rightarrow> seq \<Rightarrow> bool" where
  "interval_contains i s \<longleftrightarrow>
     iv_from i \<le> s \<and> (case iv_until i of None \<Rightarrow> True | Some until \<Rightarrow> s < until)"

record 'a piece =
  piece_interval :: interval
  piece_attribute :: 'a

definition mk_piece :: "seq \<Rightarrow> seq option \<Rightarrow> 'a \<Rightarrow> 'a piece" where
  "mk_piece from until a =
     \<lparr>piece_interval = \<lparr>iv_from = from, iv_until = until\<rparr>, piece_attribute = a\<rparr>"

definition push_piece :: "'a piece list \<Rightarrow> 'a piece \<Rightarrow> 'a piece list" where
  "push_piece out piece = (if interval_is_empty (piece_interval piece) then out else out @ [piece])"

definition min_until :: "seq option \<Rightarrow> seq option \<Rightarrow> seq option" where
  "min_until x y =
     (case (x, y) of
        (Some x, Some y) \<Rightarrow> Some (min x y)
      | (Some x, None) \<Rightarrow> Some x
      | (None, Some x) \<Rightarrow> Some x
      | (None, None) \<Rightarrow> None)"

text \<open>\<^verbatim>\<open>intersect\<close>: the indices \<open>i\<close> and \<open>j\<close> are the heads of the two lists.\<close>

function intersect_loop ::
  "('p, 'd, 'a) env \<Rightarrow> 'a piece list \<Rightarrow> 'a piece list \<Rightarrow> 'a piece list \<Rightarrow> 'a piece list" where
  "intersect_loop E [] b out = out"
| "intersect_loop E (p # a) [] out = out"
| "intersect_loop E (p # a) (q # b) out =
     (let x = piece_interval p; y = piece_interval q;
          out' = push_piece out
                   (mk_piece (max (iv_from x) (iv_from y)) (min_until (iv_until x) (iv_until y))
                     (env_combine E (piece_attribute p) (piece_attribute q)))
      in (case (iv_until x, iv_until y) of
            (Some u, Some w) \<Rightarrow>
              if u \<le> w then intersect_loop E a (q # b) out' else intersect_loop E (p # a) b out'
          | (Some _, None) \<Rightarrow> intersect_loop E a (q # b) out'
          | (None, Some _) \<Rightarrow> intersect_loop E (p # a) b out'
          | (None, None) \<Rightarrow> out'))"
  by pat_completeness auto
termination
  by (relation "measure (\<lambda>(E, a, b, out). length a + length b)") auto

definition intersect :: "('p, 'd, 'a) env \<Rightarrow> 'a piece list \<Rightarrow> 'a piece list \<Rightarrow> 'a piece list" where
  "intersect E a b = intersect_loop E a b []"

definition entry_attribute :: "('p, 'd, 'a) env \<Rightarrow> branch_id \<Rightarrow> ('r, 'd) entry \<Rightarrow> 'a" where
  "entry_attribute E b entry = env_assertion E (Version b (entry_seq entry)) (entry_data entry)"

text \<open>The loop of \<^verbatim>\<open>history_pieces\<close> over the branch's own entries: an entry ends where the next
  one starts.\<close>

fun own_pieces ::
  "('p, 'd, 'a) env \<Rightarrow> branch_id \<Rightarrow> 'r \<Rightarrow> ('r, 'd) entry list \<Rightarrow> 'a piece list \<Rightarrow> 'a piece list" where
  "own_pieces E b revision [] out = out"
| "own_pieces E b revision (entry # rest) out =
     own_pieces E b revision rest
       (if entry_revision entry = revision
        then push_piece out
               (mk_piece (entry_seq entry) (map_option entry_seq (history_first rest))
                 (entry_attribute E b entry))
        else out)"

definition history_pieces ::
  "('p, 'd, 'a) env \<Rightarrow> ('p, 'd, 'a) core_state \<Rightarrow> branch_id \<Rightarrow> ('r, 'd) entry list \<Rightarrow> 'a option
   \<Rightarrow> 'r \<Rightarrow> 'a piece list option" where
  "history_pieces E st b own parent revision = do {
     out \<leftarrow> (case parent of
               None \<Rightarrow> Some []
             | Some attribute \<Rightarrow> do {
                 br \<leftarrow> branch_of st b;
                 Some (push_piece []
                   (mk_piece (br_first br) (map_option entry_seq (history_first own)) attribute)) });
     Some (own_pieces E b revision own out) }"

definition premise_pieces ::
  "('p, 'd, 'a) env \<Rightarrow> ('p, 'd, 'a) core_state \<Rightarrow> branch_id \<Rightarrow> premise \<Rightarrow> 'a piece list option" where
  "premise_pieces E st b premise = do {
     br \<leftarrow> branch_of st b;
     (case map_of (assertions st) (premise_key premise) of
        Some histories \<Rightarrow> do {
          parent \<leftarrow> (case br_parent br of
              None \<Rightarrow> Some None
            | Some p \<Rightarrow> do {
                r \<leftarrow> resolve st (premise_key premise) p;
                Some (case r of
                        RAsserted owner entry \<Rightarrow>
                          if entry_revision entry = premise_revision premise
                          then Some (entry_attribute E owner entry) else None
                      | _ \<Rightarrow> None) });
          history_pieces E st b (case history_of histories b of None \<Rightarrow> [] | Some h \<Rightarrow> h) parent
            (premise_revision premise) }
      | None \<Rightarrow>
          (case slot_of st (premise_key premise) b \<bind> slot_claim of
             Some claim \<Rightarrow>
               Some (if claim_revision claim = premise_revision premise
                        \<and> \<not> window_is_empty (claim_window claim)
                     then [mk_piece (win_from (claim_window claim)) (win_until (claim_window claim))
                             (claim_attribute claim)]
                     else [])
           | None \<Rightarrow> do {
               inherited \<leftarrow> (case br_parent br of
                   None \<Rightarrow> Some None
                 | Some p \<Rightarrow> do {
                     r \<leftarrow> resolve st (premise_key premise) p;
                     Some (case r of
                             RClaim _ claim \<Rightarrow>
                               if claim_revision claim = premise_revision premise
                               then Some (claim_attribute claim) else None
                           | _ \<Rightarrow> None) });
               Some (case inherited of
                       Some attribute \<Rightarrow> [mk_piece (br_first br) None attribute]
                     | None \<Rightarrow> []) })) }"

definition untracked_pieces ::
  "('p, 'd, 'a) env \<Rightarrow> ('p, 'd, 'a) core_state \<Rightarrow> branch_id \<Rightarrow> key \<Rightarrow> epsilon_token
   \<Rightarrow> 'a piece list option" where
  "untracked_pieces E st b key eps = do {
     br \<leftarrow> branch_of st b;
     parent \<leftarrow> (case br_parent br of
         Some p \<Rightarrow> do {
           r \<leftarrow> resolve_untracked st key p;
           Some (case r of
                   Some (owner, entry) \<Rightarrow>
                     if entry_revision entry = eps then Some (entry_attribute E owner entry) else None
                 | None \<Rightarrow> if eps = epsilon_INITIAL then Some (env_EMPTY E) else None) }
       | None \<Rightarrow> Some (if eps = epsilon_INITIAL then Some (env_EMPTY E) else None));
     history_pieces E st b (case slot_of st key b of None \<Rightarrow> [] | Some s \<Rightarrow> slot_untracked s) parent eps }"

fun cover_loop ::
  "('p, 'd, 'a) env \<Rightarrow> ('p, 'd, 'a) core_state \<Rightarrow> branch_id \<Rightarrow> 'a piece list \<Rightarrow> premise list
   \<Rightarrow> 'a piece list option" where
  "cover_loop E st b cover [] = Some cover"
| "cover_loop E st b cover (premise # rest) =
     (if cover = [] then Some cover
      else do {
        pieces \<leftarrow> premise_pieces E st b premise;
        cover_loop E st b (intersect E cover pieces) rest })"

definition cover ::
  "('p, 'd, 'a) env \<Rightarrow> ('p, 'd, 'a) core_state \<Rightarrow> branch_id \<Rightarrow> 'p cert \<Rightarrow> 'a piece list option" where
  "cover E st b cert = do {
     br \<leftarrow> branch_of st b;
     untracked \<leftarrow> untracked_pieces E st b (cert_key cert) (cert_epsilon cert);
     cover_loop E st b (intersect E [mk_piece (br_first br) None (env_EMPTY E)] untracked)
       (cert_premises E cert) }"

text \<open>\<^verbatim>\<open>pick_window\<close>, its debug assertions kept as panics; the inner \<^const>\<open>None\<close> is an empty cover.\<close>

definition pick_window ::
  "('p, 'd, 'a) core_state \<Rightarrow> branch_id \<Rightarrow> 'a piece list \<Rightarrow> (window \<times> 'a) option option" where
  "pick_window st b cov =
     (if cov = [] then Some None
      else do {
        br \<leftarrow> branch_of st b;
        let lst = last cov;
        w \<leftarrow> (if interval_contains (piece_interval lst) (br_head br)
              then (if iv_until (piece_interval lst) = None
                    then Some (window_open (iv_from (piece_interval lst))) else None)
              else do {
                until \<leftarrow> iv_until (piece_interval lst);
                if until \<le> br_head br then window_closed (iv_from (piece_interval lst)) until else None });
        Some (Some (w, piece_attribute lst)) })"

section \<open>lookup\<close>

datatype ('p, 'a) lookup_answer =
    Valid revision 'a
  | Unknown (unknown_candidate: "'p cert option") (unknown_epsilon: epsilon_token) (unknown_untracked: 'a)

definition valid_revision :: "('p, 'a) lookup_answer \<Rightarrow> revision option" where
  "valid_revision l = (case l of Valid revision _ \<Rightarrow> Some revision | Unknown _ _ _ \<Rightarrow> None)"

definition lookup_candidate :: "('p, 'a) lookup_answer \<Rightarrow> 'p cert option" where
  "lookup_candidate l = (case l of Unknown candidate _ _ \<Rightarrow> candidate | Valid _ _ \<Rightarrow> None)"

definition untracked ::
  "('p, 'd, 'a) env \<Rightarrow> ('p, 'd, 'a) core_state \<Rightarrow> key \<Rightarrow> version \<Rightarrow> (epsilon_token \<times> 'a) option" where
  "untracked E st key v =
     map_option (\<lambda>r. case r of
         Some (owner, entry) \<Rightarrow> (entry_revision entry, entry_attribute E owner entry)
       | None \<Rightarrow> (epsilon_INITIAL, env_EMPTY E))
       (resolve_untracked st key v)"

definition lookup ::
  "('p, 'd, 'a) env \<Rightarrow> ('p, 'd, 'a) core_state \<Rightarrow> key \<Rightarrow> version \<Rightarrow> ('p, 'a) lookup_answer option" where
  "lookup E st key v = do {
     r \<leftarrow> resolve st key v;
     (case r of
        RClaim _ claim \<Rightarrow> Some (Valid (claim_revision claim) (claim_attribute claim))
      | RAsserted owner entry \<Rightarrow> Some (Valid (entry_revision entry) (entry_attribute E owner entry))
      | RUnknown candidate \<Rightarrow> do {
          (eps, attr) \<leftarrow> untracked E st key v;
          Some (Unknown
                 (case candidate of
                    Some cert \<Rightarrow> if cert_epsilon cert = eps then Some cert else None
                  | None \<Rightarrow> None)
                 eps attr) }) }"

definition nearest_certificate ::
  "('p, 'd, 'a) core_state \<Rightarrow> key \<Rightarrow> version \<Rightarrow> 'p cert option option" where
  "nearest_certificate st key v =
     map_option (\<lambda>r. case r of RUnknown candidate \<Rightarrow> candidate | _ \<Rightarrow> None) (resolve st key v)"

lemmas [op_defs] = resolved_revision_def attached_claim_def first_cert_def resolve_def
  resolve_untracked_def epsilon_def attached_def interval_is_empty_def interval_contains_def
  mk_piece_def push_piece_def min_until_def intersect_def entry_attribute_def history_pieces_def
  premise_pieces_def untracked_pieces_def cover_def pick_window_def valid_revision_def
  lookup_candidate_def untracked_def lookup_def nearest_certificate_def

declare resolve_asserted.simps [code] resolve_slots.simps [code] resolve_untracked_loop.simps [code]

section \<open>Well-formed trees\<close>

definition wf_tree :: "('p, 'd, 'a) core_state \<Rightarrow> bool" where
  "wf_tree st \<longleftrightarrow> (\<forall>b. is_live st b \<longrightarrow>
     fseq st b \<le> hseq st b \<and> distinct (kids st b)
     \<and> (\<forall>v. par st b = Some v \<longrightarrow>
          is_live st (vbranch v) \<and> vbranch v < b \<and> fseq st (vbranch v) \<le> vseq v
          \<and> vseq v \<le> hseq st (vbranch v) \<and> (b, vseq v) \<in> set (kids st (vbranch v)))
     \<and> (\<forall>c s. (c, s) \<in> set (kids st b) \<longrightarrow> is_live st c \<and> par st c = Some (Version b s)))"

definition wlive :: "('p, 'd, 'a) core_state \<Rightarrow> branch_id \<Rightarrow> bool" where
  "wlive st b \<longleftrightarrow> wf_tree st \<and> is_live st b"

text \<open>The branches of a well-formed state are a version tree, so the facts of the interface hold
  for its parents and sequence numbers.\<close>

interpretation tree: version_tree "wlive st" "par st" "fseq st" "hseq st"
  for st :: "('p, 'd, 'a) core_state"
  by unfold_locales (auto simp: wlive_def wf_tree_def)

lemma wf_tree_parent:
  "wf_tree st \<Longrightarrow> is_live st b \<Longrightarrow> par st b = Some v \<Longrightarrow>
     is_live st (vbranch v) \<and> vbranch v < b \<and> fseq st (vbranch v) \<le> vseq v
     \<and> vseq v \<le> hseq st (vbranch v) \<and> (b, vseq v) \<in> set (kids st (vbranch v))"
  by (simp add: wf_tree_def)

lemma wf_tree_kids:
  "wf_tree st \<Longrightarrow> is_live st b \<Longrightarrow> (c, s) \<in> set (kids st b) \<Longrightarrow>
     is_live st c \<and> par st c = Some (Version b s)"
  by (simp add: wf_tree_def)

lemma wf_tree_seqs: "wf_tree st \<Longrightarrow> is_live st b \<Longrightarrow> fseq st b \<le> hseq st b"
  by (simp add: wf_tree_def)

lemma wf_tree_kid_seq:
  assumes "wf_tree st" "is_live st b" "(c, s) \<in> set (kids st b)"
  shows "b < c" "fseq st b \<le> s" "s \<le> hseq st b"
  using wf_tree_parent [OF assms(1), of c "Version b s"] wf_tree_kids [OF assms] by auto

lemma same_tree_wf: "same_tree st st' \<Longrightarrow> wf_tree st \<Longrightarrow> wf_tree st'"
  by (simp add: wf_tree_def same_tree_def)

lemma same_world_wf: "same_world st st' \<Longrightarrow> wf_tree st \<Longrightarrow> wf_tree st'"
  by (auto simp: same_world_def intro: same_tree_wf)

section \<open>Resolution as a chain\<close>

definition own_claim ::
  "('p, 'd, 'a) core_state \<Rightarrow> key \<Rightarrow> branch_id \<Rightarrow> seq \<Rightarrow> (branch_id \<times> ('p, 'a) claim) option option" where
  "own_claim st k b s =
     map_option (\<lambda>c. if covers (claim_window c) s then Some (b, c) else None) (claim_at st k b)"

definition own_entry ::
  "(branch_id \<Rightarrow> ('r, 'd) history) \<Rightarrow> branch_id \<Rightarrow> seq \<Rightarrow> (branch_id \<times> ('r, 'd) entry) option option" where
  "own_entry h b s = map_option (\<lambda>e. Some (b, e)) (history_at (h b) s)"

definition vclaim ::
  "('p, 'd, 'a) core_state \<Rightarrow> key \<Rightarrow> branch_id \<Rightarrow> seq \<Rightarrow> (branch_id \<times> ('p, 'a) claim) option" where
  "vclaim st k b s = chain (par st) (own_claim st k) b s"

definition ventry ::
  "('p, 'd, 'a) core_state \<Rightarrow> key \<Rightarrow> branch_id \<Rightarrow> seq \<Rightarrow> (branch_id \<times> (revision, 'd) entry) option" where
  "ventry st k b s = chain (par st) (own_entry (hist st k)) b s"

definition vdirt ::
  "('p, 'd, 'a) core_state \<Rightarrow> key \<Rightarrow> branch_id \<Rightarrow> seq \<Rightarrow> (branch_id \<times> (epsilon_token, 'd) entry) option" where
  "vdirt st k b s = chain (par st) (own_entry (dirts st k)) b s"

text \<open>The certificate and the revision a key resolves to, and the token of its untracked input.\<close>

definition vcert :: "('p, 'd, 'a) core_state \<Rightarrow> key \<Rightarrow> branch_id \<Rightarrow> seq \<Rightarrow> 'p cert option" where
  "vcert st k b s = map_option (claim_cert \<circ> snd) (vclaim st k b s)"

definition rev_at :: "('p, 'd, 'a) core_state \<Rightarrow> key \<Rightarrow> branch_id \<Rightarrow> seq \<Rightarrow> revision option" where
  "rev_at st k b s =
     (if is_asserted st k then map_option (entry_revision \<circ> snd) (ventry st k b s)
      else map_option cert_revision (vcert st k b s))"

definition eps_at :: "('p, 'd, 'a) core_state \<Rightarrow> key \<Rightarrow> branch_id \<Rightarrow> seq \<Rightarrow> epsilon_token" where
  "eps_at st k b s =
     (case vdirt st k b s of None \<Rightarrow> epsilon_INITIAL | Some (_, e) \<Rightarrow> entry_revision e)"

text \<open>Every premise of a certificate, the untracked input included, holds at a version.\<close>

definition holds ::
  "('p, 'd, 'a) env \<Rightarrow> ('p, 'd, 'a) core_state \<Rightarrow> 'p cert \<Rightarrow> branch_id \<Rightarrow> seq \<Rightarrow> bool" where
  "holds E st cert b s \<longleftrightarrow> eps_at st (cert_key cert) b s = cert_epsilon cert
     \<and> (\<forall>p\<in>set (cert_premises E cert). rev_at st (premise_key p) b s = Some (premise_revision p))"

lemma vclaim_claim_at: "vclaim st k b s = Some (ow, c) \<Longrightarrow> claim_at st k ow = Some c"
proof (induction b arbitrary: s rule: less_induct)
  case (less b)
  then show ?case
    by (auto simp: vclaim_def chain.simps [of "par st" "own_claim st k" b s] own_claim_def
        split: option.splits if_splits)
qed

lemma resolve_asserted_chain:
  assumes wf: "wf_tree st" and hs: "map_of (assertions st) k = Some hs" and live: "is_live st b"
  shows "resolve_asserted st hs (Version b s) =
    Some (case ventry st k b s of Some (ow, e) \<Rightarrow> RAsserted ow e | None \<Rightarrow> RUnknown None)"
  using live
proof (induction b arbitrary: s rule: less_induct)
  case (less b)
  obtain br where br: "branch_of st b = Some br" using less.prems is_live_Some by blast
  have h: "(history_of hs b \<bind> (\<lambda>h. history_at h s)) = history_at (hist st k b) s"
    by (simp add: hist_def hs split: option.split)
  have p: "par st b = br_parent br" by (simp add: par_def br)
  show ?case
  proof (cases "history_at (hist st k b) s")
    case (Some e)
    then have "ventry st k b s = Some (b, e)"
      by (simp add: ventry_def chain_own own_entry_def)
    with Some h show ?thesis by (subst resolve_asserted.simps) simp
  next
    case None
    then have own: "own_entry (hist st k) b s = None" by (simp add: own_entry_def)
    show ?thesis
    proof (cases "br_parent br")
      case None
      with own p have "ventry st k b s = None" by (simp add: ventry_def chain_root)
      with None h \<open>history_at (hist st k b) s = None\<close> br show ?thesis
        by (subst resolve_asserted.simps) simp
    next
      case (Some v)
      with p have v: "par st b = Some v" by simp
      from wf_tree_parent [OF wf less.prems v] have vl: "is_live st (vbranch v)" "vbranch v < b" by auto
      have ch: "ventry st k b s = ventry st k (vbranch v) (vseq v)"
        unfolding ventry_def by (rule tree.chain_delegate) (use less.prems wf own v in \<open>auto simp: wlive_def\<close>)
      from less.IH [OF vl(2,1), of "vseq v"] ch Some h \<open>history_at (hist st k b) s = None\<close> br show ?thesis
        by (subst resolve_asserted.simps) simp
    qed
  qed
qed

lemma first_cert_pinned: "first_cert (slots_of st k) = Some c \<Longrightarrow> c \<in> set (pinned_certs st k)"
  by (auto simp: first_cert_def pinned_certs_def map_filter_def bind_eq_Some_conv image_iff dest!: find_Some_in)

lemma claim_at_pinned: "claim_at st k b = Some c \<Longrightarrow> claim_cert c \<in> set (pinned_certs st k)"
  by (force simp: claim_at_def slot_of_slots_of pinned_certs_def map_filter_def bind_eq_Some_conv
      image_iff dest!: find_Some_in)

lemma resolve_slots_chain:
  assumes wf: "wf_tree st" and live: "is_live st b"
  shows "\<exists>cand. resolve_slots st (slots_of st k) (Version b s) =
      Some (case vclaim st k b s of Some (ow, c) \<Rightarrow> RClaim ow c | None \<Rightarrow> RUnknown cand)
    \<and> (\<forall>c. cand = Some c \<longrightarrow> c \<in> set (pinned_certs st k))"
  using live
proof (induction b arbitrary: s rule: less_induct)
  case (less b)
  obtain br where br: "branch_of st b = Some br" using less.prems is_live_Some by blast
  have h: "(find (\<lambda>slot. slot_branch slot = b) (slots_of st k) \<bind> slot_claim) = claim_at st k b"
    by (simp add: claim_at_def slot_of_slots_of)
  have p: "par st b = br_parent br" by (simp add: par_def br)
  show ?case
  proof (cases "claim_at st k b")
    case (Some c)
    then have "vclaim st k b s = (if covers (claim_window c) s then Some (b, c) else None)"
      by (simp add: vclaim_def chain_own own_claim_def)
    with Some h claim_at_pinned [OF Some] show ?thesis
      by (subst resolve_slots.simps) (auto intro: exI [of _ "Some (claim_cert c)"])
  next
    case None
    then have own: "own_claim st k b s = None" by (simp add: own_claim_def)
    show ?thesis
    proof (cases "br_parent br")
      case None
      with own p have "vclaim st k b s = None" by (simp add: vclaim_def chain_root)
      with None h \<open>claim_at st k b = None\<close> br first_cert_pinned [of st k] show ?thesis
        by (subst resolve_slots.simps) auto
    next
      case (Some v)
      with p have v: "par st b = Some v" by simp
      from wf_tree_parent [OF wf less.prems v] have vl: "is_live st (vbranch v)" "vbranch v < b" by auto
      have ch: "vclaim st k b s = vclaim st k (vbranch v) (vseq v)"
        unfolding vclaim_def by (rule tree.chain_delegate) (use less.prems wf own v in \<open>auto simp: wlive_def\<close>)
      from less.IH [OF vl(2,1), of "vseq v"] ch Some h \<open>claim_at st k b = None\<close> br show ?thesis
        by (subst resolve_slots.simps) simp
    qed
  qed
qed

lemma resolve_chain:
  assumes "wf_tree st" "is_live st b"
  shows "is_asserted st k \<Longrightarrow> resolve st k (Version b s) =
      Some (case ventry st k b s of Some (ow, e) \<Rightarrow> RAsserted ow e | None \<Rightarrow> RUnknown None)"
    and "\<not> is_asserted st k \<Longrightarrow> \<exists>cand. resolve st k (Version b s) =
      Some (case vclaim st k b s of Some (ow, c) \<Rightarrow> RClaim ow c | None \<Rightarrow> RUnknown cand)
      \<and> (\<forall>c. cand = Some c \<longrightarrow> c \<in> set (pinned_certs st k))"
  using resolve_asserted_chain [OF assms(1) _ assms(2)] resolve_slots_chain [OF assms]
  by (auto simp: is_asserted_def resolve_def)

lemma resolve_revision:
  assumes "wf_tree st" "is_live st b"
  shows "\<exists>r. resolve st k (Version b s) = Some r \<and> resolved_revision r = rev_at st k b s"
proof (cases "is_asserted st k")
  case True
  with resolve_chain(1) [OF assms] show ?thesis
    by (auto simp: resolved_revision_def rev_at_def split: option.splits)
next
  case False
  with resolve_chain(2) [OF assms, of k s] show ?thesis
    by (cases "vclaim st k b s")
      (auto simp: resolved_revision_def rev_at_def vcert_def claim_revision_def)
qed

lemma dirts_slots_of:
  "(find (\<lambda>slot. slot_branch slot = b) (slots_of st k) \<bind> (\<lambda>slot. history_at (slot_untracked slot) s))
     = history_at (dirts st k b) s"
  by (simp add: dirts_def slot_of_slots_of split: option.split)

lemma resolve_untracked_loop_chain:
  assumes wf: "wf_tree st" and live: "is_live st b"
  shows "resolve_untracked_loop st (slots_of st k) (Version b s) = Some (vdirt st k b s)"
  using live
proof (induction b arbitrary: s rule: less_induct)
  case (less b)
  obtain br where br: "branch_of st b = Some br" using less.prems is_live_Some by blast
  have p: "par st b = br_parent br" by (simp add: par_def br)
  note h = dirts_slots_of [of b st k s]
  show ?case
  proof (cases "history_at (dirts st k b) s")
    case (Some e)
    then have "vdirt st k b s = Some (b, e)"
      by (simp add: vdirt_def chain_own own_entry_def)
    with Some h show ?thesis by (subst resolve_untracked_loop.simps) simp
  next
    case None
    then have own: "own_entry (dirts st k) b s = None" by (simp add: own_entry_def)
    show ?thesis
    proof (cases "br_parent br")
      case None
      with own p have "vdirt st k b s = None" by (simp add: vdirt_def chain_root)
      with None h \<open>history_at (dirts st k b) s = None\<close> br show ?thesis
        by (subst resolve_untracked_loop.simps) simp
    next
      case (Some v)
      with p have v: "par st b = Some v" by simp
      from wf_tree_parent [OF wf less.prems v] have vl: "is_live st (vbranch v)" "vbranch v < b" by auto
      have ch: "vdirt st k b s = vdirt st k (vbranch v) (vseq v)"
        unfolding vdirt_def by (rule tree.chain_delegate) (use less.prems wf own v in \<open>auto simp: wlive_def\<close>)
      from less.IH [OF vl(2,1), of "vseq v"] ch Some h \<open>history_at (dirts st k b) s = None\<close> br show ?thesis
        by (subst resolve_untracked_loop.simps) simp
    qed
  qed
qed

lemma vdirt_no_slots: "map_of (slots st) k = None \<Longrightarrow> vdirt st k b s = None"
proof (induction b arbitrary: s rule: less_induct)
  case (less b)
  then have "own_entry (dirts st k) b s = None" by (simp add: own_entry_def dirts_def slot_of_def)
  with less show ?case
    by (auto simp: vdirt_def chain.simps [of "par st" _ b s] split: option.split)
qed

lemma resolve_untracked_chain:
  assumes "wf_tree st" "is_live st b"
  shows "resolve_untracked st k (Version b s) = Some (vdirt st k b s)"
proof (cases "map_of (slots st) k")
  case None
  then show ?thesis by (simp add: resolve_untracked_def vdirt_no_slots)
next
  case (Some ss)
  then have "slots_of st k = ss" by (simp add: slots_of_def)
  with resolve_untracked_loop_chain [OF assms, of k s] Some show ?thesis
    by (simp add: resolve_untracked_def)
qed

lemma epsilon_eps_at:
  assumes "wf_tree st" "is_live st b"
  shows "epsilon st k (Version b s) = Some (eps_at st k b s)"
  by (simp add: epsilon_def resolve_untracked_chain [OF assms] eps_at_def split: option.split)

lemma attached_chain:
  assumes "wf_tree st" "is_live st b"
  shows "attached st k b = Some (if is_asserted st k then None else
    (case vclaim st k b (hseq st b) of
       None \<Rightarrow> None
     | Some (ow, c) \<Rightarrow>
         if ow = b then (if is_open (claim_window c) then Some (Own c) else None)
         else Some (Inherited c)))"
proof -
  obtain br where br: "branch_of st b = Some br" using assms(2) is_live_Some by blast
  have hd: "head_of st b = Some (Version b (hseq st b))" by (simp add: head_of_def hseq_def br)
  show ?thesis
  proof (cases "is_asserted st k")
    case True
    with resolve_chain(1) [OF assms] hd show ?thesis
      by (simp add: attached_def split: option.split)
  next
    case False
    with resolve_chain(2) [OF assms, of k "hseq st b"] hd show ?thesis
      by (auto simp: attached_def split: option.split)
  qed
qed

end
