(* ===== verification/Dice_Cover.thy ===== *)
theory Dice_Cover
  imports Dice_Resolve
begin

text \<open>
  Correctness of certificate coverage (\<^verbatim>\<open>cover\<close>, \<^verbatim>\<open>intersect\<close>, \<^verbatim>\<open>history_pieces\<close> and
  \<^verbatim>\<open>pick_window\<close> of \<^verbatim>\<open>dice/dice_core/src/resolve.rs\<close>). The two-pointer intersection of sorted
  pieces is set intersection; the pieces of a history are the sequence numbers at which it resolves
  to a revision; and the cover of a certificate on a branch is exactly the set of versions at which
  every premise resolves to its recorded revision. The window picked from a cover lies within it,
  is open exactly if the cover reaches the head, and no assertion of \<^verbatim>\<open>pick_window\<close> can fail.
\<close>

section \<open>The sequence numbers of a list of pieces\<close>

definition pset :: "'a piece list \<Rightarrow> seq set" where
  "pset ps = {s. \<exists>p\<in>set ps. interval_contains (piece_interval p) s}"

abbreviation pfrom :: "'a piece \<Rightarrow> seq" where
  "pfrom p \<equiv> iv_from (piece_interval p)"

abbreviation puntil :: "'a piece \<Rightarrow> seq option" where
  "puntil p \<equiv> iv_until (piece_interval p)"

fun pieces_ok :: "seq \<Rightarrow> 'a piece list \<Rightarrow> bool" where
  "pieces_ok lo [] = True"
| "pieces_ok lo (p # ps) =
     (lo \<le> pfrom p \<and> (case puntil p of None \<Rightarrow> ps = [] | Some u \<Rightarrow> pfrom p < u \<and> pieces_ok u ps))"

definition bounded :: "seq \<Rightarrow> 'a piece list \<Rightarrow> bool" where
  "bounded hi ps \<longleftrightarrow> (\<forall>p\<in>set ps. pfrom p \<le> hi \<and> (\<forall>u. puntil p = Some u \<longrightarrow> u \<le> hi))"

lemma pset_Nil [simp]: "pset [] = {}"
  by (simp add: pset_def)

lemma pset_Cons: "pset (p # ps) = {s. interval_contains (piece_interval p) s} \<union> pset ps"
  by (auto simp: pset_def)

lemma pset_append: "pset (ps @ qs) = pset ps \<union> pset qs"
  by (auto simp: pset_def)

lemma bounded_simps [simp]:
  "bounded hi []" "bounded hi (p # ps) \<longleftrightarrow> (pfrom p \<le> hi \<and> (\<forall>u. puntil p = Some u \<longrightarrow> u \<le> hi)) \<and> bounded hi ps"
  "bounded hi (ps @ qs) \<longleftrightarrow> bounded hi ps \<and> bounded hi qs"
  by (auto simp: bounded_def)

lemma interval_mk_piece [simp]:
  "pfrom (mk_piece f u a) = f" "puntil (mk_piece f u a) = u" "piece_attribute (mk_piece f u a) = a"
  by (simp_all add: mk_piece_def)

lemma pieces_ok_mono: "pieces_ok lo ps \<Longrightarrow> lo' \<le> lo \<Longrightarrow> pieces_ok lo' ps"
  by (cases ps) auto

lemma pieces_ok_pset: "pieces_ok lo ps \<Longrightarrow> s \<in> pset ps \<Longrightarrow> lo \<le> s"
proof (induction ps arbitrary: lo)
  case (Cons p ps)
  show ?case
  proof (cases "interval_contains (piece_interval p) s")
    case True
    with Cons.prems show ?thesis by (auto simp: interval_contains_def)
  next
    case False
    with Cons.prems have "s \<in> pset ps" by (simp add: pset_Cons)
    then have "ps \<noteq> []" by auto
    with Cons.prems(1) obtain u where "puntil p = Some u" "pfrom p < u" "pieces_ok u ps" "lo \<le> pfrom p"
      by (auto split: option.splits)
    with Cons.IH [of u] \<open>s \<in> pset ps\<close> show ?thesis by simp
  qed
qed simp

lemma pset_push: "pset (push_piece ps p) = pset ps \<union> {s. interval_contains (piece_interval p) s}"
  by (auto simp: push_piece_def pset_append pset_Cons interval_is_empty_def interval_contains_def
      split: option.splits)

section \<open>Intersection\<close>

lemma push_piece_acc: "push_piece out p = out @ push_piece [] p"
  by (simp add: push_piece_def)

lemma intersect_loop_acc: "intersect_loop E a b out = out @ intersect_loop E a b []"
proof (induction "length a + length b" arbitrary: a b out rule: less_induct)
  case less
  show ?case
  proof (cases a; cases b)
    fix p a' q b' assume ab: "a = p # a'" "b = q # b'"
    have IH1: "intersect_loop E a' b out = out @ intersect_loop E a' b []" for out
      by (rule less) (simp add: ab)
    have IH2: "intersect_loop E a b' out = out @ intersect_loop E a b' []" for out
      by (rule less) (simp add: ab)
    let ?x = "mk_piece (max (pfrom p) (pfrom q)) (min_until (puntil p) (puntil q))
                     (env_combine E (piece_attribute p) (piece_attribute q))"
    have acc: "push_piece out ?x = out @ push_piece [] ?x" by (rule push_piece_acc)
    show ?thesis
      using IH1 [of "push_piece out ?x"] IH1 [of "push_piece [] ?x"]
        IH2 [of "push_piece out ?x"] IH2 [of "push_piece [] ?x"] acc
      by (cases "puntil p"; cases "puntil q") (simp_all add: ab Let_def)
  qed simp_all
qed

text \<open>The piece the loop emits for the heads of the two lists.\<close>

definition meet :: "('p, 'd, 'a) env \<Rightarrow> 'a piece \<Rightarrow> 'a piece \<Rightarrow> 'a piece" where
  "meet E p q = mk_piece (max (pfrom p) (pfrom q)) (min_until (puntil p) (puntil q))
     (env_combine E (piece_attribute p) (piece_attribute q))"

lemma intersect_Nil [simp]: "intersect E [] b = []" "intersect E a [] = []"
  by (simp_all add: intersect_def) (cases a; simp)

lemma intersect_Cons:
  "intersect E (p # a) (q # b) = push_piece [] (meet E p q) @
     (case (puntil p, puntil q) of
        (Some u, Some w) \<Rightarrow> if u \<le> w then intersect E a (q # b) else intersect E (p # a) b
      | (Some _, None) \<Rightarrow> intersect E a (q # b)
      | (None, Some _) \<Rightarrow> intersect E (p # a) b
      | (None, None) \<Rightarrow> [])"
  using intersect_loop_acc [of E a "q # b" "push_piece [] (meet E p q)"]
    intersect_loop_acc [of E "p # a" b "push_piece [] (meet E p q)"]
  by (cases "puntil p"; cases "puntil q") (simp_all add: intersect_def meet_def Let_def)

lemma meet_contains:
  "interval_contains (piece_interval (meet E p q)) s \<longleftrightarrow>
     interval_contains (piece_interval p) s \<and> interval_contains (piece_interval q) s"
  by (auto simp: meet_def interval_contains_def min_until_def split: option.splits)

text \<open>A piece has nothing in common with pieces that all start after its end.\<close>

lemma after_piece_disjoint:
  "puntil p = Some u \<Longrightarrow> pieces_ok u ps \<Longrightarrow> interval_contains (piece_interval p) s \<Longrightarrow> s \<notin> pset ps"
  using pieces_ok_pset by (fastforce simp: interval_contains_def)

lemma pset_intersect:
  "pieces_ok la a \<Longrightarrow> pieces_ok lb b \<Longrightarrow> pset (intersect E a b) = pset a \<inter> pset b"
proof (induction "length a + length b" arbitrary: a b la lb rule: less_induct)
  case less
  show ?case
  proof (cases a; cases b)
    fix p a' q b' assume ab: "a = p # a'" "b = q # b'"
    let ?P = "{s. interval_contains (piece_interval p) s}"
    let ?Q = "{s. interval_contains (piece_interval q) s}"
    have PQ: "pset (push_piece [] (meet E p q)) = ?P \<inter> ?Q"
      by (auto simp: pset_push meet_contains)
    have set_ab: "pset a = ?P \<union> pset a'" "pset b = ?Q \<union> pset b'"
      by (simp_all add: ab pset_Cons)
    have IHa: "pset (intersect E a' b) = pset a' \<inter> pset b" if "pieces_ok u a'" for u
      by (rule less.hyps [OF _ that less.prems(2)]) (simp add: ab)
    have IHb: "pset (intersect E a b') = pset a \<inter> pset b'" if "pieces_ok u b'" for u
      by (rule less.hyps [OF _ less.prems(1) that]) (simp add: ab)
    have da: "?P \<inter> pset b' = {}" if "puntil p = Some u" "puntil q = Some w" "u \<le> w" for u w
    proof -
      from less.prems(2) that ab have "pieces_ok w b'" by simp
      then show ?thesis
        using that pieces_ok_pset [of w b'] by (fastforce simp: interval_contains_def)
    qed
    have db: "pset a' \<inter> ?Q = {}" if "puntil p = Some u" "puntil q = Some w" "\<not> u \<le> w" for u w
    proof -
      from less.prems(1) that ab have "pieces_ok u a'" by simp
      then show ?thesis
        using that pieces_ok_pset [of u a'] by (fastforce simp: interval_contains_def)
    qed
    consider (ss) u w where "puntil p = Some u" "puntil q = Some w" "u \<le> w"
      | (ss') u w where "puntil p = Some u" "puntil q = Some w" "\<not> u \<le> w"
      | (sn) u where "puntil p = Some u" "puntil q = None"
      | (ns) w where "puntil p = None" "puntil q = Some w"
      | (nn) "puntil p = None" "puntil q = None"
      by (cases "puntil p"; cases "puntil q") auto
    then show ?thesis
    proof cases
      case ss
      with less.prems(1) ab have "pieces_ok u a'" by simp
      from IHa [OF this] da [OF ss] ss PQ set_ab show ?thesis
        by (auto simp: ab intersect_Cons pset_append pset_Cons)
    next
      case ss'
      with less.prems(2) ab have "pieces_ok w b'" by simp
      from IHb [OF this] db [OF ss'] ss' PQ set_ab show ?thesis
        by (auto simp: ab intersect_Cons pset_append pset_Cons)
    next
      case sn
      with less.prems ab have "pieces_ok u a'" "b' = []" by auto
      from IHa [OF this(1)] this(2) sn PQ set_ab show ?thesis
        by (auto simp: ab intersect_Cons pset_append pset_Cons)
    next
      case ns
      with less.prems ab have "pieces_ok w b'" "a' = []" by auto
      from IHb [OF this(1)] this(2) ns PQ set_ab show ?thesis
        by (auto simp: ab intersect_Cons pset_append pset_Cons)
    next
      case nn
      with less.prems ab have "a' = []" "b' = []" by auto
      with nn PQ set_ab show ?thesis by (auto simp: ab intersect_Cons pset_append pset_Cons)
    qed
  qed simp_all
qed

lemma pieces_ok_push_append:
  assumes "lo \<le> pfrom p"
    and "\<And>u. puntil p = Some u \<Longrightarrow> pieces_ok (max u lo) rest"
    and "puntil p = None \<Longrightarrow> rest = []"
  shows "pieces_ok lo (push_piece [] p @ rest)"
proof (cases "puntil p")
  case None
  with assms show ?thesis by (simp add: push_piece_def interval_is_empty_def)
next
  case (Some u)
  with assms(2) have "pieces_ok u rest" "pieces_ok lo rest" by (auto intro: pieces_ok_mono)
  with Some assms(1) show ?thesis by (simp add: push_piece_def interval_is_empty_def)
qed

lemma pieces_ok_intersect:
  "pieces_ok la a \<Longrightarrow> pieces_ok lb b \<Longrightarrow> pieces_ok (max la lb) (intersect E a b)"
proof (induction "length a + length b" arbitrary: a b la lb rule: less_induct)
  case less
  show ?case
  proof (cases a; cases b)
    fix p a' q b' assume ab: "a = p # a'" "b = q # b'"
    have IHa: "pieces_ok (max u lb) (intersect E a' b)" if "pieces_ok u a'" for u
      by (rule less.hyps [OF _ that less.prems(2)]) (simp add: ab)
    have IHb: "pieces_ok (max la w) (intersect E a b')" if "pieces_ok w b'" for w
      by (rule less.hyps [OF _ less.prems(1) that]) (simp add: ab)
    have la: "la \<le> pfrom p" "lb \<le> pfrom q" using less.prems ab by auto
    have ua: "pfrom p < u \<and> pieces_ok u a'" if "puntil p = Some u" for u using less.prems(1) ab that by simp
    have ub: "pfrom q < u \<and> pieces_ok u b'" if "puntil q = Some u" for u using less.prems(2) ab that by simp
    show ?thesis
      unfolding ab intersect_Cons
    proof (rule pieces_ok_push_append)
      show "max la lb \<le> pfrom (meet E p q)" using la by (auto simp: meet_def)
    next
      fix u assume u: "puntil (meet E p q) = Some u"
      show "pieces_ok (max u (max la lb)) (case (puntil p, puntil q) of
        (Some u, Some w) \<Rightarrow> if u \<le> w then intersect E a' (q # b') else intersect E (p # a') b'
      | (Some _, None) \<Rightarrow> intersect E a' (q # b')
      | (None, Some _) \<Rightarrow> intersect E (p # a') b'
      | (None, None) \<Rightarrow> [])"
        using u ua ub IHa IHb la
        by (auto simp: meet_def min_until_def ab split: option.splits if_splits
            intro: pieces_ok_mono [OF IHa [unfolded ab]] pieces_ok_mono [OF IHb [unfolded ab]])
    next
      assume "puntil (meet E p q) = None"
      then show "(case (puntil p, puntil q) of
        (Some u, Some w) \<Rightarrow> if u \<le> w then intersect E a' (q # b') else intersect E (p # a') b'
      | (Some _, None) \<Rightarrow> intersect E a' (q # b')
      | (None, Some _) \<Rightarrow> intersect E (p # a') b'
      | (None, None) \<Rightarrow> []) = []"
        by (auto simp: meet_def min_until_def split: option.splits)
    qed
  qed simp_all
qed

lemma bounded_intersect: "bounded hi a \<Longrightarrow> bounded hi b \<Longrightarrow> bounded hi (intersect E a b)"
proof (induction "length a + length b" arbitrary: a b rule: less_induct)
  case less
  show ?case
  proof (cases a; cases b)
    fix p a' q b' assume ab: "a = p # a'" "b = q # b'"
    have IHa: "bounded hi (intersect E a' b)" by (rule less.hyps) (use less.prems ab in auto)
    have IHb: "bounded hi (intersect E a b')" by (rule less.hyps) (use less.prems ab in auto)
    have "bounded hi (push_piece [] (meet E p q))"
      using less.prems ab by (auto simp: push_piece_def meet_def min_until_def split: option.splits)
    with IHa IHb show ?thesis by (simp add: ab intersect_Cons split: option.split)
  qed simp_all
qed

section \<open>The pieces of a history\<close>

definition hist_ok :: "seq \<Rightarrow> seq \<Rightarrow> ('r, 'd) history \<Rightarrow> bool" where
  "hist_ok lo hi h \<longleftrightarrow> sorted_history h \<and> (\<forall>e\<in>set h. lo \<le> entry_seq e \<and> entry_seq e \<le> hi)"

lemma hist_ok_Nil [simp]: "hist_ok lo hi []"
  by (simp add: hist_ok_def)

lemma history_first_None: "sorted_history h \<Longrightarrow>
   history_at h s = None \<longleftrightarrow> (case history_first h of None \<Rightarrow> True | Some e \<Rightarrow> s < entry_seq e)"
  by (cases h) (auto simp: history_at_None history_first_def sorted_history_cons)

lemma own_pieces_acc: "own_pieces E b r es out = out @ own_pieces E b r es []"
proof (induction es arbitrary: out)
  case (Cons e es)
  show ?case
    using Cons [of "push_piece out (mk_piece (entry_seq e) (map_option entry_seq (history_first es)) (entry_attribute E b e))"]
      Cons [of "push_piece [] (mk_piece (entry_seq e) (map_option entry_seq (history_first es)) (entry_attribute E b e))"]
      Cons [of out]
    by (simp add: push_piece_def)
qed simp

lemma own_pieces_Cons:
  "own_pieces E b r (e # es) [] =
     (if entry_revision e = r
      then push_piece [] (mk_piece (entry_seq e) (map_option entry_seq (history_first es)) (entry_attribute E b e))
      else []) @ own_pieces E b r es []"
  using own_pieces_acc [of E b r es
      "push_piece [] (mk_piece (entry_seq e) (map_option entry_seq (history_first es)) (entry_attribute E b e))"]
  by simp

declare own_pieces.simps(2) [simp del]

lemma entry_piece_contains:
  assumes "sorted_history es"
  shows "interval_contains (piece_interval (mk_piece f (map_option entry_seq (history_first es)) a)) s
    \<longleftrightarrow> f \<le> s \<and> history_at es s = None"
  using history_first_None [OF assms, of s] by (auto simp: interval_contains_def split: option.splits)

lemma pset_own_pieces:
  "sorted_history es \<Longrightarrow>
     pset (own_pieces E b r es []) = {s. \<exists>e. history_at es s = Some e \<and> entry_revision e = r}"
proof (induction es)
  case (Cons e es)
  then have so: "sorted_history es" by (simp add: sorted_history_cons)
  note h = history_at_cons [of e es]
  from Cons.IH [OF so] show ?case
    by (auto simp: own_pieces_Cons pset_append pset_push entry_piece_contains [OF so] h split: option.splits)
qed simp

lemma pieces_ok_own_pieces:
  "sorted_history es \<Longrightarrow> \<forall>e\<in>set es. lo \<le> entry_seq e \<Longrightarrow> pieces_ok lo (own_pieces E b r es [])"
proof (induction es arbitrary: lo)
  case (Cons e es)
  then have so: "sorted_history es" and lt: "\<forall>x\<in>set es. entry_seq e < entry_seq x"
    by (simp_all add: sorted_history_cons)
  have rest: "pieces_ok l (own_pieces E b r es [])" if "\<forall>x\<in>set es. l \<le> entry_seq x" for l
    using Cons.IH [OF so that] .
  have lo: "lo \<le> entry_seq e" "\<forall>x\<in>set es. lo \<le> entry_seq x" using Cons.prems(2) by auto
  show ?case
  proof (cases "entry_revision e = r")
    case True
    have "pieces_ok lo (push_piece [] (mk_piece (entry_seq e) (map_option entry_seq (history_first es)) (entry_attribute E b e))
        @ own_pieces E b r es [])"
    proof (rule pieces_ok_push_append)
      fix u assume "puntil (mk_piece (entry_seq e) (map_option entry_seq (history_first es)) (entry_attribute E b e)) = Some u"
      then obtain e' es' where "es = e' # es'" "u = entry_seq e'"
        by (cases es) (auto simp: history_first_def)
      with so lo show "pieces_ok (max u lo) (own_pieces E b r es [])"
        by (intro rest) (auto simp: sorted_history_cons)
    next
      assume "puntil (mk_piece (entry_seq e) (map_option entry_seq (history_first es)) (entry_attribute E b e)) = None"
      then show "own_pieces E b r es [] = []" by (cases es) (auto simp: history_first_def)
    qed (use lo in simp)
    with True show ?thesis by (simp add: own_pieces_Cons)
  next
    case False
    with rest [OF lo(2)] show ?thesis by (simp add: own_pieces_Cons)
  qed
qed simp

lemma bounded_own_pieces:
  "\<forall>e\<in>set es. entry_seq e \<le> hi \<Longrightarrow> bounded hi (own_pieces E b r es [])"
proof (induction es)
  case (Cons e es)
  then have "bounded hi (push_piece [] (mk_piece (entry_seq e) (map_option entry_seq (history_first es)) (entry_attribute E b e)))"
    by (cases es) (auto simp: push_piece_def history_first_def)
  with Cons show ?case by (simp add: own_pieces_Cons)
qed simp

lemma history_pieces_correct:
  assumes live: "is_live st b" and ok: "hist_ok (fseq st b) hi own" and fh: "fseq st b \<le> hi"
  shows "\<exists>ps. history_pieces E st b own parent r = Some ps
    \<and> pieces_ok (fseq st b) ps \<and> bounded hi ps
    \<and> pset ps = {s. fseq st b \<le> s \<and>
        (case history_at own s of Some e \<Rightarrow> entry_revision e = r | None \<Rightarrow> parent \<noteq> None)}"
proof -
  obtain br where br: "branch_of st b = Some br" "br_first br = fseq st b"
    using is_live_Some [OF live] by (auto simp: fseq_def)
  have so: "sorted_history own" and lo: "\<forall>e\<in>set own. fseq st b \<le> entry_seq e"
    and hi: "\<forall>e\<in>set own. entry_seq e \<le> hi" using ok by (auto simp: hist_ok_def)
  let ?own = "own_pieces E b r own []"
  have at: "fseq st b \<le> s" if "history_at own s = Some e" for s e
    using that lo history_at_Some [OF that] by force
  show ?thesis
  proof (cases parent)
    case None
    have "pset ?own = {s. fseq st b \<le> s \<and>
        (case history_at own s of Some e \<Rightarrow> entry_revision e = r | None \<Rightarrow> parent \<noteq> None)}"
      using at None by (auto simp: pset_own_pieces [OF so] split: option.splits)
    with None pieces_ok_own_pieces [OF so lo] bounded_own_pieces [OF hi] show ?thesis
      by (auto simp: history_pieces_def)
  next
    case (Some a)
    let ?p = "mk_piece (fseq st b) (map_option entry_seq (history_first own)) a"
    have eq: "history_pieces E st b own parent r = Some (push_piece [] ?p @ ?own)"
      using Some br own_pieces_acc [of E b r own "push_piece [] ?p"] by (simp add: history_pieces_def)
    have "pieces_ok (fseq st b) (push_piece [] ?p @ ?own)"
    proof (rule pieces_ok_push_append)
      fix u assume "puntil ?p = Some u"
      then obtain e es where "own = e # es" "u = entry_seq e" by (cases own) (auto simp: history_first_def)
      with so lo show "pieces_ok (max u (fseq st b)) ?own"
        by (intro pieces_ok_own_pieces) (auto simp: sorted_history_cons)
    next
      assume "puntil ?p = None"
      then show "?own = []" by (cases own) (auto simp: history_first_def)
    qed simp
    moreover have "bounded hi (push_piece [] ?p @ ?own)"
      using bounded_own_pieces [OF hi] hi fh by (cases own) (auto simp: push_piece_def history_first_def)
    moreover have "pset (push_piece [] ?p @ ?own) = {s. fseq st b \<le> s \<and>
        (case history_at own s of Some e \<Rightarrow> entry_revision e = r | None \<Rightarrow> parent \<noteq> None)}"
      using at Some by (auto simp: pset_append pset_push pset_own_pieces [OF so] entry_piece_contains [OF so] split: option.splits)
    ultimately show ?thesis using eq by blast
  qed
qed

section \<open>Well-formed stores\<close>

definition window_ok :: "('p, 'd, 'a) core_state \<Rightarrow> branch_id \<Rightarrow> window \<Rightarrow> bool" where
  "window_ok st b w \<longleftrightarrow> fseq st b \<le> win_from w \<and> win_from w \<le> hseq st b
     \<and> (\<forall>u. win_until w = Some u \<longrightarrow> win_from w \<le> u \<and> u \<le> hseq st b)"

definition wf_claims :: "('p, 'd, 'a) core_state \<Rightarrow> bool" where
  "wf_claims st \<longleftrightarrow> (\<forall>k b c. claim_at st k b = Some c \<longrightarrow>
     is_live st b \<and> cert_key (claim_cert c) = k \<and> window_ok st b (claim_window c))"

definition wf_hists :: "('p, 'd, 'a) core_state \<Rightarrow> bool" where
  "wf_hists st \<longleftrightarrow> (\<forall>k b. is_live st b \<longrightarrow>
     hist_ok (fseq st b) (hseq st b) (dirts st k b) \<and> hist_ok (fseq st b) (hseq st b) (hist st k b))"

lemma chain_unfold:
  assumes "wf_tree st" "is_live st b"
  shows "chain (par st) own b s = (case own b s of Some r \<Rightarrow> r
    | None \<Rightarrow> (case par st b of None \<Rightarrow> None | Some v \<Rightarrow> chain (par st) own (vbranch v) (vseq v)))"
  using wf_tree_parent [OF assms]
  by (auto simp: chain.simps [of "par st" own b s] split: option.splits)

lemmas vclaim_unfold = chain_unfold [where own = "own_claim st k" and st = st for st k, folded vclaim_def]
lemmas ventry_unfold = chain_unfold [where own = "own_entry (hist st k)" and st = st for st k, folded ventry_def]
lemmas vdirt_unfold = chain_unfold [where own = "own_entry (dirts st k)" and st = st for st k, folded vdirt_def]

lemma br_parent_par: "branch_of st b = Some br \<Longrightarrow> br_parent br = par st b"
  by (simp add: par_def)

section \<open>The pieces of a premise\<close>

lemma premise_pieces_asserted:
  assumes wf: "wf_tree st" "wf_hists st" and live: "is_live st b"
    and as: "is_asserted st (premise_key p)"
  shows "\<exists>ps. premise_pieces E st b p = Some ps
    \<and> pieces_ok (fseq st b) ps \<and> bounded (hseq st b) ps
    \<and> pset ps = {s. fseq st b \<le> s \<and> rev_at st (premise_key p) b s = Some (premise_revision p)}"
proof -
  let ?k = "premise_key p" and ?r = "premise_revision p"
  obtain br where br: "branch_of st b = Some br" using is_live_Some [OF live] by blast
  obtain hs where hs: "map_of (assertions st) ?k = Some hs" using as by (auto simp: is_asserted_def)
  have own: "(case history_of hs b of None \<Rightarrow> [] | Some h \<Rightarrow> h) = hist st ?k b"
    by (simp add: hist_def hs)
  define parent where "parent = (case par st b of None \<Rightarrow> None | Some v \<Rightarrow>
      (case ventry st ?k (vbranch v) (vseq v) of
         Some (ow, e) \<Rightarrow> if entry_revision e = ?r then Some (entry_attribute E ow e) else None | None \<Rightarrow> None))"
  have eq: "premise_pieces E st b p = history_pieces E st b (hist st ?k b) parent ?r"
  proof (cases "par st b")
    case None
    then show ?thesis by (simp add: premise_pieces_def br br_parent_par [OF br] hs own parent_def)
  next
    case (Some v)
    have "is_live st (vbranch v)" using wf_tree_parent [OF wf(1) live Some] by simp
    from resolve_chain(1) [OF wf(1) this as, of "vseq v"]
    have "resolve st ?k v = Some (case ventry st ?k (vbranch v) (vseq v) of
        Some (ow, e) \<Rightarrow> RAsserted ow e | None \<Rightarrow> RUnknown None)" by simp
    then show ?thesis
      by (simp add: premise_pieces_def br br_parent_par [OF br] hs own parent_def Some split: option.split)
  qed
  have ok: "hist_ok (fseq st b) (hseq st b) (hist st ?k b)" using wf(2) live by (simp add: wf_hists_def)
  have "(case history_at (hist st ?k b) s of Some e \<Rightarrow> entry_revision e = ?r | None \<Rightarrow> parent \<noteq> None)
     \<longleftrightarrow> rev_at st ?k b s = Some ?r" for s
    unfolding rev_at_def ventry_unfold [OF wf(1) live]
    by (auto simp: as parent_def own_entry_def split: option.splits)
  with history_pieces_correct [OF live ok wf_tree_seqs [OF wf(1) live], of E parent ?r] eq show ?thesis by auto
qed

lemma premise_pieces_claim:
  assumes wf: "wf_tree st" "wf_claims st" and live: "is_live st b"
    and as: "\<not> is_asserted st (premise_key p)"
  shows "\<exists>ps. premise_pieces E st b p = Some ps
    \<and> pieces_ok (fseq st b) ps \<and> bounded (hseq st b) ps
    \<and> pset ps = {s. fseq st b \<le> s \<and> rev_at st (premise_key p) b s = Some (premise_revision p)}"
proof -
  let ?k = "premise_key p" and ?r = "premise_revision p"
  obtain br where br: "branch_of st b = Some br" using is_live_Some [OF live] by blast
  then have first: "br_first br = fseq st b" by (simp add: fseq_def)
  have none: "map_of (assertions st) ?k = None" using as by (simp add: is_asserted_def)
  have slot: "(slot_of st ?k b \<bind> slot_claim) = claim_at st ?k b" by (simp add: claim_at_def)
  show ?thesis
  proof (cases "claim_at st ?k b")
    case (Some c)
    let ?w = "claim_window c"
    have w: "window_ok st b ?w" using wf(2) Some by (auto simp: wf_claims_def)
    have rev: "rev_at st ?k b s = Some ?r \<longleftrightarrow> covers ?w s \<and> claim_revision c = ?r" for s
      using as Some by (auto simp: rev_at_def vcert_def vclaim_def chain_own own_claim_def claim_revision_def)
    show ?thesis
    proof (cases "claim_revision c = ?r \<and> \<not> window_is_empty ?w")
      case True
      let ?ps = "[mk_piece (win_from ?w) (win_until ?w) (claim_attribute c)]"
      have "premise_pieces E st b p = Some ?ps"
        using True Some by (simp add: premise_pieces_def br none slot)
      moreover have "pieces_ok (fseq st b) ?ps" "bounded (hseq st b) ?ps"
        using w True by (auto simp: window_ok_def window_is_empty_def split: option.splits)
      moreover have "pset ?ps = {s. fseq st b \<le> s \<and> rev_at st ?k b s = Some ?r}"
        using True w by (auto simp: rev pset_Cons covers_def interval_contains_def window_ok_def)
      ultimately show ?thesis by blast
    next
      case False
      then have "\<not> (covers ?w s \<and> claim_revision c = ?r)" for s
        by (auto simp: covers_def window_is_empty_def)
      moreover have "premise_pieces E st b p = Some []"
        using False Some by (auto simp: premise_pieces_def br none slot)
      ultimately show ?thesis by (auto simp: rev)
    qed
  next
    case None
    then have del: "own_claim st ?k b s = None" for s by (simp add: own_claim_def)
    show ?thesis
    proof (cases "par st b")
      case pn: None
      then have "rev_at st ?k b s = None" for s
        using as by (simp add: rev_at_def vcert_def vclaim_unfold [OF wf(1) live] del)
      moreover have "premise_pieces E st b p = Some []"
        using None pn by (simp add: premise_pieces_def br none slot br_parent_par [OF br])
      ultimately show ?thesis by simp
    next
      case (Some v)
      have vl: "is_live st (vbranch v)" using wf_tree_parent [OF wf(1) live Some] by simp
      have rev: "rev_at st ?k b s = map_option (claim_revision \<circ> snd) (vclaim st ?k (vbranch v) (vseq v))" for s
        using as Some by (simp add: rev_at_def vcert_def vclaim_unfold [OF wf(1) live] del
            option.map_comp comp_def claim_revision_def)
      obtain cand where res: "resolve st ?k v = Some (case vclaim st ?k (vbranch v) (vseq v) of
          Some (ow, c) \<Rightarrow> RClaim ow c | None \<Rightarrow> RUnknown cand)"
        using resolve_chain(2) [OF wf(1) vl as, of "vseq v"] by auto
      show ?thesis
      proof (cases "rev_at st ?k b 0 = Some ?r")
        case True
        then obtain ow c where c: "vclaim st ?k (vbranch v) (vseq v) = Some (ow, c)" "claim_revision c = ?r"
          by (auto simp: rev)
        let ?ps = "[mk_piece (fseq st b) None (claim_attribute c)]"
        have "premise_pieces E st b p = Some ?ps"
          using None Some c res by (simp add: premise_pieces_def br none slot br_parent_par [OF br] first)
        moreover have "pset ?ps = {s. fseq st b \<le> s \<and> rev_at st ?k b s = Some ?r}"
          using True by (auto simp: rev pset_Cons interval_contains_def)
        ultimately show ?thesis using wf_tree_seqs [OF wf(1) live] by auto
      next
        case False
        then have "premise_pieces E st b p = Some []"
          using None Some res
          by (auto simp: premise_pieces_def br none slot br_parent_par [OF br] rev split: option.splits)
        with False show ?thesis by (auto simp: rev)
      qed
    qed
  qed
qed

lemma premise_pieces_correct:
  assumes "wf_tree st" "wf_claims st" "wf_hists st" "is_live st b"
  shows "\<exists>ps. premise_pieces E st b p = Some ps
    \<and> pieces_ok (fseq st b) ps \<and> bounded (hseq st b) ps
    \<and> pset ps = {s. fseq st b \<le> s \<and> rev_at st (premise_key p) b s = Some (premise_revision p)}"
  using premise_pieces_asserted [OF assms(1,3,4)] premise_pieces_claim [OF assms(1,2,4)] by blast

lemma untracked_pieces_correct:
  assumes wf: "wf_tree st" "wf_hists st" and live: "is_live st b"
  shows "\<exists>ps. untracked_pieces E st b k eps = Some ps
    \<and> pieces_ok (fseq st b) ps \<and> bounded (hseq st b) ps
    \<and> pset ps = {s. fseq st b \<le> s \<and> eps_at st k b s = eps}"
proof -
  obtain br where br: "branch_of st b = Some br" using is_live_Some [OF live] by blast
  define parent where "parent = (case par st b of
      Some v \<Rightarrow> (case vdirt st k (vbranch v) (vseq v) of
           Some (ow, e) \<Rightarrow> if entry_revision e = eps then Some (entry_attribute E ow e) else None
         | None \<Rightarrow> if eps = epsilon_INITIAL then Some (env_EMPTY E) else None)
    | None \<Rightarrow> if eps = epsilon_INITIAL then Some (env_EMPTY E) else None)"
  have own: "(case slot_of st k b of None \<Rightarrow> [] | Some s \<Rightarrow> slot_untracked s) = dirts st k b"
    by (simp add: dirts_def)
  have eq: "untracked_pieces E st b k eps = history_pieces E st b (dirts st k b) parent eps"
  proof (cases "par st b")
    case None
    then show ?thesis by (simp add: untracked_pieces_def br br_parent_par [OF br] own parent_def)
  next
    case (Some v)
    have "is_live st (vbranch v)" using wf_tree_parent [OF wf(1) live Some] by simp
    from resolve_untracked_chain [OF wf(1) this, of k "vseq v"]
    have "resolve_untracked st k v = Some (vdirt st k (vbranch v) (vseq v))" by simp
    with Some show ?thesis by (simp add: untracked_pieces_def br br_parent_par [OF br] own parent_def)
  qed
  have ok: "hist_ok (fseq st b) (hseq st b) (dirts st k b)" using wf(2) live by (simp add: wf_hists_def)
  have "(case history_at (dirts st k b) s of Some e \<Rightarrow> entry_revision e = eps | None \<Rightarrow> parent \<noteq> None)
     \<longleftrightarrow> eps_at st k b s = eps" for s
    unfolding eps_at_def vdirt_unfold [OF wf(1) live]
    by (auto simp: parent_def own_entry_def split: option.splits)
  with history_pieces_correct [OF live ok wf_tree_seqs [OF wf(1) live], of E parent eps] eq show ?thesis by auto
qed

section \<open>The cover of a certificate\<close>

lemma cover_loop_correct:
  assumes wf: "wf_tree st" "wf_claims st" "wf_hists st" "is_live st b"
    and "pieces_ok (fseq st b) cov" "bounded (hseq st b) cov"
  shows "\<exists>ps. cover_loop E st b cov qs = Some ps
    \<and> pieces_ok (fseq st b) ps \<and> bounded (hseq st b) ps
    \<and> pset ps = {s \<in> pset cov. \<forall>p\<in>set qs. rev_at st (premise_key p) b s = Some (premise_revision p)}"
  using assms(5,6)
proof (induction qs arbitrary: cov)
  case (Cons p qs)
  show ?case
  proof (cases "cov = []")
    case False
    obtain ps where ps: "premise_pieces E st b p = Some ps" "pieces_ok (fseq st b) ps" "bounded (hseq st b) ps"
      "pset ps = {s. fseq st b \<le> s \<and> rev_at st (premise_key p) b s = Some (premise_revision p)}"
      using premise_pieces_correct [OF wf] by blast
    have ok: "pieces_ok (fseq st b) (intersect E cov ps)"
      using pieces_ok_intersect [OF Cons.prems(1) ps(2)] by simp
    have bd: "bounded (hseq st b) (intersect E cov ps)" by (rule bounded_intersect [OF Cons.prems(2) ps(3)])
    have "pset (intersect E cov ps) = {s \<in> pset cov. rev_at st (premise_key p) b s = Some (premise_revision p)}"
      using pset_intersect [OF Cons.prems(1) ps(2)] pieces_ok_pset [OF Cons.prems(1)] ps(4) by auto
    with Cons.IH [OF ok bd] ps(1) False show ?thesis by auto
  qed simp
qed simp

text \<open>The cover is exact: it is computed without a panic, in sorted and disjoint pieces, and it
  holds precisely the versions at which every premise resolves to its recorded revision.\<close>

lemma cover_correct:
  assumes wf: "wf_tree st" "wf_claims st" "wf_hists st" "is_live st b"
  shows "\<exists>ps. cover E st b cert = Some ps
    \<and> pieces_ok (fseq st b) ps \<and> bounded (hseq st b) ps
    \<and> pset ps = {s. fseq st b \<le> s \<and> holds E st cert b s}"
proof -
  obtain br where br: "branch_of st b = Some br" "br_first br = fseq st b"
    using is_live_Some [OF wf(4)] by (auto simp: fseq_def)
  obtain us where us: "untracked_pieces E st b (cert_key cert) (cert_epsilon cert) = Some us"
    "pieces_ok (fseq st b) us" "bounded (hseq st b) us"
    "pset us = {s. fseq st b \<le> s \<and> eps_at st (cert_key cert) b s = cert_epsilon cert}"
    using untracked_pieces_correct [OF wf(1,3,4)] by blast
  let ?start = "[mk_piece (fseq st b) None (env_EMPTY E)]"
  have ok: "pieces_ok (fseq st b) ?start" "bounded (hseq st b) ?start"
    using wf_tree_seqs [OF wf(1,4)] by simp_all
  have ok': "pieces_ok (fseq st b) (intersect E ?start us)" "bounded (hseq st b) (intersect E ?start us)"
    using pieces_ok_intersect [OF ok(1) us(2)] bounded_intersect [OF ok(2) us(3)] by simp_all
  have "pset (intersect E ?start us) = pset us"
    using pset_intersect [OF ok(1) us(2)] us(4) by (auto simp: pset_Cons interval_contains_def)
  with cover_loop_correct [OF wf ok', of E "cert_premises E cert"] us br show ?thesis
    by (auto simp: cover_def holds_def)
qed

section \<open>The window picked from a cover\<close>

lemma last_piece:
  assumes "pieces_ok lo ps" "ps \<noteq> []"
  shows "lo \<le> pfrom (last ps)" "puntil (last ps) = Some u \<Longrightarrow> pfrom (last ps) < u"
  using assms
proof (induction ps arbitrary: lo)
  case (Cons p ps)
  {
    case 1
    show ?case
    proof (cases "ps = []")
      case False
      with 1 obtain w where "pfrom p < w" "lo \<le> pfrom p" "pieces_ok w ps" by (auto split: option.splits)
      with Cons.IH(1) [of w] False show ?thesis by simp
    qed (use 1 in simp)
  next
    case 2
    show ?case
    proof (cases "ps = []")
      case False
      with 2 obtain w where "pieces_ok w ps" by (auto split: option.splits)
      with Cons.IH(2) [of w] False 2 show ?thesis by simp
    qed (use 2 in simp)
  }
qed simp_all

lemma last_piece_max:
  assumes "pieces_ok lo ps" "s \<in> pset ps" "puntil (last ps) = Some u"
  shows "s < u"
  using assms
proof (induction ps arbitrary: lo)
  case (Cons p ps)
  show ?case
  proof (cases "ps = []")
    case True
    with Cons.prems show ?thesis by (auto simp: pset_Cons interval_contains_def)
  next
    case False
    with Cons.prems obtain w where w: "puntil p = Some w" "pieces_ok w ps" by (auto split: option.splits)
    show ?thesis
    proof (cases "s \<in> pset ps")
      case True
      with Cons.IH [OF w(2)] Cons.prems(3) False show ?thesis by simp
    next
      case False
      with Cons.prems(2) w have "s < w" by (auto simp: pset_Cons interval_contains_def)
      moreover have "w \<le> pfrom (last ps)" "pfrom (last ps) < u"
        using last_piece [OF w(2) \<open>ps \<noteq> []\<close>] Cons.prems(3) \<open>ps \<noteq> []\<close> by auto
      ultimately show ?thesis by simp
    qed
  qed
qed simp

text \<open>
  No assertion of \<^verbatim>\<open>pick_window\<close> fails on a cover. What it picks lies within the cover and is
  well formed, and it is open exactly if the cover contains the head.
\<close>

lemma pick_window_correct:
  assumes live: "is_live st b" and ok: "pieces_ok (fseq st b) cov" "bounded (hseq st b) cov"
  shows "\<exists>r. pick_window st b cov = Some r \<and> (r = None \<longleftrightarrow> cov = [])
    \<and> (\<forall>w a. r = Some (w, a) \<longrightarrow> window_ok st b w \<and> (\<forall>s. covers w s \<longrightarrow> s \<in> pset cov)
          \<and> (is_open w \<longleftrightarrow> hseq st b \<in> pset cov) \<and> (covers w (hseq st b) \<longleftrightarrow> is_open w) \<and> \<not> window_is_empty w)"
proof (cases "cov = []")
  case True
  then show ?thesis by (simp add: pick_window_def)
next
  case False
  obtain br where br: "branch_of st b = Some br" "br_head br = hseq st b"
    using is_live_Some [OF live] by (auto simp: hseq_def)
  let ?p = "last cov"
  have mem: "?p \<in> set cov" using False by simp
  have low: "fseq st b \<le> pfrom ?p" using last_piece(1) [OF ok(1) False] .
  have up: "pfrom ?p \<le> hseq st b" "puntil ?p = Some u \<Longrightarrow> u \<le> hseq st b" for u
    using ok(2) mem by (auto simp: bounded_def)
  have sub: "interval_contains (piece_interval ?p) s \<Longrightarrow> s \<in> pset cov" for s
    using mem by (auto simp: pset_def)
  show ?thesis
  proof (cases "puntil ?p")
    case None
    with up have c: "interval_contains (piece_interval ?p) (hseq st b)" by (simp add: interval_contains_def)
    have "pick_window st b cov = Some (Some (window_open (pfrom ?p), piece_attribute ?p))"
      using False br c None by (simp add: pick_window_def Let_def)
    moreover have "window_ok st b (window_open (pfrom ?p))" using low up by (simp add: window_ok_def)
    moreover have "s \<in> pset cov" if "covers (window_open (pfrom ?p)) s" for s
      using that None by (intro sub) (simp add: interval_contains_def)
    ultimately show ?thesis using sub [OF c] False up(1) by (auto simp: window_is_empty_def)
  next
    case (Some u)
    with up have u: "u \<le> hseq st b" by simp
    have fu: "pfrom ?p < u" using last_piece(2) [OF ok(1) False Some] .
    let ?w = "\<lparr>win_from = pfrom ?p, win_until = Some u\<rparr>"
    have "\<not> interval_contains (piece_interval ?p) (hseq st b)"
      using Some u by (simp add: interval_contains_def)
    then have "pick_window st b cov = Some (Some (?w, piece_attribute ?p))"
      using False br Some u fu by (simp add: pick_window_def window_closed_def Let_def)
    moreover have "window_ok st b ?w" using low u fu by (simp add: window_ok_def)
    moreover have "s \<in> pset cov" if "covers ?w s" for s
      using that Some by (intro sub) (simp add: interval_contains_def covers_def)
    moreover have "hseq st b \<notin> pset cov"
      using last_piece_max [OF ok(1) _ Some, of "hseq st b"] u by auto
    ultimately show ?thesis using False fu u by (auto simp: is_open_def covers_def window_is_empty_def)
  qed
qed

end
