(* ===== verification/Dice_Oracle.thy ===== *)
theory Dice_Oracle
  imports Dice_Ids
begin

text \<open>
  The justification judgment of \<^verbatim>\<open>dice/docs/incrementality.md\<close>, section 3.2, and the oracle of
  \<^verbatim>\<open>dice/dice_core/src/oracle.rs\<close> that computes it. The judgment is an inductive predicate over a
  recorded history and the certificates written so far; the oracle computes it as a fixpoint. The
  two agree (\<open>is_justified_iff\<close>), so a theorem that a lookup is justified is a theorem that
  the oracle accepts it.
\<close>

section \<open>oracle.rs\<close>

datatype atom = AKey key | Untracked key

type_synonym rev = nat

record version_record =
  vr_parent :: "version option"
  vr_assertions :: "(atom \<times> rev) list"

record cert_record =
  cr_key :: key
  cr_revision :: rev
  cr_premises :: "(atom \<times> rev) list"

record model =
  m_versions :: "(version \<times> version_record) list"
  m_written :: "cert_record list"

definition model_new :: model where
  "model_new = \<lparr>m_versions = [], m_written = []\<rparr>"

text \<open>\<^verbatim>\<open>record_version\<close> panics on a version that was recorded before.\<close>

definition record_version ::
  "model \<Rightarrow> version \<Rightarrow> version option \<Rightarrow> (atom \<times> rev) list \<Rightarrow> model option" where
  "record_version M v parent as =
     (if map_of (m_versions M) v \<noteq> None then None
      else Some (M\<lparr>m_versions :=
             AList.update v \<lparr>vr_parent = parent, vr_assertions = as\<rparr> (m_versions M)\<rparr>))"

definition cert_record_of :: "('p, 'd, 'a) env \<Rightarrow> 'p cert \<Rightarrow> cert_record" where
  "cert_record_of E cert =
     \<lparr>cr_key = cert_key cert, cr_revision = cert_revision cert,
      cr_premises = map (\<lambda>p. (AKey (premise_key p), premise_revision p)) (cert_premises E cert)
        @ [(Untracked (cert_key cert), cert_epsilon cert)]\<rparr>"

definition record_write :: "('p, 'd, 'a) env \<Rightarrow> model \<Rightarrow> 'p cert \<Rightarrow> model" where
  "record_write E M cert = M\<lparr>m_written := m_written M @ [cert_record_of E cert]\<rparr>"

definition has_version :: "model \<Rightarrow> version \<Rightarrow> bool" where
  "has_version M v \<longleftrightarrow> map_of (m_versions M) v \<noteq> None"

definition root_assertion :: "atom \<Rightarrow> rev option" where
  "root_assertion a = (case a of Untracked _ \<Rightarrow> Some epsilon_INITIAL | AKey _ \<Rightarrow> None)"

text \<open>\<^verbatim>\<open>asserted\<close>: the walk to the root; the outer \<^const>\<open>None\<close> is an unrecorded version.\<close>

partial_function (option) asserted :: "model \<Rightarrow> atom \<Rightarrow> version \<Rightarrow> rev option option" where
  "asserted M a v =
     (case map_of (m_versions M) v of
        None \<Rightarrow> None
      | Some record \<Rightarrow>
          (case find (\<lambda>(a', _). a' = a) (List.rev (vr_assertions record)) of
             Some (_, r) \<Rightarrow> Some (Some r)
           | None \<Rightarrow>
               (case vr_parent record of
                  Some parent \<Rightarrow> asserted M a parent
                | None \<Rightarrow> Some (root_assertion a))))"

declare asserted.simps [code]

definition all_atoms :: "model \<Rightarrow> atom list" where
  "all_atoms M = remdups
     (concat (map (\<lambda>(_, record). map fst (vr_assertions record)) (m_versions M))
      @ concat (map (\<lambda>c. Untracked (cr_key c) # map fst (cr_premises c)) (m_written M)))"

fun assert_atoms :: "model \<Rightarrow> version \<Rightarrow> (atom \<times> rev) list \<Rightarrow> atom list \<Rightarrow> (atom \<times> rev) list option" where
  "assert_atoms M v facts [] = Some facts"
| "assert_atoms M v facts (a # as) = do {
     r \<leftarrow> asserted M a v;
     assert_atoms M v (case r of None \<Rightarrow> facts | Some r \<Rightarrow> List.insert (a, r) facts) as }"

text \<open>One pass of the loop of \<^verbatim>\<open>justified\<close> over the written certificates, and the loop.\<close>

definition certify :: "(atom \<times> rev) list \<Rightarrow> cert_record \<Rightarrow> (atom \<times> rev) list" where
  "certify facts c =
     (if list_all (\<lambda>f. f \<in> set facts) (cr_premises c)
      then List.insert (AKey (cr_key c), cr_revision c) facts else facts)"

definition pending_facts :: "cert_record list \<Rightarrow> (atom \<times> rev) list \<Rightarrow> nat" where
  "pending_facts W facts = card ((\<lambda>c. (AKey (cr_key c), cr_revision c)) ` set W - set facts)"

lemma certify_grows: "set facts \<subseteq> set (certify facts c)" "length facts \<le> length (certify facts c)"
  by (auto simp: certify_def List.insert_def)

lemma certify_cases:
  "certify facts c = facts \<or> ((AKey (cr_key c), cr_revision c) \<notin> set facts
     \<and> certify facts c = (AKey (cr_key c), cr_revision c) # facts)"
  by (auto simp: certify_def List.insert_def)

lemma pass_grows: "set facts \<subseteq> set (foldl certify facts cs) \<and> length facts \<le> length (foldl certify facts cs)"
proof (induction cs arbitrary: facts)
  case (Cons c cs)
  from Cons.IH [of "certify facts c"] certify_grows [of facts c] show ?case by auto
qed simp

lemma pass_new:
  "foldl certify facts cs = facts
   \<or> length facts < length (foldl certify facts cs)
     \<and> (\<exists>c\<in>set cs. (AKey (cr_key c), cr_revision c) \<in> set (foldl certify facts cs) - set facts)"
proof (induction cs arbitrary: facts)
  case (Cons c cs)
  consider "certify facts c = facts"
    | "(AKey (cr_key c), cr_revision c) \<notin> set facts"
      "certify facts c = (AKey (cr_key c), cr_revision c) # facts"
    using certify_cases [of facts c] by blast
  then show ?case
  proof cases
    case 1
    with Cons.IH [of facts] show ?thesis by simp metis
  next
    case 2
    then have "(AKey (cr_key c), cr_revision c) \<in> set (foldl certify facts (c # cs))"
      "length facts < length (foldl certify facts (c # cs))"
      using pass_grows [of "certify facts c" cs] by auto
    with 2 show ?thesis by auto
  qed
qed simp

lemma pass_pending:
  assumes "length (foldl certify facts W) \<noteq> length facts"
  shows "pending_facts W (foldl certify facts W) < pending_facts W facts"
proof -
  let ?H = "\<lambda>c. (AKey (cr_key c), cr_revision c)"
  obtain c where c: "c \<in> set W" "?H c \<in> set (foldl certify facts W) - set facts"
    using pass_new [of facts W] assms by auto
  show ?thesis
    unfolding pending_facts_def
  proof (rule psubset_card_mono)
    show "?H ` set W - set (foldl certify facts W) \<subset> ?H ` set W - set facts"
      using c pass_grows [of facts W] by blast
  qed simp
qed

function justified_loop :: "cert_record list \<Rightarrow> (atom \<times> rev) list \<Rightarrow> (atom \<times> rev) list" where
  "justified_loop W facts =
     (let facts' = foldl certify facts W
      in if length facts' = length facts then facts' else justified_loop W facts')"
  by pat_completeness auto
termination
  by (relation "measure (\<lambda>(W, facts). pending_facts W facts)") (auto intro: pass_pending)

declare justified_loop.simps [simp del]

definition justified_facts :: "model \<Rightarrow> version \<Rightarrow> (atom \<times> rev) list option" where
  "justified_facts M v = do {
     facts \<leftarrow> assert_atoms M v [] (all_atoms M);
     Some (justified_loop (m_written M) facts) }"

definition is_justified :: "model \<Rightarrow> key \<Rightarrow> revision \<Rightarrow> version \<Rightarrow> bool option" where
  "is_justified M key revision v =
     map_option (\<lambda>facts. (AKey key, revision) \<in> set facts) (justified_facts M v)"

lemmas [op_defs] = model_new_def record_version_def cert_record_of_def record_write_def
  has_version_def root_assertion_def certify_def justified_facts_def is_justified_def all_atoms_def

section \<open>The judgment\<close>

text \<open>The least relation closed under (Assert) and (Cert).\<close>

inductive justified :: "model \<Rightarrow> version \<Rightarrow> atom \<Rightarrow> rev \<Rightarrow> bool" for M v where
  by_assert: "asserted M a v = Some (Some r) \<Longrightarrow> justified M v a r"
| by_cert: "c \<in> set (m_written M) \<Longrightarrow> (\<And>a r. (a, r) \<in> set (cr_premises c) \<Longrightarrow> justified M v a r)
    \<Longrightarrow> justified M v (AKey (cr_key c)) (cr_revision c)"

inductive_cases justified_untracked: "justified M v (Untracked k) r"

section \<open>The oracle computes the judgment\<close>

text \<open>Induction on the walk of \<^verbatim>\<open>asserted\<close>, where it returns.\<close>

lemma asserted_walk:
  assumes "asserted M a v = Some y"
    and here: "\<And>v rc b r. map_of (m_versions M) v = Some rc \<Longrightarrow>
      find (\<lambda>(a', _). a' = a) (List.rev (vr_assertions rc)) = Some (b, r) \<Longrightarrow> P v (Some r)"
    and root: "\<And>v rc. map_of (m_versions M) v = Some rc \<Longrightarrow>
      find (\<lambda>(a', _). a' = a) (List.rev (vr_assertions rc)) = None \<Longrightarrow> vr_parent rc = None
      \<Longrightarrow> P v (root_assertion a)"
    and up: "\<And>v rc p y. map_of (m_versions M) v = Some rc \<Longrightarrow>
      find (\<lambda>(a', _). a' = a) (List.rev (vr_assertions rc)) = None \<Longrightarrow> vr_parent rc = Some p
      \<Longrightarrow> P p y \<Longrightarrow> P v y"
  shows "P v y"
proof -
  have "M = M \<longrightarrow> a = a \<longrightarrow> P v y"
  proof (rule asserted.raw_induct [OF _ assms(1), of "\<lambda>M' a' v y. M' = M \<longrightarrow> a' = a \<longrightarrow> P v y"], intro impI)
    fix f M' a' v y
    assume IH: "\<And>M' a' v y. f M' a' v = Some y \<Longrightarrow> M' = M \<longrightarrow> a' = a \<longrightarrow> P v y"
      and eq: "(case map_of (m_versions M') v of
        None \<Rightarrow> None
      | Some rc \<Rightarrow>
          (case find (\<lambda>(a'', _). a'' = a') (List.rev (vr_assertions rc)) of
             Some (_, r) \<Rightarrow> Some (Some r)
           | None \<Rightarrow>
               (case vr_parent rc of
                  Some parent \<Rightarrow> f M' a' parent
                | None \<Rightarrow> Some (root_assertion a')))) = Some y"
      and "M' = M" "a' = a"
    note this(3,4) [simp]
    from eq show "P v y"
      using here root up IH [of M a] by (auto split: option.splits)
  qed
  then show ?thesis by simp
qed

lemma find_atom: "find (\<lambda>(a', _). a' = a) xs = Some (b, r) \<Longrightarrow> b = a \<and> (a, r) \<in> set xs"
  by (auto dest: find_Some_in)

lemma asserted_atom_recorded:
  assumes "asserted M (AKey k) v = Some (Some r)"
  shows "AKey k \<in> set (all_atoms M)"
proof -
  have "Some r \<noteq> None \<longrightarrow> AKey k \<in> set (all_atoms M)"
    using assms
  proof (rule asserted_walk [where P = "\<lambda>v y. y \<noteq> None \<longrightarrow> AKey k \<in> set (all_atoms M)"])
    fix v rc b r
    assume "map_of (m_versions M) v = Some rc"
      "find (\<lambda>(a', _). a' = AKey k) (List.rev (vr_assertions rc)) = Some (b, r)"
    then show "Some r \<noteq> None \<longrightarrow> AKey k \<in> set (all_atoms M)"
      using find_atom [of "AKey k" "List.rev (vr_assertions rc)" b r]
      by (force simp: all_atoms_def dest: map_of_SomeD)
  qed (simp_all add: root_assertion_def)
  then show ?thesis by simp
qed

lemma assert_atoms_facts:
  assumes "assert_atoms M v facts as = Some fs"
  shows "set fs = set facts \<union> {(a, r). a \<in> set as \<and> asserted M a v = Some (Some r)}"
  using assms
proof (induction as arbitrary: facts)
  case (Cons a as)
  then obtain r where r: "asserted M a v = Some r"
    "assert_atoms M v (case r of None \<Rightarrow> facts | Some r \<Rightarrow> List.insert (a, r) facts) as = Some fs"
    by (auto simp: bind_eq_Some_conv)
  have "(b, q) \<in> set fs \<longleftrightarrow> (b, q) \<in> set facts \<or> b \<in> set (a # as) \<and> asserted M b v = Some (Some q)" for b q
    using Cons.IH [OF r(2)] r(1) by (cases "b = a"; cases r) (simp_all, blast)
  then show ?case by auto
qed simp

lemma assert_atoms_total:
  "(\<And>a. a \<in> set as \<Longrightarrow> asserted M a v \<noteq> None) \<Longrightarrow> \<exists>fs. assert_atoms M v facts as = Some fs"
  by (induction as arbitrary: facts) force+

lemma pass_sound:
  assumes "\<And>f. f \<in> set facts \<Longrightarrow> justified M v (fst f) (snd f)" "set W \<subseteq> set (m_written M)"
    and "f \<in> set (foldl certify facts W)"
  shows "justified M v (fst f) (snd f)"
  using assms
proof (induction W arbitrary: facts)
  case (Cons c W)
  have "justified M v (fst f) (snd f)" if "f \<in> set (certify facts c)" for f
    using that Cons.prems(1,2)
    by (auto simp: certify_def list_all_iff split: if_splits intro!: by_cert)
  with Cons.IH [of "certify facts c"] Cons.prems show ?case by simp
qed simp

lemma justified_loop_sound:
  assumes "\<And>f. f \<in> set facts \<Longrightarrow> justified M v (fst f) (snd f)"
    and "f \<in> set (justified_loop (m_written M) facts)"
  shows "justified M v (fst f) (snd f)"
proof -
  have "justified M v (fst f) (snd f)"
    if "W = m_written M" "\<And>f. f \<in> set facts \<Longrightarrow> justified M v (fst f) (snd f)"
      "f \<in> set (justified_loop W facts)" for W facts
    using that
  proof (induction W facts rule: justified_loop.induct)
    case (1 W facts)
    have pass: "justified M v (fst f) (snd f)" if "f \<in> set (foldl certify facts W)" for f
      using pass_sound [of facts M v W f] 1(2,3) that by simp
    show ?case
      using 1(4) 1(1) [OF refl _ 1(2) pass] pass
      by (subst (asm) justified_loop.simps) (auto simp: Let_def split: if_splits)
  qed
  with assms show ?thesis by blast
qed

lemma justified_loop_closed:
  "set facts \<subseteq> set (justified_loop W facts)
   \<and> (\<forall>c\<in>set W. set (cr_premises c) \<subseteq> set (justified_loop W facts)
        \<longrightarrow> (AKey (cr_key c), cr_revision c) \<in> set (justified_loop W facts))"
proof (induction W facts rule: justified_loop.induct)
  case (1 W facts)
  let ?fs = "foldl certify facts W"
  show ?case
  proof (cases "length ?fs = length facts")
    case True
    then have fx: "?fs = facts" using pass_new [of facts W] by simp
    then have j: "justified_loop W facts = facts" by (subst justified_loop.simps) simp
    have "(AKey (cr_key c), cr_revision c) \<in> set facts"
      if c: "c \<in> set W" and sub: "set (cr_premises c) \<subseteq> set facts" for c
    proof -
      obtain W1 W2 where W: "W = W1 @ c # W2" using split_list [OF c] by blast
      let ?g = "foldl certify facts W1"
      have "set facts \<subseteq> set ?g" using pass_grows by blast
      with sub have "(AKey (cr_key c), cr_revision c) \<in> set (certify ?g c)"
        by (auto simp: certify_def list_all_iff)
      moreover have "set (certify ?g c) \<subseteq> set ?fs"
        using pass_grows [of "certify ?g c" W2] W by simp
      ultimately show ?thesis using fx by auto
    qed
    with j show ?thesis by simp
  next
    case False
    then have "justified_loop W facts = justified_loop W ?fs"
      by (subst justified_loop.simps) (simp add: Let_def)
    with 1 [OF refl False] pass_grows [of facts W] show ?thesis by auto
  qed
qed

text \<open>A version at which every atom resolves is one whose path to the root is recorded.\<close>

lemma is_justified_iff:
  assumes "\<And>a. asserted M a v \<noteq> None"
  shows "\<exists>j. is_justified M k r v = Some j \<and> (j \<longleftrightarrow> justified M v (AKey k) r)"
proof -
  obtain fs where fs: "assert_atoms M v [] (all_atoms M) = Some fs"
    using assert_atoms_total [of "all_atoms M" M v "[]"] assms by blast
  let ?J = "justified_loop (m_written M) fs"
  have base: "set fs = {(a, r). a \<in> set (all_atoms M) \<and> asserted M a v = Some (Some r)}"
    using assert_atoms_facts [OF fs] by simp
  have sound: "justified M v (fst f) (snd f)" if "f \<in> set ?J" for f
    by (rule justified_loop_sound [OF _ that]) (auto simp: base intro: by_assert)
  have complete: "a \<in> set (all_atoms M) \<or> (\<exists>k. a = AKey k) \<Longrightarrow> (a, r) \<in> set ?J" if "justified M v a r" for a r
    using that
  proof induction
    case (by_assert a r)
    then have "a \<in> set (all_atoms M)"
      using asserted_atom_recorded by_assert by blast
    with by_assert base justified_loop_closed [of fs "m_written M"] show ?case by auto
  next
    case (by_cert c)
    have "set (cr_premises c) \<subseteq> set ?J"
    proof
      fix f assume f: "f \<in> set (cr_premises c)"
      obtain a r where ar: "f = (a, r)" by (cases f)
      have "a \<in> set (all_atoms M)" using by_cert(1) f ar by (force simp: all_atoms_def)
      with by_cert(3) [of a r] f ar show "f \<in> set ?J" by simp
    qed
    with by_cert(1) justified_loop_closed [of fs "m_written M"] show ?case by simp
  qed
  have "(AKey k, r) \<in> set ?J \<longleftrightarrow> justified M v (AKey k) r"
    using sound [of "(AKey k, r)"] complete [of "AKey k" r] by auto
  with fs show ?thesis by (simp add: is_justified_def justified_facts_def)
qed

section \<open>What recording changes\<close>

lemma asserted_mono:
  assumes "asserted M a v = Some y" "map_of (m_versions M) \<subseteq>\<^sub>m map_of (m_versions M')"
  shows "asserted M' a v = Some y"
  using assms(1)
proof (rule asserted_walk)
  have sub: "map_of (m_versions M') v = Some rc" if "map_of (m_versions M) v = Some rc" for v rc
    using assms(2) that by (auto simp: map_le_def dom_def)
  show "asserted M' a v = Some (Some r)"
    if "map_of (m_versions M) v = Some rc"
      "find (\<lambda>(a', _). a' = a) (List.rev (vr_assertions rc)) = Some (b, r)" for v rc b r
    using sub [OF that(1)] that(2) by (subst asserted.simps) simp
  show "asserted M' a v = Some (root_assertion a)"
    if "map_of (m_versions M) v = Some rc"
      "find (\<lambda>(a', _). a' = a) (List.rev (vr_assertions rc)) = None" "vr_parent rc = None" for v rc
    using sub [OF that(1)] that(2,3) by (subst asserted.simps) simp
  show "asserted M' a v = Some y"
    if "map_of (m_versions M) v = Some rc"
      "find (\<lambda>(a', _). a' = a) (List.rev (vr_assertions rc)) = None" "vr_parent rc = Some p"
      "asserted M' a p = Some y" for v rc p y
    using sub [OF that(1)] that(2-) by (subst asserted.simps) simp
qed

lemma asserted_record_version:
  "record_version M v p as = Some M' \<Longrightarrow> asserted M a u = Some x \<Longrightarrow> asserted M' a u = Some x"
  by (rule asserted_mono) (auto simp: record_version_def map_le_def split: if_splits)

lemma asserted_record_write [simp]: "asserted (record_write E M cert) a v = asserted M a v"
  using asserted_mono [of M a v _ "record_write E M cert"] asserted_mono [of "record_write E M cert" a v _ M]
  by (cases "asserted M a v"; cases "asserted (record_write E M cert) a v") (auto simp: record_write_def)

lemma asserted_new_version:
  assumes "record_version M v p as = Some M'"
  shows "asserted M' a v =
     (case find (\<lambda>(a', _). a' = a) (List.rev as) of
        Some (_, r) \<Rightarrow> Some (Some r)
      | None \<Rightarrow> (case p of Some u \<Rightarrow> asserted M' a u | None \<Rightarrow> Some (root_assertion a)))"
  using assms by (subst asserted.simps) (auto simp: record_version_def split: if_splits option.splits)

lemma written_record [simp]:
  "record_version M v p as = Some M' \<Longrightarrow> m_written M' = m_written M"
  "m_written (record_write E M cert) = m_written M @ [cert_record_of E cert]"
  by (auto simp: record_version_def record_write_def split: if_splits)

text \<open>A judgment carries over to a history that keeps the assertions seen from its version and the
  certificates written.\<close>

lemma justified_transfer:
  assumes "justified M v a r"
    and "\<And>a r. asserted M a v = Some (Some r) \<Longrightarrow> asserted M' a v' = Some (Some r)"
    and "set (m_written M) \<subseteq> set (m_written M')"
  shows "justified M' v' a r"
  using assms(1)
proof induction
  case (by_assert a r)
  then show ?case using assms(2) by (blast intro: justified.by_assert)
next
  case (by_cert c)
  then show ?case using assms(3) by (blast intro: justified.by_cert)
qed

lemma justified_cert:
  assumes "cert_record_of E cert \<in> set (m_written M)"
    and "asserted M (Untracked (cert_key cert)) v = Some (Some (cert_epsilon cert))"
    and "\<And>p. p \<in> set (cert_premises E cert) \<Longrightarrow> justified M v (AKey (premise_key p)) (premise_revision p)"
  shows "justified M v (AKey (cert_key cert)) (cert_revision cert)"
proof -
  have "justified M v (AKey (cr_key (cert_record_of E cert))) (cr_revision (cert_record_of E cert))"
    using assms by (intro by_cert) (auto simp: cert_record_of_def intro: by_assert)
  then show ?thesis by (simp add: cert_record_of_def)
qed

end
