(* ===== verification/Dice_Invariant.thy ===== *)
theory Dice_Invariant
  imports Dice_Cover Dice_Oracle
begin

text \<open>
  The invariants of the core state (\<^verbatim>\<open>dice/docs/incrementality.md\<close>, section 4.6), stated over what
  keys resolve to. \<open>wf_core\<close> is the part that concerns the store alone: the branch tree, the
  windows (Invariant 1), the histories, and the exactness of the indices. \<open>supported_at\<close> is the
  part that concerns one branch: every premise of an attached certificate holds wherever the
  certificate is resolved on the branch (Invariant 2), its edges are registered (Invariant 3), and
  its derivation is grounded in assertions.
\<close>

section \<open>The store\<close>

text \<open>One slot and one history for each key and branch of \<open>L\<close>, and a key is either asserted or
  derived. The store of a state mentions live branches only; while a branch is being deleted, \<open>L\<close> has
  it still.\<close>

definition wf_store_on :: "(branch_id \<Rightarrow> bool) \<Rightarrow> ('p, 'd, 'a) core_state \<Rightarrow> bool" where
  "wf_store_on L st \<longleftrightarrow>
     (\<forall>k. distinct (map slot_branch (slots_of st k)) \<and> (\<forall>slot\<in>set (slots_of st k). L (slot_branch slot)))
   \<and> (\<forall>k hs. map_of (assertions st) k = Some hs \<longrightarrow> distinct (map fst hs) \<and> (\<forall>b\<in>fst ` set hs. L b))
   \<and> distinct (map fst (slots st)) \<and> distinct (map fst (assertions st))
   \<and> fst ` set (slots st) \<inter> fst ` set (assertions st) = {}
   \<and> key_count st = length (slots st) + length (assertions st)"

definition wf_store :: "('p, 'd, 'a) core_state \<Rightarrow> bool" where
  "wf_store st \<longleftrightarrow> wf_store_on (is_live st) st"

lemmas wf_store_defs = wf_store_def wf_store_on_def

definition closed_exact :: "('p, 'd, 'a) core_state \<Rightarrow> bool" where
  "closed_exact st \<longleftrightarrow> (\<forall>b k. is_live st b \<longrightarrow>
     (k \<in> closed_set st b \<longleftrightarrow> (\<exists>c. claim_at st k b = Some c \<and> is_nonempty_closed (claim_window c))))"

text \<open>The identities in use fit the 32 bits of a \<^verbatim>\<open>BranchId\<close> and a \<^verbatim>\<open>Seq\<close>.\<close>

definition bounded_ids :: "('p, 'd, 'a) core_state \<Rightarrow> bool" where
  "bounded_ids st \<longleftrightarrow> length (branches st) \<le> u32_max + 1 \<and> (\<forall>b. is_live st b \<longrightarrow> hseq st b \<le> u32_max)"

definition wf_core :: "('p, 'd, 'a) core_state \<Rightarrow> bool" where
  "wf_core st \<longleftrightarrow> wf_tree st \<and> wf_claims st \<and> wf_hists st \<and> wf_store st \<and> closed_exact st \<and> bounded_ids st"

lemma wf_coreD:
  "wf_core st \<Longrightarrow> wf_tree st" "wf_core st \<Longrightarrow> wf_claims st" "wf_core st \<Longrightarrow> wf_hists st"
  "wf_core st \<Longrightarrow> wf_store st" "wf_core st \<Longrightarrow> closed_exact st" "wf_core st \<Longrightarrow> bounded_ids st"
  by (simp_all add: wf_core_def)

lemma wf_store_disjoint: "wf_store st \<Longrightarrow> is_asserted st k \<Longrightarrow> map_of (slots st) k = None"
  by (auto simp: wf_store_defs is_asserted_def map_of_eq_None)

lemma wf_store_slot_live: "wf_store st \<Longrightarrow> slot_of st k b = Some slot \<Longrightarrow> is_live st b"
  by (fastforce simp: wf_store_defs slot_of_slots_of dest: find_Some_in)

lemma wf_store_claim_live: "wf_store st \<Longrightarrow> claim_at st k b = Some c \<Longrightarrow> is_live st b"
  by (auto simp: claim_at_def bind_eq_Some_conv intro: wf_store_slot_live)

lemma asserted_no_claim: "wf_store st \<Longrightarrow> is_asserted st k \<Longrightarrow> claim_at st k b = None \<and> dirts st k b = []"
  using wf_store_disjoint [of st k] by (simp add: claim_at_def dirts_def slot_of_def)

lemma history_of_Some: "history_of hs b = Some h \<Longrightarrow> (b, h) \<in> set hs"
  by (auto simp: history_of_def dest: find_Some_in)

lemma wf_store_hist_live: "wf_store st \<Longrightarrow> hist st k b \<noteq> [] \<Longrightarrow> is_live st b"
  by (force simp: wf_store_defs hist_def split: option.splits dest: history_of_Some)

lemma wf_store_dirts_live: "wf_store st \<Longrightarrow> dirts st k b \<noteq> [] \<Longrightarrow> is_live st b"
  by (auto simp: dirts_def split: option.splits intro: wf_store_slot_live)

subsection \<open>Preservation by the mutators\<close>

lemma wf_store_on_cong:
  "slots st' = slots st \<Longrightarrow> assertions st' = assertions st \<Longrightarrow> key_count st' = key_count st
   \<Longrightarrow> (\<And>b. L b \<Longrightarrow> L' b) \<Longrightarrow> wf_store_on L st \<Longrightarrow> wf_store_on L' st'"
  by (simp add: wf_store_on_def slots_of_def)

lemma wf_store_cong:
  assumes "slots st' = slots st" "assertions st' = assertions st" "key_count st' = key_count st"
    and "\<And>b. is_live st b \<Longrightarrow> is_live st' b"
  shows "wf_store st \<Longrightarrow> wf_store st'"
  unfolding wf_store_def by (rule wf_store_on_cong) (use assms in auto)

lemma wf_store_on_slot_or_insert:
  assumes wf: "wf_store_on L st" and live: "L b" and as: "\<not> is_asserted st k"
  shows "wf_store_on L (slot_or_insert st k b)"
proof -
  let ?st = "slot_or_insert st k b"
  have none: "find (\<lambda>slot. slot_branch slot = b) (slots_of st k) = None \<longleftrightarrow> b \<notin> slot_branch ` set (slots_of st k)"
    by (auto simp: find_None_iff)
  have sl: "distinct (map slot_branch (slots_of ?st k')) \<and> (\<forall>slot\<in>set (slots_of ?st k'). L (slot_branch slot))" for k'
    using wf live none by (auto simp: wf_store_on_def slots_of_slot_or_insert slot_of_slots_of slot_new_def)
  have keys: "fst ` set (slots ?st) = insert k (fst ` set (slots st))" "distinct (map fst (slots ?st))"
    using wf by (auto simp: slot_or_insert_def Let_def keys_update wf_store_on_def distinct_keys_update split: prod.splits)
  have "key_count ?st = length (slots ?st) + length (assertions st)"
    using wf as domI [of "map_of (slots st)" k]
    by (auto simp: slot_or_insert_def Let_def length_keys_update wf_store_on_def is_asserted_def
        map_of_eq_None dom_map_of_conv_image_fst split: option.splits)
  with sl keys wf as show ?thesis
    by (auto simp: wf_store_on_def is_asserted_def map_of_eq_None)
qed

lemma wf_store_on_slot_mut:
  assumes wf: "wf_store_on L st" and f: "\<And>s. slot_branch (f s) = slot_branch s"
  shows "wf_store_on L (slot_mut st k b f)"
proof (cases "map_of (slots st) k")
  case None
  then show ?thesis using wf by (simp add: slot_mut_def)
next
  case (Some ss)
  let ?st = "slot_mut st k b f"
  have mem: "k \<in> fst ` set (slots st)" using Some map_of_SomeD by force
  have map: "map slot_branch (slots_of ?st k') = map slot_branch (slots_of st k')" for k'
    by (simp add: slots_of_slot_mut map_update_first f)
  then have set: "slot_branch ` set (slots_of ?st k') = slot_branch ` set (slots_of st k')" for k'
    by (metis list.set_map)
  have "\<forall>slot\<in>set (slots_of ?st k'). L (slot_branch slot)" for k'
    using wf set [of k'] unfolding wf_store_on_def by (metis (no_types, lifting) image_iff)
  moreover have "fst ` set (slots ?st) = fst ` set (slots st)" "distinct (map fst (slots ?st))"
    "length (slots ?st) = length (slots st)"
    using wf Some mem by (auto simp: slot_mut_def keys_update distinct_keys_update wf_store_on_def length_keys_update)
  ultimately show ?thesis using wf map by (simp add: wf_store_on_def)
qed

lemma wf_store_on_set_slot_claim:
  "wf_store_on L st \<Longrightarrow> L b \<Longrightarrow> \<not> is_asserted st k \<Longrightarrow> wf_store_on L (set_slot_claim st k b c)"
  unfolding set_slot_claim_def by (intro wf_store_on_slot_mut wf_store_on_slot_or_insert) auto

lemma wf_store_on_set_untracked:
  "wf_store_on L st \<Longrightarrow> L b \<Longrightarrow> \<not> is_asserted st k \<Longrightarrow> wf_store_on L (set_untracked st k b h)"
  unfolding set_untracked_def by (intro wf_store_on_slot_mut wf_store_on_slot_or_insert) auto

lemma wf_store_slot_mut:
  assumes "wf_store st" "\<And>s. slot_branch (f s) = slot_branch s"
  shows "wf_store (slot_mut st k b f)"
  using wf_store_on_slot_mut [of "is_live st" st f k b] branch_views_cong(1) [of "slot_mut st k b f" st] assms
  by (simp add: wf_store_def)

lemma wf_store_set_slot_claim:
  "wf_store st \<Longrightarrow> is_live st b \<Longrightarrow> \<not> is_asserted st k \<Longrightarrow> wf_store (set_slot_claim st k b c)"
  using wf_store_on_set_slot_claim [of "is_live st" st b k c] same_world_views(1) [OF set_slot_claim_views(3), of st k b c]
  by (simp add: wf_store_def)

lemma wf_store_on_set_claim:
  assumes "set_claim st k b (Some c) = Some st'" "wf_store_on L st" "\<not> is_asserted st k" "L b"
  shows "wf_store_on L st'"
proof -
  note m = assms(1) [unfolded set_claim_eq]
  have "slots st' = slots (set_slot_claim st k b c)" "assertions st' = assertions (set_slot_claim st k b c)"
    "key_count st' = key_count (set_slot_claim st k b c)"
    by (rule branch_mut_world [OF m]; auto split: if_splits)+
  then show ?thesis
    by (rule wf_store_on_cong [OF _ _ _ _ wf_store_on_set_slot_claim [OF assms(2,4,3), of c]]) simp
qed

lemma wf_store_set_claim:
  assumes "set_claim st k b (Some c) = Some st'" "wf_store st" "\<not> is_asserted st k" "is_live st b"
  shows "wf_store st'"
  using wf_store_on_set_claim [OF assms(1)] assms(2-4) same_world_views(1) [OF set_claim_views(2) [OF assms(1)]]
  by (simp add: wf_store_def)

lemma wf_store_register_edges:
  assumes "register_edges E st b cert = Some st'" "wf_store st"
  shows "wf_store st'"
proof -
  note m = assms(1) [unfolded register_edges_def]
  have "slots st' = slots st" "assertions st' = assertions st" "key_count st' = key_count st" "same_world st st'"
    by (rule branch_mut_world [OF m]; force simp: foldl_add_edge_frame)+
  then show ?thesis using assms(2)
    by (intro wf_store_cong [of st' st]) (auto simp: same_world_views)
qed

lemma wf_store_set_untracked:
  "wf_store st \<Longrightarrow> is_live st b \<Longrightarrow> \<not> is_asserted st k \<Longrightarrow> wf_store (set_untracked st k b h)"
  using wf_store_on_set_untracked [of "is_live st" st b k h] branch_views_cong(1) [OF set_untracked_views(3), of st k b h]
  by (simp add: wf_store_def)

lemma wf_store_on_assertion_history_mut:
  assumes m: "assertion_history_mut st k b f = Some st'" and wf: "wf_store_on L st" and live: "L b"
    and sl: "map_of (slots st) k = None"
  shows "wf_store_on L st'"
proof -
  let ?hs = "histories_with st k b"
  obtain h where st': "assertions st' = AList.update k (update_first (\<lambda>(hb, _). hb = b) (\<lambda>(hb, _). (hb, h)) ?hs) (assertions st)"
    and same: "slots st' = slots st"
    and kc: "key_count st' = (if map_of (assertions st) k = None then key_count st + 1 else key_count st)"
    using m sl by (auto simp: assertion_history_mut_eq)
  have hs': "distinct (map fst ?hs) \<and> (\<forall>b\<in>fst ` set ?hs. L b)"
  proof (cases "map_of (assertions st) k")
    case (Some hs)
    then have "distinct (map fst hs) \<and> (\<forall>b\<in>fst ` set hs. L b)" using wf by (simp add: wf_store_on_def)
    with Some live show ?thesis by (auto simp: histories_with_def)
  qed (use live in \<open>simp add: histories_with_def\<close>)
  let ?u = "update_first (\<lambda>(hb, _). hb = b) (\<lambda>(hb, _). (hb, h)) ?hs"
  have "map fst ?u = map fst ?hs" by (rule map_update_first) auto
  then have u: "distinct (map fst ?u) \<and> (\<forall>b\<in>fst ` set ?u. L b)"
    using hs' by (metis list.set_map)
  have len: "length (assertions st') = (if map_of (assertions st) k = None then Suc (length (assertions st)) else length (assertions st))"
    by (simp add: st' length_keys_update map_of_eq_None)
  from wf u kc len sl show ?thesis
    by (auto simp: wf_store_on_def st' same slots_of_def keys_update distinct_keys_update map_of_eq_None)
qed

lemma wf_store_assertion_history_mut:
  assumes m: "assertion_history_mut st k b f = Some st'" and "wf_store st" "is_live st b" "map_of (slots st) k = None"
  shows "wf_store st'"
  using wf_store_on_assertion_history_mut [OF m] assms branch_views_cong(1) [OF assertion_history_mut_views(4) [OF m]]
  by (simp add: wf_store_def)

lemma wf_hists_same_world: "same_world st st' \<Longrightarrow> wf_hists st \<Longrightarrow> wf_hists st'"
  by (simp add: wf_hists_def same_world_views)

lemma window_ok_same_world: "same_world st st' \<Longrightarrow> window_ok st' = window_ok st"
  by (auto simp: window_ok_def same_world_views fun_eq_iff split: option.splits)

lemma set_claim_wf:
  assumes sc: "set_claim st k b (Some c) = Some st'" and wf: "wf_core st" and live: "is_live st b"
    and as: "\<not> is_asserted st k" and key: "cert_key (claim_cert c) = k" and win: "window_ok st b (claim_window c)"
  shows "wf_core st'"
proof -
  note v = set_claim_views [OF sc]
  note sw = same_world_views [OF v(2)]
  have "wf_claims st'"
    using wf_coreD(2) [OF wf] key win live by (auto simp: wf_claims_def v(1) sw window_ok_same_world [OF v(2)])
  moreover have "closed_exact st'"
    using wf_coreD(5) [OF wf] live by (auto simp: closed_exact_def v(1,4) sw)
  ultimately show ?thesis
    using wf_coreD [OF wf] same_world_wf [OF v(2)] wf_hists_same_world [OF v(2)]
      wf_store_set_claim [OF sc _ as live] sw
    by (simp add: wf_core_def bounded_ids_def)
qed

lemma register_edges_wf:
  assumes re: "register_edges E st b cert = Some st'" and wf: "wf_core st"
  shows "wf_core st'"
proof -
  note v = register_edges_views [OF re]
  note sw = same_world_views [OF v(1)]
  have "wf_claims st'" "closed_exact st'"
    using wf_coreD(2,5) [OF wf] by (simp_all add: wf_claims_def closed_exact_def v(2,3) sw window_ok_same_world [OF v(1)])
  then show ?thesis
    using wf_coreD [OF wf] same_world_wf [OF v(1)] wf_hists_same_world [OF v(1)] wf_store_register_edges [OF re] sw
    by (simp add: wf_core_def bounded_ids_def)
qed

section \<open>Support\<close>

text \<open>A key is grounded at a version if its derivation there ends in asserted keys.\<close>

inductive grounded ::
  "('p, 'd, 'a) env \<Rightarrow> ('p, 'd, 'a) core_state \<Rightarrow> branch_id \<Rightarrow> seq \<Rightarrow> key \<Rightarrow> bool"
  for E st b s where
  ground: "vcert st k b s = Some c \<Longrightarrow>
    (\<And>p. p \<in> set (cert_premises E c) \<Longrightarrow> is_asserted st (premise_key p) \<or> grounded E st b s (premise_key p))
    \<Longrightarrow> grounded E st b s k"

definition supported_at :: "('p, 'd, 'a) env \<Rightarrow> ('p, 'd, 'a) core_state \<Rightarrow> branch_id \<Rightarrow> bool" where
  "supported_at E st b \<longleftrightarrow> (\<forall>k c. vcert st k b (hseq st b) = Some c \<longrightarrow>
     (\<forall>s. fseq st b \<le> s \<longrightarrow> s \<le> hseq st b \<longrightarrow> vcert st k b s \<noteq> None \<longrightarrow> holds E st c b s)
     \<and> (\<forall>p\<in>set (cert_premises E c). k \<in> set (edges st b (premise_key p)))
     \<and> grounded E st b (hseq st b) k)"

definition core_inv :: "('p, 'd, 'a) env \<Rightarrow> ('p, 'd, 'a) core_state \<Rightarrow> bool" where
  "core_inv E st \<longleftrightarrow> wf_core st \<and> (\<forall>b. is_live st b \<longrightarrow> supported_at E st b)"

lemma supported_holds:
  "supported_at E st b \<Longrightarrow> vcert st k b (hseq st b) = Some c \<Longrightarrow> fseq st b \<le> s \<Longrightarrow> s \<le> hseq st b
   \<Longrightarrow> vcert st k b s \<noteq> None \<Longrightarrow> holds E st c b s"
  by (auto simp: supported_at_def)

lemma supported_edges:
  "supported_at E st b \<Longrightarrow> vcert st k b (hseq st b) = Some c \<Longrightarrow> p \<in> set (cert_premises E c)
   \<Longrightarrow> k \<in> set (edges st b (premise_key p))"
  by (auto simp: supported_at_def)

lemma supported_grounded:
  "supported_at E st b \<Longrightarrow> vcert st k b (hseq st b) = Some c \<Longrightarrow> grounded E st b (hseq st b) k"
  by (auto simp: supported_at_def)

text \<open>What the invariants of one branch depend on.\<close>

definition same_answers ::
  "('p, 'd, 'a) core_state \<Rightarrow> ('p, 'd, 'a) core_state \<Rightarrow> branch_id \<Rightarrow> bool" where
  "same_answers st st' b \<longleftrightarrow> fseq st' b = fseq st b \<and> hseq st' b = hseq st b
     \<and> (\<forall>k. is_asserted st k \<longrightarrow> is_asserted st' k)
     \<and> (\<forall>k s. fseq st b \<le> s \<longrightarrow> s \<le> hseq st b \<longrightarrow> vcert st' k b s = vcert st k b s
          \<and> rev_at st' k b s = rev_at st k b s \<and> eps_at st' k b s = eps_at st k b s)"

lemma same_answers_holds:
  "same_answers st st' b \<Longrightarrow> fseq st b \<le> s \<Longrightarrow> s \<le> hseq st b \<Longrightarrow> holds E st' c b s = holds E st c b s"
  by (simp add: same_answers_def holds_def)

lemma grounded_transfer:
  assumes "grounded E st b s k"
    and "\<And>k c. vcert st k b s = Some c \<Longrightarrow> P k \<Longrightarrow> vcert st' k b' s' = Some c
      \<and> (\<forall>p\<in>set (cert_premises E c). is_asserted st (premise_key p) \<longrightarrow> is_asserted st' (premise_key p))
      \<and> (\<forall>p\<in>set (cert_premises E c). \<not> is_asserted st (premise_key p) \<longrightarrow> P (premise_key p))"
  shows "P k \<Longrightarrow> grounded E st' b' s' k"
  using assms(1)
proof induction
  case (ground k c)
  from assms(2) [OF ground(1) ground(3)] ground(2) show ?case
    by (intro grounded.ground [of st' k b' s' c E]) blast+
qed

lemma supported_same_answers:
  assumes sa: "same_answers st st' b" and sup: "supported_at E st b"
    and e: "\<And>x. set (edges st b x) \<subseteq> set (edges st' b x)" and fh: "fseq st b \<le> hseq st b"
  shows "supported_at E st' b"
  unfolding supported_at_def
proof (intro allI impI conjI)
  fix k c assume "vcert st' k b (hseq st' b) = Some c"
  with sa fh have c: "vcert st k b (hseq st b) = Some c" by (simp add: same_answers_def)
  have g: "grounded E st b (hseq st b) k" using supported_grounded [OF sup c] .
  have "grounded E st' b (hseq st b) k"
    by (rule grounded_transfer [OF g, of "\<lambda>_. True"]) (use sa fh in \<open>auto simp: same_answers_def\<close>)
  with sa show "grounded E st' b (hseq st' b) k" by (simp add: same_answers_def)
  show "\<forall>p\<in>set (cert_premises E c). k \<in> set (edges st' b (premise_key p))"
    using supported_edges [OF sup c] e by blast
  fix s assume "fseq st' b \<le> s" "s \<le> hseq st' b" "vcert st' k b s \<noteq> None"
  with sa same_answers_holds [OF sa] supported_holds [OF sup c] show "holds E st' c b s"
    by (auto simp: same_answers_def)
qed

section \<open>Neutral steps\<close>

text \<open>
  A step is neutral if it changes no answer and loses neither edges nor claims. The discharges of
  a write are neutral: they only move where an answer is kept.
\<close>

definition neutral :: "('p, 'd, 'a) core_state \<Rightarrow> ('p, 'd, 'a) core_state \<Rightarrow> bool" where
  "neutral st st' \<longleftrightarrow> same_world st st'
     \<and> (\<forall>k b s. is_live st b \<longrightarrow> fseq st b \<le> s \<longrightarrow> vcert st' k b s = vcert st k b s)
     \<and> (\<forall>b x. set (edges st b x) \<subseteq> set (edges st' b x))
     \<and> (\<forall>k b. claim_at st k b \<noteq> None \<longrightarrow> claim_at st' k b \<noteq> None)"

lemma neutral_refl [simp]: "neutral st st"
  by (simp add: neutral_def)

lemma neutral_trans: "neutral a b \<Longrightarrow> neutral b c \<Longrightarrow> neutral a c"
  by (auto simp: neutral_def same_world_views intro: same_world_trans) blast+

lemma same_world_asserted_views:
  assumes "same_world st st'"
  shows "ventry st' = ventry st" "vdirt st' = vdirt st" "eps_at st' = eps_at st"
  unfolding fun_eq_iff ventry_def vdirt_def eps_at_def using same_world_views [OF assms] by simp_all

lemma neutral_same_answers: "neutral st st' \<Longrightarrow> is_live st b \<Longrightarrow> same_answers st st' b"
  by (auto simp: same_answers_def neutral_def same_world_views same_world_asserted_views rev_at_def)

lemma neutral_holds:
  "neutral st st' \<Longrightarrow> is_live st b \<Longrightarrow> fseq st b \<le> s \<Longrightarrow> holds E st' c b s = holds E st c b s"
  by (auto simp: holds_def neutral_def same_world_views same_world_asserted_views rev_at_def)

lemma neutral_supported:
  "neutral st st' \<Longrightarrow> wf_tree st \<Longrightarrow> is_live st b \<Longrightarrow> supported_at E st b \<Longrightarrow> supported_at E st' b"
  by (rule supported_same_answers [OF neutral_same_answers]) (auto simp: neutral_def wf_tree_seqs subset_iff)

lemma neutral_inv: "neutral st st' \<Longrightarrow> wf_core st' \<Longrightarrow> core_inv E st \<Longrightarrow> core_inv E st'"
  using neutral_supported [of st st'] by (auto simp: core_inv_def neutral_def same_world_views dest: wf_coreD(1))

text \<open>The interface's comparison of two stores over one tree, read over live branches.\<close>

lemma chain_same:
  assumes "wf_tree st" "is_live st b" "fseq st b \<le> s"
    and "\<And>b s r. is_live st b \<Longrightarrow> fseq st b \<le> s \<Longrightarrow> own' b s = Some r \<Longrightarrow>
      map_option f r = map_option f (chain (par st) own b s)"
    and "\<And>b s. is_live st b \<Longrightarrow> fseq st b \<le> s \<Longrightarrow> own' b s = None \<Longrightarrow> own b s = None"
  shows "map_option f (chain (par st) own' b s) = map_option f (chain (par st) own b s)"
  by (rule tree.chain_same_answers [of st]) (use assms in \<open>auto simp: tree.from_first_def wlive_def\<close>)

lemma chain_same_versions:
  assumes "wf_tree st" "is_live st b" "fseq st b \<le> s" "s \<le> hseq st b"
    and "\<And>b s r. is_live st b \<Longrightarrow> fseq st b \<le> s \<Longrightarrow> s \<le> hseq st b \<Longrightarrow> own' b s = Some r \<Longrightarrow>
      map_option f r = map_option f (chain (par st) own b s)"
    and "\<And>b s. is_live st b \<Longrightarrow> fseq st b \<le> s \<Longrightarrow> s \<le> hseq st b \<Longrightarrow> own' b s = None \<Longrightarrow> own b s = None"
  shows "map_option f (chain (par st) own' b s) = map_option f (chain (par st) own b s)"
  by (rule tree.chain_same_on_versions [of st]) (use assms in \<open>auto simp: tree.is_version_def wlive_def\<close>)

lemma own_claim_set:
  assumes "set_claim st k b (Some c) = Some st'"
  shows "own_claim st' k' b' s = (if k' = k \<and> b' = b
     then Some (if covers (claim_window c) s then Some (b, c) else None) else own_claim st k' b' s)"
  by (simp add: own_claim_def set_claim_views(1) [OF assms])

lemma set_claim_neutral:
  assumes sc: "set_claim st k b (Some c) = Some st'" and wf: "wf_tree st" and live: "is_live st b"
    and same: "\<And>s. fseq st b \<le> s \<Longrightarrow> vcert st k b s = (if covers (claim_window c) s then Some (claim_cert c) else None)"
  shows "neutral st st'"
proof -
  note v = set_claim_views [OF sc]
  have "vcert st' k' b' s' = vcert st k' b' s'" if "is_live st b'" "fseq st b' \<le> s'" for k' b' s'
    unfolding vcert_def vclaim_def same_world_views(2) [OF v(2)]
  proof (rule chain_same [OF wf that])
    fix b1 s1 r assume l1: "is_live st b1" "fseq st b1 \<le> s1" and own: "own_claim st' k' b1 s1 = Some r"
    show "map_option (claim_cert \<circ> snd) r = map_option (claim_cert \<circ> snd) (chain (par st) (own_claim st k') b1 s1)"
    proof (cases "k' = k \<and> b1 = b")
      case True
      with own same [of s1] l1 show ?thesis
        by (auto simp: own_claim_set [OF sc] vcert_def vclaim_def)
    next
      case False
      with own have "own_claim st k' b1 s1 = Some r" by (auto simp: own_claim_set [OF sc])
      then show ?thesis by (simp add: chain_own)
    qed
  next
    fix b1 s1 assume "own_claim st' k' b1 s1 = None"
    then show "own_claim st k' b1 s1 = None" by (auto simp: own_claim_set [OF sc] split: if_splits)
  qed
  then show ?thesis using v by (auto simp: neutral_def)
qed

lemma register_edges_neutral:
  assumes "register_edges E st b cert = Some st'"
  shows "neutral st st'"
proof -
  note v = register_edges_views [OF assms]
  have "own_claim st' = own_claim st" by (intro ext) (simp add: own_claim_def v(2))
  then have "vcert st' = vcert st"
    by (intro ext) (simp add: vcert_def vclaim_def same_world_views(2) [OF v(1)])
  with v show ?thesis by (auto simp: neutral_def)
qed

end
