(* ===== verification/Dice_Write.thy ===== *)
theory Dice_Write
  imports Dice_Invariant
begin

text \<open>
  The write operation, \<^verbatim>\<open>dice/dice_core/src/write.rs\<close>. A write installs a certificate on every
  live branch where its premises hold, and first discharges the cascades: the children that would
  see the new claim either keep what they saw (a re-homed claim), are shadowed, or are filled in.
  Every discharge is neutral, and the install changes the answers of the written key only, at
  branches where it was unknown at the head; so the invariants are preserved
  (\<open>write_inv\<close>), no assertion of the code can fail, and the recursion ends.
\<close>

section \<open>write.rs\<close>

record write_outcome =
  installed :: "branch_id list"

definition installed_anywhere :: "write_outcome \<Rightarrow> bool" where
  "installed_anywhere outcome \<longleftrightarrow> installed outcome \<noteq> []"

datatype ('p, 'a) cascade =
    ReHome branch_id "('p, 'a) claim"
  | FillInOrShadow branch_id "'p cert option"

definition cascade_of_child ::
  "('p, 'd, 'a) core_state \<Rightarrow> key \<Rightarrow> branch_id \<Rightarrow> ('p, 'a) claim \<Rightarrow> branch_id \<times> seq
   \<Rightarrow> ('p, 'a) cascade option option" where
  "cascade_of_child st key b new = (\<lambda>(child, fork_seq).
     if (case slot_of st key child of None \<Rightarrow> False | Some slot \<Rightarrow> slot_claim slot \<noteq> None)
     then Some None
     else do {
       let after_valid = covers (claim_window new) fork_seq;
       r \<leftarrow> resolve st key (Version b fork_seq);
       (case r of
          RClaim _ claim \<Rightarrow>
            if after_valid \<and> same_trace (claim_cert claim) (claim_cert new) then Some None
            else do {
              br \<leftarrow> branch_of st child;
              Some (Some (ReHome child
                \<lparr>claim_cert = claim_cert claim, claim_window = window_open (br_first br),
                 claim_attribute = claim_attribute claim\<rparr>)) }
        | RUnknown candidate \<Rightarrow>
            Some (if \<not> after_valid then None else Some (FillInOrShadow child candidate))
        | RAsserted _ _ \<Rightarrow> None) })"

fun cascades_loop ::
  "('p, 'd, 'a) core_state \<Rightarrow> key \<Rightarrow> branch_id \<Rightarrow> ('p, 'a) claim \<Rightarrow> (branch_id \<times> seq) list
   \<Rightarrow> ('p, 'a) cascade list option" where
  "cascades_loop st key b new [] = Some []"
| "cascades_loop st key b new (c # cs) = do {
     x \<leftarrow> cascade_of_child st key b new c;
     xs \<leftarrow> cascades_loop st key b new cs;
     Some (case x of None \<Rightarrow> xs | Some y \<Rightarrow> y # xs) }"

definition cascades ::
  "('p, 'd, 'a) core_state \<Rightarrow> key \<Rightarrow> branch_id \<Rightarrow> ('p, 'a) claim \<Rightarrow> ('p, 'a) cascade list option" where
  "cascades st key b new = do {
     br \<leftarrow> branch_of st b;
     cascades_loop st key b new (br_children br) }"

definition covers_all :: "seq \<Rightarrow> 'a piece list \<Rightarrow> bool" where
  "covers_all first cov \<longleftrightarrow> length cov = 1 \<and> iv_from (piece_interval (cov ! 0)) = first
     \<and> iv_until (piece_interval (cov ! 0)) = None"

text \<open>
  \<^verbatim>\<open>discharge\<close> and its inner loop over the grandchildren. The recursion descends the branch tree;
  \<open>fuel\<close> bounds its depth, and running out of it is \<^const>\<open>None\<close>. \<^verbatim>\<open>install\<close> starts it with the
  number of branches, which is enough because a child's id exceeds its parent's
  (\<open>discharge_total\<close>).
\<close>

fun discharge ::
  "nat \<Rightarrow> ('p, 'd, 'a) env \<Rightarrow> ('p, 'd, 'a) core_state \<Rightarrow> key \<Rightarrow> ('p, 'a) claim \<Rightarrow> ('p, 'a) cascade
   \<Rightarrow> ('p, 'd, 'a) core_state option"
and discharge_grandchildren ::
  "nat \<Rightarrow> ('p, 'd, 'a) env \<Rightarrow> ('p, 'd, 'a) core_state \<Rightarrow> key \<Rightarrow> ('p, 'a) claim \<Rightarrow> 'p cert option
   \<Rightarrow> branch_id list \<Rightarrow> ('p, 'd, 'a) core_state option" where
  "discharge fuel E st key new (ReHome child claim) = set_claim st key child (Some claim)"
| "discharge 0 E st key new (FillInOrShadow child candidate) = None"
| "discharge (Suc fuel) E st key new (FillInOrShadow child candidate) = do {
     br \<leftarrow> branch_of st child;
     cov \<leftarrow> cover E st child (claim_cert new);
     if covers_all (br_first br) cov
     then do {
       st' \<leftarrow> register_edges E st child (claim_cert new);
       br' \<leftarrow> branch_of st' child;
       discharge_grandchildren fuel E st' key new candidate (map fst (br_children br')) }
     else set_claim st key child (Some
            \<lparr>claim_cert = (case candidate of Some c \<Rightarrow> c | None \<Rightarrow> claim_cert new),
             claim_window = window_empty (br_first br),
             claim_attribute = env_EMPTY E\<rparr>) }"
| "discharge_grandchildren fuel E st key new candidate [] = Some st"
| "discharge_grandchildren fuel E st key new candidate (grandchild # rest) =
     (if (case slot_of st key grandchild of None \<Rightarrow> False | Some slot \<Rightarrow> slot_claim slot \<noteq> None)
      then discharge_grandchildren fuel E st key new candidate rest
      else do {
        st' \<leftarrow> discharge fuel E st key new (FillInOrShadow grandchild candidate);
        discharge_grandchildren fuel E st' key new candidate rest })"

fun discharge_all ::
  "nat \<Rightarrow> ('p, 'd, 'a) env \<Rightarrow> ('p, 'd, 'a) core_state \<Rightarrow> key \<Rightarrow> ('p, 'a) claim \<Rightarrow> ('p, 'a) cascade list
   \<Rightarrow> ('p, 'd, 'a) core_state option" where
  "discharge_all fuel E st key new [] = Some st"
| "discharge_all fuel E st key new (c # cs) = do {
     st' \<leftarrow> discharge fuel E st key new c;
     discharge_all fuel E st' key new cs }"

definition install ::
  "('p, 'd, 'a) env \<Rightarrow> ('p, 'd, 'a) core_state \<Rightarrow> key \<Rightarrow> branch_id \<Rightarrow> ('p, 'a) claim
   \<Rightarrow> ('p, 'd, 'a) core_state option" where
  "install E st key b claim = do {
     cs \<leftarrow> cascades st key b claim;
     st1 \<leftarrow> discharge_all (length (branches st)) E st key claim cs;
     st2 \<leftarrow> (if is_open (claim_window claim) then register_edges E st1 b (claim_cert claim) else Some st1);
     set_claim st2 key b (Some claim) }"

text \<open>One round of the loop of \<^verbatim>\<open>write\<close>, for the branch at \<open>index\<close>.\<close>

definition write_branch ::
  "('p, 'd, 'a) env \<Rightarrow> 'p cert \<Rightarrow> ('p, 'd, 'a) core_state \<times> write_outcome \<Rightarrow> nat
   \<Rightarrow> (('p, 'd, 'a) core_state \<times> write_outcome) option" where
  "write_branch E cert = (\<lambda>(st, outcome) index. do {
     b \<leftarrow> branch_from_index index;
     if \<not> is_live st b then Some (st, outcome)
     else do {
       att \<leftarrow> attached st (cert_key cert) b;
       if att \<noteq> None then Some (st, outcome)
       else do {
         cov \<leftarrow> cover E st b cert;
         picked \<leftarrow> pick_window st b cov;
         (case picked of
            None \<Rightarrow> Some (st, outcome)
          | Some (window, attribute) \<Rightarrow>
              if (case slot_of st (cert_key cert) b \<bind> slot_claim of
                    None \<Rightarrow> False
                  | Some existing \<Rightarrow> reach window \<le> reach (claim_window existing))
              then Some (st, outcome)
              else do {
                st' \<leftarrow> install E st (cert_key cert) b
                  \<lparr>claim_cert = cert, claim_window = window, claim_attribute = attribute\<rparr>;
                Some (st', outcome\<lparr>installed := installed outcome @ [b]\<rparr>) }) } } })"

fun write_loop ::
  "('p, 'd, 'a) env \<Rightarrow> 'p cert \<Rightarrow> ('p, 'd, 'a) core_state \<times> write_outcome \<Rightarrow> nat list
   \<Rightarrow> (('p, 'd, 'a) core_state \<times> write_outcome) option" where
  "write_loop E cert s [] = Some s"
| "write_loop E cert s (index # rest) = do {
     s' \<leftarrow> write_branch E cert s index;
     write_loop E cert s' rest }"

definition write_cert ::
  "('p, 'd, 'a) env \<Rightarrow> ('p, 'd, 'a) core_state \<Rightarrow> 'p cert
   \<Rightarrow> (('p, 'd, 'a) core_state \<times> write_outcome) option" where
  "write_cert E st cert =
     (if is_asserted st (cert_key cert) then None
      else write_loop E cert (st, \<lparr>installed = []\<rparr>) [0..<length (branches st)])"

lemmas [op_defs] = installed_anywhere_def cascade_of_child_def cascades_def covers_all_def install_def
  write_branch_def write_cert_def

section \<open>What a cascade is owed\<close>

definition all_certs :: "('p, 'd, 'a) core_state \<Rightarrow> 'p cert set" where
  "all_certs st = {claim_cert c |k b c. claim_at st k b = Some c}"

lemma all_certsI: "claim_at st k b = Some c \<Longrightarrow> claim_cert c \<in> all_certs st"
  by (auto simp: all_certs_def)

lemma vcert_claim_at: "vcert st k b s = Some c \<Longrightarrow> \<exists>ow cl. claim_at st k ow = Some cl \<and> claim_cert cl = c"
  using vclaim_claim_at [of st k b s] by (fastforce simp: vcert_def)

lemma vcert_key: "wf_claims st \<Longrightarrow> vcert st k b s = Some c \<Longrightarrow> cert_key c = k \<and> c \<in> all_certs st"
  using vcert_claim_at [of st k b s c] by (auto simp: wf_claims_def intro: all_certsI)

lemma all_certs_set_claim:
  "set_claim st k b (Some c) = Some st' \<Longrightarrow> all_certs st' \<subseteq> insert (claim_cert c) (all_certs st)"
  by (auto simp: all_certs_def set_claim_views(1) split: if_splits)

lemma all_certs_register_edges: "register_edges E st b c = Some st' \<Longrightarrow> all_certs st' = all_certs st"
  by (simp add: all_certs_def register_edges_views(2))

lemma pinned_claim_at:
  assumes "wf_store st" "c \<in> set (pinned_certs st k)"
  shows "\<exists>b cl. claim_at st k b = Some cl \<and> claim_cert cl = c"
proof -
  obtain slot cl where s: "slot \<in> set (slots_of st k)" "slot_claim slot = Some cl" "claim_cert cl = c"
    using assms(2) by (auto simp: pinned_certs_def map_filter_def)
  have "slot_of st k (slot_branch slot) = Some slot"
    using assms(1) s(1) by (auto simp: wf_store_defs slot_of_slots_of intro!: find_distinct_map [of slot_branch])
  with s show ?thesis by (intro exI [of _ "slot_branch slot"] exI [of _ cl]) (simp add: claim_at_def)
qed

lemma pinned_all_certs:
  "wf_core st \<Longrightarrow> c \<in> set (pinned_certs st k) \<Longrightarrow> c \<in> all_certs st \<and> cert_key c = k"
  using pinned_claim_at [of st c k] by (auto simp: wf_core_def wf_claims_def intro: all_certsI)

text \<open>A branch with no claim answers as the version it was forked from.\<close>

lemma vclaim_child:
  assumes "wf_tree st" "is_live st b" "(c, fs) \<in> set (kids st b)" "claim_at st k c = None"
  shows "vclaim st k c s = vclaim st k b fs" "vcert st k c s = vcert st k b fs"
  using vclaim_unfold [OF assms(1), of c k s] wf_tree_kids [OF assms(1-3)] assms(4)
  by (auto simp: own_claim_def vcert_def)

text \<open>
  A branch is prepared for a certificate of \<open>K\<close> if it keeps a claim of its own, or if the
  certificate holds on all of it, its edges are registered, and all its children are prepared.
\<close>

inductive prepared ::
  "('p, 'd, 'a) env \<Rightarrow> ('p, 'd, 'a) core_state \<Rightarrow> key \<Rightarrow> 'p cert \<Rightarrow> branch_id \<Rightarrow> bool"
  for E st K cert where
  claimed: "claim_at st K d \<noteq> None \<Longrightarrow> prepared E st K cert d"
| filled: "(\<And>s. fseq st d \<le> s \<Longrightarrow> holds E st cert d s) \<Longrightarrow>
    (\<And>p. p \<in> set (cert_premises E cert) \<Longrightarrow> K \<in> set (edges st d (premise_key p))) \<Longrightarrow>
    (\<And>g fs. (g, fs) \<in> set (kids st d) \<Longrightarrow> prepared E st K cert g) \<Longrightarrow> prepared E st K cert d"

lemma ready_neutral:
  assumes n: "neutral st st'" and wf: "wf_tree st"
  shows "prepared E st K cert d \<Longrightarrow> is_live st d \<Longrightarrow> prepared E st' K cert d"
proof (induction rule: prepared.induct)
  case (claimed d)
  with n show ?case by (intro prepared.claimed) (simp add: neutral_def)
next
  case (filled d)
  have w: "fseq st' = fseq st" "kids st' = kids st" using n by (simp_all add: neutral_def same_world_views)
  show ?case
  proof (rule prepared.filled)
    show "holds E st' cert d s" if "fseq st' d \<le> s" for s
      using filled(1) [of s] that neutral_holds [OF n filled.prems] by (simp add: w)
    show "K \<in> set (edges st' d (premise_key p))" if "p \<in> set (cert_premises E cert)" for p
      using filled(2) [OF that] n unfolding neutral_def by blast
    show "prepared E st' K cert g" if "(g, fs) \<in> set (kids st' d)" for g fs
      using filled(4) [of g fs] that wf_tree_kids [OF wf filled.prems, of g fs] by (simp add: w)
  qed
qed

section \<open>Discharging\<close>

definition discharged ::
  "'p cert set \<Rightarrow> ('p, 'd, 'a) core_state \<Rightarrow> ('p, 'd, 'a) core_state \<Rightarrow> bool" where
  "discharged A st st' \<longleftrightarrow> neutral st st' \<and> wf_core st' \<and> all_certs st' \<subseteq> A"

lemma discharged_trans: "discharged A a b \<Longrightarrow> discharged A b c \<Longrightarrow> discharged A a c"
  by (auto simp: discharged_def intro: neutral_trans)

lemma discharged_views:
  assumes "discharged A st st'"
  shows "is_live st' = is_live st" "fseq st' = fseq st" "hseq st' = hseq st" "kids st' = kids st"
    "par st' = par st" "is_asserted st' = is_asserted st" "length (branches st') = length (branches st)"
  using assms by (simp_all add: discharged_def neutral_def same_world_views)

lemma discharged_vcert:
  "discharged A st st' \<Longrightarrow> is_live st b \<Longrightarrow> fseq st b \<le> s \<Longrightarrow> vcert st' k b s = vcert st k b s"
  by (simp add: discharged_def neutral_def)

lemma set_claim_discharged:
  assumes wf: "wf_core st" and live: "is_live st d" and as: "\<not> is_asserted st K"
    and key: "cert_key (claim_cert c) = K" and win: "window_ok st d (claim_window c)"
    and A: "all_certs st \<subseteq> A" "claim_cert c \<in> A"
    and same: "\<And>s. fseq st d \<le> s \<Longrightarrow> vcert st K d s = (if covers (claim_window c) s then Some (claim_cert c) else None)"
  shows "\<exists>st'. set_claim st K d (Some c) = Some st' \<and> discharged A st st' \<and> claim_at st' K d \<noteq> None"
proof -
  obtain st' where sc: "set_claim st K d (Some c) = Some st'" using set_claim_total [OF live] by blast
  have "neutral st st'" using set_claim_neutral [OF sc wf_coreD(1) [OF wf] live same] .
  moreover have "wf_core st'" by (rule set_claim_wf [OF sc wf live as key win])
  moreover have "all_certs st' \<subseteq> A" using all_certs_set_claim [OF sc] A by blast
  ultimately show ?thesis using sc set_claim_views(1) [OF sc, of K d] by (auto simp: discharged_def)
qed

lemma covers_all_holds:
  assumes "wf_core st" "is_live st d" "cover E st d cert = Some cov" "covers_all (fseq st d) cov" "fseq st d \<le> s"
  shows "holds E st cert d s"
proof -
  have ps: "pset cov = {s. fseq st d \<le> s \<and> holds E st cert d s}"
    using cover_correct [of st d E cert] assms(1-3) by (auto simp: wf_core_def)
  obtain p where "cov = [p]" "pfrom p = fseq st d" "puntil p = None"
    using assms(4) by (auto simp: covers_all_def length_Suc_conv)
  then have "s \<in> pset cov" using assms(5) by (simp add: pset_Cons interval_contains_def)
  with ps show ?thesis by simp
qed

definition fillable ::
  "'p cert set \<Rightarrow> ('p, 'd, 'a) core_state \<Rightarrow> key \<Rightarrow> 'p cert option \<Rightarrow> branch_id \<Rightarrow> bool" where
  "fillable A st K cand d \<longleftrightarrow> is_live st d \<and> (\<forall>c. cand = Some c \<longrightarrow> c \<in> A \<and> cert_key c = K)
     \<and> (\<forall>s. fseq st d \<le> s \<longrightarrow> vcert st K d s = None)"

definition written_into :: "'p cert set \<Rightarrow> ('p, 'd, 'a) core_state \<Rightarrow> key \<Rightarrow> 'p cert \<Rightarrow> bool" where
  "written_into A st K cert \<longleftrightarrow> wf_core st \<and> \<not> is_asserted st K \<and> cert_key cert = K
     \<and> all_certs st \<subseteq> A \<and> cert \<in> A"

lemma written_into_discharged:
  "written_into A st K cert \<Longrightarrow> discharged A st st' \<Longrightarrow> written_into A st' K cert"
  by (auto simp: written_into_def discharged_views) (auto simp: discharged_def)

lemma fillable_discharged:
  "fillable A st K cand d \<Longrightarrow> discharged A st st' \<Longrightarrow> fillable A st' K cand d"
  by (auto simp: fillable_def discharged_views discharged_vcert)

lemma fillable_kid:
  assumes "wf_tree st" "fillable A st K cand d" "(g, fs) \<in> set (kids st d)" "claim_at st K g = None"
  shows "fillable A st K cand g"
  using assms vclaim_child(2) [OF assms(1) _ assms(3,4)] wf_tree_kids [OF assms(1) _ assms(3)]
    wf_tree_kid_seq(2) [OF assms(1) _ assms(3)]
  by (auto simp: fillable_def)

lemma slot_claim_claim_at:
  "(case slot_of st k b of None \<Rightarrow> False | Some slot \<Rightarrow> slot_claim slot \<noteq> None) \<longleftrightarrow> claim_at st k b \<noteq> None"
  by (simp add: claim_at_def split: option.split)

lemma discharge_grandchildren_correct:
  assumes IH: "\<And>st g. written_into A st K cert \<Longrightarrow> fillable A st K cand g \<Longrightarrow>
      length (branches st) \<le> g + fuel \<Longrightarrow>
      \<exists>st'. discharge fuel E st K new (FillInOrShadow g cand) = Some st' \<and> discharged A st st' \<and> prepared E st' K cert g"
  shows "written_into A st K cert \<Longrightarrow> fillable A st K cand d \<Longrightarrow> length (branches st) \<le> Suc (d + fuel) \<Longrightarrow>
    (\<And>g. g \<in> set gs \<Longrightarrow> \<exists>fs. (g, fs) \<in> set (kids st d)) \<Longrightarrow>
    \<exists>st'. discharge_grandchildren fuel E st K new cand gs = Some st' \<and> discharged A st st'
      \<and> (\<forall>g\<in>set gs. prepared E st' K cert g)"
proof (induction gs arbitrary: st)
  case Nil
  then show ?case by (simp add: discharged_def written_into_def)
next
  case (Cons g gs)
  have wf: "wf_core st" "wf_tree st" using Cons.prems(1) by (auto simp: written_into_def dest: wf_coreD)
  have live: "is_live st d" using Cons.prems(2) by (simp add: fillable_def)
  obtain fs where fs: "(g, fs) \<in> set (kids st d)" using Cons.prems(4) [of g] by auto
  have g: "is_live st g" "d < g"
    using wf_tree_kids [OF wf(2) live fs] wf_tree_kid_seq(1) [OF wf(2) live fs] by auto
  obtain st1 where st1: "discharged A st st1" "prepared E st1 K cert g"
    "discharge_grandchildren fuel E st K new cand (g # gs) = discharge_grandchildren fuel E st1 K new cand gs"
  proof (cases "claim_at st K g")
    case None
    from fillable_kid [OF wf(2) Cons.prems(2) fs None] Cons.prems(1,3) g IH [of st g]
    obtain st' where "discharge fuel E st K new (FillInOrShadow g cand) = Some st'" "discharged A st st'"
      "prepared E st' K cert g" by auto
    with that None show ?thesis by (simp add: slot_claim_claim_at)
  next
    case (Some c)
    moreover have "discharged A st st" using Cons.prems(1) by (simp add: discharged_def written_into_def)
    moreover have "prepared E st K cert g" using Some by (intro prepared.claimed) simp
    ultimately show ?thesis using that by (simp add: slot_claim_claim_at)
  qed
  have "\<exists>st'. discharge_grandchildren fuel E st1 K new cand gs = Some st' \<and> discharged A st1 st'
      \<and> (\<forall>g\<in>set gs. prepared E st' K cert g)"
    by (rule Cons.IH)
      (use Cons.prems st1(1) in \<open>auto simp: discharged_views intro: written_into_discharged fillable_discharged\<close>)
  then obtain st' where st': "discharge_grandchildren fuel E st1 K new cand gs = Some st'" "discharged A st1 st'"
    "\<forall>g\<in>set gs. prepared E st' K cert g" by blast
  have "prepared E st' K cert g"
    using st1(1,2) st'(2) g by (intro ready_neutral [of st1 st'])
      (auto simp: discharged_views, auto simp: discharged_def dest: wf_coreD)
  with st' st1(1,3) show ?case by (auto intro: discharged_trans)
qed

text \<open>Filling in or shadowing a branch whose answers were unknown: it returns, and it leaves the
  branch prepared.\<close>

lemma discharge_correct:
  assumes cert: "claim_cert new = cert"
  shows "written_into A st K cert \<Longrightarrow> fillable A st K cand d \<Longrightarrow> length (branches st) \<le> d + fuel \<Longrightarrow>
    \<exists>st'. discharge fuel E st K new (FillInOrShadow d cand) = Some st' \<and> discharged A st st' \<and> prepared E st' K cert d"
proof (induction fuel arbitrary: st d)
  case 0
  then show ?case using is_live_less [of st d] by (auto simp: fillable_def)
next
  case (Suc fuel)
  have wf: "wf_core st" "wf_tree st" and as: "\<not> is_asserted st K" and key: "cert_key cert = K"
    and A: "all_certs st \<subseteq> A" "cert \<in> A"
    using Suc.prems(1) by (auto simp: written_into_def dest: wf_coreD)
  have live: "is_live st d" and cand: "\<And>c. cand = Some c \<Longrightarrow> c \<in> A \<and> cert_key c = K"
    and none: "\<And>s. fseq st d \<le> s \<Longrightarrow> vcert st K d s = None"
    using Suc.prems(2) by (auto simp: fillable_def)
  obtain br where br: "branch_of st d = Some br" "br_first br = fseq st d"
    using is_live_Some [OF live] by (auto simp: fseq_def)
  obtain cov where cov: "cover E st d cert = Some cov"
    using cover_correct [of st d E cert] wf live by (auto simp: wf_core_def)
  show ?case
  proof (cases "covers_all (fseq st d) cov")
    case False
    let ?c = "\<lparr>claim_cert = (case cand of Some c \<Rightarrow> c | None \<Rightarrow> cert), claim_window = window_empty (fseq st d),
             claim_attribute = env_EMPTY E\<rparr>"
    have c: "cert_key (claim_cert ?c) = K" "claim_cert ?c \<in> A" using cand key A(2) by (auto split: option.split)
    obtain st' where "set_claim st K d (Some ?c) = Some st'" "discharged A st st'" "claim_at st' K d \<noteq> None"
      using set_claim_discharged [OF wf(1) live as c(1) _ A(1) c(2)] none wf_tree_seqs [OF wf(2) live]
      by (auto simp: window_ok_def)
    with False br cov cert show ?thesis by (auto intro: prepared.claimed)
  next
    case True
    obtain st1 where re: "register_edges E st d cert = Some st1" using register_edges_total [OF live] by blast
    have d1: "discharged A st st1"
      using register_edges_neutral [OF re] register_edges_wf [OF re wf(1)] all_certs_register_edges [OF re] A
      by (simp add: discharged_def)
    have live1: "is_live st1 d" using live by (simp add: discharged_views [OF d1])
    obtain br1 where br1: "branch_of st1 d = Some br1" "br_children br1 = kids st1 d"
      using is_live_Some [OF live1] by (auto simp: kids_def)
    have "\<exists>st'. discharge_grandchildren fuel E st1 K new cand (map fst (kids st1 d)) = Some st' \<and> discharged A st1 st'
      \<and> (\<forall>g\<in>set (map fst (kids st1 d)). prepared E st' K cert g)"
      by (rule discharge_grandchildren_correct [OF Suc.IH, where d = d])
        (use Suc.prems d1 in \<open>auto simp: discharged_views intro: written_into_discharged fillable_discharged\<close>)
    then obtain st' where st': "discharge_grandchildren fuel E st1 K new cand (map fst (kids st1 d)) = Some st'"
      "discharged A st1 st'" "\<And>g fs. (g, fs) \<in> set (kids st1 d) \<Longrightarrow> prepared E st' K cert g" by fastforce
    have d': "discharged A st st'" by (rule discharged_trans [OF d1 st'(2)])
    have "prepared E st' K cert d"
    proof (rule prepared.filled)
      show "holds E st' cert d s" if "fseq st' d \<le> s" for s
      proof -
        have "holds E st cert d s"
          using covers_all_holds [OF wf(1) live cov True] that by (simp add: discharged_views [OF d'])
        moreover have "neutral st st'" using d' by (simp add: discharged_def)
        ultimately show ?thesis
          using neutral_holds [OF _ live, of st' s E cert] that by (simp add: discharged_views [OF d'])
      qed
      show "K \<in> set (edges st' d (premise_key p))" if "p \<in> set (cert_premises E cert)" for p
      proof -
        have "K \<in> set (edges st1 d (premise_key p))"
          using that key by (simp add: register_edges_views(6) [OF re])
        then show ?thesis using st'(2) unfolding discharged_def neutral_def by blast
      qed
      show "prepared E st' K cert g" if "(g, fs) \<in> set (kids st' d)" for g fs
        using st'(3) [of g fs] that by (simp add: discharged_views [OF st'(2)])
    qed
    with True br br1 cov cert re st'(1) d' show ?thesis by (auto simp: discharged_views [OF st'(2)])
  qed
qed


section \<open>The cascades of an install\<close>

fun target :: "('p, 'a) cascade \<Rightarrow> branch_id" where
  "target (ReHome d _) = d"
| "target (FillInOrShadow d _) = d"

fun todo :: "'p cert set \<Rightarrow> ('p, 'd, 'a) core_state \<Rightarrow> key \<Rightarrow> ('p, 'a) cascade \<Rightarrow> bool" where
  "todo A st K (ReHome d c) \<longleftrightarrow> is_live st d \<and> claim_window c = window_open (fseq st d)
     \<and> cert_key (claim_cert c) = K \<and> claim_cert c \<in> A
     \<and> (\<forall>s. fseq st d \<le> s \<longrightarrow> vcert st K d s = Some (claim_cert c))"
| "todo A st K (FillInOrShadow d cand) \<longleftrightarrow> fillable A st K cand d"

definition settled ::
  "('p, 'd, 'a) env \<Rightarrow> ('p, 'd, 'a) core_state \<Rightarrow> key \<Rightarrow> 'p cert \<Rightarrow> branch_id \<Rightarrow> bool" where
  "settled E st K cert d \<longleftrightarrow> claim_at st K d \<noteq> None
     \<or> (prepared E st K cert d \<and> (\<forall>s. fseq st d \<le> s \<longrightarrow> vcert st K d s = None))"

text \<open>A child the cascades leave alone: it answers for itself, or the new claim does not change
  what it inherits.\<close>

definition unaffected ::
  "('p, 'd, 'a) core_state \<Rightarrow> key \<Rightarrow> branch_id \<Rightarrow> ('p, 'a) claim \<Rightarrow> branch_id \<Rightarrow> seq \<Rightarrow> bool" where
  "unaffected st K b new c fs \<longleftrightarrow> claim_at st K c \<noteq> None
     \<or> vcert st K b fs = (if covers (claim_window new) fs then Some (claim_cert new) else None)"

lemma todo_discharged: "todo A st K x \<Longrightarrow> discharged A st st' \<Longrightarrow> todo A st' K x"
  by (cases x) (auto simp: discharged_views discharged_vcert fillable_discharged)

lemma todo_live: "todo A st K x \<Longrightarrow> is_live st (target x)"
  by (cases x) (auto simp: fillable_def)

lemma settled_discharged:
  assumes "settled E st K cert d" "discharged A st st'" "wf_tree st" "is_live st d"
  shows "settled E st' K cert d"
proof -
  have n: "neutral st st'" using assms(2) by (simp add: discharged_def)
  show ?thesis
  proof (cases "claim_at st K d")
    case None
    with assms ready_neutral [OF n assms(3)] show ?thesis
      by (auto simp: settled_def discharged_views discharged_vcert)
  next
    case (Some c)
    with n show ?thesis by (auto simp: settled_def neutral_def)
  qed
qed

lemma unaffected_discharged:
  assumes "unaffected st K b new c fs" "discharged A st st'" "is_live st b" "fseq st b \<le> fs"
  shows "unaffected st' K b new c fs"
  using assms discharged_vcert [OF assms(2-4)] by (auto simp: unaffected_def discharged_def neutral_def)

lemma cascade_of_child_correct:
  assumes wi: "written_into A st K cert" and live: "is_live st b" and kid: "(c, fs) \<in> set (kids st b)"
    and new: "claim_cert new = cert"
  shows "\<exists>x. cascade_of_child st K b new (c, fs) = Some x \<and>
    (case x of None \<Rightarrow> unaffected st K b new c fs | Some y \<Rightarrow> todo A st K y \<and> target y = c)"
proof (cases "claim_at st K c")
  case (Some cl)
  then show ?thesis by (auto simp: cascade_of_child_def slot_claim_claim_at unaffected_def)
next
  case None
  have wf: "wf_core st" "wf_tree st" and as: "\<not> is_asserted st K" and A: "all_certs st \<subseteq> A" "cert \<in> A"
    using wi by (auto simp: written_into_def dest: wf_coreD)
  have lc: "is_live st c" using wf_tree_kids [OF wf(2) live kid] by simp
  obtain br where br: "branch_of st c = Some br" "br_first br = fseq st c"
    using is_live_Some [OF lc] by (auto simp: fseq_def)
  obtain cand where res: "resolve st K (Version b fs) =
      Some (case vclaim st K b fs of Some (ow, cl) \<Rightarrow> RClaim ow cl | None \<Rightarrow> RUnknown cand)"
    and cand: "\<And>x. cand = Some x \<Longrightarrow> x \<in> set (pinned_certs st K)"
    using resolve_chain(2) [OF wf(2) live as, of fs] by auto
  note child = vclaim_child [OF wf(2) live kid None]
  show ?thesis
  proof (cases "vclaim st K b fs")
    case vn: None
    then have "fillable A st K cand c"
      using lc child(2) cand pinned_all_certs [OF wf(1)] A by (auto simp: fillable_def vcert_def)
    with vn res None show ?thesis
      by (auto simp: cascade_of_child_def slot_claim_claim_at unaffected_def vcert_def)
  next
    case (Some v)
    obtain ow cl where v: "v = (ow, cl)" by (cases v)
    have vc: "vcert st K b fs = Some (claim_cert cl)" using Some v by (simp add: vcert_def)
    have "\<exists>ob. claim_at st K ob = Some cl" using Some v vclaim_claim_at [of st K b fs ow cl] by auto
    then have "claim_cert cl \<in> A \<and> cert_key (claim_cert cl) = K"
      using A wf_coreD(2) [OF wf(1)] by (auto simp: wf_claims_def dest: all_certsI)
    with Some v res None br vc child(2) lc new show ?thesis
      by (auto simp: cascade_of_child_def slot_claim_claim_at unaffected_def same_trace_def)
  qed
qed

lemma cascades_loop_correct:
  assumes "written_into A st K cert" "is_live st b" "claim_cert new = cert" "set cs \<subseteq> set (kids st b)"
  shows "\<exists>xs. cascades_loop st K b new cs = Some xs \<and> (\<forall>x\<in>set xs. todo A st K x)
    \<and> (\<forall>(c, fs)\<in>set cs. unaffected st K b new c fs \<or> c \<in> target ` set xs)"
  using assms(4)
proof (induction cs)
  case (Cons kid cs)
  obtain c fs where kid: "kid = (c, fs)" by (cases kid)
  with Cons.prems have k: "(c, fs) \<in> set (kids st b)" by simp
  obtain x where x: "cascade_of_child st K b new (c, fs) = Some x"
    "case x of None \<Rightarrow> unaffected st K b new c fs | Some y \<Rightarrow> todo A st K y \<and> target y = c"
    using cascade_of_child_correct [OF assms(1,2) k assms(3)] by blast
  from Cons obtain xs where xs: "cascades_loop st K b new cs = Some xs" "\<forall>x\<in>set xs. todo A st K x"
    "\<forall>(c, fs)\<in>set cs. unaffected st K b new c fs \<or> c \<in> target ` set xs" by auto
  show ?case using x xs kid by (cases x) auto
qed simp

lemma discharge_all_correct:
  assumes new: "claim_cert new = cert" "length (branches st) \<le> fuel"
  shows "written_into A st K cert \<Longrightarrow> (\<And>x. x \<in> set xs \<Longrightarrow> todo A st K x) \<Longrightarrow>
    \<exists>st'. discharge_all fuel E st K new xs = Some st' \<and> discharged A st st'
      \<and> (\<forall>x\<in>set xs. settled E st' K cert (target x))"
  using new(2)
proof (induction xs arbitrary: st)
  case Nil
  then show ?case by (simp add: discharged_def written_into_def)
next
  case (Cons x xs)
  have wf: "wf_core st" "wf_tree st" and as: "\<not> is_asserted st K" and A: "all_certs st \<subseteq> A"
    using Cons.prems(1) by (auto simp: written_into_def dest: wf_coreD)
  have x: "todo A st K x" using Cons.prems(2) by simp
  obtain st1 where st1: "discharge fuel E st K new x = Some st1" "discharged A st st1" "settled E st1 K cert (target x)"
  proof (cases x)
    case (ReHome d c)
    with x have c: "is_live st d" "claim_window c = window_open (fseq st d)" "cert_key (claim_cert c) = K"
      "claim_cert c \<in> A" "\<And>s. fseq st d \<le> s \<Longrightarrow> vcert st K d s = Some (claim_cert c)" by auto
    have "window_ok st d (claim_window c)" using c(2) wf_tree_seqs [OF wf(2) c(1)] by (simp add: window_ok_def)
    from set_claim_discharged [OF wf(1) c(1) as c(3) this A c(4)] c(2,5) that ReHome show ?thesis
      by (auto simp: settled_def)
  next
    case (FillInOrShadow d cand)
    with x have f: "fillable A st K cand d" by simp
    obtain st' where st': "discharge fuel E st K new (FillInOrShadow d cand) = Some st'" "discharged A st st'"
      "prepared E st' K cert d"
      using discharge_correct [OF new(1) Cons.prems(1) f, of fuel E] Cons.prems(3) by auto
    moreover have "settled E st' K cert d"
      using st'(3) fillable_discharged [OF f st'(2)] by (simp add: settled_def fillable_def)
    ultimately show ?thesis using that FillInOrShadow by simp
  qed
  have "\<exists>st'. discharge_all fuel E st1 K new xs = Some st' \<and> discharged A st1 st'
      \<and> (\<forall>x\<in>set xs. settled E st' K cert (target x))"
    by (rule Cons.IH)
      (use Cons.prems st1(2) in \<open>auto simp: discharged_views intro: written_into_discharged todo_discharged\<close>)
  then obtain st' where st': "discharge_all fuel E st1 K new xs = Some st'" "discharged A st1 st'"
    "\<forall>x\<in>set xs. settled E st' K cert (target x)" by blast
  have "settled E st' K cert (target x)"
    using settled_discharged [OF st1(3) st'(2)] st1(2) todo_live [OF x]
    by (auto simp: discharged_views) (auto simp: discharged_def dest: wf_coreD)
  with st' st1(1,2) show ?case by (auto intro: discharged_trans)
qed


section \<open>The new claim\<close>

lemma ready_unclaimed:
  assumes "prepared E st K cert d" "claim_at st K d = None"
  shows "fseq st d \<le> s \<Longrightarrow> holds E st cert d s"
    "p \<in> set (cert_premises E cert) \<Longrightarrow> K \<in> set (edges st d (premise_key p))"
    "(g, fs) \<in> set (kids st d) \<Longrightarrow> prepared E st K cert g"
  by (rule prepared.cases [OF assms(1)]; use assms(2) in auto)+

text \<open>What the last step of an install, setting the new claim, does to the answers of the key.\<close>

lemma new_claim_answers:
  assumes wf: "wf_tree st" and live: "is_live st b" and sc: "set_claim st K b (Some new) = Some st'"
    and new: "claim_cert new = cert"
    and kids: "\<forall>c fs. (c, fs) \<in> set (kids st b) \<longrightarrow> unaffected st K b new c fs \<or> settled E st K cert c"
  shows "is_live st d \<Longrightarrow> d = b \<or> (\<forall>s. fseq st d \<le> s \<longrightarrow> vcert st' K d s = vcert st K d s)
    \<or> claim_at st K d = None \<and> prepared E st K cert d
      \<and> (\<forall>s. fseq st d \<le> s \<longrightarrow> vcert st K d s = None \<and> (vcert st' K d s = None \<or> vcert st' K d s = Some cert))"
proof (induction d rule: less_induct)
  case (less d)
  note v = set_claim_views [OF sc]
  note sw = same_world_views [OF v(2)]
  have wf': "wf_tree st'" by (rule same_world_wf [OF v(2) wf])
  show ?case
  proof (cases "d = b")
    case False
    have own: "claim_at st' K d = claim_at st K d" using v(1) False by simp
    show ?thesis
    proof (cases "claim_at st K d")
      case (Some c)
      then have "vcert st' K d s = vcert st K d s" for s
        using own by (simp add: vcert_def vclaim_def chain_own own_claim_def)
      then show ?thesis by simp
    next
      case None
      show ?thesis
      proof (cases "par st d")
        case pn: None
        then have "vcert st' K d s = vcert st K d s" for s
          using None own sw(2) by (simp add: vcert_def vclaim_def chain_root own_claim_def)
        then show ?thesis by simp
      next
        case (Some p)
        obtain pb ps where p: "p = Version pb ps" by (cases p)
        from wf_tree_parent [OF wf less.prems Some] p
        have pl: "is_live st pb" "pb < d" "fseq st pb \<le> ps" "(d, ps) \<in> set (kids st pb)" by auto
        have up: "vcert st K d s = vcert st K pb ps" for s
          using vclaim_child(2) [OF wf pl(1,4) None] .
        have up': "vcert st' K d s = vcert st' K pb ps" for s
          using vclaim_child(2) [OF wf', of pb d ps K s] pl None own by (simp add: sw)
        show ?thesis
        proof (cases "pb = b")
          case True
          have nb: "vcert st' K b ps = (if covers (claim_window new) ps then Some cert else None)"
            using v(1) [of K b] new by (simp add: vcert_def vclaim_def chain_own own_claim_def)
          from kids pl True
          consider "unaffected st K b new d ps" | "settled E st K cert d" by auto
          then show ?thesis
          proof cases
            case 1
            with None new have "vcert st K b ps = vcert st' K b ps" by (simp add: unaffected_def nb)
            with True have "vcert st' K d s = vcert st K d s" for s using up [of s] up' [of s] by simp
            then show ?thesis by simp
          next
            case 2
            have "vcert st' K d s = None \<or> vcert st' K d s = Some cert" for s
              using up' [of s] nb unfolding True by (cases "covers (claim_window new) ps") auto
            with 2 None show ?thesis unfolding settled_def by blast
          qed
        next
          case False
          from less.IH [OF pl(2,1)] False show ?thesis
          proof (elim disjE conjE)
            assume same: "\<forall>s. fseq st pb \<le> s \<longrightarrow> vcert st' K pb s = vcert st K pb s"
            with pl(3) have "vcert st' K d s = vcert st K d s" for s using up [of s] up' [of s] by simp
            then show ?thesis by simp
          next
            assume pb: "claim_at st K pb = None" "prepared E st K cert pb"
              "\<forall>s. fseq st pb \<le> s \<longrightarrow> vcert st K pb s = None \<and> (vcert st' K pb s = None \<or> vcert st' K pb s = Some cert)"
            have "prepared E st K cert d" using ready_unclaimed(3) [OF pb(2,1) pl(4)] .
            moreover have "vcert st K d s = None \<and> (vcert st' K d s = None \<or> vcert st' K d s = Some cert)" for s
              using up [of s] up' [of s] pb(3) pl(3) by simp
            ultimately show ?thesis using None by simp
          qed simp
        qed
      qed
    qed
  qed simp
qed

text \<open>A branch keeps its invariants when a key that was unknown at its head gets a certificate.\<close>

lemma rev_at_other:
  assumes "same_world st st'" "\<And>s. fseq st d \<le> s \<Longrightarrow> vcert st' k d s = vcert st k d s" "fseq st d \<le> s"
  shows "rev_at st' k d s = rev_at st k d s"
  using assms by (simp add: rev_at_def same_world_views same_world_asserted_views)

lemma supported_new:
  assumes sup: "supported_at E st d" and sw: "same_world st st'" and fh: "fseq st d \<le> hseq st d"
    and other: "\<And>k s. k \<noteq> K \<Longrightarrow> fseq st d \<le> s \<Longrightarrow> vcert st' k d s = vcert st k d s"
    and edges: "\<And>x. set (edges st d x) \<subseteq> set (edges st' d x)"
    and unatt: "vcert st K d (hseq st d) = None" and as: "\<not> is_asserted st K"
    and new: "\<And>s. fseq st d \<le> s \<Longrightarrow> s \<le> hseq st d \<Longrightarrow>
      vcert st' K d s = None \<or> vcert st' K d s = Some cert \<and> holds E st cert d s"
    and new_edges: "\<And>p. vcert st' K d (hseq st d) \<noteq> None \<Longrightarrow> p \<in> set (cert_premises E cert) \<Longrightarrow>
      K \<in> set (edges st' d (premise_key p))"
  shows "supported_at E st' d"
proof -
  note v = same_world_views [OF sw] and av = same_world_asserted_views [OF sw]
  have unknown: "rev_at st K d (hseq st d) = None" using unatt as by (simp add: rev_at_def)
  have not_premise: "premise_key p \<noteq> K" if "holds E st c d (hseq st d)" "p \<in> set (cert_premises E c)" for c p
    using that unknown by (auto simp: holds_def)
  have holds': "holds E st' c d s"
    if "holds E st c d (hseq st d)" "holds E st c d s" "fseq st d \<le> s" for c s
    using that not_premise [OF that(1)] rev_at_other [OF sw other, of _ s]
    by (auto simp: holds_def av)
  have att: "vcert st k d (hseq st d) = Some c \<Longrightarrow> holds E st c d (hseq st d)" for k c
    using supported_holds [OF sup, of k c "hseq st d"] fh by simp
  have ground': "grounded E st' d (hseq st d) k" if "vcert st k d (hseq st d) = Some c" for k c
  proof (rule grounded_transfer [OF supported_grounded [OF sup that], of "\<lambda>k. k \<noteq> K"])
    show "k \<noteq> K" using that unatt by auto
    fix k c assume c: "vcert st k d (hseq st d) = Some c" "k \<noteq> K"
    show "vcert st' k d (hseq st d) = Some c
      \<and> (\<forall>p\<in>set (cert_premises E c). is_asserted st (premise_key p) \<longrightarrow> is_asserted st' (premise_key p))
      \<and> (\<forall>p\<in>set (cert_premises E c). \<not> is_asserted st (premise_key p) \<longrightarrow> premise_key p \<noteq> K)"
      using c other [OF c(2) fh] not_premise [OF att [OF c(1)]] v by auto
  qed
  show ?thesis
    unfolding supported_at_def v
  proof (intro allI impI)
    fix k c assume c: "vcert st' k d (hseq st d) = Some c"
    show "(\<forall>s. fseq st d \<le> s \<longrightarrow> s \<le> hseq st d \<longrightarrow> vcert st' k d s \<noteq> None \<longrightarrow> holds E st' c d s)
      \<and> (\<forall>p\<in>set (cert_premises E c). k \<in> set (edges st' d (premise_key p)))
      \<and> grounded E st' d (hseq st d) k"
    proof (cases "k = K")
      case False
      with c other [OF False fh] have old: "vcert st k d (hseq st d) = Some c" by simp
      have "\<forall>p\<in>set (cert_premises E c). k \<in> set (edges st' d (premise_key p))"
        using supported_edges [OF sup old] edges by blast
      moreover have "holds E st' c d s" if "fseq st d \<le> s" "s \<le> hseq st d" "vcert st' k d s \<noteq> None" for s
        using holds' [OF att [OF old] supported_holds [OF sup old that(1,2)] that(1)] that other [OF False that(1)] by simp
      ultimately show ?thesis using ground' [OF old] by simp
    next
      case True
      with c new [OF fh] have cc: "c = cert" and h: "holds E st cert d (hseq st d)" by auto
      have "holds E st' cert d s" if "fseq st d \<le> s" "s \<le> hseq st d" "vcert st' K d s \<noteq> None" for s
        using holds' [OF h _ that(1)] new [OF that(1,2)] that(3) by auto
      moreover have "grounded E st' d (hseq st d) K"
      proof (rule grounded.ground)
        show "vcert st' K d (hseq st d) = Some cert" using c True cc by simp
        fix p assume p: "p \<in> set (cert_premises E cert)"
        then have "rev_at st (premise_key p) d (hseq st d) \<noteq> None" using h by (auto simp: holds_def)
        then have "is_asserted st (premise_key p) \<or> vcert st (premise_key p) d (hseq st d) \<noteq> None"
          by (auto simp: rev_at_def split: if_splits)
        then show "is_asserted st' (premise_key p) \<or> grounded E st' d (hseq st d) (premise_key p)"
          using ground' v by auto
      qed
      ultimately show ?thesis using new_edges c True cc by auto
    qed
  qed
qed


section \<open>One install\<close>

text \<open>
  The effect of a step of a write of \<open>cert\<close>, a certificate of \<open>K\<close>: only answers of \<open>K\<close> change,
  only on branches where \<open>K\<close> was unknown at the head, and every version that now resolves to
  \<open>cert\<close> is one where its premises hold.
\<close>

definition write_step ::
  "('p, 'd, 'a) env \<Rightarrow> 'p cert set \<Rightarrow> 'p cert \<Rightarrow> ('p, 'd, 'a) core_state \<Rightarrow> ('p, 'd, 'a) core_state \<Rightarrow> bool" where
  "write_step E A cert st st' \<longleftrightarrow> core_inv E st' \<and> same_world st st' \<and> all_certs st' \<subseteq> A
     \<and> (\<forall>k d s. k \<noteq> cert_key cert \<longrightarrow> is_live st d \<longrightarrow> fseq st d \<le> s \<longrightarrow> vcert st' k d s = vcert st k d s)
     \<and> (\<forall>d. is_live st d \<longrightarrow> (\<forall>s. fseq st d \<le> s \<longrightarrow> vcert st' (cert_key cert) d s = vcert st (cert_key cert) d s)
          \<or> vcert st (cert_key cert) d (hseq st d) = None
            \<and> (\<forall>s. fseq st d \<le> s \<longrightarrow> vcert st' (cert_key cert) d s = None
                 \<or> vcert st' (cert_key cert) d s = Some cert \<and> holds E st cert d s))"

lemma write_step_refl: "core_inv E st \<Longrightarrow> all_certs st \<subseteq> A \<Longrightarrow> write_step E A cert st st"
  by (simp add: write_step_def)

lemma set_claim_other:
  assumes "set_claim st K b (Some c) = Some st'" "k \<noteq> K"
  shows "vcert st' k = vcert st k"
proof -
  have "own_claim st' k = own_claim st k"
    by (intro ext) (use own_claim_set [OF assms(1)] assms(2) in simp)
  then show ?thesis
    by (intro ext) (simp add: vcert_def vclaim_def same_world_views(2) [OF set_claim_views(2) [OF assms(1)]])
qed

text \<open>The last step of an install, from a state in which every child of \<open>b\<close> is settled.\<close>

lemma new_claim_step:
  assumes inv: "core_inv E st" and wi: "written_into A st K cert" and live: "is_live st b"
    and sc: "set_claim st K b (Some new) = Some st'" and new: "claim_cert new = cert"
    and win: "window_ok st b (claim_window new)"
    and cov: "\<And>s. covers (claim_window new) s \<Longrightarrow> holds E st cert b s"
    and unatt: "vcert st K b (hseq st b) = None"
    and own: "\<And>p. covers (claim_window new) (hseq st b) \<Longrightarrow> p \<in> set (cert_premises E cert) \<Longrightarrow>
      K \<in> set (edges st b (premise_key p))"
    and kids: "\<And>c fs. (c, fs) \<in> set (kids st b) \<Longrightarrow> unaffected st K b new c fs \<or> settled E st K cert c"
  shows "write_step E A cert st st' \<and> vcert st' K b s = (if covers (claim_window new) s then Some cert else None)"
proof -
  have wf: "wf_core st" "wf_tree st" and as: "\<not> is_asserted st K" and key: "cert_key cert = K" "cert_key (claim_cert new) = K"
    and A: "all_certs st \<subseteq> A" "cert \<in> A"
    using wi new by (auto simp: written_into_def dest: wf_coreD)
  note v = set_claim_views [OF sc]
  have at_b: "vcert st' K b s = (if covers (claim_window new) s then Some cert else None)" for s
    using v(1) [of K b] new by (simp add: vcert_def vclaim_def chain_own own_claim_def)
  have other: "vcert st' k d s = vcert st k d s" if "k \<noteq> K" for k d s
    using set_claim_other [OF sc that] by simp
  let ?same = "\<lambda>d. \<forall>s. fseq st d \<le> s \<longrightarrow> vcert st' K d s = vcert st K d s"
  let ?new = "\<lambda>d. vcert st K d (hseq st d) = None
    \<and> (\<forall>s. fseq st d \<le> s \<longrightarrow> vcert st' K d s = None \<or> vcert st' K d s = Some cert \<and> holds E st cert d s)
    \<and> (vcert st' K d (hseq st d) \<noteq> None \<longrightarrow> (\<forall>p\<in>set (cert_premises E cert). K \<in> set (edges st d (premise_key p))))"
  have cases: "?same d \<or> ?new d" if d: "is_live st d" for d
  proof -
    note fh = wf_tree_seqs [OF wf(2) d]
    have kids': "\<forall>c fs. (c, fs) \<in> set (kids st b) \<longrightarrow> unaffected st K b new c fs \<or> settled E st K cert c"
      using kids by blast
    from new_claim_answers [OF wf(2) live sc new kids' d] show ?thesis
    proof (elim disjE conjE)
      assume "d = b"
      then show ?thesis using unatt at_b cov own by (intro disjI2) (auto split: if_splits)
    next
      assume prepared: "claim_at st K d = None" "prepared E st K cert d"
        "\<forall>s. fseq st d \<le> s \<longrightarrow> vcert st K d s = None \<and> (vcert st' K d s = None \<or> vcert st' K d s = Some cert)"
      note r = ready_unclaimed [OF prepared(2,1)]
      have "vcert st K d (hseq st d) = None" using prepared(3) fh by simp
      moreover have "vcert st' K d s = None \<or> vcert st' K d s = Some cert \<and> holds E st cert d s" if "fseq st d \<le> s" for s
        using prepared(3) r(1) that by blast
      ultimately show ?thesis using r(2) by blast
    qed simp
  qed
  have "supported_at E st' d" if d: "is_live st d" for d
  proof -
    have sup: "supported_at E st d" using inv d by (simp add: core_inv_def)
    note fh = wf_tree_seqs [OF wf(2) d]
    from cases [OF d] show ?thesis
    proof
      assume same: "?same d"
      have all: "vcert st' k d s = vcert st k d s" if "fseq st d \<le> s" for k s
        using other same that by (cases "k = K") auto
      have "same_answers st st' d"
        using all rev_at_other [OF v(2), of d] same_world_views [OF v(2)] same_world_asserted_views [OF v(2)]
        by (simp add: same_answers_def)
      from supported_same_answers [OF this sup _ fh] v(3) show ?thesis by simp
    next
      assume new: "?new d"
      show ?thesis
        by (rule supported_new [OF sup v(2) fh other, of K cert]) (use new v(3) as in auto)
    qed
  qed
  moreover have "wf_core st'" by (rule set_claim_wf [OF sc wf(1) live as key(2) win])
  moreover have "all_certs st' \<subseteq> A" using all_certs_set_claim [OF sc] A new by auto
  ultimately show ?thesis
    using v(2) other cases at_b key unfolding write_step_def core_inv_def same_world_views(1) [OF v(2)] by blast
qed

lemma install_correct:
  assumes inv: "core_inv E st" and wi: "written_into A st K cert" and live: "is_live st b"
    and new: "claim_cert new = cert"
    and win: "window_ok st b (claim_window new)"
    and cov: "\<And>s. covers (claim_window new) s \<Longrightarrow> holds E st cert b s"
    and head: "covers (claim_window new) (hseq st b) \<longleftrightarrow> is_open (claim_window new)"
    and unatt: "vcert st K b (hseq st b) = None"
  shows "\<exists>st'. install E st K b new = Some st' \<and> write_step E A cert st st'
    \<and> vcert st' K b (hseq st b) = (if is_open (claim_window new) then Some cert else None)"
proof -
  have wf: "wf_core st" "wf_tree st" and key: "cert_key cert = K" using wi by (auto simp: written_into_def dest: wf_coreD)
  note fh = wf_tree_seqs [OF wf(2) live]
  obtain br where br: "branch_of st b = Some br" "br_children br = kids st b"
    using is_live_Some [OF live] by (auto simp: kids_def)
  obtain xs where xs: "cascades_loop st K b new (kids st b) = Some xs" "\<And>x. x \<in> set xs \<Longrightarrow> todo A st K x"
    "\<And>c fs. (c, fs) \<in> set (kids st b) \<Longrightarrow> unaffected st K b new c fs \<or> c \<in> target ` set xs"
    using cascades_loop_correct [OF wi live new, of "kids st b"] by blast
  obtain st1 where st1: "discharge_all (length (branches st)) E st K new xs = Some st1" "discharged A st st1"
    "\<And>x. x \<in> set xs \<Longrightarrow> settled E st1 K cert (target x)"
    using discharge_all_correct [OF new order_refl wi xs(2)] by blast
  have live1: "is_live st1 b" using live by (simp add: discharged_views [OF st1(2)])
  obtain st2 where st2: "(if is_open (claim_window new) then register_edges E st1 b cert else Some st1) = Some st2"
    using register_edges_total [OF live1] by (cases "is_open (claim_window new)") auto
  have d12: "discharged A st1 st2"
  proof (cases "is_open (claim_window new)")
    case True
    with st2 have re: "register_edges E st1 b cert = Some st2" by simp
    show ?thesis
      using register_edges_neutral [OF re] register_edges_wf [OF re] all_certs_register_edges [OF re] st1(2)
      by (simp add: discharged_def)
  next
    case False
    with st2 st1(2) show ?thesis by (simp add: discharged_def)
  qed
  have d2: "discharged A st st2" by (rule discharged_trans [OF st1(2) d12])
  note v = discharged_views [OF d2]
  have n: "neutral st st2" using d2 by (simp add: discharged_def)
  have inv2: "core_inv E st2" using neutral_inv [OF n _ inv] d2 by (simp add: discharged_def)
  have wi2: "written_into A st2 K cert" by (rule written_into_discharged [OF wi d2])
  obtain st' where sc: "set_claim st2 K b (Some new) = Some st'"
    using set_claim_total [of st2 b K new] live by (auto simp: v)
  have settled2: "settled E st2 K cert (target x)" if "x \<in> set xs" for x
  proof (rule settled_discharged [OF st1(3) [OF that] d12])
    show "wf_tree st1" using st1(2) by (auto simp: discharged_def dest: wf_coreD)
    show "is_live st1 (target x)" using todo_live [OF xs(2) [OF that]] by (simp add: discharged_views [OF st1(2)])
  qed
  have kids2: "unaffected st2 K b new c fs \<or> settled E st2 K cert c" if "(c, fs) \<in> set (kids st2 b)" for c fs
    using xs(3) [of c fs] that settled2 unaffected_discharged [OF _ d2 live, of K new c fs]
      wf_tree_kid_seq(2) [OF wf(2) live, of c fs] by (auto simp: v)
  have own2: "K \<in> set (edges st2 b (premise_key p))"
    if "covers (claim_window new) (hseq st2 b)" "p \<in> set (cert_premises E cert)" for p
  proof -
    have "register_edges E st1 b cert = Some st2" using that(1) st2 head by (simp add: v)
    from register_edges_views(6) [OF this, of b "premise_key p"] that(2) key show ?thesis by simp
  qed
  have cov2: "holds E st2 cert b s" if "covers (claim_window new) s" for s
    using cov [OF that] neutral_holds [OF n live, of s E cert] win that
    by (auto simp: window_ok_def covers_def)
  have win2: "window_ok st2 b (claim_window new)" using win by (simp add: window_ok_def v)
  have unatt2: "vcert st2 K b (hseq st2 b) = None" using unatt discharged_vcert [OF d2 live fh] by (simp add: v)
  have step: "write_step E A cert st2 st'"
    and at: "vcert st' K b s = (if covers (claim_window new) s then Some cert else None)" for s
    using new_claim_step [OF inv2 wi2 _ sc new win2 cov2 unatt2 own2 kids2] live by (auto simp: v)
  have "holds E st2 cert d s = holds E st cert d s" if "is_live st d" "fseq st d \<le> s" for d s
    by (rule neutral_holds [OF n that])
  moreover have "same_world st st'" using step n by (auto simp: write_step_def neutral_def intro: same_world_trans)
  ultimately have "write_step E A cert st st'"
    using step discharged_vcert [OF d2] unfolding write_step_def v
    by (metis (no_types, lifting) wf(2) wf_tree_seqs)
  moreover have "install E st K b new = Some st'"
    using br xs(1) st1(1) st2 sc new by (auto simp: install_def cascades_def)
  ultimately show ?thesis using at head by auto
qed


section \<open>The write\<close>

lemma attached_vcert:
  assumes wf: "wf_core st" and live: "is_live st b" and as: "\<not> is_asserted st k"
  shows "\<exists>a. attached st k b = Some a \<and> (a = None \<longleftrightarrow> vcert st k b (hseq st b) = None)"
proof -
  have open_own: "is_open (claim_window c)" if c: "vclaim st k b (hseq st b) = Some (b, c)" for c
  proof -
    have at: "claim_at st k b = Some c" using vclaim_claim_at [OF c] .
    then have "covers (claim_window c) (hseq st b)"
      using c by (auto simp: vclaim_def chain_own own_claim_def split: if_splits)
    moreover have "window_ok st b (claim_window c)" using wf at by (auto simp: wf_core_def wf_claims_def)
    ultimately show ?thesis
      by (cases "win_until (claim_window c)") (auto simp: is_open_def window_ok_def covers_def)
  qed
  then show ?thesis
    using attached_chain [OF wf_coreD(1) [OF wf] live, of k] as by (auto simp: vcert_def split: option.splits)
qed

lemma unattached_reach:
  assumes wf: "wf_core st" and c: "claim_at st k b = Some c" and un: "vcert st k b (hseq st b) = None"
  shows "reach (claim_window c) < u64_max"
proof -
  have w: "is_live st b" "window_ok st b (claim_window c)" using wf c by (auto simp: wf_core_def wf_claims_def)
  have "\<not> covers (claim_window c) (hseq st b)"
    using un c by (auto simp: vcert_def vclaim_def chain_own own_claim_def split: if_splits)
  with w(2) obtain u where "win_until (claim_window c) = Some u" "u \<le> hseq st b"
    by (auto simp: covers_def window_ok_def split: option.splits)
  moreover have "hseq st b \<le> u32_max" using wf w(1) by (simp add: wf_core_def bounded_ids_def)
  ultimately show ?thesis by (simp add: reach_def u32_max_def u64_max_def)
qed

lemma write_branch_correct:
  assumes inv: "core_inv E st" and wi: "written_into A st (cert_key cert) cert" and b: "b < length (branches st)"
  shows "\<exists>st' o'. write_branch E cert (st, out) b = Some (st', o') \<and> write_step E A cert st st'
    \<and> (is_live st b \<longrightarrow> holds E st cert b (hseq st b) \<longrightarrow> vcert st' (cert_key cert) b (hseq st b) \<noteq> None)"
proof -
  let ?K = "cert_key cert"
  have wf: "wf_core st" "wf_tree st" and as: "\<not> is_asserted st ?K" and A: "all_certs st \<subseteq> A"
    using wi by (auto simp: written_into_def dest: wf_coreD)
  have refl: "write_step E A cert st st" using write_step_refl [OF inv A] .
  have bid: "branch_from_index b = Some b"
    using wf(1) b by (simp add: branch_from_index_def wf_core_def bounded_ids_def)
  show ?thesis
  proof (cases "is_live st b")
    case False
    with bid refl show ?thesis by (simp add: write_branch_def)
  next
    case live: True
    obtain a where a: "attached st ?K b = Some a" "a = None \<longleftrightarrow> vcert st ?K b (hseq st b) = None"
      using attached_vcert [OF wf(1) live as] by (elim exE conjE) (rule that)
    show ?thesis
    proof (cases "a = None")
      case False
      with a(2) have "vcert st ?K b (hseq st b) \<noteq> None" by simp
      moreover have "write_branch E cert (st, out) b = Some (st, out)"
        using False bid live a(1) by (simp add: write_branch_def)
      ultimately show ?thesis using refl by blast
    next
      case un: True
      then have unatt: "vcert st ?K b (hseq st b) = None" using a(2) by simp
      obtain cov where cov: "cover E st b cert = Some cov" "pieces_ok (fseq st b) cov" "bounded (hseq st b) cov"
        "pset cov = {s. fseq st b \<le> s \<and> holds E st cert b s}"
        using cover_correct [of st b E cert] wf live by (auto simp: wf_core_def)
      have head: "hseq st b \<in> pset cov \<longleftrightarrow> holds E st cert b (hseq st b)"
        using cov(4) wf_tree_seqs [OF wf(2) live] by simp
      obtain r where r: "pick_window st b cov = Some r" "r = None \<longleftrightarrow> cov = []"
        "\<forall>w a. r = Some (w, a) \<longrightarrow> window_ok st b w \<and> (\<forall>s. covers w s \<longrightarrow> s \<in> pset cov)
          \<and> (is_open w \<longleftrightarrow> hseq st b \<in> pset cov) \<and> (covers w (hseq st b) \<longleftrightarrow> is_open w) \<and> \<not> window_is_empty w"
        using pick_window_correct [OF live cov(2,3)] by (elim exE conjE)
      show ?thesis
      proof (cases r)
        case None
        with r(2) have "pset cov = {}" by simp
        with None bid live a(1) un cov(1) r(1) refl head show ?thesis by (simp add: write_branch_def)
      next
        case (Some wa)
        obtain w at where wa: "wa = (w, at)" by (cases wa)
        note w = r(3) [rule_format, OF Some [unfolded wa]]
        let ?new = "\<lparr>claim_cert = cert, claim_window = w, claim_attribute = at\<rparr>"
        let ?skip = "case slot_of st ?K b \<bind> slot_claim of None \<Rightarrow> False
          | Some existing \<Rightarrow> reach w \<le> reach (claim_window existing)"
        show ?thesis
        proof (cases ?skip)
          case True
          then obtain c where c: "claim_at st ?K b = Some c" "reach w \<le> reach (claim_window c)"
            by (auto simp: claim_at_def split: option.splits)
          with unattached_reach [OF wf(1) c(1) unatt] have "\<not> is_open w"
            by (cases "win_until w") (auto simp: reach_def [of w] is_open_def)
          with w head have "\<not> holds E st cert b (hseq st b)" by simp
          with True Some wa bid live a(1) un cov(1) r(1) refl show ?thesis by (simp add: write_branch_def)
        next
          case False
          have "\<exists>st'. install E st ?K b ?new = Some st' \<and> write_step E A cert st st'
            \<and> vcert st' ?K b (hseq st b) = (if is_open (claim_window ?new) then Some cert else None)"
          proof (rule install_correct [OF inv wi live])
            show "holds E st cert b s" if "covers (claim_window ?new) s" for s
              using w that cov(4) by auto
          qed (use w unatt in simp_all)
          then obtain st' where st': "install E st ?K b ?new = Some st'" "write_step E A cert st st'"
            "vcert st' ?K b (hseq st b) = (if is_open w then Some cert else None)" by auto
          have "write_branch E cert (st, out) b = Some (st', out\<lparr>installed := installed out @ [b]\<rparr>)"
            using False Some wa bid live a(1) un cov(1) r(1) st'(1) by (simp add: write_branch_def)
          moreover have "is_open w" if "holds E st cert b (hseq st b)" using w head that by simp
          ultimately show ?thesis using st'(2,3) by auto
        qed
      qed
    qed
  qed
qed

text \<open>A write is a sequence of such steps. It returns on every state that satisfies the invariants
  and on every certificate of a key that is not asserted.\<close>

lemma write_step_written_into:
  "written_into A st (cert_key cert) cert \<Longrightarrow> write_step E A cert st st' \<Longrightarrow> written_into A st' (cert_key cert) cert"
  by (auto simp: written_into_def write_step_def core_inv_def same_world_views)

lemma write_step_rev_at:
  assumes "write_step E A cert st st'" "is_live st d" "fseq st d \<le> s" "k \<noteq> cert_key cert"
  shows "rev_at st' k d s = rev_at st k d s"
  by (rule rev_at_other) (use assms in \<open>auto simp: write_step_def\<close>)

lemma write_step_key:
  "write_step E A cert st st' \<Longrightarrow> is_live st d \<Longrightarrow>
     (\<forall>s. fseq st d \<le> s \<longrightarrow> vcert st' (cert_key cert) d s = vcert st (cert_key cert) d s)
     \<or> vcert st (cert_key cert) d (hseq st d) = None
       \<and> (\<forall>s. fseq st d \<le> s \<longrightarrow> vcert st' (cert_key cert) d s = None
            \<or> vcert st' (cert_key cert) d s = Some cert \<and> holds E st cert d s)"
  by (simp add: write_step_def)

lemma write_step_attached:
  assumes "write_step E A cert st st'" "is_live st d" "vcert st (cert_key cert) d (hseq st d) \<noteq> None" "fseq st d \<le> s"
  shows "vcert st' (cert_key cert) d s = vcert st (cert_key cert) d s"
proof -
  have "(\<forall>s. fseq st d \<le> s \<longrightarrow> vcert st' (cert_key cert) d s = vcert st (cert_key cert) d s)
      \<or> vcert st (cert_key cert) d (hseq st d) = None"
    using write_step_key [OF assms(1,2)] by (elim disjE conjE) simp_all
  with assms(3,4) show ?thesis by (elim disjE) simp_all
qed

lemma write_step_holds_head:
  assumes ws: "write_step E A cert st st'" and live: "is_live st d" and fh: "fseq st d \<le> hseq st d"
    and h: "holds E st cert d (hseq st d)" and un: "vcert st' (cert_key cert) d (hseq st d) = None"
    and as: "\<not> is_asserted st (cert_key cert)"
  shows "holds E st' cert d (hseq st d)"
proof -
  have "vcert st (cert_key cert) d (hseq st d) = None"
    using write_step_attached [OF ws live _ fh] un by (cases "vcert st (cert_key cert) d (hseq st d)") auto
  then have "premise_key p \<noteq> cert_key cert" if "p \<in> set (cert_premises E cert)" for p
    using h that as by (auto simp: holds_def rev_at_def)
  with h write_step_rev_at [OF ws live fh] show ?thesis
    using ws same_world_asserted_views [of st st'] by (auto simp: holds_def write_step_def)
qed

lemma write_loop_correct:
  assumes "core_inv E st" "written_into A st (cert_key cert) cert" "set is \<subseteq> {..<length (branches st)}"
  shows "\<exists>st' o'. write_loop E cert (st, out) is = Some (st', o') \<and> (write_step E A cert)\<^sup>*\<^sup>* st st'
    \<and> (\<forall>b\<in>set is. is_live st b \<longrightarrow> holds E st cert b (hseq st b) \<longrightarrow> vcert st' (cert_key cert) b (hseq st b) \<noteq> None)
    \<and> (\<forall>b. is_live st b \<longrightarrow> vcert st (cert_key cert) b (hseq st b) \<noteq> None \<longrightarrow>
          vcert st' (cert_key cert) b (hseq st b) = vcert st (cert_key cert) b (hseq st b))"
  using assms
proof (induction "is" arbitrary: st out)
  case (Cons b bs)
  let ?K = "cert_key cert"
  obtain st1 o1 where st1: "write_branch E cert (st, out) b = Some (st1, o1)" "write_step E A cert st st1"
    "is_live st b \<Longrightarrow> holds E st cert b (hseq st b) \<Longrightarrow> vcert st1 ?K b (hseq st b) \<noteq> None"
    using write_branch_correct [OF Cons.prems(1,2), of b out] Cons.prems(3) by auto
  have sw: "same_world st st1" and inv1: "core_inv E st1" using st1(2) by (auto simp: write_step_def)
  note v = same_world_views [OF sw]
  have wi1: "written_into A st1 ?K cert" by (rule write_step_written_into [OF Cons.prems(2) st1(2)])
  have as: "\<not> is_asserted st ?K" and wf: "wf_tree st"
    using Cons.prems(2) by (auto simp: written_into_def dest: wf_coreD)
  obtain st' o' where st': "write_loop E cert (st1, o1) bs = Some (st', o')" "(write_step E A cert)\<^sup>*\<^sup>* st1 st'"
    "\<And>b. b \<in> set bs \<Longrightarrow> is_live st b \<Longrightarrow> holds E st1 cert b (hseq st b) \<Longrightarrow> vcert st' ?K b (hseq st b) \<noteq> None"
    "\<And>b. is_live st b \<Longrightarrow> vcert st1 ?K b (hseq st b) \<noteq> None \<Longrightarrow> vcert st' ?K b (hseq st b) = vcert st1 ?K b (hseq st b)"
    using Cons.IH [OF inv1 wi1, of o1] Cons.prems(3) by (auto simp: v)
  have all: "vcert st' ?K d (hseq st d) \<noteq> None"
    if d: "d \<in> set (b # bs)" "is_live st d" "holds E st cert d (hseq st d)" for d
  proof (cases "vcert st1 ?K d (hseq st d)")
    case None
    have "d \<in> set bs" using d st1(3) None by auto
    moreover have "holds E st1 cert d (hseq st d)"
      by (rule write_step_holds_head [OF st1(2) d(2) wf_tree_seqs [OF wf d(2)] d(3) None as])
    ultimately show ?thesis using st'(3) d by blast
  next
    case (Some c)
    with st'(4) [OF d(2)] show ?thesis by simp
  qed
  have keep: "vcert st' ?K d (hseq st d) = vcert st ?K d (hseq st d)"
    if d: "is_live st d" "vcert st ?K d (hseq st d) \<noteq> None" for d
    using st'(4) [OF d(1)] write_step_attached [OF st1(2) d wf_tree_seqs [OF wf d(1)]] d(2) by simp
  show ?case using st1(1,2) st'(1,2) all keep by (auto intro: converse_rtranclp_into_rtranclp)
qed simp

lemma write_correct:
  assumes inv: "core_inv E st" and as: "\<not> is_asserted st (cert_key cert)" and A: "insert cert (all_certs st) \<subseteq> A"
  shows "\<exists>st' out. write_cert E st cert = Some (st', out) \<and> (write_step E A cert)\<^sup>*\<^sup>* st st'
    \<and> (\<forall>b. is_live st b \<longrightarrow> holds E st cert b (hseq st b) \<longrightarrow> vcert st' (cert_key cert) b (hseq st b) \<noteq> None)
    \<and> (\<forall>b. is_live st b \<longrightarrow> vcert st (cert_key cert) b (hseq st b) \<noteq> None \<longrightarrow>
          vcert st' (cert_key cert) b (hseq st b) = vcert st (cert_key cert) b (hseq st b))"
proof -
  have wi: "written_into A st (cert_key cert) cert"
    using inv as A by (auto simp: written_into_def core_inv_def)
  from write_loop_correct [OF inv wi, of "[0..<length (branches st)]" "\<lparr>installed = []\<rparr>"] as is_live_less [of st]
  show ?thesis unfolding write_cert_def by fastforce
qed

lemma write_steps_inv:
  assumes "(write_step E A cert)\<^sup>*\<^sup>* st st'" "core_inv E st"
  shows "core_inv E st' \<and> same_world st st' \<and> (all_certs st \<subseteq> A \<longrightarrow> all_certs st' \<subseteq> A)"
  using assms
  by (induction rule: rtranclp_induct) (auto simp: write_step_def intro: same_world_trans)

end
