(* ===== verification/Dice_Commit.thy ===== *)
theory Dice_Commit
  imports Dice_Write
begin

text \<open>
  The commit operation, \<^verbatim>\<open>dice/dice_core/src/commit.rs\<close>. A commit appends to the histories of the
  keys it changes, and closes, by a breadth-first walk along the reverse dependencies, everything
  whose derivation reaches a changed key. The walk ends (\<open>close_loop_correct\<close>); older versions keep
  their answers, and at the new head a key resolves exactly if the walk did not reach it.
\<close>

section \<open>commit.rs\<close>

datatype 'd change =
    Assert key revision 'd
  | Dirty key 'd

fun change_key :: "'d change \<Rightarrow> key" where
  "change_key (Assert key _ _) = key"
| "change_key (Dirty key _) = key"

datatype ('p, 'a) close = CloseOwn "'p cert" | CloseInherited "('p, 'a) claim" | NotAttached

text \<open>One change of the loop of \<^verbatim>\<open>commit\<close>. The counter of the process-wide token source is passed
  along; the result says whether the change had an effect.\<close>

definition apply_change ::
  "('p, 'd, 'a) core_state \<Rightarrow> nat \<Rightarrow> branch_id \<Rightarrow> version \<Rightarrow> seq \<Rightarrow> 'd change
   \<Rightarrow> (('p, 'd, 'a) core_state \<times> nat \<times> bool) option" where
  "apply_change st nxt b head next change =
     (case change of
        Assert key revision data \<Rightarrow>
          if map_of (slots st) key \<noteq> None then None
          else do {
            r \<leftarrow> resolve st key head;
            if (case r of RAsserted _ entry \<Rightarrow> entry_revision entry = revision | _ \<Rightarrow> False)
            then Some (st, nxt, False)
            else do {
              st' \<leftarrow> assertion_history_mut st key b (\<lambda>h. history_push h
                \<lparr>entry_seq = next, entry_revision = revision, entry_data = data\<rparr>);
              Some (st', nxt, True) } }
      | Dirty key data \<Rightarrow>
          if is_asserted st key then None
          else do {
            (token, nxt') \<leftarrow> mint nxt;
            let st1 = slot_or_insert st key b;
            slot \<leftarrow> slot_of st1 key b;
            h \<leftarrow> history_push (slot_untracked slot)
              \<lparr>entry_seq = next, entry_revision = token, entry_data = data\<rparr>;
            Some (slot_mut st1 key b (\<lambda>slot. slot\<lparr>slot_untracked := h\<rparr>), nxt', True) })"

fun apply_changes ::
  "('p, 'd, 'a) core_state \<Rightarrow> nat \<Rightarrow> branch_id \<Rightarrow> version \<Rightarrow> seq \<Rightarrow> key_set \<Rightarrow> key list \<Rightarrow> 'd change list
   \<Rightarrow> (('p, 'd, 'a) core_state \<times> nat \<times> key list) option" where
  "apply_changes st nxt b head next seen queue [] = Some (st, nxt, queue)"
| "apply_changes st nxt b head next seen queue (change # rest) =
     (if change_key change \<in> set seen then None
      else do {
        (st', nxt', effect) \<leftarrow> apply_change st nxt b head next change;
        apply_changes st' nxt' b head next (List.insert (change_key change) seen)
          (if effect then queue @ [change_key change] else queue) rest })"

text \<open>One key of the walk of \<^verbatim>\<open>close_dependents\<close>: close it if it is attached, and take its edges.\<close>

definition close_key ::
  "('p, 'd, 'a) core_state \<Rightarrow> branch_id \<Rightarrow> seq \<Rightarrow> seq \<Rightarrow> key
   \<Rightarrow> (('p, 'd, 'a) core_state \<times> 'p cert option) option" where
  "close_key st b first at key = do {
     att \<leftarrow> attached st key b;
     close \<leftarrow> (case att of
         Some (Own claim) \<Rightarrow> Some (CloseOwn (claim_cert claim))
       | Some (Inherited claim) \<Rightarrow> do {
           w \<leftarrow> window_closed first at;
           Some (CloseInherited \<lparr>claim_cert = claim_cert claim, claim_window = w,
                   claim_attribute = claim_attribute claim\<rparr>) }
       | None \<Rightarrow> Some NotAttached);
     (case close of
        CloseOwn cert \<Rightarrow> do {
          st' \<leftarrow> detach st key b at;
          Some (st', Some cert) }
      | CloseInherited copy \<Rightarrow> do {
          st' \<leftarrow> set_claim st key b (Some copy);
          Some (st', Some (claim_cert copy)) }
      | NotAttached \<Rightarrow> Some (st, None)) }"

partial_function (option) close_loop ::
  "('p, 'd, 'a) core_state \<Rightarrow> branch_id \<Rightarrow> seq \<Rightarrow> seq \<Rightarrow> key_set \<Rightarrow> (key \<times> 'p cert) list \<Rightarrow> key list
   \<Rightarrow> (('p, 'd, 'a) core_state \<times> key_set \<times> (key \<times> 'p cert) list) option" where
  "close_loop st b first at visited closed queue =
     (case queue of
        [] \<Rightarrow> Some (st, visited, closed)
      | key # rest \<Rightarrow>
          if key \<in> set visited then close_loop st b first at visited closed rest
          else do {
            (st1, closed_cert) \<leftarrow> close_key st b first at key;
            br \<leftarrow> branch_of st1 b;
            st2 \<leftarrow> branch_mut st1 b (\<lambda>br. Some (snd (take_rdeps br key)));
            close_loop st2 b first at (List.insert key visited)
              (case closed_cert of None \<Rightarrow> closed | Some cert \<Rightarrow> closed @ [(key, cert)])
              (rest @ fst (take_rdeps br key)) })"

declare close_loop.simps [code]

text \<open>The removals are collected per premise the walk did not reach.\<close>

definition collect_removals ::
  "('p, 'd, 'a) env \<Rightarrow> key_set \<Rightarrow> (key \<times> 'p cert) list \<Rightarrow> key_set key_map" where
  "collect_removals E visited closed =
     foldl (\<lambda>removals (key, cert).
       foldl (\<lambda>removals premise.
         if premise_key premise \<in> set visited then removals
         else AList.update (premise_key premise)
                (List.insert key
                  (case map_of removals (premise_key premise) of None \<Rightarrow> [] | Some ks \<Rightarrow> ks)) removals)
         removals (cert_premises E cert))
       [] closed"

fun remove_all_edges ::
  "('p, 'd, 'a) core_state \<Rightarrow> branch_id \<Rightarrow> (key \<times> key_set) list \<Rightarrow> ('p, 'd, 'a) core_state option" where
  "remove_all_edges st b [] = Some st"
| "remove_all_edges st b ((dep, dependents) # rest) = do {
     st' \<leftarrow> branch_mut st b (\<lambda>br. Some (remove_edges br dep dependents));
     remove_all_edges st' b rest }"

definition close_dependents ::
  "('p, 'd, 'a) env \<Rightarrow> ('p, 'd, 'a) core_state \<Rightarrow> branch_id \<Rightarrow> seq \<Rightarrow> key list
   \<Rightarrow> ('p, 'd, 'a) core_state option" where
  "close_dependents E st b at queue = do {
     br \<leftarrow> branch_of st b;
     (st', visited, closed) \<leftarrow> close_loop st b (br_first br) at [] [] queue;
     remove_all_edges st' b (collect_removals E visited closed) }"

definition commit ::
  "('p, 'd, 'a) env \<Rightarrow> ('p, 'd, 'a) core_state \<Rightarrow> nat \<Rightarrow> branch_id \<Rightarrow> 'd change list
   \<Rightarrow> (('p, 'd, 'a) core_state \<times> nat \<times> version) option" where
  "commit E st nxt b changes = do {
     head \<leftarrow> head_of st b;
     next \<leftarrow> seq_next (vseq head);
     (st1, nxt', queue) \<leftarrow> apply_changes st nxt b head next [] [] changes;
     st2 \<leftarrow> (if queue = [] then Some st1
             else do {
               st' \<leftarrow> close_dependents E st1 b next queue;
               branch_mut st' b (\<lambda>br. Some (br\<lparr>br_head := next\<rparr>)) });
     head' \<leftarrow> head_of st2 b;
     Some (st2, nxt', head') }"

lemmas [op_defs] = apply_change_def close_key_def collect_removals_def close_dependents_def commit_def

section \<open>The changes\<close>

text \<open>What the rest of a commit reads of one key.\<close>

definition key_view where
  "key_view st k = (hist st k, dirts st k, is_asserted st k, map_of (slots st) k = None, claim_at st k)"

lemma key_view_eq:
  "key_view st' k = key_view st k \<longleftrightarrow> hist st' k = hist st k \<and> dirts st' k = dirts st k
     \<and> is_asserted st' k = is_asserted st k \<and> (map_of (slots st') k = None) = (map_of (slots st) k = None)
     \<and> claim_at st' k = claim_at st k"
  by (simp add: key_view_def)

text \<open>The effect of one change on its key: an assertion is appended to the branch's history unless
  it repeats what the head already has; a dirty always appends a token.\<close>

fun change_done ::
  "('p, 'd, 'a) core_state \<Rightarrow> ('p, 'd, 'a) core_state \<Rightarrow> branch_id \<Rightarrow> seq \<Rightarrow> 'd change \<Rightarrow> bool \<Rightarrow> bool" where
  "change_done st st' b head (Assert k r d) eff \<longleftrightarrow>
     map_of (slots st) k = None \<and> map_of (slots st') k = None \<and> is_asserted st' k
     \<and> dirts st' k = dirts st k \<and> claim_at st' k = claim_at st k
     \<and> (if eff then hist st' k = (hist st k)(b := hist st k b @ [\<lparr>entry_seq = Suc head, entry_revision = r, entry_data = d\<rparr>])
        else hist st' k = hist st k \<and> is_asserted st k
          \<and> map_option (entry_revision \<circ> snd) (ventry st k b head) = Some r)"
| "change_done st st' b head (Dirty k d) eff \<longleftrightarrow>
     eff \<and> \<not> is_asserted st k \<and> \<not> is_asserted st' k \<and> hist st' k = hist st k \<and> claim_at st' k = claim_at st k
     \<and> (\<exists>t. dirts st' k = (dirts st k)(b := dirts st k b @ [\<lparr>entry_seq = Suc head, entry_revision = t, entry_data = d\<rparr>]))"

lemma change_done_cong:
  assumes "key_view st1 (change_key c) = key_view st (change_key c)"
    "key_view st2 (change_key c) = key_view st' (change_key c)" "par st1 = par st"
  shows "change_done st1 st2 b head c eff = change_done st st' b head c eff"
  using assms by (cases c) (auto simp: key_view_eq ventry_def)

lemma slot_of_set_untracked_insert:
  "slot_of (slot_or_insert st k b) k b = Some slot \<Longrightarrow> slot_untracked slot = dirts st k b"
  by (auto simp: slot_of_slot_or_insert dirts_def slot_new_def split: if_splits)

lemma apply_change_correct:
  assumes ac: "apply_change st nxt b (Version b head) (Suc head) c = Some (st', nxt', eff)"
    and wf: "wf_tree st" "wf_store st" and live: "is_live st b"
  shows "branches st' = branches st" "wf_store st'" "change_done st st' b head c eff"
    "\<And>k. k \<noteq> change_key c \<Longrightarrow> key_view st' k = key_view st k"
proof -
  have "branches st' = branches st \<and> wf_store st' \<and> change_done st st' b head c eff
    \<and> (\<forall>k. k \<noteq> change_key c \<longrightarrow> key_view st' k = key_view st k)"
  proof (cases c)
    case (Assert k r d)
    have sl: "map_of (slots st) k = None"
      using ac Assert by (auto simp: apply_change_def split: if_splits)
    let ?e = "\<lparr>entry_seq = Suc head, entry_revision = r, entry_data = d\<rparr>"
    show ?thesis
    proof (cases eff)
      case False
      then have same: "st' = st"
        and ra: "\<exists>ow e. resolve st k (Version b head) = Some (RAsserted ow e) \<and> entry_revision e = r"
        using ac Assert sl
        by (auto simp: apply_change_def bind_eq_Some_conv split: if_splits resolved.splits)
      have as: "is_asserted st k"
      proof (rule ccontr)
        assume "\<not> is_asserted st k"
        from resolve_chain(2) [OF wf(1) live this, of head] ra show False
          by (cases "vclaim st k b head") auto
      qed
      with ra resolve_chain(1) [OF wf(1) live as, of head]
      have "map_option (entry_revision \<circ> snd) (ventry st k b head) = Some r"
        by (auto split: option.splits prod.splits)
      with as same sl wf False Assert show ?thesis by simp
    next
      case True
      then have m: "assertion_history_mut st k b (\<lambda>h. history_push h ?e) = Some st'"
        using ac Assert sl by (auto simp: apply_change_def bind_eq_Some_conv split: if_splits)
      note v = assertion_history_mut_views [OF m]
      have h: "hist st' k b = hist st k b @ [?e]" using history_push_Some [OF v(1)] .
      have hk: "hist st' k = (hist st k)(b := hist st k b @ [?e])" using h v(2) by (auto simp: fun_eq_iff)
      have other: "hist st' k' = hist st k'" if "k' \<noteq> k" for k' using v(2) that by (auto simp: fun_eq_iff)
      have "wf_store st'" by (rule wf_store_assertion_history_mut [OF m wf(2) live sl])
      with v(3-5) hk other slot_views_cong [OF v(5)] sl True Assert show ?thesis
        by (simp add: key_view_eq)
    qed
  next
    case (Dirty k d)
    have as: "\<not> is_asserted st k" using ac Dirty by (auto simp: apply_change_def split: if_splits)
    obtain t slot h where t: "slot_of (slot_or_insert st k b) k b = Some slot"
      "history_push (slot_untracked slot) \<lparr>entry_seq = Suc head, entry_revision = t, entry_data = d\<rparr> = Some h"
      "st' = set_untracked st k b h" "eff"
      using ac Dirty as
      by (auto simp: apply_change_def Let_def bind_eq_Some_conv set_untracked_def split: if_splits prod.splits)
    have h: "h = dirts st k b @ [\<lparr>entry_seq = Suc head, entry_revision = t, entry_data = d\<rparr>]"
      using history_push_Some [OF t(2)] slot_of_set_untracked_insert [OF t(1)] by simp
    note v = set_untracked_views [where st = st and k = k and b = b and h = h]
    have dk: "dirts st' k = (dirts st k)(b := h)" "\<And>k'. k' \<noteq> k \<Longrightarrow> dirts st' k' = dirts st k'"
      using v(1) t(3) by (auto simp: fun_eq_iff)
    have "wf_store st'" using wf_store_set_untracked [OF wf(2) live as] t(3) by simp
    moreover have "hist st' = hist st" "is_asserted st' = is_asserted st"
      using assertion_views_cong [of st' st] v(4) t(3) by simp_all
    ultimately show ?thesis using v(2,3,5) t(3,4) dk h as Dirty by (auto simp: key_view_eq)
  qed
  then show "branches st' = branches st" "wf_store st'" "change_done st st' b head c eff"
    "\<And>k. k \<noteq> change_key c \<Longrightarrow> key_view st' k = key_view st k" by auto
qed

lemma apply_changes_correct:
  assumes "apply_changes st nxt b (Version b head) (Suc head) seen queue cs = Some (st', nxt', queue')"
    and "wf_tree st" "wf_store st" "is_live st b"
  shows "\<exists>eff. branches st' = branches st \<and> wf_store st'
    \<and> (\<forall>k. k \<notin> change_key ` set cs \<longrightarrow> key_view st' k = key_view st k)
    \<and> (\<forall>c\<in>set cs. change_done st st' b head c (eff (change_key c)))
    \<and> set queue' = set queue \<union> {k \<in> change_key ` set cs. eff k}
    \<and> distinct (map change_key cs) \<and> change_key ` set cs \<inter> set seen = {}"
  using assms
proof (induction cs arbitrary: st nxt seen queue)
  case Nil
  then show ?case by auto
next
  case (Cons c cs)
  let ?k = "change_key c"
  obtain st1 nxt1 e where ac: "apply_change st nxt b (Version b head) (Suc head) c = Some (st1, nxt1, e)"
    and rest: "apply_changes st1 nxt1 b (Version b head) (Suc head) (List.insert ?k seen)
      (if e then queue @ [?k] else queue) cs = Some (st', nxt', queue')"
    and fresh: "?k \<notin> set seen"
    using Cons.prems(1) by (auto simp: bind_eq_Some_conv split: if_splits)
  note c = apply_change_correct [OF ac Cons.prems(2-4)]
  have tree: "wf_tree st1" "is_live st1 b" "par st1 = par st"
    using Cons.prems(2,4) branch_views_cong [OF c(1)] c(1)
    by (auto intro: same_tree_wf [of st] simp: same_tree_def)
  obtain eff where IH: "branches st' = branches st1" "wf_store st'"
    "\<forall>k. k \<notin> change_key ` set cs \<longrightarrow> key_view st' k = key_view st1 k"
    "\<forall>x\<in>set cs. change_done st1 st' b head x (eff (change_key x))"
    "set queue' = set (if e then queue @ [?k] else queue) \<union> {k \<in> change_key ` set cs. eff k}"
    "distinct (map change_key cs)" "change_key ` set cs \<inter> set (List.insert ?k seen) = {}"
    using Cons.IH [OF rest tree(1) c(2) tree(2)] by (elim exE conjE) (rule that)
  have notin: "?k \<notin> change_key ` set cs" using IH(7) by auto
  then have ne: "\<And>x. x \<in> set cs \<Longrightarrow> change_key x \<noteq> ?k" by (metis image_eqI)
  define eff' where "eff' = eff(?k := e)"
  have "change_done st st' b head x (eff' (change_key x))" if "x \<in> set (c # cs)" for x
  proof (cases "x = c")
    case True
    have "change_done st st1 b head c e = change_done st st' b head c e"
      by (rule change_done_cong) (use IH(3) notin in auto)
    with c(3) True show ?thesis by (simp add: eff'_def)
  next
    case False
    then have x: "x \<in> set cs" using that by simp
    note x = x ne [OF x]
    have "change_done st1 st' b head x (eff (change_key x)) = change_done st st' b head x (eff (change_key x))"
      by (rule change_done_cong) (use c(4) x tree(3) in auto)
    with IH(4) x show ?thesis by (simp add: eff'_def)
  qed
  moreover have "set queue' = set queue \<union> {k \<in> change_key ` set (c # cs). eff' k}"
    using IH(5) ne by (auto simp: eff'_def split: if_splits)
  moreover have "key_view st' k = key_view st k" if "k \<notin> change_key ` set (c # cs)" for k
    using that IH(3) c(4) [of k] by simp
  moreover have "distinct (map change_key (c # cs))" "change_key ` set (c # cs) \<inter> set seen = {}"
    using IH(6,7) fresh notin by auto
  ultimately show ?case using IH(1,2) c(1) by (intro exI [of _ eff']) simp
qed


section \<open>The walk\<close>

definition window_in :: "seq \<Rightarrow> seq \<Rightarrow> window \<Rightarrow> bool" where
  "window_in lo hi w \<longleftrightarrow> lo \<le> win_from w \<and> win_from w \<le> hi \<and> (\<forall>u. win_until w = Some u \<longrightarrow> win_from w \<le> u \<and> u \<le> hi)"

lemma window_ok_in: "window_ok st b w \<longleftrightarrow> window_in (fseq st b) (hseq st b) w"
  by (simp add: window_ok_def window_in_def)

lemma window_in_mono: "window_in lo hi w \<Longrightarrow> hi \<le> hi' \<Longrightarrow> window_in lo hi' w"
  by (force simp: window_in_def)

text \<open>
  The state of the walk with the keys \<open>V\<close> visited, against the state \<open>st1\<close> it started in: no
  version that exists has changed its answer, and the visited keys are closed at the version the
  commit is about to add.
\<close>

definition closing ::
  "('p, 'd, 'a) core_state \<Rightarrow> branch_id \<Rightarrow> key set \<Rightarrow> ('p, 'd, 'a) core_state \<Rightarrow> bool" where
  "closing st1 b V st \<longleftrightarrow> same_world st1 st
     \<and> (\<forall>k d. d \<noteq> b \<or> k \<notin> V \<longrightarrow> claim_at st k d = claim_at st1 k d)
     \<and> (\<forall>k d s. is_live st1 d \<longrightarrow> fseq st1 d \<le> s \<longrightarrow> s \<le> hseq st1 d \<longrightarrow> vcert st k d s = vcert st1 k d s)
     \<and> (\<forall>k\<in>V. \<not> is_asserted st1 k \<longrightarrow> vcert st k b (Suc (hseq st1 b)) = None)
     \<and> (\<forall>k d c. claim_at st k d = Some c \<longrightarrow> is_live st1 d \<and> cert_key (claim_cert c) = k
          \<and> window_in (fseq st1 d) (if d = b then Suc (hseq st1 b) else hseq st1 d) (claim_window c))
     \<and> wf_store st \<and> closed_exact st \<and> all_certs st \<subseteq> all_certs st1"

lemma closing_init:
  assumes "wf_tree st" "wf_claims st" "wf_store st" "closed_exact st"
  shows "closing st b {} st"
  using assms window_in_mono [OF _ le_SucI [OF order_refl]]
  by (auto simp: closing_def wf_claims_def window_ok_in)

lemma vcert_own: "claim_at st k b = Some c \<Longrightarrow>
    vcert st k b s = (if covers (claim_window c) s then Some (claim_cert c) else None)"
  by (simp add: vcert_def vclaim_def chain_own own_claim_def)

lemma vclaim_delegated:
  assumes "wf_tree st" "is_live st b" "claim_at st k b = None"
  shows "vclaim st k b s = vclaim st k b s'"
  unfolding vclaim_def
  by (rule tree.chain_constant) (use assms in \<open>auto simp: wlive_def own_claim_def\<close>)

lemma vcert_delegated:
  "wf_tree st \<Longrightarrow> is_live st b \<Longrightarrow> claim_at st k b = None \<Longrightarrow> vcert st k b s = vcert st k b s'"
  by (simp add: vcert_def vclaim_delegated [of st b k s s'])

lemma closing_set_claim:
  assumes cl: "closing st1 b V st" and wf: "wf_tree st1" and live: "is_live st1 b" and as: "\<not> is_asserted st1 k"
    and sc: "set_claim st k b (Some c) = Some st'" and c: "cert_key (claim_cert c) = k" "claim_cert c \<in> all_certs st"
    and win: "window_in (fseq st1 b) (Suc (hseq st1 b)) (claim_window c)" "\<not> covers (claim_window c) (Suc (hseq st1 b))"
    and same: "\<And>s. fseq st1 b \<le> s \<Longrightarrow> s \<le> hseq st1 b \<Longrightarrow>
      vcert st k b s = (if covers (claim_window c) s then Some (claim_cert c) else None)"
  shows "closing st1 b (insert k V) st'"
proof -
  note v = set_claim_views [OF sc]
  have sw: "same_world st1 st" using cl by (simp add: closing_def)
  note sv = same_world_views [OF sw]
  have wf': "wf_tree st" by (rule same_world_wf [OF sw wf])
  have at_new: "vcert st' k b s = (if covers (claim_window c) s then Some (claim_cert c) else None)" for s
    using vcert_own [of st' k b c s] v(1) by simp
  have keep: "vcert st' k' d s = vcert st k' d s"
    if d: "is_live st d" "fseq st d \<le> s" "s \<le> hseq st d" for k' d s
    unfolding vcert_def vclaim_def same_world_views(2) [OF v(2)]
  proof (rule chain_same_versions [OF wf' d])
    fix b1 s1 r assume l1: "is_live st b1" "fseq st b1 \<le> s1" "s1 \<le> hseq st b1" and own: "own_claim st' k' b1 s1 = Some r"
    show "map_option (claim_cert \<circ> snd) r = map_option (claim_cert \<circ> snd) (chain (par st) (own_claim st k') b1 s1)"
    proof (cases "k' = k \<and> b1 = b")
      case True
      with own same [of s1] l1 sv show ?thesis
        by (auto simp: own_claim_set [OF sc] vcert_def vclaim_def)
    next
      case False
      with own have "own_claim st k' b1 s1 = Some r" by (auto simp: own_claim_set [OF sc])
      then show ?thesis by (simp add: chain_own)
    qed
  next
    fix b1 s1 assume "own_claim st' k' b1 s1 = None"
    then show "own_claim st k' b1 s1 = None" by (auto simp: own_claim_set [OF sc] split: if_splits)
  qed
  have new: "vcert st' k' b (Suc (hseq st1 b)) = None" if "k' \<in> insert k V" "\<not> is_asserted st1 k'" for k'
  proof (cases "k' = k")
    case True
    then show ?thesis using at_new win(2) by simp
  next
    case False
    with that cl have "vcert st k' b (Suc (hseq st1 b)) = None" by (auto simp: closing_def)
    with False set_claim_other [OF sc False] show ?thesis by simp
  qed
  have "closed_exact st'"
    using cl live v(4) sv by (auto simp: closing_def closed_exact_def v(1) same_world_views(1) [OF v(2)])
  moreover have "wf_store st'" using cl wf_store_set_claim [OF sc] as live sv by (auto simp: closing_def)
  moreover have "same_world st1 st'" by (rule same_world_trans [OF sw v(2)])
  moreover have "all_certs st' \<subseteq> all_certs st1"
    using all_certs_set_claim [OF sc] c(2) cl by (auto simp: closing_def)
  ultimately show ?thesis
    using cl new keep c(1) win(1) live v(1) sv unfolding closing_def by simp
qed

lemma closing_mono_visit:
  assumes "closing st1 b V st" "is_asserted st1 k \<or> vcert st k b (Suc (hseq st1 b)) = None"
  shows "closing st1 b (insert k V) st"
  using assms by (auto simp: closing_def)


definition rdeps_list :: "('p, 'd, 'a) core_state \<Rightarrow> branch_id \<Rightarrow> key list key_map" where
  "rdeps_list st b = (case branch_of st b of None \<Rightarrow> [] | Some br \<Rightarrow> br_rdeps br)"

lemma set_claim_rdeps:
  assumes "set_claim st k b (Some c) = Some st'"
  shows "rdeps_list st' d = rdeps_list st d"
proof -
  have eq: "branch_of (set_slot_claim st k b c) = branch_of st"
    by (rule branch_of_cong) (simp add: set_slot_claim_def)
  from branch_mut_Some [OF assms [unfolded set_claim_eq]] show ?thesis
    by (auto simp: rdeps_list_def eq split: if_splits)
qed

lemma close_key_correct:
  assumes cl: "closing st1 b V st" and wf: "wf_tree st1" "wf_claims st1" "wf_store st1" and live: "is_live st1 b" and k: "k \<notin> V"
  shows "\<exists>st' oc. close_key st b (fseq st1 b) (Suc (hseq st1 b)) k = Some (st', oc)
    \<and> closing st1 b (insert k V) st' \<and> (\<forall>d. rdeps_list st' d = rdeps_list st d)"
proof -
  have sw: "same_world st1 st" and wfs: "wf_store st" using cl by (simp_all add: closing_def)
  note sv = same_world_views [OF sw]
  have wf': "wf_tree st" by (rule same_world_wf [OF sw wf(1)])
  have live': "is_live st b" using live sv by simp
  note fh = wf_tree_seqs [OF wf' live']
  have at: "claim_at st k b = claim_at st1 k b" using cl k by (simp add: closing_def)
  note att = attached_chain [OF wf' live', of k]
  show ?thesis
  proof (cases "is_asserted st1 k")
    case True
    with att sv have "attached st k b = Some None" by simp
    with closing_mono_visit [OF cl] True show ?thesis by (auto simp: close_key_def)
  next
    case as: False
    show ?thesis
    proof (cases "claim_at st k b")
      case (Some c)
      have w: "window_in (fseq st b) (hseq st b) (claim_window c)" "cert_key (claim_cert c) = k"
        using wf(2) Some at sv by (auto simp: wf_claims_def window_ok_in)
      have vc: "vclaim st k b s = (if covers (claim_window c) s then Some (b, c) else None)" for s
        using Some by (simp add: vclaim_def chain_own own_claim_def)
      show ?thesis
      proof (cases "is_open (claim_window c)")
        case True
        then have cov: "covers (claim_window c) (hseq st b)"
          using w by (simp add: covers_def is_open_def window_in_def)
        let ?c = "c\<lparr>claim_window := (claim_window c)\<lparr>win_until := Some (Suc (hseq st1 b))\<rparr>\<rparr>"
        have det: "detach st k b (Suc (hseq st1 b)) = set_claim st k b (Some ?c)"
          by (rule detach_set_claim [OF Some True]) (use w sv in \<open>simp add: window_in_def\<close>)
        obtain st' where sc: "set_claim st k b (Some ?c) = Some st'" using set_claim_total [OF live'] by blast
        have "closing st1 b (insert k V) st'"
        proof (rule closing_set_claim [OF cl wf(1) live as sc])
          show "claim_cert ?c \<in> all_certs st" using all_certsI [OF Some] by simp
          show "vcert st k b s = (if covers (claim_window ?c) s then Some (claim_cert ?c) else None)"
            if "fseq st1 b \<le> s" "s \<le> hseq st1 b" for s
            using that True by (auto simp: vcert_def vc covers_def is_open_def)
        qed (use w sv in \<open>auto simp: window_in_def covers_def\<close>)
        moreover have "close_key st b (fseq st1 b) (Suc (hseq st1 b)) k = Some (st', Some (claim_cert c))"
          using att as sv vc cov True det sc by (simp add: close_key_def)
        ultimately show ?thesis using set_claim_rdeps [OF sc] by blast
      next
        case False
        then have no: "\<not> covers (claim_window c) s" if "hseq st b \<le> s" for s
          using w that by (auto simp: covers_def is_open_def window_in_def)
        have "close_key st b (fseq st1 b) (Suc (hseq st1 b)) k = Some (st, None)"
          using att as sv vc no by (simp add: close_key_def)
        moreover have "vcert st k b (Suc (hseq st1 b)) = None" using no sv by (simp add: vcert_def vc)
        ultimately show ?thesis using closing_mono_visit [OF cl] by auto
      qed
    next
      case None
      have const: "vclaim st k b s = vclaim st k b (hseq st b)" for s by (rule vclaim_delegated [OF wf' live' None])
      show ?thesis
      proof (cases "vclaim st k b (hseq st b)")
        case vn: None
        then have "close_key st b (fseq st1 b) (Suc (hseq st1 b)) k = Some (st, None)"
          using att as sv by (simp add: close_key_def)
        moreover have "vcert st k b (Suc (hseq st1 b)) = None" using const vn by (simp add: vcert_def)
        ultimately show ?thesis using closing_mono_visit [OF cl] by auto
      next
        case (Some v)
        obtain ow c where v: "v = (ow, c)" by (cases v)
        have owc: "claim_at st k ow = Some c" using vclaim_claim_at Some v by simp
        then have "ow \<noteq> b" using None by auto
        let ?c = "\<lparr>claim_cert = claim_cert c, claim_window = \<lparr>win_from = fseq st1 b, win_until = Some (Suc (hseq st1 b))\<rparr>,
            claim_attribute = claim_attribute c\<rparr>"
        obtain st' where sc: "set_claim st k b (Some ?c) = Some st'" using set_claim_total [OF live'] by blast
        have "closing st1 b (insert k V) st'"
        proof (rule closing_set_claim [OF cl wf(1) live as sc])
          show "cert_key (claim_cert ?c) = k" using cl owc by (auto simp: closing_def)
          show "claim_cert ?c \<in> all_certs st" using all_certsI [OF owc] by simp
          show "vcert st k b s = (if covers (claim_window ?c) s then Some (claim_cert ?c) else None)"
            if "fseq st1 b \<le> s" "s \<le> hseq st1 b" for s
            using that const [of s] Some v by (simp add: vcert_def covers_def)
        qed (use fh sv in \<open>auto simp: window_in_def covers_def\<close>)
        moreover have "close_key st b (fseq st1 b) (Suc (hseq st1 b)) k = Some (st', Some (claim_cert c))"
          using att as sv Some v \<open>ow \<noteq> b\<close> fh sc by (simp add: close_key_def window_closed_def)
        ultimately show ?thesis using set_claim_rdeps [OF sc] by blast
      qed
    qed
  qed
qed

subsection \<open>The edges of the walk\<close>

definition edge_count :: "('p, 'd, 'a) core_state \<Rightarrow> branch_id \<Rightarrow> nat" where
  "edge_count st b = sum_list (map (length \<circ> snd) (rdeps_list st b))"

lemma edges_rdeps_list: "edges st b x = (case map_of (rdeps_list st b) x of None \<Rightarrow> [] | Some ks \<Rightarrow> ks)"
  by (simp add: edges_def rdeps_list_def rdeps_of_def split: option.split)

lemma edge_count_delete:
  "sum_list (map (length \<circ> snd) (AList.delete x m)) + length (case map_of m x of None \<Rightarrow> [] | Some ks \<Rightarrow> ks)
    \<le> sum_list (map (length \<circ> snd) m)"
  by (induction m) (auto simp: AList.delete_eq trans_le_add2 split: if_splits option.splits)

lemma take_rdeps_step:
  assumes live: "is_live st b"
  shows "\<exists>br st'. branch_of st b = Some br \<and> branch_mut st b (\<lambda>br. Some (snd (take_rdeps br x))) = Some st'
    \<and> fst (take_rdeps br x) = edges st b x
    \<and> edge_count st' b + length (edges st b x) \<le> edge_count st b
    \<and> (\<forall>d y. edges st' d y = (if d = b \<and> y = x then [] else edges st d y))
    \<and> same_world st st' \<and> claim_at st' = claim_at st \<and> closed_set st' = closed_set st
    \<and> slots st' = slots st \<and> assertions st' = assertions st \<and> key_count st' = key_count st"
proof -
  obtain br where br: "branch_of st b = Some br" using is_live_Some [OF live] by blast
  obtain st' where m: "branch_mut st b (\<lambda>br. Some (snd (take_rdeps br x))) = Some st'"
    using branch_mut_total [OF live, of "\<lambda>br. Some (snd (take_rdeps br x))"] by auto
  have st': "branch_of st' = (branch_of st)(b \<mapsto> snd (take_rdeps br x))"
    using branch_mut_Some [OF m] br by auto
  have w: "same_world st st'" "claim_at st' = claim_at st" "slots st' = slots st"
    "assertions st' = assertions st" "key_count st' = key_count st"
    by (rule branch_mut_world [OF m]; auto)+
  have e: "edges st' d y = (if d = b \<and> y = x then [] else edges st d y)" for d y
    using st' br by (simp add: edges_def rdeps_of_take_rdeps)
  have "edge_count st' b + length (edges st b x) \<le> edge_count st b"
    using edge_count_delete [of x "br_rdeps br"]
    by (simp add: edge_count_def rdeps_list_def st' br take_rdeps_def edges_def rdeps_of_def)
  moreover have "closed_set st' = closed_set st" using st' br by (auto simp: closed_set_def fun_eq_iff)
  moreover have "fst (take_rdeps br x) = edges st b x" using br by (simp add: take_rdeps_def edges_def)
  ultimately show ?thesis using br m w e by blast
qed

lemma closing_cong:
  assumes "closing st1 b V st" "same_world st st'" "claim_at st' = claim_at st" "closed_set st' = closed_set st"
    "slots st' = slots st" "assertions st' = assertions st" "key_count st' = key_count st"
  shows "closing st1 b V st'"
proof -
  note sv = same_world_views [OF assms(2)]
  have "own_claim st' = own_claim st" by (intro ext) (simp add: own_claim_def assms(3))
  then have vc: "vcert st' = vcert st" by (intro ext) (simp add: vcert_def vclaim_def sv)
  have "wf_store st'" using assms(1) wf_store_cong [OF assms(5-7)] sv by (simp add: closing_def)
  moreover have "closed_exact st'" using assms(1,3,4) sv by (simp add: closing_def closed_exact_def)
  ultimately show ?thesis
    using assms(1,3) same_world_trans [OF _ assms(2), of st1] vc by (simp add: closing_def all_certs_def)
qed

text \<open>The walk ends: every round takes a key off the queue, and what a visit puts on it are edges it
  removes from the branch. It visits the queue, and everything the edges reach from it.\<close>

lemma close_loop_correct:
  assumes wf: "wf_tree st1" "wf_claims st1" "wf_store st1" and live: "is_live st1 b"
  shows "closing st1 b (set visited) st \<Longrightarrow>
    (\<And>d x. edges st d x = (if d = b \<and> x \<in> set visited then [] else edges st1 d x)) \<Longrightarrow>
    (\<And>x. x \<in> set visited \<Longrightarrow> set (edges st1 b x) \<subseteq> set visited \<union> set queue) \<Longrightarrow>
    fst ` set closed \<subseteq> set visited \<Longrightarrow>
    \<exists>st' visited' closed'. close_loop st b (fseq st1 b) (Suc (hseq st1 b)) visited closed queue = Some (st', visited', closed')
      \<and> closing st1 b (set visited') st'
      \<and> (\<forall>d x. edges st' d x = (if d = b \<and> x \<in> set visited' then [] else edges st1 d x))
      \<and> (\<forall>x\<in>set visited'. set (edges st1 b x) \<subseteq> set visited')
      \<and> set visited \<union> set queue \<subseteq> set visited' \<and> fst ` set closed' \<subseteq> set visited'"
proof (induction "edge_count st b + length queue" arbitrary: st visited closed queue rule: less_induct)
  case less
  show ?case
  proof (cases queue)
    case Nil
    have "close_loop st b (fseq st1 b) (Suc (hseq st1 b)) visited closed queue = Some (st, visited, closed)"
      by (subst close_loop.simps) (simp add: Nil)
    with less.prems Nil show ?thesis by auto
  next
    case (Cons key rest)
    show ?thesis
    proof (cases "key \<in> set visited")
      case True
      have eq: "close_loop st b (fseq st1 b) (Suc (hseq st1 b)) visited closed queue
          = close_loop st b (fseq st1 b) (Suc (hseq st1 b)) visited closed rest"
        by (subst close_loop.simps) (simp add: Cons True)
      have "set (edges st1 b x) \<subseteq> set visited \<union> set rest" if "x \<in> set visited" for x
        using less.prems(3) [OF that] Cons True by auto
      from less.hyps [OF _ less.prems(1,2) this less.prems(4)] Cons True eq show ?thesis by auto
    next
      case False
      obtain st2 oc where ck: "close_key st b (fseq st1 b) (Suc (hseq st1 b)) key = Some (st2, oc)"
        "closing st1 b (insert key (set visited)) st2" "\<And>d. rdeps_list st2 d = rdeps_list st d"
        using close_key_correct [OF less.prems(1) wf live False] by auto
      have live2: "is_live st2 b" using ck(2) live by (auto simp: closing_def same_world_views)
      have e2: "edges st2 d x = edges st d x" for d x by (simp add: edges_rdeps_list ck(3))
      obtain br st3 where tr: "branch_of st2 b = Some br"
        "branch_mut st2 b (\<lambda>br. Some (snd (take_rdeps br key))) = Some st3"
        "fst (take_rdeps br key) = edges st2 b key" "edge_count st3 b + length (edges st2 b key) \<le> edge_count st2 b"
        "\<forall>d y. edges st3 d y = (if d = b \<and> y = key then [] else edges st2 d y)"
        "same_world st2 st3" "claim_at st3 = claim_at st2" "closed_set st3 = closed_set st2"
        "slots st3 = slots st2" "assertions st3 = assertions st2" "key_count st3 = key_count st2"
        using take_rdeps_step [OF live2, of key] by (elim exE conjE) (rule that)
      let ?visited = "List.insert key visited"
      let ?closed = "case oc of None \<Rightarrow> closed | Some cert \<Rightarrow> closed @ [(key, cert)]"
      have ek: "edges st2 b key = edges st1 b key" using less.prems(2) False by (simp add: e2)
      have eq: "close_loop st b (fseq st1 b) (Suc (hseq st1 b)) visited closed queue
          = close_loop st3 b (fseq st1 b) (Suc (hseq st1 b)) ?visited ?closed (rest @ edges st1 b key)"
        by (subst close_loop.simps) (simp add: Cons False ck(1) tr(1,2,3) ek)
      have cl3: "closing st1 b (set ?visited) st3" using closing_cong [OF ck(2) tr(6-)] by simp
      have "edge_count st2 b = edge_count st b" by (simp add: edge_count_def ck(3))
      then have dec: "edge_count st3 b + length (rest @ edges st1 b key) < edge_count st b + length queue"
        using tr(4) ek Cons by simp
      have "\<exists>st' visited' closed'. close_loop st3 b (fseq st1 b) (Suc (hseq st1 b)) ?visited ?closed (rest @ edges st1 b key)
          = Some (st', visited', closed') \<and> closing st1 b (set visited') st'
        \<and> (\<forall>d x. edges st' d x = (if d = b \<and> x \<in> set visited' then [] else edges st1 d x))
        \<and> (\<forall>x\<in>set visited'. set (edges st1 b x) \<subseteq> set visited')
        \<and> set ?visited \<union> set (rest @ edges st1 b key) \<subseteq> set visited' \<and> fst ` set closed' \<subseteq> set visited'"
      proof (rule less.hyps [OF dec cl3])
        show "edges st3 d x = (if d = b \<and> x \<in> set ?visited then [] else edges st1 d x)" for d x
          using tr(5) less.prems(2) by (auto simp: e2)
        show "set (edges st1 b x) \<subseteq> set ?visited \<union> set (rest @ edges st1 b key)" if "x \<in> set ?visited" for x
          using that less.prems(3) [of x] Cons by (cases "x = key") auto
        show "fst ` set ?closed \<subseteq> set ?visited" using less.prems(4) by (auto split: option.splits)
      qed
      with eq Cons show ?thesis by auto
    qed
  qed
qed


subsection \<open>Removing the edges of what was closed\<close>

lemma collect_removals_closed:
  "(dep, ds) \<in> set (collect_removals E visited closed) \<Longrightarrow> set ds \<subseteq> fst ` set closed"
proof -
  let ?ok = "\<lambda>S m. \<forall>(dep, ds)\<in>set m. set ds \<subseteq> (S :: key set)"
  let ?add = "\<lambda>key removals premise. if premise_key premise \<in> set visited then removals
         else AList.update (premise_key premise)
                (List.insert key
                  (case map_of removals (premise_key premise) of None \<Rightarrow> [] | Some ks \<Rightarrow> ks)) removals"
  have one: "?ok S (?add key m p)" if "?ok S m" "key \<in> S" for S key m p
  proof -
    let ?ks = "case map_of m (premise_key p) of None \<Rightarrow> [] | Some ks \<Rightarrow> ks"
    have "set (List.insert key ?ks) \<subseteq> S"
      using that map_of_SomeD [of m "premise_key p"] by (cases "map_of m (premise_key p)") auto
    then show ?thesis
      using that(1) alist_update_member [of _ "premise_key p" "List.insert key ?ks" m]
      by (auto simp only: split_paired_all split: if_splits) blast+
  qed
  have inner: "?ok S (foldl (?add key) m ps)" if "?ok S m" "key \<in> S" for S key m ps
    using that
  proof (induction ps arbitrary: m)
    case (Cons p ps)
    then show ?case using one [OF Cons.prems, of p] by simp
  qed simp
  have outer: "?ok S (foldl (\<lambda>m (key, cert). foldl (?add key) m (cert_premises E cert)) m cs)"
    if "?ok S m" "fst ` set cs \<subseteq> S" for S m cs
    using that
  proof (induction cs arbitrary: m)
    case (Cons c cs)
    obtain key cert where c: "c = (key, cert)" by (cases c)
    with Cons.prems have "?ok S (foldl (?add key) m (cert_premises E cert))" by (intro inner) auto
    from Cons.IH [OF this] Cons.prems(2) c show ?case by simp
  qed simp
  have "?ok (fst ` set closed) (collect_removals E visited closed)"
    unfolding collect_removals_def by (rule outer) auto
  then show "(dep, ds) \<in> set (collect_removals E visited closed) \<Longrightarrow> set ds \<subseteq> fst ` set closed" by blast
qed

definition same_but_edges :: "('p, 'd, 'a) core_state \<Rightarrow> ('p, 'd, 'a) core_state \<Rightarrow> bool" where
  "same_but_edges st st' \<longleftrightarrow> same_world st st' \<and> claim_at st' = claim_at st \<and> closed_set st' = closed_set st
     \<and> slots st' = slots st \<and> assertions st' = assertions st \<and> key_count st' = key_count st"

lemma remove_all_edges_correct:
  assumes "is_live st b" "\<And>dep ds. (dep, ds) \<in> set rs \<Longrightarrow> set ds \<subseteq> V"
  shows "\<exists>st'. remove_all_edges st b rs = Some st' \<and> same_but_edges st st'
    \<and> (\<forall>d x. d \<noteq> b \<longrightarrow> edges st' d x = edges st d x)
    \<and> (\<forall>x k. k \<notin> V \<longrightarrow> k \<in> set (edges st b x) \<longrightarrow> k \<in> set (edges st' b x))"
  using assms
proof (induction rs arbitrary: st)
  case Nil
  then show ?case by (simp add: same_but_edges_def)
next
  case (Cons r rs)
  obtain dep ds where r: "r = (dep, ds)" by (cases r)
  obtain br where br: "branch_of st b = Some br" using is_live_Some [OF Cons.prems(1)] by blast
  obtain st1 where m: "branch_mut st b (\<lambda>br. Some (remove_edges br dep ds)) = Some st1"
    using branch_mut_total [OF Cons.prems(1), of "\<lambda>br. Some (remove_edges br dep ds)"] by auto
  have b1: "branch_of st1 = (branch_of st)(b \<mapsto> remove_edges br dep ds)"
    using branch_mut_Some [OF m] br by auto
  have w: "same_world st st1" "claim_at st1 = claim_at st" "slots st1 = slots st"
    "assertions st1 = assertions st" "key_count st1 = key_count st"
    by (rule branch_mut_world [OF m]; auto)+
  have "closed_set st1 = closed_set st" using b1 br by (auto simp: closed_set_def fun_eq_iff)
  with w have s1: "same_but_edges st st1" by (simp add: same_but_edges_def)
  have e: "edges st1 d x = (if d = b \<and> x = dep then filter (\<lambda>k. k \<notin> set ds) (edges st b x) else edges st d x)" for d x
    using b1 br by (simp add: edges_def rdeps_of_remove_edges)
  have ds: "set ds \<subseteq> V" using Cons.prems(2) [of dep ds] r by simp
  obtain st' where st': "remove_all_edges st1 b rs = Some st'" "same_but_edges st1 st'"
    "\<forall>d x. d \<noteq> b \<longrightarrow> edges st' d x = edges st1 d x"
    "\<forall>x k. k \<notin> V \<longrightarrow> k \<in> set (edges st1 b x) \<longrightarrow> k \<in> set (edges st' b x)"
    using Cons.IH [of st1] Cons.prems(1) Cons.prems(2) [OF list.set_intros(2)] w(1) by (auto simp: same_world_views)
  have "same_but_edges st st'" using s1 st'(2) by (auto simp: same_but_edges_def intro: same_world_trans)
  moreover have "k \<in> set (edges st' b x)" if "k \<notin> V" "k \<in> set (edges st b x)" for k x
  proof -
    have "k \<in> set (edges st1 b x)" using that ds by (auto simp: e)
    with st'(4) that(1) show ?thesis by blast
  qed
  ultimately show ?case using st' r m e by auto
qed

subsection \<open>The new head\<close>

text \<open>
  The state after a commit has added the version \<open>Suc (hseq st1 b)\<close>, against the state \<open>st1\<close> the
  walk started in: versions that existed keep their answers; at the new head a key the walk reached
  is unknown and any other resolves as it did at the old head.
\<close>

definition advanced ::
  "('p, 'd, 'a) core_state \<Rightarrow> branch_id \<Rightarrow> key set \<Rightarrow> ('p, 'd, 'a) core_state \<Rightarrow> bool" where
  "advanced st1 b V st' \<longleftrightarrow> length (branches st') = length (branches st1) \<and> is_live st' = is_live st1
     \<and> par st' = par st1 \<and> fseq st' = fseq st1 \<and> kids st' = kids st1 \<and> hseq st' = (hseq st1)(b := Suc (hseq st1 b))
     \<and> dirts st' = dirts st1 \<and> hist st' = hist st1 \<and> is_asserted st' = is_asserted st1
     \<and> (\<forall>k d s. is_live st1 d \<longrightarrow> fseq st1 d \<le> s \<longrightarrow> s \<le> hseq st1 d \<longrightarrow> vcert st' k d s = vcert st1 k d s)
     \<and> (\<forall>k. \<not> is_asserted st1 k \<longrightarrow>
          vcert st' k b (Suc (hseq st1 b)) = (if k \<in> V then None else vcert st1 k b (hseq st1 b)))
     \<and> (\<forall>d x. d \<noteq> b \<longrightarrow> edges st' d x = edges st1 d x)
     \<and> (\<forall>x k. x \<notin> V \<longrightarrow> k \<notin> V \<longrightarrow> k \<in> set (edges st1 b x) \<longrightarrow> k \<in> set (edges st' b x))
     \<and> (\<forall>x\<in>V. set (edges st1 b x) \<subseteq> V)
     \<and> wf_tree st' \<and> wf_claims st' \<and> wf_store st' \<and> closed_exact st' \<and> all_certs st' \<subseteq> all_certs st1"

lemma head_step:
  assumes cl: "closing st1 b V st2" and wf: "wf_tree st1" "wf_claims st1" and live: "is_live st1 b"
    and e: "\<And>d x. d \<noteq> b \<Longrightarrow> edges st2 d x = edges st1 d x"
      "\<And>x k. x \<notin> V \<Longrightarrow> k \<notin> V \<Longrightarrow> k \<in> set (edges st1 b x) \<Longrightarrow> k \<in> set (edges st2 b x)"
      "\<And>x. x \<in> V \<Longrightarrow> set (edges st1 b x) \<subseteq> V"
    and m: "branch_mut st2 b (\<lambda>br. Some (br\<lparr>br_head := Suc (hseq st1 b)\<rparr>)) = Some st'"
  shows "advanced st1 b V st'"
proof -
  have sw: "same_world st1 st2" using cl by (simp add: closing_def)
  note sv = same_world_views [OF sw]
  have wf2: "wf_tree st2" and live2: "is_live st2 b" using same_world_wf [OF sw wf(1)] live sv by simp_all
  obtain br where br: "branch_of st2 b = Some br"
    "branch_of st' = (branch_of st2)(b \<mapsto> br\<lparr>br_head := Suc (hseq st1 b)\<rparr>)"
    and frame: "slots st' = slots st2" "assertions st' = assertions st2" "key_count st' = key_count st2"
    "length (branches st') = length (branches st2)"
    using branch_mut_Some [OF m] by auto
  have tree: "is_live st' = is_live st1" "par st' = par st1" "fseq st' = fseq st1" "kids st' = kids st1"
    "hseq st' = (hseq st1)(b := Suc (hseq st1 b))" "edges st' = edges st2" "closed_set st' = closed_set st2"
  proof -
    define n where "n = Suc (hseq st1 b)"
    have "is_live st' = is_live st2 \<and> par st' = par st2 \<and> fseq st' = fseq st2 \<and> kids st' = kids st2
      \<and> hseq st' = (hseq st2)(b := n) \<and> edges st' = edges st2 \<and> closed_set st' = closed_set st2"
      using br [folded n_def] by (auto simp: fun_eq_iff is_live_branch_of view_defs rdeps_of_def)
    then show "is_live st' = is_live st1" "par st' = par st1" "fseq st' = fseq st1" "kids st' = kids st1"
      "hseq st' = (hseq st1)(b := Suc (hseq st1 b))" "edges st' = edges st2" "closed_set st' = closed_set st2"
      by (simp_all add: sv n_def)
  qed
  have slv: "claim_at st' = claim_at st2" "dirts st' = dirts st2" using slot_views_cong [OF frame(1)] by auto
  note asv = assertion_views_cong [OF frame(2)]
  have "own_claim st' = own_claim st2" by (intro ext) (simp add: own_claim_def slv)
  then have vc: "vcert st' = vcert st2" by (intro ext) (simp add: vcert_def vclaim_def tree sv)
  have old: "vcert st' k d s = vcert st1 k d s" if "is_live st1 d" "fseq st1 d \<le> s" "s \<le> hseq st1 d" for k d s
    using cl that by (simp add: closing_def vc)
  have new: "vcert st' k b (Suc (hseq st1 b)) = (if k \<in> V then None else vcert st1 k b (hseq st1 b))"
    if as: "\<not> is_asserted st1 k" for k
  proof (cases "k \<in> V")
    case True
    then show ?thesis using cl as by (simp add: closing_def vc)
  next
    case False
    then have at: "claim_at st2 k b = claim_at st1 k b" using cl by (simp add: closing_def)
    have "vcert st2 k b (Suc (hseq st1 b)) = vcert st2 k b (hseq st1 b)"
    proof (cases "claim_at st2 k b")
      case None
      then show ?thesis using vcert_delegated [OF wf2 live2] by blast
    next
      case (Some c)
      with at wf(2) have "window_in (fseq st1 b) (hseq st1 b) (claim_window c)"
        by (auto simp: wf_claims_def window_ok_in)
      then have "covers (claim_window c) (Suc (hseq st1 b)) = covers (claim_window c) (hseq st1 b)"
        by (auto simp: covers_def window_in_def split: option.splits)
      then show ?thesis by (simp add: vcert_own [OF Some])
    qed
    with False old [of b "hseq st1 b" k] wf_tree_seqs [OF wf(1) live] live show ?thesis by (simp add: vc)
  qed
  have "wf_tree st'"
    using wf(1) unfolding wf_tree_def tree by (fastforce simp: le_Suc_eq)
  moreover have "wf_claims st'"
    unfolding wf_claims_def window_ok_in tree slv using cl by (auto simp: closing_def split: if_splits)
  moreover have "wf_store st'"
    using cl wf_store_cong [OF frame(1-3)] tree(1) sv by (simp add: closing_def)
  moreover have "closed_exact st'" using cl sv by (simp add: closing_def closed_exact_def tree slv)
  moreover have "all_certs st' \<subseteq> all_certs st1" using cl by (simp add: closing_def all_certs_def slv)
  ultimately show ?thesis
    using old new e sv frame(4) slv asv by (simp add: advanced_def tree)
qed

lemma close_dependents_correct:
  assumes wf: "wf_tree st1" "wf_claims st1" "wf_store st1" "closed_exact st1" and live: "is_live st1 b"
  shows "\<exists>st2 st3 V. close_dependents E st1 b (Suc (hseq st1 b)) queue = Some st2
    \<and> branch_mut st2 b (\<lambda>br. Some (br\<lparr>br_head := Suc (hseq st1 b)\<rparr>)) = Some st3
    \<and> advanced st1 b V st3 \<and> set queue \<subseteq> V"
proof -
  obtain br where br: "branch_of st1 b = Some br" "br_first br = fseq st1 b"
    using is_live_Some [OF live] by (auto simp: fseq_def)
  obtain st2 V closed where cl: "close_loop st1 b (fseq st1 b) (Suc (hseq st1 b)) [] [] queue = Some (st2, V, closed)"
    "closing st1 b (set V) st2" "\<forall>d x. edges st2 d x = (if d = b \<and> x \<in> set V then [] else edges st1 d x)"
    "\<forall>x\<in>set V. set (edges st1 b x) \<subseteq> set V" "set queue \<subseteq> set V" "fst ` set closed \<subseteq> set V"
    using close_loop_correct [OF wf(1-3) live, of "[]" st1 queue "[]"] closing_init [OF wf] by auto
  have live2: "is_live st2 b" using cl(2) live by (auto simp: closing_def same_world_views)
  obtain st3 where st3: "remove_all_edges st2 b (collect_removals E V closed) = Some st3" "same_but_edges st2 st3"
    "\<forall>d x. d \<noteq> b \<longrightarrow> edges st3 d x = edges st2 d x"
    "\<forall>x k. k \<notin> set V \<longrightarrow> k \<in> set (edges st2 b x) \<longrightarrow> k \<in> set (edges st3 b x)"
    using remove_all_edges_correct [OF live2, of "collect_removals E V closed" "set V"]
      collect_removals_closed [of _ _ E V closed] cl(6) by (metis subset_trans)
  have cl3: "closing st1 b (set V) st3"
    using closing_cong [OF cl(2)] st3(2) by (simp add: same_but_edges_def)
  have live3: "is_live st3 b" using cl3 live by (auto simp: closing_def same_world_views)
  obtain st4 where m: "branch_mut st3 b (\<lambda>br. Some (br\<lparr>br_head := Suc (hseq st1 b)\<rparr>)) = Some st4"
    using branch_mut_total [OF live3, of "\<lambda>br. Some (br\<lparr>br_head := Suc (hseq st1 b)\<rparr>)"] by auto
  have "advanced st1 b (set V) st4"
    by (rule head_step [OF cl3 wf(1,2) live _ _ _ m]) (use cl(3,4) st3(3,4) in auto)
  moreover have "close_dependents E st1 b (Suc (hseq st1 b)) queue = Some st3"
    using br cl(1) st3(1) by (simp add: close_dependents_def)
  ultimately show ?thesis using m cl(5) by blast
qed


section \<open>The commit\<close>

text \<open>The changes of a commit, summed up over all keys; \<open>Q\<close> are the keys changed with an effect.\<close>

definition extends :: "seq \<Rightarrow> ('r, 'd) history \<Rightarrow> ('r, 'd) history \<Rightarrow> bool" where
  "extends n h h' \<longleftrightarrow> h' = h \<or> (\<exists>e. entry_seq e = n \<and> h' = h @ [e])"

definition changed ::
  "('p, 'd, 'a) core_state \<Rightarrow> branch_id \<Rightarrow> 'd change list \<Rightarrow> key set \<Rightarrow> ('p, 'd, 'a) core_state \<Rightarrow> bool" where
  "changed st b cs Q st1 \<longleftrightarrow> branches st1 = branches st \<and> wf_store st1 \<and> claim_at st1 = claim_at st
     \<and> (\<forall>k d. d \<noteq> b \<or> k \<notin> Q \<longrightarrow> hist st1 k d = hist st k d \<and> dirts st1 k d = dirts st k d)
     \<and> (\<forall>k. extends (Suc (hseq st b)) (hist st k b) (hist st1 k b) \<and> extends (Suc (hseq st b)) (dirts st k b) (dirts st1 k b))
     \<and> (\<forall>k. is_asserted st k \<longrightarrow> is_asserted st1 k)
     \<and> (\<forall>k. is_asserted st1 k \<longrightarrow> \<not> is_asserted st k \<longrightarrow> map_of (slots st) k = None \<and> k \<in> Q)
     \<and> (\<forall>k r d. Assert k r d \<in> set cs \<longrightarrow> is_asserted st1 k
          \<and> ((\<exists>e. hist st1 k b = hist st k b @ [e] \<and> entry_revision e = r \<and> entry_seq e = Suc (hseq st b))
             \<or> hist st1 k = hist st k \<and> is_asserted st k
               \<and> map_option (entry_revision \<circ> snd) (ventry st k b (hseq st b)) = Some r))
     \<and> (\<forall>k. (\<nexists>r d. Assert k r d \<in> set cs) \<longrightarrow> hist st1 k = hist st k \<and> is_asserted st1 k = is_asserted st k)
     \<and> (\<forall>k. (\<nexists>d. Dirty k d \<in> set cs) \<longrightarrow> dirts st1 k = dirts st k)
     \<and> (\<forall>k d. Dirty k d \<in> set cs \<longrightarrow> k \<in> Q \<and> \<not> is_asserted st1 k)"

lemma distinct_change_key:
  "distinct (map change_key cs) \<Longrightarrow> c \<in> set cs \<Longrightarrow> c' \<in> set cs \<Longrightarrow> change_key c = change_key c' \<Longrightarrow> c = c'"
  by (induction cs) (auto, (metis image_eqI)+)

lemma change_done_claim: "change_done st st' b n c e \<Longrightarrow> claim_at st' (change_key c) = claim_at st (change_key c)"
  by (cases c) auto

lemma apply_changes_changed:
  assumes ac: "apply_changes st nxt b (Version b (hseq st b)) (Suc (hseq st b)) [] [] cs = Some (st1, nxt', queue)"
    and wf: "wf_tree st" "wf_store st" and live: "is_live st b"
  shows "changed st b cs (set queue) st1"
proof -
  obtain eff where a: "branches st1 = branches st" "wf_store st1"
    "\<forall>k. k \<notin> change_key ` set cs \<longrightarrow> key_view st1 k = key_view st k"
    "\<forall>c\<in>set cs. change_done st st1 b (hseq st b) c (eff (change_key c))"
    "set queue = set [] \<union> {k \<in> change_key ` set cs. eff k}" "distinct (map change_key cs)"
    "change_key ` set cs \<inter> set [] = {}"
    using apply_changes_correct [OF ac wf live] by (elim exE conjE) (rule that)
  have key: "(\<exists>c\<in>set cs. change_key c = k \<and> change_done st st1 b (hseq st b) c (eff k) \<and> (eff k \<longleftrightarrow> k \<in> set queue)
       \<and> (\<forall>c'\<in>set cs. change_key c' = k \<longrightarrow> c' = c))
     \<or> key_view st1 k = key_view st k \<and> k \<notin> set queue \<and> (\<forall>c\<in>set cs. change_key c \<noteq> k)" for k
  proof (cases "k \<in> change_key ` set cs")
    case True
    then obtain c where "c \<in> set cs" "change_key c = k" by auto
    with a(4,5) distinct_change_key [OF a(6)] show ?thesis by auto
  next
    case False
    with a(3,5) show ?thesis by auto
  qed
  have claims: "claim_at st1 = claim_at st"
  proof
    fix k from key [of k] show "claim_at st1 k = claim_at st k"
      using change_done_claim by (fastforce simp: key_view_eq)
  qed
  have conj: "(d \<noteq> b \<or> k \<notin> set queue \<longrightarrow> hist st1 k d = hist st k d \<and> dirts st1 k d = dirts st k d)
     \<and> extends (Suc (hseq st b)) (hist st k b) (hist st1 k b) \<and> extends (Suc (hseq st b)) (dirts st k b) (dirts st1 k b)
     \<and> (is_asserted st k \<longrightarrow> is_asserted st1 k)
     \<and> (is_asserted st1 k \<longrightarrow> \<not> is_asserted st k \<longrightarrow> map_of (slots st) k = None \<and> k \<in> set queue)
     \<and> (Assert k r x \<in> set cs \<longrightarrow> is_asserted st1 k
          \<and> ((\<exists>e. hist st1 k b = hist st k b @ [e] \<and> entry_revision e = r \<and> entry_seq e = Suc (hseq st b))
             \<or> hist st1 k = hist st k \<and> is_asserted st k
               \<and> map_option (entry_revision \<circ> snd) (ventry st k b (hseq st b)) = Some r))
     \<and> ((\<nexists>r d. Assert k r d \<in> set cs) \<longrightarrow> hist st1 k = hist st k \<and> is_asserted st1 k = is_asserted st k)
     \<and> ((\<nexists>d. Dirty k d \<in> set cs) \<longrightarrow> dirts st1 k = dirts st k)
     \<and> (Dirty k y \<in> set cs \<longrightarrow> k \<in> set queue \<and> \<not> is_asserted st1 k)" for k d r x y
    using key [of k]
  proof (elim disjE bexE conjE)
    fix c assume c: "c \<in> set cs" "change_key c = k" "change_done st st1 b (hseq st b) c (eff k)"
      "eff k \<longleftrightarrow> k \<in> set queue" and uniq: "\<forall>c'\<in>set cs. change_key c' = k \<longrightarrow> c' = c"
    show ?thesis
    proof (cases c)
      case (Assert k' r' d')
      then have "k' = k" using c(2) by simp
      have A: "Assert k r x \<in> set cs \<Longrightarrow> r = r' \<and> x = d'" "Dirty k y \<notin> set cs"
        using bspec [OF uniq, of "Assert k r x"] bspec [OF uniq, of "Dirty k y"] Assert by auto
      show ?thesis using c Assert \<open>k' = k\<close> A by (auto simp: extends_def split: if_splits)
    next
      case (Dirty k' d')
      then have "k' = k" using c(2) by simp
      have A: "Assert k r x \<notin> set cs" using bspec [OF uniq, of "Assert k r x"] Dirty by auto
      show ?thesis using c Dirty \<open>k' = k\<close> A by (auto simp: extends_def split: if_splits)
    qed
  next
    assume "key_view st1 k = key_view st k" "k \<notin> set queue" and no: "\<forall>c\<in>set cs. change_key c \<noteq> k"
    moreover have "Assert k r x \<notin> set cs" "Dirty k y \<notin> set cs" using no by auto
    ultimately show ?thesis by (auto simp: key_view_eq extends_def)
  qed
  show ?thesis unfolding changed_def using a(1,2) claims conj by blast
qed

lemma changed_dirty: "changed st b cs Q st1 \<Longrightarrow> Dirty k d \<in> set cs \<Longrightarrow> k \<in> Q \<and> \<not> is_asserted st1 k"
  unfolding changed_def by (elim conjE allE [of _ k]) blast


subsection \<open>Answers before and after\<close>

lemma extends_at: "extends n h h' \<Longrightarrow> s < n \<Longrightarrow> history_at h' s = history_at h s"
  by (auto simp: extends_def history_at_append)

lemma chain_entry_old:
  assumes "wf_tree st" "is_live st d" "fseq st d \<le> s" "s \<le> hseq st d"
    and "\<And>d s. is_live st d \<Longrightarrow> s \<le> hseq st d \<Longrightarrow> history_at (h' d) s = history_at (h d) s"
  shows "chain (par st) (own_entry h') d s = chain (par st) (own_entry h) d s"
proof -
  have "map_option id (chain (par st) (own_entry h') d s) = map_option id (chain (par st) (own_entry h) d s)"
    by (rule chain_same_versions [OF assms(1-4)]) (auto simp: own_entry_def assms(5) chain_own)
  then show ?thesis by (simp add: option.map_id)
qed

lemma chain_entry_next:
  assumes wf: "wf_tree st" and live: "is_live st b" and le: "\<And>e. e \<in> set (h b) \<Longrightarrow> entry_seq e \<le> hseq st b"
    and own: "h' b = h b"
    and old: "\<And>d s. is_live st d \<Longrightarrow> s \<le> hseq st d \<Longrightarrow> history_at (h' d) s = history_at (h d) s"
  shows "chain (par st) (own_entry h') b (Suc (hseq st b)) = chain (par st) (own_entry h) b (hseq st b)"
proof -
  have "find (\<lambda>e. entry_seq e \<le> Suc (hseq st b)) xs = find (\<lambda>e. entry_seq e \<le> hseq st b) xs"
    if "set xs \<subseteq> set (h b)" for xs
    using that le by (induction xs) (auto simp: le_SucI)
  then have at: "history_at (h' b) (Suc (hseq st b)) = history_at (h b) (hseq st b)"
    by (simp add: history_at_def own)
  have up: "chain (par st) (own_entry h') (vbranch v) (vseq v) = chain (par st) (own_entry h) (vbranch v) (vseq v)"
    if "par st b = Some v" for v
    by (rule chain_entry_old [OF wf _ _ _ old]) (use wf_tree_parent [OF wf live that] in auto)
  show ?thesis
    unfolding chain_unfold [OF wf live] using up at by (auto simp: own_entry_def split: option.splits)
qed

lemma changed_tree:
  assumes "changed st b cs Q st1"
  shows "is_live st1 = is_live st" "par st1 = par st" "fseq st1 = fseq st" "hseq st1 = hseq st" "kids st1 = kids st"
    "edges st1 = edges st" "closed_set st1 = closed_set st" "same_tree st st1"
  using branch_views_cong [of st1 st] assms by (simp_all add: changed_def same_tree_def)

lemma changedD:
  assumes "changed st b cs Q st1"
  shows "d \<noteq> b \<or> k \<notin> Q \<Longrightarrow> hist st1 k d = hist st k d \<and> dirts st1 k d = dirts st k d"
    "extends (Suc (hseq st b)) (hist st k b) (hist st1 k b)" "extends (Suc (hseq st b)) (dirts st k b) (dirts st1 k b)"
    "(\<nexists>x. Dirty k x \<in> set cs) \<Longrightarrow> dirts st1 k = dirts st k"
  using assms by (simp_all add: changed_def)

lemma changed_vcert: "changed st b cs Q st1 \<Longrightarrow> vcert st1 = vcert st"
proof -
  assume c: "changed st b cs Q st1"
  then have "own_claim st1 = own_claim st" by (intro ext) (simp add: own_claim_def changed_def)
  with changed_tree(2) [OF c] show ?thesis by (intro ext) (simp add: vcert_def vclaim_def)
qed

lemma changed_history_at:
  assumes c: "changed st b cs Q st1" and "s \<le> hseq st d"
  shows "history_at (hist st1 k d) s = history_at (hist st k d) s" "history_at (dirts st1 k d) s = history_at (dirts st k d) s"
proof (atomize (full), cases "d = b")
  case True
  have e: "extends (Suc (hseq st b)) (hist st k b) (hist st1 k b)" "extends (Suc (hseq st b)) (dirts st k b) (dirts st1 k b)"
    using c by (simp_all add: changed_def)
  have "s < Suc (hseq st b)" using assms(2) True by simp
  from extends_at [OF e(1) this] extends_at [OF e(2) this] True
  show "history_at (hist st1 k d) s = history_at (hist st k d) s \<and> history_at (dirts st1 k d) s = history_at (dirts st k d) s"
    by simp
next
  case False
  with c show "history_at (hist st1 k d) s = history_at (hist st k d) s \<and> history_at (dirts st1 k d) s = history_at (dirts st k d) s"
    by (simp add: changed_def)
qed

lemma no_slots_vcert: "map_of (slots st) k = None \<Longrightarrow> vcert st k d s = None"
proof (cases "vclaim st k d s")
  case (Some v)
  assume "map_of (slots st) k = None"
  with Some vclaim_claim_at [of st k d s "fst v" "snd v"] show ?thesis by (simp add: claim_at_def slot_of_def)
qed (simp add: vcert_def)

lemma not_asserted_ventry:
  "\<not> is_asserted st k \<Longrightarrow> ventry st k d s = None"
proof (induction d arbitrary: s rule: less_induct)
  case (less d)
  then have "own_entry (hist st k) d s = None" by (simp add: own_entry_def hist_def is_asserted_def)
  with less show ?case by (auto simp: ventry_def chain.simps [of "par st" _ d s] split: option.split)
qed

text \<open>The whole step, from the state before the changes to the state with the new head.\<close>

definition committed ::
  "('p, 'd, 'a) env \<Rightarrow> ('p, 'd, 'a) core_state \<Rightarrow> branch_id \<Rightarrow> 'd change list \<Rightarrow> key set \<Rightarrow> ('p, 'd, 'a) core_state \<Rightarrow> bool" where
  "committed E st b cs V st' \<longleftrightarrow> (\<exists>Q st1. changed st b cs Q st1 \<and> advanced st1 b V st' \<and> Q \<subseteq> V)"

lemma committed_tree:
  assumes "committed E st b cs V st'"
  shows "is_live st' = is_live st" "par st' = par st" "fseq st' = fseq st" "kids st' = kids st"
    "hseq st' = (hseq st)(b := Suc (hseq st b))" "length (branches st') = length (branches st)"
    "\<And>k. is_asserted st k \<Longrightarrow> is_asserted st' k" "all_certs st' \<subseteq> all_certs st"
proof -
  obtain Q st1 where c: "changed st b cs Q st1" "advanced st1 b V st'" using assms by (auto simp: committed_def)
  have "all_certs st1 = all_certs st" using c(1) by (simp add: changed_def all_certs_def)
  with c changed_tree [OF c(1)] show "is_live st' = is_live st" "par st' = par st" "fseq st' = fseq st"
    "kids st' = kids st" "hseq st' = (hseq st)(b := Suc (hseq st b))" "length (branches st') = length (branches st)"
    "\<And>k. is_asserted st k \<Longrightarrow> is_asserted st' k" "all_certs st' \<subseteq> all_certs st"
    by (auto simp: advanced_def changed_def)
qed

lemma committed_old:
  assumes cm: "committed E st b cs V st'" and wf: "wf_core st"
    and d: "is_live st d" "fseq st d \<le> s" "s \<le> hseq st d"
  shows "vcert st' k d s = vcert st k d s" "rev_at st' k d s = rev_at st k d s" "eps_at st' k d s = eps_at st k d s"
    "ventry st' k d s = ventry st k d s"
proof -
  obtain Q st1 where c: "changed st b cs Q st1" "advanced st1 b V st'" using cm by (auto simp: committed_def)
  note t = changed_tree [OF c(1)] and wft = wf_coreD(1) [OF wf]
  have sv: "par st' = par st" "hist st' = hist st1" "dirts st' = dirts st1" "is_asserted st' = is_asserted st1"
    using c(2) t by (simp_all add: advanced_def)
  show vc: "vcert st' k d s = vcert st k d s"
    using c(2) d changed_vcert [OF c(1)] by (simp add: advanced_def t)
  show ve: "ventry st' k d s = ventry st k d s"
    unfolding ventry_def sv by (rule chain_entry_old [OF wft d]) (simp add: changed_history_at [OF c(1)])
  have vd: "vdirt st' k d s = vdirt st k d s"
    unfolding vdirt_def sv by (rule chain_entry_old [OF wft d]) (simp add: changed_history_at [OF c(1)])
  show "eps_at st' k d s = eps_at st k d s" by (simp add: eps_at_def vd)
  show "rev_at st' k d s = rev_at st k d s"
  proof (cases "is_asserted st' k = is_asserted st k")
    case True
    then show ?thesis by (simp add: rev_at_def ve vc)
  next
    case False
    with c(1) sv have "is_asserted st' k" "\<not> is_asserted st k" "map_of (slots st) k = None" by (auto simp: changed_def)
    then show ?thesis using no_slots_vcert [of st k d s] ve not_asserted_ventry [of st k d s] by (simp add: rev_at_def)
  qed
qed

lemma committed_head_entries:
  assumes cm: "committed E st b cs V st'" and wf: "wf_core st" and live: "is_live st b"
  shows "(\<nexists>x. Dirty k x \<in> set cs) \<or> k \<notin> V \<Longrightarrow> eps_at st' k b (Suc (hseq st b)) = eps_at st k b (hseq st b)"
    and "(\<nexists>r x. Assert k r x \<in> set cs) \<or> k \<notin> V \<Longrightarrow> is_asserted st' k = is_asserted st k
      \<and> ventry st' k b (Suc (hseq st b)) = ventry st k b (hseq st b)"
    and "Assert k r x \<in> set cs \<Longrightarrow> is_asserted st' k \<and> rev_at st' k b (Suc (hseq st b)) = Some r"
proof -
  obtain Q st1 where c: "changed st b cs Q st1" "advanced st1 b V st'" "Q \<subseteq> V" using cm by (auto simp: committed_def)
  note t = changed_tree [OF c(1)] and wft = wf_coreD(1) [OF wf]
  have sv: "par st' = par st" "hist st' = hist st1" "dirts st' = dirts st1" "is_asserted st' = is_asserted st1"
    using c(2) t by (simp_all add: advanced_def)
  have le: "\<And>e. e \<in> set (hist st k b) \<Longrightarrow> entry_seq e \<le> hseq st b" "\<And>e. e \<in> set (dirts st k b) \<Longrightarrow> entry_seq e \<le> hseq st b" for k
    using wf live by (auto simp: wf_core_def wf_hists_def hist_ok_def)
  have vd: "vdirt st' k b (Suc (hseq st b)) = vdirt st k b (hseq st b)" if "dirts st1 k b = dirts st k b" for k
    unfolding vdirt_def sv
    by (rule chain_entry_next [OF wft live]) (use le(2) that in \<open>auto simp: changed_history_at [OF c(1)]\<close>)
  have ve: "ventry st' k b (Suc (hseq st b)) = ventry st k b (hseq st b)" if "hist st1 k b = hist st k b" for k
    unfolding ventry_def sv
    by (rule chain_entry_next [OF wft live]) (use le(1) that in \<open>auto simp: changed_history_at [OF c(1)]\<close>)
  show "eps_at st' k b (Suc (hseq st b)) = eps_at st k b (hseq st b)" if "(\<nexists>x. Dirty k x \<in> set cs) \<or> k \<notin> V"
  proof -
    have "dirts st1 k b = dirts st k b"
      using that changedD(1) [OF c(1), of b k] changedD(4) [OF c(1), of k] c(3) by auto
    from vd [OF this] show ?thesis by (simp add: eps_at_def)
  qed
  show "is_asserted st' k = is_asserted st k \<and> ventry st' k b (Suc (hseq st b)) = ventry st k b (hseq st b)"
    if "(\<nexists>r x. Assert k r x \<in> set cs) \<or> k \<notin> V"
    using that ve [of k] c(1,3) sv(4) unfolding changed_def by (metis subsetD)
  show "is_asserted st' k \<and> rev_at st' k b (Suc (hseq st b)) = Some r" if "Assert k r x \<in> set cs"
  proof -
    have as: "is_asserted st' k" and "(\<exists>e. hist st1 k b = hist st k b @ [e] \<and> entry_revision e = r \<and> entry_seq e = Suc (hseq st b))
       \<or> hist st1 k = hist st k \<and> map_option (entry_revision \<circ> snd) (ventry st k b (hseq st b)) = Some r"
      using c(1) that unfolding changed_def sv by blast+
    then show ?thesis
    proof (elim disjE exE conjE)
      fix e assume e: "hist st1 k b = hist st k b @ [e]" "entry_revision e = r" "entry_seq e = Suc (hseq st b)"
      have "ventry st' k b (Suc (hseq st b)) = Some (b, e)"
        by (simp add: ventry_def sv chain_own own_entry_def e(1) history_at_append e(3))
      with as e(2) show ?thesis by (simp add: rev_at_def)
    qed (use as ve [of k] in \<open>simp add: rev_at_def\<close>)
  qed
qed


lemma committed_head_vcert:
  assumes cm: "committed E st b cs V st'" and as: "\<not> is_asserted st' k"
  shows "vcert st' k b (Suc (hseq st b)) = (if k \<in> V then None else vcert st k b (hseq st b))"
proof -
  obtain Q st1 where c: "changed st b cs Q st1" "advanced st1 b V st'" using cm by (auto simp: committed_def)
  then show ?thesis using as changed_tree(4) [OF c(1)] changed_vcert [OF c(1)] by (simp add: advanced_def)
qed

lemma asserted_vcert: "wf_store st \<Longrightarrow> is_asserted st k \<Longrightarrow> vcert st k d s = None"
  by (rule no_slots_vcert) (rule wf_store_disjoint)

lemma committed_wf:
  assumes cm: "committed E st b cs V st'" and wf: "wf_core st" and live: "is_live st b" and top: "Suc (hseq st b) \<le> u32_max"
  shows "wf_core st'"
proof -
  obtain Q st1 where c: "changed st b cs Q st1" "advanced st1 b V st'" using cm by (auto simp: committed_def)
  note t = committed_tree [OF cm]
  have sv: "hist st' = hist st1" "dirts st' = dirts st1" using c(2) by (simp_all add: advanced_def)
  have ext: "hist_ok (fseq st d) (hseq st' d) h'"
    if d: "is_live st d" and ok: "hist_ok (fseq st d) (hseq st d) h"
      and x: "d \<noteq> b \<and> h' = h \<or> d = b \<and> extends (Suc (hseq st b)) h h'" for d and h h' :: "('x, 'd) history"
  proof (cases "h' = h")
    case True
    with ok show ?thesis by (fastforce simp: t(5) hist_ok_def)
  next
    case False
    with x obtain e where "d = b" "entry_seq e = Suc (hseq st b)" "h' = h @ [e]" by (auto simp: extends_def)
    with ok wf_tree_seqs [OF wf_coreD(1) [OF wf] live] show ?thesis
      by (fastforce simp: t(5) hist_ok_def sorted_history_append)
  qed
  have "wf_hists st'"
    unfolding wf_hists_def t(1,3) sv
  proof (intro allI impI conjI)
    fix k d assume d: "is_live st d"
    have ok: "hist_ok (fseq st d) (hseq st d) (dirts st k d)" "hist_ok (fseq st d) (hseq st d) (hist st k d)"
      using wf d by (simp_all add: wf_core_def wf_hists_def)
    show "hist_ok (fseq st d) (hseq st' d) (dirts st1 k d)"
      by (rule ext [OF d ok(1)]) (use changedD(1) [OF c(1), of d k] changedD(3) [OF c(1), of k] in auto)
    show "hist_ok (fseq st d) (hseq st' d) (hist st1 k d)"
      by (rule ext [OF d ok(2)]) (use changedD(1) [OF c(1), of d k] changedD(2) [OF c(1), of k] in auto)
  qed
  moreover have "bounded_ids st'" using wf_coreD(6) [OF wf] top by (simp add: bounded_ids_def t)
  ultimately show ?thesis using c(2) by (simp add: wf_core_def advanced_def)
qed

lemma committed_supported_head:
  assumes cm: "committed E st b cs V st'" and inv: "core_inv E st" and live: "is_live st b" and wf': "wf_core st'"
  shows "supported_at E st' b"
proof -
  have wf: "wf_core st" and sup: "supported_at E st b" using inv live by (auto simp: core_inv_def)
  note t = committed_tree [OF cm] and old = committed_old [OF cm wf live] and he = committed_head_entries [OF cm wf live]
  obtain Q st1 where c: "changed st b cs Q st1" "advanced st1 b V st'" using cm by (auto simp: committed_def)
  have edges: "x \<in> V \<Longrightarrow> set (edges st b x) \<subseteq> V"
    "x \<notin> V \<Longrightarrow> k \<notin> V \<Longrightarrow> k \<in> set (edges st b x) \<Longrightarrow> k \<in> set (edges st' b x)" for x k
    using c(2) changed_tree(6) [OF c(1)] by (simp_all add: advanced_def)
  note fh = wf_tree_seqs [OF wf_coreD(1) [OF wf] live]
  have att: "k \<notin> V \<and> vcert st k b (hseq st b) = Some c" if "vcert st' k b (Suc (hseq st b)) = Some c" for k c
  proof -
    have "\<not> is_asserted st' k" using that asserted_vcert [OF wf_coreD(4) [OF wf'], of k b "Suc (hseq st b)"] by auto
    from committed_head_vcert [OF cm this] that show ?thesis by (auto split: if_splits)
  qed
  have prem: "premise_key p \<notin> V" if "k \<notin> V" "vcert st k b (hseq st b) = Some c" "p \<in> set (cert_premises E c)" for k c p
    using supported_edges [OF sup that(2,3)] edges(1) [of "premise_key p"] that(1) by blast
  have new_rev: "rev_at st' k b (Suc (hseq st b)) = rev_at st k b (hseq st b)" if "k \<notin> V" for k
    using he(2) [of k] that committed_head_vcert [OF cm, of k] by (auto simp: rev_at_def)
  have new_cert: "vcert st' k b (Suc (hseq st b)) = Some c" if "k \<notin> V" "vcert st k b (hseq st b) = Some c" for k c
  proof -
    have "\<not> is_asserted st k" using that(2) asserted_vcert [OF wf_coreD(4) [OF wf], of k b "hseq st b"] by auto
    with he(2) [of k] that(1) have "\<not> is_asserted st' k" by simp
    from committed_head_vcert [OF cm this] that show ?thesis by simp
  qed
  show ?thesis
    unfolding supported_at_def t(3,5) fun_upd_same
  proof (intro allI impI conjI)
    fix k c assume "vcert st' k b (Suc (hseq st b)) = Some c"
    from att [OF this] have k: "k \<notin> V" "vcert st k b (hseq st b) = Some c" by auto
    note pr = prem [OF k]
    show "\<forall>p\<in>set (cert_premises E c). k \<in> set (edges st' b (premise_key p))"
      using supported_edges [OF sup k(2)] pr edges(2) k(1) by blast
    show "grounded E st' b (Suc (hseq st b)) k"
      by (rule grounded_transfer [OF supported_grounded [OF sup k(2)], of "\<lambda>k. k \<notin> V"])
        (use k(1) new_cert prem t(7) in auto)
    fix s assume s: "fseq st b \<le> s" "s \<le> Suc (hseq st b)" "vcert st' k b s \<noteq> None"
    have key: "cert_key c = k"
      using vcert_key [OF wf_coreD(2) [OF wf] k(2)] by simp
    show "holds E st' c b s"
    proof (cases "s = Suc (hseq st b)")
      case True
      have "holds E st c b (hseq st b)" using supported_holds [OF sup k(2) fh order_refl] k(2) by simp
      with True key k(1) he(1) [of k] new_rev pr show ?thesis by (simp add: holds_def)
    next
      case False
      with s have "s \<le> hseq st b" by simp
      with supported_holds [OF sup k(2) s(1)] s old [OF s(1)] show ?thesis by (simp add: holds_def)
    qed
  qed
qed

lemma committed_inv:
  assumes cm: "committed E st b cs V st'" and inv: "core_inv E st" and live: "is_live st b" and top: "Suc (hseq st b) \<le> u32_max"
  shows "core_inv E st'"
proof -
  have wf: "wf_core st" using inv by (simp add: core_inv_def)
  note t = committed_tree [OF cm]
  have wf': "wf_core st'" by (rule committed_wf [OF cm wf live top])
  have "supported_at E st' d" if d: "is_live st d" "d \<noteq> b" for d
  proof (rule supported_same_answers)
    show "same_answers st st' d" using committed_old [OF cm wf d(1)] t d by (simp add: same_answers_def)
    show "supported_at E st d" using inv d by (simp add: core_inv_def)
    show "fseq st d \<le> hseq st d" using wf_tree_seqs [OF wf_coreD(1) [OF wf] d(1)] .
    obtain Q st1 where c: "changed st b cs Q st1" "advanced st1 b V st'" using cm by (auto simp: committed_def)
    show "set (edges st d x) \<subseteq> set (edges st' d x)" for x
      using c(2) d changed_tree(6) [OF c(1)] by (simp add: advanced_def)
  qed
  with committed_supported_head [OF cm inv live wf'] wf' t(1) show ?thesis by (auto simp: core_inv_def)
qed

text \<open>A commit that changes nothing leaves the state as it was; any other adds a version.\<close>

lemma apply_changes_queue:
  "apply_changes st nxt b v n seen queue cs = Some (st', nxt', queue') \<Longrightarrow> queue \<noteq> [] \<Longrightarrow> queue' \<noteq> []"
  by (induction cs arbitrary: st nxt seen queue) (auto simp: bind_eq_Some_conv split: if_splits)

lemma apply_change_noop:
  "apply_change st nxt b v n c = Some (st', nxt', False) \<Longrightarrow> st' = st \<and> nxt' = nxt \<and> (\<nexists>k d. c = Dirty k d)"
  by (auto simp: apply_change_def bind_eq_Some_conv Let_def split: change.splits if_splits)

lemma apply_changes_noop:
  "apply_changes st nxt b v n seen [] cs = Some (st', nxt', []) \<Longrightarrow> st' = st \<and> nxt' = nxt \<and> (\<nexists>k d. Dirty k d \<in> set cs)"
proof (induction cs arbitrary: st nxt seen)
  case (Cons c cs)
  obtain st1 nxt1 e where c: "apply_change st nxt b v n c = Some (st1, nxt1, e)"
    "apply_changes st1 nxt1 b v n (List.insert (change_key c) seen) (if e then [change_key c] else []) cs = Some (st', nxt', [])"
    using Cons.prems by (auto simp: bind_eq_Some_conv split: if_splits)
  have "\<not> e" using apply_changes_queue [OF c(2)] by auto
  with c Cons.IH [of st1 nxt1] apply_change_noop [of st nxt b v n c st1 nxt1] show ?case by auto
qed simp

lemma commit_correct:
  assumes cm: "commit E st nxt b cs = Some (st', nxt', v)" and inv: "core_inv E st"
  shows "is_live st b \<and> (v = Version b (hseq st b) \<and> st' = st \<and> (\<nexists>k d. Dirty k d \<in> set cs)
    \<or> v = Version b (Suc (hseq st b)) \<and> Suc (hseq st b) \<le> u32_max \<and> (\<exists>V. committed E st b cs V st'))"
proof -
  obtain br where br: "branch_of st b = Some br" using cm by (auto simp: commit_def head_of_def bind_eq_Some_conv)
  then have live: "is_live st b" and h: "br_head br = hseq st b" by (simp_all add: is_live_branch_of hseq_def)
  have wf: "wf_core st" using inv by (simp add: core_inv_def)
  obtain st1 queue where ac: "apply_changes st nxt b (Version b (hseq st b)) (Suc (hseq st b)) [] [] cs = Some (st1, nxt', queue)"
    and top: "Suc (hseq st b) \<le> u32_max"
    and rest: "(if queue = [] then Some st1
             else close_dependents E st1 b (Suc (hseq st b)) queue
               \<bind> (\<lambda>st'. branch_mut st' b (\<lambda>br. Some (br\<lparr>br_head := Suc (hseq st b)\<rparr>)))) = Some st'"
    and v: "head_of st' b = Some v"
    using cm br h by (auto simp: commit_def head_of_def seq_next_def bind_eq_Some_conv split: if_splits)
  show ?thesis
  proof (cases "queue = []")
    case True
    with apply_changes_noop [of st nxt b "Version b (hseq st b)" "Suc (hseq st b)" "[]" cs st1 nxt'] ac rest
    have "st' = st" "\<nexists>k d. Dirty k d \<in> set cs" by auto
    with v br h live show ?thesis by (simp add: head_of_def)
  next
    case False
    have ch: "changed st b cs (set queue) st1"
      by (rule apply_changes_changed [OF ac wf_coreD(1) [OF wf] wf_coreD(4) [OF wf] live])
    note t = changed_tree [OF ch]
    have wf1: "wf_tree st1" "wf_claims st1" "wf_store st1" "closed_exact st1"
      using same_tree_wf [OF t(8)] wf ch
      by (auto simp: wf_core_def changed_def wf_claims_def closed_exact_def window_ok_in t)
    obtain st2 st3 V where "close_dependents E st1 b (Suc (hseq st1 b)) queue = Some st2"
      "branch_mut st2 b (\<lambda>br. Some (br\<lparr>br_head := Suc (hseq st1 b)\<rparr>)) = Some st3"
      "advanced st1 b V st3" "set queue \<subseteq> V"
      using close_dependents_correct [OF wf1, of b E queue] live t(1) by auto
    with rest False t(4) ch have "committed E st b cs V st'" by (auto simp: committed_def)
    moreover from committed_tree [OF this] live v have "v = Version b (Suc (hseq st b))"
      by (auto simp: head_of_def is_live_branch_of hseq_def fun_eq_iff split: if_splits option.splits)
    ultimately show ?thesis using live top by auto
  qed
qed


subsection \<open>When a commit returns\<close>

text \<open>The changes the asserts of \<^verbatim>\<open>commit\<close> accept: at most one per key, assertions of keys that
  have no slot, dirties of keys that are not asserted.\<close>

definition acceptable :: "('p, 'd, 'a) core_state \<Rightarrow> 'd change \<Rightarrow> bool" where
  "acceptable st c = (case c of Assert k _ _ \<Rightarrow> map_of (slots st) k = None | Dirty k _ \<Rightarrow> \<not> is_asserted st k)"

definition valid_changes :: "('p, 'd, 'a) core_state \<Rightarrow> 'd change list \<Rightarrow> bool" where
  "valid_changes st cs \<longleftrightarrow> distinct (map change_key cs) \<and> (\<forall>c\<in>set cs. acceptable st c)"

lemma acceptable_cong: "key_view st' (change_key c) = key_view st (change_key c) \<Longrightarrow> acceptable st' c = acceptable st c"
  by (cases c) (auto simp: acceptable_def key_view_eq)

lemma apply_change_total:
  assumes wf: "wf_tree st" and live: "is_live st b" and ok: "acceptable st c" and nxt: "0 < nxt" "nxt < u64_max"
    and le: "\<And>e. e \<in> set (hist st (change_key c) b) \<Longrightarrow> entry_seq e \<le> head"
      "\<And>e. e \<in> set (dirts st (change_key c) b) \<Longrightarrow> entry_seq e \<le> head"
  shows "\<exists>st' nxt' eff. apply_change st nxt b (Version b head) (Suc head) c = Some (st', nxt', eff)
    \<and> 0 < nxt' \<and> nxt' \<le> Suc nxt"
proof (cases c)
  case (Assert k r d)
  obtain x where "resolve st k (Version b head) = Some x" using resolve_revision [OF wf live] by blast
  moreover have "\<exists>st'. assertion_history_mut st k b (\<lambda>h. history_push h \<lparr>entry_seq = Suc head, entry_revision = r, entry_data = d\<rparr>) = Some st'"
    by (rule assertion_history_mut_total) (use le Assert in \<open>simp add: history_push_total less_Suc_eq_le\<close>)
  ultimately show ?thesis using Assert ok nxt by (auto simp: apply_change_def acceptable_def)
next
  case (Dirty k d)
  obtain slot where slot: "slot_of (slot_or_insert st k b) k b = Some slot"
    by (cases "slot_of st k b") (auto simp: slot_of_slot_or_insert)
  have "history_push (slot_untracked slot) \<lparr>entry_seq = Suc head, entry_revision = nxt, entry_data = d\<rparr> \<noteq> None"
    using le(2) Dirty slot_of_set_untracked_insert [OF slot] by (simp add: history_push_total less_Suc_eq_le)
  with Dirty ok nxt slot show ?thesis by (auto simp: apply_change_def acceptable_def mint_def Let_def)
qed

lemma apply_changes_total:
  assumes "wf_tree st" "wf_store st" "is_live st b" "valid_changes st cs" "0 < nxt" "nxt + length cs \<le> u64_max"
    and "change_key ` set cs \<inter> set seen = {}"
    and "\<And>k e. k \<in> change_key ` set cs \<Longrightarrow> e \<in> set (hist st k b) \<Longrightarrow> entry_seq e \<le> head"
    and "\<And>k e. k \<in> change_key ` set cs \<Longrightarrow> e \<in> set (dirts st k b) \<Longrightarrow> entry_seq e \<le> head"
  shows "\<exists>r. apply_changes st nxt b (Version b head) (Suc head) seen queue cs = Some r"
  using assms
proof (induction cs arbitrary: st nxt seen queue)
  case (Cons c cs)
  obtain st1 nxt1 e where ac: "apply_change st nxt b (Version b head) (Suc head) c = Some (st1, nxt1, e)"
    "0 < nxt1" "nxt1 \<le> Suc nxt"
    using apply_change_total [OF Cons.prems(1,3) _ Cons.prems(5), of c head]
      Cons.prems(8) [of "change_key c"] Cons.prems(9) [of "change_key c"] Cons.prems(4,6)
    by (auto simp: valid_changes_def)
  note c = apply_change_correct [OF ac(1) Cons.prems(1-3)]
  have tree: "wf_tree st1" "is_live st1 b"
    using Cons.prems(1,3) branch_views_cong [OF c(1)] c(1) by (auto intro: same_tree_wf [of st] simp: same_tree_def)
  have notin: "change_key c \<notin> change_key ` set cs" using Cons.prems(4) by (simp add: valid_changes_def)
  then have ne: "x \<in> set cs \<Longrightarrow> change_key x \<noteq> change_key c" for x by (metis image_eqI)
  have same: "key_view st1 k = key_view st k" if "k \<in> change_key ` set cs" for k
    using that c(4) [of k] ne by auto
  have "valid_changes st1 cs"
    using Cons.prems(4) ne acceptable_cong [OF c(4)] by (auto simp: valid_changes_def)
  then have "\<exists>r. apply_changes st1 nxt1 b (Version b head) (Suc head) (List.insert (change_key c) seen)
      (if e then queue @ [change_key c] else queue) cs = Some r"
  proof (intro Cons.IH [OF tree(1) c(2) tree(2)])
    show "change_key ` set cs \<inter> set (List.insert (change_key c) seen) = {}"
      using Cons.prems(7) notin by auto
    show "entry_seq x \<le> head" if "k \<in> change_key ` set cs" "x \<in> set (hist st1 k b)" for k x
      using Cons.prems(8) [of k x] same [OF that(1)] that by (simp add: key_view_eq)
    show "entry_seq x \<le> head" if "k \<in> change_key ` set cs" "x \<in> set (dirts st1 k b)" for k x
      using Cons.prems(9) [of k x] same [OF that(1)] that by (simp add: key_view_eq)
  qed (use ac(2,3) Cons.prems(6) in auto)
  with ac Cons.prems(7) show ?case by auto
qed simp

lemma commit_total:
  assumes inv: "core_inv E st" and live: "is_live st b" and top: "hseq st b < u32_max"
    and ok: "valid_changes st cs" and nxt: "0 < nxt" "nxt + length cs \<le> u64_max"
  shows "\<exists>st' nxt' v. commit E st nxt b cs = Some (st', nxt', v)"
proof -
  have wf: "wf_core st" using inv by (simp add: core_inv_def)
  obtain br where br: "branch_of st b = Some br" "br_head br = hseq st b"
    using is_live_Some [OF live] by (auto simp: hseq_def)
  obtain st1 nxt' queue where ac: "apply_changes st nxt b (Version b (hseq st b)) (Suc (hseq st b)) [] [] cs = Some (st1, nxt', queue)"
    using apply_changes_total [OF wf_coreD(1) [OF wf] wf_coreD(4) [OF wf] live ok nxt, of "[]" "hseq st b" "[]"] wf live
    by (auto simp: wf_core_def wf_hists_def hist_ok_def)
  have ch: "changed st b cs (set queue) st1"
    by (rule apply_changes_changed [OF ac wf_coreD(1) [OF wf] wf_coreD(4) [OF wf] live])
  note t = changed_tree [OF ch]
  have wf1: "wf_tree st1" "wf_claims st1" "wf_store st1" "closed_exact st1"
    using same_tree_wf [OF t(8)] wf ch
    by (auto simp: wf_core_def changed_def wf_claims_def closed_exact_def window_ok_in t)
  have live1: "is_live st1 b" using live t(1) by simp
  obtain st2 st3 V where cd: "close_dependents E st1 b (Suc (hseq st b)) queue = Some st2"
    "branch_mut st2 b (\<lambda>br. Some (br\<lparr>br_head := Suc (hseq st b)\<rparr>)) = Some st3" "advanced st1 b V st3"
    using close_dependents_correct [OF wf1 live1, of E queue] t(4) by auto
  have "head_of st1 b \<noteq> None" "head_of st3 b \<noteq> None"
    using live1 cd(3) by (auto simp: head_of_def is_live_branch_of advanced_def fun_eq_iff)
  with br top ac cd show ?thesis
    by (auto simp: commit_def head_of_def seq_next_def)
qed

end
