(* ===== verification/Dice_Fork.thy ===== *)
theory Dice_Fork
  imports Dice_Commit
begin

text \<open>
  Making branches: \<^verbatim>\<open>fork\<close> of \<^verbatim>\<open>dice/dice_core/src/fork.rs\<close>, and \<^verbatim>\<open>new_root\<close> of
  \<^verbatim>\<open>state.rs\<close>. A fork attaches, at the new branch, what still holds at the version forked from.
  Claims that are open there hold by Invariant 2; for the closed ones the code counts unsupported
  premises and propagates support in a worklist. The worklist ends, never subtracts from 0, and
  computes the least set of claims whose derivations are supported (\<open>support_loop_correct\<close>); the
  others are shadowed, and the invariants hold at the new branch (\<open>fork_correct\<close>).
\<close>

section \<open>fork.rs\<close>

definition fork_candidates :: "branch \<Rightarrow> key_set" where
  "fork_candidates br =
     foldl (\<lambda>cs k. List.insert k cs)
       (foldl (\<lambda>cs (_, dependents). foldl (\<lambda>cs k. List.insert k cs) cs dependents) [] (br_rdeps br))
       (br_closed_index br)"

text \<open>The partition of the candidates: certificates attached as they stand, and the undecided
  claims, those that resolve through a closed window of \<open>b\<close>'s own.\<close>

fun partition_candidates ::
  "('p, 'd, 'a) core_state \<Rightarrow> branch_id \<Rightarrow> version \<Rightarrow> key list \<Rightarrow> 'p cert list \<Rightarrow> ('p, 'a) claim key_map
   \<Rightarrow> ('p cert list \<times> ('p, 'a) claim key_map) option" where
  "partition_candidates st b from [] att undecided = Some (att, undecided)"
| "partition_candidates st b from (key # rest) att undecided = do {
     r \<leftarrow> resolve st key from;
     (case r of
        RClaim owner claim \<Rightarrow>
          if owner = b \<and> \<not> is_open (claim_window claim)
          then partition_candidates st b from rest att (AList.update key claim undecided)
          else partition_candidates st b from rest (att @ [claim_cert claim]) undecided
      | RAsserted _ _ \<Rightarrow> partition_candidates st b from rest att undecided
      | RUnknown _ \<Rightarrow> partition_candidates st b from rest att undecided) }"

type_synonym waiters = "key list key_map"

definition waiters_of :: "waiters \<Rightarrow> key \<Rightarrow> key list" where
  "waiters_of ws key = (case map_of ws key of None \<Rightarrow> [] | Some w \<Rightarrow> w)"

text \<open>The inner loop over one undecided claim's premises: how many undecided premises it waits
  for, with the waiters registered; \<^const>\<open>None\<close> in the first component is an unsupported claim.\<close>

fun count_waits ::
  "('p, 'd, 'a) core_state \<Rightarrow> version \<Rightarrow> ('p, 'a) claim key_map \<Rightarrow> key \<Rightarrow> premise list \<Rightarrow> nat \<Rightarrow> waiters
   \<Rightarrow> (nat option \<times> waiters) option" where
  "count_waits st from undecided key [] waits ws = Some (Some waits, ws)"
| "count_waits st from undecided key (premise # rest) waits ws = do {
     r \<leftarrow> resolve st (premise_key premise) from;
     if resolved_revision r \<noteq> Some (premise_revision premise) then Some (None, ws)
     else if map_of undecided (premise_key premise) \<noteq> None
     then count_waits st from undecided key rest (waits + 1)
            (AList.update (premise_key premise) (waiters_of ws (premise_key premise) @ [key]) ws)
     else count_waits st from undecided key rest waits ws }"

fun scan_undecided ::
  "('p, 'd, 'a) env \<Rightarrow> ('p, 'd, 'a) core_state \<Rightarrow> version \<Rightarrow> ('p, 'a) claim key_map
   \<Rightarrow> (key \<times> ('p, 'a) claim) list \<Rightarrow> nat key_map \<Rightarrow> waiters \<Rightarrow> key list
   \<Rightarrow> (nat key_map \<times> waiters \<times> key list) option" where
  "scan_undecided E st from undecided [] pending ws ready = Some (pending, ws, ready)"
| "scan_undecided E st from undecided ((key, claim) # rest) pending ws ready = do {
     eps \<leftarrow> epsilon st key from;
     if eps \<noteq> cert_epsilon (claim_cert claim)
     then scan_undecided E st from undecided rest pending ws ready
     else do {
       (waits, ws') \<leftarrow> count_waits st from undecided key (cert_premises E (claim_cert claim)) 0 ws;
       (case waits of
          None \<Rightarrow> scan_undecided E st from undecided rest pending ws' ready
        | Some n \<Rightarrow>
            if n = 0 then scan_undecided E st from undecided rest pending ws' (ready @ [key])
            else scan_undecided E st from undecided rest (AList.update key n pending) ws' ready) } }"

text \<open>The loop over the waiters of a supported key. A count of 0 has nothing left to subtract: the
  checked subtraction panics.\<close>

fun notify ::
  "key list \<Rightarrow> nat key_map \<Rightarrow> key list \<Rightarrow> (nat key_map \<times> key list) option" where
  "notify [] pending ready = Some (pending, ready)"
| "notify (waiter # rest) pending ready =
     (case map_of pending waiter of
        None \<Rightarrow> notify rest pending ready
      | Some waits \<Rightarrow>
          if waits = 0 then None
          else notify rest (AList.update waiter (waits - 1) pending)
                 (if waits - 1 = 0 then ready @ [waiter] else ready))"

text \<open>The worklist; \<^verbatim>\<open>ready.pop()\<close> takes the last element.\<close>

partial_function (option) support_loop ::
  "waiters \<Rightarrow> nat key_map \<Rightarrow> key list \<Rightarrow> key_set \<Rightarrow> key_set option" where
  "support_loop ws pending ready supported =
     (if ready = [] then Some supported
      else do {
        (pending', ready') \<leftarrow> notify (waiters_of ws (last ready)) pending (butlast ready);
        support_loop ws pending' ready' (List.insert (last ready) supported) })"

declare support_loop.simps [code]

fun settle_undecided ::
  "('p, 'd, 'a) core_state \<Rightarrow> branch_id \<Rightarrow> seq \<Rightarrow> key_set \<Rightarrow> (key \<times> ('p, 'a) claim) list \<Rightarrow> 'p cert list
   \<Rightarrow> (('p, 'd, 'a) core_state \<times> 'p cert list) option" where
  "settle_undecided st child first supported [] att = Some (st, att)"
| "settle_undecided st child first supported ((key, claim) # rest) att =
     (if key \<in> set supported
      then settle_undecided st child first supported rest (att @ [claim_cert claim])
      else do {
        st' \<leftarrow> set_claim st key child (Some
          \<lparr>claim_cert = claim_cert claim, claim_window = window_empty first,
           claim_attribute = claim_attribute claim\<rparr>);
        settle_undecided st' child first supported rest att })"

fun register_all ::
  "('p, 'd, 'a) env \<Rightarrow> ('p, 'd, 'a) core_state \<Rightarrow> branch_id \<Rightarrow> 'p cert list
   \<Rightarrow> ('p, 'd, 'a) core_state option" where
  "register_all E st child [] = Some st"
| "register_all E st child (cert # rest) = do {
     st' \<leftarrow> register_edges E st child cert;
     register_all E st' child rest }"

definition fork ::
  "('p, 'd, 'a) env \<Rightarrow> ('p, 'd, 'a) core_state \<Rightarrow> version
   \<Rightarrow> (branch_id \<times> ('p, 'd, 'a) core_state) option" where
  "fork E st from = do {
     let b = vbranch from;
     let s = vseq from;
     parent \<leftarrow> branch_of st b;
     if \<not> (br_first parent \<le> s \<and> s \<le> br_head parent) then None
     else do {
       child \<leftarrow> branch_from_index (length (branches st));
       let st0 = st\<lparr>branches := branches st @ [Some (branch_forked from)]\<rparr>;
       st1 \<leftarrow> branch_mut st0 b (\<lambda>br. Some (br\<lparr>br_children := br_children br @ [(child, s)]\<rparr>));
       br \<leftarrow> branch_of st1 b;
       cbr \<leftarrow> branch_of st1 child;
       (att, undecided) \<leftarrow> partition_candidates st1 b from (fork_candidates br) [] [];
       (pending, ws, ready) \<leftarrow> scan_undecided E st1 from undecided undecided [] [] [];
       supported \<leftarrow> support_loop ws pending ready [];
       (st2, att') \<leftarrow> settle_undecided st1 child (br_first cbr) supported undecided att;
       st3 \<leftarrow> register_all E st2 child att';
       Some (child, st3) } }"

lemmas [op_defs] = fork_candidates_def waiters_of_def fork_def

section \<open>A new branch\<close>

text \<open>A state with one more branch, \<open>c\<close>, a child of \<open>p\<close> or a root, and with nothing on it.\<close>

definition grown :: "('p, 'd, 'a) core_state \<Rightarrow> branch_id \<Rightarrow> version option \<Rightarrow> ('p, 'd, 'a) core_state \<Rightarrow> bool" where
  "grown st c p st' \<longleftrightarrow> c = length (branches st) \<and> length (branches st') = Suc c
     \<and> is_live st' = (is_live st)(c := True) \<and> par st' = (par st)(c := p)
     \<and> fseq st' = (fseq st)(c := seq_FIRST) \<and> hseq st' = (hseq st)(c := seq_FIRST)
     \<and> (\<forall>d. kids st' d = kids st d @ (case p of None \<Rightarrow> [] | Some v \<Rightarrow> if d = vbranch v then [(c, vseq v)] else []))
     \<and> edges st' = edges st \<and> closed_set st' = closed_set st
     \<and> slots st' = slots st \<and> assertions st' = assertions st \<and> key_count st' = key_count st"

lemma branch_of_append:
  "branch_of (st\<lparr>branches := branches st @ [Some br]\<rparr>) = (branch_of st)(length (branches st) \<mapsto> br)"
  by (intro ext) (auto simp: branch_of_def nth_append)

lemma branch_of_length_None: "branch_of st (length (branches st)) = None"
  by (simp add: branch_of_def)

lemma new_root_grown:
  assumes "new_root st = Some (c, st')"
  shows "grown st c None st'" "c \<le> u32_max"
proof -
  have c: "c = length (branches st)" "c \<le> u32_max"
    and st': "st' = st\<lparr>branches := branches st @ [Some (branch_root seq_FIRST)]\<rparr>"
    using assms by (auto simp: new_root_def bind_eq_Some_conv branch_from_index_def split: if_splits)
  have b: "branch_of st' = (branch_of st)(c \<mapsto> branch_root seq_FIRST)" using branch_of_append c st' by simp
  have "branch_of st c = None" using branch_of_length_None c by simp
  with b have "is_live st' = (is_live st)(c := True) \<and> par st' = (par st)(c := None)
     \<and> fseq st' = (fseq st)(c := seq_FIRST) \<and> hseq st' = (hseq st)(c := seq_FIRST)
     \<and> kids st' = kids st \<and> edges st' = edges st \<and> closed_set st' = closed_set st"
    by (auto simp: fun_eq_iff is_live_branch_of view_defs branch_root_def rdeps_of_def)
  with c st' show "grown st c None st'" "c \<le> u32_max" by (simp_all add: grown_def)
qed

lemma fork_grown:
  assumes live: "is_live st b"
    and m: "branch_mut (st\<lparr>branches := branches st @ [Some (branch_forked (Version b s))]\<rparr>) b
      (\<lambda>br. Some (br\<lparr>br_children := br_children br @ [(length (branches st), s)]\<rparr>)) = Some st'"
  shows "grown st (length (branches st)) (Some (Version b s)) st'"
proof -
  let ?c = "length (branches st)"
  let ?st0 = "st\<lparr>branches := branches st @ [Some (branch_forked (Version b s))]\<rparr>"
  have ne: "b \<noteq> ?c" using is_live_less [OF live] by simp
  obtain br where br: "branch_of ?st0 b = Some br"
    "branch_of st' = (branch_of ?st0)(b \<mapsto> br\<lparr>br_children := br_children br @ [(?c, s)]\<rparr>)"
    and frame: "slots st' = slots ?st0" "assertions st' = assertions ?st0" "key_count st' = key_count ?st0"
      "length (branches st') = length (branches ?st0)"
    using branch_mut_Some [OF m] by auto
  note b0 = branch_of_append [of st "branch_forked (Version b s)"]
  have "branch_of st b = Some br" using br(1) b0 ne by simp
  moreover have "branch_of st ?c = None" by (rule branch_of_length_None)
  ultimately have "is_live st' = (is_live st)(?c := True) \<and> par st' = (par st)(?c := Some (Version b s))
     \<and> fseq st' = (fseq st)(?c := seq_FIRST) \<and> hseq st' = (hseq st)(?c := seq_FIRST)
     \<and> (\<forall>d. kids st' d = kids st d @ (if d = b then [(?c, s)] else []))
     \<and> edges st' = edges st \<and> closed_set st' = closed_set st"
    using br(2) ne unfolding b0
    by (auto simp: fun_eq_iff is_live_branch_of view_defs branch_root_def branch_forked_def rdeps_of_def)
  with frame show ?thesis by (simp add: grown_def)
qed

lemma grown_views:
  assumes "grown st c p st'"
  shows "claim_at st' = claim_at st" "dirts st' = dirts st" "hist st' = hist st" "is_asserted st' = is_asserted st"
    "all_certs st' = all_certs st"
  using slot_views_cong [of st' st] assertion_views_cong [of st' st] assms
  by (simp_all add: grown_def all_certs_def)

lemma grown_fresh:
  assumes "grown st c p st'" "wf_store st"
  shows "\<not> is_live st c" "claim_at st k c = None" "dirts st k c = []" "hist st k c = []"
proof -
  show dead: "\<not> is_live st c" using assms(1) by (auto simp: grown_def is_live_def)
  show "claim_at st k c = None" using dead wf_store_claim_live [OF assms(2), of k c] by (cases "claim_at st k c") auto
  show "dirts st k c = []" using dead wf_store_dirts_live [OF assms(2)] by blast
  show "hist st k c = []" using dead wf_store_hist_live [OF assms(2)] by blast
qed

lemma grown_answers:
  assumes g: "grown st c p st'" and live: "is_live st d"
  shows "vcert st' k d s = vcert st k d s" "rev_at st' k d s = rev_at st k d s" "eps_at st' k d s = eps_at st k d s"
    "ventry st' k d s = ventry st k d s"
proof -
  note v = grown_views [OF g]
  have lt: "d < c" using live g by (simp add: grown_def is_live_def)
  have par: "par st' x = par st x" if "x \<le> d" for x using that lt g by (simp add: grown_def)
  have own: "own_claim st' k = own_claim st k" by (intro ext) (simp add: own_claim_def v)
  have vc: "vclaim st' k d s = vclaim st k d s" unfolding vclaim_def by (rule chain_cong_le) (simp_all add: par own)
  have ve: "ventry st' k d s = ventry st k d s" unfolding ventry_def by (rule chain_cong_le) (simp_all add: par v)
  have vd: "vdirt st' k d s = vdirt st k d s" unfolding vdirt_def by (rule chain_cong_le) (simp_all add: par v)
  show "vcert st' k d s = vcert st k d s" "rev_at st' k d s = rev_at st k d s" "eps_at st' k d s = eps_at st k d s"
    "ventry st' k d s = ventry st k d s"
    by (simp_all add: vcert_def rev_at_def eps_at_def vc ve vd v)
qed

lemma grown_same_answers: "grown st c p st' \<Longrightarrow> is_live st d \<Longrightarrow> same_answers st st' d"
  using grown_answers [of st c p st' d] grown_views(4) [of st c p st'] grown_def [of st c p st']
  by (auto simp: same_answers_def is_live_def)

definition fork_point :: "('p, 'd, 'a) core_state \<Rightarrow> version option \<Rightarrow> bool" where
  "fork_point st p = (case p of None \<Rightarrow> True
     | Some v \<Rightarrow> is_live st (vbranch v) \<and> fseq st (vbranch v) \<le> vseq v \<and> vseq v \<le> hseq st (vbranch v))"

lemma grown_wf_tree:
  assumes g: "grown st c p st'" and wf: "wf_tree st" and fp: "fork_point st p"
  shows "wf_tree st'"
  unfolding wf_tree_def
proof (intro allI impI)
  fix d assume d: "is_live st' d"
  have c: "c = length (branches st)" "\<not> is_live st c" using g by (auto simp: grown_def is_live_def)
  have old: "is_live st x \<Longrightarrow> x < c" for x using c by (simp add: is_live_def)
  have kc: "kids st c = []" using c(2) by (simp add: kids_def is_live_branch_of split: option.split)
  have sf: "seq_FIRST \<le> seq_FIRST" by simp
  have K: "kids st' x = kids st x @ (case p of None \<Rightarrow> [] | Some v \<Rightarrow> if x = vbranch v then [(c, vseq v)] else [])" for x
    using g by (simp add: grown_def)
  have fresh: "(c, s) \<notin> set (kids st x)" if "is_live st x" for x s
    using wf_tree_kids [OF wf that] c(2) by blast
  have pne: "p = Some v \<Longrightarrow> vbranch v < c \<and> is_live st (vbranch v)" for v using fp old by (auto simp: fork_point_def)
  have kd: "distinct (kids st' d)"
  proof (cases "d = c")
    case True
    then show ?thesis using kc pne by (auto simp: K split: option.split)
  next
    case False
    then have "is_live st d" using d g by (simp add: grown_def)
    then show ?thesis using wf fresh by (auto simp: K wf_tree_def split: option.split)
  qed
  show "fseq st' d \<le> hseq st' d \<and> distinct (kids st' d)
     \<and> (\<forall>v. par st' d = Some v \<longrightarrow>
          is_live st' (vbranch v) \<and> vbranch v < d \<and> fseq st' (vbranch v) \<le> vseq v
          \<and> vseq v \<le> hseq st' (vbranch v) \<and> (d, vseq v) \<in> set (kids st' (vbranch v)))
     \<and> (\<forall>x s. (x, s) \<in> set (kids st' d) \<longrightarrow> is_live st' x \<and> par st' x = Some (Version d s))"
  proof (cases "d = c")
    case True
    have no: "kids st' c = []" using kc pne by (auto simp: K split: option.split)
    show ?thesis
      using g True no pne fp by (auto simp: grown_def fork_point_def K)
  next
    case False
    then have dl: "is_live st d" using d g by (simp add: grown_def)
    have par: "par st' d = par st d" using g False by (simp add: grown_def)
    have up: "is_live st' (vbranch v) \<and> vbranch v < d \<and> fseq st' (vbranch v) \<le> vseq v
          \<and> vseq v \<le> hseq st' (vbranch v) \<and> (d, vseq v) \<in> set (kids st' (vbranch v))" if "par st d = Some v" for v
      using wf_tree_parent [OF wf dl that] old [of "vbranch v"] g by (auto simp: grown_def K)
    have down: "is_live st' x \<and> par st' x = Some (Version d s)" if x: "(x, s) \<in> set (kids st' d)" for x s
    proof (cases "(x, s) \<in> set (kids st d)")
      case True
      from wf_tree_kids [OF wf dl this] old [of x] g show ?thesis by (auto simp: grown_def)
    next
      case False
      with x obtain v where "p = Some v" "d = vbranch v" "x = c" "s = vseq v"
        by (auto simp: K split: option.splits if_splits)
      with g show ?thesis by (simp add: grown_def)
    qed
    show ?thesis using wf_tree_seqs [OF wf dl] False g kd par up down by (simp add: grown_def)
  qed
qed

lemma grown_wf:
  assumes g: "grown st c p st'" and wf: "wf_core st" and fp: "fork_point st p" and top: "c \<le> u32_max"
  shows "wf_core st'"
proof -
  note v = grown_views [OF g] and f = grown_fresh [OF g wf_coreD(4) [OF wf]]
  have dec: "is_live st' = (is_live st)(c := True)" "fseq st' = (fseq st)(c := seq_FIRST)"
    "hseq st' = (hseq st)(c := seq_FIRST)" "closed_set st' = closed_set st" "length (branches st') = Suc c"
    using g by (simp_all add: grown_def)
  have "wf_claims st'"
    unfolding wf_claims_def
  proof (intro allI impI)
    fix k b x assume x: "claim_at st' k b = Some x"
    then have "is_live st b" "cert_key (claim_cert x) = k" "window_ok st b (claim_window x)"
      using wf_coreD(2) [OF wf] v by (auto simp: wf_claims_def)
    then show "is_live st' b \<and> cert_key (claim_cert x) = k \<and> window_ok st' b (claim_window x)"
      using f(1) by (auto simp: dec window_ok_def)
  qed
  moreover have "wf_hists st'"
    using wf_coreD(3) [OF wf] f by (auto simp: wf_hists_def dec v)
  moreover have "wf_store st'"
    by (rule wf_store_cong [of st' st, OF _ _ _ _ wf_coreD(4) [OF wf]]) (use g in \<open>auto simp: grown_def\<close>)
  moreover have "closed_exact st'"
    using wf_coreD(5) [OF wf] f is_live_branch_of [of st c] by (auto simp: closed_exact_def dec v closed_set_def)
  moreover have "bounded_ids st'"
    using wf_coreD(6) [OF wf] top by (auto simp: bounded_ids_def dec seq_FIRST_def u32_max_def)
  ultimately show ?thesis using grown_wf_tree [OF g wf_coreD(1) [OF wf] fp] by (simp add: wf_core_def)
qed

lemma grown_supported:
  assumes g: "grown st c p st'" and inv: "core_inv E st" and live: "is_live st d"
  shows "supported_at E st' d"
proof (rule supported_same_answers [OF grown_same_answers [OF g live]])
  show "supported_at E st d" "fseq st d \<le> hseq st d"
    using inv live by (auto simp: core_inv_def dest: wf_coreD(1) intro: wf_tree_seqs)
  show "set (edges st d x) \<subseteq> set (edges st' d x)" for x using g by (simp add: grown_def)
qed

text \<open>A new root knows nothing.\<close>

lemma new_root_correct:
  assumes "new_root st = Some (c, st')" "core_inv E st"
  shows "core_inv E st' \<and> grown st c None st' \<and> (\<forall>k s. vcert st' k c s = None \<and> eps_at st' k c s = epsilon_INITIAL
    \<and> ventry st' k c s = None)"
proof -
  note g = new_root_grown [OF assms(1)]
  have wf: "wf_core st" using assms(2) by (simp add: core_inv_def)
  note v = grown_views [OF g(1)] and f = grown_fresh [OF g(1) wf_coreD(4) [OF wf]]
  have par: "par st' c = None" using g(1) by (simp add: grown_def)
  have none: "vcert st' k c s = None" "vdirt st' k c s = None" "ventry st' k c s = None" for k s
    using par f by (simp_all add: vcert_def vclaim_def vdirt_def ventry_def chain_root own_claim_def own_entry_def v)
  have "wf_core st'" by (rule grown_wf [OF g(1) wf _ g(2)]) (simp add: fork_point_def)
  moreover have "supported_at E st' d" if "is_live st' d" for d
  proof (cases "d = c")
    case True
    then show ?thesis by (simp add: supported_at_def none)
  next
    case False
    with that g(1) have "is_live st d" by (simp add: grown_def)
    then show ?thesis by (rule grown_supported [OF g(1) assms(2)])
  qed
  ultimately show ?thesis using g(1) none by (simp add: core_inv_def eps_at_def)
qed

section \<open>The worklist of support\<close>

text \<open>
  The worklist alone, over the waiting lists \<open>W\<close> of the keys \<open>U\<close>: a key in \<open>OK\<close> is supported once
  everything it waits for is.
\<close>

inductive based :: "key set \<Rightarrow> (key \<Rightarrow> key list) \<Rightarrow> key set \<Rightarrow> key \<Rightarrow> bool" for U W OK where
  base: "k \<in> OK \<Longrightarrow> (\<And>x. x \<in> U \<Longrightarrow> k \<in> set (W x) \<Longrightarrow> based U W OK x) \<Longrightarrow> based U W OK k"

lemma notify_correct:
  assumes "\<forall>w n. map_of pending w = Some n \<longrightarrow> count_list l w \<le> n"
  shows "\<exists>pending' new. notify l pending ready = Some (pending', ready @ new) \<and> distinct new
    \<and> (\<forall>w. map_of pending' w = map_option (\<lambda>n. n - count_list l w) (map_of pending w))
    \<and> set new = {w \<in> set l. map_of pending w = Some (count_list l w)}"
  using assms
proof (induction l arbitrary: pending ready)
  case Nil
  then show ?case by (auto simp: option.map_ident)
next
  case (Cons w l)
  show ?case
  proof (cases "map_of pending w")
    case None
    have "\<forall>x n. map_of pending x = Some n \<longrightarrow> count_list l x \<le> n"
    proof (intro allI impI)
      fix x n assume "map_of pending x = Some n"
      then have "count_list (w # l) x \<le> n" using Cons.prems by simp
      then show "count_list l x \<le> n" by (simp split: if_splits)
    qed
    from Cons.IH [of pending ready, OF this] None obtain p' new where *: "notify l pending ready = Some (p', ready @ new)" "distinct new"
      "\<forall>x. map_of p' x = map_option (\<lambda>n. n - count_list l x) (map_of pending x)"
      "set new = {x \<in> set l. map_of pending x = Some (count_list l x)}" by (elim exE conjE) (rule that)
    have "map_of p' x = map_option (\<lambda>n. n - count_list (w # l) x) (map_of pending x)" for x
      using *(3) None by (cases "x = w") auto
    moreover have "set new = {x \<in> set (w # l). map_of pending x = Some (count_list (w # l) x)}"
      unfolding *(4) using None by (intro Collect_cong) auto
    ultimately show ?thesis using *(1,2) None by (intro exI [of _ p'] exI [of _ new]) simp
  next
    case (Some n)
    have n: "Suc (count_list l w) \<le> n" using Cons.prems [rule_format, OF Some] by simp
    let ?p = "AList.update w (n - 1) pending" and ?r = "if n - 1 = 0 then ready @ [w] else ready"
    have "\<forall>x m. map_of ?p x = Some m \<longrightarrow> count_list l x \<le> m"
    proof (intro allI impI)
      fix x m assume m: "map_of ?p x = Some m"
      show "count_list l x \<le> m"
      proof (cases "x = w")
        case False
        then have "map_of pending x = Some m" using m by (simp add: update_conv')
        then have "count_list (w # l) x \<le> m" using Cons.prems by simp
        then show ?thesis using False by simp
      qed (use m n in \<open>simp add: update_conv'\<close>)
    qed
    from Cons.IH [of ?p ?r, OF this] have "\<exists>p' new. notify l ?p ?r = Some (p', ?r @ new) \<and> distinct new
      \<and> (\<forall>x. map_of p' x = map_option (\<lambda>n. n - count_list l x) (map_of ?p x))
      \<and> set new = {x \<in> set l. map_of ?p x = Some (count_list l x)}" .
    then obtain p' new where *: "notify l ?p ?r = Some (p', ?r @ new)" "distinct new"
      "\<forall>x. map_of p' x = map_option (\<lambda>n. n - count_list l x) (map_of ?p x)"
      "set new = {x \<in> set l. map_of ?p x = Some (count_list l x)}" by (elim exE conjE) (rule that)
    have eq: "notify (w # l) pending ready = notify l ?p ?r" using Some n by simp
    have P: "map_of p' x = map_option (\<lambda>n. n - count_list (w # l) x) (map_of pending x)" for x
      using *(3) Some by auto
    let ?new = "if n - 1 = 0 then w # new else new"
    have app: "?r @ new = ready @ ?new" by simp
    have "w \<notin> set new" if "n - 1 = 0" using that *(4) n by (auto simp: count_list_0_iff)
    then have "distinct ?new" using *(2) by simp
    moreover have "set ?new = {x \<in> set (w # l). map_of pending x = Some (count_list (w # l) x)}"
    proof (rule set_eqI)
      fix x
      have mem: "x \<in> set new \<longleftrightarrow> x \<in> set l \<and> map_of ?p x = Some (count_list l x)" unfolding *(4) by simp
      show "x \<in> set ?new \<longleftrightarrow> x \<in> {x \<in> set (w # l). map_of pending x = Some (count_list (w # l) x)}"
      proof (cases "x = w")
        case True
        have "w \<in> set new \<longleftrightarrow> w \<in> set l \<and> n - 1 = count_list l w" using mem True by (simp add: update_conv')
        moreover have "w \<in> set l \<longleftrightarrow> count_list l w \<noteq> 0" by (simp add: count_list_0_iff)
        moreover have "w \<in> set ?new \<longleftrightarrow> n - 1 = 0 \<or> w \<in> set new" by simp
        moreover have "w \<in> {x \<in> set (w # l). map_of pending x = Some (count_list (w # l) x)} \<longleftrightarrow> n = Suc (count_list l w)"
          using Some by simp
        ultimately show ?thesis using n unfolding True by linarith
      qed (use mem in \<open>simp add: update_conv'\<close>)
    qed
    ultimately show ?thesis using *(1) P eq app by (intro exI [of _ p'] exI [of _ ?new]) simp
  qed
qed

definition supporting ::
  "key set \<Rightarrow> (key \<Rightarrow> key list) \<Rightarrow> key set \<Rightarrow> nat key_map \<Rightarrow> key list \<Rightarrow> key_set \<Rightarrow> bool" where
  "supporting U W OK pending ready supported \<longleftrightarrow>
     distinct ready \<and> set ready \<inter> set supported = {} \<and> set ready \<union> set supported \<subseteq> U \<inter> OK
     \<and> (\<forall>k n. map_of pending k = Some n \<longrightarrow>
          k \<in> U \<inter> OK \<and> n = (\<Sum>x\<in>U - set supported. count_list (W x) k) \<and> (n = 0 \<longleftrightarrow> k \<in> set ready \<union> set supported))
     \<and> (\<forall>k\<in>OK. map_of pending k = None \<longrightarrow> k \<in> set ready \<union> set supported)
     \<and> (\<forall>k\<in>set ready \<union> set supported. \<forall>x\<in>U. k \<in> set (W x) \<longrightarrow> x \<in> set supported)
     \<and> (\<forall>k\<in>set ready \<union> set supported. based U W OK k)"

lemma count_list_pos: "0 < count_list xs x \<longleftrightarrow> x \<in> set xs"
  by (metis count_list_0_iff gr0I not_gr_zero)

lemma support_step:
  assumes fin: "finite U" and s: "supporting U W OK pending (r @ [k]) supported"
  shows "\<exists>pending' ready'. notify (W k) pending r = Some (pending', ready')
    \<and> supporting U W OK pending' ready' (List.insert k supported)"
proof -
  let ?S = "set supported" and ?R = "set r"
  have RS: "set (r @ [k]) \<union> ?S = insert k (?R \<union> ?S)" by auto
  note s = s [unfolded supporting_def RS]
  from s have rd: "distinct r" "k \<notin> ?R" "k \<notin> ?S" "?R \<inter> ?S = {}" "k \<in> U" "k \<in> OK" "?R \<union> ?S \<subseteq> U \<inter> OK"
    by auto
  from s have pend: "w \<in> U \<inter> OK \<and> n = (\<Sum>x\<in>U - ?S. count_list (W x) w)
      \<and> (n = 0 \<longleftrightarrow> w \<in> insert k (?R \<union> ?S))" if "map_of pending w = Some n" for w n
    using that by blast
  from s have all: "w \<in> insert k (?R \<union> ?S)" if "w \<in> OK" "map_of pending w = None" for w
    using that by blast
  from s have sup: "x \<in> ?S" if "w \<in> insert k (?R \<union> ?S)" "x \<in> U" "w \<in> set (W x)" for w x
    using that by blast
  from s have bas: "based U W OK w" if "w \<in> insert k (?R \<union> ?S)" for w
    using that by blast
  have diff: "(\<Sum>x\<in>U - ?S. count_list (W x) w) = count_list (W k) w + (\<Sum>x\<in>U - insert k ?S. count_list (W x) w)" for w
  proof -
    have "U - insert k ?S = (U - ?S) - {k}" by blast
    then show ?thesis using fin rd(3,5) sum.remove [of "U - ?S" k "\<lambda>x. count_list (W x) w"] by simp
  qed
  have le: "\<forall>w n. map_of pending w = Some n \<longrightarrow> count_list (W k) w \<le> n"
  proof (intro allI impI)
    fix w n assume "map_of pending w = Some n"
    from pend [OF this] diff [of w] show "count_list (W k) w \<le> n" by simp
  qed
  obtain p' new where *: "notify (W k) pending r = Some (p', r @ new)" "distinct new"
    "\<forall>w. map_of p' w = map_option (\<lambda>n. n - count_list (W k) w) (map_of pending w)"
    "set new = {w \<in> set (W k). map_of pending w = Some (count_list (W k) w)}"
    using notify_correct [of pending "W k" r, OF le] by (elim exE conjE) (rule that)
  have new: "w \<in> U \<inter> OK \<and> w \<notin> insert k (?R \<union> ?S) \<and> (\<forall>x\<in>U. w \<in> set (W x) \<longrightarrow> x \<in> insert k ?S) \<and> based U W OK w"
    if w: "w \<in> set new" for w
  proof -
    from w *(4) have m: "map_of pending w = Some (count_list (W k) w)" and pos: "0 < count_list (W k) w"
      by (auto simp: count_list_pos)
    have "(\<Sum>x\<in>U - insert k ?S. count_list (W x) w) = 0" using pend [OF m] diff [of w] by simp
    then have only: "x \<in> insert k ?S" if "x \<in> U" "w \<in> set (W x)" for x
      using that fin by (auto simp: count_list_0_iff)
    have "w \<in> OK" using pend [OF m] by simp
    then have "based U W OK w" by (rule based.base) (use only bas in blast)
    with only pend [OF m] pos show ?thesis by auto
  qed
  have "supporting U W OK p' (r @ new) (List.insert k supported)"
    unfolding supporting_def
  proof (intro conjI allI impI ballI)
    show "distinct (r @ new)" using rd(1) *(2) new by auto
    show "set (r @ new) \<inter> set (List.insert k supported) = {}" using rd new by auto
    show "set (r @ new) \<union> set (List.insert k supported) \<subseteq> U \<inter> OK" using rd new by auto
    show "w \<in> set (r @ new) \<union> set (List.insert k supported)" if "w \<in> OK" "map_of p' w = None" for w
      using that *(3) all [of w] by auto
    show "x \<in> set (List.insert k supported)"
      if "w \<in> set (r @ new) \<union> set (List.insert k supported)" "x \<in> U" "w \<in> set (W x)" for w x
      using that new [of w] sup [of w x] by auto
    show "based U W OK w" if "w \<in> set (r @ new) \<union> set (List.insert k supported)" for w
      using that new [of w] bas [of w] by auto
    fix w n assume "map_of p' w = Some n"
    with *(3) obtain m where m: "map_of pending w = Some m" "n = m - count_list (W k) w" by auto
    show "w \<in> U \<inter> OK" using pend [OF m(1)] by simp
    show "n = (\<Sum>x\<in>U - set (List.insert k supported). count_list (W x) w)"
      using pend [OF m(1)] diff [of w] m(2) by simp
    have "n = 0 \<longleftrightarrow> m = 0 \<or> w \<in> set new"
    proof -
      have "w \<in> set new \<longleftrightarrow> w \<in> set (W k) \<and> m = count_list (W k) w" unfolding *(4) using m(1) by simp
      then show ?thesis using m(2) le [rule_format, OF m(1)] count_list_pos [of "W k" w] by linarith
    qed
    then show "(n = 0) = (w \<in> set (r @ new) \<union> set (List.insert k supported))"
      using pend [OF m(1)] by auto
  qed
  with *(1) show ?thesis by blast
qed

text \<open>The worklist ends, its subtraction never underflows, and what it supports is the least
  solution.\<close>

lemma support_loop_correct:
  assumes fin: "finite U" and W: "\<And>x. W x = waiters_of ws x"
  shows "supporting U W OK pending ready supported \<Longrightarrow>
    \<exists>S. support_loop ws pending ready supported = Some S \<and> (\<forall>k. k \<in> set S \<longleftrightarrow> based U W OK k)
      \<and> (\<forall>k\<in>set S. \<forall>x\<in>U. k \<in> set (W x) \<longrightarrow> x \<in> set S)"
proof (induction "card (U - set supported)" arbitrary: pending ready supported rule: less_induct)
  case less
  note s = less.prems
  show ?case
  proof (cases ready rule: rev_cases)
    case Nil
    have "k \<in> set supported" if "based U W OK k" for k
      using that
    proof induction
      case (base k)
      show ?case
      proof (cases "map_of pending k")
        case None
        with base(1) s Nil show ?thesis by (auto simp: supporting_def)
      next
        case (Some n)
        with s have k: "n = (\<Sum>x\<in>U - set supported. count_list (W x) k)" "n = 0 \<longleftrightarrow> k \<in> set supported"
          using Nil by (auto simp: supporting_def)
        have "count_list (W x) k = 0" if "x \<in> U - set supported" for x
          using base(3) that by (auto simp: count_list_0_iff)
        with k show ?thesis by simp
      qed
    qed
    moreover have "based U W OK k" if "k \<in> set supported" for k using s that by (simp add: supporting_def)
    moreover have "support_loop ws pending ready supported = Some supported"
      using Nil by (subst support_loop.simps) simp
    moreover have "x \<in> set supported" if "k \<in> set supported" "x \<in> U" "k \<in> set (W x)" for k x
      using s that unfolding supporting_def by blast
    ultimately show ?thesis by (intro exI [of _ supported]) blast
  next
    case (snoc r k)
    obtain p' r' where st: "notify (W k) pending r = Some (p', r')"
      "supporting U W OK p' r' (List.insert k supported)"
      using support_step [OF fin s [unfolded snoc]] by blast
    have "k \<in> U" "k \<notin> set supported" using s snoc by (auto simp: supporting_def)
    then have "card (U - set (List.insert k supported)) < card (U - set supported)"
      using fin by (intro psubset_card_mono) auto
    from less.hyps [OF this st(2)] st(1) snoc W show ?thesis
      by (subst support_loop.simps) simp
  qed
qed


section \<open>The undecided claims\<close>

text \<open>The claim a key resolves to through a closed window of the branch's own, and the certificate
  of one that needs no decision.\<close>

definition undecided_at :: "('p, 'd, 'a) core_state \<Rightarrow> branch_id \<Rightarrow> seq \<Rightarrow> key \<Rightarrow> ('p, 'a) claim option" where
  "undecided_at st b s k = (case vclaim st k b s of None \<Rightarrow> None
     | Some (ow, c) \<Rightarrow> if ow = b \<and> \<not> is_open (claim_window c) then Some c else None)"

definition decided_at :: "('p, 'd, 'a) core_state \<Rightarrow> branch_id \<Rightarrow> seq \<Rightarrow> key \<Rightarrow> 'p cert option" where
  "decided_at st b s k = (case vclaim st k b s of None \<Rightarrow> None
     | Some (ow, c) \<Rightarrow> if ow = b \<and> \<not> is_open (claim_window c) then None else Some (claim_cert c))"

lemma vcert_decided:
  "vcert st k b s = (case undecided_at st b s k of Some c \<Rightarrow> Some (claim_cert c) | None \<Rightarrow> decided_at st b s k)"
  by (auto simp: vcert_def undecided_at_def decided_at_def split: option.splits)

lemma vclaim_asserted: "wf_store st \<Longrightarrow> is_asserted st k \<Longrightarrow> vclaim st k b s = None"
  using vclaim_claim_at [of st k b s] asserted_no_claim [of st k] by (cases "vclaim st k b s") auto

lemma partition_candidates_correct:
  assumes wf: "wf_core st" and live: "is_live st b"
  shows "\<exists>att' und'. partition_candidates st b (Version b s) ks att und = Some (att', und')
    \<and> set att' = set att \<union> {c. \<exists>k\<in>set ks. decided_at st b s k = Some c}
    \<and> (\<forall>k. map_of und' k = (if k \<in> set ks \<and> undecided_at st b s k \<noteq> None then undecided_at st b s k else map_of und k))
    \<and> (distinct (map fst und) \<longrightarrow> distinct (map fst und'))"
proof (induction ks arbitrary: att und)
  case Nil
  then show ?case by simp
next
  case (Cons k ks)
  note tree = wf_coreD(1) [OF wf]
  obtain r where r: "resolve st k (Version b s) = Some r"
    and cl: "\<And>ow c. r = RClaim ow c \<longleftrightarrow> vclaim st k b s = Some (ow, c)"
  proof (cases "is_asserted st k")
    case True
    then show ?thesis
      using that [OF resolve_chain(1) [OF tree live True, of s]] vclaim_asserted [OF wf_coreD(4) [OF wf] True, of b s]
      by (auto split: option.splits)
  next
    case False
    from resolve_chain(2) [OF tree live False, of s] obtain cand where
      "resolve st k (Version b s) = Some (case vclaim st k b s of Some (ow, c) \<Rightarrow> RClaim ow c | None \<Rightarrow> RUnknown cand)"
      by blast
    from that [OF this] show ?thesis by (auto split: option.splits)
  qed
  show ?case
  proof (cases r)
    case (RClaim ow c)
    then have v: "vclaim st k b s = Some (ow, c)" using cl by simp
    show ?thesis
    proof (cases "ow = b \<and> \<not> is_open (claim_window c)")
      case True
      then have u: "undecided_at st b s k = Some c" "decided_at st b s k = None"
        using v by (simp_all add: undecided_at_def decided_at_def)
      from Cons.IH [of att "AList.update k c und"] r RClaim True show ?thesis
        by (auto simp: u update_conv' distinct_update)
    next
      case False
      then have u: "undecided_at st b s k = None" "decided_at st b s k = Some (claim_cert c)"
        using v by (auto simp: undecided_at_def decided_at_def)
      from Cons.IH [of "att @ [claim_cert c]" und] r RClaim False show ?thesis
        by (auto simp: u)
    qed
  next
    case (RAsserted ow e)
    then have u: "undecided_at st b s k = None" "decided_at st b s k = None"
      using cl by (auto simp: undecided_at_def decided_at_def split: option.split)
    from Cons.IH [of att und] r RAsserted show ?thesis by (auto simp: u)
  next
    case (RUnknown cand)
    then have u: "undecided_at st b s k = None" "decided_at st b s k = None"
      using cl by (auto simp: undecided_at_def decided_at_def split: option.split)
    from Cons.IH [of att und] r RUnknown show ?thesis by (auto simp: u)
  qed
qed

section \<open>Counting what a claim waits for\<close>

definition waits_for :: "('p, 'a) claim key_map \<Rightarrow> premise list \<Rightarrow> key \<Rightarrow> nat" where
  "waits_for und ps x = (if map_of und x = None then 0 else count_list (map premise_key ps) x)"

lemma waits_for_sum:
  "(\<Sum>x\<in>fst ` set und. waits_for und ps x) = length (filter (\<lambda>p. map_of und (premise_key p) \<noteq> None) ps)"
proof -
  let ?in = "\<lambda>p. map_of und (premise_key p) \<noteq> None"
  have "(\<Sum>x\<in>fst ` set und. waits_for und ps x) = (\<Sum>x\<in>fst ` set und. count_list (map premise_key (filter ?in ps)) x)"
  proof (rule sum.cong [OF refl])
    fix x assume "x \<in> fst ` set und"
    then have "map_of und x \<noteq> None" by (simp add: map_of_eq_None_iff)
    then show "waits_for und ps x = count_list (map premise_key (filter ?in ps)) x"
      unfolding waits_for_def by (induction ps) auto
  qed
  also have "\<dots> = length (filter ?in ps)"
  proof -
    have "set (map premise_key (filter ?in ps)) \<subseteq> fst ` set und"
      using map_of_eq_None_iff [of und] by auto
    then show ?thesis using sum_count_set [of "map premise_key (filter ?in ps)" "fst ` set und"] by simp
  qed
  finally show ?thesis .
qed

lemma waiters_of_update:
  "waiters_of (AList.update k l ws) x = (if x = k then l else waiters_of ws x)"
  by (simp add: waiters_of_def update_conv')

definition premises_hold :: "('p, 'd, 'a) core_state \<Rightarrow> branch_id \<Rightarrow> seq \<Rightarrow> premise list \<Rightarrow> bool" where
  "premises_hold st b s ps \<longleftrightarrow> (\<forall>p\<in>set ps. rev_at st (premise_key p) b s = Some (premise_revision p))"

definition undecided_premises :: "('p, 'a) claim key_map \<Rightarrow> premise list \<Rightarrow> nat" where
  "undecided_premises und ps = length (filter (\<lambda>p. map_of und (premise_key p) \<noteq> None) ps)"

lemma count_waits_correct:
  assumes wf: "wf_tree st" and live: "is_live st b"
  shows "\<exists>ws'. count_waits st (Version b s) und key ps waits ws
      = Some (if premises_hold st b s ps then Some (waits + undecided_premises und ps) else None, ws')
    \<and> (\<forall>x y. y \<noteq> key \<longrightarrow> count_list (waiters_of ws' x) y = count_list (waiters_of ws x) y)
    \<and> (premises_hold st b s ps \<longrightarrow>
        (\<forall>x. count_list (waiters_of ws' x) key = count_list (waiters_of ws x) key + waits_for und ps x))"
proof (induction ps arbitrary: waits ws)
  case Nil
  then show ?case by (simp add: premises_hold_def waits_for_def undecided_premises_def)
next
  case (Cons p ps)
  obtain r where r: "resolve st (premise_key p) (Version b s) = Some r"
    "resolved_revision r = rev_at st (premise_key p) b s" using resolve_revision [OF wf live] by blast
  show ?case
  proof (cases "rev_at st (premise_key p) b s = Some (premise_revision p)")
    case False
    then show ?thesis using r by (simp add: premises_hold_def)
  next
    case True
    then have ph: "premises_hold st b s (p # ps) = premises_hold st b s ps" by (simp add: premises_hold_def)
    show ?thesis
    proof (cases "map_of und (premise_key p)")
      case None
      have w: "waits_for und (p # ps) = waits_for und ps" using None by (auto simp: waits_for_def)
      have n: "undecided_premises und (p # ps) = undecided_premises und ps" using None by (simp add: undecided_premises_def)
      have "count_waits st (Version b s) und key (p # ps) waits ws = count_waits st (Version b s) und key ps waits ws"
        using r True None by simp
      with Cons.IH [of waits ws] show ?thesis unfolding ph w n by simp
    next
      case (Some c)
      let ?ws = "AList.update (premise_key p) (waiters_of ws (premise_key p) @ [key]) ws"
      have w: "waits_for und (p # ps) x = (if x = premise_key p then Suc (waits_for und ps x) else waits_for und ps x)" for x
        using Some by (auto simp: waits_for_def)
      have n: "waits + undecided_premises und (p # ps) = waits + 1 + undecided_premises und ps"
        using Some by (simp add: undecided_premises_def)
      have c: "count_list (waiters_of ?ws x) y = (if x = premise_key p \<and> y = key then Suc (count_list (waiters_of ws x) y)
        else count_list (waiters_of ws x) y)" for x y by (auto simp: waiters_of_update)
      have "count_waits st (Version b s) und key (p # ps) waits ws = count_waits st (Version b s) und key ps (waits + 1) ?ws"
        using r True Some by simp
      with Cons.IH [of "waits + 1" ?ws] show ?thesis unfolding ph n by (simp only: w c) auto
    qed
  qed
qed

definition claim_ok ::
  "('p, 'd, 'a) env \<Rightarrow> ('p, 'd, 'a) core_state \<Rightarrow> branch_id \<Rightarrow> seq \<Rightarrow> key \<Rightarrow> ('p, 'a) claim \<Rightarrow> bool" where
  "claim_ok E st b s k c \<longleftrightarrow> eps_at st k b s = cert_epsilon (claim_cert c)
     \<and> premises_hold st b s (cert_premises E (claim_cert c))"

abbreviation claim_waits :: "('p, 'd, 'a) env \<Rightarrow> ('p, 'a) claim key_map \<Rightarrow> ('p, 'a) claim \<Rightarrow> nat" where
  "claim_waits E und c \<equiv> undecided_premises und (cert_premises E (claim_cert c))"

lemma scan_undecided_correct:
  assumes wf: "wf_tree st" and live: "is_live st b"
  shows "distinct (map fst l) \<Longrightarrow> \<exists>p' ws'. scan_undecided E st (Version b s) und l p ws r
      = Some (p', ws', r @ map fst (filter (\<lambda>(k, c). claim_ok E st b s k c \<and> claim_waits E und c = 0) l))
    \<and> (\<forall>k. map_of l k = None \<longrightarrow> map_of p' k = map_of p k
         \<and> (\<forall>x. count_list (waiters_of ws' x) k = count_list (waiters_of ws x) k))
    \<and> (\<forall>k c. map_of l k = Some c \<longrightarrow> map_of p' k
         = (if claim_ok E st b s k c \<and> claim_waits E und c \<noteq> 0 then Some (claim_waits E und c) else map_of p k))
    \<and> (\<forall>k c x. map_of l k = Some c \<longrightarrow> claim_ok E st b s k c \<longrightarrow> count_list (waiters_of ws' x) k
         = count_list (waiters_of ws x) k + waits_for und (cert_premises E (claim_cert c)) x)"
    (is "_ \<Longrightarrow> \<exists>p' ws'. ?R l p ws r p' ws'")
proof (induction l arbitrary: p ws r)
  case Nil
  then show ?case by simp
next
  case (Cons kc l)
  obtain k c where kc: "kc = (k, c)" by force
  have d: "distinct (map fst l)" "map_of l k = None" using Cons.prems kc by (auto simp: map_of_eq_None_iff)
  have eps: "epsilon st k (Version b s) = Some (eps_at st k b s)" by (rule epsilon_eps_at [OF wf live])
  have skip: "\<exists>p' ws'. ?R (kc # l) p ws r p' ws'" if eq: "scan_undecided E st (Version b s) und (kc # l) p ws r = scan_undecided E st (Version b s) und l p ws1 r"
    and no: "\<not> claim_ok E st b s k c"
    and w: "\<forall>x y. y \<noteq> k \<longrightarrow> count_list (waiters_of ws1 x) y = count_list (waiters_of ws x) y" for ws1
  proof -
    from Cons.IH [OF d(1), of p ws1 r] obtain p' ws' where IH: "?R l p ws1 r p' ws'" by blast
    have "?R (kc # l) p ws r p' ws'"
      using IH no w d(2) unfolding eq by (auto simp: kc)
    then show ?thesis by blast
  qed
  show ?case
  proof (cases "eps_at st k b s = cert_epsilon (claim_cert c)")
    case False
    then show ?thesis by (intro skip [of ws]) (simp_all add: kc eps claim_ok_def)
  next
    case e: True
    let ?ps = "cert_premises E (claim_cert c)"
    from count_waits_correct [OF wf live, of s und k ?ps 0 ws] obtain ws1 where
      cw: "count_waits st (Version b s) und k ?ps 0 ws
        = Some (if premises_hold st b s ?ps then Some (undecided_premises und ?ps) else None, ws1)"
      and other: "\<forall>x y. y \<noteq> k \<longrightarrow> count_list (waiters_of ws1 x) y = count_list (waiters_of ws x) y"
      and mine: "premises_hold st b s ?ps \<longrightarrow>
        (\<forall>x. count_list (waiters_of ws1 x) k = count_list (waiters_of ws x) k + waits_for und ?ps x)" by auto
    show ?thesis
    proof (cases "premises_hold st b s ?ps")
      case False
      then show ?thesis using other by (intro skip [of ws1]) (simp_all add: kc eps e cw claim_ok_def)
    next
      case ok: True
      then have cok: "claim_ok E st b s k c" using e by (simp add: claim_ok_def)
      show ?thesis
      proof (cases "undecided_premises und ?ps = 0")
        case True
        from Cons.IH [OF d(1), of p ws1 "r @ [k]"] obtain p' ws' where IH: "?R l p ws1 (r @ [k]) p' ws'" by blast
        have "?R (kc # l) p ws r p' ws'"
          using IH cok other mine ok d(2) True by (auto simp: kc eps e cw)
        then show ?thesis by blast
      next
        case False
        from Cons.IH [OF d(1), of "AList.update k (undecided_premises und ?ps) p" ws1 r] obtain p' ws'
          where IH: "?R l (AList.update k (undecided_premises und ?ps) p) ws1 r p' ws'" by blast
        have "?R (kc # l) p ws r p' ws'"
          using IH cok other mine ok d(2) False by (auto simp: kc eps e cw update_conv')
        then show ?thesis by blast
      qed
    qed
  qed
qed


text \<open>The reference: the least set of undecided claims that hold and whose undecided premises are
  in the set.\<close>

inductive well_supported ::
  "('p, 'd, 'a) env \<Rightarrow> ('p, 'd, 'a) core_state \<Rightarrow> branch_id \<Rightarrow> seq \<Rightarrow> ('p, 'a) claim key_map \<Rightarrow> key \<Rightarrow> bool"
  for E st b s und where
  step: "map_of und k = Some c \<Longrightarrow> claim_ok E st b s k c \<Longrightarrow>
    (\<And>p. p \<in> set (cert_premises E (claim_cert c)) \<Longrightarrow> map_of und (premise_key p) \<noteq> None
      \<Longrightarrow> well_supported E st b s und (premise_key p))
    \<Longrightarrow> well_supported E st b s und k"

lemma waits_for_pos: "0 < waits_for und ps x \<longleftrightarrow> map_of und x \<noteq> None \<and> x \<in> premise_key ` set ps"
  by (simp add: waits_for_def count_list_pos)

lemma support_computed:
  assumes wf: "wf_tree st" and live: "is_live st b" and d: "distinct (map fst und)"
  shows "\<exists>p ws r S. scan_undecided E st (Version b s) und und [] [] [] = Some (p, ws, r)
    \<and> support_loop ws p r [] = Some S \<and> (\<forall>k. k \<in> set S \<longleftrightarrow> well_supported E st b s und k)"
proof -
  let ?U = "fst ` set und" and ?ps = "\<lambda>c. cert_premises E (claim_cert c)"
  let ?OK = "{k. \<exists>c. map_of und k = Some c \<and> claim_ok E st b s k c}"
  let ?r = "map fst (filter (\<lambda>(k, c). claim_ok E st b s k c \<and> claim_waits E und c = 0) und)"
  obtain p ws where sc: "scan_undecided E st (Version b s) und und [] [] [] = Some (p, ws, ?r)"
    and none: "\<forall>k. map_of und k = None \<longrightarrow> map_of p k = None \<and> (\<forall>x. count_list (waiters_of ws x) k = 0)"
    and some: "\<forall>k c. map_of und k = Some c \<longrightarrow> map_of p k
      = (if claim_ok E st b s k c \<and> claim_waits E und c \<noteq> 0 then Some (claim_waits E und c) else None)"
    and cnt: "\<forall>k c x. map_of und k = Some c \<longrightarrow> claim_ok E st b s k c
      \<longrightarrow> count_list (waiters_of ws x) k = waits_for und (?ps c) x"
    using scan_undecided_correct [OF wf live d, of E s und "[]" "[]" "[]"] by (auto simp: waiters_of_def)
  have U: "k \<in> ?U \<longleftrightarrow> map_of und k \<noteq> None" for k by (simp add: map_of_eq_None_iff)
  have total: "(\<Sum>x\<in>?U. count_list (waiters_of ws x) k) = claim_waits E und c"
    if "map_of und k = Some c" "claim_ok E st b s k c" for k c
    using that cnt by (simp add: waits_for_sum undecided_premises_def)
  have r: "k \<in> set ?r \<longleftrightarrow> (\<exists>c. map_of und k = Some c \<and> claim_ok E st b s k c \<and> claim_waits E und c = 0)" for k
    using d by (force simp: map_of_eq_Some_iff)
  have wait: "k \<in> set (waiters_of ws x) \<longleftrightarrow> map_of und x \<noteq> None \<and> x \<in> premise_key ` set (?ps c)"
    if "map_of und k = Some c" "claim_ok E st b s k c" for k x c
    using cnt that waits_for_pos [of und "?ps c" x] count_list_pos [of "waiters_of ws x" k] by simp
  have no_wait: "k \<notin> set (waiters_of ws x)" if "k \<in> set ?r" "x \<in> ?U" for k x
    using that total [of k] r [of k] by (fastforce simp: count_list_0_iff)
  have "supporting ?U (waiters_of ws) ?OK p ?r []"
    unfolding supporting_def
  proof (intro conjI allI impI ballI)
    show "distinct ?r" using d by (simp add: distinct_map_filter)
    show "set ?r \<inter> set [] = {}" by simp
    show "set ?r \<union> set [] \<subseteq> ?U \<inter> ?OK" using r U by auto
    show "k \<in> set ?r \<union> set []" if "k \<in> ?OK" "map_of p k = None" for k
    proof -
      from that(1) obtain c where c: "map_of und k = Some c" "claim_ok E st b s k c" by auto
      with some [rule_format, OF c(1)] that(2) have "claim_waits E und c = 0" by (simp split: if_splits)
      with c r [of k] show ?thesis by auto
    qed
    show "x \<in> set []" if "k \<in> set ?r \<union> set []" "x \<in> ?U" "k \<in> set (waiters_of ws x)" for k x
      using no_wait [of k x] that by simp
    show "based ?U (waiters_of ws) ?OK k" if "k \<in> set ?r \<union> set []" for k
    proof (rule based.base)
      show "k \<in> ?OK" using that r [of k] by auto
      show "based ?U (waiters_of ws) ?OK x" if "x \<in> ?U" "k \<in> set (waiters_of ws x)" for x
        using no_wait [of k x] that \<open>k \<in> set ?r \<union> set []\<close> by simp
    qed
    fix k n assume n: "map_of p k = Some n"
    with none obtain c where c: "map_of und k = Some c" by (cases "map_of und k") auto
    with some [rule_format, OF c] n have ok: "claim_ok E st b s k c" and nz: "claim_waits E und c \<noteq> 0"
      and n': "n = claim_waits E und c" by (simp_all split: if_splits)
    show "k \<in> ?U \<inter> ?OK" using c ok U by simp
    show "n = (\<Sum>x\<in>?U - set []. count_list (waiters_of ws x) k)" using total [OF c ok] n' by simp
    show "(n = 0) = (k \<in> set ?r \<union> set [])" using r [of k] c nz n' by auto
  qed
  from support_loop_correct [OF _ refl this] obtain S where
    S: "support_loop ws p ?r [] = Some S" "\<And>k. k \<in> set S \<longleftrightarrow> based ?U (waiters_of ws) ?OK k" by auto
  have to: "well_supported E st b s und k" if "based ?U (waiters_of ws) ?OK k" for k
    using that
  proof induction
    case (base k)
    from base(1) obtain c where c: "map_of und k = Some c" "claim_ok E st b s k c" by auto
    then show ?case by (rule well_supported.step) (use base(3) wait [OF c] U in blast)
  qed
  have bwd: "based ?U (waiters_of ws) ?OK k" if "well_supported E st b s und k" for k
    using that
  proof induction
    case (step k c)
    show ?case
    proof (rule based.base)
      show "k \<in> ?OK" using step by simp
      show "based ?U (waiters_of ws) ?OK x" if "x \<in> ?U" "k \<in> set (waiters_of ws x)" for x
        using step.IH wait [OF step(1,2), of x] that by auto
    qed
  qed
  from sc S to bwd show ?thesis by blast
qed


section \<open>Settling the new branch\<close>

definition shadow :: "seq \<Rightarrow> ('p, 'a) claim \<Rightarrow> ('p, 'a) claim" where
  "shadow f x = x\<lparr>claim_window := window_empty f\<rparr>"

lemma shadow_eq: "\<lparr>claim_cert = claim_cert x, claim_window = window_empty f, claim_attribute = claim_attribute x\<rparr> = shadow f x"
  by (simp add: shadow_def)

lemma settle_undecided_correct:
  assumes "wf_core st" "is_live st c" "distinct (map fst l)"
    and "\<forall>(k, x)\<in>set l. \<not> is_asserted st k \<and> cert_key (claim_cert x) = k"
  shows "\<exists>st' att'. settle_undecided st c (fseq st c) S l att = Some (st', att')
    \<and> wf_core st' \<and> same_world st st' \<and> edges st' = edges st
    \<and> (\<forall>k d. claim_at st' k d = (if d = c \<and> k \<in> fst ` set l - set S
         then map_option (shadow (fseq st c)) (map_of l k) else claim_at st k d))
    \<and> set att' = set att \<union> {claim_cert x | k x. (k, x) \<in> set l \<and> k \<in> set S}"
    (is "\<exists>st' att'. ?R st l att st' att'")
  using assms
proof (induction l arbitrary: st att)
  case Nil
  then show ?case by (intro exI [of _ st] exI [of _ att]) simp
next
  case (Cons kx l)
  obtain k x where kx: "kx = (k, x)" by force
  note wf = Cons.prems(1) and live = Cons.prems(2)
  have d: "distinct (map fst l)" "k \<notin> fst ` set l" using Cons.prems(3) kx by auto
  show ?case
  proof (cases "k \<in> set S")
    case True
    have "\<forall>(k, x)\<in>set l. \<not> is_asserted st k \<and> cert_key (claim_cert x) = k" using Cons.prems(4) by auto
    from Cons.IH [OF wf live d(1) this, of "att @ [claim_cert x]"] obtain st' att'
      where IH: "?R st l (att @ [claim_cert x]) st' att'" by blast
    have "fst ` set (kx # l) - set S = fst ` set l - set S" using kx True by auto
    moreover have "{claim_cert x | k x. (k, x) \<in> set (kx # l) \<and> k \<in> set S}
      = insert (claim_cert x) {claim_cert x | k x. (k, x) \<in> set l \<and> k \<in> set S}" using kx True by auto
    ultimately have "?R st (kx # l) att st' att'"
      using IH True by (auto simp: kx)
    then show ?thesis by blast
  next
    case False
    let ?x = "shadow (fseq st c) x"
    obtain st1 where sc: "set_claim st k c (Some ?x) = Some st1" using set_claim_total [OF live] by blast
    note v = set_claim_views [OF sc]
    note sw = same_world_views [OF v(2)]
    have k: "\<not> is_asserted st k" "cert_key (claim_cert x) = k" using Cons.prems(4) kx by auto
    have wf1: "wf_core st1"
      by (rule set_claim_wf [OF sc wf live k(1)])
        (use k(2) wf_tree_seqs [OF wf_coreD(1) [OF wf] live] in \<open>auto simp: shadow_def window_ok_def window_empty_def\<close>)
    have "\<forall>(k, x)\<in>set l. \<not> is_asserted st1 k \<and> cert_key (claim_cert x) = k" using Cons.prems(4) sw by auto
    with Cons.IH [OF wf1 _ d(1), of att] live sw obtain st' att' where IH: "?R st1 l att st' att'" by auto
    have set: "{claim_cert x | k x. (k, x) \<in> set (kx # l) \<and> k \<in> set S}
      = {claim_cert x | k x. (k, x) \<in> set l \<and> k \<in> set S}" using kx False by auto
    have eq: "settle_undecided st c (fseq st c) S (kx # l) att = settle_undecided st1 c (fseq st1 c) S l att"
      using False sc by (simp add: kx shadow_eq sw)
    have cl: "claim_at st' k' d = (if d = c \<and> k' \<in> fst ` set (kx # l) - set S
         then map_option (shadow (fseq st c)) (map_of (kx # l) k') else claim_at st k' d)" for k' d
      using IH False d(2) by (auto simp: kx v(1) sw)
    have "?R st (kx # l) att st' att'"
      unfolding set eq using IH cl v(2,3) same_world_trans [of st st1 st'] by auto
    then show ?thesis by blast
  qed
qed

lemma register_all_correct:
  assumes "wf_core st" "is_live st c"
  shows "\<exists>st'. register_all E st c l = Some st' \<and> wf_core st' \<and> same_world st st' \<and> claim_at st' = claim_at st
    \<and> (\<forall>b x. set (edges st' b x) = set (edges st b x) \<union>
         (if b = c then {cert_key y | y. y \<in> set l \<and> x \<in> premise_key ` set (cert_premises E y)} else {}))"
  using assms
proof (induction l arbitrary: st)
  case Nil
  then show ?case by simp
next
  case (Cons y l)
  obtain st1 where re: "register_edges E st c y = Some st1" using register_edges_total [OF Cons.prems(2)] by blast
  note v = register_edges_views [OF re]
  have "wf_core st1" "is_live st1 c"
    using register_edges_wf [OF re Cons.prems(1)] Cons.prems(2) same_world_views [OF v(1)] by auto
  from Cons.IH [OF this] obtain st' where IH: "register_all E st1 c l = Some st'" "wf_core st'" "same_world st1 st'"
    "claim_at st' = claim_at st1"
    "\<And>b x. set (edges st' b x) = set (edges st1 b x) \<union>
         (if b = c then {cert_key y | y. y \<in> set l \<and> x \<in> premise_key ` set (cert_premises E y)} else {})" by auto
  have "set (edges st' b x) = set (edges st b x) \<union>
         (if b = c then {cert_key z | z. z \<in> set (y # l) \<and> x \<in> premise_key ` set (cert_premises E z)} else {})" for b x
    unfolding IH(5) v(6) by auto
  then show ?case using IH re v(2) same_world_trans [OF v(1) IH(3)] by simp
qed


section \<open>The candidates\<close>

lemma foldl_insert_set: "set (foldl (\<lambda>cs k. List.insert k cs) acc ks) = set acc \<union> set ks"
  by (induction ks arbitrary: acc) auto

lemma fork_candidates_set:
  "set (fork_candidates br) = (\<Union>(x, ks)\<in>set (br_rdeps br). set ks) \<union> set (br_closed_index br)"
proof -
  have "set (foldl (\<lambda>cs (_, dependents). foldl (\<lambda>cs k. List.insert k cs) cs dependents) acc l)
    = set acc \<union> (\<Union>(x, ks)\<in>set l. set ks)" for acc :: "key list" and l :: "(key \<times> key list) list"
    by (induction l arbitrary: acc) (auto simp: foldl_insert_set)
  then show ?thesis by (simp add: fork_candidates_def foldl_insert_set)
qed

lemma fork_candidates_edges:
  assumes "branch_of st b = Some br"
  shows "set (edges st b x) \<subseteq> set (fork_candidates br)" "closed_set st b \<subseteq> set (fork_candidates br)"
proof -
  show "set (edges st b x) \<subseteq> set (fork_candidates br)"
    using assms map_of_SomeD [of "br_rdeps br" x]
    by (cases "map_of (br_rdeps br) x") (auto simp: fork_candidates_set edges_def rdeps_of_def)
qed (use assms in \<open>auto simp: fork_candidates_set closed_set_def\<close>)

lemma holds_premise:
  assumes "holds E st x b s" "p \<in> set (cert_premises E x)"
  shows "rev_at st (premise_key p) b s = Some (premise_revision p)"
    "\<not> is_asserted st (premise_key p) \<Longrightarrow> vcert st (premise_key p) b s \<noteq> None"
proof -
  show r: "rev_at st (premise_key p) b s = Some (premise_revision p)" using assms by (simp add: holds_def)
  assume "\<not> is_asserted st (premise_key p)"
  with r show "vcert st (premise_key p) b s \<noteq> None" by (auto simp: rev_at_def)
qed

lemma vclaim_own:
  "claim_at st k b = Some c \<Longrightarrow> vclaim st k b s = (if covers (claim_window c) s then Some (b, c) else None)"
  by (simp add: vclaim_def chain_own own_claim_def)

lemma vclaim_constant:
  "wf_tree st \<Longrightarrow> is_live st b \<Longrightarrow> claim_at st k b = None \<Longrightarrow> vclaim st k b s = vclaim st k b s'"
  unfolding vclaim_def by (rule tree.chain_constant) (auto simp: wlive_def own_claim_def)

lemma undecided_at_iff:
  "undecided_at st b s k = Some c \<longleftrightarrow>
     claim_at st k b = Some c \<and> covers (claim_window c) s \<and> \<not> is_open (claim_window c)"
proof
  assume "undecided_at st b s k = Some c"
  then have v: "vclaim st k b s = Some (b, c)" and o: "\<not> is_open (claim_window c)"
    by (auto simp: undecided_at_def split: option.splits if_splits)
  from v have "claim_at st k b = Some c" by (rule vclaim_claim_at)
  with v o vclaim_own [of st k b c s] show "claim_at st k b = Some c \<and> covers (claim_window c) s \<and> \<not> is_open (claim_window c)"
    by (auto split: if_splits)
next
  assume "claim_at st k b = Some c \<and> covers (claim_window c) s \<and> \<not> is_open (claim_window c)"
  with vclaim_own [of st k b c s] show "undecided_at st b s k = Some c" by (simp add: undecided_at_def)
qed

lemma undecided_closed:
  assumes "wf_core st" "undecided_at st b s k = Some c"
  shows "k \<in> closed_set st b"
proof -
  from assms(2) have c: "claim_at st k b = Some c" "covers (claim_window c) s" "\<not> is_open (claim_window c)"
    by (simp_all add: undecided_at_iff)
  from c(2,3) have "is_nonempty_closed (claim_window c)"
    by (auto simp: covers_def is_open_def is_nonempty_closed_def split: option.splits)
  with c(1) wf_coreD(5) [OF assms(1)] wf_store_claim_live [OF wf_coreD(4) [OF assms(1)]] show ?thesis
    by (auto simp: closed_exact_def)
qed

text \<open>A claim that needs no decision is the one attached at the head, and an attached claim that is
  resolved at the version forked from needs no decision.\<close>

lemma decided_attached:
  assumes wf: "wf_core st" and live: "is_live st b" and le: "s \<le> hseq st b" and d: "decided_at st b s k = Some x"
  shows "vcert st k b (hseq st b) = Some x"
proof -
  from d obtain ow c where v: "vclaim st k b s = Some (ow, c)" "x = claim_cert c" "\<not> (ow = b \<and> \<not> is_open (claim_window c))"
    by (auto simp: decided_at_def split: option.splits if_splits)
  show ?thesis
  proof (cases "claim_at st k b")
    case None
    with v vclaim_constant [OF wf_coreD(1) [OF wf] live, of k s "hseq st b"] show ?thesis by (simp add: vcert_def)
  next
    case (Some c')
    with v vclaim_own [of st k b c' s] have "ow = b" "c' = c" "covers (claim_window c) s" by (auto split: if_splits)
    with v(3) le have "covers (claim_window c) (hseq st b)" by (auto simp: covers_def is_open_def split: option.splits)
    with vclaim_own [OF Some, of "hseq st b"] v(2) \<open>c' = c\<close> show ?thesis by (simp add: vcert_def)
  qed
qed

lemma attached_decided:
  assumes wf: "wf_core st" and live: "is_live st b"
    and h: "vcert st k b (hseq st b) = Some x" and s: "vcert st k b s \<noteq> None"
  shows "decided_at st b s k = Some x" "undecided_at st b s k = None"
proof -
  have "decided_at st b s k = Some x \<and> undecided_at st b s k = None"
  proof (cases "claim_at st k b")
    case None
    with h vclaim_constant [OF wf_coreD(1) [OF wf] live, of k s "hseq st b"] obtain ow c
      where v: "vclaim st k b s = Some (ow, c)" "x = claim_cert c" by (auto simp: vcert_def)
    from vclaim_claim_at [OF v(1)] None have "ow \<noteq> b" by auto
    with v show ?thesis by (simp add: decided_at_def undecided_at_def)
  next
    case (Some c)
    with h s vclaim_own [OF Some] have c: "covers (claim_window c) (hseq st b)" "x = claim_cert c"
      "vclaim st k b s = Some (b, c)" by (auto simp: vcert_def split: if_splits)
    have "window_ok st b (claim_window c)" using wf_coreD(2) [OF wf] Some by (simp add: wf_claims_def)
    with c(1) have "is_open (claim_window c)"
      by (auto simp: window_ok_def covers_def is_open_def split: option.splits)
    with c show ?thesis by (simp add: decided_at_def undecided_at_def)
  qed
  then show "decided_at st b s k = Some x" "undecided_at st b s k = None" by auto
qed

text \<open>The premises of a claim that needs no decision need none either.\<close>

lemma decided_premises:
  assumes inv: "wf_core st" "supported_at E st b" and live: "is_live st b" and s: "fseq st b \<le> s" "s \<le> hseq st b"
    and d: "decided_at st b s k = Some x"
  shows "holds E st x b s" "p \<in> set (cert_premises E x) \<Longrightarrow> \<not> is_asserted st (premise_key p)
    \<Longrightarrow> (\<exists>y. decided_at st b s (premise_key p) = Some y) \<and> undecided_at st b s (premise_key p) = None"
proof -
  have h: "vcert st k b (hseq st b) = Some x" by (rule decided_attached [OF inv(1) live s(2) d])
  have "undecided_at st b s k = None" using d by (auto simp: undecided_at_def decided_at_def split: option.splits if_splits)
  with d have "vcert st k b s = Some x" by (simp add: vcert_decided)
  then show hs: "holds E st x b s" using supported_holds [OF inv(2) h s] by simp
  have hh: "holds E st x b (hseq st b)"
    by (rule supported_holds [OF inv(2) h]) (use h wf_tree_seqs [OF wf_coreD(1) [OF inv(1)] live] in auto)
  assume p: "p \<in> set (cert_premises E x)" "\<not> is_asserted st (premise_key p)"
  have "vcert st (premise_key p) b s \<noteq> None" "vcert st (premise_key p) b (hseq st b) \<noteq> None"
    using holds_premise(2) [OF hs p] holds_premise(2) [OF hh p] by auto
  then show "(\<exists>y. decided_at st b s (premise_key p) = Some y) \<and> undecided_at st b s (premise_key p) = None"
    using attached_decided [OF inv(1) live] by blast
qed


section \<open>What a fork leaves\<close>

text \<open>The new branch \<open>c\<close> answers as the version forked from, but for the undecided claims that are not
  supported there.\<close>

definition settled ::
  "('p, 'd, 'a) env \<Rightarrow> ('p, 'd, 'a) core_state \<Rightarrow> branch_id \<Rightarrow> seq \<Rightarrow> branch_id \<Rightarrow> ('p, 'a) claim key_map \<Rightarrow> key set
   \<Rightarrow> ('p, 'd, 'a) core_state \<Rightarrow> bool" where
  "settled E st b s c und S st' \<longleftrightarrow> wf_core st' \<and> same_world st st'
     \<and> (\<forall>k d. claim_at st' k d = (if d = c \<and> k \<in> fst ` set und - S
          then map_option (shadow (fseq st c)) (map_of und k) else claim_at st k d))
     \<and> (\<forall>d x. set (edges st d x) \<subseteq> set (edges st' d x))
     \<and> (\<forall>k x p. vcert st k b s = Some x \<longrightarrow> k \<notin> fst ` set und - S \<longrightarrow> p \<in> set (cert_premises E x)
          \<longrightarrow> (decided_at st b s k \<noteq> None \<longrightarrow> k \<in> set (edges st b (premise_key p)))
          \<longrightarrow> k \<in> set (edges st' c (premise_key p)))"

lemma fork_settles:
  assumes wf: "wf_core st" and live: "is_live st b" "is_live st c" and br: "branch_of st b = Some br"
  shows "\<exists>att und p ws r S st' att' st''. partition_candidates st b (Version b s) (fork_candidates br) [] [] = Some (att, und)
    \<and> scan_undecided E st (Version b s) und und [] [] [] = Some (p, ws, r) \<and> support_loop ws p r [] = Some S
    \<and> settle_undecided st c (fseq st c) S und att = Some (st', att') \<and> register_all E st' c att' = Some st''
    \<and> map_of und = undecided_at st b s \<and> (\<forall>k. k \<in> set S \<longleftrightarrow> well_supported E st b s und k)
    \<and> settled E st b s c und (set S) st''"
proof -
  let ?cs = "fork_candidates br"
  from partition_candidates_correct [OF wf live(1), of s ?cs "[]" "[]"] obtain att und where
    P: "partition_candidates st b (Version b s) ?cs [] [] = Some (att, und)"
    and att: "set att = {x. \<exists>k\<in>set ?cs. decided_at st b s k = Some x}"
    and und: "\<forall>k. map_of und k = (if k \<in> set ?cs \<and> undecided_at st b s k \<noteq> None then undecided_at st b s k else None)"
    and d: "distinct (map fst und)" by auto
  have cand: "k \<in> set ?cs" if "undecided_at st b s k = Some x" for k x
    using undecided_closed [OF wf that] fork_candidates_edges(2) [OF br] by blast
  have M: "map_of und = undecided_at st b s"
    by (rule ext) (use und cand in \<open>force split: if_splits\<close>)
  from support_computed [OF wf_coreD(1) [OF wf] live(1) d, of E s] obtain p ws r S where
    C: "scan_undecided E st (Version b s) und und [] [] [] = Some (p, ws, r)" "support_loop ws p r [] = Some S"
    and S: "\<forall>k. k \<in> set S \<longleftrightarrow> well_supported E st b s und k" by auto
  have entry: "claim_at st k b = Some x" if "(k, x) \<in> set und" for k x
    using that d M by (auto simp: map_of_eq_Some_iff [symmetric] undecided_at_iff)
  have "\<forall>(k, x)\<in>set und. \<not> is_asserted st k \<and> cert_key (claim_cert x) = k"
    using entry wf_coreD(2) [OF wf] asserted_no_claim [OF wf_coreD(4) [OF wf]] by (fastforce simp: wf_claims_def)
  from settle_undecided_correct [OF wf live(2) d this, of S att] obtain st' att' where
    T: "settle_undecided st c (fseq st c) S und att = Some (st', att')" "wf_core st'" "same_world st st'"
      "edges st' = edges st"
    and cl: "\<forall>k d. claim_at st' k d = (if d = c \<and> k \<in> fst ` set und - set S
         then map_option (shadow (fseq st c)) (map_of und k) else claim_at st k d)"
    and att': "set att' = set att \<union> {claim_cert x | k x. (k, x) \<in> set und \<and> k \<in> set S}" by auto
  have "is_live st' c" using live(2) same_world_views [OF T(3)] by simp
  from register_all_correct [OF T(2) this, of E att'] obtain st'' where
    R: "register_all E st' c att' = Some st''" "wf_core st''" "same_world st' st''" "claim_at st'' = claim_at st'"
    and ed: "\<forall>d x. set (edges st'' d x) = set (edges st' d x) \<union>
         (if d = c then {cert_key y | y. y \<in> set att' \<and> x \<in> premise_key ` set (cert_premises E y)} else {})" by auto
  have edge: "k \<in> set (edges st'' c (premise_key p))"
    if v: "vcert st k b s = Some x" "k \<notin> fst ` set und - set S" and p: "p \<in> set (cert_premises E x)"
      and c: "decided_at st b s k \<noteq> None \<longrightarrow> k \<in> set (edges st b (premise_key p))" for k x p
  proof -
    have "x \<in> set att'"
    proof (cases "undecided_at st b s k")
      case None
      then have "decided_at st b s k = Some x" using v by (simp add: vcert_decided)
      moreover from this c have "k \<in> set ?cs" using fork_candidates_edges(1) [OF br] by blast
      ultimately show ?thesis using att att' by auto
    next
      case (Some y)
      then have "(k, y) \<in> set und" using M d by (auto simp: map_of_eq_Some_iff [symmetric])
      moreover have "x = claim_cert y" using v Some by (simp add: vcert_decided)
      ultimately show ?thesis using att' v(2) by force
    qed
    moreover have "cert_key x = k" using vcert_key [OF wf_coreD(2) [OF wf] v(1)] by simp
    ultimately show ?thesis using ed p by auto
  qed
  have "settled E st b s c und (set S) st''"
    unfolding settled_def using R(2,4) same_world_trans [OF T(3) R(3)] cl ed T(4) edge by auto
  with P C T(1) R(1) M S show ?thesis by blast
qed


definition fresh_child :: "('p, 'd, 'a) core_state \<Rightarrow> branch_id \<Rightarrow> seq \<Rightarrow> branch_id \<Rightarrow> bool" where
  "fresh_child st b s c \<longleftrightarrow> wf_core st \<and> is_live st b \<and> is_live st c \<and> par st c = Some (Version b s)
     \<and> fseq st b \<le> s \<and> s \<le> hseq st b \<and> fseq st c = hseq st c \<and> Suc c = length (branches st)
     \<and> (\<forall>k. claim_at st k c = None \<and> dirts st k c = [] \<and> hist st k c = [])"

lemma fresh_child_answers:
  assumes f: "fresh_child st b s c"
  shows "ventry st k c q = ventry st k b s" "vdirt st k c q = vdirt st k b s"
    "eps_at st k c q = eps_at st k b s" "b < c"
proof -
  have wl: "wlive st c" and p: "par st c = Some (Version b s)" using f by (auto simp: fresh_child_def wlive_def wf_core_def)
  show "ventry st k c q = ventry st k b s"
    unfolding ventry_def using tree.chain_delegate [OF wl _ p, of "own_entry (hist st k)" q] f
    by (simp add: fresh_child_def own_entry_def)
  show vd: "vdirt st k c q = vdirt st k b s"
    unfolding vdirt_def using tree.chain_delegate [OF wl _ p, of "own_entry (dirts st k)" q] f
    by (simp add: fresh_child_def own_entry_def)
  then show "eps_at st k c q = eps_at st k b s" by (simp add: eps_at_def)
  show "b < c" using wl p tree.live_parent [OF wl p] by simp
qed

lemma settled_answers:
  assumes f: "fresh_child st b s c" and t: "settled E st b s c und S st'"
  shows "is_live st d \<Longrightarrow> d \<noteq> c \<Longrightarrow> vcert st' k d q = vcert st k d q"
    "map_of und = undecided_at st b s \<Longrightarrow>
      vcert st' k c q = (if k \<in> fst ` set und - S then None else vcert st k b s)"
proof -
  have sw: "same_world st st'" and cl: "\<And>k d. claim_at st' k d = (if d = c \<and> k \<in> fst ` set und - S
          then map_option (shadow (fseq st c)) (map_of und k) else claim_at st k d)"
    using t by (auto simp: settled_def)
  note v = same_world_views [OF sw]
  have old: "vcert st' k d q = vcert st k d q" if "d < c" for k d q
  proof -
    have "own_claim st' k x = own_claim st k x" if "x \<le> d" for x
      using that \<open>d < c\<close> by (intro ext) (simp add: own_claim_def cl)
    then have "vclaim st' k d q = vclaim st k d q"
      unfolding vclaim_def v by (intro chain_cong_le) simp_all
    then show ?thesis by (simp add: vcert_def)
  qed
  show "vcert st' k d q = vcert st k d q" if "is_live st d" "d \<noteq> c"
    using that f old [of d] by (simp add: fresh_child_def is_live_def)
  have wl: "wlive st' c" and p: "par st' c = Some (Version b s)"
    using f t v by (auto simp: fresh_child_def wlive_def settled_def wf_core_def)
  show "vcert st' k c q = (if k \<in> fst ` set und - S then None else vcert st k b s)" if M: "map_of und = undecided_at st b s"
  proof (cases "k \<in> fst ` set und - S")
    case True
    then obtain x where "map_of und k = Some x" using map_of_eq_None_iff [of und k] by auto
    with True have "claim_at st' k c = Some (shadow (fseq st c) x)" by (simp add: cl)
    then show ?thesis using True by (simp add: vcert_def vclaim_own shadow_def)
  next
    case False
    then have "claim_at st' k c = claim_at st k c" unfolding cl by auto
    then have "own_claim st' k c q = None" using f by (simp add: own_claim_def fresh_child_def)
    from tree.chain_delegate [where own = "own_claim st' k" and s = q, OF wl this p] have "vcert st' k c q = vcert st' k b s"
      by (simp add: vcert_def vclaim_def)
    then show ?thesis using False old [OF fresh_child_answers(4) [OF f]] by (simp only: if_False)
  qed
qed

lemma settled_supported:
  assumes f: "fresh_child st b s c" and t: "settled E st b s c und (Collect (well_supported E st b s und)) st'"
    and M: "map_of und = undecided_at st b s" and sup: "supported_at E st b"
  shows "supported_at E st' c"
proof -
  let ?S = "Collect (well_supported E st b s und)" and ?out = "fst ` set und - Collect (well_supported E st b s und)"
  have wf: "wf_core st" and lb: "is_live st b" and s: "fseq st b \<le> s" "s \<le> hseq st b"
    using f by (auto simp: fresh_child_def)
  have sw: "same_world st st'" using t by (simp add: settled_def)
  note v = same_world_views [OF sw] and va = same_world_asserted_views [OF sw] and fa = fresh_child_answers [OF f]
  note vc = settled_answers(2) [OF f t M]
  have U: "k \<in> fst ` set und \<longleftrightarrow> undecided_at st b s k \<noteq> None" for k
    using map_of_eq_None_iff [of und k] M by simp
  have rev: "rev_at st' k c q = rev_at st k b s" if "k \<notin> ?out" for k q
  proof -
    have "vcert st' k c q = vcert st k b s" unfolding vc using that by auto
    then show ?thesis by (simp add: rev_at_def va v fa)
  qed
  have asserted: "k \<notin> ?out" if "is_asserted st k" for k
    using vclaim_asserted [OF wf_coreD(4) [OF wf] that, of b s] U [of k] by (simp add: undecided_at_def)
  have ok: "holds E st x b s \<and> (\<forall>p\<in>set (cert_premises E x). premise_key p \<notin> ?out)"
    if k: "vcert st k b s = Some x" "k \<notin> ?out" for k x
  proof (cases "undecided_at st b s k")
    case None
    with k have d: "decided_at st b s k = Some x" by (simp add: vcert_decided)
    note dp = decided_premises [OF wf sup lb s d]
    have "premise_key p \<notin> ?out" if "p \<in> set (cert_premises E x)" for p
      using dp(2) [OF that] asserted U by blast
    with dp(1) show ?thesis by blast
  next
    case (Some y)
    then have "well_supported E st b s und k" using k U by auto
    then show ?thesis
    proof cases
      case (step y')
      then have "y' = y" "x = claim_cert y" using Some M k by (simp_all add: vcert_decided)
      moreover have "cert_key (claim_cert y) = k"
        using vcert_key [OF wf_coreD(2) [OF wf] k(1)] \<open>x = claim_cert y\<close> by simp
      ultimately show ?thesis using step(2,3) map_of_eq_None_iff [of und]
        by (auto simp: claim_ok_def premises_hold_def holds_def)
    qed
  qed
  have hold: "holds E st' x c q" if "vcert st k b s = Some x" "k \<notin> ?out" for k x q
    using ok [OF that] rev by (auto simp: holds_def va fa)
  have dec: "grounded E st' c (hseq st c) k" if "decided_at st b s k \<noteq> None" for k
  proof -
    from that obtain x where x: "decided_at st b s k = Some x" by blast
    have "grounded E st b (hseq st b) k"
      by (rule supported_grounded [OF sup decided_attached [OF wf lb s(2) x]])
    then show ?thesis
    proof (rule grounded_transfer [where P = "\<lambda>k. decided_at st b s k \<noteq> None"])
      fix k y assume y: "vcert st k b (hseq st b) = Some y" and d: "decided_at st b s k \<noteq> None"
      from d obtain z where z: "decided_at st b s k = Some z" by blast
      have "z = y" using decided_attached [OF wf lb s(2) z] y by simp
      have u: "undecided_at st b s k = None" using z by (auto simp: undecided_at_def decided_at_def split: option.splits if_splits)
      then have "vcert st k b s = Some y" using z \<open>z = y\<close> by (simp add: vcert_decided)
      then have "vcert st' k c (hseq st c) = Some y" using u U [of k] by (simp add: vc)
      moreover have "decided_at st b s (premise_key p) \<noteq> None" if "p \<in> set (cert_premises E y)" "\<not> is_asserted st (premise_key p)" for p
        using decided_premises(2) [OF wf sup lb s z] that \<open>z = y\<close> by auto
      ultimately show "vcert st' k c (hseq st c) = Some y
        \<and> (\<forall>p\<in>set (cert_premises E y). is_asserted st (premise_key p) \<longrightarrow> is_asserted st' (premise_key p))
        \<and> (\<forall>p\<in>set (cert_premises E y). \<not> is_asserted st (premise_key p) \<longrightarrow> decided_at st b s (premise_key p) \<noteq> None)"
        by (auto simp: v)
    qed (rule that)
  qed
  have und: "grounded E st' c (hseq st c) k" if "well_supported E st b s und k" for k
    using that
  proof induction
    case (step k y)
    have k: "vcert st k b s = Some (claim_cert y)" "k \<notin> ?out"
      using step well_supported.step [of und k y E st b s] M by (auto simp: vcert_decided)
    show ?case
    proof (rule grounded.ground)
      show "vcert st' k c (hseq st c) = Some (claim_cert y)" using k by (simp add: vc)
      fix p assume p: "p \<in> set (cert_premises E (claim_cert y))"
      show "is_asserted st' (premise_key p) \<or> grounded E st' c (hseq st c) (premise_key p)"
      proof (cases "is_asserted st (premise_key p)")
        case False
        from holds_premise(2) [OF conjunct1 [OF ok [OF k]] p False] have vp: "vcert st (premise_key p) b s \<noteq> None" .
        show ?thesis
        proof (cases "undecided_at st b s (premise_key p)")
          case None
          with vp have "decided_at st b s (premise_key p) \<noteq> None" by (simp add: vcert_decided)
          from dec [OF this] show ?thesis by simp
        next
          case (Some z)
          then show ?thesis using step.IH [OF p] M by simp
        qed
      qed (simp add: v)
    qed
  qed
  show ?thesis
    unfolding supported_at_def
  proof (intro allI impI conjI ballI)
    fix k x assume "vcert st' k c (hseq st' c) = Some x"
    then have k: "vcert st k b s = Some x" "k \<notin> ?out" by (auto simp: vc split: if_splits)
    show "holds E st' x c q" for q by (rule hold [OF k])
    show "grounded E st' c (hseq st' c) k"
      using dec [of k] und [of k] k U [of k] by (cases "undecided_at st b s k") (auto simp: v vcert_decided)
    fix p assume p: "p \<in> set (cert_premises E x)"
    have "k \<in> set (edges st b (premise_key p))" if "decided_at st b s k \<noteq> None"
    proof -
      from that obtain z where z: "decided_at st b s k = Some z" by blast
      have "undecided_at st b s k = None" using z by (auto simp: undecided_at_def decided_at_def split: option.splits if_splits)
      then have "z = x" using z k by (simp add: vcert_decided)
      with supported_edges [OF sup decided_attached [OF wf lb s(2) z]] p show ?thesis by simp
    qed
    then show "k \<in> set (edges st' c (premise_key p))" using t k p unfolding settled_def by blast
  qed
qed


definition forked :: "('p, 'd, 'a) env \<Rightarrow> ('p, 'd, 'a) core_state \<Rightarrow> branch_id \<Rightarrow> seq \<Rightarrow> branch_id \<Rightarrow> ('p, 'd, 'a) core_state \<Rightarrow> bool" where
  "forked E st b s c st' \<longleftrightarrow>
     is_live st' = (is_live st)(c := True) \<and> par st' = (par st)(c := Some (Version b s))
     \<and> fseq st' = (fseq st)(c := seq_FIRST) \<and> hseq st' = (hseq st)(c := seq_FIRST)
     \<and> hist st' = hist st \<and> dirts st' = dirts st \<and> is_asserted st' = is_asserted st
     \<and> (\<forall>d k q. is_live st d \<longrightarrow> vcert st' k d q = vcert st k d q
          \<and> ventry st' k d q = ventry st k d q \<and> eps_at st' k d q = eps_at st k d q)
     \<and> (\<forall>k q. ventry st' k c q = ventry st k b s \<and> eps_at st' k c q = eps_at st k b s
          \<and> vcert st' k c q \<in> {None, vcert st k b s})
     \<and> (\<forall>k q. vcert st k b (hseq st b) \<noteq> None \<longrightarrow> vcert st' k c q = vcert st k b s)
     \<and> all_certs st' \<subseteq> all_certs st \<and> length (branches st') = Suc (length (branches st))"

lemma fork_correct:
  assumes inv: "core_inv E st" and live: "is_live st b" and s: "fseq st b \<le> s" "s \<le> hseq st b"
    and room: "length (branches st) \<le> u32_max"
  shows "\<exists>st'. fork E st (Version b s) = Some (length (branches st), st') \<and> core_inv E st'
    \<and> forked E st b s (length (branches st)) st'"
proof -
  let ?c = "length (branches st)"
  let ?st0 = "st\<lparr>branches := branches st @ [Some (branch_forked (Version b s))]\<rparr>"
  obtain pbr where pbr: "branch_of st b = Some pbr" using live is_live_Some by blast
  have ne: "b \<noteq> ?c" using is_live_less [OF live] by simp
  have "is_live ?st0 b" using live branch_of_append [of st] ne by (simp add: is_live_branch_of)
  then have "\<exists>st1. branch_mut ?st0 b (\<lambda>br. Some (br\<lparr>br_children := br_children br @ [(?c, s)]\<rparr>)) = Some st1"
    by (rule branch_mut_total) simp
  then obtain st1 where m: "branch_mut ?st0 b (\<lambda>br. Some (br\<lparr>br_children := br_children br @ [(?c, s)]\<rparr>)) = Some st1" ..
  have g: "grown st ?c (Some (Version b s)) st1" by (rule fork_grown [OF live m])
  have wf0: "wf_core st" using inv by (simp add: core_inv_def)
  note gv = grown_views [OF g] and gf = grown_fresh [OF g wf_coreD(4) [OF wf0]] and ga = grown_answers [OF g]
  have tree1: "is_live st1 = (is_live st)(?c := True)" "par st1 = (par st)(?c := Some (Version b s))"
    "fseq st1 = (fseq st)(?c := seq_FIRST)" "hseq st1 = (hseq st)(?c := seq_FIRST)"
    "edges st1 = edges st" "length (branches st1) = Suc ?c"
    using g by (simp_all add: grown_def)
  have wf1: "wf_core st1" by (rule grown_wf [OF g wf0 _ room]) (use live s in \<open>simp add: fork_point_def\<close>)
  have f: "fresh_child st1 b s ?c" using wf1 live s ne gf gv by (simp add: fresh_child_def tree1)
  have live1: "is_live st1 b" "is_live st1 ?c" using live by (simp_all add: tree1)
  obtain br where br: "branch_of st1 b = Some br" using live1(1) is_live_Some by blast
  obtain cbr where cbr: "branch_of st1 ?c = Some cbr" using live1(2) is_live_Some by blast
  have first: "br_first cbr = fseq st1 ?c" using cbr by (simp add: fseq_def)
  from fork_settles [OF wf1 live1 br, of s E] obtain att und p ws r S st2 att' st3 where
    ops: "partition_candidates st1 b (Version b s) (fork_candidates br) [] [] = Some (att, und)"
      "scan_undecided E st1 (Version b s) und und [] [] [] = Some (p, ws, r)" "support_loop ws p r [] = Some S"
      "settle_undecided st1 ?c (fseq st1 ?c) S und att = Some (st2, att')" "register_all E st2 ?c att' = Some st3"
    and M: "map_of und = undecided_at st1 b s" and S: "\<forall>k. k \<in> set S \<longleftrightarrow> well_supported E st1 b s und k"
    and t: "settled E st1 b s ?c und (set S) st3" by (elim exE conjE) (rule that)
  have set_S: "set S = Collect (well_supported E st1 b s und)" using S by auto
  have run: "fork E st (Version b s) = Some (?c, st3)"
    proof -
    have "br_first pbr \<le> s \<and> s \<le> br_head pbr" using s pbr by (simp add: fseq_def hseq_def)
    moreover have "branch_from_index ?c = Some ?c" using room by (simp add: branch_from_index_def)
    ultimately show ?thesis using m pbr br cbr ops unfolding fork_def Let_def by (simp add: first)
  qed
  have sw: "same_world st1 st3" using t by (simp add: settled_def)
  note v = same_world_views [OF sw] and va = same_world_asserted_views [OF sw] and fa = fresh_child_answers [OF f]
  note sa = settled_answers(1) [OF f t] settled_answers(2) [OF f t M]
  have old: "vcert st3 k d q = vcert st1 k d q" if "is_live st d" for d k q
    using sa(1) [of d k q] that gf(1) by (auto simp: tree1)
  have sup: "supported_at E st3 d" if d: "is_live st3 d" for d
  proof (cases "d = ?c")
    case True
    have "supported_at E st1 b" by (rule grown_supported [OF g inv live])
    then show ?thesis using settled_supported [OF f t [unfolded set_S] M] True by simp
  next
    case False
    with d have l: "is_live st d" by (simp add: v tree1)
    show ?thesis
    proof (rule supported_same_answers [of st1 st3 d])
      show "same_answers st1 st3 d" using old [OF l] by (simp add: same_answers_def v va rev_at_def)
      show "supported_at E st1 d" by (rule grown_supported [OF g inv l])
      show "set (edges st1 d x) \<subseteq> set (edges st3 d x)" for x using t by (simp add: settled_def)
      show "fseq st1 d \<le> hseq st1 d" using wf_tree_seqs [OF wf_coreD(1) [OF wf1]] d v by simp
    qed
  qed
  have wf3: "wf_core st3" using t by (simp add: settled_def)
  have keep: "vcert st3 k ?c q = vcert st k b s" if "vcert st k b (hseq st b) \<noteq> None" for k q
  proof (cases "vcert st1 k b s")
    case None
    then show ?thesis using ga(1) [OF live] by (simp add: sa(2))
  next
    case (Some x)
    have "hseq st1 b = hseq st b" using ne by (simp add: tree1)
    with that ga(1) [OF live] obtain y where "vcert st1 k b (hseq st1 b) = Some y" by auto
    from attached_decided(2) [OF wf1 live1(1) this] Some have "undecided_at st1 b s k = None" by simp
    then have "k \<notin> fst ` set und" using M map_of_eq_None_iff [of und k] by simp
    then show ?thesis using ga(1) [OF live] by (simp add: sa(2))
  qed
  have certs: "all_certs st3 \<subseteq> all_certs st"
  proof -
    have "x \<in> all_certs st1" if x: "claim_at st3 k d = Some y" "x = claim_cert y" for k d x y
    proof (cases "d = ?c \<and> k \<in> fst ` set und - set S")
      case True
      with x t have "map_option (shadow (fseq st1 ?c)) (map_of und k) = Some y" by (simp add: settled_def)
      then obtain z where "map_of und k = Some z" "y = shadow (fseq st1 ?c) z" by auto
      then show ?thesis using M x(2) by (auto simp: undecided_at_iff shadow_def intro: all_certsI)
    next
      case False
      with x t have "claim_at st1 k d = Some y" unfolding settled_def by auto
      with x(2) show ?thesis by (auto intro: all_certsI)
    qed
    then have "all_certs st3 \<subseteq> all_certs st1" unfolding all_certs_def [of st3] by blast
    then show ?thesis using gv(5) by simp
  qed
  have child: "vcert st3 k ?c q \<in> {None, vcert st k b s}" for k q
    unfolding sa(2) using ga(1) [OF live] by auto
  have "forked E st b s ?c st3"
    unfolding forked_def using keep certs child by (simp add: v va tree1 gv old ga fa live)
  with run wf3 sup show ?thesis by (auto simp: core_inv_def)
qed

end
