(* ===== verification/Dice_Delete.thy ===== *)
theory Dice_Delete
  imports Dice_Fork
begin

text \<open>
  Deleting a branch: \<^verbatim>\<open>delete_branch\<close> and \<^verbatim>\<open>materialize_inheritance\<close> of
  \<^verbatim>\<open>dice/dice_core/src/state.rs\<close>. The children of the deleted branch get their own copy of what they
  resolved through it and move to its parent. The section on views says what each step leaves, and
  \<open>delete_branch_correct\<close> that the call returns, that every surviving version resolves as before, and
  that the invariants hold.
\<close>

section \<open>delete_branch of state.rs\<close>

definition entry_at_first :: "seq \<Rightarrow> ('r, 'd) entry \<Rightarrow> ('r, 'd) entry" where
  "entry_at_first first entry =
     \<lparr>entry_seq = first, entry_revision = entry_revision entry, entry_data = entry_data entry\<rparr>"

definition starts_after :: "seq \<Rightarrow> ('r, 'd) history \<Rightarrow> bool" where
  "starts_after first h = (case history_first h of None \<Rightarrow> True | Some own \<Rightarrow> first < entry_seq own)"

text \<open>One key of the first loop of \<^verbatim>\<open>materialize_inheritance\<close>.\<close>

definition materialize_slot ::
  "branch_id \<Rightarrow> seq \<Rightarrow> branch_id \<Rightarrow> seq \<Rightarrow> ('p, 'd, 'a) core_state \<Rightarrow> key
   \<Rightarrow> ('p, 'd, 'a) core_state option" where
  "materialize_slot b fork_seq child first st key = do {
     slot \<leftarrow> slot_of st key b;
     let claim = map_option (\<lambda>claim.
       \<lparr>claim_cert = claim_cert claim,
        claim_window = (if covers (claim_window claim) fork_seq then window_open first
                        else window_empty first),
        claim_attribute = claim_attribute claim\<rparr>) (slot_claim slot);
     let dirty = map_option (entry_at_first first) (history_at (slot_untracked slot) fork_seq);
     st1 \<leftarrow> (case claim of
         None \<Rightarrow> Some st
       | Some c \<Rightarrow>
           if (case slot_of st key child of None \<Rightarrow> True | Some slot \<Rightarrow> slot_claim slot = None)
           then set_claim st key child (Some c) else Some st);
     (case dirty of
        None \<Rightarrow> Some st1
      | Some entry \<Rightarrow> do {
          let st2 = slot_or_insert st1 key child;
          own \<leftarrow> slot_of st2 key child;
          if starts_after first (slot_untracked own)
          then do {
            h \<leftarrow> history_insert_first (slot_untracked own) entry;
            Some (slot_mut st2 key child (\<lambda>slot. slot\<lparr>slot_untracked := h\<rparr>)) }
          else Some st2 }) }"

text \<open>One key of its second loop.\<close>

definition materialize_assertion ::
  "branch_id \<Rightarrow> seq \<Rightarrow> branch_id \<Rightarrow> seq \<Rightarrow> ('p, 'd, 'a) core_state \<Rightarrow> key
   \<Rightarrow> ('p, 'd, 'a) core_state option" where
  "materialize_assertion b fork_seq child first st key = do {
     histories \<leftarrow> map_of (assertions st) key;
     (case history_of histories b \<bind> (\<lambda>history. history_at history fork_seq) of
        None \<Rightarrow> Some st
      | Some entry \<Rightarrow>
          assertion_history_mut st key child (\<lambda>history.
            if starts_after first history
            then history_insert_first history (entry_at_first first entry) else Some history)) }"

fun try_fold :: "('s \<Rightarrow> 'x \<Rightarrow> 's option) \<Rightarrow> 's \<Rightarrow> 'x list \<Rightarrow> 's option" where
  "try_fold f s [] = Some s"
| "try_fold f s (x # xs) = do { s' \<leftarrow> f s x; try_fold f s' xs }"

definition materialize_inheritance ::
  "('p, 'd, 'a) core_state \<Rightarrow> branch_id \<Rightarrow> seq \<Rightarrow> branch_id \<Rightarrow> ('p, 'd, 'a) core_state option" where
  "materialize_inheritance st b fork_seq child = do {
     cbr \<leftarrow> branch_of st child;
     let first = br_first cbr;
     let keys = map fst (filter (\<lambda>(_, ss). \<exists>slot\<in>set ss. slot_branch slot = b) (slots st));
     st1 \<leftarrow> try_fold (materialize_slot b fork_seq child first) st keys;
     let asserted = map fst (filter (\<lambda>(_, hs). \<exists>(hb, _)\<in>set hs. hb = b) (assertions st1));
     try_fold (materialize_assertion b fork_seq child first) st1 asserted }"

text \<open>One child of the loop of \<^verbatim>\<open>delete_branch\<close>: materialise its inheritance, and hand it to the
  parent.\<close>

definition adopt_child ::
  "branch_id \<Rightarrow> version option \<Rightarrow> ('p, 'd, 'a) core_state \<Rightarrow> branch_id \<times> seq
   \<Rightarrow> ('p, 'd, 'a) core_state option" where
  "adopt_child b parent st = (\<lambda>(child, fork_seq). do {
     st1 \<leftarrow> materialize_inheritance st b fork_seq child;
     st2 \<leftarrow> branch_mut st1 child (\<lambda>br. Some (br\<lparr>br_parent := parent\<rparr>));
     (case parent of
        None \<Rightarrow> Some st2
      | Some p \<Rightarrow> branch_mut st2 (vbranch p)
          (\<lambda>br. Some (br\<lparr>br_children := br_children br @ [(child, vseq p)]\<rparr>))) })"

definition drop_slot :: "branch_id \<Rightarrow> ('p, 'd, 'a) key_slots \<Rightarrow> ('p, 'd, 'a) key_slots" where
  "drop_slot b ss = remove_first (\<lambda>slot. slot_branch slot = b) ss"

definition drop_history :: "branch_id \<Rightarrow> 'd key_assertions \<Rightarrow> 'd key_assertions" where
  "drop_history b hs = remove_first (\<lambda>(hb, _). hb = b) hs"

definition delete_branch ::
  "('p, 'd, 'a) core_state \<Rightarrow> branch_id \<Rightarrow> (key list \<times> ('p, 'd, 'a) core_state) option" where
  "delete_branch st b = do {
     branch \<leftarrow> branch_of st b;
     let st0 = st\<lparr>branches := (branches st)[b := None]\<rparr>;
     st1 \<leftarrow> try_fold (adopt_child b (br_parent branch)) st0 (br_children branch);
     st2 \<leftarrow> (case br_parent branch of
         None \<Rightarrow> Some st1
       | Some p \<Rightarrow> branch_mut st1 (vbranch p) (\<lambda>br. remove_child br b));
     let affected_slots = map fst (filter (\<lambda>(_, ss).
           (case find (\<lambda>slot. slot_branch slot = b) ss of
              None \<Rightarrow> False | Some slot \<Rightarrow> slot_claim slot \<noteq> None)) (slots st2));
     let affected_histories = map fst (filter (\<lambda>(_, hs). \<exists>(hb, _)\<in>set hs. hb = b) (assertions st2));
     Some (affected_slots @ affected_histories,
       st2\<lparr>slots := map (\<lambda>(key, ss). (key, drop_slot b ss)) (slots st2),
           assertions := map (\<lambda>(key, hs). (key, drop_history b hs)) (assertions st2)\<rparr>) }"

lemmas [op_defs] = entry_at_first_def starts_after_def materialize_slot_def materialize_assertion_def
  materialize_inheritance_def adopt_child_def drop_slot_def drop_history_def delete_branch_def


section \<open>What a child inherits\<close>

definition inherit_claim :: "seq \<Rightarrow> seq \<Rightarrow> ('p, 'a) claim option \<Rightarrow> ('p, 'a) claim option \<Rightarrow> ('p, 'a) claim option" where
  "inherit_claim first s own inherited = (case own of Some c \<Rightarrow> Some c
     | None \<Rightarrow> map_option (\<lambda>c. c\<lparr>claim_window := (if covers (claim_window c) s then window_open first else window_empty first)\<rparr>) inherited)"

definition inherit_history :: "seq \<Rightarrow> seq \<Rightarrow> ('r, 'd) history \<Rightarrow> ('r, 'd) history \<Rightarrow> ('r, 'd) history" where
  "inherit_history first s own inherited = (case history_at inherited s of None \<Rightarrow> own
     | Some e \<Rightarrow> if starts_after first own then entry_at_first first e # own else own)"

lemma inherit_nothing [simp]:
  "inherit_claim first s own None = own" "inherit_history first s h [] = h"
  by (simp_all add: inherit_claim_def inherit_history_def split: option.split)

lemma insert_first_starts_after:
  "starts_after first h \<Longrightarrow> history_insert_first h (entry_at_first first e) = Some (entry_at_first first e # h)"
  by (cases h) (auto simp: starts_after_def history_insert_first_def history_first_def entry_at_first_def)

text \<open>What a step of \<^const>\<open>materialize_inheritance\<close> leaves: the claims and the untracked histories of
  the keys \<open>KS\<close>, and the assertion histories of the keys \<open>KH\<close>, are inherited at \<open>c\<close>.\<close>

definition materialized ::
  "branch_id \<Rightarrow> seq \<Rightarrow> branch_id \<Rightarrow> key set \<Rightarrow> key set \<Rightarrow> ('p, 'd, 'a) core_state \<Rightarrow> ('p, 'd, 'a) core_state \<Rightarrow> bool" where
  "materialized b s c KS KH st st' \<longleftrightarrow> same_tree st st' \<and> edges st' = edges st \<and> closed_set st' = closed_set st
     \<and> is_asserted st' = is_asserted st \<and> (\<forall>k d. d \<noteq> c \<longrightarrow> slot_of st' k d = slot_of st k d)
     \<and> (\<forall>k. claim_at st' k c = (if k \<in> KS then inherit_claim (fseq st c) s (claim_at st k c) (claim_at st k b) else claim_at st k c))
     \<and> (\<forall>k. dirts st' k c = (if k \<in> KS then inherit_history (fseq st c) s (dirts st k c) (dirts st k b) else dirts st k c))
     \<and> (\<forall>k d. hist st' k d = (if d = c \<and> k \<in> KH then inherit_history (fseq st c) s (hist st k c) (hist st k b) else hist st k d))
     \<and> (\<forall>L. L c \<longrightarrow> wf_store_on L st \<longrightarrow> wf_store_on L st')"

lemma materialized_refl: "materialized b s c {} {} st st"
  by (simp add: materialized_def)

lemma slot_of_views:
  "slot_of st' k d = slot_of st k d \<Longrightarrow> claim_at st' k d = claim_at st k d \<and> dirts st' k d = dirts st k d"
  by (simp add: claim_at_def dirts_def)

lemma materialized_trans:
  assumes m: "materialized b s c KS KH st st1" and m': "materialized b s c KS' KH' st1 st2"
    and ne: "b \<noteq> c" and dj: "KS \<inter> KS' = {}" "KH \<inter> KH' = {}"
  shows "materialized b s c (KS \<union> KS') (KH \<union> KH') st st2"
proof -
  have b: "claim_at st1 k b = claim_at st k b" "dirts st1 k b = dirts st k b" "hist st1 k b = hist st k b" for k
    using m ne slot_of_views [of st1 k b st] by (auto simp: materialized_def)
  have f: "fseq st1 = fseq st" using m by (simp add: materialized_def same_tree_def)
  show ?thesis
    unfolding materialized_def
  proof (intro conjI allI impI)
    show "same_tree st st2" using m m' by (simp add: materialized_def same_tree_def)
    show "edges st2 = edges st" "closed_set st2 = closed_set st" "is_asserted st2 = is_asserted st"
      using m m' by (simp_all add: materialized_def)
    show "slot_of st2 k d = slot_of st k d" if "d \<noteq> c" for k d using m m' that by (simp add: materialized_def)
    show "claim_at st2 k c = (if k \<in> KS \<union> KS' then inherit_claim (fseq st c) s (claim_at st k c) (claim_at st k b) else claim_at st k c)" for k
      using m m' dj by (auto simp: materialized_def f b)
    show "dirts st2 k c = (if k \<in> KS \<union> KS' then inherit_history (fseq st c) s (dirts st k c) (dirts st k b) else dirts st k c)" for k
      using m m' dj by (auto simp: materialized_def f b)
    show "hist st2 k d = (if d = c \<and> k \<in> KH \<union> KH' then inherit_history (fseq st c) s (hist st k c) (hist st k b) else hist st k d)" for k d
      using m m' dj by (auto simp: materialized_def f b)
    show "wf_store_on L st2" if "L c" "wf_store_on L st" for L using m m' that by (simp add: materialized_def)
  qed
qed

lemma materialize_claim_step:
  assumes ne: "b \<noteq> c" and live: "is_live st c" and sl: "slot_of st k b = Some slot" and as: "\<not> is_asserted st k"
  shows "\<exists>st1. (case map_option (\<lambda>claim. \<lparr>claim_cert = claim_cert claim,
        claim_window = (if covers (claim_window claim) s then window_open (fseq st c) else window_empty (fseq st c)),
        claim_attribute = claim_attribute claim\<rparr>) (slot_claim slot) of
         None \<Rightarrow> Some st
       | Some x \<Rightarrow> if (case slot_of st k c of None \<Rightarrow> True | Some slot \<Rightarrow> slot_claim slot = None)
           then set_claim st k c (Some x) else Some st) = Some st1
    \<and> same_world st st1 \<and> edges st1 = edges st \<and> closed_set st1 = closed_set st
    \<and> (\<forall>k' d. d \<noteq> c \<or> k' \<noteq> k \<longrightarrow> slot_of st1 k' d = slot_of st k' d)
    \<and> claim_at st1 k c = inherit_claim (fseq st c) s (claim_at st k c) (claim_at st k b)
    \<and> (\<forall>L. L c \<longrightarrow> wf_store_on L st \<longrightarrow> wf_store_on L st1)"
proof -
  have own: "(case slot_of st k c of None \<Rightarrow> True | Some slot \<Rightarrow> slot_claim slot = None) \<longleftrightarrow> claim_at st k c = None"
    by (simp add: claim_at_def split: option.split)
  have inh: "claim_at st k b = slot_claim slot" using sl by (simp add: claim_at_def)
  show ?thesis
  proof (cases "slot_claim slot = None \<or> claim_at st k c \<noteq> None")
    case True
    then show ?thesis using own inh by (auto simp: inherit_claim_def split: option.splits)
  next
    case False
    then obtain x where x: "slot_claim slot = Some x" and none: "claim_at st k c = None" by auto
    let ?y = "x\<lparr>claim_window := (if covers (claim_window x) s then window_open (fseq st c) else window_empty (fseq st c))\<rparr>"
    have y: "\<lparr>claim_cert = claim_cert x,
        claim_window = (if covers (claim_window x) s then window_open (fseq st c) else window_empty (fseq st c)),
        claim_attribute = claim_attribute x\<rparr> = ?y" by simp
    obtain st1 where sc: "set_claim st k c (Some ?y) = Some st1" using set_claim_total [OF live] by blast
    note v = set_claim_views [OF sc]
    have "\<not> is_nonempty_closed (claim_window ?y)" by (simp add: is_nonempty_closed_def window_open_def window_empty_def)
    with none have "closed_set st1 d = closed_set st d" for d by (simp add: v(4))
    then have "closed_set st1 = closed_set st" by auto
    moreover have "slot_of st1 k' d = slot_of st k' d" if "d \<noteq> c \<or> k' \<noteq> k" for k' d
      using that slot_of_cong [OF v(5)] by (auto simp: slot_of_set_slot_claim)
    moreover have "claim_at st1 k c = inherit_claim (fseq st c) s (claim_at st k c) (claim_at st k b)"
      by (simp add: v(1) inh x none inherit_claim_def)
    moreover have "wf_store_on L st1" if "L c" "wf_store_on L st" for L
      by (rule wf_store_on_set_claim [OF sc that(2) as that(1)])
    ultimately show ?thesis using sc v(2,3) own none by (simp add: x y)
  qed
qed

lemma materialize_slot_correct:
  assumes ne: "b \<noteq> c" and live: "is_live st c" and sl: "slot_of st k b = Some slot" and as: "\<not> is_asserted st k"
  shows "\<exists>st'. materialize_slot b s c (fseq st c) st k = Some st' \<and> materialized b s c {k} {} st st'"
proof -
  from materialize_claim_step [OF assms, of s] obtain st1 where
    run: "(case map_option (\<lambda>claim. \<lparr>claim_cert = claim_cert claim,
        claim_window = (if covers (claim_window claim) s then window_open (fseq st c) else window_empty (fseq st c)),
        claim_attribute = claim_attribute claim\<rparr>) (slot_claim slot) of
         None \<Rightarrow> Some st
       | Some x \<Rightarrow> if (case slot_of st k c of None \<Rightarrow> True | Some slot \<Rightarrow> slot_claim slot = None)
           then set_claim st k c (Some x) else Some st) = Some st1"
    and sw: "same_world st st1" and ec: "edges st1 = edges st" "closed_set st1 = closed_set st"
    and so: "\<forall>k' d. d \<noteq> c \<or> k' \<noteq> k \<longrightarrow> slot_of st1 k' d = slot_of st k' d"
    and cl: "claim_at st1 k c = inherit_claim (fseq st c) s (claim_at st k c) (claim_at st k b)"
    and wfL: "\<forall>L. L c \<longrightarrow> wf_store_on L st \<longrightarrow> wf_store_on L st1" by (elim exE conjE) (rule that)
  note v = same_world_views [OF sw]
  have db: "dirts st k b = slot_untracked slot" using sl by (simp add: dirts_def)
  have claims: "claim_at st1 k' c = (if k' \<in> {k} then inherit_claim (fseq st c) s (claim_at st k' c) (claim_at st k' b) else claim_at st k' c)" for k'
    using cl so slot_of_views [of st1 k' c st] by simp
  show ?thesis
  proof (cases "history_at (slot_untracked slot) s")
    case None
    then have "materialize_slot b s c (fseq st c) st k = Some st1"
      using sl run by (simp add: materialize_slot_def)
    moreover have "materialized b s c {k} {} st st1"
      unfolding materialized_def using sw ec so claims wfL None
      by (auto simp: v same_world_def inherit_history_def db)
    ultimately show ?thesis by blast
  next
    case (Some e)
    let ?st2 = "slot_or_insert st1 k c"
    obtain own where own: "slot_of ?st2 k c = Some own" "slot_untracked own = dirts st1 k c" "slot_claim own = claim_at st1 k c"
      by (cases "slot_of st1 k c") (auto simp: slot_of_slot_or_insert dirts_def claim_at_def slot_new_def)
    let ?h = "inherit_history (fseq st c) s (dirts st k c) (dirts st k b)"
    let ?st' = "if starts_after (fseq st c) (dirts st1 k c) then slot_mut ?st2 k c (\<lambda>slot. slot\<lparr>slot_untracked := ?h\<rparr>) else ?st2"
    have h: "?h = (if starts_after (fseq st c) (dirts st1 k c) then entry_at_first (fseq st c) e # dirts st k c else dirts st k c)"
      using Some by (simp add: inherit_history_def db v)
    have "materialize_slot b s c (fseq st c) st k = Some ?st'"
      using sl run Some own insert_first_starts_after [of "fseq st c" "dirts st k c" e]
      by (simp add: materialize_slot_def Let_def h v)
    moreover have "materialized b s c {k} {} st ?st'"
    proof -
      have br: "branches ?st' = branches st1" "assertions ?st' = assertions st1" by auto
      note bv = branch_views_cong [OF br(1)] and av = assertion_views_cong [OF br(2)]
      have so': "slot_of ?st' k' d = slot_of st1 k' d" if "d \<noteq> c \<or> k' \<noteq> k" for k' d
        using that by (auto simp: slot_of_slot_mut slot_of_slot_or_insert)
      have kc: "claim_at ?st' k c = claim_at st1 k c" "dirts ?st' k c = ?h"
      proof -
        have "slot_of ?st' k c = Some (own\<lparr>slot_untracked := ?h\<rparr>)"
        proof (cases "starts_after (fseq st c) (dirts st1 k c)")
          case True
          then show ?thesis using own(1) by (simp add: slot_of_slot_mut)
        next
          case False
          then have "own\<lparr>slot_untracked := ?h\<rparr> = own" using own(2) h v by simp
          then show ?thesis using own(1) False by simp
        qed
        then show "claim_at ?st' k c = claim_at st1 k c" "dirts ?st' k c = ?h"
          using own(3) by (simp_all add: claim_at_def dirts_def)
      qed
      have w: "wf_store_on L ?st'" if "L c" "wf_store_on L st" for L
      proof -
        have "wf_store_on L st1" using that wfL by blast
        then have w2: "wf_store_on L ?st2" using that(1) as v(8) by (intro wf_store_on_slot_or_insert) simp_all
        have "wf_store_on L (slot_mut ?st2 k c (\<lambda>slot. slot\<lparr>slot_untracked := ?h\<rparr>))"
          by (rule wf_store_on_slot_mut [OF w2]) simp
        with w2 show ?thesis by simp
      qed
      have "slot_of ?st' k' d = slot_of st k' d" if "d \<noteq> c \<or> k' \<noteq> k" for k' d
        using so' [OF that] so that by simp
      then have other: "claim_at ?st' k' c = claim_at st k' c \<and> dirts ?st' k' c = dirts st k' c" if "k' \<noteq> k" for k'
        using slot_of_views [of ?st' k' c st] that by simp
      have tr: "same_tree st ?st'" using sw bv br(1) by (simp add: same_world_def same_tree_def)
      show ?thesis
        unfolding materialized_def
      proof (intro conjI allI impI)
        show "same_tree st ?st'" by (rule tr)
        show "edges ?st' = edges st" "closed_set ?st' = closed_set st" using bv ec by simp_all
        show "is_asserted ?st' = is_asserted st" using av v by simp
        show "slot_of ?st' k' d = slot_of st k' d" if "d \<noteq> c" for k' d using so' [of d k'] so that by simp
        show "claim_at ?st' k' c = (if k' \<in> {k} then inherit_claim (fseq st c) s (claim_at st k' c) (claim_at st k' b) else claim_at st k' c)" for k'
          using other [of k'] kc cl by auto
        show "dirts ?st' k' c = (if k' \<in> {k} then inherit_history (fseq st c) s (dirts st k' c) (dirts st k' b) else dirts st k' c)" for k'
          using other [of k'] kc by auto
        show "hist ?st' k' d = (if d = c \<and> k' \<in> {} then inherit_history (fseq st c) s (hist st k' c) (hist st k' b) else hist st k' d)" for k' d
          using av v by simp
        show "wf_store_on L ?st'" if "L c" "wf_store_on L st" for L by (rule w [OF that])
      qed
    qed
    ultimately show ?thesis by blast
  qed
qed

lemma materialize_assertion_correct:
  assumes ne: "b \<noteq> c" and live: "is_live st c" and as: "is_asserted st k" and sl: "map_of (slots st) k = None"
  shows "\<exists>st'. materialize_assertion b s c (fseq st c) st k = Some st' \<and> materialized b s c {} {k} st st'
    \<and> slots st' = slots st"
proof -
  obtain hs where hs: "map_of (assertions st) k = Some hs" using as by (auto simp: is_asserted_def)
  have hb: "(history_of hs b \<bind> (\<lambda>history. history_at history s)) = history_at (hist st k b) s"
    using hs by (simp add: hist_def split: option.split)
  show ?thesis
  proof (cases "history_at (hist st k b) s")
    case None
    then have "materialize_assertion b s c (fseq st c) st k = Some st" using hs hb by (simp add: materialize_assertion_def)
    moreover have "materialized b s c {} {k} st st"
      using None by (auto simp: materialized_def inherit_history_def)
    ultimately show ?thesis by blast
  next
    case (Some e)
    let ?f = "\<lambda>history. if starts_after (fseq st c) history
      then history_insert_first history (entry_at_first (fseq st c) e) else Some history"
    have f: "?f (hist st k c) = Some (inherit_history (fseq st c) s (hist st k c) (hist st k b))"
      using Some by (simp add: inherit_history_def insert_first_starts_after)
    then obtain st' where m: "assertion_history_mut st k c ?f = Some st'"
      using assertion_history_mut_total [of ?f st k c] by auto
    note v = assertion_history_mut_views [OF m]
    have "materialize_assertion b s c (fseq st c) st k = Some st'"
      using hs hb Some m by (simp add: materialize_assertion_def)
    moreover have "materialized b s c {} {k} st st'"
    proof -
      note bv = branch_views_cong [OF v(4)] and so = slot_of_cong [OF v(5)] and sv = slot_views_cong [OF v(5)]
      have h: "hist st' k c = inherit_history (fseq st c) s (hist st k c) (hist st k b)" using v(1) f by simp
      have a: "is_asserted st' = is_asserted st" using v(3) as by auto
      have "wf_store_on L st'" if "L c" "wf_store_on L st" for L
        by (rule wf_store_on_assertion_history_mut [OF m that(2,1) sl])
      then show ?thesis
        unfolding materialized_def using bv so sv h a v(2,4) by (auto simp: same_tree_def)
    qed
    ultimately show ?thesis using v(5) by blast
  qed
qed

lemma materialized_same_tree: "materialized b s c KS KH st st' \<Longrightarrow> fseq st' = fseq st \<and> is_live st' = is_live st"
  by (simp add: materialized_def same_tree_def)

lemma materialize_slots_fold:
  assumes "b \<noteq> c" "is_live st c" "distinct ks" "\<forall>k\<in>set ks. slot_of st k b \<noteq> None \<and> \<not> is_asserted st k"
  shows "\<exists>st'. try_fold (materialize_slot b s c (fseq st c)) st ks = Some st' \<and> materialized b s c (set ks) {} st st'"
  using assms
proof (induction ks arbitrary: st)
  case Nil
  then show ?case by (simp add: materialized_refl)
next
  case (Cons k ks)
  from Cons.prems(4) obtain slot where "slot_of st k b = Some slot" "\<not> is_asserted st k" by auto
  from materialize_slot_correct [OF Cons.prems(1,2) this, of s] obtain st1 where
    st1: "materialize_slot b s c (fseq st c) st k = Some st1" and m: "materialized b s c {k} {} st st1" by blast
  have "\<forall>k\<in>set ks. slot_of st1 k b \<noteq> None \<and> \<not> is_asserted st1 k" "is_live st1 c" "fseq st1 = fseq st"
    using Cons.prems(1,2,4) m by (auto simp: materialized_def same_tree_def)
  with Cons.IH [of st1] Cons.prems(1,3) obtain st' where
    st': "try_fold (materialize_slot b s c (fseq st c)) st1 ks = Some st'" and m': "materialized b s c (set ks) {} st1 st'" by auto
  from materialized_trans [OF m m' Cons.prems(1)] Cons.prems(3) have "materialized b s c (set (k # ks)) {} st st'" by simp
  with st1 st' show ?case by auto
qed

lemma materialize_assertions_fold:
  assumes "b \<noteq> c" "is_live st c" "distinct ks" "\<forall>k\<in>set ks. is_asserted st k \<and> map_of (slots st) k = None"
  shows "\<exists>st'. try_fold (materialize_assertion b s c (fseq st c)) st ks = Some st' \<and> materialized b s c {} (set ks) st st'"
  using assms
proof (induction ks arbitrary: st)
  case Nil
  then show ?case by (simp add: materialized_refl)
next
  case (Cons k ks)
  from Cons.prems(4) have "is_asserted st k" "map_of (slots st) k = None" by auto
  from materialize_assertion_correct [OF Cons.prems(1,2) this, of s] obtain st1 where
    st1: "materialize_assertion b s c (fseq st c) st k = Some st1" and m: "materialized b s c {} {k} st st1"
    and sl: "slots st1 = slots st" by blast
  have "\<forall>k\<in>set ks. is_asserted st1 k \<and> map_of (slots st1) k = None" "is_live st1 c" "fseq st1 = fseq st"
    using Cons.prems(1,2,4) m sl by (auto simp: materialized_def same_tree_def)
  with Cons.IH [of st1] Cons.prems(1,3) obtain st' where
    st': "try_fold (materialize_assertion b s c (fseq st c)) st1 ks = Some st'" and m': "materialized b s c {} (set ks) st1 st'" by auto
  from materialized_trans [OF m m' Cons.prems(1)] Cons.prems(3) have "materialized b s c {} (set (k # ks)) st st'" by simp
  with st1 st' show ?case by auto
qed

lemma map_of_filter_mem: "distinct (map fst l) \<Longrightarrow> k \<in> fst ` set (filter (\<lambda>(_, v). P v) l) \<longleftrightarrow> (\<exists>v. map_of l k = Some v \<and> P v)"
  by (force simp: map_of_eq_Some_iff image_iff)

lemma slot_of_find: "slot_of st k b \<noteq> None \<longleftrightarrow> (\<exists>ss. map_of (slots st) k = Some ss \<and> (\<exists>slot\<in>set ss. slot_branch slot = b))"
  by (auto simp: slot_of_def bind_eq_None_conv find_None_iff)

lemma wf_store_on_keys:
  assumes "wf_store_on L st"
  shows "distinct (map fst (slots st))" "distinct (map fst (assertions st))"
    "is_asserted st k \<Longrightarrow> map_of (slots st) k = None"
  using assms by (auto simp: wf_store_on_def is_asserted_def map_of_eq_None)

lemma materialize_inheritance_correct:
  assumes ne: "b \<noteq> c" and live: "is_live st c" and wf: "wf_store_on L st" "L c"
  shows "\<exists>st'. materialize_inheritance st b s c = Some st' \<and> materialized b s c UNIV UNIV st st'"
proof -
  obtain cbr where cbr: "branch_of st c = Some cbr" using live is_live_Some by blast
  have first: "br_first cbr = fseq st c" using cbr by (simp add: fseq_def)
  let ?ks = "map fst (filter (\<lambda>(_, ss). \<exists>slot\<in>set ss. slot_branch slot = b) (slots st))"
  note K = wf_store_on_keys [OF wf(1)]
  have ks: "k \<in> set ?ks \<longleftrightarrow> slot_of st k b \<noteq> None" for k
    using map_of_filter_mem [OF K(1), of k "\<lambda>ss. \<exists>slot\<in>set ss. slot_branch slot = b"] unfolding slot_of_find by simp
  have "\<forall>k\<in>set ?ks. slot_of st k b \<noteq> None \<and> \<not> is_asserted st k"
    using ks K(3) unfolding slot_of_find by fastforce
  from materialize_slots_fold [OF ne live _ this, of s] obtain st1 where
    st1: "try_fold (materialize_slot b s c (fseq st c)) st ?ks = Some st1" and m: "materialized b s c (set ?ks) {} st st1"
    using distinct_map_filter [OF K(1)] by blast
  have wf1: "wf_store_on L st1" using m wf by (simp add: materialized_def)
  note K1 = wf_store_on_keys [OF wf1]
  let ?hs = "map fst (filter (\<lambda>(_, hs). \<exists>(hb, _)\<in>set hs. hb = b) (assertions st1))"
  have hs: "k \<in> set ?hs \<longleftrightarrow> (\<exists>h. map_of (assertions st1) k = Some h \<and> b \<in> fst ` set h)" for k
    using map_of_filter_mem [OF K1(2), of k "\<lambda>hs. \<exists>(hb, _)\<in>set hs. hb = b"] by (simp add: ex_fst)
  have "\<forall>k\<in>set ?hs. is_asserted st1 k \<and> map_of (slots st1) k = None"
  proof
    fix k assume "k \<in> set ?hs"
    then have "is_asserted st1 k" using hs [of k] by (auto simp: is_asserted_def)
    with K1(3) show "is_asserted st1 k \<and> map_of (slots st1) k = None" by simp
  qed
  moreover have t1: "fseq st1 = fseq st" "is_live st1 c" using materialized_same_tree [OF m] live by auto
  ultimately obtain st2 where
    st2: "try_fold (materialize_assertion b s c (fseq st c)) st1 ?hs = Some st2" and m2: "materialized b s c {} (set ?hs) st1 st2"
    using materialize_assertions_fold [OF ne t1(2), of ?hs s] distinct_map_filter [OF K1(2)] by auto
  have run: "materialize_inheritance st b s c = Some st2"
    using cbr st1 st2 by (simp add: materialize_inheritance_def first Let_def)
  have "materialized b s c (set ?ks) (set ?hs) st st2" using materialized_trans [OF m m2 ne] by simp
  moreover have none: "claim_at st k b = None" "dirts st k b = []" if "k \<notin> set ?ks" for k
    using that ks [of k] by (auto simp: claim_at_def dirts_def)
  moreover have "hist st k b = []" if "k \<notin> set ?hs" for k
  proof -
    have "hist st1 k b = []"
    proof (cases "map_of (assertions st1) k")
      case (Some h)
      then have "b \<notin> fst ` set h" using that hs [of k] by blast
      then have "history_of h b = None" by (simp add: history_of_None)
      then show ?thesis using Some by (simp add: hist_def)
    qed (simp add: hist_def)
    then show ?thesis using m ne by (simp add: materialized_def)
  qed
  ultimately have "materialized b s c UNIV UNIV st st2" unfolding materialized_def by auto
  with run show ?thesis by blast
qed


section \<open>Handing the children over\<close>

definition adopted_kid :: "version option \<Rightarrow> branch_id \<Rightarrow> branch_id \<Rightarrow> (branch_id \<times> seq) list" where
  "adopted_kid p c d = (case p of None \<Rightarrow> [] | Some v \<Rightarrow> if d = vbranch v then [(c, vseq v)] else [])"

text \<open>What the loop over the children \<open>cs\<close> leaves.\<close>

definition adopted ::
  "branch_id \<Rightarrow> version option \<Rightarrow> (branch_id \<times> seq) list \<Rightarrow> ('p, 'd, 'a) core_state \<Rightarrow> ('p, 'd, 'a) core_state \<Rightarrow> bool" where
  "adopted b p cs st st' \<longleftrightarrow> length (branches st') = length (branches st) \<and> is_live st' = is_live st
     \<and> fseq st' = fseq st \<and> hseq st' = hseq st \<and> edges st' = edges st \<and> closed_set st' = closed_set st
     \<and> is_asserted st' = is_asserted st
     \<and> (\<forall>d. par st' d = (if d \<in> fst ` set cs then p else par st d))
     \<and> (\<forall>d. kids st' d = kids st d @ concat (map (\<lambda>(c, _). adopted_kid p c d) cs))
     \<and> (\<forall>k d. claim_at st' k d = (case map_of cs d of None \<Rightarrow> claim_at st k d
          | Some s \<Rightarrow> inherit_claim (fseq st d) s (claim_at st k d) (claim_at st k b)))
     \<and> (\<forall>k d. dirts st' k d = (case map_of cs d of None \<Rightarrow> dirts st k d
          | Some s \<Rightarrow> inherit_history (fseq st d) s (dirts st k d) (dirts st k b)))
     \<and> (\<forall>k d. hist st' k d = (case map_of cs d of None \<Rightarrow> hist st k d
          | Some s \<Rightarrow> inherit_history (fseq st d) s (hist st k d) (hist st k b)))
     \<and> (\<forall>L. (\<forall>c\<in>fst ` set cs. L c) \<longrightarrow> wf_store_on L st \<longrightarrow> wf_store_on L st')"

lemma branch_mut_store:
  assumes "branch_mut st b f = Some st'"
  shows "claim_at st' = claim_at st" "dirts st' = dirts st" "hist st' = hist st" "is_asserted st' = is_asserted st"
    "wf_store_on L st' = wf_store_on L st" "length (branches st') = length (branches st)"
proof -
  have "slots st' = slots st" "assertions st' = assertions st" "key_count st' = key_count st"
    "length (branches st') = length (branches st)"
    using branch_mut_Some [OF assms] by auto
  then show "claim_at st' = claim_at st" "dirts st' = dirts st" "hist st' = hist st" "is_asserted st' = is_asserted st"
    "wf_store_on L st' = wf_store_on L st" "length (branches st') = length (branches st)"
    using slot_views_cong [of st' st] assertion_views_cong [of st' st] by (auto simp: wf_store_on_def slots_of_def)
qed

lemma set_parent_views:
  assumes "branch_mut st c (\<lambda>br. Some (br\<lparr>br_parent := p\<rparr>)) = Some st'"
  shows "is_live st' = is_live st" "fseq st' = fseq st" "hseq st' = hseq st" "edges st' = edges st"
    "closed_set st' = closed_set st" "kids st' = kids st" "par st' = (par st)(c := p)"
proof -
  obtain br where "branch_of st c = Some br" "branch_of st' = (branch_of st)(c \<mapsto> br\<lparr>br_parent := p\<rparr>)"
    using branch_mut_Some [OF assms] by auto
  then show "is_live st' = is_live st" "fseq st' = fseq st" "hseq st' = hseq st" "edges st' = edges st"
    "closed_set st' = closed_set st" "kids st' = kids st" "par st' = (par st)(c := p)"
    by (auto simp: fun_eq_iff is_live_branch_of view_defs rdeps_of_def)
qed

lemma set_children_views:
  assumes "branch_mut st c (\<lambda>br. Some (br\<lparr>br_children := g (br_children br)\<rparr>)) = Some st'"
  shows "is_live st' = is_live st" "fseq st' = fseq st" "hseq st' = hseq st" "edges st' = edges st"
    "closed_set st' = closed_set st" "par st' = par st" "kids st' = (kids st)(c := g (kids st c))"
proof -
  obtain br where "branch_of st c = Some br" "branch_of st' = (branch_of st)(c \<mapsto> br\<lparr>br_children := g (br_children br)\<rparr>)"
    using branch_mut_Some [OF assms] by auto
  then show "is_live st' = is_live st" "fseq st' = fseq st" "hseq st' = hseq st" "edges st' = edges st"
    "closed_set st' = closed_set st" "par st' = par st" "kids st' = (kids st)(c := g (kids st c))"
    by (auto simp: fun_eq_iff is_live_branch_of view_defs rdeps_of_def)
qed

lemma adopt_child_correct:
  assumes ne: "b \<noteq> c" and live: "is_live st c" and wf: "wf_store_on L st" "L c"
    and p: "\<forall>v. p = Some v \<longrightarrow> is_live st (vbranch v)"
  shows "\<exists>st'. adopt_child b p st (c, s) = Some st' \<and> adopted b p [(c, s)] st st'"
proof -
  from materialize_inheritance_correct [OF ne live wf, of s] obtain st1 where
    st1: "materialize_inheritance st b s c = Some st1" and m: "materialized b s c UNIV UNIV st st1" by blast
  have tr: "same_tree st st1" and m1: "edges st1 = edges st" "closed_set st1 = closed_set st" "is_asserted st1 = is_asserted st"
    using m by (auto simp: materialized_def)
  note t1 = tr [unfolded same_tree_def]
  have "is_live st1 c" using live t1 by simp
  then obtain st2 where st2: "branch_mut st1 c (\<lambda>br. Some (br\<lparr>br_parent := p\<rparr>)) = Some st2"
    using branch_mut_total [of st1 c "\<lambda>br. Some (br\<lparr>br_parent := p\<rparr>)"] by auto
  note v2 = set_parent_views [OF st2] and b2 = branch_mut_store [OF st2]
  have "\<exists>st3. (case p of None \<Rightarrow> Some st2 | Some p \<Rightarrow> branch_mut st2 (vbranch p)
          (\<lambda>br. Some (br\<lparr>br_children := br_children br @ [(c, vseq p)]\<rparr>))) = Some st3
      \<and> is_live st3 = is_live st2 \<and> fseq st3 = fseq st2 \<and> hseq st3 = hseq st2 \<and> edges st3 = edges st2
      \<and> closed_set st3 = closed_set st2 \<and> par st3 = par st2 \<and> (\<forall>d. kids st3 d = kids st2 d @ adopted_kid p c d)
      \<and> claim_at st3 = claim_at st2 \<and> dirts st3 = dirts st2 \<and> hist st3 = hist st2 \<and> is_asserted st3 = is_asserted st2
      \<and> (\<forall>L. wf_store_on L st3 = wf_store_on L st2) \<and> length (branches st3) = length (branches st2)"
  proof (cases p)
    case None
    then show ?thesis by (simp add: adopted_kid_def)
  next
    case (Some v)
    have "is_live st2 (vbranch v)" using p Some v2 t1 by simp
    then obtain st3 where st3: "branch_mut st2 (vbranch v) (\<lambda>br. Some (br\<lparr>br_children := br_children br @ [(c, vseq v)]\<rparr>)) = Some st3"
      using branch_mut_total [of st2 "vbranch v" "\<lambda>br. Some (br\<lparr>br_children := br_children br @ [(c, vseq v)]\<rparr>)"] by auto
    note v3 = set_children_views [of st2 "vbranch v" "\<lambda>cs. cs @ [(c, vseq v)]", OF st3] and b3 = branch_mut_store [OF st3]
    show ?thesis using Some st3 v3 b3 by (intro exI [of _ st3]) (simp add: adopted_kid_def)
  qed
  then obtain st3 where st3: "(case p of None \<Rightarrow> Some st2 | Some p \<Rightarrow> branch_mut st2 (vbranch p)
          (\<lambda>br. Some (br\<lparr>br_children := br_children br @ [(c, vseq p)]\<rparr>))) = Some st3"
    and v3: "is_live st3 = is_live st2" "fseq st3 = fseq st2" "hseq st3 = hseq st2" "edges st3 = edges st2"
      "closed_set st3 = closed_set st2" "par st3 = par st2" "\<forall>d. kids st3 d = kids st2 d @ adopted_kid p c d"
      "claim_at st3 = claim_at st2" "dirts st3 = dirts st2" "hist st3 = hist st2" "is_asserted st3 = is_asserted st2"
      "\<forall>L. wf_store_on L st3 = wf_store_on L st2" "length (branches st3) = length (branches st2)"
    by (elim exE conjE) (rule that)
  have run: "adopt_child b p st (c, s) = Some st3" using st1 st2 st3 by (simp add: adopt_child_def)
  have so: "slot_of st1 k d = slot_of st k d" if "d \<noteq> c" for k d using m that by (simp add: materialized_def)
  have "adopted b p [(c, s)] st st3"
    unfolding adopted_def
  proof (intro conjI allI impI)
    show "claim_at st3 k d = (case map_of [(c, s)] d of None \<Rightarrow> claim_at st k d
          | Some s \<Rightarrow> inherit_claim (fseq st d) s (claim_at st k d) (claim_at st k b))" for k d
      using m slot_of_views [OF so, of d k] by (simp add: v3 b2 materialized_def)
    show "dirts st3 k d = (case map_of [(c, s)] d of None \<Rightarrow> dirts st k d
          | Some s \<Rightarrow> inherit_history (fseq st d) s (dirts st k d) (dirts st k b))" for k d
      using m slot_of_views [OF so, of d k] by (simp add: v3 b2 materialized_def)
    show "hist st3 k d = (case map_of [(c, s)] d of None \<Rightarrow> hist st k d
          | Some s \<Rightarrow> inherit_history (fseq st d) s (hist st k d) (hist st k b))" for k d
      using m by (simp add: v3 b2 materialized_def)
    show "wf_store_on L' st3" if "\<forall>c\<in>fst ` set [(c, s)]. L' c" "wf_store_on L' st" for L'
      using that m by (simp add: v3 b2 materialized_def)
  qed (use v2 v3 b2 t1 m1 in simp_all)
  with run show ?thesis by blast
qed

lemma adopted_trans:
  assumes a: "adopted b p [(c, s)] st st1" and a': "adopted b p cs st1 st2" and c: "c \<notin> fst ` set cs" "b \<noteq> c"
  shows "adopted b p ((c, s) # cs) st st2"
proof -
  have o: "d \<noteq> c \<Longrightarrow> claim_at st1 k d = claim_at st k d" "d \<noteq> c \<Longrightarrow> dirts st1 k d = dirts st k d"
    "d \<noteq> c \<Longrightarrow> hist st1 k d = hist st k d" for k d
    using a by (simp_all add: adopted_def)
  note b = o [OF c(2)]
  have f: "fseq st1 = fseq st" using a by (simp add: adopted_def)
  have n: "map_of cs c = None" using c(1) by (simp add: map_of_eq_None)
  have e: "claim_at st2 k d = (case map_of cs d of None \<Rightarrow> claim_at st1 k d
      | Some s \<Rightarrow> inherit_claim (fseq st1 d) s (claim_at st1 k d) (claim_at st1 k b))"
    "dirts st2 k d = (case map_of cs d of None \<Rightarrow> dirts st1 k d
      | Some s \<Rightarrow> inherit_history (fseq st1 d) s (dirts st1 k d) (dirts st1 k b))"
    "hist st2 k d = (case map_of cs d of None \<Rightarrow> hist st1 k d
      | Some s \<Rightarrow> inherit_history (fseq st1 d) s (hist st1 k d) (hist st1 k b))" for k d
    using a' by (simp_all add: adopted_def)
  have ac: "claim_at st1 k c = inherit_claim (fseq st c) s (claim_at st k c) (claim_at st k b)"
    "dirts st1 k c = inherit_history (fseq st c) s (dirts st k c) (dirts st k b)"
    "hist st1 k c = inherit_history (fseq st c) s (hist st k c) (hist st k b)" for k
    using a by (simp_all add: adopted_def)
  show ?thesis
    unfolding adopted_def
  proof (intro conjI allI impI)
    show "claim_at st2 k d = (case map_of ((c, s) # cs) d of None \<Rightarrow> claim_at st k d
          | Some s \<Rightarrow> inherit_claim (fseq st d) s (claim_at st k d) (claim_at st k b))" for k d
      by (cases "d = c"; cases "map_of cs d") (simp_all add: e ac o b f n)
    show "dirts st2 k d = (case map_of ((c, s) # cs) d of None \<Rightarrow> dirts st k d
          | Some s \<Rightarrow> inherit_history (fseq st d) s (dirts st k d) (dirts st k b))" for k d
      by (cases "d = c"; cases "map_of cs d") (simp_all add: e ac o b f n)
    show "hist st2 k d = (case map_of ((c, s) # cs) d of None \<Rightarrow> hist st k d
          | Some s \<Rightarrow> inherit_history (fseq st d) s (hist st k d) (hist st k b))" for k d
      by (cases "d = c"; cases "map_of cs d") (simp_all add: e ac o b f n)
    show "wf_store_on L st2" if "\<forall>c\<in>fst ` set ((c, s) # cs). L c" "wf_store_on L st" for L
      using a a' that by (simp add: adopted_def)
    show "par st2 d = (if d \<in> fst ` set ((c, s) # cs) then p else par st d)" for d
      using a a' by (simp add: adopted_def)
    show "kids st2 d = kids st d @ concat (map (\<lambda>(c, _). adopted_kid p c d) ((c, s) # cs))" for d
      using a a' by (simp add: adopted_def)
  qed (use a a' in \<open>simp_all add: adopted_def\<close>)
qed

lemma adopt_children_correct:
  assumes "wf_store_on L st" "distinct (map fst cs)" "\<forall>c\<in>fst ` set cs. c \<noteq> b \<and> is_live st c \<and> L c"
    and "\<forall>v. p = Some v \<longrightarrow> is_live st (vbranch v)"
  shows "\<exists>st'. try_fold (adopt_child b p) st cs = Some st' \<and> adopted b p cs st st'"
  using assms
proof (induction cs arbitrary: st)
  case Nil
  then show ?case by (simp add: adopted_def)
next
  case (Cons x cs)
  obtain c s where x: "x = (c, s)" by force
  have "b \<noteq> c" "is_live st c" "L c" using Cons.prems(3) x by auto
  from adopt_child_correct [OF this(1,2) Cons.prems(1) this(3) Cons.prems(4), of s] obtain st1 where
    st1: "adopt_child b p st (c, s) = Some st1" and a: "adopted b p [(c, s)] st st1" by blast
  have "wf_store_on L st1" "is_live st1 = is_live st" using a Cons.prems(1) \<open>L c\<close> by (simp_all add: adopted_def)
  with Cons.IH [of st1] Cons.prems x obtain st' where
    st': "try_fold (adopt_child b p) st1 cs = Some st'" and a': "adopted b p cs st1 st'" by auto
  have "adopted b p (x # cs) st st'"
    using adopted_trans [OF a a'] Cons.prems(2) x \<open>b \<noteq> c\<close> by auto
  with st1 st' x show ?case by auto
qed


section \<open>Dropping the store of a branch\<close>

definition drop_store :: "branch_id \<Rightarrow> ('p, 'd, 'a) core_state \<Rightarrow> ('p, 'd, 'a) core_state" where
  "drop_store b st = st\<lparr>slots := map (\<lambda>(key, ss). (key, drop_slot b ss)) (slots st),
     assertions := map (\<lambda>(key, hs). (key, drop_history b hs)) (assertions st)\<rparr>"

lemma drop_store_maps:
  "map_of (slots (drop_store b st)) k = map_option (drop_slot b) (map_of (slots st) k)"
  "map_of (assertions (drop_store b st)) k = map_option (drop_history b) (map_of (assertions st) k)"
  "slots_of (drop_store b st) k = drop_slot b (slots_of st k)"
proof -
  show *: "map_of (slots (drop_store b st)) k = map_option (drop_slot b) (map_of (slots st) k)"
    by (simp add: drop_store_def map_of_map_values [of "\<lambda>_. drop_slot b"])
  show "map_of (assertions (drop_store b st)) k = map_option (drop_history b) (map_of (assertions st) k)"
    by (simp add: drop_store_def map_of_map_values [of "\<lambda>_. drop_history b"])
  show "slots_of (drop_store b st) k = drop_slot b (slots_of st k)"
    by (simp add: slots_of_def * drop_slot_def split: option.split)
qed

lemma drop_history_eq: "drop_history b hs = remove_first (\<lambda>x. fst x = b) hs"
  unfolding drop_history_def by (rule arg_cong [where f = "\<lambda>P. remove_first P hs"]) auto

lemma history_of_find: "history_of hs d = map_option snd (find (\<lambda>x. fst x = d) hs)"
  unfolding history_of_def by (rule arg_cong [where f = "\<lambda>P. map_option snd (find P hs)"]) auto

lemma find_drop_other: "d \<noteq> b \<Longrightarrow> find (\<lambda>x. g x = d) (remove_first (\<lambda>x. g x = b) xs) = find (\<lambda>x. g x = d) xs"
  by (rule find_remove_first_other) simp

lemma history_of_drop:
  "distinct (map fst hs) \<Longrightarrow> history_of (drop_history b hs) d = (if d = b then None else history_of hs d)"
  by (simp add: drop_history_eq history_of_find find_remove_first_same find_drop_other)

lemma drop_store_views:
  assumes wf: "wf_store_on L st"
  shows "claim_at (drop_store b st) k d = (if d = b then None else claim_at st k d)"
    "dirts (drop_store b st) k d = (if d = b then [] else dirts st k d)"
    "hist (drop_store b st) k d = (if d = b then [] else hist st k d)"
    "is_asserted (drop_store b st) = is_asserted st"
proof -
  have ds: "distinct (map slot_branch (slots_of st k))" for k using wf by (simp add: wf_store_on_def)
  have sl: "slot_of (drop_store b st) k d = (if d = b then None else slot_of st k d)" for k d
  proof (cases "d = b")
    case True
    then show ?thesis using find_remove_first_same [OF ds [of k], of b]
      by (simp add: slot_of_slots_of drop_store_maps drop_slot_def)
  next
    case False
    then show ?thesis
      by (simp add: slot_of_slots_of drop_store_maps drop_slot_def find_drop_other)
  qed
  then show "claim_at (drop_store b st) k d = (if d = b then None else claim_at st k d)"
    "dirts (drop_store b st) k d = (if d = b then [] else dirts st k d)" by (simp_all add: claim_at_def dirts_def)
  show "hist (drop_store b st) k d = (if d = b then [] else hist st k d)"
  proof (cases "map_of (assertions st) k")
    case (Some hs)
    then have "distinct (map fst hs)" using wf by (simp add: wf_store_on_def)
    with Some show ?thesis by (simp add: hist_def drop_store_maps history_of_drop)
  qed (simp add: hist_def drop_store_maps)
  show "is_asserted (drop_store b st) = is_asserted st" by (auto simp: is_asserted_def drop_store_maps)
qed

lemma drop_first_other:
  assumes "distinct (map g xs)" "x \<in> set (remove_first (\<lambda>x. g x = b) xs)"
  shows "g x \<noteq> b"
  using find_remove_first_same [OF assms(1), of b] assms(2) by (auto simp: find_None_iff)

lemma wf_store_on_drop:
  assumes wf: "wf_store_on L st"
  shows "wf_store_on (\<lambda>d. L d \<and> d \<noteq> b) (drop_store b st)"
  unfolding wf_store_on_def
proof (intro conjI allI impI ballI)
  fix k
  have ds: "distinct (map slot_branch (slots_of st k))" "\<forall>slot\<in>set (slots_of st k). L (slot_branch slot)"
    using wf by (simp_all add: wf_store_on_def)
  show "distinct (map slot_branch (slots_of (drop_store b st) k))"
    using distinct_map_remove_first [OF ds(1)] by (simp add: drop_store_maps drop_slot_def)
  fix slot assume s: "slot \<in> set (slots_of (drop_store b st) k)"
  then have "slot \<in> set (slots_of st k)" unfolding drop_store_maps drop_slot_def by (rule subsetD [OF set_remove_first])
  with ds(2) show "L (slot_branch slot)" by blast
  show "slot_branch slot \<noteq> b" using s drop_first_other [OF ds(1), of slot b] by (simp add: drop_store_maps drop_slot_def)
next
  fix k hs assume "map_of (assertions (drop_store b st)) k = Some hs"
  then obtain hs0 where hs: "map_of (assertions st) k = Some hs0" "hs = drop_history b hs0"
    by (auto simp: drop_store_maps)
  note eq = drop_history_eq [of b hs0]
  have d: "distinct (map fst hs0)" "\<forall>b\<in>fst ` set hs0. L b" using wf hs(1) by (simp_all add: wf_store_on_def)
  show "distinct (map fst hs)" unfolding hs(2) eq by (rule distinct_map_remove_first [OF d(1)])
  fix x assume "x \<in> fst ` set hs"
  then obtain y where y: "y \<in> set (remove_first (\<lambda>x. fst x = b) hs0)" "x = fst y" unfolding hs(2) eq by auto
  have "y \<in> set hs0" using y(1) by (rule subsetD [OF set_remove_first])
  with d(2) y(2) show "L x" by blast
  show "x \<noteq> b" using drop_first_other [OF d(1) y(1)] y(2) by simp
next
  have m: "map fst (map (\<lambda>(key, v). (key, f v)) l) = map fst l" for f :: "'x \<Rightarrow> 'x" and l :: "(key \<times> 'x) list"
    by (induction l) auto
  have k: "map fst (slots (drop_store b st)) = map fst (slots st)" "map fst (assertions (drop_store b st)) = map fst (assertions st)"
    unfolding drop_store_def using m by simp_all
  then have i: "fst ` set (slots (drop_store b st)) = fst ` set (slots st)"
    "fst ` set (assertions (drop_store b st)) = fst ` set (assertions st)" by (metis list.set_map)+
  show "distinct (map fst (slots (drop_store b st)))" "distinct (map fst (assertions (drop_store b st)))"
    using k wf by (simp_all add: wf_store_on_def)
  show "fst ` set (slots (drop_store b st)) \<inter> fst ` set (assertions (drop_store b st)) = {}"
    using i wf by (simp add: wf_store_on_def)
  show "key_count (drop_store b st) = length (slots (drop_store b st)) + length (assertions (drop_store b st))"
    using wf by (simp add: wf_store_on_def drop_store_def)
qed


section \<open>A deleted branch\<close>

text \<open>Where a branch was forked from the deleted one.\<close>

definition forked_from :: "('p, 'd, 'a) core_state \<Rightarrow> branch_id \<Rightarrow> branch_id \<Rightarrow> seq option" where
  "forked_from st b d = (case par st d of None \<Rightarrow> None | Some v \<Rightarrow> if vbranch v = b then Some (vseq v) else None)"

definition deleted :: "branch_id \<Rightarrow> ('p, 'd, 'a) core_state \<Rightarrow> ('p, 'd, 'a) core_state \<Rightarrow> bool" where
  "deleted b st st' \<longleftrightarrow> length (branches st') = length (branches st) \<and> is_live st' = (is_live st)(b := False)
     \<and> is_asserted st' = is_asserted st \<and> wf_store st'
     \<and> (\<forall>d. is_live st d \<longrightarrow> d \<noteq> b \<longrightarrow> fseq st' d = fseq st d \<and> hseq st' d = hseq st d \<and> edges st' d = edges st d
          \<and> closed_set st' d = closed_set st d
          \<and> par st' d = (if forked_from st b d = None then par st d else par st b)
          \<and> distinct (kids st' d)
          \<and> (\<forall>c s. (c, s) \<in> set (kids st' d) \<longleftrightarrow> (c, s) \<in> set (kids st d) \<and> c \<noteq> b
               \<or> par st b = Some (Version d s) \<and> c \<in> fst ` set (kids st b))
          \<and> (\<forall>k. claim_at st' k d = (case forked_from st b d of None \<Rightarrow> claim_at st k d
               | Some s \<Rightarrow> inherit_claim (fseq st d) s (claim_at st k d) (claim_at st k b))
             \<and> dirts st' k d = (case forked_from st b d of None \<Rightarrow> dirts st k d
               | Some s \<Rightarrow> inherit_history (fseq st d) s (dirts st k d) (dirts st k b))
             \<and> hist st' k d = (case forked_from st b d of None \<Rightarrow> hist st k d
               | Some s \<Rightarrow> inherit_history (fseq st d) s (hist st k d) (hist st k b))))"

lemma kids_forked_from:
  assumes wf: "wf_tree st" and live: "is_live st b"
  shows "distinct (map fst (kids st b))"
    "is_live st d \<Longrightarrow> map_of (kids st b) d = forked_from st b d"
    "c \<in> fst ` set (kids st b) \<Longrightarrow> b < c \<and> is_live st c"
proof -
  have k: "is_live st c \<and> par st c = Some (Version b s) \<and> b < c" if "(c, s) \<in> set (kids st b)" for c s
    using wf_tree_kids [OF wf live that] wf_tree_kid_seq [OF wf live that] by simp
  have "distinct (kids st b)" using wf live by (simp add: wf_tree_def)
  moreover have "inj_on fst (set (kids st b))"
  proof (rule inj_onI)
    fix x y assume "x \<in> set (kids st b)" "y \<in> set (kids st b)" "fst x = fst y"
    then show "x = y" using k [of "fst x" "snd x"] k [of "fst y" "snd y"] by (cases x; cases y) auto
  qed
  ultimately show "distinct (map fst (kids st b))" by (simp add: distinct_map)
  show "b < c \<and> is_live st c" if "c \<in> fst ` set (kids st b)" using that k by force
  show "map_of (kids st b) d = forked_from st b d" if d: "is_live st d"
  proof (cases "par st d")
    case None
    then have "d \<notin> fst ` set (kids st b)" using k by force
    then show ?thesis using None by (simp add: forked_from_def map_of_eq_None)
  next
    case (Some v)
    show ?thesis
    proof (cases "vbranch v = b")
      case True
      then have "(d, vseq v) \<in> set (kids st b)" using wf_tree_parent [OF wf d Some] by simp
      with \<open>distinct (map fst (kids st b))\<close> show ?thesis using Some True by (simp add: forked_from_def map_of_eq_Some_iff)
    next
      case False
      then have "d \<notin> fst ` set (kids st b)" using k Some by force
      then show ?thesis using Some False by (simp add: forked_from_def map_of_eq_None)
    qed
  qed
qed

lemma remove_child_correct:
  assumes "distinct (br_children br)" "\<exists>s. (b, s) \<in> set (br_children br)" "inj_on fst (set (br_children br))"
  shows "\<exists>l. remove_child br b = Some (br\<lparr>br_children := l\<rparr>) \<and> distinct l \<and> (\<forall>c s. (c, s) \<in> set l \<longleftrightarrow> (c, s) \<in> set (br_children br) \<and> c \<noteq> b)"
proof -
  let ?P = "\<lambda>(c, _). c = b" and ?xs = "br_children br"
  obtain i where i: "position ?P ?xs = Some i"
    using assms(2) position_None [of ?P ?xs] by (cases "position ?P ?xs") auto
  note p = position_Some [OF i]
  have sp: "set (swap_pop i ?xs) = set ?xs - {?xs ! i}" "distinct (swap_pop i ?xs)"
    using mset_swap_pop [of i ?xs] p assms(1) by auto
  have "(c, s) \<in> set ?xs \<Longrightarrow> c = b \<Longrightarrow> (c, s) = ?xs ! i" for c s
    using p assms(3) by (intro inj_onD [OF assms(3)]) (auto split: prod.splits)
  then have "(c, s) \<in> set (swap_pop i ?xs) \<longleftrightarrow> (c, s) \<in> set ?xs \<and> c \<noteq> b" for c s
    using sp(1) p by (auto split: prod.splits)
  then show ?thesis using i sp(2) by (intro exI [of _ "swap_pop i ?xs"]) (simp add: remove_child_def)
qed


lemma remove_kid_correct:
  assumes wf: "wf_tree st" and live: "is_live st d" and b: "(b, s) \<in> set (kids st d)"
    and br: "branch_of st' d = Some br" "br_children br = kids st d @ l"
    and l: "distinct l" "inj_on fst (set l)" "fst ` set l \<inter> fst ` set (kids st d) = {}"
  shows "\<exists>l'. remove_child br b = Some (br\<lparr>br_children := l'\<rparr>) \<and> distinct l'
    \<and> (\<forall>c q. (c, q) \<in> set l' \<longleftrightarrow> ((c, q) \<in> set (kids st d) \<or> (c, q) \<in> set l) \<and> c \<noteq> b)"
proof -
  note kd = kids_forked_from(1) [OF wf live]
  have "distinct (map fst (br_children br))"
    using kd l by (auto simp: br(2) distinct_map)
  then have "distinct (br_children br)" "inj_on fst (set (br_children br))" by (simp_all add: distinct_map)
  with remove_child_correct [of br b] b br(2) show ?thesis by auto
qed

lemma delete_branch_deleted:
  assumes wf: "wf_core st" and live: "is_live st b"
  shows "\<exists>ks st'. delete_branch st b = Some (ks, st') \<and> deleted b st st'"
proof -
  note tree = wf_coreD(1) [OF wf] and store = wf_coreD(4) [OF wf, unfolded wf_store_def]
  obtain br where br: "branch_of st b = Some br" using live is_live_Some by blast
  have pk: "br_parent br = par st b" "br_children br = kids st b" by (simp_all add: view_defs br)
  note kf = kids_forked_from [OF tree live]
  let ?st0 = "st\<lparr>branches := (branches st)[b := None]\<rparr>" and ?p = "par st b"
  have b0: "branch_of ?st0 = (branch_of st)(b := None)" by (rule branch_of_set [OF is_live_less [OF live]])
  have v0: "is_live ?st0 = (is_live st)(b := False)" "length (branches ?st0) = length (branches st)"
    "claim_at ?st0 = claim_at st" "dirts ?st0 = dirts st" "hist ?st0 = hist st" "is_asserted ?st0 = is_asserted st"
    using slot_views_cong [of ?st0 st] assertion_views_cong [of ?st0 st] by (auto simp: fun_eq_iff is_live_branch_of b0)
  have d0: "d \<noteq> b \<Longrightarrow> fseq ?st0 d = fseq st d" "d \<noteq> b \<Longrightarrow> hseq ?st0 d = hseq st d" "d \<noteq> b \<Longrightarrow> edges ?st0 d = edges st d"
    "d \<noteq> b \<Longrightarrow> closed_set ?st0 d = closed_set st d" "d \<noteq> b \<Longrightarrow> par ?st0 d = par st d" "d \<noteq> b \<Longrightarrow> kids ?st0 d = kids st d" for d
    by (simp_all add: view_defs b0 fun_eq_iff)
  have w0: "wf_store_on (is_live st) ?st0" by (rule wf_store_on_cong [OF _ _ _ _ store]) simp_all
  have pl: "is_live st (vbranch v) \<and> vbranch v < b \<and> (b, vseq v) \<in> set (kids st (vbranch v))" if "?p = Some v" for v
    using wf_tree_parent [OF tree live that] by simp
  have "\<forall>c\<in>fst ` set (kids st b). c \<noteq> b \<and> is_live ?st0 c \<and> is_live st c" using kf(3) by (auto simp: v0)
  moreover have "\<forall>v. ?p = Some v \<longrightarrow> is_live ?st0 (vbranch v)" using pl by (auto simp: v0)
  ultimately obtain st1 where st1: "try_fold (adopt_child b ?p) ?st0 (kids st b) = Some st1" and a: "adopted b ?p (kids st b) ?st0 st1"
    using adopt_children_correct [OF w0 kf(1)] by blast
  have a1: "length (branches st1) = length (branches st)" "is_live st1 = (is_live st)(b := False)" "fseq st1 = fseq ?st0"
    "hseq st1 = hseq ?st0" "edges st1 = edges ?st0" "closed_set st1 = closed_set ?st0" "is_asserted st1 = is_asserted st"
    "\<And>d. par st1 d = (if d \<in> fst ` set (kids st b) then ?p else par ?st0 d)"
    "\<And>d. kids st1 d = kids ?st0 d @ concat (map (\<lambda>(c, _). adopted_kid ?p c d) (kids st b))"
    using a by (simp_all add: adopted_def v0)
  have w1: "wf_store_on (is_live st) st1" using a w0 kf(3) by (auto simp: adopted_def)
  have "\<exists>st2. (case ?p of None \<Rightarrow> Some st1 | Some p \<Rightarrow> branch_mut st1 (vbranch p) (\<lambda>br. remove_child br b)) = Some st2
    \<and> length (branches st2) = length (branches st1) \<and> is_live st2 = is_live st1 \<and> fseq st2 = fseq st1 \<and> hseq st2 = hseq st1
    \<and> edges st2 = edges st1 \<and> closed_set st2 = closed_set st1 \<and> par st2 = par st1
    \<and> slots st2 = slots st1 \<and> assertions st2 = assertions st1 \<and> key_count st2 = key_count st1
    \<and> (\<forall>d. is_live st d \<longrightarrow> d \<noteq> b \<longrightarrow> distinct (kids st2 d) \<and> (\<forall>c s. (c, s) \<in> set (kids st2 d) \<longleftrightarrow>
         (c, s) \<in> set (kids st d) \<and> c \<noteq> b \<or> ?p = Some (Version d s) \<and> c \<in> fst ` set (kids st b)))"
  proof (cases ?p)
    case None
    have "distinct (kids st1 d) \<and> (\<forall>c s. (c, s) \<in> set (kids st1 d) \<longleftrightarrow>
         (c, s) \<in> set (kids st d) \<and> c \<noteq> b \<or> ?p = Some (Version d s) \<and> c \<in> fst ` set (kids st b))"
      if d: "is_live st d" "d \<noteq> b" for d
    proof -
      have "kids st1 d = kids st d" using None d d0(6) by (simp add: a1(9) adopted_kid_def)
      moreover have "c \<noteq> b" if "(c, s) \<in> set (kids st d)" for c s using wf_tree_kids [OF tree d(1) that] None by auto
      ultimately show ?thesis using None tree d by (auto simp: wf_tree_def)
    qed
    then show ?thesis using None by (intro exI [of _ st1]) simp
  next
    case (Some v)
    let ?d = "vbranch v" and ?l = "map (\<lambda>(c, _). (c, vseq v)) (kids st b)"
    have dl: "is_live st ?d" "?d \<noteq> b" "(b, vseq v) \<in> set (kids st ?d)" using pl [OF Some] by auto
    have "is_live st1 ?d" using dl a1(2) by simp
    then obtain dbr where dbr: "branch_of st1 ?d = Some dbr" using is_live_Some by blast
    have kd: "kids st1 d = kids st d @ (if d = ?d then ?l else [])" if "d \<noteq> b" for d
      using Some that d0(6) [OF that] by (simp add: a1(9) adopted_kid_def case_prod_unfold)
    have ch: "br_children dbr = kids st ?d @ ?l" using kd [OF dl(2)] dbr by (simp add: kids_def)
    have fl: "map fst ?l = map fst (kids st b)" by (simp add: case_prod_unfold)
    then have fs: "fst ` set ?l = fst ` set (kids st b)" by (metis list.set_map)
    have "distinct (map fst ?l)" unfolding fl by (rule kf(1))
    then have l: "distinct ?l" "inj_on fst (set ?l)" using distinct_map [of fst ?l] by blast+
    have dj: "fst ` set ?l \<inter> fst ` set (kids st ?d) = {}"
    proof -
      have "c \<notin> fst ` set (kids st ?d)" if "c \<in> fst ` set (kids st b)" for c
        using that wf_tree_kids [OF tree live] wf_tree_kids [OF tree dl(1)] dl(2) by force
      then show ?thesis using fs by auto
    qed
    from remove_kid_correct [OF tree dl(1,3) dbr ch l dj] obtain l' where
      rm: "remove_child dbr b = Some (dbr\<lparr>br_children := l'\<rparr>)" "distinct l'"
        "\<forall>c q. (c, q) \<in> set l' \<longleftrightarrow> ((c, q) \<in> set (kids st ?d) \<or> (c, q) \<in> set ?l) \<and> c \<noteq> b" by blast
    have "\<exists>st2. branch_mut st1 ?d (\<lambda>br. remove_child br b) = Some st2" using dbr rm by (simp add: branch_mut_def)
    then obtain st2 where m: "branch_mut st1 ?d (\<lambda>br. remove_child br b) = Some st2" ..
    have b2: "branch_of st2 = (branch_of st1)(?d \<mapsto> dbr\<lparr>br_children := l'\<rparr>)" and f2: "slots st2 = slots st1"
      "assertions st2 = assertions st1" "key_count st2 = key_count st1" "length (branches st2) = length (branches st1)"
      using branch_mut_Some [OF m] dbr rm by auto
    have t2: "is_live st2 = is_live st1" "fseq st2 = fseq st1" "hseq st2 = hseq st1"
      "edges st2 = edges st1" "closed_set st2 = closed_set st1" "par st2 = par st1" "kids st2 = (kids st1)(?d := l')"
      using dbr by (auto simp: fun_eq_iff is_live_branch_of view_defs b2 rdeps_of_def)
    have "distinct (kids st2 d) \<and> (\<forall>c s. (c, s) \<in> set (kids st2 d) \<longleftrightarrow>
         (c, s) \<in> set (kids st d) \<and> c \<noteq> b \<or> ?p = Some (Version d s) \<and> c \<in> fst ` set (kids st b))"
      if d: "is_live st d" "d \<noteq> b" for d
    proof (cases "d = ?d")
      case True
      have "(c, q) \<in> set ?l \<longleftrightarrow> q = vseq v \<and> c \<in> fst ` set (kids st b)" for c q by force
      moreover have "c \<noteq> b" if "c \<in> fst ` set (kids st b)" for c using kf(3) [OF that] by simp
      moreover have "?p = Some (Version d q) \<longleftrightarrow> q = vseq v" for q using Some True by (cases v) auto
      ultimately show ?thesis using rm(2,3) True by (auto simp: t2)
    next
      case False
      have "c \<noteq> b" if "(c, s) \<in> set (kids st d)" for c s using wf_tree_kids [OF tree d(1) that] Some False by auto
      moreover have "?p \<noteq> Some (Version d q)" for q using Some False by auto
      ultimately show ?thesis using False kd [OF d(2)] tree d by (auto simp: t2 wf_tree_def)
    qed
    then show ?thesis using Some m f2 t2 by (intro exI [of _ st2]) simp
  qed
  then obtain st2 where st2: "(case ?p of None \<Rightarrow> Some st1 | Some p \<Rightarrow> branch_mut st1 (vbranch p) (\<lambda>br. remove_child br b)) = Some st2"
    and t2: "length (branches st2) = length (branches st1)" "is_live st2 = is_live st1" "fseq st2 = fseq st1" "hseq st2 = hseq st1"
      "edges st2 = edges st1" "closed_set st2 = closed_set st1" "par st2 = par st1"
      "slots st2 = slots st1" "assertions st2 = assertions st1" "key_count st2 = key_count st1"
    and kids2: "\<forall>d. is_live st d \<longrightarrow> d \<noteq> b \<longrightarrow> distinct (kids st2 d) \<and> (\<forall>c s. (c, s) \<in> set (kids st2 d) \<longleftrightarrow>
         (c, s) \<in> set (kids st d) \<and> c \<noteq> b \<or> ?p = Some (Version d s) \<and> c \<in> fst ` set (kids st b))"
    by (elim exE conjE) (rule that)
  have w2: "wf_store_on (is_live st) st2" by (rule wf_store_on_cong [OF t2(8-10) _ w1]) simp
  have s2: "claim_at st2 = claim_at st1" "dirts st2 = dirts st1" "hist st2 = hist st1" "is_asserted st2 = is_asserted st1"
    using slot_views_cong [OF t2(8)] assertion_views_cong [OF t2(9)] by auto
  let ?st3 = "drop_store b st2"
  have bv: "branches ?st3 = branches st2" by (simp add: drop_store_def)
  note v3 = branch_views_cong [OF bv] and d3 = drop_store_views [OF w2, of b]
  have run: "\<exists>ks. delete_branch st b = Some (ks, ?st3)"
    using br st1 st2 by (simp add: delete_branch_def pk Let_def drop_store_def)
  have del: "deleted b st ?st3"
    unfolding deleted_def
  proof (intro conjI allI impI)
    show "wf_store ?st3"
      unfolding wf_store_def
      by (rule wf_store_on_cong [OF _ _ _ _ wf_store_on_drop [OF w2, of b]]) (auto simp: v3 t2 a1(2))
    show "length (branches ?st3) = length (branches st)" using bv t2(1) a1(1) by simp
    show "is_live ?st3 = (is_live st)(b := False)" "is_asserted ?st3 = is_asserted st"
      by (simp_all add: v3 d3 t2 a1 s2)
    fix d assume d: "is_live st d" "d \<noteq> b"
    have fd: "map_of (kids st b) d = forked_from st b d" by (rule kf(2) [OF d(1)])
    have "d \<in> fst ` set (kids st b) \<longleftrightarrow> forked_from st b d \<noteq> None" using fd map_of_eq_None [of "kids st b" d] by auto
    then show "par ?st3 d = (if forked_from st b d = None then par st d else par st b)"
      using d0(5) [OF d(2)] by (auto simp: v3 t2 a1)
    show "fseq ?st3 d = fseq st d" "hseq ?st3 d = hseq st d" "edges ?st3 d = edges st d" "closed_set ?st3 d = closed_set st d"
      using d0 [OF d(2)] by (simp_all add: v3 t2 a1)
    show "distinct (kids ?st3 d)" using kids2 d by (simp add: v3)
    show "(c, s) \<in> set (kids ?st3 d) \<longleftrightarrow> (c, s) \<in> set (kids st d) \<and> c \<noteq> b
               \<or> par st b = Some (Version d s) \<and> c \<in> fst ` set (kids st b)" for c s using kids2 d by (simp add: v3)
    fix k
    show "claim_at ?st3 k d = (case forked_from st b d of None \<Rightarrow> claim_at st k d
               | Some s \<Rightarrow> inherit_claim (fseq st d) s (claim_at st k d) (claim_at st k b))"
      using a d d0(1) [OF d(2)] by (simp add: d3 s2 adopted_def v0 fd cong: option.case_cong)
    show "dirts ?st3 k d = (case forked_from st b d of None \<Rightarrow> dirts st k d
               | Some s \<Rightarrow> inherit_history (fseq st d) s (dirts st k d) (dirts st k b))"
      using a d d0(1) [OF d(2)] by (simp add: d3 s2 adopted_def v0 fd cong: option.case_cong)
    show "hist ?st3 k d = (case forked_from st b d of None \<Rightarrow> hist st k d
               | Some s \<Rightarrow> inherit_history (fseq st d) s (hist st k d) (hist st k b))"
      using a d d0(1) [OF d(2)] by (simp add: d3 s2 adopted_def v0 fd cong: option.case_cong)
  qed
  from run del show ?thesis by blast
qed


section \<open>Every surviving version resolves as before\<close>

definition claim_answer :: "branch_id \<times> ('p, 'a) claim \<Rightarrow> 'p cert \<times> 'a" where
  "claim_answer x = (claim_cert (snd x), claim_attribute (snd x))"

definition entry_answer :: "branch_id \<times> ('r, 'd) entry \<Rightarrow> 'r \<times> 'd" where
  "entry_answer x = (entry_revision (snd x), entry_data (snd x))"

text \<open>The parent of a surviving branch after the deletion survives, and is a version of it.\<close>

lemma deleted_parent:
  assumes wf: "wf_tree st" and del: "deleted b st st'" and d: "is_live st d" "d \<noteq> b"
    and lb: "is_live st b" and v: "par st' d = Some v"
  shows "is_live st (vbranch v) \<and> vbranch v \<noteq> b \<and> vbranch v < d \<and> fseq st (vbranch v) \<le> vseq v \<and> vseq v \<le> hseq st (vbranch v)"
proof (cases "forked_from st b d")
  case None
  then have "par st d = Some v" using v del d by (simp add: deleted_def)
  with wf_tree_parent [OF wf d(1) this] None show ?thesis by (auto simp: forked_from_def)
next
  case (Some s)
  then have p: "par st b = Some v" using v del d by (simp add: deleted_def)
  from Some obtain w where w: "par st d = Some w" "vbranch w = b" by (auto simp: forked_from_def split: option.splits if_splits)
  then have "b < d" using wf_tree_parent [OF wf d(1) w(1)] by simp
  with wf_tree_parent [OF wf lb p] show ?thesis by auto
qed

lemma deleted_chain:
  assumes wf: "wf_tree st" and lb: "is_live st b" and del: "deleted b st st'"
    and d: "is_live st d" "d \<noteq> b" "fseq st d \<le> q"
    and same: "\<And>d q. is_live st d \<Longrightarrow> d \<noteq> b \<Longrightarrow> forked_from st b d = None \<Longrightarrow> own' d q = own d q"
    and inh: "\<And>d q s. is_live st d \<Longrightarrow> d \<noteq> b \<Longrightarrow> fseq st d \<le> q \<Longrightarrow> forked_from st b d = Some s \<Longrightarrow>
      own' d q = None \<and> own d q = None \<and> own b s = None
      \<or> (\<exists>r. own' d q = Some r \<and> own d q = Some r)
      \<or> (\<exists>r r'. own' d q = Some r' \<and> own d q = None \<and> own b s = Some r \<and> map_option f r' = map_option f r)"
  shows "map_option f (chain (par st') own' d q) = map_option f (chain (par st) own d q)"
proof (rule chain_refine [where P = "\<lambda>d q. is_live st d \<and> d \<noteq> b \<and> fseq st d \<le> q"])
  fix d q assume dq: "is_live st d \<and> d \<noteq> b \<and> fseq st d \<le> q"
  then have d: "is_live st d" "d \<noteq> b" and q: "fseq st d \<le> q" by auto
  note dp = deleted_parent [OF wf del d lb]
  show "case own' d q of Some r \<Rightarrow> map_option f r = map_option f (chain (par st) own d q)
       | None \<Rightarrow> (case par st' d of None \<Rightarrow> chain (par st) own d q = None
         | Some v \<Rightarrow> vbranch v < d \<and> (is_live st (vbranch v) \<and> vbranch v \<noteq> b \<and> fseq st (vbranch v) \<le> vseq v)
             \<and> map_option f (chain (par st) own (vbranch v) (vseq v)) = map_option f (chain (par st) own d q))"
  proof (cases "forked_from st b d")
    case None
    then have p: "par st' d = par st d" and o: "own' d q = own d q" using del d same by (simp_all add: deleted_def)
    show ?thesis
      using dp by (auto simp: p o chain_unfold [OF wf d(1), of own q] split: option.splits)
  next
    case (Some s)
    then have p: "par st' d = par st b" using del d by (simp add: deleted_def)
    obtain w where w: "par st d = Some w" "vbranch w = b" "vseq w = s" using Some by (auto simp: forked_from_def split: option.splits if_splits)
    have up: "chain (par st) own d q = chain (par st) own b s" if "own d q = None"
      using that w by (simp add: chain_unfold [OF wf d(1), of own q])
    from inh [OF d q Some] show ?thesis
    proof (elim disjE exE conjE)
      assume n: "own' d q = None" "own d q = None" "own b s = None"
      then have "chain (par st) own d q = (case par st b of None \<Rightarrow> None | Some v \<Rightarrow> chain (par st) own (vbranch v) (vseq v))"
        using up chain_unfold [OF wf lb, of own s] by simp
      then show ?thesis using dp n by (auto simp: p split: option.splits)
    next
      fix r assume "own' d q = Some r" "own d q = Some r"
      then show ?thesis by (simp add: chain_own)
    next
      fix r r' assume "own' d q = Some r'" "own d q = None" "own b s = Some r" "map_option f r' = map_option f r"
      then show ?thesis using up by (simp add: chain_own)
    qed
  qed
qed (use d in auto)

lemma inherit_history_at:
  assumes "sorted_history h" "first \<le> q"
  shows "history_at (inherit_history first s h h') q =
    (case history_at h q of Some e \<Rightarrow> Some e | None \<Rightarrow> map_option (entry_at_first first) (history_at h' s))"
proof (cases "history_at h' s")
  case None
  then show ?thesis by (simp add: inherit_history_def split: option.split)
next
  case (Some e)
  show ?thesis
  proof (cases "starts_after first h")
    case True
    then show ?thesis using Some assms(2)
      by (simp add: inherit_history_def history_at_cons entry_at_first_def split: option.split)
  next
    case False
    then obtain x l where h: "h = x # l" "entry_seq x \<le> first" by (cases h) (auto simp: starts_after_def history_first_def)
    then have "history_at h q \<noteq> None" using assms(2) by (auto simp: history_at_None)
    then show ?thesis using Some False by (auto simp: inherit_history_def)
  qed
qed

lemma entry_answer_first: "entry_answer (d, entry_at_first f e) = entry_answer (d', e)"
  by (simp add: entry_answer_def entry_at_first_def)

lemma deleted_entry_chain:
  assumes wf: "wf_tree st" and lb: "is_live st b" and del: "deleted b st st'"
    and d: "is_live st d" "d \<noteq> b" "fseq st d \<le> q"
    and h: "\<And>d. is_live st d \<Longrightarrow> d \<noteq> b \<Longrightarrow> h' d = (case forked_from st b d of None \<Rightarrow> h d
      | Some s \<Rightarrow> inherit_history (fseq st d) s (h d) (h b))"
    and so: "\<And>d. is_live st d \<Longrightarrow> sorted_history (h d)"
  shows "map_option entry_answer (chain (par st') (own_entry h') d q) = map_option entry_answer (chain (par st) (own_entry h) d q)"
proof (rule deleted_chain [OF wf lb del d])
  fix d q assume d: "is_live st d" "d \<noteq> b"
  show "own_entry h' d q = own_entry h d q" if "forked_from st b d = None" using h [OF d] that by (simp add: own_entry_def)
  fix s assume q: "fseq st d \<le> q" and f: "forked_from st b d = Some s"
  have "history_at (h' d) q = (case history_at (h d) q of Some e \<Rightarrow> Some e | None \<Rightarrow> map_option (entry_at_first (fseq st d)) (history_at (h b) s))"
    using h [OF d] f inherit_history_at [OF so [OF d(1)] q] by simp
  then show "own_entry h' d q = None \<and> own_entry h d q = None \<and> own_entry h b s = None
      \<or> (\<exists>r. own_entry h' d q = Some r \<and> own_entry h d q = Some r)
      \<or> (\<exists>r r'. own_entry h' d q = Some r' \<and> own_entry h d q = None \<and> own_entry h b s = Some r
          \<and> map_option entry_answer r' = map_option entry_answer r)"
    using entry_answer_first [of d "fseq st d" _ b]
    by (cases "history_at (h d) q"; cases "history_at (h b) s") (simp_all add: own_entry_def)
qed

lemma deleted_answers:
  assumes wf: "wf_core st" and lb: "is_live st b" and del: "deleted b st st'"
    and d: "is_live st d" "d \<noteq> b" "fseq st d \<le> q"
  shows "map_option claim_answer (vclaim st' k d q) = map_option claim_answer (vclaim st k d q)"
    "map_option entry_answer (ventry st' k d q) = map_option entry_answer (ventry st k d q)"
    "map_option entry_answer (vdirt st' k d q) = map_option entry_answer (vdirt st k d q)"
proof -
  note tree = wf_coreD(1) [OF wf]
  have so: "sorted_history (hist st k d)" "sorted_history (dirts st k d)" if "is_live st d" for d
    using wf_coreD(3) [OF wf] that by (auto simp: wf_hists_def hist_ok_def)
  show "map_option entry_answer (ventry st' k d q) = map_option entry_answer (ventry st k d q)"
    unfolding ventry_def by (rule deleted_entry_chain [OF tree lb del d]) (use del so in \<open>auto simp: deleted_def\<close>)
  show "map_option entry_answer (vdirt st' k d q) = map_option entry_answer (vdirt st k d q)"
    unfolding vdirt_def by (rule deleted_entry_chain [OF tree lb del d]) (use del so in \<open>auto simp: deleted_def\<close>)
  show "map_option claim_answer (vclaim st' k d q) = map_option claim_answer (vclaim st k d q)"
    unfolding vclaim_def
  proof (rule deleted_chain [OF tree lb del d])
    fix d q assume d: "is_live st d" "d \<noteq> b"
    have c: "claim_at st' k d = (case forked_from st b d of None \<Rightarrow> claim_at st k d
               | Some s \<Rightarrow> inherit_claim (fseq st d) s (claim_at st k d) (claim_at st k b))"
      using del d by (simp add: deleted_def)
    show "own_claim st' k d q = own_claim st k d q" if "forked_from st b d = None" using c that by (simp add: own_claim_def)
    fix s assume q: "fseq st d \<le> q" and f: "forked_from st b d = Some s"
    show "own_claim st' k d q = None \<and> own_claim st k d q = None \<and> own_claim st k b s = None
      \<or> (\<exists>r. own_claim st' k d q = Some r \<and> own_claim st k d q = Some r)
      \<or> (\<exists>r r'. own_claim st' k d q = Some r' \<and> own_claim st k d q = None \<and> own_claim st k b s = Some r
          \<and> map_option claim_answer r' = map_option claim_answer r)"
      using c f q by (cases "claim_at st k d"; cases "claim_at st k b") (simp_all add: own_claim_def inherit_claim_def claim_answer_def)
  qed
qed


lemma answer_fst:
  "fst \<circ> claim_answer = claim_cert \<circ> snd" "fst \<circ> entry_answer = entry_revision \<circ> snd"
  by (auto simp: claim_answer_def entry_answer_def)

lemma answers_agree:
  assumes "map_option claim_answer (vclaim st' k d q) = map_option claim_answer (vclaim st k d q)"
    "map_option entry_answer (ventry st' k d q) = map_option entry_answer (ventry st k d q)"
    "map_option entry_answer (vdirt st' k d q) = map_option entry_answer (vdirt st k d q)"
    "is_asserted st' = is_asserted st"
  shows "vcert st' k d q = vcert st k d q" "rev_at st' k d q = rev_at st k d q" "eps_at st' k d q = eps_at st k d q"
proof -
  have "map_option (fst \<circ> claim_answer) (vclaim st' k d q) = map_option (fst \<circ> claim_answer) (vclaim st k d q)"
    using assms(1) by (rule map_option_eqI)
  then show vc: "vcert st' k d q = vcert st k d q" unfolding answer_fst by (simp add: vcert_def)
  have "map_option (fst \<circ> entry_answer) (ventry st' k d q) = map_option (fst \<circ> entry_answer) (ventry st k d q)"
    using assms(2) by (rule map_option_eqI)
  then show "rev_at st' k d q = rev_at st k d q" unfolding answer_fst by (simp add: rev_at_def assms(4) vc)
  show "eps_at st' k d q = eps_at st k d q" using assms(3)
    by (cases "vdirt st k d q"; cases "vdirt st' k d q") (auto simp: eps_at_def entry_answer_def)
qed

lemma deleted_same_answers:
  assumes wf: "wf_core st" and lb: "is_live st b" and del: "deleted b st st'" and d: "is_live st d" "d \<noteq> b"
  shows "same_answers st st' d"
  unfolding same_answers_def
proof (intro conjI allI impI)
  show "fseq st' d = fseq st d" "hseq st' d = hseq st d" using del d by (simp_all add: deleted_def)
  show "is_asserted st' k" if "is_asserted st k" for k using del that by (simp add: deleted_def)
  fix k q assume q: "fseq st d \<le> q"
  have "is_asserted st' = is_asserted st" using del by (simp add: deleted_def)
  note a = answers_agree [OF deleted_answers [OF wf lb del d q] this, of k]
  show "vcert st' k d q = vcert st k d q" "rev_at st' k d q = rev_at st k d q" "eps_at st' k d q = eps_at st k d q" by (rule a)+
qed

section \<open>The invariants after a deletion\<close>

lemma deleted_wf_tree:
  assumes wf: "wf_tree st" and lb: "is_live st b" and del: "deleted b st st'"
  shows "wf_tree st'"
  unfolding wf_tree_def
proof (intro allI impI)
  fix d assume "is_live st' d"
  with del have d: "is_live st d" "d \<noteq> b" by (auto simp: deleted_def split: if_splits)
  note kf = kids_forked_from [OF wf lb]
  have D: "fseq st' x = fseq st x" "hseq st' x = hseq st x" "par st' x = (if forked_from st b x = None then par st x else par st b)"
    "is_live st' x" "distinct (kids st' x)"
    "\<And>c s. (c, s) \<in> set (kids st' x) \<longleftrightarrow> (c, s) \<in> set (kids st x) \<and> c \<noteq> b
               \<or> par st b = Some (Version x s) \<and> c \<in> fst ` set (kids st b)" if "is_live st x" "x \<noteq> b" for x
    using del that by (auto simp: deleted_def)
  show "fseq st' d \<le> hseq st' d \<and> distinct (kids st' d)
     \<and> (\<forall>v. par st' d = Some v \<longrightarrow> is_live st' (vbranch v) \<and> vbranch v < d \<and> fseq st' (vbranch v) \<le> vseq v
          \<and> vseq v \<le> hseq st' (vbranch v) \<and> (d, vseq v) \<in> set (kids st' (vbranch v)))
     \<and> (\<forall>c s. (c, s) \<in> set (kids st' d) \<longrightarrow> is_live st' c \<and> par st' c = Some (Version d s))"
  proof (intro conjI allI impI)
    show "fseq st' d \<le> hseq st' d" using wf_tree_seqs [OF wf d(1)] D [OF d] by simp
    show "distinct (kids st' d)" by (rule D(5) [OF d])
  next
    fix v assume v: "par st' d = Some v"
    from deleted_parent [OF wf del d lb v] have p: "is_live st (vbranch v)" "vbranch v \<noteq> b" "vbranch v < d"
      "fseq st (vbranch v) \<le> vseq v" "vseq v \<le> hseq st (vbranch v)" by auto
    show "is_live st' (vbranch v)" "vbranch v < d" "fseq st' (vbranch v) \<le> vseq v" "vseq v \<le> hseq st' (vbranch v)"
      using p D [OF p(1,2)] by auto
    show "(d, vseq v) \<in> set (kids st' (vbranch v))"
    proof (cases "forked_from st b d")
      case None
      then have "par st d = Some v" using v D(3) [OF d] by simp
      from wf_tree_parent [OF wf d(1) this] d(2) show ?thesis unfolding D(6) [OF p(1,2)] by simp
    next
      case (Some s)
      then have "par st b = Some v" using v D(3) [OF d] by simp
      moreover have "d \<in> fst ` set (kids st b)" using Some kf(2) [OF d(1)] map_of_eq_None [of "kids st b" d] by auto
      ultimately show ?thesis unfolding D(6) [OF p(1,2)] by simp
    qed
  next
    fix c s assume "(c, s) \<in> set (kids st' d)"
    then consider (old) "(c, s) \<in> set (kids st d)" "c \<noteq> b" | (new) "par st b = Some (Version d s)" "c \<in> fst ` set (kids st b)"
      using D(6) [OF d] by auto
    then have "is_live st c \<and> c \<noteq> b \<and> (if forked_from st b c = None then par st c else par st b) = Some (Version d s)"
    proof cases
      case old
      then show ?thesis using wf_tree_kids [OF wf d(1) old(1)] d(2) by (simp add: forked_from_def)
    next
      case new
      from kf(3) [OF new(2)] have "is_live st c" "b < c" by auto
      moreover have "forked_from st b c \<noteq> None" using kf(2) [OF \<open>is_live st c\<close>] map_of_eq_None [of "kids st b" c] new(2) by auto
      ultimately show ?thesis using new(1) by auto
    qed
    then show "is_live st' c" "par st' c = Some (Version d s)" using D(3,4) [of c] by auto
  qed
qed

lemma inherit_history_ok:
  assumes "hist_ok f hi h" "f \<le> hi"
  shows "hist_ok f hi (inherit_history f s h h')"
proof (cases "starts_after f h \<and> history_at h' s \<noteq> None")
  case True
  then obtain e where e: "history_at h' s = Some e" by blast
  have "\<forall>x\<in>set h. f < entry_seq x"
  proof (cases h)
    case (Cons x l)
    then have "f < entry_seq x" "sorted_history (x # l)" using True assms(1) by (auto simp: starts_after_def history_first_def hist_ok_def)
    then show ?thesis using Cons by (auto simp: sorted_history_cons)
  qed simp
  with e True assms show ?thesis
    by (auto simp: inherit_history_def hist_ok_def sorted_history_cons entry_at_first_def)
next
  case False
  then have "inherit_history f s h h' = h" by (auto simp: inherit_history_def split: option.split)
  with assms(1) show ?thesis by simp
qed

lemma deleted_wf:
  assumes wf: "wf_core st" and lb: "is_live st b" and del: "deleted b st st'"
  shows "wf_core st'"
proof -
  note tree = wf_coreD(1) [OF wf]
  have live: "is_live st' d \<longleftrightarrow> is_live st d \<and> d \<noteq> b" for d using del by (simp add: deleted_def)
  have D: "fseq st' d = fseq st d" "hseq st' d = hseq st d" "closed_set st' d = closed_set st d"
    "claim_at st' k d = (case forked_from st b d of None \<Rightarrow> claim_at st k d
        | Some s \<Rightarrow> inherit_claim (fseq st d) s (claim_at st k d) (claim_at st k b))"
    "dirts st' k d = (case forked_from st b d of None \<Rightarrow> dirts st k d
        | Some s \<Rightarrow> inherit_history (fseq st d) s (dirts st k d) (dirts st k b))"
    "hist st' k d = (case forked_from st b d of None \<Rightarrow> hist st k d
        | Some s \<Rightarrow> inherit_history (fseq st d) s (hist st k d) (hist st k b))" if "is_live st' d" for d k
    using del that live by (auto simp: deleted_def)
  have store: "wf_store st'" using del by (simp add: deleted_def)
  have new: "claim_at st k d = Some x \<or> (\<exists>y. claim_at st k b = Some y \<and> claim_at st k d = None \<and> claim_cert x = claim_cert y
      \<and> claim_window x \<in> {window_open (fseq st d), window_empty (fseq st d)})"
    if "is_live st' d" "claim_at st' k d = Some x" for k d x
    using that D(4) [OF that(1), of k] by (auto simp: inherit_claim_def split: option.splits)
  have "wf_claims st'"
    unfolding wf_claims_def
  proof (intro allI impI)
    fix k d x assume x: "claim_at st' k d = Some x"
    have l: "is_live st' d" using wf_store_claim_live [OF store x] .
    then have ld: "is_live st d" using live by simp
    have fh: "fseq st d \<le> hseq st d" by (rule wf_tree_seqs [OF tree ld])
    from new [OF l x] show "is_live st' d \<and> cert_key (claim_cert x) = k \<and> window_ok st' d (claim_window x)"
    proof
      assume "claim_at st k d = Some x"
      then have "cert_key (claim_cert x) = k" "window_ok st d (claim_window x)" using wf_coreD(2) [OF wf] by (auto simp: wf_claims_def)
      then show ?thesis using l D(1,2) [OF l] by (simp add: window_ok_def)
    next
      assume "\<exists>y. claim_at st k b = Some y \<and> claim_at st k d = None \<and> claim_cert x = claim_cert y
        \<and> claim_window x \<in> {window_open (fseq st d), window_empty (fseq st d)}"
      then obtain y where y: "claim_at st k b = Some y" "claim_cert x = claim_cert y"
        and w: "claim_window x = window_open (fseq st d) \<or> claim_window x = window_empty (fseq st d)" by auto
      have "cert_key (claim_cert y) = k" using wf_coreD(2) [OF wf] y(1) by (auto simp: wf_claims_def)
      moreover have "window_ok st' d (claim_window x)"
        using w fh D(1,2) [OF l] by (auto simp: window_ok_def window_open_def window_empty_def)
      ultimately show ?thesis using l y(2) by simp
    qed
  qed
  moreover have "wf_hists st'"
    unfolding wf_hists_def
  proof (intro allI impI)
    fix k d assume l: "is_live st' d"
    then have ld: "is_live st d" using live by simp
    have "hist_ok (fseq st d) (hseq st d) (dirts st k d)" "hist_ok (fseq st d) (hseq st d) (hist st k d)"
      using wf_coreD(3) [OF wf] ld by (auto simp: wf_hists_def)
    then show "hist_ok (fseq st' d) (hseq st' d) (dirts st' k d) \<and> hist_ok (fseq st' d) (hseq st' d) (hist st' k d)"
      using D [OF l] wf_tree_seqs [OF tree ld] by (auto split: option.split intro: inherit_history_ok)
  qed
  moreover have "closed_exact st'"
    unfolding closed_exact_def
  proof (intro allI impI)
    fix d k assume l: "is_live st' d"
    then have ld: "is_live st d" using live by simp
    have "(\<exists>c. claim_at st' k d = Some c \<and> is_nonempty_closed (claim_window c))
      \<longleftrightarrow> (\<exists>c. claim_at st k d = Some c \<and> is_nonempty_closed (claim_window c))"
    proof (cases "claim_at st k d")
      case None
      have no: "\<not> is_nonempty_closed (window_open f)" "\<not> is_nonempty_closed (window_empty f)" for f
        by (simp_all add: is_nonempty_closed_def window_open_def window_empty_def)
      show ?thesis using new [OF l, of k] None no by fastforce
    next
      case (Some x)
      then have "claim_at st' k d = Some x" using D(4) [OF l, of k] by (simp add: inherit_claim_def split: option.split)
      with Some show ?thesis by simp
    qed
    then show "(k \<in> closed_set st' d) = (\<exists>c. claim_at st' k d = Some c \<and> is_nonempty_closed (claim_window c))"
      using wf_coreD(5) [OF wf] ld D(3) [OF l] by (simp add: closed_exact_def)
  qed
  moreover have "bounded_ids st'"
    using wf_coreD(6) [OF wf] del D(2) live by (auto simp: bounded_ids_def deleted_def)
  ultimately show ?thesis using deleted_wf_tree [OF tree lb del] store by (simp add: wf_core_def)
qed

lemma deleted_certs:
  assumes "wf_core st" "is_live st b" "deleted b st st'"
  shows "all_certs st' \<subseteq> all_certs st"
proof -
  have "claim_cert x \<in> all_certs st" if x: "claim_at st' k d = Some x" for k d x
  proof -
    have "is_live st' d" using assms(3) x wf_store_claim_live [of st' k d x] by (simp add: deleted_def)
    then have d: "is_live st d" "d \<noteq> b" using assms(3) by (auto simp: deleted_def split: if_splits)
    have "claim_at st' k d = (case forked_from st b d of None \<Rightarrow> claim_at st k d
        | Some s \<Rightarrow> inherit_claim (fseq st d) s (claim_at st k d) (claim_at st k b))" using assms(3) d by (simp add: deleted_def)
    then show ?thesis using x
      by (cases "claim_at st k b") (auto simp: inherit_claim_def intro: all_certsI split: option.splits)
  qed
  then show ?thesis unfolding all_certs_def [of st'] by blast
qed

text \<open>Deleting a branch returns, keeps the invariants, and no surviving version can tell.\<close>

lemma delete_branch_correct:
  assumes inv: "core_inv E st" and live: "is_live st b"
  shows "\<exists>ks st'. delete_branch st b = Some (ks, st') \<and> core_inv E st' \<and> deleted b st st' \<and> all_certs st' \<subseteq> all_certs st
    \<and> (\<forall>d. is_live st d \<longrightarrow> d \<noteq> b \<longrightarrow> same_answers st st' d)"
proof -
  have wf: "wf_core st" using inv by (simp add: core_inv_def)
  from delete_branch_deleted [OF wf live] obtain ks st' where run: "delete_branch st b = Some (ks, st')" and del: "deleted b st st'" by blast
  note sa = deleted_same_answers [OF wf live del]
  have "supported_at E st' d" if "is_live st' d" for d
  proof -
    from that del have d: "is_live st d" "d \<noteq> b" by (auto simp: deleted_def split: if_splits)
    show ?thesis
      by (rule supported_same_answers [OF sa [OF d]])
        (use inv d del wf_tree_seqs [OF wf_coreD(1) [OF wf] d(1)] in \<open>auto simp: core_inv_def deleted_def\<close>)
  qed
  then have "core_inv E st'" using deleted_wf [OF wf live del] by (simp add: core_inv_def)
  with run del sa deleted_certs [OF wf live del] show ?thesis by blast
qed

end
