(* ===== verification/Dice_Run.thy ===== *)
theory Dice_Run
  imports Dice_Delete
begin

text \<open>
  Runs of the whole interface, beside the recorded history: \<^verbatim>\<open>Run\<close> of
  \<^verbatim>\<open>dice/dice_core/src/fuzz.rs\<close>. \<open>reachable\<close> holds of the runs an environment can make by any sequence
  of calls that return, with any certificates. Every answer in a reachable run is justified
  (\<open>run_inv_sound\<close>), which is the master invariant of \<^verbatim>\<open>dice/docs/incrementality.md\<close>, section 3.3.

  The calls of \<^verbatim>\<open>check_invariants\<close> between the operations change nothing and are left out here; the
  theory \<open>Dice_Checks\<close> has them.
\<close>

section \<open>The bookkeeping of a run\<close>

text \<open>\<open>run_tokens\<close> is the process-wide source of \<epsilon> tokens, which is a static of \<^verbatim>\<open>ids.rs\<close>.\<close>

record ('p, 'd, 'a) run =
  run_state :: "('p, 'd, 'a) core_state"
  run_model :: model
  run_eps_seen :: "epsilon_token list key_map"
  run_tokens :: nat

definition run_new_root :: "('p, 'd, 'a) run \<Rightarrow> (branch_id \<times> ('p, 'd, 'a) run) option" where
  "run_new_root run = do {
     (root, st) \<leftarrow> new_root (run_state run);
     head \<leftarrow> head_of st root;
     M \<leftarrow> record_version (run_model run) head None [];
     Some (root, run\<lparr>run_state := st, run_model := M\<rparr>) }"

definition run_new :: "nat \<Rightarrow> (('p, 'd, 'a) run \<times> branch_id) option" where
  "run_new tokens = do {
     (root, run) \<leftarrow> run_new_root
       \<lparr>run_state = core_new, run_model = model_new, run_eps_seen = [], run_tokens = tokens\<rparr>;
     Some (run, root) }"

definition eps_for :: "('p, 'd, 'a) run \<Rightarrow> key \<Rightarrow> nat \<Rightarrow> epsilon_token" where
  "eps_for run key i =
     (case map_of (run_eps_seen run) key of
        Some seen \<Rightarrow> if seen \<noteq> [] \<and> i mod 4 \<noteq> 0 then seen ! (i mod length seen) else epsilon_INITIAL
      | None \<Rightarrow> epsilon_INITIAL)"

definition asserted_changes :: "'d change list \<Rightarrow> (key \<times> revision) list" where
  "asserted_changes cs = List.map_filter (\<lambda>c. case c of Assert k r _ \<Rightarrow> Some (k, r) | Dirty _ _ \<Rightarrow> None) cs"

definition dirtied_changes :: "'d change list \<Rightarrow> key list" where
  "dirtied_changes cs = List.map_filter (\<lambda>c. case c of Assert _ _ _ \<Rightarrow> None | Dirty k _ \<Rightarrow> Some k) cs"

definition seen_eps :: "epsilon_token list key_map \<Rightarrow> key \<times> epsilon_token \<Rightarrow> epsilon_token list key_map" where
  "seen_eps seen = (\<lambda>(key, eps). AList.update key
     ((case map_of seen key of None \<Rightarrow> [] | Some l \<Rightarrow> l) @ [eps]) seen)"

definition run_commit ::
  "('p, 'd, 'a) env \<Rightarrow> ('p, 'd, 'a) run \<Rightarrow> branch_id \<Rightarrow> 'd change list
   \<Rightarrow> (version option \<times> ('p, 'd, 'a) run) option" where
  "run_commit E run b changes = do {
     prior \<leftarrow> head_of (run_state run) b;
     (st, tokens, after) \<leftarrow> commit E (run_state run) (run_tokens run) b changes;
     let run1 = run\<lparr>run_state := st, run_tokens := tokens\<rparr>;
     if after = prior then (if dirtied_changes changes = [] then Some (None, run1) else None)
     else do {
       eps \<leftarrow> those (map (\<lambda>key. map_option (Pair key) (epsilon st key after)) (dirtied_changes changes));
       M \<leftarrow> record_version (run_model run) after (Some prior)
         (map (\<lambda>(k, r). (AKey k, r)) (asserted_changes changes) @ map (\<lambda>(k, e). (Untracked k, e)) eps);
       Some (Some after, run1\<lparr>run_model := M, run_eps_seen := foldl seen_eps (run_eps_seen run) eps\<rparr>) } }"

definition run_fork ::
  "('p, 'd, 'a) env \<Rightarrow> ('p, 'd, 'a) run \<Rightarrow> version \<Rightarrow> (branch_id \<times> ('p, 'd, 'a) run) option" where
  "run_fork E run from = do {
     (child, st) \<leftarrow> fork E (run_state run) from;
     head \<leftarrow> head_of st child;
     M \<leftarrow> record_version (run_model run) head (Some from) [];
     Some (child, run\<lparr>run_state := st, run_model := M\<rparr>) }"

definition run_delete :: "('p, 'd, 'a) run \<Rightarrow> nat \<Rightarrow> ('p, 'd, 'a) run option" where
  "run_delete run index =
     (let live = live_branches (run_state run) in
      if length live < 2 then Some run
      else do {
        (_, st) \<leftarrow> delete_branch (run_state run) (live ! (index mod length live));
        Some (run\<lparr>run_state := st\<rparr>) })"

definition run_write :: "('p, 'd, 'a) env \<Rightarrow> ('p, 'd, 'a) run \<Rightarrow> 'p cert \<Rightarrow> ('p, 'd, 'a) run option" where
  "run_write E run cert = do {
     (st, _) \<leftarrow> write_cert E (run_state run) cert;
     Some (run\<lparr>run_state := st, run_model := record_write E (run_model run) cert\<rparr>) }"

text \<open>The soundness checks; a failed one panics.\<close>

definition check_lookup :: "('p, 'd, 'a) env \<Rightarrow> ('p, 'd, 'a) run \<Rightarrow> key \<Rightarrow> version \<Rightarrow> unit option" where
  "check_lookup E run key v = do {
     l \<leftarrow> lookup E (run_state run) key v;
     (case valid_revision l of
        None \<Rightarrow> Some ()
      | Some revision \<Rightarrow> do {
          ok \<leftarrow> is_justified (run_model run) key revision v;
          if ok then Some () else None }) }"

fun check_facts ::
  "('p, 'd, 'a) env \<Rightarrow> ('p, 'd, 'a) core_state \<Rightarrow> (atom \<times> rev) list \<Rightarrow> version \<Rightarrow> key list \<Rightarrow> unit option" where
  "check_facts E st facts v [] = Some ()"
| "check_facts E st facts v (key # keys) = do {
     l \<leftarrow> lookup E st key v;
     if (case valid_revision l of None \<Rightarrow> True | Some revision \<Rightarrow> (AKey key, revision) \<in> set facts)
     then check_facts E st facts v keys else None }"

fun check_versions ::
  "('p, 'd, 'a) env \<Rightarrow> ('p, 'd, 'a) run \<Rightarrow> key list \<Rightarrow> version list \<Rightarrow> unit option" where
  "check_versions E run keys [] = Some ()"
| "check_versions E run keys (v # vs) =
     (if \<not> has_version (run_model run) v then check_versions E run keys vs
      else do {
        facts \<leftarrow> justified_facts (run_model run) v;
        _ \<leftarrow> check_facts E (run_state run) facts v keys;
        check_versions E run keys vs })"

fun check_branches_of ::
  "('p, 'd, 'a) env \<Rightarrow> ('p, 'd, 'a) run \<Rightarrow> key list \<Rightarrow> branch_id list \<Rightarrow> unit option" where
  "check_branches_of E run keys [] = Some ()"
| "check_branches_of E run keys (b # bs) = do {
     first \<leftarrow> first_of (run_state run) b;
     head \<leftarrow> head_of (run_state run) b;
     _ \<leftarrow> check_versions E run keys (map (Version b) [vseq first ..< Suc (vseq head)]);
     check_branches_of E run keys bs }"

definition check_everything :: "('p, 'd, 'a) env \<Rightarrow> ('p, 'd, 'a) run \<Rightarrow> key list \<Rightarrow> unit option" where
  "check_everything E run keys = check_branches_of E run keys (live_branches (run_state run))"

lemmas [op_defs] = run_new_root_def run_new_def eps_for_def asserted_changes_def dirtied_changes_def
  seen_eps_def run_commit_def run_fork_def run_delete_def run_write_def check_lookup_def check_everything_def

section \<open>What a run keeps\<close>

text \<open>The recorded history says of every live version what its state resolves there, nothing is
  recorded for versions to come, every certificate kept was written, and every answer is justified.\<close>

definition run_inv :: "('p, 'd, 'a) env \<Rightarrow> ('p, 'd, 'a) core_state \<Rightarrow> model \<Rightarrow> bool" where
  "run_inv E st M \<longleftrightarrow> core_inv E st
     \<and> (\<forall>v. has_version M v \<longrightarrow> vbranch v < length (branches st) \<and> (is_live st (vbranch v) \<longrightarrow> vseq v \<le> hseq st (vbranch v)))
     \<and> (\<forall>b s. is_live st b \<longrightarrow> fseq st b \<le> s \<longrightarrow> s \<le> hseq st b \<longrightarrow> has_version M (Version b s)
          \<and> (\<forall>k. asserted M (AKey k) (Version b s) = Some (map_option (entry_revision \<circ> snd) (ventry st k b s))
               \<and> asserted M (Untracked k) (Version b s) = Some (Some (eps_at st k b s))
               \<and> (\<forall>c. vcert st k b s = Some c \<longrightarrow> justified M (Version b s) (AKey k) (cert_revision c))))
     \<and> cert_record_of E ` all_certs st \<subseteq> set (m_written M)"

lemma run_invD:
  assumes "run_inv E st M"
  shows "core_inv E st" "wf_core st"
    "\<And>v. has_version M v \<Longrightarrow> vbranch v < length (branches st)"
    "\<And>v. has_version M v \<Longrightarrow> is_live st (vbranch v) \<Longrightarrow> vseq v \<le> hseq st (vbranch v)"
    "\<And>b s. is_live st b \<Longrightarrow> fseq st b \<le> s \<Longrightarrow> s \<le> hseq st b \<Longrightarrow> has_version M (Version b s)"
    "\<And>b s k. is_live st b \<Longrightarrow> fseq st b \<le> s \<Longrightarrow> s \<le> hseq st b \<Longrightarrow>
       asserted M (AKey k) (Version b s) = Some (map_option (entry_revision \<circ> snd) (ventry st k b s))"
    "\<And>b s k. is_live st b \<Longrightarrow> fseq st b \<le> s \<Longrightarrow> s \<le> hseq st b \<Longrightarrow>
       asserted M (Untracked k) (Version b s) = Some (Some (eps_at st k b s))"
    "\<And>b s k c. is_live st b \<Longrightarrow> fseq st b \<le> s \<Longrightarrow> s \<le> hseq st b \<Longrightarrow> vcert st k b s = Some c
       \<Longrightarrow> justified M (Version b s) (AKey k) (cert_revision c)"
    "\<And>c. c \<in> all_certs st \<Longrightarrow> cert_record_of E c \<in> set (m_written M)"
  using assms unfolding run_inv_def core_inv_def by blast+

text \<open>At a version where the history agrees with the state, a held premise is justified.\<close>

lemma justified_rev_at:
  assumes k: "asserted M (AKey k) (Version b s) = Some (map_option (entry_revision \<circ> snd) (ventry st k b s))"
    and c: "\<And>c. vcert st k b s = Some c \<Longrightarrow> justified M (Version b s) (AKey k) (cert_revision c)"
    and r: "rev_at st k b s = Some r"
  shows "justified M (Version b s) (AKey k) r"
  using r k c by (auto simp: rev_at_def intro: by_assert split: if_splits)

text \<open>At a head, groundedness gives the whole derivation.\<close>

lemma grounded_justified:
  assumes inv: "core_inv E st" and live: "is_live st b"
    and k: "\<And>k. asserted M (AKey k) (Version b (hseq st b)) = Some (map_option (entry_revision \<circ> snd) (ventry st k b (hseq st b)))"
    and e: "\<And>k. asserted M (Untracked k) (Version b (hseq st b)) = Some (Some (eps_at st k b (hseq st b)))"
    and w: "\<And>c. c \<in> all_certs st \<Longrightarrow> cert_record_of E c \<in> set (m_written M)"
  shows "vcert st k b (hseq st b) = Some c \<Longrightarrow> justified M (Version b (hseq st b)) (AKey k) (cert_revision c)"
proof -
  have wf: "wf_core st" and sup: "supported_at E st b" using inv live by (auto simp: core_inv_def)
  have "grounded E st b (hseq st b) k \<Longrightarrow>
    vcert st k b (hseq st b) = Some c \<longrightarrow> justified M (Version b (hseq st b)) (AKey k) (cert_revision c)" for k c
  proof (induction arbitrary: c rule: grounded.induct)
    case (ground k x)
    note kx = vcert_key [OF wf_coreD(2) [OF wf] ground(1)]
    have h: "holds E st x b (hseq st b)"
      by (rule supported_holds [OF sup ground(1)]) (use ground(1) wf_tree_seqs [OF wf_coreD(1) [OF wf] live] in auto)
    have "justified M (Version b (hseq st b)) (AKey (cert_key x)) (cert_revision x)"
    proof (rule justified_cert)
      show "cert_record_of E x \<in> set (m_written M)" using w kx by blast
      show "asserted M (Untracked (cert_key x)) (Version b (hseq st b)) = Some (Some (cert_epsilon x))"
        using e h by (simp add: holds_def)
      fix p assume p: "p \<in> set (cert_premises E x)"
      have r: "rev_at st (premise_key p) b (hseq st b) = Some (premise_revision p)" by (rule holds_premise(1) [OF h p])
      show "justified M (Version b (hseq st b)) (AKey (premise_key p)) (premise_revision p)"
      proof (cases "is_asserted st (premise_key p)")
        case True
        then show ?thesis using r k by (auto simp: rev_at_def intro: by_assert)
      next
        case False
        then obtain y where y: "vcert st (premise_key p) b (hseq st b) = Some y" "cert_revision y = premise_revision p"
          using r by (auto simp: rev_at_def)
        with ground(2) [OF p] False show ?thesis by auto
      qed
    qed
    with ground(1) kx show ?case by auto
  qed
  then show "vcert st k b (hseq st b) = Some c \<Longrightarrow> justified M (Version b (hseq st b)) (AKey k) (cert_revision c)"
    using supported_grounded [OF sup] by blast
qed


section \<open>The operations keep it\<close>

lemma has_version_record: "record_version M v p as = Some M' \<Longrightarrow> has_version M' u \<longleftrightarrow> u = v \<or> has_version M u"
  by (auto simp: record_version_def has_version_def split: if_splits)

lemma justified_record_version:
  assumes "record_version M v p as = Some M'" "justified M u a r"
  shows "justified M' u a r"
  by (rule justified_transfer [OF assms(2)]) (use asserted_record_version [OF assms(1)] written_record(1) [OF assms(1)] in auto)

text \<open>An operation that mints the version \<open>n\<close> at its new head, and leaves the older ones.\<close>

lemma run_inv_new_version:
  assumes R: "run_inv E st M" and inv': "core_inv E st'" and rec: "record_version M (Version n (hseq st' n)) p as = Some M'"
    and n: "is_live st' n" and certs: "all_certs st' \<subseteq> all_certs st"
    and grow: "\<And>d. d < length (branches st) \<Longrightarrow> d < length (branches st')
      \<and> (is_live st' d \<longrightarrow> is_live st d \<and> hseq st d \<le> hseq st' d)"
    and old: "\<And>d s. is_live st' d \<Longrightarrow> fseq st' d \<le> s \<Longrightarrow> s \<le> hseq st' d \<Longrightarrow> (d, s) \<noteq> (n, hseq st' n) \<Longrightarrow>
      is_live st d \<and> fseq st d \<le> s \<and> s \<le> hseq st d
      \<and> (\<forall>k. vcert st' k d s = vcert st k d s \<and> ventry st' k d s = ventry st k d s \<and> eps_at st' k d s = eps_at st k d s)"
    and new: "\<And>k. asserted M' (AKey k) (Version n (hseq st' n)) = Some (map_option (entry_revision \<circ> snd) (ventry st' k n (hseq st' n)))"
      "\<And>k. asserted M' (Untracked k) (Version n (hseq st' n)) = Some (Some (eps_at st' k n (hseq st' n)))"
  shows "run_inv E st' M'"
proof -
  note I = run_invD [OF R] and hv = has_version_record [OF rec]
  have w: "cert_record_of E c \<in> set (m_written M')" if "c \<in> all_certs st'" for c
    using that certs I(9) written_record(1) [OF rec] by auto
  note gj = grounded_justified [OF inv' n new w]
  have bound: "vbranch v < length (branches st') \<and> (is_live st' (vbranch v) \<longrightarrow> vseq v \<le> hseq st' (vbranch v))"
    if "has_version M' v" for v
  proof (cases "v = Version n (hseq st' n)")
    case True
    then show ?thesis using is_live_less [OF n] by simp
  next
    case False
    then have "has_version M v" using that hv by simp
    with I(3,4) [OF this] grow [of "vbranch v"] show ?thesis by auto
  qed
  have at: "has_version M' (Version d s)
      \<and> (\<forall>k. asserted M' (AKey k) (Version d s) = Some (map_option (entry_revision \<circ> snd) (ventry st' k d s))
           \<and> asserted M' (Untracked k) (Version d s) = Some (Some (eps_at st' k d s))
           \<and> (\<forall>c. vcert st' k d s = Some c \<longrightarrow> justified M' (Version d s) (AKey k) (cert_revision c)))"
    if d: "is_live st' d" "fseq st' d \<le> s" "s \<le> hseq st' d" for d s
  proof (cases "(d, s) = (n, hseq st' n)")
    case True
    then show ?thesis using new gj hv by auto
  next
    case False
    from old [OF d False] have l: "is_live st d" "fseq st d \<le> s" "s \<le> hseq st d"
      and same: "\<And>k. vcert st' k d s = vcert st k d s \<and> ventry st' k d s = ventry st k d s \<and> eps_at st' k d s = eps_at st k d s"
      by auto
    show ?thesis
      using I(5-8) [OF l] hv asserted_record_version [OF rec] justified_record_version [OF rec] same by simp
  qed
  show ?thesis unfolding run_inv_def using inv' bound at w by blast
qed

lemma run_new_root_inv:
  assumes r: "run_new_root run = Some (root, run')" and R: "run_inv E (run_state run) (run_model run)"
  shows "run_inv E (run_state run') (run_model run')"
proof -
  obtain st head M where nr: "new_root (run_state run) = Some (root, st)" and hd: "head_of st root = Some head"
    and rec: "record_version (run_model run) head None [] = Some M"
    and run': "run' = run\<lparr>run_state := st, run_model := M\<rparr>"
    using r by (auto simp: run_new_root_def bind_eq_Some_conv)
  note I = run_invD [OF R]
  from new_root_correct [OF nr I(1)] have inv': "core_inv E st" and g: "grown (run_state run) root None st"
    and none: "\<forall>k s. vcert st k root s = None \<and> eps_at st k root s = epsilon_INITIAL \<and> ventry st k root s = None" by auto
  note ga = grown_answers [OF g]
  have head: "head = Version root (hseq st root)" using hd by (auto simp: head_of_def hseq_def split: option.splits)
  have dead: "\<not> is_live (run_state run) root" using grown_fresh(1) [OF g] wf_coreD(4) [OF I(2)] by blast
  have T: "is_live st = (is_live (run_state run))(root := True)" "hseq st = (hseq (run_state run))(root := seq_FIRST)"
    "fseq st = (fseq (run_state run))(root := seq_FIRST)" "length (branches st) = Suc (length (branches (run_state run)))"
    "root = length (branches (run_state run))" using g by (simp_all add: grown_def)
  have "run_inv E st M"
  proof (rule run_inv_new_version [OF R inv' rec [unfolded head]])
    show "is_live st root" by (simp add: T)
    show "all_certs st \<subseteq> all_certs (run_state run)" using grown_views(5) [OF g] by simp
    show "d < length (branches st) \<and> (is_live st d \<longrightarrow> is_live (run_state run) d \<and> hseq (run_state run) d \<le> hseq st d)"
      if "d < length (branches (run_state run))" for d using that T by auto
    show "is_live (run_state run) d \<and> fseq (run_state run) d \<le> s \<and> s \<le> hseq (run_state run) d
      \<and> (\<forall>k. vcert st k d s = vcert (run_state run) k d s \<and> ventry st k d s = ventry (run_state run) k d s
          \<and> eps_at st k d s = eps_at (run_state run) k d s)"
      if "is_live st d" "fseq st d \<le> s" "s \<le> hseq st d" "(d, s) \<noteq> (root, hseq st root)" for d s
    proof -
      have "d \<noteq> root" using that by (auto simp: T)
      then show ?thesis using that ga [of d] by (simp add: T)
    qed
    show "asserted M (AKey k) (Version root (hseq st root)) = Some (map_option (entry_revision \<circ> snd) (ventry st k root (hseq st root)))"
      "asserted M (Untracked k) (Version root (hseq st root)) = Some (Some (eps_at st k root (hseq st root)))" for k
      using asserted_new_version [OF rec] head none by (simp_all add: root_assertion_def)
  qed
  then show ?thesis by (simp add: run')
qed

lemma run_fork_inv:
  assumes r: "run_fork E run from = Some (c, run')" and R: "run_inv E (run_state run) (run_model run)"
  shows "run_inv E (run_state run') (run_model run')"
proof -
  let ?st = "run_state run"
  obtain st head M where fk: "fork E ?st from = Some (c, st)" and hd: "head_of st c = Some head"
    and rec: "record_version (run_model run) head (Some from) [] = Some M"
    and run': "run' = run\<lparr>run_state := st, run_model := M\<rparr>"
    using r by (auto simp: run_fork_def bind_eq_Some_conv)
  note I = run_invD [OF R]
  obtain b s where from_eq: "from = Version b s" by (cases "from")
  obtain br where br: "branch_of ?st b = Some br" "br_first br \<le> s" "s \<le> br_head br" "length (branches ?st) \<le> u32_max"
    using fk by (auto simp: fork_def from_eq bind_eq_Some_conv branch_from_index_def split: if_splits)
  then have l: "is_live ?st b" "fseq ?st b \<le> s" "s \<le> hseq ?st b" by (simp_all add: is_live_branch_of fseq_def hseq_def)
  from fork_correct [OF I(1) l br(4)] fk from_eq have c: "c = length (branches ?st)" and inv': "core_inv E st"
    and f: "forked E ?st b s c st" by auto
  have head: "head = Version c (hseq st c)" using hd by (auto simp: head_of_def hseq_def split: option.splits)
  have T: "is_live st = (is_live ?st)(c := True)" "hseq st = (hseq ?st)(c := seq_FIRST)" "fseq st = (fseq ?st)(c := seq_FIRST)"
    "length (branches st) = Suc (length (branches ?st))" "all_certs st \<subseteq> all_certs ?st"
    and old: "\<And>d k q. is_live ?st d \<Longrightarrow> vcert st k d q = vcert ?st k d q \<and> ventry st k d q = ventry ?st k d q \<and> eps_at st k d q = eps_at ?st k d q"
    and new: "\<And>k q. ventry st k c q = ventry ?st k b s \<and> eps_at st k c q = eps_at ?st k b s"
    using f by (auto simp: forked_def)
  have "run_inv E st M"
  proof (rule run_inv_new_version [OF R inv' rec [unfolded head]])
    show "is_live st c" by (simp add: T)
    show "all_certs st \<subseteq> all_certs ?st" by (rule T(5))
    show "d < length (branches st) \<and> (is_live st d \<longrightarrow> is_live ?st d \<and> hseq ?st d \<le> hseq st d)"
      if "d < length (branches ?st)" for d using that T c by auto
    show "is_live ?st d \<and> fseq ?st d \<le> q \<and> q \<le> hseq ?st d
      \<and> (\<forall>k. vcert st k d q = vcert ?st k d q \<and> ventry st k d q = ventry ?st k d q \<and> eps_at st k d q = eps_at ?st k d q)"
      if "is_live st d" "fseq st d \<le> q" "q \<le> hseq st d" "(d, q) \<noteq> (c, hseq st c)" for d q
    proof -
      have "d \<noteq> c" using that by (auto simp: T)
      then show ?thesis using that old [of d] by (simp add: T)
    qed
    have up: "asserted M a (Version b s) = Some x" if "asserted (run_model run) a (Version b s) = Some x" for a x
      by (rule asserted_record_version [OF rec that])
    show "asserted M (AKey k) (Version c (hseq st c)) = Some (map_option (entry_revision \<circ> snd) (ventry st k c (hseq st c)))"
      "asserted M (Untracked k) (Version c (hseq st c)) = Some (Some (eps_at st k c (hseq st c)))" for k
      using asserted_new_version [OF rec] head new up [OF I(6) [OF l]] up [OF I(7) [OF l]] by (simp_all add: from_eq)
  qed
  then show ?thesis by (simp add: run')
qed

lemma run_delete_inv:
  assumes r: "run_delete run i = Some run'" and R: "run_inv E (run_state run) (run_model run)"
  shows "run_inv E (run_state run') (run_model run')"
proof (cases "run' = run")
  case True
  with R show ?thesis by simp
next
  case False
  let ?st = "run_state run" and ?M = "run_model run"
  obtain b ks st where db: "delete_branch ?st b = Some (ks, st)" and run': "run' = run\<lparr>run_state := st\<rparr>"
    using r False by (auto simp: run_delete_def Let_def bind_eq_Some_conv split: if_splits)
  note I = run_invD [OF R]
  have lb: "is_live ?st b" using db by (auto simp: delete_branch_def is_live_branch_of bind_eq_Some_conv)
  from delete_branch_correct [OF I(1) lb] db have inv': "core_inv E st" and del: "deleted b ?st st"
    and certs: "all_certs st \<subseteq> all_certs ?st" and same: "\<And>d. is_live ?st d \<Longrightarrow> d \<noteq> b \<Longrightarrow> same_answers ?st st d" by auto
  have T: "is_live st = (is_live ?st)(b := False)" "length (branches st) = length (branches ?st)" using del by (simp_all add: deleted_def)
  have ve: "map_option (entry_revision \<circ> snd) (ventry st k d s) = map_option (entry_revision \<circ> snd) (ventry ?st k d s)"
    if "is_live ?st d" "d \<noteq> b" "fseq ?st d \<le> s" for k d s
    using map_option_eqI [OF deleted_answers(2) [OF I(2) lb del that], of fst k] by (simp add: answer_fst)
  have D: "is_live ?st d \<and> d \<noteq> b \<and> fseq st d = fseq ?st d \<and> hseq st d = hseq ?st d" if "is_live st d" for d
    using that del by (auto simp: deleted_def split: if_splits)
  have "run_inv E st ?M"
    unfolding run_inv_def
  proof (intro conjI allI impI)
    show "core_inv E st" by (rule inv')
    show "vbranch v < length (branches st)" if "has_version ?M v" for v using I(3) [OF that] T by simp
    show "vseq v \<le> hseq st (vbranch v)" if "has_version ?M v" "is_live st (vbranch v)" for v
      using I(4) [OF that(1)] D [OF that(2)] by simp
    show "cert_record_of E ` all_certs st \<subseteq> set (m_written ?M)" using certs I(9) by auto
    fix d s assume d: "is_live st d" "fseq st d \<le> s" "s \<le> hseq st d"
    then have l: "is_live ?st d" "d \<noteq> b" "fseq ?st d \<le> s" "s \<le> hseq ?st d" using D [OF d(1)] by auto
    show "has_version ?M (Version d s)" by (rule I(5) [OF l(1,3,4)])
    fix k
    show "asserted ?M (AKey k) (Version d s) = Some (map_option (entry_revision \<circ> snd) (ventry st k d s))"
      using I(6) [OF l(1,3,4)] ve [OF l(1-3)] by simp
    show "asserted ?M (Untracked k) (Version d s) = Some (Some (eps_at st k d s))"
      using I(7) [OF l(1,3,4)] same [OF l(1,2)] l by (simp add: same_answers_def)
    show "justified ?M (Version d s) (AKey k) (cert_revision c)" if "vcert st k d s = Some c" for c
      using that I(8) [OF l(1,3,4)] same [OF l(1,2)] l by (simp add: same_answers_def)
  qed
  then show ?thesis by (simp add: run')
qed


lemma run_inv_record_write:
  assumes R: "run_inv E st M"
  shows "run_inv E st (record_write E M cert)"
proof -
  note I = run_invD [OF R]
  have "has_version (record_write E M cert) v = has_version M v" for v by (simp add: has_version_def record_write_def)
  moreover have "justified (record_write E M cert) v a r" if "justified M v a r" for v a r
    by (rule justified_transfer [OF that]) auto
  ultimately show ?thesis unfolding run_inv_def using I by auto
qed

lemma write_step_inv:
  assumes R: "run_inv E st M" and cert: "cert_record_of E cert \<in> set (m_written M)"
    and ws: "write_step E {c. cert_record_of E c \<in> set (m_written M)} cert st st'"
  shows "run_inv E st' M"
proof -
  note I = run_invD [OF R]
  have inv': "core_inv E st'" and sw: "same_world st st'" and certs: "all_certs st' \<subseteq> {c. cert_record_of E c \<in> set (m_written M)}"
    using ws by (auto simp: write_step_def)
  note v = same_world_views [OF sw] and va = same_world_asserted_views [OF sw]
  show ?thesis
    unfolding run_inv_def v va
  proof (intro conjI allI impI)
    show "core_inv E st'" by (rule inv')
    show "vbranch v < length (branches st)" if "has_version M v" for v using I(3) [OF that] .
    show "vseq v \<le> hseq st (vbranch v)" if "has_version M v" "is_live st (vbranch v)" for v using I(4) [OF that] .
    show "cert_record_of E ` all_certs st' \<subseteq> set (m_written M)" using certs by auto
    fix d s assume d: "is_live st d" "fseq st d \<le> s" "s \<le> hseq st d"
    show "has_version M (Version d s)" by (rule I(5) [OF d])
    fix k
    show "asserted M (AKey k) (Version d s) = Some (map_option (entry_revision \<circ> snd) (ventry st k d s))" by (rule I(6) [OF d])
    show "asserted M (Untracked k) (Version d s) = Some (Some (eps_at st k d s))" by (rule I(7) [OF d])
    fix c assume c: "vcert st' k d s = Some c"
    show "justified M (Version d s) (AKey k) (cert_revision c)"
    proof (cases "vcert st' k d s = vcert st k d s")
      case True
      with c I(8) [OF d] show ?thesis by simp
    next
      case False
      then have k: "k = cert_key cert" using ws d by (auto simp: write_step_def)
      have "vcert st' k d s = Some cert \<and> holds E st cert d s"
        using write_step_key [OF ws d(1)] False c d(2) unfolding k by auto
      then have h: "holds E st cert d s" and "c = cert" using c by auto
      have "justified M (Version d s) (AKey (cert_key cert)) (cert_revision cert)"
      proof (rule justified_cert [OF cert])
        show "asserted M (Untracked (cert_key cert)) (Version d s) = Some (Some (cert_epsilon cert))"
          using I(7) [OF d] h by (simp add: holds_def)
        show "justified M (Version d s) (AKey (premise_key p)) (premise_revision p)" if "p \<in> set (cert_premises E cert)" for p
          by (rule justified_rev_at [OF I(6) [OF d] I(8) [OF d] holds_premise(1) [OF h that]])
      qed
      then show ?thesis using k \<open>c = cert\<close> by simp
    qed
  qed
qed

lemma run_write_inv:
  assumes r: "run_write E run cert = Some run'" and R: "run_inv E (run_state run) (run_model run)"
  shows "run_inv E (run_state run') (run_model run')"
proof -
  let ?M = "record_write E (run_model run) cert"
  let ?A = "{c. cert_record_of E c \<in> set (m_written ?M)}"
  obtain st out where w: "write_cert E (run_state run) cert = Some (st, out)"
    and run': "run' = run\<lparr>run_state := st, run_model := ?M\<rparr>"
    using r by (auto simp: run_write_def bind_eq_Some_conv)
  have R0: "run_inv E (run_state run) ?M" by (rule run_inv_record_write [OF R])
  have as: "\<not> is_asserted (run_state run) (cert_key cert)" using w by (auto simp: write_cert_def split: if_splits)
  have "insert cert (all_certs (run_state run)) \<subseteq> ?A" using run_invD(9) [OF R] by auto
  from write_correct [OF run_invD(1) [OF R] as this] w have steps: "(write_step E ?A cert)\<^sup>*\<^sup>* (run_state run) st" by auto
  have "run_inv E st ?M"
    using steps
  proof (induction rule: rtranclp_induct)
    case base
    show ?case by (rule R0)
  next
    case (step y z)
    show ?case by (rule write_step_inv [OF step.IH _ step.hyps(2)]) simp
  qed
  then show ?thesis by (simp add: run')
qed

lemma those_map_Some: "(\<And>x. x \<in> set xs \<Longrightarrow> f x = Some (g x)) \<Longrightarrow> those (map f xs) = Some (map g xs)"
  by (induction xs) auto

lemma find_rev_atom: "find (\<lambda>(a', _). a' = a) (List.rev xs) = Some x \<Longrightarrow> \<exists>r. x = (a, r) \<and> (a, r) \<in> set xs"
  using find_atom [of a "List.rev xs" "fst x" "snd x"] by (cases x) simp

lemma asserted_changes_set: "(k, r) \<in> set (asserted_changes cs) \<longleftrightarrow> (\<exists>d. Assert k r d \<in> set cs)"
proof (induction cs)
  case (Cons c cs)
  then show ?case by (cases c) (auto simp: asserted_changes_def map_filter_simps)
qed (simp add: asserted_changes_def map_filter_simps)

lemma dirtied_changes_set: "k \<in> set (dirtied_changes cs) \<longleftrightarrow> (\<exists>d. Dirty k d \<in> set cs)"
proof (induction cs)
  case (Cons c cs)
  then show ?case by (cases c) (auto simp: dirtied_changes_def map_filter_simps)
qed (simp add: dirtied_changes_def map_filter_simps)

lemma run_commit_inv:
  assumes r: "run_commit E run b cs = Some (res, run')" and R: "run_inv E (run_state run) (run_model run)"
  shows "run_inv E (run_state run') (run_model run')"
proof -
  let ?st = "run_state run" and ?M = "run_model run"
  note I = run_invD [OF R]
  obtain prior st tokens "after" where hd: "head_of ?st b = Some prior"
    and cm: "commit E ?st (run_tokens run) b cs = Some (st, tokens, after)"
    using r by (auto simp: run_commit_def bind_eq_Some_conv)
  from commit_correct [OF cm I(1)] have live: "is_live ?st b"
    and cases: "after = Version b (hseq ?st b) \<and> st = ?st \<and> (\<nexists>k d. Dirty k d \<in> set cs)
      \<or> after = Version b (Suc (hseq ?st b)) \<and> Suc (hseq ?st b) \<le> u32_max \<and> (\<exists>V. committed E ?st b cs V st)" by auto
  have prior: "prior = Version b (hseq ?st b)" using hd by (auto simp: head_of_def hseq_def split: option.splits)
  show ?thesis
  proof (cases "after = prior")
    case True
    then have "st = ?st" using cases prior by auto
    moreover have "run_state run' = st" "run_model run' = ?M"
      using r hd cm True by (auto simp: run_commit_def split: if_splits)
    ultimately show ?thesis using R by simp
  next
    case False
    then obtain V where af: "after = Version b (Suc (hseq ?st b))" and top: "Suc (hseq ?st b) \<le> u32_max" and co: "committed E ?st b cs V st"
      using cases prior by auto
    have inv': "core_inv E st" by (rule committed_inv [OF co I(1) live top])
    have wf': "wf_core st" using inv' by (simp add: core_inv_def)
    note t = committed_tree [OF co] and he = committed_head_entries [OF co I(2) live]
    have lb: "is_live st b" using live t(1) by simp
    define new where "new = Version b (hseq st b)"
    have af': "after = new" using af t(5) by (simp add: new_def)
    let ?eps = "map (\<lambda>k. (k, eps_at st k b (hseq st b))) (dirtied_changes cs)"
    have "those (map (\<lambda>key. map_option (Pair key) (epsilon st key after)) (dirtied_changes cs)) = Some ?eps"
      by (rule those_map_Some) (simp add: af' new_def epsilon_eps_at [OF wf_coreD(1) [OF wf'] lb])
    then obtain M where rec: "record_version ?M new (Some prior)
         (map (\<lambda>(k, r). (AKey k, r)) (asserted_changes cs) @ map (\<lambda>(k, e). (Untracked k, e)) ?eps) = Some M"
      and run': "run_state run' = st" "run_model run' = M"
      using r hd cm False by (auto simp: run_commit_def bind_eq_Some_conv af')
    let ?as = "map (\<lambda>(k, r). (AKey k, r)) (asserted_changes cs) @ map (\<lambda>(k, e). (Untracked k, e)) ?eps"
    have inA: "(AKey k, x) \<in> set ?as \<longleftrightarrow> (\<exists>d. Assert k x d \<in> set cs)" for k x
      using asserted_changes_set [of k x cs] by force
    have inU: "(Untracked k, x) \<in> set ?as \<longleftrightarrow> (\<exists>d. Dirty k d \<in> set cs) \<and> x = eps_at st k b (hseq st b)" for k x
      using dirtied_changes_set [of k cs] by force
    have fh: "fseq ?st b \<le> hseq ?st b" by (rule wf_tree_seqs [OF wf_coreD(1) [OF I(2)] live])
    note up = asserted_record_version [OF rec]
    have "run_inv E st M"
    proof (rule run_inv_new_version [OF R inv' rec [unfolded new_def]])
      show "is_live st b" by (rule lb)
      show "all_certs st \<subseteq> all_certs ?st" by (rule t(8))
      show "d < length (branches st) \<and> (is_live st d \<longrightarrow> is_live ?st d \<and> hseq ?st d \<le> hseq st d)"
        if "d < length (branches ?st)" for d using that t by simp
      show "is_live ?st d \<and> fseq ?st d \<le> s \<and> s \<le> hseq ?st d
        \<and> (\<forall>k. vcert st k d s = vcert ?st k d s \<and> ventry st k d s = ventry ?st k d s \<and> eps_at st k d s = eps_at ?st k d s)"
        if d: "is_live st d" "fseq st d \<le> s" "s \<le> hseq st d" "(d, s) \<noteq> (b, hseq st b)" for d s
      proof -
        have l: "is_live ?st d" "fseq ?st d \<le> s" "s \<le> hseq ?st d" using d t by (auto split: if_splits)
        then show ?thesis using committed_old [OF co I(2) l] by simp
      qed
      have parent: "asserted M a prior = asserted ?M a prior" for a
        using up I(6) [OF live fh order_refl] I(7) [OF live fh order_refl] prior by (cases a) auto
      note walk = asserted_new_version [OF rec, unfolded new_def]
      show "asserted M (AKey k) (Version b (hseq st b)) = Some (map_option (entry_revision \<circ> snd) (ventry st k b (hseq st b)))" for k
      proof (cases "find (\<lambda>(a', _). a' = AKey k) (List.rev ?as)")
        case None
        then have "\<nexists>x. (AKey k, x) \<in> set ?as" by (auto simp: find_None_iff)
        then have "\<nexists>r x. Assert k r x \<in> set cs" using inA by blast
        with he(2) [of k] have "ventry st k b (hseq st b) = ventry ?st k b (hseq ?st b)" by (simp add: t(5))
        then show ?thesis using walk None parent I(6) [OF live fh order_refl] prior by simp
      next
        case (Some x)
        from find_rev_atom [OF this] obtain r where x: "x = (AKey k, r)" "(AKey k, r) \<in> set ?as" by (elim exE conjE) (rule that)
        then obtain d where "Assert k r d \<in> set cs" using inA by blast
        from he(3) [OF this] have "map_option (entry_revision \<circ> snd) (ventry st k b (hseq st b)) = Some r"
          by (auto simp: rev_at_def t(5))
        then show ?thesis using walk [of "AKey k"] Some x(1) by auto
      qed
      show "asserted M (Untracked k) (Version b (hseq st b)) = Some (Some (eps_at st k b (hseq st b)))" for k
      proof (cases "find (\<lambda>(a', _). a' = Untracked k) (List.rev ?as)")
        case None
        then have "\<nexists>x. (Untracked k, x) \<in> set ?as" by (auto simp: find_None_iff)
        then have "\<nexists>x. Dirty k x \<in> set cs" using inU by blast
        with he(1) [of k] have "eps_at st k b (hseq st b) = eps_at ?st k b (hseq ?st b)" by (simp add: t(5))
        then show ?thesis using walk None parent I(7) [OF live fh order_refl] prior by simp
      next
        case (Some x)
        from find_rev_atom [OF this] obtain r where x: "x = (Untracked k, r)" "(Untracked k, r) \<in> set ?as" by (elim exE conjE) (rule that)
        then have "r = eps_at st k b (hseq st b)" using inU by blast
        then show ?thesis using walk Some x by simp
      qed
    qed
    then show ?thesis by (simp add: run')
  qed
qed


section \<open>Reachable runs\<close>

text \<open>Any environment: any certificates, any changes, in any order, as long as each call returns.\<close>

inductive reachable :: "('p, 'd, 'a) env \<Rightarrow> ('p, 'd, 'a) run \<Rightarrow> bool" for E where
  start: "run_new tokens = Some (run, root) \<Longrightarrow> reachable E run"
| root: "reachable E run \<Longrightarrow> run_new_root run = Some (b, run') \<Longrightarrow> reachable E run'"
| commit: "reachable E run \<Longrightarrow> run_commit E run b cs = Some (v, run') \<Longrightarrow> reachable E run'"
| fork: "reachable E run \<Longrightarrow> run_fork E run from = Some (b, run') \<Longrightarrow> reachable E run'"
| delete: "reachable E run \<Longrightarrow> run_delete run i = Some run' \<Longrightarrow> reachable E run'"
| written: "reachable E run \<Longrightarrow> run_write E run cert = Some run' \<Longrightarrow> reachable E run'"

lemma core_new_views:
  "\<not> is_live core_new b" "claim_at core_new k b = None" "dirts core_new k b = []" "hist core_new k b = []"
  "length (branches core_new) = 0" "\<not> is_asserted core_new k"
  by (simp_all add: is_live_def claim_at_def dirts_def hist_def slot_of_def is_asserted_def core_new_def)

lemma core_new_inv: "core_inv E core_new"
proof -
  have "wf_store core_new" by (simp add: wf_store_defs slots_of_def core_new_def)
  then have "wf_core core_new"
    by (simp add: wf_core_def wf_tree_def wf_claims_def wf_hists_def closed_exact_def bounded_ids_def core_new_views u32_max_def)
  then show ?thesis by (simp add: core_inv_def core_new_views)
qed

lemma run_inv_empty: "run_inv E core_new model_new"
  by (simp add: run_inv_def has_version_def model_new_def all_certs_def core_new_inv core_new_views)

lemma reachable_inv: "reachable E run \<Longrightarrow> run_inv E (run_state run) (run_model run)"
proof (induction rule: reachable.induct)
  case (start tokens run root)
  then obtain b where "run_new_root \<lparr>run_state = core_new, run_model = model_new, run_eps_seen = [], run_tokens = tokens\<rparr> = Some (b, run)"
    by (auto simp: run_new_def bind_eq_Some_conv)
  from run_new_root_inv [OF this] show ?case by (simp add: run_inv_empty)
next
  case (root run b run')
  then show ?case by (blast intro: run_new_root_inv)
next
  case (commit run b cs v run')
  then show ?case by (blast intro: run_commit_inv)
next
  case (fork run "from" b run')
  then show ?case by (blast intro: run_fork_inv)
next
  case (delete run i run')
  then show ?case by (blast intro: run_delete_inv)
next
  case (written run cert run')
  then show ?case by (blast intro: run_write_inv)
qed

section \<open>Soundness\<close>

definition version_in :: "('p, 'd, 'a) core_state \<Rightarrow> version \<Rightarrow> bool" where
  "version_in st v \<longleftrightarrow> is_live st (vbranch v) \<and> fseq st (vbranch v) \<le> vseq v \<and> vseq v \<le> hseq st (vbranch v)"

lemma lookup_views:
  assumes wf: "wf_tree st" and live: "is_live st b"
  shows "\<exists>l. lookup E st k (Version b s) = Some l \<and> valid_revision l = rev_at st k b s
    \<and> (\<forall>c e u. l = Unknown c e u \<longrightarrow> e = eps_at st k b s
        \<and> (\<forall>x. c = Some x \<longrightarrow> cert_epsilon x = e \<and> x \<in> set (pinned_certs st k)))"
proof -
  have un: "\<exists>u. untracked E st k (Version b s) = Some (eps_at st k b s, u)"
    by (cases "vdirt st k b s") (auto simp: untracked_def resolve_untracked_chain [OF wf live] eps_at_def)
  then obtain u where u: "untracked E st k (Version b s) = Some (eps_at st k b s, u)" by blast
  show ?thesis
  proof (cases "is_asserted st k")
    case True
    then show ?thesis using resolve_chain(1) [OF wf live True, of s] u
      by (cases "ventry st k b s") (auto simp: lookup_def valid_revision_def rev_at_def)
  next
    case False
    from resolve_chain(2) [OF wf live False, of s] obtain cand where
      r: "resolve st k (Version b s) = Some (case vclaim st k b s of Some (ow, c) \<Rightarrow> RClaim ow c | None \<Rightarrow> RUnknown cand)"
      and c: "\<forall>c. cand = Some c \<longrightarrow> c \<in> set (pinned_certs st k)" by blast
    then show ?thesis using u False
      by (cases "vclaim st k b s")
        (auto simp: lookup_def valid_revision_def rev_at_def vcert_def claim_revision_def split: option.splits)
  qed
qed

lemma run_inv_asserted:
  assumes R: "run_inv E st M" and v: "version_in st v"
  shows "asserted M a v \<noteq> None"
  using run_invD(6,7) [OF R, of "vbranch v" "vseq v"] v by (cases a; cases v) (auto simp: version_in_def)

lemma run_inv_sound:
  assumes R: "run_inv E st M" and v: "version_in st v" and l: "lookup E st k v = Some l" "valid_revision l = Some r"
  shows "is_justified M k r v = Some True" "justified M v (AKey k) r"
proof -
  obtain b s where vv: "v = Version b s" by (cases v)
  have d: "is_live st b" "fseq st b \<le> s" "s \<le> hseq st b" using v by (simp_all add: version_in_def vv)
  note I = run_invD [OF R]
  have "rev_at st k b s = Some r"
    using lookup_views [OF wf_coreD(1) [OF I(2)] d(1), of E k s] l by (auto simp: vv)
  then show j: "justified M v (AKey k) r" using justified_rev_at [OF I(6) [OF d] I(8) [OF d]] by (simp add: vv)
  show "is_justified M k r v = Some True"
    using is_justified_iff [of M v k r, OF run_inv_asserted [OF R v]] j by auto
qed

lemma check_lookup_passes:
  assumes R: "run_inv E (run_state run) (run_model run)" and v: "version_in (run_state run) v"
  shows "check_lookup E run k v = Some ()"
proof -
  obtain b s where vv: "v = Version b s" by (cases v)
  obtain l where l: "lookup E (run_state run) k v = Some l"
    using lookup_views [of "run_state run" b E k s] run_invD(2) [OF R] v by (auto simp: vv version_in_def wf_core_def)
  show ?thesis
    using l run_inv_sound(1) [OF R v l] by (cases "valid_revision l") (simp_all add: check_lookup_def)
qed


lemma check_facts_passes:
  assumes R: "run_inv E st M" and v: "version_in st v" and f: "justified_facts M v = Some facts"
  shows "check_facts E st facts v keys = Some ()"
proof (induction keys)
  case (Cons k keys)
  obtain b s where vv: "v = Version b s" by (cases v)
  obtain l where l: "lookup E st k v = Some l"
    using lookup_views [of st b E k s] run_invD(2) [OF R] v by (auto simp: vv version_in_def wf_core_def)
  have "(AKey k, r) \<in> set facts" if "valid_revision l = Some r" for r
    using run_inv_sound(1) [OF R v l that] f by (simp add: is_justified_def)
  then show ?case using l Cons.IH by (simp split: option.split)
qed simp

lemma check_versions_passes:
  assumes R: "run_inv E (run_state run) (run_model run)" and vs: "\<forall>v\<in>set vs. version_in (run_state run) v"
  shows "check_versions E run keys vs = Some ()"
  using vs
proof (induction vs)
  case (Cons v vs)
  have v: "version_in (run_state run) v" using Cons.prems by simp
  obtain j where "is_justified (run_model run) 0 0 v = Some j"
    using is_justified_iff [of "run_model run" v 0 0, OF run_inv_asserted [OF R v]] by blast
  then obtain facts where f: "justified_facts (run_model run) v = Some facts" by (auto simp: is_justified_def)
  show ?case using Cons f check_facts_passes [OF R v f] by simp
qed simp

lemma live_branches_set: "set (live_branches st) = {b. is_live st b}"
proof -
  have "b \<in> set (live_branches st) \<longleftrightarrow> is_live st b" for b
  proof
    assume "b \<in> set (live_branches st)"
    then show "is_live st b" by (auto simp: live_branches_def map_filter_def in_set_enumerate_eq is_live_def)
  next
    assume l: "is_live st b"
    then have "(b, branches st ! b) \<in> set (List.enumerate 0 (branches st))" by (simp add: in_set_enumerate_eq is_live_def)
    moreover have "map_option (\<lambda>_. b) (branches st ! b) = Some b" using l by (auto simp: is_live_def)
    ultimately show "b \<in> set (live_branches st)" by (force simp: live_branches_def map_filter_def)
  qed
  then show ?thesis by auto
qed

lemma check_everything_passes:
  assumes R: "run_inv E (run_state run) (run_model run)"
  shows "check_everything E run keys = Some ()"
proof -
  have "check_branches_of E run keys bs = Some ()" if "\<forall>b\<in>set bs. is_live (run_state run) b" for bs
    using that
  proof (induction bs)
    case (Cons b bs)
    then have "is_live (run_state run) b" by simp
    then obtain br where br: "branch_of (run_state run) b = Some br" using is_live_Some by blast
    have "\<forall>v\<in>set (map (Version b) [br_first br ..< Suc (br_head br)]). version_in (run_state run) v"
      using Cons.prems br by (auto simp: version_in_def fseq_def hseq_def)
    from check_versions_passes [OF R this] Cons br show ?case by (simp add: first_of_def head_of_def del: upt_Suc)
  qed simp
  then show ?thesis by (simp add: check_everything_def live_branches_set)
qed

end
