(* ===== verification/Dice_Fuzz.thy ===== *)
theory Dice_Fuzz
  imports Dice_Run
begin

text \<open>
  The first generator of \<^verbatim>\<open>dice/dice_core/src/fuzz.rs\<close>: an interpreter of arbitrary operations over the
  test environment of \<^verbatim>\<open>tests.rs\<close>, with the soundness checks between them. Every run it makes is
  reachable in the sense of the theory of runs, so what is proved of reachable runs holds of whatever
  it generates. The calls of \<^verbatim>\<open>check_invariants\<close> are again left out.
\<close>

section \<open>The test environment, tests.rs\<close>

type_synonym stamp = nat

definition test_env :: "(premise list, stamp, stamp option) env" where
  "test_env =
     \<lparr>premises_of = premises_of_vec,
      env_EMPTY = None,
      env_assertion = (\<lambda>_ stamp. Some stamp),
      env_combine = (\<lambda>a b. case (a, b) of
          (None, y) \<Rightarrow> y | (x, None) \<Rightarrow> x | (Some x, Some y) \<Rightarrow> Some (max x y))\<rparr>"

definition test_cert :: "key \<Rightarrow> revision \<Rightarrow> (key \<times> revision) list \<Rightarrow> epsilon_token \<Rightarrow> premise list cert" where
  "test_cert key revision deps eps =
     \<lparr>cert_key = key, cert_revision = revision,
      cert_deps = map (\<lambda>(k, r). \<lparr>premise_key = k, premise_revision = r\<rparr>) deps, cert_epsilon = eps\<rparr>"

type_synonym test_run = "(premise list, stamp, stamp option) run"

text \<open>\<^verbatim>\<open>Stamp::mint\<close>; the counter wraps.\<close>

definition stamp_mint :: "nat \<Rightarrow> stamp \<times> nat" where
  "stamp_mint nxt = (nxt, (nxt + 1) mod (u64_max + 1))"

section \<open>The operations, fuzz.rs\<close>

definition KEYS :: nat where "KEYS = 12"
definition INJECTED :: nat where "INJECTED = 4"
definition MAX_BRANCHES :: nat where "MAX_BRANCHES = 4"

definition injected :: "nat \<Rightarrow> key" where
  "injected i = i mod INJECTED"

definition computed :: "nat \<Rightarrow> key" where
  "computed i = INJECTED + i mod (KEYS - INJECTED)"

definition any_key :: "nat \<Rightarrow> key" where
  "any_key i = i mod KEYS"

definition version_of :: "('p, 'd, 'a) core_state \<Rightarrow> nat \<Rightarrow> nat \<Rightarrow> version option" where
  "version_of st branch sq =
     (let bs = live_branches st in
      if bs = [] then None
      else do {
        let b = bs ! (branch mod length bs);
        first \<leftarrow> first_of st b;
        head \<leftarrow> head_of st b;
        Some (Version b (vseq first + sq mod (vseq head - vseq first + 1))) })"

datatype gen_change = GenAssert nat nat | GenDirty nat

datatype op =
    OpCommit nat "gen_change list"
  | OpFork nat nat
  | OpWrite nat nat "(nat \<times> nat) list" nat
  | OpLookup nat nat nat
  | OpDelete nat
  | OpNewRoot

text \<open>\<^verbatim>\<open>Revision::testing_new\<close> panics on 0.\<close>

definition revision_testing_new :: "nat \<Rightarrow> revision option" where
  "revision_testing_new r = (if r = 0 then None else Some r)"

text \<open>The changes of a commit. Each is made, with a stamp of its own; the first one made for a key is kept.\<close>

fun gen_changes :: "nat \<Rightarrow> key list \<Rightarrow> gen_change list \<Rightarrow> (stamp change list \<times> nat) option" where
  "gen_changes stamps seen [] = Some ([], stamps)"
| "gen_changes stamps seen (GenAssert key revision # rest) = do {
     r \<leftarrow> revision_testing_new revision;
     let (stamp, stamps') = stamp_mint stamps;
     (cs, stamps'') \<leftarrow> gen_changes stamps' (List.insert (injected key) seen) rest;
     Some (if injected key \<in> set seen then cs else Assert (injected key) r stamp # cs, stamps'') }"
| "gen_changes stamps seen (GenDirty key # rest) = do {
     let (stamp, stamps') = stamp_mint stamps;
     (cs, stamps'') \<leftarrow> gen_changes stamps' (List.insert (computed key) seen) rest;
     Some (if computed key \<in> set seen then cs else Dirty (computed key) stamp # cs, stamps'') }"

fun gen_premises :: "(nat \<times> nat) list \<Rightarrow> (key \<times> revision) list option" where
  "gen_premises [] = Some []"
| "gen_premises ((k, r) # rest) = do {
     rev \<leftarrow> revision_testing_new r;
     ps \<leftarrow> gen_premises rest;
     Some ((any_key k, rev) # ps) }"

definition run_op :: "test_run \<times> nat \<Rightarrow> op \<Rightarrow> (test_run \<times> nat) option" where
  "run_op = (\<lambda>(run, stamps) op. case op of
     OpCommit branch changes \<Rightarrow> do {
       v \<leftarrow> version_of (run_state run) branch 0;
       (cs, stamps') \<leftarrow> gen_changes stamps [] changes;
       (_, run') \<leftarrow> run_commit test_env run (vbranch v) cs;
       Some (run', stamps') }
   | OpFork branch sq \<Rightarrow>
       if length (live_branches (run_state run)) < MAX_BRANCHES
       then do {
         from \<leftarrow> version_of (run_state run) branch sq;
         (_, run') \<leftarrow> run_fork test_env run from;
         Some (run', stamps) }
       else Some (run, stamps)
   | OpWrite key revision premises eps \<Rightarrow> do {
       r \<leftarrow> revision_testing_new revision;
       ps \<leftarrow> gen_premises premises;
       run' \<leftarrow> run_write test_env run (test_cert (computed key) r ps (eps_for run (computed key) eps));
       Some (run', stamps) }
   | OpLookup key branch sq \<Rightarrow> do {
       v \<leftarrow> version_of (run_state run) branch sq;
       _ \<leftarrow> check_lookup test_env run (any_key key) v;
       Some (run, stamps) }
   | OpDelete branch \<Rightarrow> do {
       run' \<leftarrow> run_delete run branch;
       Some (run', stamps) }
   | OpNewRoot \<Rightarrow>
       if length (live_branches (run_state run)) < MAX_BRANCHES
       then do {
         (_, run') \<leftarrow> run_new_root run;
         Some (run', stamps) }
       else Some (run, stamps))"

fun run_ops_from :: "test_run \<times> nat \<Rightarrow> nat \<Rightarrow> op list \<Rightarrow> (test_run \<times> nat) option" where
  "run_ops_from rs i [] = do {
     _ \<leftarrow> check_everything test_env (fst rs) (map any_key [0..<KEYS]);
     Some rs }"
| "run_ops_from rs i (op # ops) = do {
     rs' \<leftarrow> run_op rs op;
     _ \<leftarrow> (if i mod 8 = 7 then check_everything test_env (fst rs') (map any_key [0..<KEYS]) else Some ());
     run_ops_from rs' (i + 1) ops }"

definition run_ops :: "nat \<Rightarrow> nat \<Rightarrow> op list \<Rightarrow> (test_run \<times> nat) option" where
  "run_ops tokens stamps ops = do {
     (run, _) \<leftarrow> run_new tokens;
     run_ops_from (run, stamps) 0 ops }"

lemmas [op_defs] = test_env_def test_cert_def stamp_mint_def KEYS_def INJECTED_def MAX_BRANCHES_def injected_def
  computed_def any_key_def version_of_def revision_testing_new_def run_op_def run_ops_def


section \<open>The interpreter makes reachable runs\<close>

lemma run_op_reachable:
  assumes "run_op (run, stamps) op = Some (run', stamps')" "reachable test_env run"
  shows "reachable test_env run'"
  using assms
  by (cases op) (auto simp: run_op_def bind_eq_Some_conv split: if_splits
      intro: reachable.commit reachable.fork reachable.written reachable.delete reachable.root)

lemma run_ops_from_reachable:
  "run_ops_from rs i ops = Some rs' \<Longrightarrow> reachable test_env (fst rs) \<Longrightarrow> reachable test_env (fst rs')"
proof (induction ops arbitrary: rs i)
  case (Cons op ops)
  then obtain rs1 where r: "run_op rs op = Some rs1" "run_ops_from rs1 (i + 1) ops = Some rs'"
    by (auto simp: bind_eq_Some_conv)
  have "reachable test_env (fst rs1)"
    using run_op_reachable [of "fst rs" "snd rs" op "fst rs1" "snd rs1"] r(1) Cons.prems(2) by simp
  with Cons.IH [OF r(2)] show ?case .
qed (auto simp: bind_eq_Some_conv)

lemma run_ops_reachable: "run_ops tokens stamps ops = Some (run, stamps') \<Longrightarrow> reachable test_env run"
  using run_ops_from_reachable [of _ 0 ops "(run, stamps')"] reachable.start
  by (fastforce simp: run_ops_def bind_eq_Some_conv)

lemma check_everything_reachable: "reachable E run \<Longrightarrow> check_everything E run keys = Some ()"
  by (rule check_everything_passes [OF reachable_inv])

end
