(* ===== verification/Dice_Checks.thy ===== *)
theory Dice_Checks
  imports Dice_Run
begin

text \<open>
  The consistency checks of \<^verbatim>\<open>dice/dice_core/src/invariants.rs\<close>. A check is a predicate: a failed
  assertion, or a panic inside the check, is \<^const>\<open>False\<close>. The checks of the store (the tree, the
  histories, the windows, the indices, the key count) hold in every state that satisfies the
  invariant (\<open>check_store_passes\<close>), and so do, at every head, the premises of what is attached and the
  edges it is owed.
\<close>

section \<open>invariants.rs\<close>

definition check_branch :: "('p, 'd, 'a) core_state \<Rightarrow> branch_id \<Rightarrow> bool" where
  "check_branch st b =
     (case branch_of st b of
        None \<Rightarrow> False
      | Some branch \<Rightarrow>
          br_first branch \<le> br_head branch
          \<and> (case br_parent branch of
               None \<Rightarrow> True
             | Some parent \<Rightarrow>
                 (case branch_of st (vbranch parent) of
                    None \<Rightarrow> False
                  | Some pb \<Rightarrow> br_first pb \<le> vseq parent \<and> vseq parent \<le> br_head pb
                      \<and> (b, vseq parent) \<in> set (br_children pb)))
          \<and> list_all (\<lambda>(child, s). is_live st child
               \<and> map_option br_parent (branch_of st child) = Some (Some (Version b s))) (br_children branch))"

definition check_branches :: "('p, 'd, 'a) core_state \<Rightarrow> bool" where
  "check_branches st = list_all (check_branch st) (live_branches st)"

fun in_order :: "('r, 'd) entry list \<Rightarrow> bool" where
  "in_order (x # y # rest) \<longleftrightarrow> entry_seq x < entry_seq y \<and> in_order (y # rest)"
| "in_order _ \<longleftrightarrow> True"

definition check_history :: "('p, 'd, 'a) core_state \<Rightarrow> branch_id \<Rightarrow> ('r, 'e) history \<Rightarrow> bool" where
  "check_history st b entries =
     (case branch_of st b of
        None \<Rightarrow> False
      | Some branch \<Rightarrow>
          in_order entries
          \<and> (case history_first entries of None \<Rightarrow> True | Some oldest \<Rightarrow> br_first branch \<le> entry_seq oldest)
          \<and> (case history_last entries of None \<Rightarrow> True | Some newest \<Rightarrow> entry_seq newest \<le> br_head branch))"

definition check_slot :: "('p, 'd, 'a) core_state \<Rightarrow> key \<Rightarrow> ('p, 'd, 'a) slot \<Rightarrow> bool" where
  "check_slot st key slot =
     (case branch_of st (slot_branch slot) of
        None \<Rightarrow> False
      | Some branch \<Rightarrow>
          check_history st (slot_branch slot) (slot_untracked slot)
          \<and> (case slot_claim slot of
               None \<Rightarrow> True
             | Some claim \<Rightarrow>
                 cert_key (claim_cert claim) = key
                 \<and> br_first branch \<le> win_from (claim_window claim)
                 \<and> (is_nonempty_closed (claim_window claim) \<longrightarrow>
                      (case win_until (claim_window claim) of None \<Rightarrow> False | Some u \<Rightarrow> u \<le> br_head branch))))"

text \<open>The keys of the nonempty closed claims of a branch, which the loop of \<^verbatim>\<open>check_slots\<close> collects.\<close>

definition closed_keys :: "('p, 'd, 'a) core_state \<Rightarrow> branch_id \<Rightarrow> key list" where
  "closed_keys st b = map fst (filter (\<lambda>(_, ss). \<exists>slot\<in>set ss. slot_branch slot = b
     \<and> (case slot_claim slot of None \<Rightarrow> False | Some c \<Rightarrow> is_nonempty_closed (claim_window c))) (slots st))"

definition check_slots :: "('p, 'd, 'a) core_state \<Rightarrow> bool" where
  "check_slots st \<longleftrightarrow>
     list_all (\<lambda>(key, ss).
         (map_of (assertions st) key \<noteq> None \<longrightarrow> list_all (\<lambda>slot. slot_claim slot = None) ss)
         \<and> distinct (map slot_branch ss)
         \<and> list_all (\<lambda>slot. is_live st (slot_branch slot)) ss
         \<and> list_all (check_slot st key) ss) (slots st)
     \<and> list_all (\<lambda>b. case branch_of st b of
           None \<Rightarrow> False
         | Some branch \<Rightarrow> set (br_closed_index branch) = set (closed_keys st b)) (live_branches st)"

definition check_assertions :: "('p, 'd, 'a) core_state \<Rightarrow> bool" where
  "check_assertions st = list_all (\<lambda>(key, histories).
     distinct (map fst histories)
     \<and> list_all (\<lambda>(b, history). is_live st b \<and> check_history st b history) histories) (assertions st)"

definition derivation_attribute ::
  "('p, 'd, 'a) env \<Rightarrow> ('p, 'd, 'a) core_state \<Rightarrow> 'p cert \<Rightarrow> version \<Rightarrow> 'a option option" where
  "derivation_attribute E st cert v = do {
     (eps, attribute) \<leftarrow> untracked E st (cert_key cert) v;
     if eps \<noteq> cert_epsilon cert then Some None
     else foldl (\<lambda>acc premise. do {
         a \<leftarrow> acc;
         r \<leftarrow> resolve st (premise_key premise) v;
         Some (do {
           attribute \<leftarrow> a;
           of_premise \<leftarrow> (case r of
               RClaim _ claim \<Rightarrow> if claim_revision claim = premise_revision premise then Some (claim_attribute claim) else None
             | RAsserted owner entry \<Rightarrow>
                 if entry_revision entry = premise_revision premise then Some (entry_attribute E owner entry) else None
             | RUnknown _ \<Rightarrow> None);
           Some (env_combine E attribute of_premise) }) })
       (Some (Some attribute)) (cert_premises E cert) }"

text \<open>The parts of \<^verbatim>\<open>check_attachment\<close> for one attached claim: its \<epsilon>, its premises, where its window
  starts, its attribute.\<close>

definition check_attached_epsilon :: "('p, 'd, 'a) core_state \<Rightarrow> branch_id \<Rightarrow> key \<Rightarrow> ('p, 'a) attached \<Rightarrow> bool" where
  "check_attached_epsilon st b key att =
     (case head_of st b of
        None \<Rightarrow> False
      | Some head \<Rightarrow> epsilon st key head = Some (cert_epsilon (claim_cert (attached_claim att))))"

definition check_attached_premises ::
  "('p, 'd, 'a) env \<Rightarrow> ('p, 'd, 'a) core_state \<Rightarrow> branch_id \<Rightarrow> ('p, 'a) attached \<Rightarrow> bool" where
  "check_attached_premises E st b att =
     (case head_of st b of
        None \<Rightarrow> False
      | Some head \<Rightarrow>
          list_all (\<lambda>premise. map_option resolved_revision (resolve st (premise_key premise) head)
                                = Some (Some (premise_revision premise)))
            (cert_premises E (claim_cert (attached_claim att))))"

definition check_attached_start ::
  "('p, 'd, 'a) env \<Rightarrow> ('p, 'd, 'a) core_state \<Rightarrow> branch_id \<Rightarrow> key \<Rightarrow> ('p, 'a) attached \<Rightarrow> bool" where
  "check_attached_start E st b key att =
     (case (att, head_of st b) of
        (_, None) \<Rightarrow> False
      | (Inherited _, Some _) \<Rightarrow> True
      | (Own claim, Some head) \<Rightarrow>
          (case resolve_untracked st key head of
             None \<Rightarrow> False
           | Some None \<Rightarrow> True
           | Some (Some (owner, entry)) \<Rightarrow> owner = b \<longrightarrow> entry_seq entry \<le> win_from (claim_window claim))
          \<and> list_all (\<lambda>premise. case resolve st (premise_key premise) head of
               None \<Rightarrow> False
             | Some (RClaim owner c) \<Rightarrow> owner = b \<longrightarrow> win_from (claim_window c) \<le> win_from (claim_window claim)
             | Some (RAsserted owner entry) \<Rightarrow> owner = b \<longrightarrow> entry_seq entry \<le> win_from (claim_window claim)
             | Some (RUnknown _) \<Rightarrow> True) (cert_premises E (claim_cert claim)))"

definition check_attached_attribute ::
  "('p, 'd, 'a) env \<Rightarrow> ('p, 'd, 'a) core_state \<Rightarrow> branch_id \<Rightarrow> ('p, 'a) attached \<Rightarrow> bool" where
  "check_attached_attribute E st b att =
     (case head_of st b of
        None \<Rightarrow> False
      | Some head \<Rightarrow> derivation_attribute E st (claim_cert (attached_claim att)) head
                       = Some (Some (claim_attribute (attached_claim att))))"

definition attached_keys :: "('p, 'd, 'a) core_state \<Rightarrow> branch_id \<Rightarrow> (key \<times> ('p, 'a) attached) list" where
  "attached_keys st b = List.map_filter (\<lambda>key. map_option (Pair key) (attached st key b \<bind> id)) (map fst (slots st))"

definition owed_edges :: "('p, 'd, 'a) env \<Rightarrow> ('p, 'd, 'a) core_state \<Rightarrow> branch_id \<Rightarrow> (key \<times> key) list" where
  "owed_edges E st b = concat (map (\<lambda>(key, att).
     map (\<lambda>p. (premise_key p, key)) (cert_premises E (claim_cert (attached_claim att)))) (attached_keys st b))"

definition actual_edges :: "('p, 'd, 'a) core_state \<Rightarrow> branch_id \<Rightarrow> (key \<times> key) list" where
  "actual_edges st b =
     (case branch_of st b of
        None \<Rightarrow> []
      | Some branch \<Rightarrow> concat (map (\<lambda>(dep, dependents). map (Pair dep) dependents) (br_rdeps branch)))"

definition check_attachment :: "('p, 'd, 'a) env \<Rightarrow> ('p, 'd, 'a) core_state \<Rightarrow> branch_id \<Rightarrow> bool" where
  "check_attachment E st b \<longleftrightarrow>
     list_all (\<lambda>key. attached st key b \<noteq> None) (map fst (slots st))
     \<and> list_all (\<lambda>(key, att). check_attached_epsilon st b key att \<and> check_attached_start E st b key att
          \<and> check_attached_premises E st b att \<and> check_attached_attribute E st b att) (attached_keys st b)
     \<and> set (actual_edges st b) = set (owed_edges E st b)"

definition check_store :: "('p, 'd, 'a) core_state \<Rightarrow> bool" where
  "check_store st \<longleftrightarrow> check_branches st \<and> check_slots st \<and> check_assertions st \<and> key_count st = length (core_keys st)"

definition check_invariants :: "('p, 'd, 'a) env \<Rightarrow> ('p, 'd, 'a) core_state \<Rightarrow> bool" where
  "check_invariants E st \<longleftrightarrow> check_store st \<and> list_all (check_attachment E st) (live_branches st)"

lemmas [op_defs] = check_branch_def check_branches_def check_history_def check_slot_def closed_keys_def
  check_slots_def check_assertions_def derivation_attribute_def check_attached_epsilon_def
  check_attached_premises_def check_attached_start_def check_attached_attribute_def attached_keys_def
  owed_edges_def actual_edges_def check_attachment_def check_store_def check_invariants_def

section \<open>The checks of the store pass\<close>

lemma check_branches_passes:
  assumes wf: "wf_tree st"
  shows "check_branches st"
proof -
  have "check_branch st b" if live: "is_live st b" for b
  proof -
    obtain br where br: "branch_of st b = Some br" using is_live_Some [OF live] by blast
    have v: "fseq st b = br_first br" "hseq st b = br_head br" "par st b = br_parent br" "kids st b = br_children br"
      using br by (simp_all add: view_defs)
    have up: "case br_parent br of None \<Rightarrow> True | Some parent \<Rightarrow> (case branch_of st (vbranch parent) of None \<Rightarrow> False
        | Some pb \<Rightarrow> br_first pb \<le> vseq parent \<and> vseq parent \<le> br_head pb \<and> (b, vseq parent) \<in> set (br_children pb))"
    proof (cases "br_parent br")
      case (Some p)
      then have p: "par st b = Some p" using v by simp
      from wf_tree_parent [OF wf live p] obtain pb where "branch_of st (vbranch p) = Some pb" using is_live_Some by blast
      with wf_tree_parent [OF wf live p] Some show ?thesis by (simp add: view_defs)
    qed simp
    have down: "list_all (\<lambda>(child, s). is_live st child \<and> map_option br_parent (branch_of st child) = Some (Some (Version b s))) (br_children br)"
      unfolding list_all_iff
    proof (intro ballI, clarify)
      fix c s assume "(c, s) \<in> set (br_children br)"
      then have "(c, s) \<in> set (kids st b)" using v by simp
      from wf_tree_kids [OF wf live this] have l: "is_live st c" "par st c = Some (Version b s)" by auto
      then show "is_live st c \<and> map_option br_parent (branch_of st c) = Some (Some (Version b s))"
        using is_live_Some [OF l(1)] by (auto simp: par_def)
    qed
    show ?thesis using br up down wf_tree_seqs [OF wf live] v by (simp add: check_branch_def)
  qed
  then show ?thesis by (simp add: check_branches_def list_all_iff live_branches_set)
qed

lemma sorted_in_order: "sorted_history h \<Longrightarrow> in_order h"
  by (induction h rule: in_order.induct) (auto simp: sorted_history_def)

lemma check_history_passes:
  assumes "is_live st b" "hist_ok (fseq st b) (hseq st b) h"
  shows "check_history st b h"
proof -
  obtain br where br: "branch_of st b = Some br" using is_live_Some [OF assms(1)] by blast
  have "in_order h" using assms(2) sorted_in_order by (auto simp: hist_ok_def)
  with assms(2) br show ?thesis
    by (auto simp: check_history_def hist_ok_def fseq_def hseq_def history_first_def history_last_def split: list.split)
qed

lemma slot_views_of:
  assumes "wf_store st" "map_of (slots st) k = Some ss" "slot \<in> set ss"
  shows "slot_of st k (slot_branch slot) = Some slot" "is_live st (slot_branch slot)"
    "claim_at st k (slot_branch slot) = slot_claim slot" "dirts st k (slot_branch slot) = slot_untracked slot"
proof -
  have ss: "slots_of st k = ss" using assms(2) by (simp add: slots_of_def)
  have "distinct (map slot_branch ss)" using assms(1) ss by (auto simp: wf_store_defs)
  then show s: "slot_of st k (slot_branch slot) = Some slot"
    using find_distinct_map [of slot_branch ss slot] assms(3) by (simp add: slot_of_slots_of ss)
  show "is_live st (slot_branch slot)" using assms(1,3) ss by (auto simp: wf_store_defs)
  show "claim_at st k (slot_branch slot) = slot_claim slot" "dirts st k (slot_branch slot) = slot_untracked slot"
    using s by (simp_all add: claim_at_def dirts_def)
qed

lemma check_slot_passes:
  assumes wf: "wf_core st" and ss: "map_of (slots st) k = Some ss" "slot \<in> set ss"
  shows "check_slot st k slot"
proof -
  note v = slot_views_of [OF wf_coreD(4) [OF wf] ss]
  let ?b = "slot_branch slot"
  obtain br where br: "branch_of st ?b = Some br" using is_live_Some [OF v(2)] by blast
  have "hist_ok (fseq st ?b) (hseq st ?b) (slot_untracked slot)"
    using wf_coreD(3) [OF wf] v(2,4) unfolding wf_hists_def by metis
  then have h: "check_history st ?b (slot_untracked slot)" by (rule check_history_passes [OF v(2)])
  have "cert_key (claim_cert c) = k \<and> window_ok st ?b (claim_window c)" if "slot_claim slot = Some c" for c
    using wf_coreD(2) [OF wf] v(3) that by (auto simp: wf_claims_def)
  then show ?thesis using h br
    by (auto simp: check_slot_def window_ok_def fseq_def hseq_def is_nonempty_closed_def split: option.split option.splits)
qed

lemma slots_entry:
  assumes "wf_store st" "(k, ss) \<in> set (slots st)"
  shows "map_of (slots st) k = Some ss"
  using assms by (auto simp: wf_store_defs map_of_eq_Some_iff)

lemma closed_keys_set:
  assumes wf: "wf_core st" and live: "is_live st b"
  shows "set (closed_keys st b) = closed_set st b"
proof -
  note store = wf_coreD(4) [OF wf]
  have "k \<in> set (closed_keys st b) \<longleftrightarrow> (\<exists>c. claim_at st k b = Some c \<and> is_nonempty_closed (claim_window c))" for k
  proof
    assume "k \<in> set (closed_keys st b)"
    then obtain ss slot c where s: "(k, ss) \<in> set (slots st)" "slot \<in> set ss" "slot_branch slot = b"
      "slot_claim slot = Some c" "is_nonempty_closed (claim_window c)"
      by (auto simp: closed_keys_def split: option.splits)
    from slot_views_of(3) [OF store slots_entry [OF store s(1)] s(2)] s show "\<exists>c. claim_at st k b = Some c \<and> is_nonempty_closed (claim_window c)"
      by auto
  next
    assume "\<exists>c. claim_at st k b = Some c \<and> is_nonempty_closed (claim_window c)"
    then obtain c slot where c: "slot_of st k b = Some slot" "slot_claim slot = Some c" "is_nonempty_closed (claim_window c)"
      by (auto simp: claim_at_def bind_eq_Some_conv)
    then obtain ss where ss: "map_of (slots st) k = Some ss" "find (\<lambda>slot. slot_branch slot = b) ss = Some slot"
      by (auto simp: slot_of_def bind_eq_Some_conv)
    from find_Some_in [OF ss(2)] map_of_SomeD [OF ss(1)] c show "k \<in> set (closed_keys st b)"
      by (force simp: closed_keys_def)
  qed
  with wf_coreD(5) [OF wf] live show ?thesis by (auto simp: closed_exact_def)
qed

lemma check_store_passes:
  assumes wf: "wf_core st"
  shows "check_store st"
proof -
  note store = wf_coreD(4) [OF wf]
  have slots: "check_slots st"
    unfolding check_slots_def list_all_iff
  proof (intro conjI ballI, clarify, intro conjI impI ballI)
    fix k ss assume "(k, ss) \<in> set (slots st)"
    then have ss: "map_of (slots st) k = Some ss" by (rule slots_entry [OF store])
    show "slot_claim slot = None" if "map_of (assertions st) k \<noteq> None" "slot \<in> set ss" for slot
      using wf_store_disjoint [OF store, of k] that ss by (simp add: is_asserted_def)
    show "distinct (map slot_branch ss)" using store ss by (auto simp: wf_store_defs slots_of_def split: option.splits)
    fix slot assume s: "slot \<in> set ss"
    show "is_live st (slot_branch slot)" by (rule slot_views_of(2) [OF store ss s])
    show "check_slot st k slot" by (rule check_slot_passes [OF wf ss s])
  next
    fix b assume "b \<in> set (live_branches st)"
    then have live: "is_live st b" by (simp add: live_branches_set)
    obtain br where br: "branch_of st b = Some br" using is_live_Some [OF live] by blast
    show "case branch_of st b of None \<Rightarrow> False | Some branch \<Rightarrow> set (br_closed_index branch) = set (closed_keys st b)"
      using br closed_keys_set [OF wf live] by (simp add: closed_set_def)
  qed
  have asserts: "check_assertions st"
    unfolding check_assertions_def list_all_iff
  proof (intro ballI, clarify)
    fix k hs assume "(k, hs) \<in> set (assertions st)"
    then have hs: "map_of (assertions st) k = Some hs" using store by (auto simp: wf_store_defs map_of_eq_Some_iff)
    then have d: "distinct (map fst hs)" using store by (auto simp: wf_store_defs)
    have "is_live st b \<and> check_history st b h" if bh: "(b, h) \<in> set hs" for b h
    proof -
    have live: "is_live st b" using store hs bh by (force simp: wf_store_defs)
    have "history_of hs b = Some h" using find_distinct_map [OF d bh, of b] by (simp add: history_of_find)
    then have "hist st k b = h" using hs by (simp add: hist_def)
    then have "check_history st b h" using check_history_passes [OF live] wf_coreD(3) [OF wf] live by (auto simp: wf_hists_def)
    with live show ?thesis by simp
    qed
    with d show "distinct (map fst hs) \<and> (\<forall>(b, history)\<in>set hs. is_live st b \<and> check_history st b history)" by auto
  qed
  have "length (core_keys st) = length (slots st) + length (assertions st)"
  proof -
    have "filter (\<lambda>key. map_of (slots st) key = None) (map fst (assertions st)) = map fst (assertions st)"
    proof (rule filter_True, intro ballI)
      fix k assume "k \<in> set (map fst (assertions st))"
      then have "is_asserted st k" using map_of_eq_None [of "assertions st" k] by (auto simp: is_asserted_def)
      then show "map_of (slots st) k = None" by (rule wf_store_disjoint [OF store])
    qed
    then show ?thesis by (simp add: core_keys_def)
  qed
  then have "key_count st = length (core_keys st)" using store by (simp add: wf_store_defs)
  with slots asserts check_branches_passes [OF wf_coreD(1) [OF wf]] show ?thesis by (simp add: check_store_def)
qed

section \<open>What is attached\<close>

lemma attached_keys_vcert:
  assumes wf: "wf_core st" and live: "is_live st b" and a: "(k, att) \<in> set (attached_keys st b)"
  shows "vcert st k b (hseq st b) = Some (claim_cert (attached_claim att))"
proof -
  have "attached st k b = Some (Some att)" using a by (auto simp: attached_keys_def map_filter_def bind_eq_Some_conv)
  then show ?thesis
    using attached_chain [OF wf_coreD(1) [OF wf] live, of k]
    by (auto simp: vcert_def attached_claim_def split: if_splits option.splits)
qed

lemma check_attached_passes:
  assumes inv: "core_inv E st" and live: "is_live st b" and a: "(k, att) \<in> set (attached_keys st b)"
  shows "check_attached_epsilon st b k att" "check_attached_premises E st b att"
    "p \<in> set (cert_premises E (claim_cert (attached_claim att))) \<Longrightarrow> (premise_key p, k) \<in> set (actual_edges st b)"
proof -
  have wf: "wf_core st" and sup: "supported_at E st b" using inv live by (auto simp: core_inv_def)
  note tree = wf_coreD(1) [OF wf]
  let ?c = "claim_cert (attached_claim att)"
  have vc: "vcert st k b (hseq st b) = Some ?c" by (rule attached_keys_vcert [OF wf live a])
  have h: "holds E st ?c b (hseq st b)"
    by (rule supported_holds [OF sup vc]) (use vc wf_tree_seqs [OF tree live] in auto)
  have k: "cert_key ?c = k" using vcert_key [OF wf_coreD(2) [OF wf] vc] by simp
  obtain br where br: "branch_of st b = Some br" using is_live_Some [OF live] by blast
  have hd: "head_of st b = Some (Version b (hseq st b))" using br by (simp add: head_of_def hseq_def)
  show "check_attached_epsilon st b k att"
    using h k by (simp add: check_attached_epsilon_def hd epsilon_eps_at [OF tree live] holds_def)
  have "map_option resolved_revision (resolve st (premise_key q) (Version b (hseq st b))) = Some (Some (premise_revision q))"
    if "q \<in> set (cert_premises E ?c)" for q
    using resolve_revision [OF tree live, of "premise_key q" "hseq st b"] holds_premise(1) [OF h that] by auto
  then show "check_attached_premises E st b att" by (simp add: check_attached_premises_def hd list_all_iff)
  assume "p \<in> set (cert_premises E ?c)"
  from supported_edges [OF sup vc this] br obtain ks where "map_of (br_rdeps br) (premise_key p) = Some ks" "k \<in> set ks"
    by (cases "map_of (br_rdeps br) (premise_key p)") (auto simp: edges_def rdeps_of_def)
  with map_of_SomeD [OF this(1)] br show "(premise_key p, k) \<in> set (actual_edges st b)"
    by (force simp: actual_edges_def)
qed

end
