(* ===== verification/Dice_Interface.thy ===== *)
theory Dice_Interface
  imports Dice_Fuzz Dice_Checks
begin

text \<open>
  The operations as a caller sees them: what \<^verbatim>\<open>lookup\<close> answers before and after each one. The
  theories of the operations work with certificates; here their results are read through
  \<^verbatim>\<open>valid_at\<close> of \<^verbatim>\<open>dice/dice_core/src/tests.rs\<close>, the revision a lookup finds valid.
\<close>

section \<open>valid_at\<close>

definition valid_at :: "('p, 'd, 'a) env \<Rightarrow> ('p, 'd, 'a) core_state \<Rightarrow> key \<Rightarrow> version \<Rightarrow> revision option" where
  "valid_at E st key v = lookup E st key v \<bind> valid_revision"

lemma valid_at_rev_at:
  assumes "wf_tree st" "is_live st b"
  shows "valid_at E st k (Version b s) = rev_at st k b s"
  using lookup_views [OF assms, of E k s] by (auto simp: valid_at_def)

section \<open>write\<close>

lemma write_steps_key:
  assumes "(write_step E A cert)\<^sup>*\<^sup>* st st'" "is_live st d" "fseq st d \<le> s"
  shows "vcert st' (cert_key cert) d s = vcert st (cert_key cert) d s
    \<or> vcert st' (cert_key cert) d s = None \<or> vcert st' (cert_key cert) d s = Some cert"
    "k \<noteq> cert_key cert \<Longrightarrow> vcert st' k d s = vcert st k d s" "same_world st st'"
proof -
  have "same_world st st' \<and> (vcert st' (cert_key cert) d s = vcert st (cert_key cert) d s
      \<or> vcert st' (cert_key cert) d s = None \<or> vcert st' (cert_key cert) d s = Some cert)
    \<and> (\<forall>k. k \<noteq> cert_key cert \<longrightarrow> vcert st' k d s = vcert st k d s)"
    using assms(1)
  proof (induction rule: rtranclp_induct)
    case (step y z)
    have sw: "same_world st y" using step.IH by simp
    note v = same_world_views [OF sw]
    have live: "is_live y d" "fseq y d \<le> s" using assms(2,3) v by simp_all
    have k: "vcert z k d s = vcert y k d s" if "k \<noteq> cert_key cert" for k
      using step.hyps(2) live that by (simp add: write_step_def)
    have "same_world st z" using step.hyps(2) sw same_world_trans by (auto simp: write_step_def)
    moreover have "vcert z (cert_key cert) d s = vcert y (cert_key cert) d s
        \<or> vcert z (cert_key cert) d s = None \<or> vcert z (cert_key cert) d s = Some cert"
      using write_step_key [OF step.hyps(2) live(1)] live(2) by auto
    ultimately show ?case using step.IH k by auto
  qed simp
  then show "vcert st' (cert_key cert) d s = vcert st (cert_key cert) d s
    \<or> vcert st' (cert_key cert) d s = None \<or> vcert st' (cert_key cert) d s = Some cert"
    "k \<noteq> cert_key cert \<Longrightarrow> vcert st' k d s = vcert st k d s" "same_world st st'" by auto
qed

text \<open>A certificate whose premises, the untracked input included, are valid at a version.\<close>

definition re_established :: "('p, 'd, 'a) env \<Rightarrow> ('p, 'd, 'a) core_state \<Rightarrow> 'p cert \<Rightarrow> version \<Rightarrow> bool" where
  "re_established E st cert v \<longleftrightarrow> epsilon st (cert_key cert) v = Some (cert_epsilon cert)
     \<and> list_all (\<lambda>p. valid_at E st (premise_key p) v = Some (premise_revision p)) (cert_premises E cert)"

lemma re_established_holds:
  assumes "wf_tree st" "is_live st b"
  shows "re_established E st cert (Version b s) \<longleftrightarrow> holds E st cert b s"
  using valid_at_rev_at [OF assms] epsilon_eps_at [OF assms]
  by (auto simp: re_established_def holds_def list_all_iff)

definition newest :: "('p, 'd, 'a) core_state \<Rightarrow> branch_id \<Rightarrow> version" where
  "newest st b = Version b (hseq st b)"

lemma newest_head: "is_live st b \<Longrightarrow> head_of st b = Some (newest st b)"
  using is_live_Some [of st b] by (auto simp: head_of_def newest_def hseq_def)

lemma newest_version_in: "wf_tree st \<Longrightarrow> is_live st b \<Longrightarrow> version_in st (newest st b)"
  by (simp add: version_in_def newest_def wf_tree_seqs)

text \<open>What a caller sees of a write.\<close>

lemma write_answers:
  assumes inv: "core_inv E st" and as: "\<not> is_asserted st (cert_key cert)"
  shows "\<exists>st' out. write_cert E st cert = Some (st', out) \<and> core_inv E st' \<and> is_live st' = is_live st
    \<and> (\<forall>v k. version_in st v \<longrightarrow> k \<noteq> cert_key cert \<longrightarrow> valid_at E st' k v = valid_at E st k v)
    \<and> (\<forall>b. is_live st b \<longrightarrow> valid_at E st (cert_key cert) (newest st b) \<noteq> None \<longrightarrow>
         valid_at E st' (cert_key cert) (newest st b) = valid_at E st (cert_key cert) (newest st b))
    \<and> (\<forall>b. is_live st b \<longrightarrow> valid_at E st (cert_key cert) (newest st b) = None \<longrightarrow> re_established E st cert (newest st b) \<longrightarrow>
         valid_at E st' (cert_key cert) (newest st b) = Some (cert_revision cert))"
proof -
  let ?A = "insert cert (all_certs st)" and ?K = "cert_key cert"
  from write_correct [OF inv as order_refl] obtain st' out where
    w: "write_cert E st cert = Some (st', out)" and steps: "(write_step E ?A cert)\<^sup>*\<^sup>* st st'"
    and att: "\<forall>b. is_live st b \<longrightarrow> holds E st cert b (hseq st b) \<longrightarrow> vcert st' ?K b (hseq st b) \<noteq> None"
    and keep: "\<forall>b. is_live st b \<longrightarrow> vcert st ?K b (hseq st b) \<noteq> None \<longrightarrow> vcert st' ?K b (hseq st b) = vcert st ?K b (hseq st b)"
    by (elim exE conjE) (rule that)
  from write_steps_inv [OF steps inv] have inv': "core_inv E st'" and sw: "same_world st st'" by auto
  have tree: "wf_tree st" "wf_tree st'" using inv inv' by (simp_all add: core_inv_def wf_core_def)
  note v = same_world_views [OF sw]
  have val: "valid_at E st k (Version b s) = rev_at st k b s" "valid_at E st' k (Version b s) = rev_at st' k b s"
    if "is_live st b" for k b s
    using valid_at_rev_at [OF tree(1) that] valid_at_rev_at [OF tree(2)] that v by simp_all
  have other: "valid_at E st' k u = valid_at E st k u" if "version_in st u" "k \<noteq> ?K" for u k
    using write_steps_key(2) [OF steps, of "vbranch u" "vseq u" k] that same_world_asserted_views [OF sw] v val
    by (cases u) (simp add: rev_at_def version_in_def)
  have K: "rev_at st ?K b s = map_option cert_revision (vcert st ?K b s)"
    "rev_at st' ?K b s = map_option cert_revision (vcert st' ?K b s)" for b s
    using as v by (simp_all add: rev_at_def)
  have kept: "valid_at E st' ?K (newest st b) = valid_at E st ?K (newest st b)"
    if "is_live st b" "valid_at E st ?K (newest st b) \<noteq> None" for b
    using keep that by (auto simp: newest_def val [OF that(1)] K)
  have new: "valid_at E st' ?K (newest st b) = Some (cert_revision cert)"
    if b: "is_live st b" "valid_at E st ?K (newest st b) = None" "re_established E st cert (newest st b)" for b
  proof -
    have "vcert st ?K b (hseq st b) = None" using b(2) by (simp add: newest_def val [OF b(1)] K)
    moreover have "holds E st cert b (hseq st b)"
      using b(3) re_established_holds [OF tree(1) b(1)] by (simp add: newest_def)
    ultimately have "vcert st' ?K b (hseq st b) = Some cert"
      using write_steps_key(1) [OF steps b(1) wf_tree_seqs [OF tree(1) b(1)]] att b(1) by auto
    then show ?thesis by (simp add: newest_def val [OF b(1)] K)
  qed
  from w inv' v(1) other kept new show ?thesis by blast
qed

section \<open>commit\<close>

text \<open>What a caller sees of a commit: the new version, that older versions keep their answers, and at
  the new head the assertions, and no derived answer that the old head did not have.\<close>

lemma commit_answers:
  assumes cm: "commit E st nxt b cs = Some (st', nxt', v)" and inv: "core_inv E st"
  shows "core_inv E st' \<and> is_live st b \<and> (v = newest st b \<and> st' = st \<and> (\<nexists>k d. Dirty k d \<in> set cs)
    \<or> v = Version b (Suc (hseq st b)) \<and> v = newest st' b
      \<and> (\<forall>u k. version_in st u \<longrightarrow> version_in st' u \<and> valid_at E st' k u = valid_at E st k u)
      \<and> (\<forall>k r d. Assert k r d \<in> set cs \<longrightarrow> valid_at E st' k v = Some r)
      \<and> (\<forall>k. (\<nexists>r d. Assert k r d \<in> set cs) \<longrightarrow>
           valid_at E st' k v = valid_at E st k (newest st b) \<or> \<not> is_asserted st k \<and> valid_at E st' k v = None)
      \<and> (\<forall>k d. Dirty k d \<in> set cs \<longrightarrow> valid_at E st' k v = None))"
proof -
  from commit_correct [OF cm inv] have live: "is_live st b" and cases: "v = Version b (hseq st b) \<and> st' = st \<and> (\<nexists>k d. Dirty k d \<in> set cs)
    \<or> v = Version b (Suc (hseq st b)) \<and> Suc (hseq st b) \<le> u32_max \<and> (\<exists>V. committed E st b cs V st')" by auto
  from cases show ?thesis
  proof (elim disjE conjE exE)
    assume "v = Version b (hseq st b)" "st' = st" "\<nexists>k d. Dirty k d \<in> set cs"
    then show ?thesis using inv live by (simp add: newest_def)
  next
    fix V assume v: "v = Version b (Suc (hseq st b))" and top: "Suc (hseq st b) \<le> u32_max" and co: "committed E st b cs V st'"
    have inv': "core_inv E st'" by (rule committed_inv [OF co inv live top])
    have wf: "wf_core st" "wf_core st'" using inv inv' by (simp_all add: core_inv_def)
    note t = committed_tree [OF co] and tree = wf_coreD(1) [OF wf(1)] wf_coreD(1) [OF wf(2)]
    have lb: "is_live st' b" using live t by simp
    note he = committed_head_entries [OF co wf(1) live]
    have new: "v = newest st' b" by (simp add: v newest_def t)
    have old: "version_in st' u \<and> valid_at E st' k u = valid_at E st k u" if u: "version_in st u" for u k
    proof -
      obtain d s where ds: "u = Version d s" by (cases u)
      have d: "is_live st d" "fseq st d \<le> s" "s \<le> hseq st d" using u by (simp_all add: version_in_def ds)
      have "version_in st' u" using d by (auto simp: version_in_def ds t)
      moreover have "valid_at E st' k u = valid_at E st k u"
        using valid_at_rev_at [OF tree(1) d(1)] valid_at_rev_at [OF tree(2), of d] d(1) t committed_old(2) [OF co wf(1) d] by (simp add: ds)
      ultimately show ?thesis by simp
    qed
    have val: "valid_at E st' k v = rev_at st' k b (Suc (hseq st b))" "valid_at E st k (newest st b) = rev_at st k b (hseq st b)" for k
      using valid_at_rev_at [OF tree(1) live] valid_at_rev_at [OF tree(2) lb] by (simp_all add: v newest_def)
    have as: "valid_at E st' k v = Some r" if "Assert k r d \<in> set cs" for k r d using he(3) [OF that] by (simp add: val)
    have rest: "valid_at E st' k v = valid_at E st k (newest st b) \<or> \<not> is_asserted st k \<and> valid_at E st' k v = None"
      if no: "\<nexists>r d. Assert k r d \<in> set cs" for k
    proof -
      from he(2) [OF disjI1, OF no] have same: "is_asserted st' k = is_asserted st k" "ventry st' k b (Suc (hseq st b)) = ventry st k b (hseq st b)" by auto
      show ?thesis
      proof (cases "is_asserted st k")
        case True
        then show ?thesis using same by (simp add: val rev_at_def)
      next
        case False
        then show ?thesis using same committed_head_vcert [OF co, of k] by (simp add: val rev_at_def)
      qed
    qed
    have dirty: "valid_at E st' k v = None" if "Dirty k d \<in> set cs" for k d
    proof -
      obtain Q st1 where ch: "changed st b cs Q st1" and adv: "advanced st1 b V st'" and sub: "Q \<subseteq> V" using co by (auto simp: committed_def)
      have q: "k \<in> Q \<and> \<not> is_asserted st1 k" using changed_dirty [OF ch that] .
      have "is_asserted st' = is_asserted st1" using adv by (simp add: advanced_def)
      with q have na: "\<not> is_asserted st' k" by simp
      with q sub committed_head_vcert [OF co na] show ?thesis by (auto simp: val rev_at_def)
    qed
    from inv' live new v old as rest dirty show ?thesis by blast
  qed
qed

section \<open>fork\<close>

text \<open>What a caller sees of a fork: the other branches answer as before, and the new branch answers as the
  version it was forked at, for assertions and for what is still valid at the parent's head; a derived
  answer that the parent has lost since may be lost in the fork too, but never turns into another one.\<close>

lemma fork_answers:
  assumes inv: "core_inv E st" and v: "version_in st v" and room: "length (branches st) \<le> u32_max"
  shows "\<exists>st' c. fork E st v = Some (c, st') \<and> core_inv E st' \<and> c = length (branches st) \<and> version_in st' (newest st' c)
    \<and> (\<forall>u k. version_in st u \<longrightarrow> version_in st' u \<and> valid_at E st' k u = valid_at E st k u)
    \<and> (\<forall>k. is_asserted st k \<longrightarrow> valid_at E st' k (newest st' c) = valid_at E st k v)
    \<and> (\<forall>k. valid_at E st' k (newest st' c) \<in> {None, valid_at E st k v})
    \<and> (\<forall>k. valid_at E st k (newest st (vbranch v)) \<noteq> None \<longrightarrow> valid_at E st' k (newest st' c) = valid_at E st k v)"
proof -
  obtain b s where bs: "v = Version b s" by (cases v)
  have b: "is_live st b" "fseq st b \<le> s" "s \<le> hseq st b" using v by (simp_all add: version_in_def bs)
  let ?c = "length (branches st)"
  from fork_correct [OF inv b room] obtain st' where f: "fork E st v = Some (?c, st')" "core_inv E st'" "forked E st b s ?c st'"
    unfolding bs by blast
  have tree: "wf_tree st" "wf_tree st'" using inv f(2) by (simp_all add: core_inv_def wf_core_def)
  note F = f(3) [unfolded forked_def]
  have c: "is_live st' ?c" "fseq st' ?c = hseq st' ?c" using F by simp_all
  have old: "version_in st' u \<and> valid_at E st' k u = valid_at E st k u" if u: "version_in st u" for u k
  proof -
    obtain d q where dq: "u = Version d q" by (cases u)
    have d: "is_live st d" "fseq st d \<le> q" "q \<le> hseq st d" "d \<noteq> ?c"
      using u is_live_less [of st d] by (auto simp: version_in_def dq)
    have "is_live st' d" "fseq st' d = fseq st d" "hseq st' d = hseq st d" using F d by simp_all
    moreover have "rev_at st' k d q = rev_at st k d q" using F d(1) by (simp add: rev_at_def)
    ultimately show ?thesis
      using d valid_at_rev_at [OF tree(1) d(1)] valid_at_rev_at [OF tree(2), of d] by (simp add: dq version_in_def)
  qed
  have val: "valid_at E st' k (newest st' ?c) = rev_at st' k ?c (hseq st' ?c)" "valid_at E st k v = rev_at st k b s"
    "valid_at E st k (newest st b) = rev_at st k b (hseq st b)" for k
    using valid_at_rev_at [OF tree(1) b(1)] valid_at_rev_at [OF tree(2) c(1)] by (simp_all add: newest_def bs)
  have new: "ventry st' k ?c q = ventry st k b s" "vcert st' k ?c q \<in> {None, vcert st k b s}"
    "vcert st k b (hseq st b) \<noteq> None \<Longrightarrow> vcert st' k ?c q = vcert st k b s" "is_asserted st' = is_asserted st" for k q
    using F by blast+
  have "valid_at E st' k (newest st' ?c) = valid_at E st k v" if "is_asserted st k" for k
    using that new by (simp add: val rev_at_def)
  moreover have "valid_at E st' k (newest st' ?c) \<in> {None, valid_at E st k v}" for k
    using new(1) [of k] new(2) [of k "hseq st' ?c"] new(4) by (cases "is_asserted st k") (auto simp: val rev_at_def)
  moreover have "valid_at E st' k (newest st' ?c) = valid_at E st k v" if "valid_at E st k (newest st b) \<noteq> None" for k
    using that new(1,3) [of k] new(4) by (cases "is_asserted st k") (auto simp: val rev_at_def)
  moreover have "version_in st' (newest st' ?c)" by (rule newest_version_in [OF tree(2) c(1)])
  ultimately show ?thesis using f(1,2) old by (simp add: bs)
qed

section \<open>delete\<close>

text \<open>What a caller sees of a deletion: nothing, on the surviving branches; what a lookup there finds valid and
  the untracked-input token are those of before.\<close>

lemma delete_answers:
  assumes inv: "core_inv E st" and live: "is_live st b"
  shows "\<exists>ks st'. delete_branch st b = Some (ks, st') \<and> core_inv E st' \<and> \<not> is_live st' b
    \<and> (\<forall>u. vbranch u \<noteq> b \<longrightarrow> version_in st' u = version_in st u)
    \<and> (\<forall>u k. version_in st u \<longrightarrow> vbranch u \<noteq> b \<longrightarrow>
         valid_at E st' k u = valid_at E st k u \<and> epsilon st' k u = epsilon st k u)"
proof -
  from delete_branch_correct [OF inv live] obtain ks st' where d: "delete_branch st b = Some (ks, st')" "core_inv E st'"
    "deleted b st st'" and sa: "\<forall>d. is_live st d \<longrightarrow> d \<noteq> b \<longrightarrow> same_answers st st' d" by (elim exE conjE) (rule that)
  have tree: "wf_tree st" "wf_tree st'" using inv d(2) by (simp_all add: core_inv_def wf_core_def)
  have L: "is_live st' = (is_live st)(b := False)" using d(3) by (simp add: deleted_def)
  have vin: "version_in st' u = version_in st u" if "vbranch u \<noteq> b" for u
    using sa that L by (auto simp: version_in_def same_answers_def)
  have "valid_at E st' k u = valid_at E st k u \<and> epsilon st' k u = epsilon st k u" if "version_in st u" "vbranch u \<noteq> b" for u k
  proof -
    obtain e q where u: "u = Version e q" by (cases u)
    have e: "is_live st e" "e \<noteq> b" "fseq st e \<le> q" "q \<le> hseq st e" "is_live st' e" using that L by (simp_all add: u version_in_def)
    have "rev_at st' k e q = rev_at st k e q" "eps_at st' k e q = eps_at st k e q"
      using sa e by (simp_all add: same_answers_def)
    then show ?thesis using valid_at_rev_at [OF tree(1) e(1)] valid_at_rev_at [OF tree(2) e(5)]
      epsilon_eps_at [OF tree(1) e(1)] epsilon_eps_at [OF tree(2) e(5)] by (simp add: u)
  qed
  with d(1,2) L vin show ?thesis by simp
qed

end
