(* ===== verification/Dice_Total.thy ===== *)
theory Dice_Total
  imports Dice_Fuzz
begin

text \<open>
  The generated runs of \<^verbatim>\<open>dice/dice_core/src/fuzz.rs\<close> return: no assertion of the core, and no soundness check
  between the operations, ever fails in them. The first section follows the keys that have slots through every operation: a
  commit gives a slot only to the keys it dirties, a write only to the key of its certificate, and forking and deleting
  to none. With it the generator's split of the keys, injected ones that are only asserted and computed ones that
  are only dirtied and written, is an invariant (\<open>gen_inv\<close>), which also counts the sequence numbers, branch
  indices and tokens taken so far; under it every operation returns (\<open>run_op_total\<close>).
\<close>

section \<open>The keys with slots\<close>

definition slot_keys :: "('p, 'd, 'a) core_state \<Rightarrow> key set" where
  "slot_keys st = dom (map_of (slots st))"

lemma slot_keys_cong: "slots st' = slots st \<Longrightarrow> slot_keys st' = slot_keys st"
  by (simp add: slot_keys_def)

lemma slot_keys_branch_mut: "branch_mut st b f = Some st' \<Longrightarrow> slot_keys st' = slot_keys st"
  by (auto simp: branch_mut_def bind_eq_Some_conv slot_keys_def)

lemma slot_keys_slot_mut [simp]: "slot_keys (slot_mut st k b f) = slot_keys st"
  by (simp add: slot_keys_def dom_slots_slot_mut)

lemma slot_keys_slot_or_insert [simp]: "slot_keys (slot_or_insert st k b) = insert k (slot_keys st)"
  by (simp add: slot_keys_def dom_slots_slot_or_insert)

lemma slot_keys_set_claim: "set_claim st k b (Some c) = Some st' \<Longrightarrow> slot_keys st' = insert k (slot_keys st)"
  using set_claim_views(5) [of st k b c st'] by (simp add: slot_keys_cong [of st'] set_slot_claim_def)

lemma slot_keys_detach: "detach st k b at = Some st' \<Longrightarrow> slot_keys st' = slot_keys st"
  by (auto simp: detach_def bind_eq_Some_conv dest: slot_keys_branch_mut)

lemma slot_keys_register_edges: "register_edges E st b cert = Some st' \<Longrightarrow> slot_keys st' = slot_keys st"
  by (auto simp: register_edges_def dest: slot_keys_branch_mut)

lemma resolve_slots_claim: "resolve_slots st ss v = Some (RClaim b c) \<Longrightarrow> ss \<noteq> []"
  by (rule resolve_slots.raw_induct [of "\<lambda>st ss v r. r = RClaim b c \<longrightarrow> ss \<noteq> []", rule_format])
    (auto split: option.splits if_splits)

lemma resolve_asserted_claim: "resolve_asserted st hs v \<noteq> Some (RClaim b c)"
proof
  assume "resolve_asserted st hs v = Some (RClaim b c)"
  then show False
    using resolve_asserted.raw_induct [of "\<lambda>_ _ _ r. r \<noteq> RClaim b c" st hs v "RClaim b c"]
    by (fastforce split: option.splits if_splits)
qed

lemma resolve_slot_keys: "resolve st k v = Some (RClaim b c) \<Longrightarrow> k \<in> slot_keys st"
  using resolve_slots_claim [of st "slots_of st k" v b c] resolve_asserted_claim [of st _ v b c]
  by (auto simp: resolve_def slots_of_def slot_keys_def split: option.splits)

lemma slot_keys_close_key: 
  assumes "close_key st b first at k = Some (st', c)"
  shows "slot_keys st' = slot_keys st"
proof -
  have "k \<in> slot_keys st" if "attached st k b = Some (Some (Inherited x))" for x
  proof -
    obtain h r where "resolve st k h = Some r" and r: "(case r of RClaim owner claim \<Rightarrow>
        if owner = b then (if is_open (claim_window claim) then Some (Own claim) else None) else Some (Inherited claim)
      | RAsserted _ _ \<Rightarrow> None | RUnknown _ \<Rightarrow> None) = Some (Inherited x)"
      using \<open>attached st k b = Some (Some (Inherited x))\<close> by (auto simp: attached_def bind_eq_Some_conv)
    then show ?thesis by (cases r) (auto intro: resolve_slot_keys)
  qed
  note inherited = this
  obtain att where att: "attached st k b = Some att" using assms by (auto simp: close_key_def bind_eq_Some_conv)
  show ?thesis
  proof (cases att)
    case None
    with assms att show ?thesis by (simp add: close_key_def)
  next
    case (Some x)
    with assms att inherited show ?thesis
      by (cases x) (auto simp: close_key_def bind_eq_Some_conv dest!: slot_keys_detach slot_keys_set_claim)
  qed
qed

lemma slot_keys_close_loop:
  assumes "close_loop st b first at visited closed queue = Some r"
  shows "slot_keys (fst r) = slot_keys st"
  by (rule close_loop.raw_induct [where P = "\<lambda>st _ _ _ _ _ _ r. slot_keys (fst r) = slot_keys st", OF _ assms])
    (fastforce simp: bind_eq_Some_conv split: list.splits if_splits dest: slot_keys_close_key slot_keys_branch_mut)

lemma slot_keys_remove_all_edges: "remove_all_edges st b rs = Some st' \<Longrightarrow> slot_keys st' = slot_keys st"
  by (induction st b rs rule: remove_all_edges.induct) (force simp: bind_eq_Some_conv dest: slot_keys_branch_mut)+

lemma slot_keys_close_dependents: "close_dependents E st b at queue = Some st' \<Longrightarrow> slot_keys st' = slot_keys st"
  by (fastforce simp: close_dependents_def bind_eq_Some_conv dest: slot_keys_close_loop slot_keys_remove_all_edges)

text \<open>Only a dirty makes a key a slot.\<close>

lemma slot_keys_apply_change:
  "apply_change st nxt b head next c = Some (st', nxt', eff)
    \<Longrightarrow> slot_keys st' \<subseteq> slot_keys st \<union> {k. \<exists>d. c = Dirty k d}"
proof (cases c)
  case (Assert k r d)
  then show "apply_change st nxt b head next c = Some (st', nxt', eff) \<Longrightarrow> ?thesis"
    by (auto simp: apply_change_def bind_eq_Some_conv Let_def assertion_history_mut_def slot_keys_def
        split: if_split_asm option.split_asm prod.split_asm)
next
  case (Dirty k d)
  then show "apply_change st nxt b head next c = Some (st', nxt', eff) \<Longrightarrow> ?thesis"
    by (auto simp: apply_change_def bind_eq_Some_conv Let_def split: if_split_asm)
qed

lemma slot_keys_apply_changes:
  "apply_changes st nxt b head next seen queue cs = Some (st', nxt', q)
    \<Longrightarrow> slot_keys st' \<subseteq> slot_keys st \<union> {k. \<exists>d. Dirty k d \<in> set cs}"
proof (induction cs arbitrary: st nxt seen queue)
  case (Cons c cs)
  then obtain st1 nxt1 e queue1 where a: "apply_change st nxt b head next c = Some (st1, nxt1, e)"
    "apply_changes st1 nxt1 b head next (List.insert (change_key c) seen) queue1 cs = Some (st', nxt', q)"
    by (auto simp: bind_eq_Some_conv split: if_splits)
  from slot_keys_apply_change [OF a(1)] Cons.IH [OF a(2)] show ?case by auto
qed simp

lemma slot_keys_commit:
  "commit E st nxt b cs = Some (st', nxt', v) \<Longrightarrow> slot_keys st' \<subseteq> slot_keys st \<union> {k. \<exists>d. Dirty k d \<in> set cs}"
  by (auto simp: commit_def bind_eq_Some_conv split: if_splits
      dest!: slot_keys_close_dependents slot_keys_branch_mut slot_keys_apply_changes)

lemma slot_keys_discharge:
  "discharge fuel E st k new x = Some st' \<Longrightarrow> slot_keys st' \<subseteq> insert k (slot_keys st)"
  "discharge_grandchildren fuel E st k new cand bs = Some st' \<Longrightarrow> slot_keys st' \<subseteq> insert k (slot_keys st)"
proof (induction fuel E st k new x and fuel E st k new cand bs arbitrary: st' and st' rule: discharge_discharge_grandchildren.induct)
  case (3 fuel E st key new child candidate)
  then obtain br cov where bc: "branch_of st child = Some br" "cover E st child (claim_cert new) = Some cov"
    by (auto simp: bind_eq_Some_conv)
  show ?case
  proof (cases "covers_all (br_first br) cov")
    case True
    with "3.prems" bc obtain st1 br' where "register_edges E st child (claim_cert new) = Some st1" "branch_of st1 child = Some br'"
      "discharge_grandchildren fuel E st1 key new candidate (map fst (br_children br')) = Some st'"
      by (auto simp: bind_eq_Some_conv)
    with "3.IH" [OF bc True this] show ?thesis by (auto dest: slot_keys_register_edges)
  next
    case False
    with 3 bc show ?thesis by (auto dest!: slot_keys_set_claim)
  qed
next
  case (5 fuel E st key new candidate grandchild rest)
  show ?case
  proof (cases "case slot_of st key grandchild of None \<Rightarrow> False | Some slot \<Rightarrow> slot_claim slot \<noteq> None")
    case True
    with 5 show ?thesis by simp
  next
    case False
    with "5.prems" obtain st1 where d: "discharge fuel E st key new (FillInOrShadow grandchild candidate) = Some st1"
      "discharge_grandchildren fuel E st1 key new candidate rest = Some st'" by (auto simp: bind_eq_Some_conv)
    from "5.IH"(2) [OF False d(1)] "5.IH"(3) [OF False d] show ?thesis by auto
  qed
qed (auto dest: slot_keys_set_claim)

lemma slot_keys_discharge_all: "discharge_all fuel E st k new cs = Some st' \<Longrightarrow> slot_keys st' \<subseteq> insert k (slot_keys st)"
  by (induction fuel E st k new cs rule: discharge_all.induct) (fastforce simp: bind_eq_Some_conv dest: slot_keys_discharge(1))+

lemma slot_keys_install: "install E st k b c = Some st' \<Longrightarrow> slot_keys st' \<subseteq> insert k (slot_keys st)"
  by (auto simp: install_def bind_eq_Some_conv split: if_splits
      dest!: slot_keys_discharge_all slot_keys_register_edges slot_keys_set_claim)

lemma slot_keys_write_branch:
  assumes "write_branch E cert (st, out) i = Some (st', out')"
  shows "slot_keys st' \<subseteq> insert (cert_key cert) (slot_keys st)"
proof -
  have "st' = st \<or> (\<exists>b c. install E st (cert_key cert) b c = Some st')"
    using assms unfolding write_branch_def
    by (simp add: bind_eq_Some_conv split: if_split_asm option.split_asm prod.split_asm) blast+
  then show ?thesis by (auto dest: slot_keys_install)
qed

lemma slot_keys_write:
  assumes "write_cert E st cert = Some (st', out)"
  shows "slot_keys st' \<subseteq> insert (cert_key cert) (slot_keys st)"
proof -
  have "slot_keys st' \<subseteq> insert (cert_key cert) (slot_keys st)"
    if "write_loop E cert (st, out0) is = Some (st', out)" for st out0 "is"
    using that
  proof (induction "is" arbitrary: st out0)
    case (Cons i "is")
    then obtain st1 o1 where "write_branch E cert (st, out0) i = Some (st1, o1)" "write_loop E cert (st1, o1) is = Some (st', out)"
      by (auto simp: bind_eq_Some_conv)
    with Cons.IH slot_keys_write_branch show ?case by fastforce
  qed auto
  with assms show ?thesis by (auto simp: write_cert_def split: if_splits)
qed

lemma slot_keys_partition:
  "partition_candidates st b from ks att und = Some (att', und') \<Longrightarrow> fst ` set und \<subseteq> slot_keys st
    \<Longrightarrow> fst ` set und' \<subseteq> slot_keys st"
proof (induction ks arbitrary: att und)
  case (Cons k ks)
  then obtain r where "resolve st k from = Some r" by (auto simp: bind_eq_Some_conv)
  moreover from this have "k \<in> slot_keys st" if "r = RClaim b' c" for b' c using that resolve_slot_keys by simp
  ultimately show ?case
    using Cons by (cases r) (auto simp: dom_update split: if_split_asm)
qed simp

lemma slot_keys_settle:
  "settle_undecided st child first supp und att = Some (st', att') \<Longrightarrow> slot_keys st' \<subseteq> slot_keys st \<union> fst ` set und"
proof (induction und arbitrary: st att)
  case (Cons x und)
  obtain k c where x: "x = (k, c)" by (cases x)
  show ?case
  proof (cases "k \<in> set supp")
    case True
    with Cons x show ?thesis by fastforce
  next
    case False
    with Cons.prems x obtain st1 claim where "set_claim st k child (Some claim) = Some st1"
      "settle_undecided st1 child first supp und att = Some (st', att')" by (auto simp: bind_eq_Some_conv)
    with Cons.IH [of st1 att] slot_keys_set_claim x show ?thesis by fastforce
  qed
qed simp

lemma slot_keys_register_all: "register_all E st child cs = Some st' \<Longrightarrow> slot_keys st' = slot_keys st"
  by (induction cs arbitrary: st) (auto simp: bind_eq_Some_conv dest!: slot_keys_register_edges)

lemma slot_keys_fork:
  assumes "fork E st v = Some (c, st')"
  shows "slot_keys st' \<subseteq> slot_keys st"
proof -
  obtain st1 st2 br f supp und att att' where st1: "slot_keys st1 = slot_keys st"
    and p: "partition_candidates st1 (vbranch v) v (fork_candidates br) [] [] = Some (att, und)"
    and s: "settle_undecided st1 c f supp und att = Some (st2, att')" and r: "register_all E st2 c att' = Some st'"
    using assms by (auto simp: fork_def Let_def bind_eq_Some_conv split: if_split_asm dest!: slot_keys_branch_mut)
      (auto simp: slot_keys_def)
  from slot_keys_partition [OF p] slot_keys_settle [OF s] slot_keys_register_all [OF r] st1 show ?thesis by simp blast
qed

lemma slot_keys_try_fold:
  assumes "\<And>st x st'. f st x = Some st' \<Longrightarrow> slot_keys st' = slot_keys st"
  shows "try_fold f st xs = Some st' \<Longrightarrow> slot_keys st' = slot_keys st"
  by (induction xs arbitrary: st) (auto simp: bind_eq_Some_conv dest!: assms)

lemma slot_of_slot_keys: "slot_of st k b = Some s \<Longrightarrow> k \<in> slot_keys st"
  by (auto simp: slot_of_def slot_keys_def bind_eq_Some_conv)

lemma slot_keys_materialize_claim:
  "(case x of None \<Rightarrow> Some st | Some cl \<Rightarrow> if P then set_claim st k c (Some cl) else Some st) = Some st'
    \<Longrightarrow> k \<in> slot_keys st \<Longrightarrow> slot_keys st' = slot_keys st"
  by (cases x) (auto split: if_splits dest: slot_keys_set_claim)

lemma slot_keys_materialize_dirty:
  "(case x of None \<Rightarrow> Some st | Some e \<Rightarrow> slot_of (slot_or_insert st k c) k c \<bind> (\<lambda>own.
      if starts_after f (slot_untracked own)
      then history_insert_first (slot_untracked own) e \<bind> (\<lambda>h. Some (slot_mut (slot_or_insert st k c) k c (\<lambda>slot. slot\<lparr>slot_untracked := h\<rparr>)))
      else Some (slot_or_insert st k c))) = Some st'
    \<Longrightarrow> k \<in> slot_keys st \<Longrightarrow> slot_keys st' = slot_keys st"
  by (cases x) (auto simp: bind_eq_Some_conv split: if_splits)

lemma slot_keys_materialize_slot:
  assumes "materialize_slot b s c f st k = Some st'"
  shows "slot_keys st' = slot_keys st"
proof -
  have k: "k \<in> slot_keys st" using assms by (auto simp: materialize_slot_def bind_eq_Some_conv intro: slot_of_slot_keys)
  have bindE: "m \<bind> g = Some y \<Longrightarrow> (\<And>x. m = Some x \<Longrightarrow> g x = Some y \<Longrightarrow> R) \<Longrightarrow> R" for m :: "'x option" and g and y :: 'y and R
    by (auto simp: bind_eq_Some_conv)
  from assms show ?thesis
    unfolding materialize_slot_def Let_def
    by (elim bindE) (frule slot_keys_materialize_claim [OF _ k], drule slot_keys_materialize_dirty, simp_all add: k)
qed

lemma slot_keys_materialize_assertion: "materialize_assertion b s c f st k = Some st' \<Longrightarrow> slot_keys st' = slot_keys st"
  by (auto simp: materialize_assertion_def assertion_history_mut_def slot_keys_def bind_eq_Some_conv Let_def
      split: option.split_asm prod.split_asm if_split_asm)

lemma slot_keys_materialize_inheritance:
  assumes "materialize_inheritance st b s c = Some st'"
  shows "slot_keys st' = slot_keys st"
proof -
  obtain f st1 ks hs where "try_fold (materialize_slot b s c f) st ks = Some st1" "try_fold (materialize_assertion b s c f) st1 hs = Some st'"
    using assms by (auto simp: materialize_inheritance_def Let_def bind_eq_Some_conv)
  then show ?thesis
    by (metis slot_keys_try_fold slot_keys_materialize_slot slot_keys_materialize_assertion)
qed

lemma slot_keys_adopt_child: "adopt_child b p st x = Some st' \<Longrightarrow> slot_keys st' = slot_keys st"
  by (cases x; cases p) (auto simp: adopt_child_def bind_eq_Some_conv
      dest!: slot_keys_branch_mut slot_keys_materialize_inheritance)

lemma slot_keys_delete:
  assumes "delete_branch st b = Some (ks, st')"
  shows "slot_keys st' = slot_keys st"
proof -
  let ?st0 = "st\<lparr>branches := (branches st)[b := None]\<rparr>"
  obtain br :: branch and st1 st2 where a: "try_fold (adopt_child b (br_parent br)) ?st0 (br_children br) = Some st1"
    and m: "(case br_parent br of None \<Rightarrow> Some st1 | Some p \<Rightarrow> branch_mut st1 (vbranch p) (\<lambda>br. remove_child br b)) = Some st2"
    and st': "slots st' = map (\<lambda>(key, ss). (key, drop_slot b ss)) (slots st2)"
    using assms by (auto simp: delete_branch_def Let_def bind_eq_Some_conv)
  have s2: "slot_keys st2 = slot_keys st1" using m by (cases "br_parent br") (auto dest: slot_keys_branch_mut)
  have st0: "slot_keys ?st0 = slot_keys st" by (simp add: slot_keys_def)
  have "slot_keys st' = slot_keys st2"
    unfolding slot_keys_def st' by (auto simp: map_of_map dom_def)
  then show ?thesis using st0 s2 slot_keys_try_fold [OF _ a] slot_keys_adopt_child by metis
qed


section \<open>Operations of a run return\<close>

lemma run_commit_total:
  assumes R: "run_inv E (run_state run) (run_model run)" and live: "is_live (run_state run) b" and top: "hseq (run_state run) b < u32_max"
    and ok: "valid_changes (run_state run) cs" and nxt: "0 < run_tokens run" "run_tokens run + length cs \<le> u64_max"
  shows "\<exists>v run' after. run_commit E run b cs = Some (v, run')
    \<and> commit E (run_state run) (run_tokens run) b cs = Some (run_state run', run_tokens run', after)"
proof -
  let ?st = "run_state run" and ?M = "run_model run"
  note I = run_invD [OF R]
  obtain st tokens "after" where cm: "commit E ?st (run_tokens run) b cs = Some (st, tokens, after)"
    using commit_total [OF I(1) live top ok nxt] by blast
  have hd: "head_of ?st b = Some (Version b (hseq ?st b))" using is_live_Some [OF live] by (auto simp: head_of_def hseq_def)
  from commit_correct [OF cm I(1)] have "after = Version b (hseq ?st b) \<and> st = ?st \<and> dirtied_changes cs = []
      \<or> after = Version b (Suc (hseq ?st b)) \<and> Suc (hseq ?st b) \<le> u32_max \<and> (\<exists>V. committed E ?st b cs V st)"
    using dirtied_changes_set [of _ cs] by (fastforce simp: neq_Nil_conv)
  then show ?thesis
  proof (elim disjE conjE exE)
    assume "after = Version b (hseq ?st b)" "dirtied_changes cs = []"
    with hd cm show ?thesis by (auto simp: run_commit_def)
  next
    fix V assume af: "after = Version b (Suc (hseq ?st b))" and le: "Suc (hseq ?st b) \<le> u32_max" and co: "committed E ?st b cs V st"
    have "core_inv E st" by (rule committed_inv [OF co I(1) live le])
    then have wf: "wf_tree st" by (simp add: core_inv_def wf_core_def)
    have lb: "is_live st b" using live committed_tree(1) [OF co] by simp
    have eps: "those (map (\<lambda>key. map_option (Pair key) (epsilon st key after)) (dirtied_changes cs))
      = Some (map (\<lambda>k. (k, eps_at st k b (Suc (hseq ?st b)))) (dirtied_changes cs))"
      by (rule those_map_Some) (simp add: af epsilon_eps_at [OF wf lb])
    have "\<not> has_version ?M after" using I(4) [of "after"] live by (auto simp: af)
    with hd cm eps show ?thesis by (auto simp: run_commit_def af record_version_def has_version_def)
  qed
qed

lemma run_fork_total:
  assumes R: "run_inv E (run_state run) (run_model run)" and v: "version_in (run_state run) v"
    and room: "length (branches (run_state run)) \<le> u32_max"
  shows "\<exists>c run'. run_fork E run v = Some (c, run') \<and> fork E (run_state run) v = Some (c, run_state run')
    \<and> forked E (run_state run) (vbranch v) (vseq v) c (run_state run') \<and> run_tokens run' = run_tokens run"
proof -
  let ?st = "run_state run" and ?c = "length (branches (run_state run))"
  note I = run_invD [OF R]
  from fork_correct [OF I(1) _ _ _ room, of "vbranch v" "vseq v"] v obtain st where
    f: "fork E ?st v = Some (?c, st)" "forked E ?st (vbranch v) (vseq v) ?c st" by (auto simp: version_in_def)
  then have "is_live st ?c" by (simp add: forked_def)
  then obtain h where hd: "head_of st ?c = Some h" and h: "vbranch h = ?c" using is_live_Some by (fastforce simp: head_of_def)
  have "\<not> has_version (run_model run) h" using I(3) [of h] h by auto
  with f hd show ?thesis by (simp add: run_fork_def record_version_def has_version_def)
qed

lemma run_new_root_total:
  assumes R: "run_inv E (run_state run) (run_model run)" and room: "length (branches (run_state run)) \<le> u32_max"
  shows "\<exists>c run'. run_new_root run = Some (c, run') \<and> grown (run_state run) c None (run_state run') \<and> run_tokens run' = run_tokens run"
proof -
  let ?st = "run_state run" and ?c = "length (branches (run_state run))"
  note I = run_invD [OF R]
  obtain st where n: "new_root ?st = Some (?c, st)" using room by (simp add: new_root_def branch_from_index_def)
  note g = new_root_grown(1) [OF n]
  then have "is_live st ?c" by (simp add: grown_def)
  then obtain h where hd: "head_of st ?c = Some h" and h: "vbranch h = ?c" using is_live_Some by (fastforce simp: head_of_def)
  have "\<not> has_version (run_model run) h" using I(3) [of h] h by auto
  with n g hd show ?thesis by (simp add: run_new_root_def record_version_def has_version_def)
qed

lemma write_same_world:
  assumes "core_inv E st" "\<not> is_asserted st (cert_key cert)"
  shows "\<exists>st' out. write_cert E st cert = Some (st', out) \<and> same_world st st'"
proof -
  from write_correct [OF assms order_refl] obtain st' out where w: "write_cert E st cert = Some (st', out)"
    "(write_step E (insert cert (all_certs st)) cert)\<^sup>*\<^sup>* st st'" by blast
  from w(2) have "same_world st st'"
    by (induction rule: rtranclp_induct) (auto simp: write_step_def intro: same_world_trans)
  with w(1) show ?thesis by blast
qed

text \<open>A commit takes at most one token per change.\<close>

lemma apply_change_tokens:
  "apply_change st nxt b head next c = Some (st', nxt', eff) \<Longrightarrow> 0 < nxt \<Longrightarrow> nxt < u64_max \<Longrightarrow> 0 < nxt' \<and> nxt' \<le> Suc nxt"
  by (cases c) (auto simp: apply_change_def bind_eq_Some_conv Let_def mint_def split: if_split_asm)

lemma apply_changes_tokens:
  "apply_changes st nxt b head next seen queue cs = Some (st', nxt', q) \<Longrightarrow> 0 < nxt \<Longrightarrow> nxt + length cs \<le> u64_max
    \<Longrightarrow> 0 < nxt' \<and> nxt' \<le> nxt + length cs"
proof (induction cs arbitrary: st nxt seen queue)
  case (Cons c cs)
  then obtain st1 nxt1 e queue1 where a: "apply_change st nxt b head next c = Some (st1, nxt1, e)"
    "apply_changes st1 nxt1 b head next (List.insert (change_key c) seen) queue1 cs = Some (st', nxt', q)"
    by (auto simp: bind_eq_Some_conv split: if_splits)
  from apply_change_tokens [OF a(1) Cons.prems(2)] Cons.prems(3) have "0 < nxt1" "nxt1 \<le> Suc nxt" by auto
  with Cons.IH [OF a(2)] Cons.prems(3) show ?case by auto
qed simp

lemma commit_tokens:
  "commit E st nxt b cs = Some (st', nxt', v) \<Longrightarrow> 0 < nxt \<Longrightarrow> nxt + length cs \<le> u64_max \<Longrightarrow> 0 < nxt' \<and> nxt' \<le> nxt + length cs"
  by (auto simp: commit_def bind_eq_Some_conv dest!: apply_changes_tokens)

section \<open>The interpreter returns\<close>

text \<open>What the generator makes: no revision is 0.\<close>

fun valid_change :: "gen_change \<Rightarrow> bool" where
  "valid_change (GenAssert _ revision) \<longleftrightarrow> revision \<noteq> 0"
| "valid_change (GenDirty _) \<longleftrightarrow> True"

fun valid_op :: "op \<Rightarrow> bool" where
  "valid_op (OpCommit _ changes) \<longleftrightarrow> list_all valid_change changes"
| "valid_op (OpWrite _ revision premises _) \<longleftrightarrow> revision \<noteq> 0 \<and> list_all (\<lambda>(_, r). r \<noteq> 0) premises"
| "valid_op _ \<longleftrightarrow> True"

text \<open>The tokens an operation may take.\<close>

fun op_tokens :: "op \<Rightarrow> nat" where
  "op_tokens (OpCommit _ changes) = length changes"
| "op_tokens _ = 0"

definition split_keys :: "('p, 'd, 'a) core_state \<Rightarrow> bool" where
  "split_keys st \<longleftrightarrow> (\<forall>k. is_asserted st k \<longrightarrow> k < INJECTED) \<and> (\<forall>k\<in>slot_keys st. INJECTED \<le> k)"

definition gen_inv :: "nat \<Rightarrow> nat \<Rightarrow> test_run \<Rightarrow> bool" where
  "gen_inv n tokens run \<longleftrightarrow> reachable test_env run \<and> split_keys (run_state run) \<and> (\<exists>b. is_live (run_state run) b)
     \<and> length (branches (run_state run)) \<le> n \<and> (\<forall>b. is_live (run_state run) b \<longrightarrow> hseq (run_state run) b \<le> n)
     \<and> 0 < run_tokens run \<and> run_tokens run \<le> tokens"

lemma injected_less: "injected i < INJECTED" and computed_ge: "INJECTED \<le> computed i"
  by (simp_all add: injected_def computed_def INJECTED_def)

lemma gen_changes_total:
  "list_all valid_change gs \<Longrightarrow> \<exists>cs stamps'. gen_changes stamps seen gs = Some (cs, stamps')
    \<and> distinct (map change_key cs) \<and> change_key ` set cs \<inter> set seen = {} \<and> length cs \<le> length gs
    \<and> (\<forall>k r d. Assert k r d \<in> set cs \<longrightarrow> k < INJECTED) \<and> (\<forall>k d. Dirty k d \<in> set cs \<longrightarrow> INJECTED \<le> k)"
proof (induction gs arbitrary: stamps seen)
  case (Cons g gs)
  show ?case
  proof (cases g)
    case (GenAssert i r)
    from Cons.IH [of "snd (stamp_mint stamps)" "List.insert (injected i) seen"] Cons.prems GenAssert show ?thesis
      by (auto simp: revision_testing_new_def injected_less split: prod.splits) blast
  next
    case (GenDirty i)
    from Cons.IH [of "snd (stamp_mint stamps)" "List.insert (computed i) seen"] Cons.prems GenDirty show ?thesis
      by (auto simp: computed_ge split: prod.splits) blast
  qed
qed simp

lemma gen_premises_total: "list_all (\<lambda>(_, r). r \<noteq> 0) ps \<Longrightarrow> \<exists>qs. gen_premises ps = Some qs"
  by (induction ps rule: gen_premises.induct) (auto simp: revision_testing_new_def)

lemma version_of_total:
  assumes "wf_tree st" "is_live st b0"
  shows "\<exists>v. version_of st i sq = Some v \<and> version_in st v"
proof -
  let ?bs = "live_branches st" and ?b = "live_branches st ! (i mod length (live_branches st))"
  have ne: "?bs \<noteq> []" using assms(2) live_branches_set [of st] by auto
  then have "?b \<in> set ?bs" by simp
  then have live: "is_live st ?b" using live_branches_set [of st] by auto
  then obtain br where br: "branch_of st ?b = Some br" using is_live_Some by blast
  have le: "br_first br \<le> br_head br" using wf_tree_seqs [OF assms(1) live] br by (simp add: fseq_def hseq_def)
  have "sq mod (br_head br - br_first br + 1) < br_head br - br_first br + 1" by simp
  with le have "br_first br + sq mod (br_head br - br_first br + 1) \<le> br_head br" by linarith
  with ne br live show ?thesis by (simp add: version_of_def Let_def first_of_def head_of_def version_in_def fseq_def hseq_def)
qed

lemma committed_asserted:
  assumes "committed E st b cs V st'" "is_asserted st' k"
  shows "is_asserted st k \<or> (\<exists>r d. Assert k r d \<in> set cs)"
proof -
  obtain Q st1 where "changed st b cs Q st1" "advanced st1 b V st'" using assms(1) by (auto simp: committed_def)
  with assms(2) show ?thesis by (auto simp: changed_def advanced_def)
qed

text \<open>Each operation keeps the keys split, and takes at most one sequence number, one branch index and a token per change.\<close>

lemma gen_commit:
  assumes g: "gen_inv n t run" and b: "is_live (run_state run) b" and n: "n < u32_max" and t: "t + m \<le> u64_max"
    and cs: "distinct (map change_key cs)" "length cs \<le> m" "\<And>k r d. Assert k r d \<in> set cs \<Longrightarrow> k < INJECTED"
      "\<And>k d. Dirty k d \<in> set cs \<Longrightarrow> INJECTED \<le> k"
  shows "\<exists>v run'. run_commit test_env run b cs = Some (v, run') \<and> gen_inv (Suc n) (t + m) run'"
proof -
  let ?st = "run_state run"
  have reach: "reachable test_env run" and R: "run_inv test_env ?st (run_model run)" and sk: "split_keys ?st"
    and h: "hseq ?st b \<le> n" and tk: "0 < run_tokens run" "run_tokens run \<le> t"
    using g b reachable_inv by (auto simp: gen_inv_def)
  have "acceptable ?st c" if "c \<in> set cs" for c
  proof (cases c)
    case (Assert k r d)
    with that cs(3) [of k r d] have "k \<notin> slot_keys ?st" using sk by (auto simp: split_keys_def)
    with Assert show ?thesis by (simp add: acceptable_def slot_keys_def domIff)
  next
    case (Dirty k d)
    with that cs(4) [of k d] sk show ?thesis by (auto simp: acceptable_def split_keys_def)
  qed
  then have ok: "valid_changes ?st cs" using cs(1) by (simp add: valid_changes_def)
  have room: "hseq ?st b < u32_max" "run_tokens run + length cs \<le> u64_max" using h n tk t cs(2) by auto
  from run_commit_total [OF R b room(1) ok tk(1) room(2)] obtain v run' "after" where
    r: "run_commit test_env run b cs = Some (v, run')"
    and c: "commit test_env ?st (run_tokens run) b cs = Some (run_state run', run_tokens run', after)" by blast
  note tok = commit_tokens [OF c tk(1) room(2)]
  have S: "is_live (run_state run') = is_live ?st" "length (branches (run_state run')) = length (branches ?st)"
    "\<And>d. hseq (run_state run') d \<le> Suc (hseq ?st d)" "\<And>k. is_asserted (run_state run') k \<Longrightarrow> is_asserted ?st k \<or> (\<exists>r d. Assert k r d \<in> set cs)"
    using commit_correct [OF c run_invD(1) [OF R]] by (auto dest: committed_tree committed_asserted)
  have "split_keys (run_state run')"
    using sk S(4) slot_keys_commit [OF c] cs(3,4) by (fastforce simp: split_keys_def)
  moreover have "hseq (run_state run') d \<le> Suc n" if "is_live ?st d" for d
    using S(3) [of d] that g by (auto simp: gen_inv_def dest: spec [of _ d])
  ultimately have "gen_inv (Suc n) (t + m) run'"
    using reachable.commit [OF reach r] g S(1,2) tok tk(2) cs(2) by (auto simp: gen_inv_def)
  with r show ?thesis by blast
qed

lemma gen_fork:
  assumes g: "gen_inv n t run" and v: "version_in (run_state run) v" and n: "n < u32_max"
  shows "\<exists>c run'. run_fork test_env run v = Some (c, run') \<and> gen_inv (Suc n) t run'"
proof -
  have reach: "reachable test_env run" and R: "run_inv test_env (run_state run) (run_model run)"
    using g reachable_inv by (auto simp: gen_inv_def)
  from run_fork_total [OF R v] g n obtain c run' where r: "run_fork test_env run v = Some (c, run')"
    and f: "fork test_env (run_state run) v = Some (c, run_state run')"
      "forked test_env (run_state run) (vbranch v) (vseq v) c (run_state run')" "run_tokens run' = run_tokens run"
    by (auto simp: gen_inv_def)
  have "gen_inv (Suc n) t run'"
    using reachable.fork [OF reach r] g f(2,3) slot_keys_fork [OF f(1)] by (auto simp: gen_inv_def forked_def split_keys_def seq_FIRST_def)
  with r show ?thesis by blast
qed

lemma gen_root:
  assumes g: "gen_inv n t run" and n: "n < u32_max"
  shows "\<exists>c run'. run_new_root run = Some (c, run') \<and> gen_inv (Suc n) t run'"
proof -
  have reach: "reachable test_env run" and R: "run_inv test_env (run_state run) (run_model run)"
    using g reachable_inv by (auto simp: gen_inv_def)
  from run_new_root_total [OF R] g n obtain c run' where r: "run_new_root run = Some (c, run')"
    and f: "grown (run_state run) c None (run_state run')" "run_tokens run' = run_tokens run"
    by (auto simp: gen_inv_def)
  have "slot_keys (run_state run') = slot_keys (run_state run)" "is_asserted (run_state run') = is_asserted (run_state run)"
    using f(1) by (auto simp: grown_def slot_keys_def is_asserted_def)
  then have "gen_inv (Suc n) t run'"
    using reachable.root [OF reach r] g f by (auto simp: gen_inv_def grown_def split_keys_def seq_FIRST_def)
  with r show ?thesis by blast
qed

lemma live_branches_distinct: "distinct (live_branches st)"
proof -
  have "List.map_filter (\<lambda>(i, br). map_option (\<lambda>_. i) br) xs = map fst (filter (\<lambda>(_, br). br \<noteq> None) xs)"
    for xs :: "(nat \<times> branch option) list"
    by (induction xs) (auto simp: map_filter_simps)
  then show ?thesis by (simp add: live_branches_def distinct_map_filter)
qed

lemma gen_delete:
  assumes g: "gen_inv n t run"
  shows "\<exists>run'. run_delete run i = Some run' \<and> gen_inv n t run'"
proof (cases "length (live_branches (run_state run)) < 2")
  case True
  with g show ?thesis by (simp add: run_delete_def)
next
  case False
  let ?st = "run_state run" and ?live = "live_branches (run_state run)" and ?b = "live_branches (run_state run) ! (i mod length (live_branches (run_state run)))"
  have reach: "reachable test_env run" and inv: "core_inv test_env ?st"
    using g reachable_inv [of test_env run] by (auto simp: gen_inv_def run_inv_def)
  have "?b \<in> set ?live" using False by (intro nth_mem mod_less_divisor) auto
  then have live: "is_live ?st ?b" using live_branches_set [of ?st] by auto
  from delete_branch_correct [OF inv live] obtain ks st' where d: "delete_branch ?st ?b = Some (ks, st')" "deleted ?b ?st st'" by blast
  then have r: "run_delete run i = Some (run\<lparr>run_state := st'\<rparr>)" using False by (simp add: run_delete_def)
  from live_branches_distinct [of ?st] have "\<exists>b'\<in>set ?live. b' \<noteq> ?b" using False distinct_card [of ?live] card_mono [of "{?b}" "set ?live"] by force
  then obtain b' where "is_live ?st b'" "b' \<noteq> ?b" using live_branches_set [of ?st] by auto
  then have "is_live st' b'" using d(2) by (simp add: deleted_def)
  moreover have "is_live st' x \<longrightarrow> hseq st' x \<le> n" for x using d(2) g by (auto simp: deleted_def gen_inv_def)
  moreover have "split_keys st'" "length (branches st') \<le> n"
    using g d(2) slot_keys_delete [OF d(1)] by (simp_all add: gen_inv_def deleted_def split_keys_def)
  ultimately have "gen_inv n t (run\<lparr>run_state := st'\<rparr>)"
    using reachable.delete [OF reach r] g by (auto simp: gen_inv_def)
  with r show ?thesis by blast
qed

lemma gen_write:
  assumes g: "gen_inv n t run" and k: "INJECTED \<le> cert_key cert"
  shows "\<exists>run'. run_write test_env run cert = Some run' \<and> gen_inv n t run'"
proof -
  let ?st = "run_state run"
  have reach: "reachable test_env run" and inv: "core_inv test_env ?st" and sk: "split_keys ?st"
    using g reachable_inv [of test_env run] by (auto simp: gen_inv_def run_inv_def)
  have as: "\<not> is_asserted ?st (cert_key cert)" using sk k by (auto simp: split_keys_def)
  from write_same_world [OF inv as] obtain st' out where w: "write_cert test_env ?st cert = Some (st', out)" and sw: "same_world ?st st'" by blast
  then have r: "run_write test_env run cert = Some (run\<lparr>run_state := st', run_model := record_write test_env (run_model run) cert\<rparr>)"
    by (simp add: run_write_def)
  have "gen_inv n t (run\<lparr>run_state := st', run_model := record_write test_env (run_model run) cert\<rparr>)"
    using reachable.written [OF reach r] g sw slot_keys_write [OF w] k
    by (auto simp: gen_inv_def same_world_def same_tree_def split_keys_def)
  with r show ?thesis by blast
qed

lemma gen_inv_mono: "gen_inv n t run \<Longrightarrow> n \<le> n' \<Longrightarrow> t \<le> t' \<Longrightarrow> gen_inv n' t' run"
  by (fastforce simp: gen_inv_def)

lemma run_op_total:
  assumes g: "gen_inv n t run" and op: "valid_op op" and n: "n < u32_max" and t: "t + op_tokens op \<le> u64_max"
  shows "\<exists>run' stamps'. run_op (run, stamps) op = Some (run', stamps') \<and> gen_inv (Suc n) (t + op_tokens op) run'"
proof -
  have R: "run_inv test_env (run_state run) (run_model run)" using g reachable_inv by (auto simp: gen_inv_def)
  have wf: "wf_tree (run_state run)" using run_invD(2) [OF R] by (simp add: wf_core_def)
  obtain b0 where b0: "is_live (run_state run) b0" using g by (auto simp: gen_inv_def)
  note version = version_of_total [OF wf b0]
  have same: "gen_inv (Suc n) (t + op_tokens op) run" if "gen_inv n t run" for run by (rule gen_inv_mono [OF that]) auto
  show ?thesis
  proof (cases op)
    case (OpCommit branch changes)
    obtain v where v: "version_of (run_state run) branch 0 = Some v" "version_in (run_state run) v" using version by blast
    obtain cs stamps' where cs: "gen_changes stamps [] changes = Some (cs, stamps')" "distinct (map change_key cs)"
      "length cs \<le> length changes" "\<forall>k r d. Assert k r d \<in> set cs \<longrightarrow> k < INJECTED" "\<forall>k d. Dirty k d \<in> set cs \<longrightarrow> INJECTED \<le> k"
      using gen_changes_total [of changes stamps "[]"] op OpCommit by auto
    have "is_live (run_state run) (vbranch v)" using v(2) by (simp add: version_in_def)
    from gen_commit [OF g this n _ cs(2,3)] cs(4,5) t OpCommit obtain w run' where
      "run_commit test_env run (vbranch v) cs = Some (w, run')" "gen_inv (Suc n) (t + length changes) run'" by auto
    with v cs OpCommit show ?thesis by (simp add: run_op_def)
  next
    case (OpFork branch sq)
    obtain v where v: "version_of (run_state run) branch sq = Some v" "version_in (run_state run) v" using version by blast
    from gen_fork [OF g v(2) n] same [OF g] v(1) OpFork show ?thesis by (auto simp: run_op_def)
  next
    case (OpWrite key revision ps eps)
    obtain qs where "gen_premises ps = Some qs" using gen_premises_total op OpWrite by auto
    with gen_write [OF g, of "test_cert (computed key) revision qs (eps_for run (computed key) eps)"] op OpWrite same show ?thesis
      by (auto simp: run_op_def revision_testing_new_def test_cert_def computed_ge)
  next
    case (OpLookup key branch sq)
    obtain v where v: "version_of (run_state run) branch sq = Some v" "version_in (run_state run) v" using version by blast
    with check_lookup_passes [OF R v(2)] same [OF g] OpLookup show ?thesis by (simp add: run_op_def)
  next
    case (OpDelete branch)
    with gen_delete [OF g, of branch] same show ?thesis by (auto simp: run_op_def)
  next
    case OpNewRoot
    with gen_root [OF g n] same [OF g] show ?thesis by (auto simp: run_op_def)
  qed
qed

lemma run_ops_from_total:
  assumes "gen_inv n t run" "list_all valid_op ops" "n + length ops \<le> u32_max" "t + sum_list (map op_tokens ops) \<le> u64_max"
  shows "\<exists>run' stamps'. run_ops_from (run, stamps) i ops = Some (run', stamps')"
  using assms
proof (induction ops arbitrary: n t run stamps i)
  case Nil
  then show ?case by (simp add: check_everything_reachable gen_inv_def)
next
  case (Cons op ops)
  obtain run1 stamps1 where r: "run_op (run, stamps) op = Some (run1, stamps1)" "gen_inv (Suc n) (t + op_tokens op) run1"
    using run_op_total [OF Cons.prems(1), of op stamps] Cons.prems by auto
  have "check_everything test_env run1 keys = Some ()" for keys
    using r(2) by (simp add: check_everything_reachable gen_inv_def)
  with r Cons.IH [OF r(2), of stamps1 "i + 1"] Cons.prems show ?case by auto
qed

lemma run_ops_total:
  assumes "list_all valid_op ops" "Suc (length ops) \<le> u32_max" "0 < tokens" "tokens + sum_list (map op_tokens ops) \<le> u64_max"
  shows "\<exists>run stamps'. run_ops tokens stamps ops = Some (run, stamps')"
proof -
  let ?r0 = "\<lparr>run_state = core_new, run_model = model_new, run_eps_seen = [], run_tokens = tokens\<rparr> :: test_run"
  obtain c run where r: "run_new_root ?r0 = Some (c, run)" and gr: "grown core_new c None (run_state run)" "run_tokens run = tokens"
    using run_new_root_total [of test_env ?r0] by (auto simp: run_inv_empty core_new_views(5))
  have new: "run_new tokens = Some (run, c)" using r by (simp add: run_new_def)
  have "gen_inv 1 tokens run"
    using reachable.start [OF new] gr assms(3)
    by (auto simp: gen_inv_def grown_def split_keys_def slot_keys_def is_asserted_def core_new_def is_live_def seq_FIRST_def)
  from run_ops_from_total [OF this assms(1)] assms(2,4) new show ?thesis by (simp add: run_ops_def)
qed

end
