(* ===== verification/Dice_Collections.thy ===== *)
theory Dice_Collections
  imports Prelude "HOL-Library.Word"
begin

text \<open>
  The hasher of the key-indexed collections, \<^verbatim>\<open>dice/dice_core/src/collections.rs\<close>, on machine
  words: an exclusive or and a wrapping multiplication by an odd constant. Hashing a key index is
  injective, so two keys never share a full 64-bit hash.
\<close>

unbundle bit_operations_syntax

section \<open>collections.rs\<close>

definition key_hasher_write_u32 :: "64 word \<Rightarrow> 32 word \<Rightarrow> 64 word" where
  "key_hasher_write_u32 h i = (h XOR ucast i) * 0x9e3779b97f4a7c15"

definition key_hasher_write :: "64 word \<Rightarrow> 8 word list \<Rightarrow> 64 word" where
  "key_hasher_write h bytes = foldl (\<lambda>h b. key_hasher_write_u32 h (ucast b)) h bytes"

text \<open>\<^verbatim>\<open>build_hasher\<close> starts from 0, the derived \<^verbatim>\<open>Hash\<close> of \<^verbatim>\<open>Key\<close> writes its index, and
  \<^verbatim>\<open>finish\<close> returns the state.\<close>

definition hash_key :: "32 word \<Rightarrow> 64 word" where
  "hash_key i = key_hasher_write_u32 0 i"

section \<open>Lemmas\<close>

text \<open>The multiplier of the key hasher is odd, so hashing keys loses nothing: distinct keys have
  distinct hashes.\<close>

lemma hasher_multiplier_unit: "(0x9e3779b97f4a7c15 :: 64 word) * 0xf1de83e19937733d = 1"
  by simp

lemma hash_key_inverse: "hash_key i * 0xf1de83e19937733d = (ucast i :: 64 word)"
  unfolding hash_key_def key_hasher_write_u32_def
  by (simp only: mult.assoc hasher_multiplier_unit mult_1_right) simp

lemma hash_key_injective: "hash_key i = hash_key j \<Longrightarrow> i = j"
proof -
  assume "hash_key i = hash_key j"
  then have "(ucast i :: 64 word) = ucast j" by (metis hash_key_inverse)
  then have "uint (ucast i :: 64 word) = uint (ucast j :: 64 word)" by simp
  then have "uint i mod 18446744073709551616 = uint j mod 18446744073709551616"
    by (simp add: unsigned_ucast_eq take_bit_eq_mod)
  moreover have "uint k < 18446744073709551616" for k :: "32 word"
    using uint_lt2p [of k] by simp
  ultimately have "uint i = uint j" by (simp add: mod_pos_pos_trivial)
  then show "i = j" by (simp only: word_uint_eq_iff)
qed

end
