(* ===== verification/Admission_State.thy ===== *)
theory Admission_State
  imports Dice_Ids
begin

text \<open>
  The admission of concurrent commands, \<^verbatim>\<open>app/buck2_concurrency/src/lib.rs\<close>: the types, and the state
  of the coordinator with its decisions (\<^verbatim>\<open>CoordinatorState\<close>). Insertion-ordered maps are association lists;
  the cleanup future is a value of the type \<^typ>\<open>'f\<close>, the sending half of a channel a number. The counters
  are 64-bit and wrap. An internal error is \<^const>\<open>Inl\<close>, a panic \<^const>\<open>None\<close>.
\<close>

section \<open>Types\<close>

type_synonym command_id = nat
type_synonym attempt_id = nat
type_synonym trace_id = nat
type_synonym sender = nat
type_synonym 'v command_map = "(command_id \<times> 'v) list"
type_synonym traces = "trace_id list"

datatype run_state = NestedSameState | ParallelSameState

datatype bypass_semaphore = BypassRun run_state | BypassBlock | BypassError

datatype preemptible_when = Never | Always | OnDifferentState

datatype exit_when = ExitNever | ExitDifferentState | ExitNotIdle

record command_data =
  cd_trace_id :: trace_id
  cd_display_command :: string
  cd_preemption_setting :: preemptible_when
  cd_preempt :: "sender option"

record admission_request =
  rq_command_id :: command_id
  rq_command :: command_data
  rq_is_nested :: bool
  rq_exit_when :: exit_when

record pending_command =
  pc_request :: admission_request
  pc_update_attempt :: "attempt_id option"

record completed_update =
  cu_attempt :: attempt_id
  cu_version :: version
  cu_conflict_on_arrival :: "version option"
  cu_dice_was_draining :: bool

record nested_invocation_warning =
  nw_running :: traces
  nw_display_command :: string

record blocking_command =
  bc_trace_id :: trace_id
  bc_display_command :: string

datatype admitted_state =
    Fresh (tainted: bool) (previously_tainted: bool)
  | Concurrent run_state bool

record admitted_command =
  ac_state :: admitted_state
  ac_nested_warning :: "nested_invocation_warning option"

datatype admission_decision =
    RejectDifferentState traces bool
  | RetryAfterCleanup
  | Admit admitted_command
  | StartCleanup nat
  | RejectNestedDifferentState nested_invocation_warning
  | DecideBlock blocking_command

datatype 'f pre_update_decision =
    WaitForCleanupStart
  | WaitForCleanup 'f nat
  | RejectNotIdle traces
  | Update attempt_id "version option"

datatype admission_effect = Preempt command_id sender | DiceEquality bool

type_synonym admission_effects = "admission_effect list"

datatype pending_admission_decision =
    Retain admission_decision admission_effects
  | AdmitPending admitted_state admission_effects

datatype 'f dice_status =
    Available "version option"
  | CleanupStarting nat
  | Cleanup 'f nat

datatype 'f admission_event =
    CleanupPrepared nat 'f
  | CleanupCompletedEvent nat
  | CommandExited command_id

datatype state_effect = NoEffect | WakeWaiters

datatype admission_error =
    AlreadyRegistered command_id
  | NotPending command_id
  | AttemptNotCurrent attempt_id command_id
  | LaneRequestedTwice command_id
  | NotLaneOwner command_id
  | CleanupRetryNotCleaning
  | Retired

record 'f coordinator_state =
  dice_status :: "'f dice_status"
  active_commands :: "command_data command_map"
  pending_commands :: "pending_command command_map"
  next_update_attempt :: nat
  cleanup_epoch :: nat
  state_tainted :: bool

definition usize_succ :: "nat \<Rightarrow> nat" where
  "usize_succ n = (n + 1) mod (u64_max + 1)"

definition contains_command :: "'v command_map \<Rightarrow> command_id \<Rightarrow> bool" where
  "contains_command m c = (map_of m c \<noteq> None)"


section \<open>Effects\<close>

definition determine_bypass_semaphore :: "bool \<Rightarrow> bool \<Rightarrow> bypass_semaphore" where
  "determine_bypass_semaphore is_same_state is_nested_invocation =
     (if is_same_state
      then (if is_nested_invocation then BypassRun NestedSameState else BypassRun ParallelSameState)
      else if is_nested_invocation then BypassError else BypassBlock)"

definition running :: "command_data command_map \<Rightarrow> traces" where
  "running active = map (cd_trace_id \<circ> snd) active"

definition running_and :: "command_data command_map \<Rightarrow> command_data \<Rightarrow> traces" where
  "running_and active current = map cd_trace_id (map snd active @ [current])"

definition preempts :: "bool \<Rightarrow> preemptible_when \<Rightarrow> bool" where
  "preempts is_same_state setting =
     (case setting of Never \<Rightarrow> False | OnDifferentState \<Rightarrow> \<not> is_same_state | Always \<Rightarrow> True)"

text \<open>The iterator of \<^verbatim>\<open>after_state_comparison\<close>: the effects, and the commands with the senders taken.\<close>

fun take_preemptions :: "bool \<Rightarrow> command_data command_map \<Rightarrow> admission_effects \<times> command_data command_map" where
  "take_preemptions same [] = ([], [])"
| "take_preemptions same ((c, d) # rest) =
     (let (es, rest') = take_preemptions same rest in
      case cd_preempt d of
        Some sender \<Rightarrow>
          if preempts same (cd_preemption_setting d)
          then (Preempt c sender # es, (c, d\<lparr>cd_preempt := None\<rparr>) # rest')
          else (es, (c, d) # rest')
      | None \<Rightarrow> (es, (c, d) # rest'))"

definition after_state_comparison ::
  "'f coordinator_state \<Rightarrow> bool \<Rightarrow> admission_effects \<times> 'f coordinator_state" where
  "after_state_comparison st is_same_state =
     (let (preemptions, active) = take_preemptions is_same_state (active_commands st);
          st' = st\<lparr>active_commands := active\<rparr>
      in if is_same_state then (DiceEquality True # preemptions, st')
         else (preemptions @ [DiceEquality False], st'))"

definition restore_preemption :: "'f coordinator_state \<Rightarrow> admission_effect \<Rightarrow> 'f coordinator_state" where
  "restore_preemption st effect =
     (case effect of
        DiceEquality _ \<Rightarrow> st
      | Preempt command sender \<Rightarrow>
          (case map_of (active_commands st) command of
             Some d \<Rightarrow>
               if cd_preempt d = None
               then st\<lparr>active_commands := AList.update command (d\<lparr>cd_preempt := Some sender\<rparr>) (active_commands st)\<rparr>
               else st
           | None \<Rightarrow> st))"

definition restore_preemptions :: "admission_effects \<Rightarrow> 'f coordinator_state \<Rightarrow> 'f coordinator_state" where
  "restore_preemptions effects st = foldl restore_preemption st effects"


section \<open>CoordinatorState\<close>

definition idle :: "'f dice_status" where
  "idle = Available None"

definition has_no_active_commands :: "'f coordinator_state \<Rightarrow> bool" where
  "has_no_active_commands st = (active_commands st = [])"

definition register_command ::
  "'f coordinator_state \<Rightarrow> command_id \<Rightarrow> command_data \<Rightarrow> (admission_error + 'f coordinator_state)" where
  "register_command st command data =
     (if contains_command (active_commands st) command then Inl (AlreadyRegistered command)
      else Inr (st\<lparr>active_commands := AList.update command data (active_commands st)\<rparr>))"

definition ensure_update_attempt_current ::
  "'f coordinator_state \<Rightarrow> command_id \<Rightarrow> attempt_id \<Rightarrow> (admission_error + unit)" where
  "ensure_update_attempt_current st command attempt =
     (case map_of (pending_commands st) command of
        None \<Rightarrow> Inl (NotPending command)
      | Some pending \<Rightarrow>
          if pc_update_attempt pending \<noteq> Some attempt then Inl (AttemptNotCurrent attempt command)
          else Inr ())"

definition decide_before_update ::
  "'f coordinator_state \<Rightarrow> admission_request \<Rightarrow> attempt_id \<Rightarrow> 'f pre_update_decision" where
  "decide_before_update st request attempt =
     (case dice_status st of
        CleanupStarting _ \<Rightarrow> WaitForCleanupStart
      | Cleanup fut epoch \<Rightarrow> WaitForCleanup fut epoch
      | Available active \<Rightarrow>
          if rq_exit_when request = ExitNotIdle \<and> active_commands st \<noteq> []
          then RejectNotIdle (running (active_commands st))
          else Update attempt (if active_commands st \<noteq> [] then active else None))"

definition decide_before_update_for ::
  "'f coordinator_state \<Rightarrow> command_id \<Rightarrow> (admission_error + 'f pre_update_decision) \<times> 'f coordinator_state" where
  "decide_before_update_for st command =
     (let attempt = next_update_attempt st in
      case map_of (pending_commands st) command of
        None \<Rightarrow> (Inl (NotPending command), st)
      | Some pending \<Rightarrow>
          (let decision = decide_before_update st (pc_request pending) attempt in
           case decision of
             Update _ _ \<Rightarrow>
               (Inr decision,
                st\<lparr>next_update_attempt := usize_succ (next_update_attempt st),
                   pending_commands := AList.update command (pending\<lparr>pc_update_attempt := Some attempt\<rparr>) (pending_commands st)\<rparr>)
           | _ \<Rightarrow>
               (Inr decision,
                st\<lparr>pending_commands := AList.update command (pending\<lparr>pc_update_attempt := None\<rparr>) (pending_commands st)\<rparr>)))"

definition begin_admission ::
  "'f coordinator_state \<Rightarrow> admission_request \<Rightarrow> (admission_error + 'f pre_update_decision) \<times> 'f coordinator_state" where
  "begin_admission st request =
     (let command = rq_command_id request in
      if contains_command (active_commands st) command \<or> contains_command (pending_commands st) command
      then (Inl (AlreadyRegistered command), st)
      else decide_before_update_for
             (st\<lparr>pending_commands := AList.update command
                   \<lparr>pc_request = request, pc_update_attempt = None\<rparr> (pending_commands st)\<rparr>) command)"

definition begin_cleanup :: "'f coordinator_state \<Rightarrow> (nat \<times> 'f coordinator_state) option" where
  "begin_cleanup st =
     (if \<not> has_no_active_commands st then None
      else (let epoch = usize_succ (cleanup_epoch st) in
            Some (epoch, st\<lparr>cleanup_epoch := epoch, dice_status := CleanupStarting epoch\<rparr>)))"

text \<open>\<^verbatim>\<open>apply_event\<close>; the exit of a command that is not active panics.\<close>

definition apply_event :: "'f coordinator_state \<Rightarrow> 'f admission_event \<Rightarrow> (state_effect \<times> 'f coordinator_state) option" where
  "apply_event st event =
     (case event of
        CleanupPrepared request fut \<Rightarrow>
          if dice_status st = CleanupStarting request
          then Some (WakeWaiters, st\<lparr>dice_status := Cleanup fut request\<rparr>)
          else Some (NoEffect, st)
      | CleanupCompletedEvent epoch \<Rightarrow>
          (case dice_status st of
             Cleanup _ active_epoch \<Rightarrow>
               if active_epoch = epoch then Some (NoEffect, st\<lparr>dice_status := idle\<rparr>) else Some (NoEffect, st)
           | _ \<Rightarrow> Some (NoEffect, st))
      | CommandExited command \<Rightarrow>
          (case map_of (active_commands st) command of
             None \<Rightarrow> None
           | Some _ \<Rightarrow>
               (let st' = st\<lparr>active_commands := AList.delete command (active_commands st)\<rparr> in
                Some (if has_no_active_commands st' then WakeWaiters else NoEffect, st'))))"

definition ensure_command_can_register :: "'f coordinator_state \<Rightarrow> command_id \<Rightarrow> (admission_error + unit)" where
  "ensure_command_can_register st command =
     (if contains_command (active_commands st) command then Inl (AlreadyRegistered command) else Inr ())"

definition retain_after_comparison ::
  "admission_decision \<Rightarrow> 'f coordinator_state \<Rightarrow> pending_admission_decision \<times> 'f coordinator_state" where
  "retain_after_comparison decision st =
     (let (effects, st') = after_state_comparison st False in (Retain decision effects, st'))"

text \<open>\<^verbatim>\<open>decide_after_update\<close>, in the order of the code: the state, the assertions and the errors.\<close>

definition decide_after_update ::
  "'f coordinator_state \<Rightarrow> admission_request \<Rightarrow> completed_update
   \<Rightarrow> ((admission_error + pending_admission_decision) \<times> 'f coordinator_state) option" where
  "decide_after_update st request update =
     (if rq_exit_when request = ExitDifferentState \<and> \<not> rq_is_nested request
         \<and> (case cu_conflict_on_arrival update of None \<Rightarrow> False | Some v \<Rightarrow> cu_version update \<noteq> v)
      then Some (Inr (Retain (RejectDifferentState (running (active_commands st)) False) []), st)
      else case dice_status st of
        CleanupStarting _ \<Rightarrow> Some (Inr (Retain RetryAfterCleanup []), st)
      | Cleanup _ _ \<Rightarrow> Some (Inr (Retain RetryAfterCleanup []), st)
      | Available None \<Rightarrow>
          if \<not> has_no_active_commands st then None
          else (case ensure_command_can_register st (rq_command_id request) of
                  Inl e \<Rightarrow> Some (Inl e, st)
                | Inr _ \<Rightarrow>
                    (let tainted = cu_dice_was_draining update; prev = state_tainted st in
                     Some (Inr (AdmitPending (Fresh tainted prev) []),
                           st\<lparr>dice_status := Available (Some (cu_version update)),
                              state_tainted := prev \<or> tainted\<rparr>)))
      | Available (Some active_version) \<Rightarrow>
          (let is_same_state = (cu_version update = active_version) in
           if \<not> is_same_state \<and> has_no_active_commands st
           then do {
             (epoch, st') \<leftarrow> begin_cleanup st;
             Some (Inr (Retain (StartCleanup epoch) []), st') }
           else case determine_bypass_semaphore is_same_state (rq_is_nested request) of
             BypassError \<Rightarrow>
               (let warning = \<lparr>nw_running = running_and (active_commands st) (rq_command request),
                               nw_display_command = cd_display_command (rq_command request)\<rparr>;
                    (d, st') = retain_after_comparison (RejectNestedDifferentState warning) st
                in Some (Inr d, st'))
           | BypassRun state \<Rightarrow>
               (case ensure_command_can_register st (rq_command_id request) of
                  Inl e \<Rightarrow> Some (Inl e, st)
                | Inr _ \<Rightarrow>
                    (let (effects, st') = after_state_comparison st True
                     in Some (Inr (AdmitPending (Concurrent state (state_tainted st')) effects), st')))
           | BypassBlock \<Rightarrow>
               if rq_exit_when request = ExitDifferentState
               then (let (d, st') = retain_after_comparison
                           (RejectDifferentState (running (active_commands st)) True) st
                     in Some (Inr d, st'))
               else (case active_commands st of
                       [] \<Rightarrow> None
                     | (_, active) # _ \<Rightarrow>
                         (let blocking = \<lparr>bc_trace_id = cd_trace_id active,
                                          bc_display_command = cd_display_command active\<rparr>;
                              (d, st') = retain_after_comparison (DecideBlock blocking) st
                          in Some (Inr d, st')))))"

definition admit_command ::
  "'f coordinator_state \<Rightarrow> admission_request \<Rightarrow> admitted_state
   \<Rightarrow> (admission_decision \<times> 'f coordinator_state) option" where
  "admit_command st request state =
     (let nested_warning =
            (case state of
               Concurrent NestedSameState _ \<Rightarrow>
                 Some \<lparr>nw_running = running_and (active_commands st) (rq_command request),
                       nw_display_command = cd_display_command (rq_command request)\<rparr>
             | _ \<Rightarrow> None)
      in case register_command st (rq_command_id request) (rq_command request) of
           Inl _ \<Rightarrow> None
         | Inr st' \<Rightarrow> Some (Admit \<lparr>ac_state = state, ac_nested_warning = nested_warning\<rparr>, st'))"

definition decide_after_update_for ::
  "'f coordinator_state \<Rightarrow> command_id \<Rightarrow> completed_update
   \<Rightarrow> ((admission_error + admission_decision \<times> admission_effects) \<times> 'f coordinator_state) option" where
  "decide_after_update_for st command update =
     (case ensure_update_attempt_current st command (cu_attempt update) of
        Inl e \<Rightarrow> Some (Inl e, st)
      | Inr _ \<Rightarrow> do {
          pending \<leftarrow> map_of (pending_commands st) command;
          let request = pc_request pending;
          let st1 = st\<lparr>pending_commands := AList.delete command (pending_commands st)\<rparr>;
          (result, st2) \<leftarrow> decide_after_update st1 request update;
          let st3 = st2\<lparr>pending_commands := AList.update command
                          \<lparr>pc_request = request, pc_update_attempt = None\<rparr> (pending_commands st2)\<rparr>;
          (case result of
             Inr (AdmitPending state effects) \<Rightarrow> do {
               (decision, st') \<leftarrow> admit_command st2 request state;
               Some (Inr (decision, effects), st') }
           | Inr (Retain decision effects) \<Rightarrow> Some (Inr (decision, effects), st3)
           | Inl e \<Rightarrow> Some (Inl e, st3)) })"

definition queued_traces :: "'f coordinator_state \<Rightarrow> command_id \<Rightarrow> traces" where
  "queued_traces st asking =
     map (\<lambda>(_, pending). cd_trace_id (rq_command (pc_request pending)))
       (filter (\<lambda>(queued, _). queued \<noteq> asking) (pending_commands st))"

definition release_pending_or_active ::
  "'f coordinator_state \<Rightarrow> command_id \<Rightarrow> (state_effect \<times> 'f coordinator_state) option" where
  "release_pending_or_active st command =
     (if contains_command (pending_commands st) command
      then Some (NoEffect, st\<lparr>pending_commands := AList.delete command (pending_commands st)\<rparr>)
      else if contains_command (active_commands st) command then apply_event st (CommandExited command)
      else Some (NoEffect, st))"

lemmas admission_defs = contains_command_def determine_bypass_semaphore_def
  has_no_active_commands_def register_command_def ensure_update_attempt_current_def
  decide_before_update_def decide_before_update_for_def begin_admission_def begin_cleanup_def apply_event_def
  ensure_command_can_register_def retain_after_comparison_def decide_after_update_def admit_command_def
  decide_after_update_for_def release_pending_or_active_def after_state_comparison_def idle_def

end
