(* ===== verification/Admission_Task.thy ===== *)
theory Admission_Task
  imports Admission_State
begin

text \<open>
  The coordinator task of \<^verbatim>\<open>app/buck2_concurrency/src/lib.rs\<close> (\<^verbatim>\<open>AdmissionCoordinatorTask\<close>): its
  handling of one message. What it sends is a list of outputs; the sending half of a reply channel is not kept,
  since a command waits for one reply at a time, and \<open>alive c\<close> says whether command \<open>c\<close> still waits for
  its. The handle \<open>fut\<close> is what \<^verbatim>\<open>dice.wait_for_idle()\<close> returns.
\<close>

section \<open>Messages and outputs\<close>

datatype message =
    Retire
  | Begin admission_request
  | BeforeUpdate command_id
  | AcquireUpdate command_id attempt_id
  | MoveToBranch command_id attempt_id branch_id bool
  | AfterUpdate command_id completed_update
  | CleanupCompleted nat "command_id option"
  | QueuedTraces command_id
  | Release command_id bool

datatype 'f post_update_decision =
    Outcome admission_decision admission_effects
  | AwaitCleanup 'f nat
  | PostBlock blocking_command admission_effects

datatype 'f reply =
    ReplyBefore command_id "admission_error + 'f pre_update_decision"
  | ReplyAcquire command_id "admission_error + branch_id"
  | ReplyMove command_id "admission_error + unit"
  | ReplyAfter command_id "admission_error + 'f post_update_decision"
  | ReplyCleanup command_id
  | ReplyQueued command_id traces
  | ReplyRelease command_id
  | Wake command_id
  | FinishAbandonedCleanup 'f nat
  | RetireBranch branch_id

record 'f admission_task =
  task_data :: "'f coordinator_state"
  task_branch :: branch_id
  update_in_flight :: "(command_id \<times> attempt_id) option"
  update_waiters :: "(command_id \<times> attempt_id) list"
  blocked_waiters :: "command_id list"
  retiring :: bool

definition task_new :: "branch_id \<Rightarrow> 'f admission_task" where
  "task_new branch =
     \<lparr>task_data = \<lparr>dice_status = idle, active_commands = [], pending_commands = [], next_update_attempt = 0,
                    cleanup_epoch = 0, state_tainted = False\<rparr>,
      task_branch = branch, update_in_flight = None, update_waiters = [], blocked_waiters = [], retiring = False\<rparr>"


section \<open>The handlers\<close>

text \<open>A reply reaches the command if it still waits.\<close>

definition send_reply :: "(command_id \<Rightarrow> bool) \<Rightarrow> command_id \<Rightarrow> 'f reply \<Rightarrow> 'f reply list" where
  "send_reply alive command reply = (if alive command then [reply] else [])"

definition apply_effect :: "'f admission_task \<Rightarrow> state_effect \<Rightarrow> 'f admission_task \<times> 'f reply list" where
  "apply_effect t eff =
     (case eff of
        WakeWaiters \<Rightarrow> (t\<lparr>blocked_waiters := []\<rparr>, map Wake (blocked_waiters t))
      | NoEffect \<Rightarrow> (t, []))"

text \<open>The loop of \<^verbatim>\<open>grant_next_update\<close>: the waiters left, the lane's holder, the replies.\<close>

fun grant_loop ::
  "(command_id \<Rightarrow> bool) \<Rightarrow> 'f coordinator_state \<Rightarrow> branch_id \<Rightarrow> (command_id \<times> attempt_id) list
   \<Rightarrow> (command_id \<times> attempt_id) list \<times> (command_id \<times> attempt_id) option \<times> 'f reply list" where
  "grant_loop alive st branch [] = ([], None, [])"
| "grant_loop alive st branch ((command, attempt) # waiters) =
     (case ensure_update_attempt_current st command attempt of
        Inl error \<Rightarrow>
          (let (ws, lane, out) = grant_loop alive st branch waiters
           in (ws, lane, send_reply alive command (ReplyAcquire command (Inl error)) @ out))
      | Inr _ \<Rightarrow>
          if alive command then (waiters, Some (command, attempt), [ReplyAcquire command (Inr branch)])
          else grant_loop alive st branch waiters)"

definition grant_next_update :: "(command_id \<Rightarrow> bool) \<Rightarrow> 'f admission_task \<Rightarrow> 'f admission_task \<times> 'f reply list" where
  "grant_next_update alive t =
     (if update_in_flight t \<noteq> None then (t, [])
      else (let (ws, lane, out) = grant_loop alive (task_data t) (task_branch t) (update_waiters t)
            in (t\<lparr>update_waiters := ws, update_in_flight := lane\<rparr>, out)))"

definition acquire_update ::
  "(command_id \<Rightarrow> bool) \<Rightarrow> 'f admission_task \<Rightarrow> command_id \<Rightarrow> attempt_id \<Rightarrow> 'f admission_task \<times> 'f reply list" where
  "acquire_update alive t command attempt =
     (case ensure_update_attempt_current (task_data t) command attempt of
        Inl error \<Rightarrow> (t, send_reply alive command (ReplyAcquire command (Inl error)))
      | Inr _ \<Rightarrow>
          if map_option fst (update_in_flight t) = Some command
             \<or> list_ex (\<lambda>(waiter, _). waiter = command) (update_waiters t)
          then (t, send_reply alive command (ReplyAcquire command (Inl (LaneRequestedTwice command))))
          else grant_next_update alive (t\<lparr>update_waiters := update_waiters t @ [(command, attempt)]\<rparr>))"

definition move_to_branch ::
  "'f admission_task \<Rightarrow> command_id \<Rightarrow> attempt_id \<Rightarrow> branch_id \<Rightarrow> (admission_error + unit) \<times> 'f admission_task" where
  "move_to_branch t command attempt branch =
     (if update_in_flight t \<noteq> Some (command, attempt) then (Inl (NotLaneOwner command), t)
      else (Inr (), t\<lparr>task_branch := branch\<rparr>))"

definition finish_update ::
  "(command_id \<Rightarrow> bool) \<Rightarrow> 'f admission_task \<Rightarrow> command_id \<Rightarrow> attempt_id \<Rightarrow> 'f admission_task \<times> 'f reply list" where
  "finish_update alive t command attempt =
     (if update_in_flight t = Some (command, attempt)
      then grant_next_update alive (t\<lparr>update_in_flight := None\<rparr>)
      else (t, []))"

definition release_command ::
  "(command_id \<Rightarrow> bool) \<Rightarrow> 'f admission_task \<Rightarrow> command_id \<Rightarrow> ('f admission_task \<times> 'f reply list) option" where
  "release_command alive t command = do {
     let t1 = t\<lparr>blocked_waiters := filter (\<lambda>c. c \<noteq> command) (blocked_waiters t),
                update_waiters := filter (\<lambda>(waiter, _). waiter \<noteq> command) (update_waiters t)\<rparr>;
     (eff, st) \<leftarrow> release_pending_or_active (task_data t1) command;
     let (t2, woken) = apply_effect (t1\<lparr>task_data := st\<rparr>) eff;
     (if map_option fst (update_in_flight t2) = Some command
      then (let (t3, granted) = grant_next_update alive (t2\<lparr>update_in_flight := None\<rparr>) in Some (t3, woken @ granted))
      else Some (t2, woken)) }"

text \<open>\<^verbatim>\<open>after_update\<close>; a second blocked wait of a command panics.\<close>

definition after_update ::
  "(command_id \<Rightarrow> bool) \<Rightarrow> 'f \<Rightarrow> 'f admission_task \<Rightarrow> command_id \<Rightarrow> completed_update
   \<Rightarrow> ((admission_error + 'f post_update_decision) \<times> 'f admission_task \<times> 'f reply list) option" where
  "after_update alive fut t command update =
     (if update_in_flight t \<noteq> Some (command, cu_attempt update) then Some (Inl (NotLaneOwner command), t, [])
      else do {
        (result, st) \<leftarrow> decide_after_update_for (task_data t) command update;
        let t1 = t\<lparr>task_data := st\<rparr>;
        (case result of
           Inl error \<Rightarrow> Some (Inl error, finish_update alive t1 command (cu_attempt update))
         | Inr (RetryAfterCleanup, effects) \<Rightarrow>
             (case dice_status st of
                Cleanup f epoch \<Rightarrow>
                  Some (Inr (AwaitCleanup f epoch), finish_update alive t1 command (cu_attempt update))
              | _ \<Rightarrow> Some (Inl CleanupRetryNotCleaning, finish_update alive t1 command (cu_attempt update)))
         | Inr (StartCleanup request, effects) \<Rightarrow> do {
             (eff, st2) \<leftarrow> apply_event st (CleanupPrepared request fut);
             let (t2, woken) = apply_effect (t1\<lparr>task_data := st2\<rparr>) eff;
             let (t3, granted) = finish_update alive t2 command (cu_attempt update);
             Some (Inr (AwaitCleanup fut request), t3, woken @ granted) }
         | Inr (DecideBlock blocking, effects) \<Rightarrow>
             if command \<in> set (blocked_waiters t1) then None
             else Some (Inr (PostBlock blocking effects),
                        finish_update alive (t1\<lparr>blocked_waiters := blocked_waiters t1 @ [command]\<rparr>) command (cu_attempt update))
         | Inr (decision, effects) \<Rightarrow>
             Some (Inr (Outcome decision effects), finish_update alive t1 command (cu_attempt update))) })"

definition respond ::
  "(command_id \<Rightarrow> bool) \<Rightarrow> 'f admission_task \<Rightarrow> command_id \<Rightarrow> bool \<Rightarrow> 'f reply \<Rightarrow> ('f admission_task \<times> 'f reply list) option" where
  "respond alive t command owns_command reply =
     (if alive command then Some (t, [reply])
      else if owns_command then release_command alive t command
      else Some (t, []))"

definition post_restore_preemptions :: "'f post_update_decision \<Rightarrow> 'f coordinator_state \<Rightarrow> 'f coordinator_state" where
  "post_restore_preemptions decision st =
     (case decision of
        Outcome _ effects \<Rightarrow> restore_preemptions effects st
      | PostBlock _ effects \<Rightarrow> restore_preemptions effects st
      | AwaitCleanup _ _ \<Rightarrow> st)"

definition respond_after_update ::
  "(command_id \<Rightarrow> bool) \<Rightarrow> 'f admission_task \<Rightarrow> command_id \<Rightarrow> bool \<Rightarrow> (admission_error + 'f post_update_decision)
   \<Rightarrow> ('f admission_task \<times> 'f reply list) option" where
  "respond_after_update alive t command owns_command result =
     (if alive command then Some (t, [ReplyAfter command result])
      else do {
        let (t1, out) =
              (case result of
                 Inl _ \<Rightarrow> (t, [])
               | Inr (AwaitCleanup f epoch) \<Rightarrow> (t, [FinishAbandonedCleanup f epoch])
               | Inr decision \<Rightarrow> (t\<lparr>task_data := post_restore_preemptions decision (task_data t)\<rparr>, []));
        (t2, released) \<leftarrow> (if owns_command then release_command alive t1 command else Some (t1, []));
        Some (t2, out @ released) })"

text \<open>One turn of the loop of \<^verbatim>\<open>run_with_branch_ownership\<close>.\<close>

definition handle ::
  "(command_id \<Rightarrow> bool) \<Rightarrow> 'f \<Rightarrow> 'f admission_task \<Rightarrow> message \<Rightarrow> ('f admission_task \<times> 'f reply list) option" where
  "handle alive fut t message =
     (case message of
        Retire \<Rightarrow> Some (t\<lparr>retiring := True\<rparr>, [])
      | Begin request \<Rightarrow>
          (let command = rq_command_id request;
               (result, st) = (if retiring t then (Inl Retired, task_data t) else begin_admission (task_data t) request)
           in respond alive (t\<lparr>task_data := st\<rparr>) command (\<not> isl result) (ReplyBefore command result))
      | BeforeUpdate command \<Rightarrow>
          (let (result, st) = decide_before_update_for (task_data t) command
           in respond alive (t\<lparr>task_data := st\<rparr>) command (contains_command (pending_commands st) command)
                (ReplyBefore command result))
      | AcquireUpdate command attempt \<Rightarrow> Some (acquire_update alive t command attempt)
      | MoveToBranch command attempt branch retire_previous \<Rightarrow> do {
          let previous = task_branch t;
          let (result, t1) = move_to_branch t command attempt branch;
          let retired = (if retire_previous then [RetireBranch (if isl result then branch else previous)] else []);
          (t2, out) \<leftarrow> respond alive t1 command (contains_command (pending_commands (task_data t1)) command)
                          (ReplyMove command result);
          Some (t2, retired @ out) }
      | AfterUpdate command update \<Rightarrow> do {
          (result, t1, out1) \<leftarrow> after_update alive fut t command update;
          (t2, out2) \<leftarrow> respond_after_update alive t1 command
             (contains_command (pending_commands (task_data t1)) command
              \<or> contains_command (active_commands (task_data t1)) command) result;
          Some (t2, out1 @ out2) }
      | CleanupCompleted epoch response \<Rightarrow> do {
          (eff, st) \<leftarrow> apply_event (task_data t) (CleanupCompletedEvent epoch);
          let (t1, woken) = apply_effect (t\<lparr>task_data := st\<rparr>) eff;
          Some (t1, woken @ (case response of None \<Rightarrow> [] | Some c \<Rightarrow> send_reply alive c (ReplyCleanup c))) }
      | QueuedTraces asking \<Rightarrow>
          Some (t, send_reply alive asking (ReplyQueued asking (queued_traces (task_data t) asking)))
      | Release command response \<Rightarrow> do {
          (t1, out) \<leftarrow> release_command alive t command;
          Some (t1, out @ (if response then send_reply alive command (ReplyRelease command) else [])) })"

text \<open>When the loop ends.\<close>

definition drained :: "'f admission_task \<Rightarrow> bool" where
  "drained t \<longleftrightarrow> retiring t \<and> active_commands (task_data t) = [] \<and> pending_commands (task_data t) = []
     \<and> update_in_flight t = None"

end
