(* ===== verification/Admission_Invariant.thy ===== *)
theory Admission_Invariant
  imports Admission_Task
begin

text \<open>
  The invariant of the coordinator task, kept by every message as long as a command asks to update again only
  after it was woken, and what it excludes: panics, and replies the commands do not expect.
\<close>

section \<open>The invariant\<close>

abbreviation pend :: "'f coordinator_state \<Rightarrow> command_id \<Rightarrow> pending_command option" where
  "pend st \<equiv> map_of (pending_commands st)"

abbreviation acts :: "'f coordinator_state \<Rightarrow> command_id list" where
  "acts st \<equiv> map fst (active_commands st)"

definition store_inv :: "'f coordinator_state \<Rightarrow> bool" where
  "store_inv st \<longleftrightarrow> distinct (map fst (pending_commands st)) \<and> distinct (acts st)
     \<and> (\<forall>c\<in>set (acts st). pend st c = None)
     \<and> (\<forall>c p. pend st c = Some p \<longrightarrow> rq_command_id (pc_request p) = c)
     \<and> (acts st \<noteq> [] \<longrightarrow> (\<exists>v. dice_status st = Available (Some v)))
     \<and> (\<forall>e. dice_status st \<noteq> CleanupStarting e)"

definition lane_inv ::
  "'f coordinator_state \<Rightarrow> (command_id \<times> attempt_id) option \<Rightarrow> (command_id \<times> attempt_id) list \<Rightarrow> bool" where
  "lane_inv st lane ws \<longleftrightarrow> (\<forall>c a. lane = Some (c, a) \<longrightarrow> pend st c \<noteq> None \<and> c \<notin> fst ` set ws)
     \<and> (\<forall>w\<in>set ws. pend st (fst w) \<noteq> None) \<and> distinct (map fst ws)"

definition blocked_inv :: "'f coordinator_state \<Rightarrow> command_id list \<Rightarrow> bool" where
  "blocked_inv st bs \<longleftrightarrow> distinct bs \<and> (\<forall>c\<in>set bs. \<exists>p. pend st c = Some p \<and> pc_update_attempt p = None)
     \<and> (bs \<noteq> [] \<longrightarrow> acts st \<noteq> [])"

definition task_inv :: "'f admission_task \<Rightarrow> bool" where
  "task_inv t \<longleftrightarrow> store_inv (task_data t) \<and> lane_inv (task_data t) (update_in_flight t) (update_waiters t)
     \<and> (update_in_flight t = None \<longrightarrow> update_waiters t = []) \<and> blocked_inv (task_data t) (blocked_waiters t)"

lemma task_invD:
  assumes "task_inv t"
  shows "store_inv (task_data t)" "lane_inv (task_data t) (update_in_flight t) (update_waiters t)"
    "update_in_flight t = None \<Longrightarrow> update_waiters t = []" "blocked_inv (task_data t) (blocked_waiters t)"
  using assms by (simp_all add: task_inv_def)

lemma contains_acts: "contains_command (active_commands st) c \<longleftrightarrow> c \<in> set (acts st)"
  by (simp add: contains_command_def map_of_eq_None)

lemma task_new_inv: "task_inv (task_new b)"
  by (simp add: task_inv_def task_new_def store_inv_def lane_inv_def blocked_inv_def idle_def)


section \<open>Decisions\<close>

lemma take_preemptions_keys: "map fst (snd (take_preemptions same m)) = map fst m"
  by (induction same m rule: take_preemptions.induct) (auto simp: Let_def split: prod.splits option.splits if_splits)

lemma after_state_comparison_frame:
  assumes "after_state_comparison st same = (es, st')"
  shows "acts st' = acts st" "pending_commands st' = pending_commands st" "dice_status st' = dice_status st"
  using assms take_preemptions_keys [of same "active_commands st"]
  by (auto simp: after_state_comparison_def Let_def split: prod.splits if_splits)

lemma restore_preemption_frame:
  "acts (restore_preemption st e) = acts st" "pending_commands (restore_preemption st e) = pending_commands st"
  "dice_status (restore_preemption st e) = dice_status st"
proof -
  have upd: "map fst (AList.update c d m) = map fst m" if "map_of m c \<noteq> None" for c d and m :: "command_data command_map"
    using that by (simp add: map_of_eq_None AList.update_keys)
  show "acts (restore_preemption st e) = acts st" "pending_commands (restore_preemption st e) = pending_commands st"
    "dice_status (restore_preemption st e) = dice_status st"
    using upd by (auto simp: restore_preemption_def split: admission_effect.splits option.splits)
qed

lemma restore_preemptions_frame:
  "acts (restore_preemptions es st) = acts st" "pending_commands (restore_preemptions es st) = pending_commands st"
  "dice_status (restore_preemptions es st) = dice_status st"
  unfolding restore_preemptions_def by (induction es arbitrary: st) (simp_all add: restore_preemption_frame)

text \<open>What \<^const>\<open>decide_after_update\<close> leaves, by its decision.\<close>

definition decided ::
  "'f coordinator_state \<Rightarrow> completed_update \<Rightarrow> pending_admission_decision \<Rightarrow> 'f coordinator_state \<Rightarrow> bool" where
  "decided st u d st' \<longleftrightarrow> pending_commands st' = pending_commands st \<and> acts st' = acts st
     \<and> (case d of
          AdmitPending _ _ \<Rightarrow> dice_status st' = Available (Some (cu_version u))
            \<and> (acts st = [] \<or> dice_status st = Available (Some (cu_version u)))
        | Retain (StartCleanup e) _ \<Rightarrow> dice_status st' = CleanupStarting e \<and> acts st = []
        | Retain (DecideBlock _) _ \<Rightarrow> dice_status st' = dice_status st \<and> acts st \<noteq> []
        | Retain RetryAfterCleanup _ \<Rightarrow> st' = st \<and> (\<exists>f e. dice_status st = Cleanup f e)
        | Retain (Admit _) _ \<Rightarrow> False
        | Retain _ _ \<Rightarrow> dice_status st' = dice_status st)"

lemma decide_after_update_decided:
  assumes act: "acts st \<noteq> [] \<Longrightarrow> \<exists>v. dice_status st = Available (Some v)"
    and starting: "\<And>e. dice_status st \<noteq> CleanupStarting e" and reg: "rq_command_id rq \<notin> set (acts st)"
  shows "\<exists>d st'. decide_after_update st rq u = Some (Inr d, st') \<and> decided st u d st'"
proof (cases "rq_exit_when rq = ExitDifferentState \<and> \<not> rq_is_nested rq
    \<and> (case cu_conflict_on_arrival u of None \<Rightarrow> False | Some v \<Rightarrow> cu_version u \<noteq> v)")
  case True
  then show ?thesis by (simp add: decide_after_update_def decided_def)
next
  case early: False
  have can: "ensure_command_can_register st (rq_command_id rq) = Inr ()"
    using reg by (simp add: ensure_command_can_register_def contains_acts)
  show ?thesis
  proof (cases "dice_status st")
    case (Available a)
    show ?thesis
    proof (cases a)
      case None
      then have "acts st = []" using act Available by auto
      then show ?thesis using early Available None can
        by (simp add: decide_after_update_def decided_def has_no_active_commands_def Let_def)
    next
      case (Some v)
      obtain es st1 where c1: "after_state_comparison st True = (es, st1)" by fastforce
      obtain fs st2 where c2: "after_state_comparison st False = (fs, st2)" by fastforce
      note f = after_state_comparison_frame [OF c1] after_state_comparison_frame [OF c2]
      have "active_commands st \<noteq> [] \<Longrightarrow> \<exists>x xs. active_commands st = x # xs" by (cases "active_commands st") auto
      then show ?thesis using early Available Some can f
        by (cases "active_commands st"; cases "cu_version u = v"; cases "rq_is_nested rq"; cases "rq_exit_when rq = ExitDifferentState")
          (auto simp: decide_after_update_def decided_def has_no_active_commands_def begin_cleanup_def
            determine_bypass_semaphore_def retain_after_comparison_def c1 c2 Let_def)
    qed
  qed (use early starting in \<open>auto simp: decide_after_update_def decided_def\<close>)
qed

text \<open>The same for a pending command.\<close>

definition decided_for ::
  "'f coordinator_state \<Rightarrow> command_id \<Rightarrow> admission_request \<Rightarrow> completed_update \<Rightarrow> admission_decision \<Rightarrow> 'f coordinator_state \<Rightarrow> bool" where
  "decided_for st c rq u dec st' \<longleftrightarrow>
     (case dec of
        Admit _ \<Rightarrow> pending_commands st' = AList.delete c (pending_commands st) \<and> acts st' = acts st @ [c]
          \<and> dice_status st' = Available (Some (cu_version u))
          \<and> (acts st = [] \<or> dice_status st = Available (Some (cu_version u)))
      | _ \<Rightarrow> pending_commands st' = AList.update c \<lparr>pc_request = rq, pc_update_attempt = None\<rparr> (AList.delete c (pending_commands st))
          \<and> acts st' = acts st
          \<and> (case dec of
               StartCleanup e \<Rightarrow> dice_status st' = CleanupStarting e \<and> acts st = []
             | DecideBlock _ \<Rightarrow> dice_status st' = dice_status st \<and> acts st \<noteq> []
             | RetryAfterCleanup \<Rightarrow> dice_status st' = dice_status st \<and> (\<exists>f e. dice_status st = Cleanup f e)
             | _ \<Rightarrow> dice_status st' = dice_status st))"

lemma update_keys_new: "c \<notin> set (map fst m) \<Longrightarrow> map fst (AList.update c d m) = map fst m @ [c]"
  by (induction m) auto

lemma decide_after_update_for_decided:
  assumes inv: "store_inv st" and p: "pend st c = Some p" "pc_update_attempt p = Some (cu_attempt u)"
  shows "\<exists>dec es st'. decide_after_update_for st c u = Some (Inr (dec, es), st') \<and> decided_for st c (pc_request p) u dec st'"
proof -
  let ?st1 = "st\<lparr>pending_commands := AList.delete c (pending_commands st)\<rparr>" and ?rq = "pc_request p"
  have id: "rq_command_id ?rq = c" and new: "c \<notin> set (acts st)" using inv p(1) by (auto simp: store_inv_def)
  have "\<exists>d st'. decide_after_update ?st1 ?rq u = Some (Inr d, st') \<and> decided ?st1 u d st'"
    by (rule decide_after_update_decided) (use inv id new in \<open>auto simp: store_inv_def\<close>)
  then obtain d st2 where d: "decide_after_update ?st1 ?rq u = Some (Inr d, st2)" "decided ?st1 u d st2" by blast
  have cur: "ensure_update_attempt_current st c (cu_attempt u) = Inr ()" using p by (simp add: ensure_update_attempt_current_def)
  show ?thesis
  proof (cases d)
    case (Retain dec es)
    with d p cur show ?thesis
      by (cases dec) (auto simp: decide_after_update_for_def decided_def decided_for_def)
  next
    case (AdmitPending s es)
    have "acts st2 = acts st" using d(2) by (simp add: decided_def)
    then have "\<not> contains_command (active_commands st2) c" "\<And>x. map fst (AList.update c x (active_commands st2)) = acts st @ [c]"
      using new update_keys_new [of c "active_commands st2"] by (simp_all add: contains_acts del: set_map)
    with d p cur AdmitPending id show ?thesis
      by (simp add: decide_after_update_for_def decided_def decided_for_def admit_command_def register_command_def Let_def)
  qed
qed

lemma decide_after_update_for_stale:
  assumes "\<nexists>p. pend st c = Some p \<and> pc_update_attempt p = Some (cu_attempt u)"
  shows "\<exists>e. decide_after_update_for st c u = Some (Inl e, st)"
  using assms by (auto simp: decide_after_update_for_def ensure_update_attempt_current_def split: option.splits)


section \<open>The lane\<close>

lemma ensure_current_iff:
  "ensure_update_attempt_current st c a = Inr () \<longleftrightarrow> (\<exists>p. pend st c = Some p \<and> pc_update_attempt p = Some a)"
  by (auto simp: ensure_update_attempt_current_def split: option.splits)

lemma grant_loop_Cons:
  assumes r: "grant_loop alive st b ws = (ws1, lane1, out1)" and g: "grant_loop alive st b ((c, a) # ws) = (ws', lane, out)"
  shows "(\<exists>e. ensure_update_attempt_current st c a = Inl e \<and> out = send_reply alive c (ReplyAcquire c (Inl e)) @ out1
        \<and> ws' = ws1 \<and> lane = lane1)
    \<or> ensure_update_attempt_current st c a = Inr () \<and> alive c \<and> ws' = ws \<and> lane = Some (c, a) \<and> out = [ReplyAcquire c (Inr b)]
    \<or> ensure_update_attempt_current st c a = Inr () \<and> \<not> alive c \<and> ws' = ws1 \<and> lane = lane1 \<and> out = out1"
  using assms by (cases "ensure_update_attempt_current st c a") (auto split: if_splits)

lemma grant_loop_split:
  "grant_loop alive st b ws = (ws', lane, out) \<Longrightarrow> \<exists>pre. ws = pre @ (case lane of None \<Rightarrow> [] | Some w \<Rightarrow> [w]) @ ws'"
proof (induction ws arbitrary: ws' lane out)
  case (Cons w ws)
  obtain c a where w: "w = (c, a)" by (cases w)
  obtain ws1 lane1 out1 where r: "grant_loop alive st b ws = (ws1, lane1, out1)" by (cases "grant_loop alive st b ws")
  have "\<exists>pre. w # ws = pre @ (case lane1 of None \<Rightarrow> [] | Some w \<Rightarrow> [w]) @ ws1"
    using Cons.IH [OF r] by (metis append_Cons)
  with grant_loop_Cons [OF r Cons.prems [unfolded w]] show ?case unfolding w by auto
qed simp

lemma grant_loop_lane:
  "grant_loop alive st b ws = (ws', lane, out) \<Longrightarrow> (lane = None \<longrightarrow> ws' = [])
    \<and> (\<forall>c a. lane = Some (c, a) \<longrightarrow> alive c \<and> ReplyAcquire c (Inr b) \<in> set out \<and> ensure_update_attempt_current st c a = Inr ())"
proof (induction ws arbitrary: ws' lane out)
  case (Cons w ws)
  obtain c a where w: "w = (c, a)" by (cases w)
  obtain ws1 lane1 out1 where r: "grant_loop alive st b ws = (ws1, lane1, out1)" by (cases "grant_loop alive st b ws")
  with grant_loop_Cons [OF r Cons.prems [unfolded w]] Cons.IH [OF r] show ?case by auto
qed simp

lemma grant_loop_replies:
  "grant_loop alive st b ws = (ws', lane, out) \<Longrightarrow> x \<in> set out \<Longrightarrow>
    (\<exists>c a. lane = Some (c, a) \<and> x = ReplyAcquire c (Inr b))
    \<or> (\<exists>c a e. (c, a) \<in> set ws \<and> alive c \<and> ensure_update_attempt_current st c a = Inl e \<and> x = ReplyAcquire c (Inl e))"
proof (induction ws arbitrary: ws' lane out)
  case (Cons w ws)
  obtain c a where w: "w = (c, a)" by (cases w)
  obtain ws1 lane1 out1 where r: "grant_loop alive st b ws = (ws1, lane1, out1)" by (cases "grant_loop alive st b ws")
  from grant_loop_Cons [OF r Cons.prems(1) [unfolded w]] show ?case
  proof (elim disjE exE conjE)
    fix e assume e: "ensure_update_attempt_current st c a = Inl e" "out = send_reply alive c (ReplyAcquire c (Inl e)) @ out1" "lane = lane1"
    show ?thesis
    proof (cases "x \<in> set out1")
      case True
      from Cons.IH [OF r True] e(3) show ?thesis by (metis list.set_intros(2))
    next
      case False
      with Cons.prems(2) e have "alive c" "x = ReplyAcquire c (Inl e)" by (auto simp: send_reply_def split: if_splits)
      with e(1) w show ?thesis by (metis list.set_intros(1))
    qed
  next
    assume "lane = Some (c, a)" "out = [ReplyAcquire c (Inr b)]"
    with Cons.prems(2) show ?thesis by simp
  next
    assume "lane = lane1" "out = out1"
    with Cons.IH [OF r] Cons.prems(2) show ?thesis by (metis list.set_intros(2))
  qed
qed simp

lemma lane_inv_grant:
  assumes "grant_loop alive st b ws = (ws', lane, out)" "lane_inv st None ws"
  shows "lane_inv st lane ws'" "lane = None \<Longrightarrow> ws' = []"
proof -
  from grant_loop_split [OF assms(1)] obtain pre where "ws = pre @ (case lane of None \<Rightarrow> [] | Some w \<Rightarrow> [w]) @ ws'" ..
  then show "lane_inv st lane ws'" using assms(2) by (cases lane) (auto simp: lane_inv_def image_iff)
qed (use grant_loop_lane [OF assms(1)] in simp)

text \<open>Freeing the lane and granting it to the next waiter.\<close>

lemma grant_next_update_correct:
  assumes "grant_next_update alive (t\<lparr>update_in_flight := None\<rparr>) = (t', out)" "lane_inv (task_data t) None (update_waiters t)"
  shows "task_data t' = task_data t" "blocked_waiters t' = blocked_waiters t" "task_branch t' = task_branch t" "retiring t' = retiring t"
    "lane_inv (task_data t') (update_in_flight t') (update_waiters t')" "update_in_flight t' = None \<Longrightarrow> update_waiters t' = []"
proof -
  obtain ws lane o1 where g: "grant_loop alive (task_data t) (task_branch t) (update_waiters t) = (ws, lane, o1)"
    by (cases "grant_loop alive (task_data t) (task_branch t) (update_waiters t)")
  have t': "t' = t\<lparr>update_waiters := ws, update_in_flight := lane\<rparr>" using assms(1) g by (simp add: grant_next_update_def)
  then show "task_data t' = task_data t" "blocked_waiters t' = blocked_waiters t" "task_branch t' = task_branch t" "retiring t' = retiring t"
    by simp_all
  show "lane_inv (task_data t') (update_in_flight t') (update_waiters t')" "update_in_flight t' = None \<Longrightarrow> update_waiters t' = []"
    using lane_inv_grant [OF g assms(2)] by (simp_all add: t')
qed

section \<open>Releasing a command\<close>

lemma map_fst_delete: "map fst (AList.delete c m) = filter (\<lambda>x. x \<noteq> c) (map fst m)"
  by (induction m) auto

lemma delete_absent: "map_of m c = None \<Longrightarrow> AList.delete c m = m"
  by (induction m) auto

lemma store_inv_pending:
  assumes "store_inv st" "distinct (map fst m)" "\<And>x. x \<in> set (acts st) \<Longrightarrow> map_of m x = None"
    "\<And>x p. map_of m x = Some p \<Longrightarrow> rq_command_id (pc_request p) = x"
  shows "store_inv (st\<lparr>pending_commands := m\<rparr>)"
  using assms(1) assms(2-) unfolding store_inv_def by (auto simp del: map_of_eq_Some_iff)

lemma release_pending_or_active_correct:
  assumes inv: "store_inv st"
  shows "\<exists>eff st'. release_pending_or_active st c = Some (eff, st') \<and> store_inv st'
    \<and> pending_commands st' = AList.delete c (pending_commands st) \<and> acts st' = filter (\<lambda>x. x \<noteq> c) (acts st)
    \<and> dice_status st' = dice_status st \<and> (eff = WakeWaiters \<longrightarrow> acts st' = []) \<and> (acts st \<noteq> [] \<longrightarrow> acts st' = [] \<longrightarrow> eff = WakeWaiters)"
proof -
  have dist: "distinct (map fst (pending_commands st))" "distinct (acts st)"
    and disj: "\<And>x. x \<in> set (acts st) \<Longrightarrow> pend st x = None"
    and rest: "\<And>x p. pend st x = Some p \<Longrightarrow> rq_command_id (pc_request p) = x"
      "acts st \<noteq> [] \<Longrightarrow> \<exists>v. dice_status st = Available (Some v)" "\<And>e. dice_status st \<noteq> CleanupStarting e"
    using inv by (auto simp: store_inv_def)
  show ?thesis
  proof (cases "pend st c")
    case (Some p)
    then have na: "c \<notin> set (acts st)" using disj by force
    then have fa: "filter (\<lambda>x. x \<noteq> c) (acts st) = acts st" by (simp add: filter_id_conv) (auto simp: image_iff)
    let ?st' = "st\<lparr>pending_commands := AList.delete c (pending_commands st)\<rparr>"
    have run: "release_pending_or_active st c = Some (NoEffect, ?st')"
      using Some by (simp add: release_pending_or_active_def contains_command_def)
    have "store_inv ?st'"
      by (rule store_inv_pending [OF inv]) (use dist disj rest(1) in \<open>auto simp: map_fst_delete split: if_splits\<close>)
    then show ?thesis using run fa by auto
  next
    case None
    then have dp: "AList.delete c (pending_commands st) = pending_commands st" by (rule delete_absent)
    show ?thesis
    proof (cases "c \<in> set (acts st)")
      case True
      let ?st' = "st\<lparr>active_commands := AList.delete c (active_commands st)\<rparr>"
      have run: "release_pending_or_active st c = Some (if has_no_active_commands ?st' then WakeWaiters else NoEffect, ?st')"
        using None True by (auto simp: release_pending_or_active_def contains_command_def apply_event_def map_of_eq_None split: option.splits)
      obtain v where "dice_status st = Available (Some v)" using rest(2) True by fastforce
      then have "store_inv ?st'" using dist disj rest(1) by (auto simp: store_inv_def map_fst_delete)
      then show ?thesis using run dp by (auto simp: map_fst_delete has_no_active_commands_def)
    next
      case False
      then have "filter (\<lambda>x. x \<noteq> c) (acts st) = acts st" by (simp add: filter_id_conv) (auto simp: image_iff)
      then show ?thesis using None False dp inv
        by (auto simp: release_pending_or_active_def contains_command_def map_of_eq_None)
    qed
  qed
qed

lemma release_command_correct:
  assumes inv: "task_inv t"
  shows "\<exists>t' out. release_command alive t c = Some (t', out) \<and> task_inv t'
    \<and> pending_commands (task_data t') = AList.delete c (pending_commands (task_data t))
    \<and> acts (task_data t') = filter (\<lambda>x. x \<noteq> c) (acts (task_data t))
    \<and> dice_status (task_data t') = dice_status (task_data t) \<and> retiring t' = retiring t"
proof -
  note I = task_invD [OF inv]
  from release_pending_or_active_correct [OF I(1), of c] obtain eff st' where r:
    "release_pending_or_active (task_data t) c = Some (eff, st')" "store_inv st'"
    "pending_commands st' = AList.delete c (pending_commands (task_data t))" "acts st' = filter (\<lambda>x. x \<noteq> c) (acts (task_data t))"
    "dice_status st' = dice_status (task_data t)" "eff = WakeWaiters \<longrightarrow> acts st' = []"
    "acts (task_data t) \<noteq> [] \<longrightarrow> acts st' = [] \<longrightarrow> eff = WakeWaiters" by (elim exE conjE) (rule that)
  let ?bs = "filter (\<lambda>x. x \<noteq> c) (blocked_waiters t)" and ?ws = "filter (\<lambda>(w, _). w \<noteq> c) (update_waiters t)"
  let ?t1 = "t\<lparr>blocked_waiters := ?bs, update_waiters := ?ws\<rparr>"
  obtain t2 woken where e: "apply_effect (?t1\<lparr>task_data := st'\<rparr>) eff = (t2, woken)" by fastforce
  have t2: "task_data t2 = st'" "update_in_flight t2 = update_in_flight t" "update_waiters t2 = ?ws" "retiring t2 = retiring t"
    "blocked_waiters t2 = (if eff = WakeWaiters then [] else ?bs)"
    using e by (auto simp: apply_effect_def split: state_effect.splits)
  have pend': "pend st' x = (if x = c then None else pend (task_data t) x)" for x by (simp add: r(3))
  have lane: "lane_inv st' None ?ws" "map_option fst (update_in_flight t) \<noteq> Some c \<Longrightarrow> lane_inv st' (update_in_flight t) ?ws"
    using I(2) by (auto simp: lane_inv_def pend' distinct_map_filter)
  have blocked: "blocked_inv st' (blocked_waiters t2)"
    using I(4) r(4-7) by (cases eff) (auto simp: blocked_inv_def t2 pend')
  show ?thesis
  proof (cases "map_option fst (update_in_flight t) = Some c")
    case True
    obtain t3 granted where g: "grant_next_update alive (t2\<lparr>update_in_flight := None\<rparr>) = (t3, granted)" by fastforce
    have run: "release_command alive t c = Some (t3, woken @ granted)"
      using r(1) e g True t2(2) by (simp add: release_command_def Let_def)
    note G = grant_next_update_correct [OF g, unfolded t2, OF lane(1)]
    have "task_inv t3" using G r(2) blocked by (simp add: task_inv_def t2)
    with run G r(3-5) t2 show ?thesis by simp
  next
    case False
    have run: "release_command alive t c = Some (t2, woken)"
      using r(1) e False t2(2) by (simp add: release_command_def Let_def)
    have "task_inv t2" using r(2) lane(2) [OF False] I(3) blocked by (simp add: task_inv_def t2)
    with run r(3-5) t2 show ?thesis by simp
  qed
qed

section \<open>Before an update\<close>

lemma task_inv_set_pending:
  assumes inv: "task_inv t" and c: "c \<notin> set (acts (task_data t))" "rq_command_id (pc_request p) = c"
    and blocked: "c \<in> set (blocked_waiters t) \<Longrightarrow> pc_update_attempt p = None"
    and st': "pending_commands st' = AList.update c p (pending_commands (task_data t))" "active_commands st' = active_commands (task_data t)"
      "dice_status st' = dice_status (task_data t)"
  shows "task_inv (t\<lparr>task_data := st'\<rparr>)"
proof -
  note I = task_invD [OF inv]
  have pend': "pend st' x = (if x = c then Some p else pend (task_data t) x)" for x by (simp add: st'(1))
  have "distinct (map fst (pending_commands st'))" using I(1) by (simp add: store_inv_def st'(1) distinct_keys_update)
  moreover have "pend st' x = None" if "x \<in> set (acts (task_data t))" for x using that c(1) I(1) by (auto simp: pend' store_inv_def)
  moreover have "rq_command_id (pc_request q) = x" if "pend st' x = Some q" for x q
    using that c(2) I(1) by (auto simp: pend' store_inv_def split: if_splits)
  ultimately have "store_inv st'" using I(1) unfolding store_inv_def st'(2,3) by blast
  moreover have "lane_inv st' (update_in_flight t) (update_waiters t)" using I(2) by (auto simp: lane_inv_def pend')
  moreover have "blocked_inv st' (blocked_waiters t)" using I(4) blocked by (auto simp: blocked_inv_def pend' st'(2))
  ultimately show ?thesis using I(3) by (simp add: task_inv_def)
qed

lemma decide_before_update_for_cases:
  obtains "pend st c = None" "decide_before_update_for st c = (Inl (NotPending c), st)"
  | p d n a where "pend st c = Some p"
    "decide_before_update_for st c = (Inr d, st\<lparr>next_update_attempt := n, pending_commands := AList.update c (p\<lparr>pc_update_attempt := a\<rparr>) (pending_commands st)\<rparr>)"
    "d = decide_before_update st (pc_request p) (next_update_attempt st)" "\<And>x v. d = Update x v \<Longrightarrow> a = Some x" "(\<nexists>x v. d = Update x v) \<Longrightarrow> a = None"
proof (cases "pend st c")
  case None
  then show ?thesis using that(1) by (simp add: decide_before_update_for_def)
next
  case (Some p)
  let ?d = "decide_before_update st (pc_request p) (next_update_attempt st)"
  show ?thesis
  proof (cases "\<exists>x v. ?d = Update x v")
    case True
    then obtain x v where "?d = Update x v" by blast
    moreover from this have "x = next_update_attempt st"
      by (auto simp: decide_before_update_def split: dice_status.splits if_splits)
    ultimately show ?thesis using Some
      by (intro that(2) [of p ?d "Some x" "usize_succ (next_update_attempt st)"]) (simp_all add: decide_before_update_for_def Let_def)
  next
    case False
    with Some show ?thesis
      by (intro that(2) [of p ?d None "next_update_attempt st"])
        (auto simp: decide_before_update_for_def Let_def split: pre_update_decision.splits)
  qed
qed

lemma decide_before_update_not_starting: "store_inv st \<Longrightarrow> decide_before_update st rq a \<noteq> WaitForCleanupStart"
  by (auto simp: decide_before_update_def store_inv_def split: dice_status.splits)

lemma decide_before_update_for_correct:
  assumes inv: "task_inv t" and nb: "c \<notin> set (blocked_waiters t)"
    and run: "decide_before_update_for (task_data t) c = (result, st)"
  shows "task_inv (t\<lparr>task_data := st\<rparr>)" "acts st = acts (task_data t)" "dice_status st = dice_status (task_data t)"
    "result \<noteq> Inr WaitForCleanupStart"
proof -
  note I = task_invD [OF inv]
  have "task_inv (t\<lparr>task_data := st\<rparr>) \<and> acts st = acts (task_data t) \<and> dice_status st = dice_status (task_data t)
    \<and> result \<noteq> Inr WaitForCleanupStart"
  proof (cases rule: decide_before_update_for_cases [of "task_data t" c])
    case 1
    with run inv show ?thesis by auto
  next
    case (2 p d n a)
    have "c \<notin> set (acts (task_data t))" "rq_command_id (pc_request p) = c" using I(1) 2(1) by (auto simp: store_inv_def)
    then have "task_inv (t\<lparr>task_data := st\<rparr>)"
      by (intro task_inv_set_pending [OF inv, of c "p\<lparr>pc_update_attempt := a\<rparr>"]) (use run 2(2) nb in auto)
    with run 2 decide_before_update_not_starting [OF I(1)] show ?thesis by auto
  qed
  then show "task_inv (t\<lparr>task_data := st\<rparr>)" "acts st = acts (task_data t)" "dice_status st = dice_status (task_data t)"
    "result \<noteq> Inr WaitForCleanupStart" by simp_all
qed

lemma begin_admission_correct:
  assumes inv: "task_inv t" and run: "begin_admission (task_data t) request = (result, st)"
  shows "task_inv (t\<lparr>task_data := st\<rparr>)" "acts st = acts (task_data t)" "dice_status st = dice_status (task_data t)"
    "result \<noteq> Inr WaitForCleanupStart"
proof -
  let ?c = "rq_command_id request"
  let ?st1 = "(task_data t)\<lparr>pending_commands := AList.update ?c \<lparr>pc_request = request, pc_update_attempt = None\<rparr> (pending_commands (task_data t))\<rparr>"
  have "task_inv (t\<lparr>task_data := st\<rparr>) \<and> acts st = acts (task_data t) \<and> dice_status st = dice_status (task_data t)
    \<and> result \<noteq> Inr WaitForCleanupStart"
  proof (cases "?c \<in> set (acts (task_data t)) \<or> pend (task_data t) ?c \<noteq> None")
    case True
    then have "begin_admission (task_data t) request = (Inl (AlreadyRegistered ?c), task_data t)"
      by (auto simp: begin_admission_def contains_command_def map_of_eq_None Let_def)
    with run inv show ?thesis by auto
  next
    case False
    then have run': "decide_before_update_for ?st1 ?c = (result, st)" and c: "?c \<notin> set (acts (task_data t))"
      using run by (simp_all add: begin_admission_def contains_command_def map_of_eq_None Let_def)
    have nb: "?c \<notin> set (blocked_waiters t)" using False task_invD(4) [OF inv] by (auto simp: blocked_inv_def)
    have inv1: "task_inv (t\<lparr>task_data := ?st1\<rparr>)"
      by (rule task_inv_set_pending [OF inv c, of "\<lparr>pc_request = request, pc_update_attempt = None\<rparr>"]) simp_all
    from decide_before_update_for_correct [OF inv1, of ?c result st] run' nb show ?thesis by simp
  qed
  then show "task_inv (t\<lparr>task_data := st\<rparr>)" "acts st = acts (task_data t)" "dice_status st = dice_status (task_data t)"
    "result \<noteq> Inr WaitForCleanupStart" by simp_all
qed

section \<open>After an update\<close>

text \<open>The lane freed and granted, when the coordinator state has become \<open>st\<close>.\<close>

lemma finish_update_correct:
  assumes run: "finish_update alive (t\<lparr>task_data := st, blocked_waiters := bs\<rparr>) c a = (t', out)"
    and lane: "update_in_flight t = Some (c, a)" and st: "store_inv st" "lane_inv st None (update_waiters t)" "blocked_inv st bs"
  shows "task_inv t'" "task_data t' = st" "blocked_waiters t' = bs" "task_branch t' = task_branch t" "retiring t' = retiring t"
proof -
  let ?t = "t\<lparr>task_data := st, blocked_waiters := bs\<rparr>"
  have g: "grant_next_update alive (?t\<lparr>update_in_flight := None\<rparr>) = (t', out)" using run lane by (simp add: finish_update_def)
  have "lane_inv (task_data ?t) None (update_waiters ?t)" using st(2) by simp
  note G = grant_next_update_correct [OF g this]
  show "task_data t' = st" "blocked_waiters t' = bs" "task_branch t' = task_branch t" "retiring t' = retiring t" using G by simp_all
  show "task_inv t'" using G st by (simp add: task_inv_def)
qed

text \<open>What the decision for a pending command leaves of the invariant.\<close>

lemma decided_for_inv:
  assumes inv: "task_inv t" and p: "pend (task_data t) c = Some p" "pc_update_attempt p = Some (cu_attempt u)"
    and lane: "update_in_flight t = Some (c, a)" and d: "decided_for (task_data t) c (pc_request p) u dec st"
  shows "lane_inv st None (update_waiters t)" "c \<notin> set (blocked_waiters t)"
    "(\<nexists>e. dec = StartCleanup e) \<Longrightarrow> store_inv st" "blocked_inv st (blocked_waiters t)"
proof -
  note I = task_invD [OF inv]
  let ?st = "task_data t" and ?q = "\<lparr>pc_request = pc_request p, pc_update_attempt = None\<rparr>"
  have id: "rq_command_id (pc_request p) = c" and na: "c \<notin> set (acts ?st)" using I(1) p(1) by (auto simp: store_inv_def)
  show nb: "c \<notin> set (blocked_waiters t)" using I(4) p by (auto simp: blocked_inv_def)
  have pend': "\<And>x. x \<noteq> c \<Longrightarrow> pend st x = pend ?st x" "pend st c = None \<or> pend st c = Some ?q"
    using d by (auto simp: decided_for_def split: admission_decision.splits)
  have dist: "distinct (map fst (pending_commands st))" using I(1) d
    by (auto simp: store_inv_def decided_for_def distinct_keys_update map_fst_delete split: admission_decision.splits)
  have ids: "rq_command_id (pc_request q) = x" if "pend st x = Some q" for x q
  proof (cases "x = c")
    case True
    with pend'(2) that id show ?thesis by auto
  next
    case False
    with pend'(1) that I(1) show ?thesis unfolding store_inv_def by metis
  qed
  have "pend st (fst w) \<noteq> None" if "w \<in> set (update_waiters t)" for w
  proof -
    have "fst w \<noteq> c" "pend ?st (fst w) \<noteq> None" using I(2) lane that by (auto simp: lane_inv_def)
    then show ?thesis using pend'(1) by simp
  qed
  then show "lane_inv st None (update_waiters t)" using I(2) by (simp add: lane_inv_def)
  have acts: "acts ?st \<noteq> [] \<Longrightarrow> acts st \<noteq> []" using d by (auto simp: decided_for_def split: admission_decision.splits)
  show "blocked_inv st (blocked_waiters t)"
    using I(4) pend'(1) nb acts unfolding blocked_inv_def by (metis)
  show "store_inv st" if nc: "\<nexists>e. dec = StartCleanup e"
  proof (cases "\<exists>x. dec = Admit x")
    case True
    with d have "acts st = acts ?st @ [c]" "dice_status st = Available (Some (cu_version u))" "pending_commands st = AList.delete c (pending_commands ?st)"
      by (auto simp: decided_for_def)
    with dist ids I(1) na show ?thesis unfolding store_inv_def by auto
  next
    case False
    with d nc have e: "acts st = acts ?st" "dice_status st = dice_status ?st" by (auto simp: decided_for_def split: admission_decision.splits)
    have "pend st x = None" if "x \<in> set (acts ?st)" for x using that na pend'(1) I(1) by (metis store_inv_def)
    with dist ids I(1) e show ?thesis unfolding store_inv_def by metis
  qed
qed

definition concluded ::
  "'f coordinator_state \<Rightarrow> command_id \<Rightarrow> completed_update \<Rightarrow> (admission_error + 'f post_update_decision) \<Rightarrow> 'f coordinator_state \<Rightarrow> bool" where
  "concluded st c u res st' \<longleftrightarrow>
     (if \<exists>x es. res = Inr (Outcome (Admit x) es)
      then acts st' = acts st @ [c] \<and> dice_status st' = Available (Some (cu_version u))
        \<and> (acts st = [] \<or> dice_status st = Available (Some (cu_version u)))
      else acts st' = acts st \<and> (acts st \<noteq> [] \<longrightarrow> dice_status st' = dice_status st))
     \<and> res \<noteq> Inl CleanupRetryNotCleaning
     \<and> (\<forall>d es. res = Inr (Outcome d es) \<longrightarrow> d \<noteq> RetryAfterCleanup \<and> (\<forall>e. d \<noteq> StartCleanup e) \<and> (\<forall>b. d \<noteq> DecideBlock b))"

lemma after_update_correct:
  assumes inv: "task_inv t"
  shows "\<exists>res t' out. after_update alive fut t c u = Some (res, t', out) \<and> task_inv t' \<and> retiring t' = retiring t
    \<and> concluded (task_data t) c u res (task_data t')"
proof (cases "update_in_flight t = Some (c, cu_attempt u)")
  case False
  then show ?thesis using inv by (simp add: after_update_def concluded_def)
next
  case lane: True
  note I = task_invD [OF inv]
  let ?st = "task_data t" and ?a = "cu_attempt u"
  have L: "lane_inv ?st None (update_waiters t)" using I(2) by (simp add: lane_inv_def)
  have fin: "\<exists>t' out. finish_update alive (t\<lparr>task_data := st, blocked_waiters := bs\<rparr>) c ?a = (t', out) \<and> task_inv t'
      \<and> task_data t' = st \<and> retiring t' = retiring t"
    if "store_inv st" "lane_inv st None (update_waiters t)" "blocked_inv st bs" for st bs
  proof -
    obtain t' out where f: "finish_update alive (t\<lparr>task_data := st, blocked_waiters := bs\<rparr>) c ?a = (t', out)" by fastforce
    from finish_update_correct [OF f lane that] f show ?thesis by blast
  qed
  have same: "t\<lparr>task_data := st, blocked_waiters := blocked_waiters t\<rparr> = t\<lparr>task_data := st\<rparr>" for st by simp
  show ?thesis
  proof (cases "\<exists>p. pend ?st c = Some p \<and> pc_update_attempt p = Some ?a")
    case False
    then obtain e where e: "decide_after_update_for ?st c u = Some (Inl e, ?st)" using decide_after_update_for_stale by metis
    from e have "e \<noteq> CleanupRetryNotCleaning" using False
      by (auto simp: decide_after_update_for_def ensure_update_attempt_current_def split: option.splits)
    with e fin [OF I(1) L I(4)] lane show ?thesis by (auto simp: after_update_def concluded_def)
  next
    case True
    then obtain p where p: "pend ?st c = Some p" "pc_update_attempt p = Some ?a" by blast
    from decide_after_update_for_decided [OF I(1) p] obtain dec es st where
      d: "decide_after_update_for ?st c u = Some (Inr (dec, es), st)" "decided_for ?st c (pc_request p) u dec st" by blast
    note D = decided_for_inv [OF inv p lane d(2)]
    show ?thesis
    proof (cases dec)
      case (StartCleanup e)
      with d(2) have sc: "dice_status st = CleanupStarting e" "acts ?st = []" "acts st = []" by (auto simp: decided_for_def)
      let ?st2 = "st\<lparr>dice_status := Cleanup fut e\<rparr>"
      have "store_inv ?st2"
        using I(1) d(2) StartCleanup p by (auto simp: store_inv_def decided_for_def distinct_keys_update map_fst_delete)
      moreover have "lane_inv ?st2 None (update_waiters t)" "blocked_inv ?st2 []" using D(1) by (simp_all add: lane_inv_def blocked_inv_def)
      ultimately obtain t' out where f: "finish_update alive (t\<lparr>task_data := ?st2, blocked_waiters := []\<rparr>) c ?a = (t', out)" "task_inv t'"
        "task_data t' = ?st2" "retiring t' = retiring t" using fin by blast
      show ?thesis using d(1) lane StartCleanup sc f
        by (auto simp: after_update_def apply_event_def apply_effect_def concluded_def Let_def)
    next
      case (DecideBlock b)
      with d(2) have bl: "acts st = acts ?st" "acts ?st \<noteq> []" "dice_status st = dice_status ?st" by (auto simp: decided_for_def)
      have "blocked_inv st (blocked_waiters t @ [c])"
        using D(2,4) bl d(2) DecideBlock by (auto simp: blocked_inv_def decided_for_def)
      with fin [OF D(3) D(1)] DecideBlock obtain t' out where f:
        "finish_update alive (t\<lparr>task_data := st, blocked_waiters := blocked_waiters t @ [c]\<rparr>) c ?a = (t', out)" "task_inv t'"
        "task_data t' = st" "retiring t' = retiring t" by blast
      show ?thesis using d(1) lane DecideBlock bl f D(2) by (auto simp: after_update_def concluded_def Let_def)
    next
      case RetryAfterCleanup
      with d(2) obtain f e where "acts st = acts ?st" "dice_status st = Cleanup f e" "dice_status ?st = Cleanup f e" by (auto simp: decided_for_def)
      with fin [OF D(3) D(1) D(4)] RetryAfterCleanup d(1) lane show ?thesis by (auto simp: after_update_def concluded_def same)
    qed (use fin [OF D(3) D(1) D(4)] d lane in \<open>auto simp: after_update_def concluded_def decided_for_def same\<close>)
  qed
qed

section \<open>Every message\<close>

text \<open>A command asks again only after it was woken.\<close>

definition orderly :: "'f admission_task \<Rightarrow> message \<Rightarrow> bool" where
  "orderly t m = (case m of BeforeUpdate c \<Rightarrow> c \<notin> set (blocked_waiters t) | _ \<Rightarrow> True)"

text \<open>What a message does to the running commands: only an update's reply admits a command, at the version of
  that update, and the others run at the same version.\<close>

definition admits_only ::
  "'f coordinator_state \<Rightarrow> message \<Rightarrow> 'f coordinator_state \<Rightarrow> bool" where
  "admits_only st m st' \<longleftrightarrow>
     (\<forall>c\<in>set (acts st'). c \<in> set (acts st)
        \<or> (\<exists>u. m = AfterUpdate c u \<and> dice_status st' = Available (Some (cu_version u))))
     \<and> (set (acts st) \<inter> set (acts st') \<noteq> {} \<longrightarrow> dice_status st' = dice_status st)"

lemma admits_only_refl:
  assumes "acts st' = acts st" "acts st \<noteq> [] \<longrightarrow> dice_status st' = dice_status st"
  shows "admits_only st m st'"
  using assms(2) unfolding admits_only_def assms(1) by auto

lemma admits_only_release:
  assumes "admits_only st m st1" "acts st2 = filter P (acts st1)" "dice_status st2 = dice_status st1"
  shows "admits_only st m st2"
  using assms by (auto simp: admits_only_def)

text \<open>The replies the commands treat as errors of the coordinator.\<close>

fun expected :: "'f reply \<Rightarrow> bool" where
  "expected (ReplyBefore c r) = (r \<noteq> Inr WaitForCleanupStart)"
| "expected (ReplyAfter c r) = (r \<noteq> Inl CleanupRetryNotCleaning
     \<and> (\<forall>d es. r = Inr (Outcome d es) \<longrightarrow> d \<noteq> RetryAfterCleanup \<and> (\<forall>e. d \<noteq> StartCleanup e) \<and> (\<forall>b. d \<noteq> DecideBlock b)))"
| "expected _ = True"

lemma grant_next_update_expected: "grant_next_update alive t = (t', out) \<Longrightarrow> x \<in> set out \<Longrightarrow> expected x"
  using grant_loop_replies [of alive "task_data t" "task_branch t" "update_waiters t" _ _ _ x]
  by (fastforce simp: grant_next_update_def split: if_splits prod.splits)

lemma apply_effect_expected: "apply_effect t e = (t', out) \<Longrightarrow> x \<in> set out \<Longrightarrow> expected x"
  by (auto simp: apply_effect_def split: state_effect.splits)

lemma finish_update_expected: "finish_update alive t c a = (t', out) \<Longrightarrow> x \<in> set out \<Longrightarrow> expected x"
  using grant_next_update_expected [of alive "t\<lparr>update_in_flight := None\<rparr>" t' out x]
  by (auto simp: finish_update_def split: if_splits)

lemma release_command_expected:
  assumes "release_command alive t c = Some (t', out)" "x \<in> set out"
  shows "expected x"
proof -
  let ?t1 = "t\<lparr>blocked_waiters := filter (\<lambda>x. x \<noteq> c) (blocked_waiters t), update_waiters := filter (\<lambda>(w, _). w \<noteq> c) (update_waiters t)\<rparr>"
  from assms(1) obtain eff st where r: "release_pending_or_active (task_data ?t1) c = Some (eff, st)"
    by (auto simp: release_command_def Let_def bind_eq_Some_conv)
  obtain t2 woken where e: "apply_effect (?t1\<lparr>task_data := st\<rparr>) eff = (t2, woken)" by fastforce
  obtain t3 granted where g: "grant_next_update alive (t2\<lparr>update_in_flight := None\<rparr>) = (t3, granted)" by fastforce
  have "out = woken \<or> out = woken @ granted" using assms(1) r e g by (auto simp: release_command_def Let_def split: if_splits)
  then show ?thesis using assms(2) apply_effect_expected [OF e] grant_next_update_expected [OF g] by auto
qed

lemma after_update_expected:
  assumes "after_update alive fut t c u = Some (r, t', out)" "x \<in> set out"
  shows "expected x"
proof (cases "update_in_flight t = Some (c, cu_attempt u)")
  case False
  then show ?thesis using assms by (simp add: after_update_def)
next
  case True
  then obtain result st where d: "decide_after_update_for (task_data t) c u = Some (result, st)"
    using assms(1) by (auto simp: after_update_def bind_eq_Some_conv)
  have "(\<exists>t1. finish_update alive t1 c (cu_attempt u) = (t', out))
    \<or> (\<exists>e1 t1 t2 t3 woken granted. apply_effect t1 e1 = (t2, woken) \<and> finish_update alive t2 c (cu_attempt u) = (t3, granted) \<and> out = woken @ granted)"
  proof (cases "\<exists>e es. result = Inr (StartCleanup e, es)")
    case True
    then obtain e es where re: "result = Inr (StartCleanup e, es)" by blast
    then obtain eff st2 where ev: "apply_event st (CleanupPrepared e fut) = Some (eff, st2)"
      using assms(1) d \<open>update_in_flight t = _\<close> by (auto simp: after_update_def bind_eq_Some_conv)
    obtain t2 woken where ae: "apply_effect (t\<lparr>task_data := st2\<rparr>) eff = (t2, woken)" by fastforce
    obtain t3 granted where f: "finish_update alive t2 c (cu_attempt u) = (t3, granted)" by fastforce
    have "out = woken @ granted" using assms(1) d re ev ae f \<open>update_in_flight t = _\<close> by (simp add: after_update_def)
    with ae f show ?thesis by blast
  next
    case False
    with assms(1) d \<open>update_in_flight t = _\<close> have "\<exists>t1. finish_update alive t1 c (cu_attempt u) = (t', out)"
      by (auto simp: after_update_def Let_def split: sum.splits admission_decision.splits dice_status.splits if_splits)
    then show ?thesis ..
  qed
  then show ?thesis using assms(2) finish_update_expected apply_effect_expected by (elim disjE exE conjE) (auto, blast+)
qed

lemma respond_correct:
  assumes inv: "task_inv t1" and ad: "admits_only st m (task_data t1)" and ex: "expected reply"
  shows "\<exists>t' out. respond alive t1 c owns reply = Some (t', out) \<and> task_inv t' \<and> admits_only st m (task_data t')
    \<and> (\<forall>x\<in>set out. expected x)"
proof (cases "alive c \<or> \<not> owns")
  case True
  then show ?thesis using assms by (auto simp: respond_def)
next
  case False
  from release_command_correct [OF inv, of alive c] obtain t' out where r: "release_command alive t1 c = Some (t', out)" "task_inv t'"
    "acts (task_data t') = filter (\<lambda>x. x \<noteq> c) (acts (task_data t1))" "dice_status (task_data t') = dice_status (task_data t1)" by blast
  with False admits_only_release [OF ad r(3,4)] release_command_expected [OF r(1)] show ?thesis by (auto simp: respond_def)
qed

text \<open>A command that is gone: the effects are undone, an abandoned cleanup is finished, the command is released.\<close>

lemma respond_after_update_gone:
  assumes "\<not> alive c"
  obtains t2 pre where "acts (task_data t2) = acts (task_data t1)" "pending_commands (task_data t2) = pending_commands (task_data t1)"
    "dice_status (task_data t2) = dice_status (task_data t1)" "update_in_flight t2 = update_in_flight t1"
    "update_waiters t2 = update_waiters t1" "blocked_waiters t2 = blocked_waiters t1"
    "\<And>x. x \<in> set pre \<Longrightarrow> \<exists>f e. x = FinishAbandonedCleanup f e"
    "respond_after_update alive t1 c owns result =
       (if owns then map_option (\<lambda>(t', out). (t', pre @ out)) (release_command alive t2 c) else Some (t2, pre))"
proof (rule that [of "case result of Inl _ \<Rightarrow> t1 | Inr (AwaitCleanup f epoch) \<Rightarrow> t1
      | Inr decision \<Rightarrow> t1\<lparr>task_data := post_restore_preemptions decision (task_data t1)\<rparr>"
      "case result of Inr (AwaitCleanup f epoch) \<Rightarrow> [FinishAbandonedCleanup f epoch] | _ \<Rightarrow> []"])
  show "respond_after_update alive t1 c owns result = (if owns
      then map_option (\<lambda>(t', out). (t', (case result of Inr (AwaitCleanup f epoch) \<Rightarrow> [FinishAbandonedCleanup f epoch] | _ \<Rightarrow> []) @ out))
        (release_command alive (case result of Inl _ \<Rightarrow> t1 | Inr (AwaitCleanup f epoch) \<Rightarrow> t1
          | Inr decision \<Rightarrow> t1\<lparr>task_data := post_restore_preemptions decision (task_data t1)\<rparr>) c)
      else Some (case result of Inl _ \<Rightarrow> t1 | Inr (AwaitCleanup f epoch) \<Rightarrow> t1
          | Inr decision \<Rightarrow> t1\<lparr>task_data := post_restore_preemptions decision (task_data t1)\<rparr>,
        case result of Inr (AwaitCleanup f epoch) \<Rightarrow> [FinishAbandonedCleanup f epoch] | _ \<Rightarrow> []))"
    using assms by (auto simp: respond_after_update_def map_option_case split: sum.splits post_update_decision.splits option.splits)
qed (auto simp: post_restore_preemptions_def restore_preemptions_frame split: sum.splits post_update_decision.splits)

lemma respond_after_update_correct:
  assumes inv: "task_inv t1" and ad: "admits_only st m (task_data t1)" and ex: "expected (ReplyAfter c result)"
  shows "\<exists>t' out. respond_after_update alive t1 c owns result = Some (t', out) \<and> task_inv t' \<and> admits_only st m (task_data t')
    \<and> (\<forall>x\<in>set out. expected x)"
proof (cases "alive c")
  case True
  then show ?thesis using assms by (auto simp: respond_after_update_def)
next
  case False
  then obtain t2 pre where frame: "acts (task_data t2) = acts (task_data t1)" "pending_commands (task_data t2) = pending_commands (task_data t1)"
    "dice_status (task_data t2) = dice_status (task_data t1)" "update_in_flight t2 = update_in_flight t1"
    "update_waiters t2 = update_waiters t1" "blocked_waiters t2 = blocked_waiters t1"
    and pre: "\<And>x. x \<in> set pre \<Longrightarrow> \<exists>f e. x = FinishAbandonedCleanup f e"
    and run: "respond_after_update alive t1 c owns result =
       (if owns then map_option (\<lambda>(t', out). (t', pre @ out)) (release_command alive t2 c) else Some (t2, pre))"
    by (rule respond_after_update_gone) (rule that)
  have inv2: "task_inv t2" using inv unfolding task_inv_def store_inv_def lane_inv_def blocked_inv_def frame .
  have ad2: "admits_only st m (task_data t2)" using ad by (simp add: admits_only_def frame)
  from release_command_correct [OF inv2, of alive c] obtain t' out where r: "release_command alive t2 c = Some (t', out)" "task_inv t'"
    "acts (task_data t') = filter (\<lambda>x. x \<noteq> c) (acts (task_data t2))" "dice_status (task_data t') = dice_status (task_data t2)" by blast
  from r(2) admits_only_release [OF ad2 r(3,4)] release_command_expected [OF r(1)] inv2 ad2 pre show ?thesis
    by (fastforce simp: run r(1))
qed

lemma concluded_admits:
  assumes "concluded st c u res st'"
  shows "admits_only st (AfterUpdate c u) st'"
proof (cases "\<exists>x es. res = Inr (Outcome (Admit x) es)")
  case True
  with assms have "set (acts st') = insert c (set (acts st))" "dice_status st' = Available (Some (cu_version u))"
    "set (acts st) = {} \<or> dice_status st = Available (Some (cu_version u))" by (auto simp: concluded_def)
  then show ?thesis unfolding admits_only_def by (metis insertE inf_bot_left)
next
  case False
  with assms have "acts st' = acts st" "acts st \<noteq> [] \<longrightarrow> dice_status st' = dice_status st" by (simp_all add: concluded_def)
  then show ?thesis by (rule admits_only_refl)
qed

theorem handle_correct:
  assumes inv: "task_inv t" and ord: "orderly t m"
  shows "\<exists>t' out. handle alive fut t m = Some (t', out) \<and> task_inv t' \<and> admits_only (task_data t) m (task_data t')
    \<and> (\<forall>x\<in>set out. expected x)"
proof (cases m)
  case Retire
  then show ?thesis using inv by (simp add: handle_def task_inv_def admits_only_refl)
next
  case (Begin request)
  obtain result st where b: "(if retiring t then (Inl Retired, task_data t) else begin_admission (task_data t) request) = (result, st)" by fastforce
  have B: "task_inv (t\<lparr>task_data := st\<rparr>) \<and> acts st = acts (task_data t) \<and> dice_status st = dice_status (task_data t) \<and> result \<noteq> Inr WaitForCleanupStart"
  proof (cases "retiring t")
    case False
    with b begin_admission_correct [OF inv, of request result st] show ?thesis by simp
  qed (use b inv in auto)
  have "admits_only (task_data t) m st" by (rule admits_only_refl) (use B in auto)
  with respond_correct [of "t\<lparr>task_data := st\<rparr>" "task_data t" m "ReplyBefore (rq_command_id request) result"
      alive "rq_command_id request" "\<not> isl result"] B b Begin
  show ?thesis by (auto simp: handle_def Let_def)
next
  case (BeforeUpdate c)
  obtain result st where b: "decide_before_update_for (task_data t) c = (result, st)" by fastforce
  have nb: "c \<notin> set (blocked_waiters t)" using ord BeforeUpdate by (simp add: orderly_def)
  note B = decide_before_update_for_correct [OF inv nb b]
  have "admits_only (task_data t) m st" by (rule admits_only_refl) (use B in auto)
  with respond_correct [of "t\<lparr>task_data := st\<rparr>" "task_data t" m "ReplyBefore c result" alive c "contains_command (pending_commands st) c"] B b BeforeUpdate
  show ?thesis by (auto simp: handle_def Let_def)
next
  case (AcquireUpdate c a)
  show ?thesis
  proof (cases "ensure_update_attempt_current (task_data t) c a = Inr () \<and> map_option fst (update_in_flight t) \<noteq> Some c
      \<and> c \<notin> fst ` set (update_waiters t)")
    case False
    then have "\<exists>out. acquire_update alive t c a = (t, out) \<and> (\<forall>x\<in>set out. expected x)"
      by (auto simp: acquire_update_def send_reply_def list_ex_iff split: sum.splits)
    with AcquireUpdate inv show ?thesis by (auto simp: handle_def admits_only_refl)
  next
    case True
    let ?t1 = "t\<lparr>update_waiters := update_waiters t @ [(c, a)]\<rparr>"
    note I = task_invD [OF inv]
    obtain t' out where g: "grant_next_update alive ?t1 = (t', out)" by fastforce
    have "\<not> list_ex (\<lambda>(w, _). w = c) (update_waiters t)" using True by (force simp: list_ex_iff)
    then have run: "acquire_update alive t c a = (t', out)" using True g by (simp add: acquire_update_def)
    have pc: "pend (task_data t) c \<noteq> None" using True by (auto simp: ensure_update_attempt_current_def split: option.splits)
    have "task_inv t' \<and> task_data t' = task_data t"
    proof (cases "update_in_flight t")
      case None
      then have "?t1 = ?t1\<lparr>update_in_flight := None\<rparr>" by simp
      then have g': "grant_next_update alive (?t1\<lparr>update_in_flight := None\<rparr>) = (t', out)" using g by simp
      have "lane_inv (task_data ?t1) None (update_waiters ?t1)" using I(3) [OF None] pc by (simp add: lane_inv_def)
      from grant_next_update_correct [OF g' this] I(1,4) show ?thesis by (simp add: task_inv_def)
    next
      case (Some w)
      then have "t' = ?t1" using g by (simp add: grant_next_update_def)
      then show ?thesis using Some I True pc by (auto simp: task_inv_def lane_inv_def)
    qed
    with run AcquireUpdate grant_next_update_expected [OF g] show ?thesis by (auto simp: handle_def admits_only_refl)
  qed
next
  case (MoveToBranch c a b ret)
  obtain result t1 where mv: "move_to_branch t c a b = (result, t1)" by fastforce
  have t1: "task_inv t1" "task_data t1 = task_data t" using mv inv by (auto simp: move_to_branch_def task_inv_def split: if_splits)
  have "admits_only (task_data t) m (task_data t1)" by (rule admits_only_refl) (simp_all add: t1)
  from respond_correct [OF t1(1) this, of "ReplyMove c result" alive c "contains_command (pending_commands (task_data t1)) c"]
  show ?thesis using mv MoveToBranch by (auto simp: handle_def Let_def)
next
  case (AfterUpdate c u)
  from after_update_correct [OF inv, of alive fut c u] obtain res t1 out1 where
    a: "after_update alive fut t c u = Some (res, t1, out1)" "task_inv t1" "concluded (task_data t) c u res (task_data t1)" by blast
  have ad: "admits_only (task_data t) m (task_data t1)"
    using concluded_admits [OF a(3)] AfterUpdate by simp
  have "expected (ReplyAfter c res)" using a(3) by (auto simp: concluded_def)
  from respond_after_update_correct [OF a(2) ad this, of alive] a(1) after_update_expected [OF a(1)]
  obtain t' out2 where "respond_after_update alive t1 c (contains_command (pending_commands (task_data t1)) c
      \<or> contains_command (active_commands (task_data t1)) c) res = Some (t', out2)" "task_inv t'" "admits_only (task_data t) m (task_data t')"
    "\<forall>x\<in>set out2. expected x" by blast
  with a(1) after_update_expected [OF a(1)] AfterUpdate show ?thesis by (auto simp: handle_def)
next
  case (CleanupCompleted e r)
  have "\<exists>st. apply_event (task_data t) (CleanupCompletedEvent e) = Some (NoEffect, st) \<and>
    (st = task_data t \<or> (\<exists>f. dice_status (task_data t) = Cleanup f e) \<and> st = (task_data t)\<lparr>dice_status := idle\<rparr>)"
    by (cases "dice_status (task_data t)") (auto simp: apply_event_def)
  then obtain st where ev: "apply_event (task_data t) (CleanupCompletedEvent e) = Some (NoEffect, st)"
    "st = task_data t \<or> (\<exists>f. dice_status (task_data t) = Cleanup f e) \<and> st = (task_data t)\<lparr>dice_status := idle\<rparr>" by blast
  have emp: "acts (task_data t) = []" if "dice_status (task_data t) = Cleanup f e" for f
    using that task_invD(1) [OF inv] by (auto simp: store_inv_def)
  have inv': "task_inv (t\<lparr>task_data := st\<rparr>)" using ev(2) emp inv
    by (auto simp: task_inv_def store_inv_def lane_inv_def blocked_inv_def idle_def)
  have "admits_only (task_data t) m st" by (rule admits_only_refl) (use ev(2) emp in auto)
  with inv' ev(1) CleanupCompleted show ?thesis
    by (auto simp: handle_def apply_effect_def send_reply_def split: option.splits)
next
  case (QueuedTraces c)
  with inv show ?thesis by (auto simp: handle_def admits_only_refl send_reply_def)
next
  case (Release c r)
  from release_command_correct [OF inv, of alive c] obtain t' out where rel: "release_command alive t c = Some (t', out)" "task_inv t'"
    "acts (task_data t') = filter (\<lambda>x. x \<noteq> c) (acts (task_data t))" "dice_status (task_data t') = dice_status (task_data t)" by blast
  have "admits_only (task_data t) m (task_data t')" by (rule admits_only_release [OF _ rel(3,4)]) (simp add: admits_only_refl)
  with rel release_command_expected [OF rel(1)] Release show ?thesis by (auto simp: handle_def send_reply_def)
qed

end
