(* ===== verification/Admission_Runs.thy ===== *)
theory Admission_Runs
  imports Admission_Invariant
begin

text \<open>
  Sequences of messages the coordinator of \<^verbatim>\<open>app/buck2_concurrency/src/lib.rs\<close> handles, with the version
  each running command was admitted at, and the properties of every such sequence.
\<close>

section \<open>Executions\<close>

text \<open>The versions the running commands were admitted at, after a message.\<close>

definition admitted_versions ::
  "version command_map \<Rightarrow> message \<Rightarrow> 'f admission_task \<Rightarrow> version command_map" where
  "admitted_versions g m t' = List.map_filter (\<lambda>(c, _). map_option (Pair c)
     (case map_of g c of
        Some v \<Rightarrow> Some v
      | None \<Rightarrow> (case m of AfterUpdate c' u \<Rightarrow> if c' = c then Some (cu_version u) else None | _ \<Rightarrow> None)))
     (active_commands (task_data t'))"

lemma map_of_map_filter_keys:
  "map_of (List.map_filter (\<lambda>(c, _). map_option (Pair c) (f c)) m) c = (if c \<in> fst ` set m then f c else None)"
proof (induction m)
  case (Cons x m)
  then show ?case by (cases x; cases "f (fst x)") (auto simp: List.map_filter_simps)
qed (simp add: List.map_filter_simps)

lemma map_of_admitted_versions:
  "map_of (admitted_versions g m t') c =
     (if c \<in> set (acts (task_data t'))
      then (case map_of g c of
              Some v \<Rightarrow> Some v
            | None \<Rightarrow> (case m of AfterUpdate c' u \<Rightarrow> if c' = c then Some (cu_version u) else None | _ \<Rightarrow> None))
      else None)"
  by (simp add: admitted_versions_def map_of_map_filter_keys)

inductive admission_run :: "'f admission_task \<Rightarrow> version command_map \<Rightarrow> bool" where
  start: "admission_run (task_new b) []"
| message: "admission_run t g \<Longrightarrow> orderly t m \<Longrightarrow> handle alive fut t m = Some (t', out)
    \<Longrightarrow> admission_run t' (admitted_versions g m t')"

lemma admission_run_inv: "admission_run t g \<Longrightarrow> task_inv t"
proof (induction rule: admission_run.induct)
  case (message t g m alive fut t' out)
  with handle_correct [of t m alive fut] show ?case by auto
qed (rule task_new_inv)

lemma admission_run_versions:
  "admission_run t g \<Longrightarrow> (\<forall>c. map_of g c \<noteq> None \<longrightarrow> c \<in> set (acts (task_data t)))
    \<and> (\<forall>c\<in>set (acts (task_data t)). \<exists>v. map_of g c = Some v \<and> dice_status (task_data t) = Available (Some v))"
proof (induction rule: admission_run.induct)
  case (start b)
  show ?case by (simp add: task_new_def)
next
  case (message t g m alive fut t' out)
  let ?st = "task_data t" and ?st' = "task_data t'"
  have ad: "admits_only ?st m ?st'"
    using handle_correct [OF admission_run_inv [OF message.hyps(1)] message.hyps(2), of alive fut] message.hyps(3) by auto
  have "\<exists>v. map_of (admitted_versions g m t') c = Some v \<and> dice_status ?st' = Available (Some v)" if c: "c \<in> set (acts ?st')" for c
  proof (cases "c \<in> set (acts ?st)")
    case True
    then obtain v where v: "map_of g c = Some v" "dice_status ?st = Available (Some v)" using message.IH by blast
    moreover have "dice_status ?st' = dice_status ?st" using ad True c unfolding admits_only_def by blast
    moreover have "map_of (admitted_versions g m t') c = map_of g c"
      using c v by (simp add: map_of_admitted_versions)
    ultimately show ?thesis by simp
  next
    case False
    then obtain u where "m = AfterUpdate c u" "dice_status ?st' = Available (Some (cu_version u))"
      using ad c unfolding admits_only_def by blast
    moreover have "map_of g c = None" using False message.IH by blast
    ultimately show ?thesis using c by (simp add: map_of_admitted_versions)
  qed
  moreover have "c \<in> set (acts ?st')" if "map_of (admitted_versions g m t') c \<noteq> None" for c
    using that by (simp add: map_of_admitted_versions split: if_splits)
  ultimately show ?case by blast
qed

text \<open>A sequence of messages, each with the commands that no longer wait for a reply.\<close>

fun handle_all ::
  "'f \<Rightarrow> 'f admission_task \<times> version command_map \<Rightarrow> (message \<times> command_id list) list
   \<Rightarrow> ('f admission_task \<times> version command_map) option" where
  "handle_all fut tg [] = Some tg"
| "handle_all fut (t, g) ((m, gone) # ms) =
     (if \<not> orderly t m then None
      else case handle (\<lambda>c. c \<notin> set gone) fut t m of
        None \<Rightarrow> None
      | Some (t', _) \<Rightarrow> handle_all fut (t', admitted_versions g m t') ms)"

lemma handle_all_run:
  "handle_all fut (t, g) ms = Some (t', g') \<Longrightarrow> admission_run t g \<Longrightarrow> admission_run t' g'"
proof (induction ms arbitrary: t g)
  case (Cons x ms)
  obtain m gone where x: "x = (m, gone)" by (cases x)
  from Cons.prems(1) obtain t1 out where h: "handle (\<lambda>c. c \<notin> set gone) fut t m = Some (t1, out)"
    "handle_all fut (t1, admitted_versions g m t1) ms = Some (t', g')" and o: "orderly t m"
    by (auto simp: x split: if_splits option.splits)
  from Cons.IH [OF h(2)] admission_run.message [OF Cons.prems(2) o h(1)] show ?case by simp
qed simp


section \<open>Preemption\<close>

text \<open>Restoring on the list of commands alone.\<close>

definition restore_in :: "command_data command_map \<Rightarrow> admission_effect \<Rightarrow> command_data command_map" where
  "restore_in m effect =
     (case effect of
        Preempt c s \<Rightarrow>
          (case map_of m c of
             Some d \<Rightarrow> if cd_preempt d = None then AList.update c (d\<lparr>cd_preempt := Some s\<rparr>) m else m
           | None \<Rightarrow> m)
      | DiceEquality _ \<Rightarrow> m)"

lemma restore_preemption_in: "restore_preemption st e = st\<lparr>active_commands := restore_in (active_commands st) e\<rparr>"
  by (auto simp: restore_preemption_def restore_in_def split: admission_effect.splits option.splits)

lemma restore_preemptions_in:
  "restore_preemptions es st = st\<lparr>active_commands := foldl restore_in (active_commands st) es\<rparr>"
  unfolding restore_preemptions_def by (induction es arbitrary: st) (simp_all add: restore_preemption_in)

lemma take_preemptions_effects: "e \<in> set (fst (take_preemptions same m)) \<Longrightarrow> \<exists>c s. e = Preempt c s \<and> c \<in> fst ` set m"
  by (induction same m rule: take_preemptions.induct) (auto simp: Let_def split: prod.splits option.splits if_splits)

lemma restore_in_Cons: "(\<And>e. e \<in> set es \<Longrightarrow> \<exists>c s. e = Preempt c s \<and> c \<noteq> fst x) \<Longrightarrow> foldl restore_in (x # m) es = x # foldl restore_in m es"
proof (induction es arbitrary: m)
  case (Cons e es)
  from Cons.prems [of e] obtain c s where "e = Preempt c s" "c \<noteq> fst x" by auto
  then have "restore_in (x # m) e = x # restore_in m e" by (cases x) (auto simp: restore_in_def split: option.splits)
  with Cons show ?case by simp
qed simp

lemma restore_take_preemptions:
  "distinct (map fst m) \<Longrightarrow> foldl restore_in (snd (take_preemptions same m)) (fst (take_preemptions same m)) = m"
proof (induction same m rule: take_preemptions.induct)
  case (2 same c d rest)
  obtain es rest' where t: "take_preemptions same rest = (es, rest')" by fastforce
  have IH: "foldl restore_in rest' es = rest" using 2 t by simp
  have other: "\<exists>c' s. e = Preempt c' s \<and> c' \<noteq> fst (c, x)" if "e \<in> set es" for e x
    using take_preemptions_effects [of e same rest] that t 2(2) by auto
  show ?case
  proof (cases "cd_preempt d \<noteq> None \<and> preempts same (cd_preemption_setting d)")
    case True
    then obtain s where s: "cd_preempt d = Some s" by auto
    have "restore_in ((c, d\<lparr>cd_preempt := None\<rparr>) # rest') (Preempt c s) = (c, d) # rest'" using s by (simp add: restore_in_def)
    with True s t IH restore_in_Cons [of es "(c, d)" rest'] other show ?thesis by simp
  next
    case False
    with t IH restore_in_Cons [of es "(c, d)" rest'] other show ?thesis by (auto split: option.splits)
  qed
qed simp

lemma restore_after_state_comparison:
  assumes "after_state_comparison st same = (es, st')" "distinct (acts st)"
  shows "restore_preemptions es st' = st"
proof -
  obtain ps active where t: "take_preemptions same (active_commands st) = (ps, active)" by fastforce
  have eq: "foldl restore_in active ps = active_commands st"
    using restore_take_preemptions [OF assms(2), of same] t by simp
  have noop: "restore_in m (DiceEquality b) = m" for m b by (simp add: restore_in_def)
  show ?thesis using assms(1) t eq
    by (auto simp: restore_preemptions_in after_state_comparison_def noop Let_def split: if_splits)
qed

end
