(* ===== verification/Admission_Client.thy ===== *)
theory Admission_Client
  imports Admission_Task
begin

text \<open>
  The commands of \<^verbatim>\<open>app/buck2_concurrency/src/lib.rs\<close> (\<^verbatim>\<open>ConcurrencyHandler::enter\<close> and what
  it calls), and the system of the coordinator, its message queue and the commands. The phase of a command is
  the point of \<^verbatim>\<open>enter\<close> it awaits at, with the values that live across it. What DICE, the file watcher,
  the observer and the command's own work answer are inputs. A transaction is its version.
\<close>

section \<open>The phases of a command\<close>

datatype command_error =
    CoordinatorError admission_error
  | CoordinatorStopped
  | UnpreparedCleanup
  | UnprocessedDecision
  | NestedInvocationWithSameStates traces string
  | NestedInvocationWithDifferentStates traces string
  | ExitWhenDifferentState traces traces
  | ExitOnPreemption
  | ExitOnDaemonNotIdle traces traces
  | UpdateFailed
  | ObserverFailed

record pending_update =
  pu_command :: command_id
  pu_attempt :: attempt_id
  pu_conflict_on_arrival :: "version option"
  pu_dice_was_draining :: bool

record ready_to_execute =
  rx_version :: version
  rx_admitted :: admitted_command
  rx_effects :: admission_effects

text \<open>The two errors that name the queue.\<close>

datatype rejection = NotIdle traces | DifferentState traces

datatype 'f phase =
    Outside
  | Starting admission_request
  | AwaitBefore
  | AwaitIdle 'f nat
  | AwaitCleanupAck nat
  | AwaitLane pending_update
  | Updating pending_update branch_id
  | Moving pending_update branch_id
  | Committing pending_update branch_id
  | AwaitAfter attempt_id version
  | WaitBlocked blocking_command nat nat
  | AwaitQueued rejection
  | Observing version
  | Executing version
  | Leaving "command_error + unit"
  | Left "command_error + unit"
  | Dropped

datatype command_event =
    SendPreempt command_id sender
  | DiceEqualityCheck bool
  | NoActiveDiceState
  | TagPreviouslyTainted
  | TagTainted
  | NestedInvocationSameState traces string
  | DiceCleanupStart nat
  | DiceCleanupEnd
  | DiceStateUpdateStart
  | DiceStateUpdateEnd
  | BlockStart blocking_command
  | BlockedWarning blocking_command nat
  | BlockEnd blocking_command
  | CommandPreempted
  | LeaseReleaseFailed

type_synonym 'f transition = "'f phase \<times> message list \<times> command_event list"

definition blocked_command_first_warning :: nat where
  "blocked_command_first_warning = 60"

definition blocked_command_warning_interval :: nat where
  "blocked_command_warning_interval = 5 * 60"


section \<open>What a command does\<close>

definition execute :: "admission_effects \<Rightarrow> command_event list" where
  "execute effects = map (\<lambda>effect. case effect of
     Preempt command sender \<Rightarrow> SendPreempt command sender
   | DiceEquality is_equal \<Rightarrow> DiceEqualityCheck is_equal) effects"

text \<open>\<^verbatim>\<open>CommandLease::release\<close>, after which \<^verbatim>\<open>enter\<close> returns the result.\<close>

definition leave :: "command_id \<Rightarrow> command_event list \<Rightarrow> (command_error + unit) \<Rightarrow> 'f transition" where
  "leave c events result = (Leaving result, [Release c True], events)"

definition await_cleanup :: "command_event list \<Rightarrow> 'f \<Rightarrow> nat \<Rightarrow> 'f transition" where
  "await_cleanup events fut epoch = (AwaitIdle fut epoch, [], events @ [DiceCleanupStart epoch])"

definition wait_for_blocked_command :: "admission_effects \<Rightarrow> blocking_command \<Rightarrow> 'f transition" where
  "wait_for_blocked_command effects blocking =
     (WaitBlocked blocking 0 blocked_command_first_warning, [], execute effects @ [BlockStart blocking])"

text \<open>\<^verbatim>\<open>finish_admission\<close> up to the observer; with hard errors the nested invocation's warning is returned.\<close>

definition finish_admission :: "bool \<Rightarrow> command_id \<Rightarrow> ready_to_execute \<Rightarrow> 'f transition" where
  "finish_admission hard_error c ready =
     (let (now_tainted, tainted_before, no_active_dice_state) =
            (case ac_state (rx_admitted ready) of
               Fresh now_tainted tainted_before \<Rightarrow> (now_tainted, tainted_before, True)
             | Concurrent _ tainted_before \<Rightarrow> (False, tainted_before, False));
          events = execute (rx_effects ready)
            @ (if no_active_dice_state then [NoActiveDiceState] else [])
            @ (if tainted_before then [TagPreviouslyTainted] else [])
            @ (if now_tainted then [TagTainted] else [])
      in case ac_nested_warning (rx_admitted ready) of
           None \<Rightarrow> (Observing (rx_version ready), [], events)
         | Some w \<Rightarrow>
             if hard_error
             then leave c events (Inl (NestedInvocationWithSameStates (nw_running w) (nw_display_command w)))
             else (Observing (rx_version ready), [],
                   events @ [NestedInvocationSameState (nw_running w) (nw_display_command w)]))"

text \<open>The loop of \<^verbatim>\<open>wait_for_others\<close>: the decision before the update, and the one after it.\<close>

definition before_decided :: "command_id \<Rightarrow> bool \<Rightarrow> 'f pre_update_decision \<Rightarrow> 'f transition" where
  "before_decided c draining before_update =
     (case before_update of
        WaitForCleanupStart \<Rightarrow> leave c [] (Inl UnpreparedCleanup)
      | WaitForCleanup fut epoch \<Rightarrow> await_cleanup [] fut epoch
      | RejectNotIdle busy \<Rightarrow> (AwaitQueued (NotIdle busy), [QueuedTraces c], [])
      | Update attempt conflict_on_arrival \<Rightarrow>
          (AwaitLane \<lparr>pu_command = c, pu_attempt = attempt, pu_conflict_on_arrival = conflict_on_arrival,
                      pu_dice_was_draining = draining\<rparr>, [AcquireUpdate c attempt], []))"

definition after_decided :: "bool \<Rightarrow> command_id \<Rightarrow> version \<Rightarrow> 'f post_update_decision \<Rightarrow> 'f transition" where
  "after_decided hard_error c transaction decision =
     (case decision of
        AwaitCleanup fut epoch \<Rightarrow> await_cleanup [] fut epoch
      | PostBlock blocking effects \<Rightarrow> wait_for_blocked_command effects blocking
      | Outcome (RejectDifferentState busy _) effects \<Rightarrow>
          (AwaitQueued (DifferentState busy), [QueuedTraces c], execute effects)
      | Outcome (Admit admitted) effects \<Rightarrow>
          finish_admission hard_error c \<lparr>rx_version = transaction, rx_admitted = admitted, rx_effects = effects\<rparr>
      | Outcome (RejectNestedDifferentState w) effects \<Rightarrow>
          leave c (execute effects) (Inl (NestedInvocationWithDifferentStates (nw_running w) (nw_display_command w)))
      | Outcome _ _ \<Rightarrow> leave c [] (Inl UnprocessedDecision))"

definition rejected :: "rejection \<Rightarrow> traces \<Rightarrow> command_error" where
  "rejected r queued =
     (case r of
        NotIdle busy \<Rightarrow> ExitOnDaemonNotIdle busy queued
      | DifferentState busy \<Rightarrow> ExitWhenDifferentState busy queued)"

text \<open>A reply of the coordinator to the request the command awaits; \<^const>\<open>None\<close> when it is not one of that type.\<close>

definition receive :: "bool \<Rightarrow> bool \<Rightarrow> command_id \<Rightarrow> 'f phase \<Rightarrow> 'f reply \<Rightarrow> 'f transition option" where
  "receive hard_error draining c phase reply =
     (case (phase, reply) of
        (AwaitBefore, ReplyBefore _ (Inl error)) \<Rightarrow> Some (leave c [] (Inl (CoordinatorError error)))
      | (AwaitBefore, ReplyBefore _ (Inr decision)) \<Rightarrow> Some (before_decided c draining decision)
      | (AwaitCleanupAck epoch, ReplyCleanup _) \<Rightarrow> Some (AwaitBefore, [BeforeUpdate c], [])
      | (AwaitLane p, ReplyAcquire _ (Inl error)) \<Rightarrow> Some (leave c [] (Inl (CoordinatorError error)))
      | (AwaitLane p, ReplyAcquire _ (Inr branch)) \<Rightarrow> Some (Updating p branch, [], [])
      | (Moving p branch, ReplyMove _ (Inl error)) \<Rightarrow> Some (leave c [] (Inl (CoordinatorError error)))
      | (Moving p branch, ReplyMove _ (Inr _)) \<Rightarrow> Some (Committing p branch, [], [DiceStateUpdateStart])
      | (AwaitAfter attempt transaction, ReplyAfter _ (Inl error)) \<Rightarrow> Some (leave c [] (Inl (CoordinatorError error)))
      | (AwaitAfter attempt transaction, ReplyAfter _ (Inr decision)) \<Rightarrow> Some (after_decided hard_error c transaction decision)
      | (WaitBlocked blocking waited next_warning, Wake _) \<Rightarrow> Some (AwaitBefore, [BeforeUpdate c], [BlockEnd blocking])
      | (AwaitQueued r, ReplyQueued _ queued) \<Rightarrow> Some (leave c [] (Inl (rejected r queued)))
      | (Leaving result, ReplyRelease _) \<Rightarrow> Some (Left result, [], [])
      | _ \<Rightarrow> None)"

text \<open>The coordinator has stopped: the request's channel is closed.\<close>

definition receive_stopped :: "command_id \<Rightarrow> 'f phase \<Rightarrow> 'f transition option" where
  "receive_stopped c phase =
     (case phase of
        AwaitBefore \<Rightarrow> Some (leave c [] (Inl CoordinatorStopped))
      | AwaitCleanupAck _ \<Rightarrow> Some (leave c [] (Inl CoordinatorStopped))
      | AwaitLane _ \<Rightarrow> Some (leave c [] (Inl CoordinatorStopped))
      | Moving _ _ \<Rightarrow> Some (leave c [] (Inl CoordinatorStopped))
      | AwaitAfter _ _ \<Rightarrow> Some (leave c [] (Inl CoordinatorStopped))
      | WaitBlocked blocking _ _ \<Rightarrow> Some (leave c [BlockEnd blocking] (Inl CoordinatorStopped))
      | AwaitQueued _ \<Rightarrow> Some (leave c [] (Inl CoordinatorStopped))
      | Leaving result \<Rightarrow> Some (Left result, [], [LeaseReleaseFailed])
      | _ \<Rightarrow> None)"

text \<open>What the command awaits other than the coordinator: DICE becoming idle, the file watcher's update (with the
  fresh root it moved to), the commit, the observer, the command's own work, its preemption, the warning's timer.\<close>

datatype input =
    IdleReached
  | UpdateDone "branch_id option"
  | UpdateError
  | CommitDone version
  | ObserverDone bool
  | ExecDone
  | PreemptReceived
  | TimerElapsed

definition complete_update :: "pending_update \<Rightarrow> version \<Rightarrow> 'f transition" where
  "complete_update pending transaction =
     (AwaitAfter (pu_attempt pending) transaction,
      [AfterUpdate (pu_command pending) \<lparr>cu_attempt = pu_attempt pending, cu_version = transaction,
         cu_conflict_on_arrival = pu_conflict_on_arrival pending,
         cu_dice_was_draining = pu_dice_was_draining pending\<rparr>],
      [DiceStateUpdateEnd])"

definition start_over :: "pending_update \<Rightarrow> branch_id \<Rightarrow> 'f transition" where
  "start_over pending fresh =
     (Moving pending fresh, [MoveToBranch (pu_command pending) (pu_attempt pending) fresh True], [])"

definition advance :: "command_id \<Rightarrow> bool \<Rightarrow> 'f phase \<Rightarrow> input \<Rightarrow> 'f transition option" where
  "advance c preempted phase inp =
     (case (phase, inp) of
        (AwaitIdle fut epoch, IdleReached) \<Rightarrow>
          Some (AwaitCleanupAck epoch, [CleanupCompleted epoch (Some c)], [DiceCleanupEnd])
      | (Updating p branch, UpdateDone None) \<Rightarrow> Some (Committing p branch, [], [DiceStateUpdateStart])
      | (Updating p branch, UpdateDone (Some fresh)) \<Rightarrow> Some (start_over p fresh)
      | (Updating p branch, UpdateError) \<Rightarrow> Some (leave c [] (Inl UpdateFailed))
      | (Committing p branch, CommitDone transaction) \<Rightarrow> Some (complete_update p transaction)
      | (Observing transaction, ObserverDone ok) \<Rightarrow>
          Some (if ok then (Executing transaction, [], []) else leave c [] (Inl ObserverFailed))
      | (Executing transaction, ExecDone) \<Rightarrow> Some (leave c [] (Inr ()))
      | (Executing transaction, PreemptReceived) \<Rightarrow>
          if preempted then Some (leave c [CommandPreempted] (Inl ExitOnPreemption)) else None
      | (WaitBlocked blocking waited next_warning, TimerElapsed) \<Rightarrow>
          Some (WaitBlocked blocking (waited + next_warning) blocked_command_warning_interval, [],
                [BlockedWarning blocking (waited + next_warning)])
      | _ \<Rightarrow> None)"

text \<open>A command dropped: the lease releases the command unless it already did.\<close>

definition drop_lease :: "command_id \<Rightarrow> 'f phase \<Rightarrow> message list option" where
  "drop_lease c phase =
     (case phase of
        Outside \<Rightarrow> None
      | Left _ \<Rightarrow> None
      | Dropped \<Rightarrow> None
      | Leaving _ \<Rightarrow> Some []
      | _ \<Rightarrow> Some [Release c False])"


section \<open>The system\<close>

record 'f client =
  cl_phase :: "'f phase"
  cl_inbox :: "'f reply list"
  cl_preempted :: bool
  cl_request :: "admission_request option"
  cl_events :: "command_event list"

record 'f system =
  sys_task :: "'f admission_task"
  sys_queue :: "message list"
  sys_clients :: "(command_id \<times> 'f client) list"
  sys_cleanups :: "nat list"
  sys_retired :: "branch_id list"
  next_command_id :: nat
  sys_stopped :: bool

definition system_new :: "branch_id \<Rightarrow> 'f system" where
  "system_new branch =
     \<lparr>sys_task = task_new branch, sys_queue = [], sys_clients = [], sys_cleanups = [], sys_retired = [],
      next_command_id = 0, sys_stopped = False\<rparr>"

definition client :: "'f system \<Rightarrow> command_id \<Rightarrow> 'f client" where
  "client s c =
     (case map_of (sys_clients s) c of
        None \<Rightarrow> \<lparr>cl_phase = Outside, cl_inbox = [], cl_preempted = False, cl_request = None, cl_events = []\<rparr>
      | Some k \<Rightarrow> k)"

definition set_client :: "command_id \<Rightarrow> 'f client \<Rightarrow> 'f system \<Rightarrow> 'f system" where
  "set_client c k s = s\<lparr>sys_clients := AList.update c k (sys_clients s)\<rparr>"

definition phase_of :: "'f system \<Rightarrow> command_id \<Rightarrow> 'f phase" where
  "phase_of s c = cl_phase (client s c)"

definition listening :: "'f system \<Rightarrow> command_id \<Rightarrow> bool" where
  "listening s c = (phase_of s c \<noteq> Dropped)"

text \<open>A message sent reaches the queue while the coordinator runs.\<close>

definition send :: "message list \<Rightarrow> 'f system \<Rightarrow> 'f system" where
  "send ms s = (if sys_stopped s then s else s\<lparr>sys_queue := sys_queue s @ ms\<rparr>)"

text \<open>The receiver of a command's preemption resolves when the sender is used, and also when it is dropped.\<close>

fun preempt_all :: "command_event list \<Rightarrow> 'f system \<Rightarrow> 'f system" where
  "preempt_all [] s = s"
| "preempt_all (e # es) s =
     preempt_all es (case e of SendPreempt c _ \<Rightarrow> set_client c ((client s c)\<lparr>cl_preempted := True\<rparr>) s | _ \<Rightarrow> s)"

text \<open>The command goes on to a phase, sending messages and emitting events.\<close>

definition go :: "command_id \<Rightarrow> 'f transition \<Rightarrow> 'f system \<Rightarrow> 'f system" where
  "go c adv s =
     (let (phase, ms, events) = adv;
          s1 = set_client c ((client s c)\<lparr>cl_phase := phase, cl_events := cl_events (client s c) @ events\<rparr>) s
      in preempt_all events (send ms s1))"

fun reply_target :: "'f reply \<Rightarrow> command_id option" where
  "reply_target (ReplyBefore c _) = Some c"
| "reply_target (ReplyAcquire c _) = Some c"
| "reply_target (ReplyMove c _) = Some c"
| "reply_target (ReplyAfter c _) = Some c"
| "reply_target (ReplyCleanup c) = Some c"
| "reply_target (ReplyQueued c _) = Some c"
| "reply_target (ReplyRelease c) = Some c"
| "reply_target (Wake c) = Some c"
| "reply_target _ = None"

definition deliver :: "'f reply \<Rightarrow> 'f system \<Rightarrow> 'f system" where
  "deliver r s =
     (case r of
        FinishAbandonedCleanup _ epoch \<Rightarrow> s\<lparr>sys_cleanups := sys_cleanups s @ [epoch]\<rparr>
      | RetireBranch b \<Rightarrow> s\<lparr>sys_retired := sys_retired s @ [b]\<rparr>
      | _ \<Rightarrow>
          (case reply_target r of
             None \<Rightarrow> s
           | Some c \<Rightarrow>
               if listening s c then set_client c ((client s c)\<lparr>cl_inbox := cl_inbox (client s c) @ [r]\<rparr>) s else s))"

definition deliver_all :: "'f reply list \<Rightarrow> 'f system \<Rightarrow> 'f system" where
  "deliver_all rs s = fold deliver rs s"

text \<open>The effects in the replies a dropped command has not read.\<close>

definition unread_effects :: "'f reply list \<Rightarrow> command_event list" where
  "unread_effects rs = concat (map (\<lambda>r. case r of
     ReplyAfter _ (Inr (Outcome _ effects)) \<Rightarrow> execute effects
   | ReplyAfter _ (Inr (PostBlock _ effects)) \<Rightarrow> execute effects
   | _ \<Rightarrow> []) rs)"

datatype 'f action =
    Enter admission_request
  | StartWaiting command_id
  | Coordinate 'f
  | Receive command_id bool
  | ReceiveStopped command_id
  | Input command_id input
  | DropCommand command_id
  | CleanupFinished nat
  | RetireHandler

datatype 'f performed = Disabled | Panicked | Next "'f system"

text \<open>One step; \<open>hard_error\<close> is the mode in which soft errors fail the command. The coordinator's step ends with the
  check that stops it.\<close>

definition coordinate :: "'f \<Rightarrow> 'f system \<Rightarrow> 'f performed" where
  "coordinate fut s =
     (case sys_queue s of
        [] \<Rightarrow> Disabled
      | m # q \<Rightarrow>
          (case handle (listening s) fut (sys_task s) m of
             None \<Rightarrow> Panicked
           | Some (t, out) \<Rightarrow>
               (let s1 = deliver_all out (s\<lparr>sys_task := t, sys_queue := q\<rparr>)
                in Next (if drained t then s1\<lparr>sys_queue := [], sys_stopped := True\<rparr> else s1))))"

definition perform :: "bool \<Rightarrow> 'f system \<Rightarrow> 'f action \<Rightarrow> 'f performed" where
  "perform hard_error s action =
     (case action of
        Enter request \<Rightarrow>
          (let c = next_command_id s in
           if phase_of s c \<noteq> Outside then Disabled
           else Next (set_client c ((client s c)\<lparr>cl_phase := Starting (request\<lparr>rq_command_id := c\<rparr>),
                                                cl_request := Some (request\<lparr>rq_command_id := c\<rparr>)\<rparr>)
                        (s\<lparr>next_command_id := usize_succ c\<rparr>)))
      | StartWaiting c \<Rightarrow>
          (case phase_of s c of
             Starting request \<Rightarrow> Next (go c (AwaitBefore, [Begin request], []) s)
           | _ \<Rightarrow> Disabled)
      | Coordinate fut \<Rightarrow> coordinate fut s
      | Receive c draining \<Rightarrow>
          (case cl_inbox (client s c) of
             [] \<Rightarrow> Disabled
           | r # rs \<Rightarrow>
               (case receive hard_error draining c (phase_of s c) r of
                  None \<Rightarrow> Disabled
                | Some adv \<Rightarrow> Next (go c adv (set_client c ((client s c)\<lparr>cl_inbox := rs\<rparr>) s))))
      | ReceiveStopped c \<Rightarrow>
          if sys_stopped s \<and> cl_inbox (client s c) = []
          then (case receive_stopped c (phase_of s c) of None \<Rightarrow> Disabled | Some adv \<Rightarrow> Next (go c adv s))
          else Disabled
      | Input c inp \<Rightarrow>
          (case advance c (cl_preempted (client s c)) (phase_of s c) inp of
             None \<Rightarrow> Disabled
           | Some adv \<Rightarrow> Next (go c adv s))
      | DropCommand c \<Rightarrow>
          (case drop_lease c (phase_of s c) of
             None \<Rightarrow> Disabled
           | Some ms \<Rightarrow>
               Next (preempt_all (unread_effects (cl_inbox (client s c)))
                 (send ms (set_client c ((client s c)\<lparr>cl_phase := Dropped, cl_inbox := []\<rparr>) s))))
      | CleanupFinished epoch \<Rightarrow>
          if epoch \<in> set (sys_cleanups s)
          then Next (send [CleanupCompleted epoch None] (s\<lparr>sys_cleanups := remove1 epoch (sys_cleanups s)\<rparr>))
          else Disabled
      | RetireHandler \<Rightarrow> Next (send [Retire] s))"

inductive system_run :: "bool \<Rightarrow> 'f system \<Rightarrow> bool" for hard_error where
  start: "system_run hard_error (system_new branch)"
| step: "system_run hard_error s \<Longrightarrow> perform hard_error s action = Next s' \<Longrightarrow> system_run hard_error s'"

fun perform_all :: "bool \<Rightarrow> 'f system \<Rightarrow> 'f action list \<Rightarrow> 'f performed" where
  "perform_all hard_error s [] = Next s"
| "perform_all hard_error s (a # as) =
     (case perform hard_error s a of Next s' \<Rightarrow> perform_all hard_error s' as | x \<Rightarrow> x)"

lemma perform_all_run: "perform_all h s as = Next s' \<Longrightarrow> system_run h s \<Longrightarrow> system_run h s'"
  by (induction as arbitrary: s) (auto intro: system_run.step split: performed.splits)

end
