(* ===== verification/Admission_View.thy ===== *)
theory Admission_View
  imports Admission_Client Admission_Invariant
begin

text \<open>
  What the coordinator of \<^verbatim>\<open>app/buck2_concurrency/src/lib.rs\<close> knows of one command, and how every message
  changes it: for the command that sent the message, and for every other one.
\<close>

section \<open>The view of a command\<close>

datatype view =
    VAbsent
  | VQuiet "attempt_id option"
  | VWaiting attempt_id
  | VHolding attempt_id
  | VBlocked
  | VActive
  | VBroken

definition lane_of :: "'f admission_task \<Rightarrow> command_id \<Rightarrow> attempt_id option" where
  "lane_of t c = (case update_in_flight t of Some (d, a) \<Rightarrow> if d = c then Some a else None | None \<Rightarrow> None)"

type_synonym entries = "bool \<times> attempt_id option option \<times> attempt_id option \<times> attempt_id option \<times> bool"

definition entries :: "'f admission_task \<Rightarrow> command_id \<Rightarrow> entries" where
  "entries t c =
     (c \<in> set (acts (task_data t)), map_option pc_update_attempt (pend (task_data t) c), lane_of t c,
      map_of (update_waiters t) c, c \<in> set (blocked_waiters t))"

definition classify :: "entries \<Rightarrow> view" where
  "classify e =
     (if e = (False, None, None, None, False) then VAbsent
      else if e = (True, None, None, None, False) then VActive
      else if e = (False, Some None, None, None, True) then VBlocked
      else case e of
        (False, Some x, None, None, False) \<Rightarrow> VQuiet x
      | (False, Some (Some a), None, Some b, False) \<Rightarrow> if a = b then VWaiting a else VBroken
      | (False, Some (Some a), Some b, None, False) \<Rightarrow> if a = b then VHolding a else VBroken
      | _ \<Rightarrow> VBroken)"

definition view :: "'f admission_task \<Rightarrow> command_id \<Rightarrow> view" where
  "view t c = classify (entries t c)"

lemma classify_iff [simp]:
  "classify e = VAbsent \<longleftrightarrow> e = (False, None, None, None, False)"
  "classify e = VActive \<longleftrightarrow> e = (True, None, None, None, False)"
  "classify e = VBlocked \<longleftrightarrow> e = (False, Some None, None, None, True)"
  "classify e = VQuiet x \<longleftrightarrow> e = (False, Some x, None, None, False)"
  "classify e = VWaiting a \<longleftrightarrow> e = (False, Some (Some a), None, Some a, False)"
  "classify e = VHolding a \<longleftrightarrow> e = (False, Some (Some a), Some a, None, False)"
  by (cases e; auto simp: classify_def split: bool.splits option.splits if_splits)+

definition sound :: "'f admission_task \<Rightarrow> bool" where
  "sound t \<longleftrightarrow> (\<forall>c. view t c \<noteq> VBroken)"

lemma sound_cases:
  assumes "sound t"
  obtains "view t c = VAbsent" | x where "view t c = VQuiet x" | a where "view t c = VWaiting a"
  | a where "view t c = VHolding a" | "view t c = VBlocked" | "view t c = VActive"
  using assms by (cases "view t c") (auto simp: sound_def)

text \<open>Two tasks that agree on a command.\<close>

lemma view_cong:
  assumes "c \<in> set (acts (task_data t')) \<longleftrightarrow> c \<in> set (acts (task_data t))" "pend (task_data t') c = pend (task_data t) c"
    "lane_of t' c = lane_of t c" "map_of (update_waiters t') c = map_of (update_waiters t) c"
    "c \<in> set (blocked_waiters t') \<longleftrightarrow> c \<in> set (blocked_waiters t)"
  shows "view t' c = view t c"
  unfolding view_def entries_def by (simp only: assms)


section \<open>What happens to the other commands\<close>

definition replies_to :: "command_id \<Rightarrow> 'f reply list \<Rightarrow> 'f reply list" where
  "replies_to c rs = filter (\<lambda>r. reply_target r = Some c) rs"

lemma replies_to_simps [simp]:
  "replies_to c [] = []" "replies_to c (r # rs) = (if reply_target r = Some c then [r] else []) @ replies_to c rs"
  "replies_to c (rs @ rs') = replies_to c rs @ replies_to c rs'"
  by (simp_all add: replies_to_def)

text \<open>A command that waits for the lane gets it, or loses its place when it is gone; a blocked one is woken.\<close>

definition nudged :: "command_id \<Rightarrow> bool \<Rightarrow> view \<Rightarrow> 'f reply list \<Rightarrow> view \<Rightarrow> bool" where
  "nudged c alive v rs v' \<longleftrightarrow> v' = v \<and> rs = []
     \<or> (\<exists>a b. v = VWaiting a \<and> alive \<and> v' = VHolding a \<and> rs = [ReplyAcquire c (Inr b)])
     \<or> (\<exists>a. v = VWaiting a \<and> \<not> alive \<and> v' = VQuiet (Some a) \<and> rs = [])
     \<or> v = VBlocked \<and> v' = VQuiet None \<and> rs = [Wake c]"

lemma nudged_refl [simp]: "nudged c a v [] v"
  by (simp add: nudged_def)

lemma nudged_trans: "nudged c a v rs v' \<Longrightarrow> nudged c a v' rs' v'' \<Longrightarrow> nudged c a v (rs @ rs') v''"
  by (auto simp: nudged_def)

lemma nudged_settled: "nudged c a v rs v' \<Longrightarrow> (\<nexists>x. v = VWaiting x) \<Longrightarrow> v \<noteq> VBlocked \<Longrightarrow> v' = v \<and> rs = []"
  by (auto simp: nudged_def)

lemma nudged_unbroken: "nudged c a v rs v' \<Longrightarrow> v \<noteq> VBroken \<Longrightarrow> v' \<noteq> VBroken"
  by (auto simp: nudged_def)

text \<open>From the views \<open>w\<close>, the task reached by nudging every command.\<close>

definition settles :: "(command_id \<Rightarrow> bool) \<Rightarrow> (command_id \<Rightarrow> view) \<Rightarrow> 'f reply list \<Rightarrow> 'f admission_task \<Rightarrow> bool" where
  "settles alive w out t' \<longleftrightarrow> (\<forall>d. nudged d (alive d) (w d) (replies_to d out) (view t' d))"

lemma settles_refl: "(\<And>d. view t' d = w d) \<Longrightarrow> settles alive w [] t'"
  by (simp add: settles_def)

lemma settles_trans: "settles alive w out t1 \<Longrightarrow> settles alive (view t1) out' t2 \<Longrightarrow> settles alive w (out @ out') t2"
  by (auto simp: settles_def intro: nudged_trans)

lemma settles_sound: "settles alive w out t' \<Longrightarrow> (\<And>d. w d \<noteq> VBroken) \<Longrightarrow> sound t'"
  unfolding settles_def sound_def using nudged_unbroken by metis

text \<open>Granting the lane.\<close>

lemma grant_loop_current:
  assumes "\<And>c a. (c, a) \<in> set ws \<Longrightarrow> ensure_update_attempt_current st c a = Inr ()"
  shows "grant_loop alive st b ws =
    (case dropWhile (\<lambda>(c, _). \<not> alive c) ws of [] \<Rightarrow> ([], None, []) | (c, a) # rest \<Rightarrow> (rest, Some (c, a), [ReplyAcquire c (Inr b)]))"
  using assms by (induction ws) auto

lemma waiting_view:
  assumes "sound t" "(c, a) \<in> set (update_waiters t)" "distinct (map fst (update_waiters t))"
  shows "view t c = VWaiting a" "ensure_update_attempt_current (task_data t) c a = Inr ()"
proof -
  have w: "map_of (update_waiters t) c = Some a" using assms(2,3) by simp
  from assms(1) show v: "view t c = VWaiting a"
    by (cases rule: sound_cases [where c = c]) (auto simp: view_def entries_def w)
  then show "ensure_update_attempt_current (task_data t) c a = Inr ()"
    by (auto simp: view_def entries_def ensure_update_attempt_current_def)
qed

lemma map_of_append_new: "map_of (xs @ ys) c = (case map_of xs c of None \<Rightarrow> map_of ys c | Some x \<Rightarrow> Some x)"
  by (induction xs) auto

lemma grant_next_update_settles:
  assumes s: "sound t" and d: "distinct (map fst (update_waiters t))" and g: "grant_next_update alive t = (t', out)"
  shows "settles alive (view t) out t'"
proof (cases "update_in_flight t")
  case (Some w)
  with g show ?thesis by (simp add: grant_next_update_def settles_refl)
next
  case None
  let ?ws = "update_waiters t"
  define dead rest where dr: "dead = takeWhile (\<lambda>(c, _). \<not> alive c) ?ws" "rest = dropWhile (\<lambda>(c, _). \<not> alive c) ?ws"
  have split: "?ws = dead @ rest" by (simp add: dr)
  have gl: "grant_loop alive (task_data t) (task_branch t) ?ws =
      (case rest of [] \<Rightarrow> ([], None, []) | (c, a) # r \<Rightarrow> (r, Some (c, a), [ReplyAcquire c (Inr (task_branch t))]))"
    unfolding dr by (rule grant_loop_current) (rule waiting_view(2) [OF s _ d])
  have dead: "\<not> alive c" if "(c, a) \<in> set dead" for c a using that set_takeWhileD [of "(c, a)" _ ?ws] by (auto simp: dr)
  show ?thesis unfolding settles_def
  proof
    fix c
    note W = waiting_view(1) [OF s _ d]
    show "nudged c (alive c) (view t c) (replies_to c out) (view t' c)"
    proof (cases "map_of dead c")
      case (Some a)
      then have m: "(c, a) \<in> set dead" by (rule map_of_SomeD)
      then have "(c, a) \<in> set ?ws" by (simp add: split)
      then have v: "view t c = VWaiting a" by (rule W)
      have c: "c \<notin> fst ` set rest" using d m by (force simp: split)
      have "view t' c = VQuiet (Some a) \<and> replies_to c out = []"
        using g gl None v c
        by (auto simp: grant_next_update_def view_def entries_def lane_of_def map_of_eq_None_iff split: list.splits prod.splits)
      with v dead [OF m] show ?thesis by (simp add: nudged_def)
    next
      case dn: None
      have mw: "map_of ?ws c = map_of rest c" using dn map_of_append_new [of dead rest c] by (simp add: split)
      show ?thesis
      proof (cases rest)
        case Nil
        then have "t' = t\<lparr>update_waiters := [], update_in_flight := None\<rparr>" "out = []" using g gl None by (simp_all add: grant_next_update_def)
        with Nil mw None show ?thesis by (auto simp: view_def entries_def lane_of_def nudged_def)
      next
        case (Cons x r)
        obtain d' a where x: "x = (d', a)" by (cases x)
        with g gl None Cons have t': "t' = t\<lparr>update_waiters := r, update_in_flight := Some (d', a)\<rparr>"
          "out = [ReplyAcquire d' (Inr (task_branch t))]" by (simp_all add: grant_next_update_def)
        have al: "alive d'" using Cons x hd_dropWhile [of "\<lambda>(c, _). \<not> alive c" ?ws] by (simp add: dr)
        have "(d', a) \<in> set ?ws" using Cons x by (simp add: split)
        then have v: "view t d' = VWaiting a" by (rule W)
        show ?thesis
        proof (cases "c = d'")
          case True
          have "d' \<notin> fst ` set r" using d Cons x by (simp add: split)
          then have "view t' d' = VHolding a" using v None
            by (simp add: t' view_def entries_def lane_of_def map_of_eq_None_iff)
          with v True al show ?thesis by (auto simp: nudged_def t')
        next
          case False
          then have "view t' c = view t c" using mw Cons x None by (simp add: t' view_def entries_def lane_of_def)
          with False show ?thesis by (simp add: t')
        qed
      qed
    qed
  qed
qed


text \<open>Waking the blocked commands.\<close>

lemma replies_to_wakes: "distinct bs \<Longrightarrow> replies_to c (map Wake bs) = (if c \<in> set bs then [Wake c] else [])"
  by (induction bs) auto

lemma apply_effect_settles:
  assumes s: "sound t" and d: "distinct (blocked_waiters t)" and e: "apply_effect t eff = (t', out)"
  shows "settles alive (view t) out t'"
proof (cases eff)
  case NoEffect
  with e show ?thesis by (simp add: apply_effect_def settles_refl)
next
  case WakeWaiters
  then have t': "t' = t\<lparr>blocked_waiters := []\<rparr>" "out = map Wake (blocked_waiters t)" using e by (simp_all add: apply_effect_def)
  have "nudged c (alive c) (view t c) (replies_to c out) (view t' c)" for c
    using s d by (cases rule: sound_cases [where c = c])
      (auto simp: t' nudged_def view_def entries_def lane_of_def replies_to_wakes)
  then show ?thesis by (simp add: settles_def)
qed

lemma apply_effect_frame:
  assumes "apply_effect t eff = (t', out)"
  shows "task_data t' = task_data t" "update_in_flight t' = update_in_flight t" "update_waiters t' = update_waiters t"
    "apply_effect (t\<lparr>update_in_flight := l\<rparr>) eff = (t'\<lparr>update_in_flight := l\<rparr>, out)"
  using assms by (auto simp: apply_effect_def split: state_effect.splits)

text \<open>Releasing a command.\<close>

lemma map_of_filter_other: "map_of (filter (\<lambda>(w, _). w \<noteq> c) ws) d = (if d = c then None else map_of ws d)"
  by (induction ws) auto

lemma release_command_settles:
  assumes inv: "task_inv t" and s: "sound t" and r: "release_command alive t c = Some (t', out)"
  shows "settles alive ((view t)(c := VAbsent)) out t'"
proof -
  note I = task_invD [OF inv]
  from release_pending_or_active_correct [OF I(1), of c] obtain eff st where p:
    "release_pending_or_active (task_data t) c = Some (eff, st)" "pending_commands st = AList.delete c (pending_commands (task_data t))"
    "acts st = filter (\<lambda>x. x \<noteq> c) (acts (task_data t))" by blast
  let ?mine = "map_option fst (update_in_flight t) = Some c"
  define t1 where "t1 = t\<lparr>blocked_waiters := filter (\<lambda>x. x \<noteq> c) (blocked_waiters t),
    update_waiters := filter (\<lambda>(w, _). w \<noteq> c) (update_waiters t), task_data := st\<rparr>"
  define t0 where "t0 = t1\<lparr>update_in_flight := (if ?mine then None else update_in_flight t)\<rparr>"
  obtain t2 woken where e: "apply_effect t1 eff = (t2, woken)" by fastforce
  have e0: "apply_effect t0 eff = (t2\<lparr>update_in_flight := (if ?mine then None else update_in_flight t)\<rparr>, woken)"
    unfolding t0_def by (rule apply_effect_frame(4) [OF e])
  have w: "view t0 d = ((view t)(c := VAbsent)) d" for d
  proof (cases "d = c")
    case True
    have "lane_of t0 c = None" by (cases "update_in_flight t") (auto simp: t0_def lane_of_def)
    moreover have "d \<notin> set (acts st)" using p(3) True by (simp del: set_map)
    ultimately show ?thesis using True
      by (simp add: view_def entries_def t0_def t1_def p(2) map_of_filter_other delete_conv')
  next
    case False
    have "lane_of t0 d = lane_of t d" using False by (cases "update_in_flight t") (auto simp: t0_def t1_def lane_of_def)
    moreover have "d \<in> set (acts (task_data t0)) \<longleftrightarrow> d \<in> set (acts (task_data t))"
      using p(3) False by (simp add: t0_def t1_def del: set_map)
    ultimately have "view t0 d = view t d" using False
      by (intro view_cong) (simp_all add: t0_def t1_def p(2) map_of_filter_other del: set_map)
    with False show ?thesis by simp
  qed
  then have s0: "sound t0" using s by (simp add: sound_def)
  have d0: "distinct (blocked_waiters t0)" "distinct (map fst (update_waiters t0))"
    using I(2,4) by (auto simp: t0_def t1_def blocked_inv_def lane_inv_def distinct_map_filter)
  have set2: "settles alive ((view t)(c := VAbsent)) woken (t2\<lparr>update_in_flight := (if ?mine then None else update_in_flight t)\<rparr>)"
    using apply_effect_settles [OF s0 d0(1) e0, of alive] w by (simp add: settles_def)
  note F = apply_effect_frame(1-3) [OF e]
  have t1f: "update_in_flight t1 = update_in_flight t" by (simp add: t1_def)
  have run: "(let (t3, granted) = grant_next_update alive (t2\<lparr>update_in_flight := None\<rparr>) in
      if ?mine then Some (t3, woken @ granted) else Some (t2, woken)) = Some (t', out)"
    using r p(1) e F(2) by (auto simp: release_command_def t1_def Let_def split: prod.splits if_splits)
  show ?thesis
  proof (cases ?mine)
    case False
    then have "t' = t2" "out = woken" using run by (auto split: prod.splits)
    moreover have "t2\<lparr>update_in_flight := update_in_flight t\<rparr> = t2" using F(2) t1f by (cases t2) simp
    ultimately show ?thesis using set2 False by simp
  next
    case True
    obtain t3 granted where g: "grant_next_update alive (t2\<lparr>update_in_flight := None\<rparr>) = (t3, granted)" by fastforce
    then have o: "t' = t3" "out = woken @ granted" using run True by auto
    have sd: "sound (t2\<lparr>update_in_flight := None\<rparr>)" using settles_sound [OF set2] s True by (simp add: sound_def)
    have "distinct (map fst (update_waiters (t2\<lparr>update_in_flight := None\<rparr>)))" using d0(2) F(3) by (simp add: t0_def)
    from settles_trans [OF _ grant_next_update_settles [OF sd this g]] set2 True show ?thesis by (simp add: o)
  qed
qed

end
