(* ===== verification/Admission_Serve.thy ===== *)
theory Admission_Serve
  imports Admission_View
begin

text \<open>
  The answer of the coordinator of \<^verbatim>\<open>app/buck2_concurrency/src/lib.rs\<close> to each message, as a change of
  the views of the commands.
\<close>

section \<open>Messages and answers\<close>

fun sender_of :: "message \<Rightarrow> command_id option" where
  "sender_of Retire = None"
| "sender_of (Begin rq) = Some (rq_command_id rq)"
| "sender_of (BeforeUpdate c) = Some c"
| "sender_of (AcquireUpdate c _) = Some c"
| "sender_of (MoveToBranch c _ _ _) = Some c"
| "sender_of (AfterUpdate c _) = Some c"
| "sender_of (CleanupCompleted _ r) = r"
| "sender_of (QueuedTraces c) = Some c"
| "sender_of (Release c _) = Some c"

definition quiet :: "view \<Rightarrow> bool" where
  "quiet v = (case v of VQuiet _ \<Rightarrow> True | _ \<Rightarrow> False)"

lemma quiet_iff: "quiet v \<longleftrightarrow> (\<exists>x. v = VQuiet x)"
  by (auto simp: quiet_def split: view.splits)

lemma quiet_VQuiet [simp]: "quiet (VQuiet x)"
  by (simp add: quiet_def)

text \<open>The view of its sender in which a message makes sense.\<close>

fun ready :: "message \<Rightarrow> view \<Rightarrow> bool" where
  "ready Retire v = True"
| "ready (Begin rq) v = (v = VAbsent)"
| "ready (BeforeUpdate c) v = quiet v"
| "ready (AcquireUpdate c a) v = (v = VQuiet (Some a))"
| "ready (MoveToBranch c a b r) v = (v = VHolding a)"
| "ready (AfterUpdate c u) v = (v = VHolding (cu_attempt u))"
| "ready (CleanupCompleted e r) v = quiet v"
| "ready (QueuedTraces c) v = quiet v"
| "ready (Release c r) v = True"

definition attempt_of :: "'f pre_update_decision \<Rightarrow> attempt_id option" where
  "attempt_of d = (case d of Update a _ \<Rightarrow> Some a | _ \<Rightarrow> None)"

definition after_view :: "'f post_update_decision \<Rightarrow> view" where
  "after_view d = (case d of Outcome (Admit _) _ \<Rightarrow> VActive | PostBlock _ _ \<Rightarrow> VBlocked | _ \<Rightarrow> VQuiet None)"

text \<open>The answer to a message, and the view of its sender after it.\<close>

fun answers :: "bool \<Rightarrow> message \<Rightarrow> 'f reply list \<Rightarrow> view \<Rightarrow> bool" where
  "answers alive (Release c r) rs v = (v = VAbsent \<and> rs = (if r \<and> alive then [ReplyRelease c] else []))"
| "answers alive (Begin rq) rs v = (alive \<longrightarrow> rs = [ReplyBefore (rq_command_id rq) (Inl Retired)] \<and> v = VAbsent
     \<or> (\<exists>d. d \<noteq> WaitForCleanupStart \<and> rs = [ReplyBefore (rq_command_id rq) (Inr d)] \<and> v = VQuiet (attempt_of d)))"
| "answers alive (BeforeUpdate c) rs v = (alive \<longrightarrow>
     (\<exists>d. d \<noteq> WaitForCleanupStart \<and> rs = [ReplyBefore c (Inr d)] \<and> v = VQuiet (attempt_of d)))"
| "answers alive (AcquireUpdate c a) rs v = (alive \<longrightarrow> rs = [] \<and> v = VWaiting a
     \<or> (\<exists>b. rs = [ReplyAcquire c (Inr b)] \<and> v = VHolding a))"
| "answers alive (MoveToBranch c a b r) rs v = (alive \<longrightarrow> rs = [ReplyMove c (Inr ())] \<and> v = VHolding a)"
| "answers alive (AfterUpdate c u) rs v = (alive \<longrightarrow>
     (\<exists>d. expected (ReplyAfter c (Inr d)) \<and> rs = [ReplyAfter c (Inr d)] \<and> v = after_view d))"
| "answers alive (CleanupCompleted e (Some c)) rs v = (alive \<longrightarrow> rs = [ReplyCleanup c] \<and> quiet v)"
| "answers alive (CleanupCompleted e None) rs v = True"
| "answers alive (QueuedTraces c) rs v = (alive \<longrightarrow> (\<exists>ts. rs = [ReplyQueued c ts]) \<and> quiet v)"
| "answers alive Retire rs v = True"

definition serves ::
  "(command_id \<Rightarrow> bool) \<Rightarrow> 'f admission_task \<Rightarrow> message \<Rightarrow> command_id option \<Rightarrow> 'f reply list \<Rightarrow> 'f admission_task \<Rightarrow> bool" where
  "serves alive t m who out t' \<longleftrightarrow> sound t'
     \<and> (\<forall>d. Some d \<noteq> who \<longrightarrow> nudged d (alive d) (view t d) (replies_to d out) (view t' d))
     \<and> (\<forall>c. who = Some c \<longrightarrow> answers (alive c) m (replies_to c out) (view t' c))"

lemma settles_serves:
  fixes out :: "'f reply list"
  assumes "settles alive ((view t)(c := v)) out t'" "sound t" "v \<noteq> VBroken"
    "\<And>(rs :: 'f reply list) v'. nudged c (alive c) v rs v' \<Longrightarrow> answers (alive c) m rs v'"
  shows "serves alive t m (Some c) out t'"
proof -
  have "sound t'" by (rule settles_sound [OF assms(1)]) (use assms(2,3) in \<open>simp add: sound_def\<close>)
  moreover have "nudged d (alive d) (view t d) (replies_to d out) (view t' d)" if "d \<noteq> c" for d
    using assms(1) that by (auto simp: settles_def dest: spec [of _ d])
  moreover have "answers (alive c) m (replies_to c out) (view t' c)"
    using assms(1) by (intro assms(4)) (auto simp: settles_def dest: spec [of _ c])
  ultimately show ?thesis by (simp add: serves_def)
qed


section \<open>The messages one by one\<close>

lemma respond_serves:
  fixes out :: "'f reply list"
  assumes inv: "task_inv t1" and w: "\<And>d. view t1 d = ((view t)(c := v)) d" and s: "sound t" and v: "v \<noteq> VBroken"
    and reply: "reply_target reply = Some c" and m: "alive c \<Longrightarrow> answers True m [reply] v" "\<And>(rs :: 'f reply list) v'. answers False m rs v'"
    and r: "respond alive t1 c owns reply = Some (t', out)"
  shows "serves alive t m (Some c) out t'"
proof -
  have s1: "sound t1" using w s v by (simp add: sound_def)
  consider (alive) "alive c" "t' = t1" "out = [reply]" | (gone) "\<not> alive c" "t' = t1" "out = []"
    | (released) "\<not> alive c" "release_command alive t1 c = Some (t', out)"
    using r by (cases "alive c"; cases owns) (simp_all add: respond_def)
  then show ?thesis
  proof cases
    case alive
    then show ?thesis using m(1) s1 w reply by (auto simp: serves_def)
  next
    case gone
    then show ?thesis using m(2) s1 w by (auto simp: serves_def)
  next
    case released
    have "(view t1)(c := VAbsent) = (view t)(c := VAbsent)" using w by auto
    with release_command_settles [OF inv s1 released(2)] have "settles alive ((view t)(c := VAbsent)) out t'" by simp
    then show ?thesis by (rule settles_serves [OF _ s]) (use released(1) m(2) in auto)
  qed
qed

lemma before_view:
  assumes "view t c = VQuiet x" "decide_before_update_for (task_data t) c = (result, st)"
  shows "\<exists>d. result = Inr d \<and> (\<forall>e. view (t\<lparr>task_data := st\<rparr>) e = ((view t)(c := VQuiet (attempt_of d))) e)"
proof (cases rule: decide_before_update_for_cases [of "task_data t" c])
  case 1
  with assms(1) show ?thesis by (simp add: view_def entries_def)
next
  case (2 p d n a)
  have "a = attempt_of d" using 2(4,5) by (cases d) (auto simp: attempt_of_def)
  then have "view (t\<lparr>task_data := st\<rparr>) e = ((view t)(c := VQuiet (attempt_of d))) e" for e
    using assms 2(1,2) by (auto simp: view_def entries_def lane_of_def)
  with 2(2) assms(2) show ?thesis by auto
qed

lemma serve_before:
  assumes inv: "task_inv t" and s: "sound t" and v: "quiet (view t c)" and h: "handle alive fut t (BeforeUpdate c) = Some (t', out)"
  shows "serves alive t (BeforeUpdate c) (Some c) out t'"
proof -
  obtain x where x: "view t c = VQuiet x" using v by (auto simp: quiet_iff)
  obtain result st where b: "decide_before_update_for (task_data t) c = (result, st)" by fastforce
  have "c \<notin> set (blocked_waiters t)" using x by (simp add: view_def entries_def)
  note B = decide_before_update_for_correct [OF inv this b]
  from before_view [OF x b] obtain d where d: "result = Inr d"
    "\<forall>e. view (t\<lparr>task_data := st\<rparr>) e = ((view t)(c := VQuiet (attempt_of d))) e" by blast
  show ?thesis
    by (rule respond_serves [OF B(1) spec [OF d(2)] s, of "ReplyBefore c result" alive])
      (use h b d(1) B(4) in \<open>auto simp: handle_def\<close>)
qed

lemma serve_begin:
  assumes inv: "task_inv t" and s: "sound t" and v: "view t (rq_command_id rq) = VAbsent"
    and h: "handle alive fut t (Begin rq) = Some (t', out)"
  shows "serves alive t (Begin rq) (Some (rq_command_id rq)) out t'"
proof (cases "retiring t")
  case True
  then have "respond alive t (rq_command_id rq) False (ReplyBefore (rq_command_id rq) (Inl Retired)) = Some (t', out)"
    using h by (simp add: handle_def Let_def)
  moreover have "view t d = ((view t)(rq_command_id rq := VAbsent)) d" for d using v by simp
  ultimately show ?thesis by (intro respond_serves [OF inv _ s, of "rq_command_id rq" VAbsent]) simp_all
next
  case False
  let ?c = "rq_command_id rq" and ?t1 = "t\<lparr>task_data := (task_data t)\<lparr>pending_commands :=
    AList.update (rq_command_id rq) \<lparr>pc_request = rq, pc_update_attempt = None\<rparr> (pending_commands (task_data t))\<rparr>\<rparr>"
  have absent: "?c \<notin> set (acts (task_data t))" "pend (task_data t) ?c = None" "lane_of t ?c = None"
    "map_of (update_waiters t) ?c = None" "?c \<notin> set (blocked_waiters t)"
    using v by (simp_all add: view_def entries_def del: set_map)
  obtain result st where b: "begin_admission (task_data t) rq = (result, st)" by fastforce
  then have b1: "decide_before_update_for (task_data ?t1) ?c = (result, st)"
    using absent(1,2) contains_acts [of "task_data t" ?c] by (simp add: begin_admission_def contains_command_def Let_def)
  have w1: "view ?t1 e = ((view t)(?c := VQuiet None)) e" for e
    using absent by (auto simp: view_def entries_def lane_of_def simp del: set_map)
  from before_view [OF _ b1] w1 [of ?c] obtain d where d: "result = Inr d"
    "\<forall>e. view (?t1\<lparr>task_data := st\<rparr>) e = ((view ?t1)(?c := VQuiet (attempt_of d))) e" by auto
  have w: "view (t\<lparr>task_data := st\<rparr>) e = ((view t)(?c := VQuiet (attempt_of d))) e" for e
    using d(2) w1 by (auto simp: fun_upd_def)
  note B = begin_admission_correct [OF inv b]
  show ?thesis
    by (rule respond_serves [OF B(1) w s, of "ReplyBefore ?c result" alive]) (use h b d(1) B(4) False in \<open>auto simp: handle_def Let_def\<close>)
qed

lemma serve_acquire:
  assumes inv: "task_inv t" and s: "sound t" and v: "view t c = VQuiet (Some a)"
    and h: "handle alive fut t (AcquireUpdate c a) = Some (t', out)"
  shows "serves alive t (AcquireUpdate c a) (Some c) out t'"
proof -
  let ?t1 = "t\<lparr>update_waiters := update_waiters t @ [(c, a)]\<rparr>"
  have e: "c \<notin> set (acts (task_data t))" "map_option pc_update_attempt (pend (task_data t) c) = Some (Some a)" "lane_of t c = None"
    "map_of (update_waiters t) c = None" "c \<notin> set (blocked_waiters t)"
    using v by (simp_all add: view_def entries_def del: set_map)
  have cur: "ensure_update_attempt_current (task_data t) c a = Inr ()" using e(2) by (auto simp: ensure_current_iff)
  have free: "map_option fst (update_in_flight t) \<noteq> Some c" using e(3) by (auto simp: lane_of_def)
  have nw: "c \<notin> fst ` set (update_waiters t)" using e(4) by (simp add: map_of_eq_None_iff)
  then have "\<not> list_ex (\<lambda>(w, _). w = c) (update_waiters t)" by (force simp: list_ex_iff)
  then have g: "grant_next_update alive ?t1 = (t', out)" using h cur free by (auto simp: handle_def acquire_update_def)
  have w: "view ?t1 d = ((view t)(c := VWaiting a)) d" for d
    using e by (auto simp: view_def entries_def lane_of_def map_add_def split: option.splits simp del: set_map)
  then have "sound ?t1" using s by (simp add: sound_def)
  moreover have "distinct (map fst (update_waiters ?t1))" using nw task_invD(2) [OF inv] by (simp add: lane_inv_def)
  ultimately have "settles alive ((view t)(c := VWaiting a)) out t'"
    using grant_next_update_settles [OF _ _ g] w by (simp add: settles_def)
  then show ?thesis by (rule settles_serves [OF _ s]) (auto simp: nudged_def)
qed


lemma serve_move:
  assumes inv: "task_inv t" and s: "sound t" and v: "view t c = VHolding a"
    and h: "handle alive fut t (MoveToBranch c a b ret) = Some (t', out)"
  shows "serves alive t (MoveToBranch c a b ret) (Some c) out t'"
proof -
  let ?t1 = "t\<lparr>task_branch := b\<rparr>"
  have lane: "update_in_flight t = Some (c, a)" using v by (auto simp: view_def entries_def lane_of_def split: option.splits if_splits)
  have w: "view ?t1 d = ((view t)(c := VHolding a)) d" for d using v by (auto simp: view_def entries_def lane_of_def)
  have inv1: "task_inv ?t1" using inv by (simp add: task_inv_def)
  obtain o1 where r: "respond alive ?t1 c (contains_command (pending_commands (task_data t)) c) (ReplyMove c (Inr ())) = Some (t', o1)"
    and o: "out = (if ret then [RetireBranch (task_branch t)] else []) @ o1"
    using h lane by (auto simp: handle_def move_to_branch_def bind_eq_Some_conv Let_def)
  have "serves alive t (MoveToBranch c a b ret) (Some c) o1 t'"
    by (rule respond_serves [OF inv1 w s _ _ _ _ r]) simp_all
  then show ?thesis by (auto simp: serves_def o)
qed

lemma serve_release:
  assumes inv: "task_inv t" and s: "sound t" and h: "handle alive fut t (Release c r) = Some (t', out)"
  shows "serves alive t (Release c r) (Some c) out t'"
proof -
  obtain o1 where o: "release_command alive t c = Some (t', o1)" "out = o1 @ (if r then send_reply alive c (ReplyRelease c) else [])"
    using h by (auto simp: handle_def bind_eq_Some_conv)
  note R = release_command_settles [OF inv s o(1)]
  have "sound t'" by (rule settles_sound [OF R]) (use s in \<open>auto simp: sound_def\<close>)
  moreover have "nudged d (alive d) (view t d) (replies_to d out) (view t' d)" if "d \<noteq> c" for d
    using R that by (auto simp: settles_def o(2) send_reply_def dest: spec [of _ d])
  moreover have "view t' c = VAbsent \<and> replies_to c o1 = []"
    using R by (intro nudged_settled [of c "alive c"]) (auto simp: settles_def dest: spec [of _ c])
  ultimately show ?thesis by (auto simp: serves_def o(2) send_reply_def)
qed

lemma serve_queued:
  assumes "sound t" "quiet (view t c)" "handle alive fut t (QueuedTraces c) = Some (t', out)"
  shows "serves alive t (QueuedTraces c) (Some c) out t'"
  using assms by (auto simp: handle_def serves_def send_reply_def)

lemma serve_cleanup:
  assumes s: "sound t" and v: "\<And>c. r = Some c \<Longrightarrow> quiet (view t c)" and h: "handle alive fut t (CleanupCompleted e r) = Some (t', out)"
  shows "serves alive t (CleanupCompleted e r) r out t'"
proof -
  have "\<exists>st. apply_event (task_data t) (CleanupCompletedEvent e) = Some (NoEffect, st) \<and> acts st = acts (task_data t)
    \<and> pending_commands st = pending_commands (task_data t)"
    by (cases "dice_status (task_data t)") (auto simp: apply_event_def)
  then obtain st where st: "apply_event (task_data t) (CleanupCompletedEvent e) = Some (NoEffect, st)" "acts st = acts (task_data t)"
    "pending_commands st = pending_commands (task_data t)" by blast
  have o: "t' = t\<lparr>task_data := st\<rparr>" "out = (case r of None \<Rightarrow> [] | Some c \<Rightarrow> send_reply alive c (ReplyCleanup c))"
    using h st(1) by (simp_all add: handle_def apply_effect_def)
  have w: "view t' d = view t d" for d by (rule view_cong) (simp_all add: o st lane_of_def del: set_map)
  show ?thesis using s v by (cases r) (auto simp: serves_def sound_def w o(2) send_reply_def)
qed

text \<open>The end of an update.\<close>

lemma decided_view:
  assumes v: "view t c = VHolding (cu_attempt u)" and d: "decided_for (task_data t) c rq u dec st"
  shows "view (t\<lparr>task_data := st, update_in_flight := None\<rparr>) e = ((view t)(c := (if \<exists>x. dec = Admit x then VActive else VQuiet None))) e"
proof (cases "e = c")
  case True
  have "lane_of (t\<lparr>task_data := st, update_in_flight := None\<rparr>) c = None" by (simp add: lane_of_def)
  with True v d show ?thesis
    by (cases dec) (auto simp: view_def entries_def decided_for_def)
next
  case False
  have "lane_of t c = Some (cu_attempt u)" using v by (simp add: view_def entries_def)
  then have "lane_of t e = None" using False by (auto simp: lane_of_def split: option.splits if_splits)
  moreover have "e \<in> set (acts st) \<longleftrightarrow> e \<in> set (acts (task_data t))" "pend st e = pend (task_data t) e"
    using d False by (auto simp: decided_for_def simp del: set_map split: admission_decision.splits)
  ultimately have "view (t\<lparr>task_data := st, update_in_flight := None\<rparr>) e = view t e"
    by (intro view_cong) (simp_all add: lane_of_def del: set_map)
  with False show ?thesis by simp
qed

lemma grant_no_wake: "grant_next_update alive t = (t', out) \<Longrightarrow> Wake c \<notin> set out"
  using grant_loop_replies [of alive "task_data t" "task_branch t" "update_waiters t" _ _ _ "Wake c"]
  by (auto simp: grant_next_update_def split: if_splits prod.splits)

lemma finish_settles:
  assumes s: "sound (t\<lparr>update_in_flight := None\<rparr>)" and d: "distinct (map fst (update_waiters t))"
    and l: "update_in_flight t = Some (c, a)" and f: "finish_update alive t c a = (t', out)"
  shows "settles alive (view (t\<lparr>update_in_flight := None\<rparr>)) out t'" "Wake x \<notin> set out"
proof -
  have g: "grant_next_update alive (t\<lparr>update_in_flight := None\<rparr>) = (t', out)" using f l by (simp add: finish_update_def)
  from grant_next_update_settles [OF s _ g] d show "settles alive (view (t\<lparr>update_in_flight := None\<rparr>)) out t'" by simp
  from grant_no_wake [OF g] show "Wake x \<notin> set out" .
qed


lemma after_update_settles:
  assumes inv: "task_inv t" and s: "sound t" and v: "view t c = VHolding (cu_attempt u)"
    and a: "after_update alive fut t c u = Some (res, t', out)"
  shows "\<exists>d. res = Inr d \<and> settles alive ((view t)(c := after_view d)) out t' \<and> Wake c \<notin> set out"
proof -
  note I = task_invD [OF inv]
  let ?a = "cu_attempt u"
  have lane: "update_in_flight t = Some (c, ?a)" using v by (auto simp: view_def entries_def lane_of_def split: option.splits if_splits)
  from v obtain p where p: "pend (task_data t) c = Some p" "pc_update_attempt p = Some ?a" by (auto simp: view_def entries_def)
  from decide_after_update_for_decided [OF I(1) p] obtain dec es st where
    d: "decide_after_update_for (task_data t) c u = Some (Inr (dec, es), st)" "decided_for (task_data t) c (pc_request p) u dec st" by blast
  note W = decided_view [OF v d(2)]
  have dw: "distinct (map fst (update_waiters t))" using I(2) by (simp add: lane_inv_def)
  have fin: "settles alive ((view t)(c := x)) o1 t1 \<and> Wake c \<notin> set o1"
    if w: "\<And>e. view (t2\<lparr>update_in_flight := None\<rparr>) e = ((view t)(c := x)) e" and x: "x \<noteq> VBroken"
      and t2: "update_in_flight t2 = Some (c, ?a)" "update_waiters t2 = update_waiters t"
      and f: "finish_update alive t2 c ?a = (t1, o1)" for t2 x t1 o1
  proof -
    have "sound (t2\<lparr>update_in_flight := None\<rparr>)" using w x s by (simp add: sound_def)
    from finish_settles [OF this _ t2(1) f] t2(2) dw w show ?thesis by (simp add: settles_def)
  qed
  have leaf: ?thesis if "after_update alive fut t c u = Some (Inr d, finish_update alive (t\<lparr>task_data := st\<rparr>) c ?a)"
    "after_view d = (if \<exists>x. dec = Admit x then VActive else VQuiet None)" for d
  proof -
    obtain t3 o3 where f: "finish_update alive (t\<lparr>task_data := st\<rparr>) c ?a = (t3, o3)" by fastforce
    have "settles alive ((view t)(c := after_view d)) o3 t3 \<and> Wake c \<notin> set o3"
      by (rule fin [OF _ _ _ _ f]) (use W lane that(2) in auto)
    with a that(1) f show ?thesis by auto
  qed
  show ?thesis
  proof (cases dec)
    case (StartCleanup e)
    with d(2) have sc: "dice_status st = CleanupStarting e" "acts (task_data t) = []" by (auto simp: decided_for_def)
    have bs: "blocked_waiters t = []" using I(4) sc(2) by (auto simp: blocked_inv_def)
    let ?t2 = "t\<lparr>task_data := st\<lparr>dice_status := Cleanup fut e\<rparr>, blocked_waiters := []\<rparr>"
    obtain t3 o3 where f: "finish_update alive ?t2 c ?a = (t3, o3)" by fastforce
    have o: "res = Inr (AwaitCleanup fut e)" "t' = t3" "out = o3"
      using a d(1) lane StartCleanup sc bs f by (auto simp: after_update_def apply_event_def apply_effect_def Let_def)
    have "view (?t2\<lparr>update_in_flight := None\<rparr>) x = ((view t)(c := VQuiet None)) x" for x
    proof -
      have "view (?t2\<lparr>update_in_flight := None\<rparr>) x = view (t\<lparr>task_data := st, update_in_flight := None\<rparr>) x"
        by (rule view_cong) (simp_all add: lane_of_def bs del: set_map)
      with W [of x] StartCleanup show ?thesis by simp
    qed
    from fin [OF this _ _ _ f] lane show ?thesis by (simp add: o after_view_def)
  next
    case (DecideBlock b)
    let ?t2 = "t\<lparr>task_data := st, blocked_waiters := blocked_waiters t @ [c]\<rparr>"
    have nb: "c \<notin> set (blocked_waiters t)" using v by (simp add: view_def entries_def)
    obtain t3 o3 where f: "finish_update alive ?t2 c ?a = (t3, o3)" by fastforce
    have o: "res = Inr (PostBlock b es)" "t' = t3" "out = o3"
      using a d(1) lane DecideBlock nb f by (auto simp: after_update_def Let_def)
    have "view (?t2\<lparr>update_in_flight := None\<rparr>) x = ((view t)(c := VBlocked)) x" for x
      using W [of x] DecideBlock by (auto simp: view_def entries_def lane_of_def simp del: set_map)
    from fin [OF this _ _ _ f] lane show ?thesis by (simp add: o after_view_def)
  next
    case RetryAfterCleanup
    with d(2) obtain f e where st: "dice_status st = Cleanup f e" by (auto simp: decided_for_def)
    show ?thesis by (rule leaf [of "AwaitCleanup f e"]) (use d(1) lane RetryAfterCleanup st in \<open>auto simp: after_update_def after_view_def\<close>)
  next
    case (Admit x)
    show ?thesis by (rule leaf [of "Outcome dec es"]) (use d(1) lane Admit in \<open>auto simp: after_update_def after_view_def\<close>)
  next
    case (RejectDifferentState x y)
    show ?thesis by (rule leaf [of "Outcome dec es"]) (use d(1) lane RejectDifferentState in \<open>auto simp: after_update_def after_view_def\<close>)
  next
    case (RejectNestedDifferentState x)
    show ?thesis by (rule leaf [of "Outcome dec es"]) (use d(1) lane RejectNestedDifferentState in \<open>auto simp: after_update_def after_view_def\<close>)
  qed
qed

lemma serve_after:
  assumes inv: "task_inv t" and s: "sound t" and v: "view t c = VHolding (cu_attempt u)"
    and h: "handle alive fut t (AfterUpdate c u) = Some (t', out)"
  shows "serves alive t (AfterUpdate c u) (Some c) out t'"
proof -
  from after_update_correct [OF inv, of alive fut c u] obtain res t1 o1 where a: "after_update alive fut t c u = Some (res, t1, o1)"
    "task_inv t1" "concluded (task_data t) c u res (task_data t1)" by blast
  from after_update_settles [OF inv s v a(1)] obtain d where d: "res = Inr d" "settles alive ((view t)(c := after_view d)) o1 t1"
    "Wake c \<notin> set o1" by blast
  have ex: "expected (ReplyAfter c (Inr d))" using a(3) d(1) by (auto simp: concluded_def)
  have av: "after_view d \<noteq> VBroken" by (auto simp: after_view_def split: post_update_decision.splits admission_decision.splits)
  let ?owns = "contains_command (pending_commands (task_data t1)) c \<or> contains_command (active_commands (task_data t1)) c"
  obtain o2 where r: "respond_after_update alive t1 c ?owns res = Some (t', o2)" and o: "out = o1 @ o2"
    using h a(1) by (auto simp: handle_def bind_eq_Some_conv)
  show ?thesis
  proof (cases "alive c")
    case True
    then have r2: "t' = t1" "o2 = [ReplyAfter c (Inr d)]" using r d(1) by (auto simp: respond_after_update_def)
    have c: "nudged c True (after_view d) (replies_to c o1) (view t1 c)" using d(2) True by (auto simp: settles_def dest: spec [of _ c])
    have "Wake c \<notin> set (replies_to c o1)" using d(3) by (simp add: replies_to_def)
    with c have fresh: "view t1 c = after_view d \<and> replies_to c o1 = []"
      by (auto simp: nudged_def after_view_def split: post_update_decision.splits admission_decision.splits)
    moreover have "nudged e (alive e) (view t e) (replies_to e o1) (view t1 e)" if "e \<noteq> c" for e
      using d(2) that by (auto simp: settles_def dest: spec [of _ e])
    moreover have "sound t1" by (rule settles_sound [OF d(2)]) (use s av in \<open>simp add: sound_def\<close>)
    ultimately show ?thesis using ex True by (auto simp: serves_def o r2 simp del: expected.simps)
  next
    case False
    then obtain t2 pre where frame: "acts (task_data t2) = acts (task_data t1)" "pending_commands (task_data t2) = pending_commands (task_data t1)"
      "dice_status (task_data t2) = dice_status (task_data t1)" "update_in_flight t2 = update_in_flight t1"
      "update_waiters t2 = update_waiters t1" "blocked_waiters t2 = blocked_waiters t1"
      and pre: "\<And>x. x \<in> set pre \<Longrightarrow> \<exists>f e. x = FinishAbandonedCleanup f e"
      and run: "respond_after_update alive t1 c ?owns res =
         (if ?owns then map_option (\<lambda>(t', out). (t', pre @ out)) (release_command alive t2 c) else Some (t2, pre))"
      by (rule respond_after_update_gone) (rule that)
    have inv2: "task_inv t2" using a(2) unfolding task_inv_def store_inv_def lane_inv_def blocked_inv_def frame .
    have w2: "view t2 e = view t1 e" for e by (rule view_cong) (simp_all add: frame lane_of_def del: set_map)
    have s1: "sound t1" by (rule settles_sound [OF d(2)]) (use s av in \<open>simp add: sound_def\<close>)
    have "\<forall>x\<in>set pre. reply_target x = None" using pre by fastforce
    then have pn: "replies_to e pre = []" for e by (auto simp: replies_to_def filter_empty_conv)
    have "sound t' \<and> (\<forall>e. e \<noteq> c \<longrightarrow> nudged e (alive e) (view t1 e) (replies_to e o2) (view t' e))"
    proof (cases ?owns)
      case True
      then obtain o3 where o3: "release_command alive t2 c = Some (t', o3)" "o2 = pre @ o3"
        using r run by (cases "release_command alive t2 c") auto
      have s2: "sound t2" using s1 w2 by (simp add: sound_def)
      note R = release_command_settles [OF inv2 s2 o3(1)]
      have "sound t'" by (rule settles_sound [OF R]) (use s2 in \<open>auto simp: sound_def\<close>)
      moreover have "nudged e (alive e) (view t1 e) (replies_to e o2) (view t' e)" if "e \<noteq> c" for e
        using R that w2 [of e] by (auto simp: settles_def o3(2) pn dest: spec [of _ e])
      ultimately show ?thesis by blast
    next
      case False
      then have "t' = t2" "o2 = pre" using r run by auto
      with s1 show ?thesis by (simp add: sound_def w2 pn)
    qed
    moreover have "nudged e (alive e) (view t e) (replies_to e o1) (view t1 e)" if "e \<noteq> c" for e
      using d(2) that by (auto simp: settles_def dest: spec [of _ e])
    ultimately show ?thesis using False by (auto simp: serves_def o intro: nudged_trans)
  qed
qed


section \<open>Every message\<close>

text \<open>The messages that are not a command's request: retirement, and the end of an abandoned cleanup.\<close>

theorem handle_serves:
  assumes inv: "task_inv t" and s: "sound t" and ready: "\<And>c. sender_of m = Some c \<Longrightarrow> ready m (view t c)"
    and h: "handle alive fut t m = Some (t', out)"
  shows "serves alive t m (sender_of m) out t'"
proof (cases m)
  case Retire
  then have o: "t' = t\<lparr>retiring := True\<rparr>" "out = []" using h by (simp_all add: handle_def)
  have "view t' d = view t d" for d by (rule view_cong) (simp_all add: o(1) lane_of_def)
  with s Retire show ?thesis by (simp add: serves_def o(2) sound_def)
next
  case (CleanupCompleted e r)
  show ?thesis using serve_cleanup [OF s _ h [unfolded CleanupCompleted]] ready CleanupCompleted by simp
qed (use ready h serve_begin [OF inv s] serve_before [OF inv s] serve_acquire [OF inv s] serve_move [OF inv s]
      serve_after [OF inv s] serve_queued [OF s] serve_release [OF inv s] in \<open>simp_all\<close>)

lemma ready_orderly: "(\<And>c. sender_of m = Some c \<Longrightarrow> ready m (view t c)) \<Longrightarrow> orderly t m"
  by (cases m) (auto simp: orderly_def quiet_iff view_def entries_def)

lemma task_new_view: "view (task_new b) c = VAbsent"
  by (simp add: view_def entries_def task_new_def lane_of_def)

end
