(* ===== verification/Admission_System.thy ===== *)
theory Admission_System
  imports Admission_Serve
begin

text \<open>
  The composition of the coordinator and the commands of \<^verbatim>\<open>app/buck2_concurrency/src/lib.rs\<close>: what holds
  between a command's phase, its requests in the queue, the replies it has not read and the coordinator's view of
  it, in every state the system reaches.
\<close>

section \<open>The protocol between a command and the coordinator\<close>

definition mine :: "command_id \<Rightarrow> message list \<Rightarrow> message list" where
  "mine c q = filter (\<lambda>m. sender_of m = Some c) q"

lemma mine_simps [simp]:
  "mine c [] = []" "mine c (m # q) = (if sender_of m = Some c then [m] else []) @ mine c q" "mine c (q @ q') = mine c q @ mine c q'"
  by (simp_all add: mine_def)

text \<open>The results that are not an error inside the coordinator.\<close>

definition benign :: "command_error + unit \<Rightarrow> bool" where
  "benign r = (case r of Inl (CoordinatorError e) \<Rightarrow> e = Retired | Inl UnpreparedCleanup \<Rightarrow> False
     | Inl UnprocessedDecision \<Rightarrow> False | _ \<Rightarrow> True)"

text \<open>A command with no request under way.\<close>

fun answered :: "command_id \<Rightarrow> 'f phase \<Rightarrow> 'f reply list \<Rightarrow> view \<Rightarrow> bool" where
  "answered c Outside i v = (i = [] \<and> v = VAbsent)"
| "answered c (Starting rq) i v = (rq_command_id rq = c \<and> i = [] \<and> v = VAbsent)"
| "answered c AwaitBefore i v = (i = [ReplyBefore c (Inl Retired)] \<and> v = VAbsent
     \<or> (\<exists>d. d \<noteq> WaitForCleanupStart \<and> i = [ReplyBefore c (Inr d)] \<and> v = VQuiet (attempt_of d)))"
| "answered c (AwaitIdle f e) i v = (i = [] \<and> quiet v)"
| "answered c (AwaitCleanupAck e) i v = (i = [ReplyCleanup c] \<and> quiet v)"
| "answered c (AwaitLane p) i v = (pu_command p = c \<and> (i = [] \<and> v = VWaiting (pu_attempt p)
     \<or> (\<exists>b. i = [ReplyAcquire c (Inr b)] \<and> v = VHolding (pu_attempt p))))"
| "answered c (Updating p b) i v = (pu_command p = c \<and> i = [] \<and> v = VHolding (pu_attempt p))"
| "answered c (Moving p b) i v = (pu_command p = c \<and> i = [ReplyMove c (Inr ())] \<and> v = VHolding (pu_attempt p))"
| "answered c (Committing p b) i v = (pu_command p = c \<and> i = [] \<and> v = VHolding (pu_attempt p))"
| "answered c (AwaitAfter a u) i v = (\<exists>d. expected (ReplyAfter c (Inr d)) \<and> (i = [ReplyAfter c (Inr d)] \<and> v = after_view d
     \<or> i = [ReplyAfter c (Inr d), Wake c] \<and> after_view d = VBlocked \<and> v = VQuiet None))"
| "answered c (WaitBlocked b x y) i v = (i = [] \<and> v = VBlocked \<or> i = [Wake c] \<and> v = VQuiet None)"
| "answered c (AwaitQueued r) i v = ((\<exists>ts. i = [ReplyQueued c ts]) \<and> quiet v)"
| "answered c (Observing u) i v = (i = [] \<and> v = VActive)"
| "answered c (Executing u) i v = (i = [] \<and> v = VActive)"
| "answered c (Leaving r) i v = (benign r \<and> i = [ReplyRelease c] \<and> v = VAbsent)"
| "answered c (Left r) i v = (benign r \<and> i = [] \<and> v = VAbsent)"
| "answered c Dropped i v = (i = [] \<and> v = VAbsent)"

text \<open>A command whose request has not been handled.\<close>

fun requested :: "command_id \<Rightarrow> 'f phase \<Rightarrow> message \<Rightarrow> view \<Rightarrow> bool" where
  "requested c AwaitBefore m v = (m = BeforeUpdate c \<or> (\<exists>rq. m = Begin rq))"
| "requested c (AwaitCleanupAck e) m v = (m = CleanupCompleted e (Some c))"
| "requested c (AwaitLane p) m v = (pu_command p = c \<and> m = AcquireUpdate c (pu_attempt p))"
| "requested c (Moving p b) m v = (pu_command p = c \<and> m = MoveToBranch c (pu_attempt p) b True)"
| "requested c (AwaitAfter a u) m v = (\<exists>w. m = AfterUpdate c w \<and> cu_attempt w = a \<and> cu_version w = u)"
| "requested c (AwaitQueued r) m v = (m = QueuedTraces c)"
| "requested c (Leaving r) m v = (benign r \<and> m = Release c True \<and> v \<noteq> VBlocked \<and> (\<forall>a. v \<noteq> VWaiting a))"
| "requested c Dropped m v = (\<exists>r. m = Release c r)"
| "requested c ph m v = False"

definition conf :: "command_id \<Rightarrow> 'f phase \<Rightarrow> message list \<Rightarrow> 'f reply list \<Rightarrow> view \<Rightarrow> bool" where
  "conf c ph q i v =
     (v \<noteq> VBroken \<and> (case q of
        [] \<Rightarrow> answered c ph i v
      | [m] \<Rightarrow> i = [] \<and> requested c ph m v \<and> ready m v
      | [m, m'] \<Rightarrow> i = [] \<and> ph = Dropped \<and> ready m v \<and> m' = Release c False
      | _ \<Rightarrow> False))"

lemma conf_ready: "conf c ph (m # q) i v \<Longrightarrow> ready m v"
  by (auto simp: conf_def split: list.splits)

text \<open>The command's own steps.\<close>

definition lands :: "command_id \<Rightarrow> 'f transition \<Rightarrow> 'f reply list \<Rightarrow> view \<Rightarrow> bool" where
  "lands c adv i v = (case adv of (ph, ms, es) \<Rightarrow> conf c ph ms i v)"

lemma lands_leave: "benign res \<Longrightarrow> v \<noteq> VBroken \<Longrightarrow> v \<noteq> VBlocked \<Longrightarrow> (\<And>a. v \<noteq> VWaiting a) \<Longrightarrow> lands c (leave c es res) [] v"
  by (simp add: lands_def leave_def conf_def)

lemma lands_before_decided: "d \<noteq> WaitForCleanupStart \<Longrightarrow> lands c (before_decided c draining d) [] (VQuiet (attempt_of d))"
  by (cases d) (simp_all add: before_decided_def add: lands_def await_cleanup_def conf_def attempt_of_def)

lemma lands_finish_admission: "lands c (finish_admission h c rx :: 'f transition) [] VActive"
proof -
  obtain ph ms es where f: "(finish_admission h c rx :: 'f transition) = (ph, ms, es)"
    by (cases "finish_admission h c rx :: 'f transition")
  then have "(\<exists>r. ph = Leaving r \<and> benign r) \<and> ms = [Release c True] \<or> ph = Observing (rx_version rx) \<and> ms = []"
    by (auto simp: finish_admission_def leave_def benign_def Let_def split: option.splits if_splits prod.splits)
  then show ?thesis by (auto simp: f lands_def conf_def)
qed

lemma lands_after_decided:
  assumes "expected (ReplyAfter c (Inr d))"
  shows "lands c (after_decided h c u d) [] (after_view d)"
proof (cases d)
  case (Outcome dec es)
  with assms show ?thesis
    by (cases dec) (simp_all add: after_decided_def after_view_def lands_leave benign_def lands_finish_admission, simp_all add: lands_def conf_def)
qed (simp_all add: after_decided_def after_view_def lands_def await_cleanup_def wait_for_blocked_command_def conf_def)

lemma lands_woken: "after_view d = VBlocked \<Longrightarrow> lands c (after_decided h c u d) [Wake c] (VQuiet None)"
  by (cases d) (auto simp: after_decided_def after_view_def lands_def wait_for_blocked_command_def conf_def split: admission_decision.splits)

lemma lands_receive:
  assumes "answered c ph (r # rs) v" "v \<noteq> VBroken"
  shows "receive h draining c ph r \<noteq> None \<and> lands c (the (receive h draining c ph r)) rs v"
proof (cases ph)
  case AwaitBefore
  with assms show ?thesis by (auto simp: receive_def lands_leave benign_def lands_before_decided simp del: not_None_eq)
next
  case (AwaitAfter a u)
  with assms show ?thesis by (auto simp: receive_def lands_after_decided lands_woken simp del: expected.simps not_None_eq)
qed (use assms in \<open>auto simp: receive_def quiet_iff lands_leave benign_def rejected_def split: rejection.splits simp del: expected.simps not_None_eq\<close>,
     auto simp: lands_def conf_def quiet_iff benign_def)

lemma conf_receive:
  assumes "conf c ph q (r # rs) v"
  shows "\<exists>ph' ms es. receive h draining c ph r = Some (ph', ms, es) \<and> conf c ph' (q @ ms) rs v"
proof -
  have "q = []" "answered c ph (r # rs) v" "v \<noteq> VBroken" using assms by (auto simp: conf_def split: list.splits)
  with lands_receive [of c ph r rs v h draining] show ?thesis by (auto simp: lands_def)
qed

lemma conf_advance:
  assumes "conf c ph q i v" "advance c p ph inp = Some (ph', ms, es)"
  shows "conf c ph' (q @ ms) i v"
proof -
  have "\<not> requested c ph m v \<and> ph \<noteq> Dropped" for m using assms(2) by (cases ph) (auto simp: advance_def)
  then have q: "q = []" and a: "answered c ph i v" and v: "v \<noteq> VBroken" using assms(1) by (auto simp: conf_def split: list.splits)
  show ?thesis using a v assms(2) unfolding q
    by (cases ph; cases inp) (auto simp: advance_def conf_def leave_def benign_def start_over_def complete_update_def quiet_iff split: option.splits if_splits)
qed

lemma conf_drop:
  assumes "conf c ph q i v" "drop_lease c ph = Some ms"
  shows "conf c Dropped (q @ ms) [] v"
  using assms by (cases ph) (auto simp: conf_def drop_lease_def split: list.splits)

lemma conf_start: "conf c (Starting rq) q i v \<Longrightarrow> conf c AwaitBefore (q @ [Begin rq]) i v \<and> rq_command_id rq = c"
  by (auto simp: conf_def split: list.splits)

text \<open>The coordinator's steps, for the sender of the message and for the others.\<close>

lemma conf_answers:
  assumes "conf c ph (m # q) i v" "sender_of m = Some c" "answers (ph \<noteq> Dropped) m rs v'" "v' \<noteq> VBroken"
  shows "conf c ph q (i @ (if ph \<noteq> Dropped then rs else [])) v'"
proof (cases "ph = Dropped")
  case True
  with assms show ?thesis by (auto simp: conf_def split: list.splits)
next
  case False
  with assms(1) have q: "q = []" "i = []" "requested c ph m v" "ready m v" by (auto simp: conf_def split: list.splits)
  have "answered c ph rs v'" using q(3) assms(2,3) False by (cases ph) (auto simp del: expected.simps)
  with q False assms(4) show ?thesis by (simp add: conf_def)
qed

lemma after_view_not_waiting [simp]: "after_view d \<noteq> VWaiting a" "VWaiting a \<noteq> after_view d" "after_view d \<noteq> VBroken"
  by (auto simp: after_view_def split: post_update_decision.splits admission_decision.splits)

lemma conf_nudged:
  assumes "conf c ph q i v" "nudged c (ph \<noteq> Dropped) v rs v'"
  shows "conf c ph q (i @ (if ph \<noteq> Dropped then rs else [])) v'"
proof (cases "v' = v \<and> rs = []")
  case True
  with assms(1) show ?thesis by auto
next
  case False
  with assms(2) have v: "(\<exists>a. v = VWaiting a) \<or> v = VBlocked" "v' \<noteq> VBroken" by (auto simp: nudged_def)
  show ?thesis
  proof (cases "ph = Dropped")
    case True
    with assms(1) v show ?thesis by (auto simp: conf_def quiet_iff split: list.splits elim: ready.elims)
  next
    case ph: False
    have "\<not> (requested c ph m v \<and> ready m v)" for m using v(1) ph by (cases ph) (auto simp: quiet_iff)
    with assms(1) ph have q: "q = []" "answered c ph i v" by (auto simp: conf_def split: list.splits)
    have "answered c ph (i @ rs) v'" using q(2) assms(2) v(1) ph False
      by (cases ph) (auto simp: nudged_def quiet_iff simp del: expected.simps)
    with q(1) ph v(2) show ?thesis by (simp add: conf_def)
  qed
qed

definition phase_version :: "'f phase \<Rightarrow> version option" where
  "phase_version ph = (case ph of AwaitAfter _ u \<Rightarrow> Some u | Observing u \<Rightarrow> Some u | Executing u \<Rightarrow> Some u | _ \<Rightarrow> None)"


section \<open>What the commands rely on\<close>

definition wanted :: "message \<Rightarrow> (command_id \<Rightarrow> view) \<Rightarrow> bool" where
  "wanted m w \<longleftrightarrow> (\<forall>c. sender_of m = Some c \<longrightarrow> ready m (w c))"

locale coordinator =
  fixes run :: "(command_id \<Rightarrow> bool) \<Rightarrow> 'f \<Rightarrow> 't \<Rightarrow> message \<Rightarrow> ('t \<times> 'f reply list) option"
    and good :: "'t \<Rightarrow> bool"
    and views :: "'t \<Rightarrow> command_id \<Rightarrow> view"
    and current :: "'t \<Rightarrow> version option"
  assumes total: "good t \<Longrightarrow> wanted m (views t) \<Longrightarrow>
      \<exists>t' out. run alive fut t m = Some (t', out) \<and> good t'"
    and others: "good t \<Longrightarrow> wanted m (views t) \<Longrightarrow> run alive fut t m = Some (t', out) \<Longrightarrow>
      sender_of m \<noteq> Some d \<Longrightarrow> nudged d (alive d) (views t d) (replies_to d out) (views t' d)"
    and sender: "good t \<Longrightarrow> wanted m (views t) \<Longrightarrow> run alive fut t m = Some (t', out) \<Longrightarrow>
      sender_of m = Some c \<Longrightarrow> answers (alive c) m (replies_to c out) (views t' c) \<and> views t' c \<noteq> VBroken"
    and admits: "good t \<Longrightarrow> wanted m (views t) \<Longrightarrow> run alive fut t m = Some (t', out) \<Longrightarrow>
      views t' c = VActive \<Longrightarrow> views t c = VActive \<and> current t' = current t
        \<or> (\<exists>u. m = AfterUpdate c u \<and> current t' = Some (cu_version u))"
begin

lemma configured_ready:
  assumes "\<And>c. conf c (ph c) (mine c (m # q)) (inb c) (views t c)"
  shows "wanted m (views t)"
  unfolding wanted_def using assms conf_ready by (metis append_Cons append_Nil mine_simps(2))

lemma configured_step:
  assumes g: "good t" and conf: "\<And>c. conf c (ph c) (mine c (m # q)) (inb c) (views t c)"
    and r: "run (\<lambda>c. ph c \<noteq> Dropped) fut t m = Some (t', out)"
  shows "conf c (ph c) (mine c q) (inb c @ (if ph c \<noteq> Dropped then replies_to c out else [])) (views t' c)"
proof -
  note ready = configured_ready [of ph m q inb t, OF conf]
  show ?thesis
  proof (cases "sender_of m = Some c")
    case True
    with sender [OF g ready r] conf [of c] show ?thesis by (intro conf_answers) auto
  next
    case False
    with others [OF g ready r] conf [of c] show ?thesis by (intro conf_nudged [of c _ _ _ "views t c"]) auto
  qed
qed

lemma configured_versions:
  assumes g: "good t" and conf: "\<And>c. conf c (ph c) (mine c (m # q)) (inb c) (views t c)"
    and r: "run (\<lambda>c. ph c \<noteq> Dropped) fut t m = Some (t', out)"
    and old: "\<And>c u. views t c = VActive \<Longrightarrow> phase_version (ph c) = Some u \<Longrightarrow> current t = Some u"
    and new: "views t' c = VActive" "phase_version (ph c) = Some u"
  shows "current t' = Some u"
proof -
  note ready = configured_ready [of ph m q inb t, OF conf]
  from admits [OF g ready r new(1)] show ?thesis
  proof (elim disjE conjE exE)
    fix w assume w: "m = AfterUpdate c w" "current t' = Some (cu_version w)"
    with conf [of c] have "ph c = Dropped \<or> requested c (ph c) m (views t c)" by (auto simp: conf_def split: list.splits)
    with w new(2) have "cu_version w = u" by (cases "ph c") (auto simp: phase_version_def)
    with w(2) show ?thesis by simp
  qed (use old new(2) in auto)
qed

end

section \<open>The coordinator task provides it\<close>

definition good_task :: "'f admission_task \<Rightarrow> bool" where
  "good_task t \<longleftrightarrow> task_inv t \<and> sound t"

definition active_version :: "'f admission_task \<Rightarrow> version option" where
  "active_version t = (case dice_status (task_data t) of Available v \<Rightarrow> v | _ \<Rightarrow> None)"

interpretation ct: coordinator handle good_task view active_version
proof
  fix t :: "'f admission_task" and m alive fut
  assume g: "good_task t" and w: "wanted m (view t)"
  have r: "ready m (view t c)" if "sender_of m = Some c" for c using w that by (simp add: wanted_def)
  have i: "task_inv t" "sound t" using g by (simp_all add: good_task_def)
  from handle_correct [OF i(1) ready_orderly [of m t], of alive fut] r obtain t' out where
    h: "handle alive fut t m = Some (t', out)" "task_inv t'" "admits_only (task_data t) m (task_data t')" by blast
  note S = handle_serves [OF i, of m]
  show "\<exists>t' out. handle alive fut t m = Some (t', out) \<and> good_task t'"
    using h S [OF _ h(1)] r by (auto simp: good_task_def serves_def)
  fix t2 out2 assume h2: "handle alive fut t m = Some (t2, out2)"
  show "nudged d (alive d) (view t d) (replies_to d out2) (view t2 d)" if "sender_of m \<noteq> Some d" for d
    using S [OF _ h2] r that by (auto simp: serves_def)
  show "answers (alive c) m (replies_to c out2) (view t2 c) \<and> view t2 c \<noteq> VBroken" if "sender_of m = Some c" for c
    using S [OF _ h2] r that by (auto simp: serves_def sound_def)
  fix c assume v: "view t2 c = VActive"
  have t2: "t2 = t'" using h h2 by simp
  have c': "c \<in> set (acts (task_data t'))" using v by (simp add: t2 view_def entries_def del: set_map)
  show "view t c = VActive \<and> active_version t2 = active_version t \<or> (\<exists>u. m = AfterUpdate c u \<and> active_version t2 = Some (cu_version u))"
  proof (cases "c \<in> set (acts (task_data t))")
    case True
    have "view t c = VActive" using i(2) True
      by (cases rule: sound_cases [where c = c]) (simp_all add: view_def entries_def del: set_map)
    moreover have "dice_status (task_data t') = dice_status (task_data t)" using h(3) True c' unfolding admits_only_def by blast
    ultimately show ?thesis by (simp add: t2 active_version_def)
  next
    case False
    with h(3) c' obtain u where "m = AfterUpdate c u" "dice_status (task_data t') = Available (Some (cu_version u))"
      unfolding admits_only_def by blast
    then show ?thesis by (simp add: t2 active_version_def)
  qed
qed

end
