(* ===== verification/Admission_Reachable.thy ===== *)
theory Admission_Reachable
  imports Admission_System
begin

text \<open>
  The invariant of the system of \<^verbatim>\<open>app/buck2_concurrency/src/lib.rs\<close>, in every state it reaches, and what
  it gives: the commands that execute, the one that updates, the replies, the results, and the end.
\<close>

section \<open>The steps on the parts of the system\<close>

abbreviation inbox_of :: "'f system \<Rightarrow> command_id \<Rightarrow> 'f reply list" where
  "inbox_of s c \<equiv> cl_inbox (client s c)"

lemma client_set_client [simp]: "client (set_client c k s) d = (if d = c then k else client s d)"
  by (simp add: client_def set_client_def)

lemma client_frame [simp]:
  "client (s\<lparr>sys_task := t\<rparr>) = client s" "client (s\<lparr>sys_queue := q\<rparr>) = client s" "client (s\<lparr>sys_cleanups := x\<rparr>) = client s"
  "client (s\<lparr>sys_retired := r\<rparr>) = client s" "client (s\<lparr>next_command_id := n\<rparr>) = client s" "client (s\<lparr>sys_stopped := b\<rparr>) = client s"
  by (simp_all add: client_def fun_eq_iff)

lemma set_client_frame [simp]:
  "sys_task (set_client c k s) = sys_task s" "sys_queue (set_client c k s) = sys_queue s" "sys_stopped (set_client c k s) = sys_stopped s"
  by (simp_all add: set_client_def)

lemma send_frame [simp]:
  "client (send ms s) = client s" "sys_task (send ms s) = sys_task s" "sys_stopped (send ms s) = sys_stopped s"
  "sys_queue (send ms s) = (if sys_stopped s then sys_queue s else sys_queue s @ ms)"
  by (simp_all add: send_def)

lemma preempt_all_frame [simp]:
  "sys_task (preempt_all es s) = sys_task s" "sys_queue (preempt_all es s) = sys_queue s" "sys_stopped (preempt_all es s) = sys_stopped s"
  "cl_phase (client (preempt_all es s) d) = cl_phase (client s d)" "cl_inbox (client (preempt_all es s) d) = cl_inbox (client s d)"
  by (induction es s rule: preempt_all.induct) (auto split: command_event.splits)

lemma go_frame [simp]:
  "sys_task (go c (ph, ms, es) s) = sys_task s" "sys_stopped (go c (ph, ms, es) s) = sys_stopped s"
  "sys_queue (go c (ph, ms, es) s) = (if sys_stopped s then sys_queue s else sys_queue s @ ms)"
  "cl_phase (client (go c (ph, ms, es) s) d) = (if d = c then ph else cl_phase (client s d))"
  "cl_inbox (client (go c (ph, ms, es) s) d) = cl_inbox (client s d)"
  by (simp_all add: go_def)

lemma deliver_frame:
  "sys_task (deliver r s) = sys_task s" "sys_queue (deliver r s) = sys_queue s" "sys_stopped (deliver r s) = sys_stopped s"
  "cl_phase (client (deliver r s) d) = cl_phase (client s d)"
  "cl_inbox (client (deliver r s) d) = cl_inbox (client s d) @ (if cl_phase (client s d) \<noteq> Dropped then replies_to d [r] else [])"
  by (cases r; simp add: deliver_def listening_def phase_of_def)+

lemma deliver_all_frame [simp]:
  "sys_task (deliver_all rs s) = sys_task s" "sys_queue (deliver_all rs s) = sys_queue s" "sys_stopped (deliver_all rs s) = sys_stopped s"
  "cl_phase (client (deliver_all rs s) d) = cl_phase (client s d)"
  "cl_inbox (client (deliver_all rs s) d) = cl_inbox (client s d) @ (if cl_phase (client s d) \<noteq> Dropped then replies_to d rs else [])"
  unfolding deliver_all_def by (induction rs arbitrary: s) (simp_all add: deliver_frame)

text \<open>The messages a command sends are its own.\<close>

lemma receive_sends: "receive h x c ph r = Some (ph', ms, es) \<Longrightarrow> m \<in> set ms \<Longrightarrow> sender_of m = Some c"
  by (auto simp: receive_def leave_def before_decided_def after_decided_def await_cleanup_def finish_admission_def
    wait_for_blocked_command_def Let_def split: phase.splits reply.splits sum.splits pre_update_decision.splits
    post_update_decision.splits admission_decision.splits option.splits if_splits prod.splits)

lemma advance_sends:
  "conf c ph q i v \<Longrightarrow> advance c p ph inp = Some (ph', ms, es) \<Longrightarrow> m \<in> set ms \<Longrightarrow> sender_of m = Some c"
  by (cases ph; cases inp) (auto simp: advance_def leave_def start_over_def complete_update_def conf_def split: option.splits if_splits list.splits)

lemma drop_sends: "drop_lease c ph = Some ms \<Longrightarrow> m \<in> set ms \<Longrightarrow> sender_of m = Some c"
  by (auto simp: drop_lease_def split: phase.splits)

lemma stopped_sends: "receive_stopped c ph = Some (ph', ms, es) \<Longrightarrow> m \<in> set ms \<Longrightarrow> sender_of m = Some c"
  by (auto simp: receive_stopped_def leave_def split: phase.splits)

lemma mine_own: "(\<And>m. m \<in> set ms \<Longrightarrow> sender_of m = Some c) \<Longrightarrow> mine d ms = (if d = c then ms else [])"
  by (induction ms) auto

text \<open>The version a command holds does not change on the way.\<close>

lemma receive_version:
  "receive h x c ph r = Some (ph', ms, es) \<Longrightarrow> phase_version ph' = Some u \<Longrightarrow> phase_version ph = Some u"
  by (auto simp: phase_version_def receive_def leave_def before_decided_def after_decided_def await_cleanup_def finish_admission_def
    wait_for_blocked_command_def Let_def split: phase.splits reply.splits sum.splits pre_update_decision.splits
    post_update_decision.splits admission_decision.splits option.splits if_splits prod.splits)

lemma advance_version:
  "conf c ph q i VActive \<Longrightarrow> advance c p ph inp = Some (ph', ms, es) \<Longrightarrow> phase_version ph' = Some u \<Longrightarrow> phase_version ph = Some u"
  by (cases ph; cases inp) (auto simp: phase_version_def advance_def leave_def start_over_def complete_update_def conf_def
    split: option.splits if_splits list.splits)


section \<open>The invariant\<close>

text \<open>A command whose request was in the queue when the coordinator stopped, or is sent after that.\<close>

definition lost :: "'f phase \<Rightarrow> 'f reply list \<Rightarrow> bool" where
  "lost ph i \<longleftrightarrow> i = [] \<and> (ph = AwaitBefore \<or> (\<exists>r. ph = Leaving r \<and> benign r))"

definition placed :: "'f system \<Rightarrow> command_id \<Rightarrow> bool" where
  "placed s c \<longleftrightarrow>
     (if sys_stopped s
      then sys_queue s = [] \<and> view (sys_task s) c = VAbsent
        \<and> (answered c (phase_of s c) (inbox_of s c) VAbsent \<or> lost (phase_of s c) (inbox_of s c))
      else conf c (phase_of s c) (mine c (sys_queue s)) (inbox_of s c) (view (sys_task s) c))"

definition sys_inv :: "'f system \<Rightarrow> bool" where
  "sys_inv s \<longleftrightarrow> good_task (sys_task s) \<and> (\<forall>c. placed s c)
     \<and> (\<forall>c u. view (sys_task s) c = VActive \<longrightarrow> phase_version (phase_of s c) = Some u \<longrightarrow> active_version (sys_task s) = Some u)"

text \<open>A step of one command.\<close>

lemma sys_inv_local:
  assumes inv: "sys_inv s" and t: "sys_task s' = sys_task s" "sys_stopped s' = sys_stopped s"
    and q: "sys_queue s' = (if sys_stopped s then sys_queue s else sys_queue s @ ms)" and own: "\<And>m. m \<in> set ms \<Longrightarrow> sender_of m = Some c"
    and other: "\<And>d. d \<noteq> c \<Longrightarrow> phase_of s' d = phase_of s d \<and> inbox_of s' d = inbox_of s d"
    and run: "\<not> sys_stopped s \<Longrightarrow> conf c (phase_of s c) (mine c (sys_queue s)) (inbox_of s c) (view (sys_task s) c) \<Longrightarrow>
      conf c (phase_of s' c) (mine c (sys_queue s) @ ms) (inbox_of s' c) (view (sys_task s) c)"
    and stop: "sys_stopped s \<Longrightarrow> answered c (phase_of s c) (inbox_of s c) VAbsent \<or> lost (phase_of s c) (inbox_of s c) \<Longrightarrow>
      answered c (phase_of s' c) (inbox_of s' c) VAbsent \<or> lost (phase_of s' c) (inbox_of s' c)"
    and ver: "\<And>u. \<not> sys_stopped s \<Longrightarrow> view (sys_task s) c = VActive \<Longrightarrow> phase_version (phase_of s' c) = Some u \<Longrightarrow> phase_version (phase_of s c) = Some u"
  shows "sys_inv s'"
proof -
  have p: "placed s d" for d using inv by (simp add: sys_inv_def)
  have "placed s' d" for d
  proof (cases "d = c")
    case True
    show ?thesis
    proof (cases "sys_stopped s")
      case st: True
      with p [of c] stop show ?thesis by (simp add: placed_def t q True)
    next
      case False
      with p [of c] run show ?thesis by (simp add: placed_def t q True mine_own [OF own])
    qed
  next
    case False
    with p [of d] other [OF False] show ?thesis by (simp add: placed_def t q mine_own [OF own])
  qed
  moreover have "active_version (sys_task s) = Some u" if v: "view (sys_task s) d = VActive" and u: "phase_version (phase_of s' d) = Some u" for d u
  proof -
    have "\<not> sys_stopped s" using p [of d] v by (auto simp: placed_def)
    then have "phase_version (phase_of s d) = Some u" using ver other u v by (cases "d = c") auto
    with inv v show ?thesis by (simp add: sys_inv_def)
  qed
  ultimately show ?thesis using inv by (simp add: sys_inv_def t)
qed

lemma sys_inv_new: "sys_inv (system_new b)"
  using task_new_inv [of b]
  by (simp add: sys_inv_def placed_def system_new_def good_task_def sound_def task_new_view phase_of_def conf_def client_def)

text \<open>A step of the coordinator.\<close>

lemma drained_view:
  assumes "good_task t" "drained t"
  shows "view t c = VAbsent"
proof -
  have "task_inv t" "sound t" using assms(1) by (simp_all add: good_task_def)
  then have "active_commands (task_data t) = []" "pending_commands (task_data t) = []" "lane_of t c = None" "update_waiters t = []"
    "blocked_waiters t = []" using assms(2) by (auto simp: drained_def lane_of_def task_inv_def blocked_inv_def)
  then show ?thesis by (simp add: view_def entries_def)
qed

lemma conf_drained:
  assumes "conf c ph q i VAbsent"
  shows "answered c ph i VAbsent \<or> lost ph i"
proof (cases q)
  case Nil
  with assms show ?thesis by (simp add: conf_def)
next
  case (Cons m q')
  with assms have "ready m VAbsent" "i = []" "ph = Dropped \<or> requested c ph m VAbsent" by (auto simp: conf_def split: list.splits)
  then show ?thesis by (cases ph) (auto simp: lost_def quiet_iff)
qed

lemma sys_inv_coordinate:
  assumes inv: "sys_inv s" and q: "sys_queue s = m # q"
  shows "\<exists>t' out. handle (listening s) fut (sys_task s) m = Some (t', out) \<and> (\<forall>s'. coordinate fut s = Next s' \<longrightarrow> sys_inv s')"
proof -
  let ?t = "sys_task s"
  have alive: "listening s = (\<lambda>c. phase_of s c \<noteq> Dropped)" by (simp add: listening_def fun_eq_iff)
  have g: "good_task ?t" and p: "\<And>c. placed s c" using inv by (simp_all add: sys_inv_def)
  have run: "\<not> sys_stopped s" using p [of 0] q by (auto simp: placed_def)
  have conf: "conf c (phase_of s c) (mine c (m # q)) (inbox_of s c) (view ?t c)" for c using p [of c] run q by (simp add: placed_def)
  from ct.total [OF g ct.configured_ready [of "phase_of s" m q "inbox_of s", OF conf], of "listening s" fut] obtain t' out where
    h: "handle (listening s) fut ?t m = Some (t', out)" "good_task t'" by blast
  let ?s1 = "deliver_all out (s\<lparr>sys_task := t', sys_queue := q\<rparr>)"
  let ?s2 = "if drained t' then ?s1\<lparr>sys_queue := [], sys_stopped := True\<rparr> else ?s1"
  have fr: "phase_of ?s2 c = phase_of s c" "inbox_of ?s2 c = inbox_of s c @ (if phase_of s c \<noteq> Dropped then replies_to c out else [])" for c
    by (simp_all add: phase_of_def)
  have conf': "conf c (phase_of ?s2 c) (mine c q) (inbox_of ?s2 c) (view t' c)" for c
    unfolding fr using ct.configured_step [of ?t "phase_of s" m q "inbox_of s", OF g conf h(1) [unfolded alive]] .
  have "placed ?s2 c" for c
  proof (cases "drained t'")
    case True
    then have "view t' c = VAbsent" by (rule drained_view [OF h(2)])
    with conf' [of c] conf_drained [of c "phase_of ?s2 c" "mine c q" "inbox_of ?s2 c"] True show ?thesis by (simp add: placed_def)
  next
    case False
    with conf' [of c] run show ?thesis by (simp add: placed_def)
  qed
  moreover have "active_version t' = Some u" if "view t' c = VActive" "phase_version (phase_of s c) = Some u" for c u
    by (rule ct.configured_versions [of ?t "phase_of s" m q "inbox_of s", OF g conf h(1) [unfolded alive] _ that])
      (use inv in \<open>simp add: sys_inv_def\<close>)
  ultimately have "sys_inv ?s2" using h(2) by (auto simp: sys_inv_def fr simp del: if_split)
  with h(1) q show ?thesis by (auto simp: coordinate_def Let_def)
qed


text \<open>Every step keeps the invariant.\<close>

lemma sys_inv_enter:
  assumes inv: "sys_inv s" and p: "perform h s (Enter request) = Next s'"
  shows "sys_inv s'"
proof -
  let ?c = "next_command_id s"
  have o: "phase_of s ?c = Outside" and s': "s' = set_client ?c ((client s ?c)\<lparr>cl_phase := Starting (request\<lparr>rq_command_id := ?c\<rparr>),
      cl_request := Some (request\<lparr>rq_command_id := ?c\<rparr>)\<rparr>)
      (s\<lparr>next_command_id := usize_succ ?c\<rparr>)"
    using p by (auto simp: perform_def Let_def split: if_splits)
  show ?thesis
    by (rule sys_inv_local [OF inv, of s' "[]" ?c])
      (use o in \<open>auto simp: s' set_client_def phase_of_def client_def conf_def lost_def phase_version_def split: list.splits\<close>)
qed

lemma sys_inv_start:
  assumes inv: "sys_inv s" and p: "perform h s (StartWaiting c) = Next s'"
  shows "sys_inv s'"
proof -
  obtain rq where o: "phase_of s c = Starting rq" and s': "s' = go c (AwaitBefore, [Begin rq], []) s"
    using p by (auto simp: perform_def split: phase.splits)
  have "placed s c" using inv by (simp add: sys_inv_def)
  then have rq: "rq_command_id rq = c" using o by (auto simp: placed_def conf_def lost_def split: list.splits if_splits)
  show ?thesis
    by (rule sys_inv_local [OF inv, of s' "[Begin rq]" c])
      (use o rq in \<open>auto simp: s' phase_of_def lost_def phase_version_def dest: conf_start\<close>)
qed

lemma after_view_present [simp]: "after_view d \<noteq> VAbsent" "VAbsent \<noteq> after_view d"
  by (auto simp: after_view_def split: post_update_decision.splits admission_decision.splits)

lemma stopped_receive:
  assumes "answered c ph (r # rs) VAbsent \<or> lost ph (r # rs)" "receive h x c ph r = Some (ph', ms, es)"
  shows "answered c ph' rs VAbsent \<or> lost ph' rs"
  using assms by (cases ph) (auto simp: lost_def receive_def leave_def benign_def quiet_iff)

lemma sys_inv_receive:
  assumes inv: "sys_inv s" and p: "perform h s (Receive c x) = Next s'"
  shows "sys_inv s'"
proof -
  obtain r rs ph ms es where i: "inbox_of s c = r # rs" and r: "receive h x c (phase_of s c) r = Some (ph, ms, es)"
    and s': "s' = go c (ph, ms, es) (set_client c ((client s c)\<lparr>cl_inbox := rs\<rparr>) s)"
    using p by (fastforce simp: perform_def split: list.splits option.splits)
  show ?thesis
  proof (rule sys_inv_local [OF inv, of s' ms c])
    show "\<And>m. m \<in> set ms \<Longrightarrow> sender_of m = Some c" by (rule receive_sends [OF r])
    show "phase_version (phase_of s c) = Some u" if "phase_version (phase_of s' c) = Some u" for u
      by (rule receive_version [OF r]) (use that in \<open>simp add: s' phase_of_def\<close>)
    show "conf c (phase_of s' c) (mine c (sys_queue s) @ ms) (inbox_of s' c) (view (sys_task s) c)"
      if "conf c (phase_of s c) (mine c (sys_queue s)) (inbox_of s c) (view (sys_task s) c)"
      using conf_receive [OF that [unfolded i], of h x] r by (simp add: s' phase_of_def)
    show "answered c (phase_of s' c) (inbox_of s' c) VAbsent \<or> lost (phase_of s' c) (inbox_of s' c)"
      if "answered c (phase_of s c) (inbox_of s c) VAbsent \<or> lost (phase_of s c) (inbox_of s c)"
      using stopped_receive [OF that [unfolded i] r] by (simp add: s' phase_of_def)
  qed (simp_all add: s' phase_of_def)
qed

lemma sys_inv_receive_stopped:
  assumes inv: "sys_inv s" and p: "perform h s (ReceiveStopped c) = Next s'"
  shows "sys_inv s'"
proof -
  obtain ph ms es where i: "sys_stopped s" "inbox_of s c = []" and r: "receive_stopped c (phase_of s c) = Some (ph, ms, es)"
    and s': "s' = go c (ph, ms, es) s"
    using p by (auto simp: perform_def split: if_splits option.splits)
  show ?thesis
  proof (rule sys_inv_local [OF inv, of s' ms c])
    show "\<And>m. m \<in> set ms \<Longrightarrow> sender_of m = Some c" by (rule stopped_sends [OF r])
    show "answered c (phase_of s' c) (inbox_of s' c) VAbsent \<or> lost (phase_of s' c) (inbox_of s' c)"
      if "answered c (phase_of s c) (inbox_of s c) VAbsent \<or> lost (phase_of s c) (inbox_of s c)"
      using that r i(2) by (cases "phase_of s c") (auto simp: s' phase_of_def lost_def receive_stopped_def leave_def benign_def)
  qed (use i in \<open>simp_all add: s' phase_of_def\<close>)
qed

lemma sys_inv_input:
  assumes inv: "sys_inv s" and p: "perform h s (Input c inp) = Next s'"
  shows "sys_inv s'"
proof -
  obtain ph ms es where r: "advance c (cl_preempted (client s c)) (phase_of s c) inp = Some (ph, ms, es)" and s': "s' = go c (ph, ms, es) s"
    using p by (auto simp: perform_def split: option.splits)
  have pl: "placed s c" using inv by (simp add: sys_inv_def)
  have run: "\<not> sys_stopped s"
  proof
    assume "sys_stopped s"
    with pl r show False by (cases "phase_of s c") (auto simp: placed_def lost_def advance_def quiet_iff)
  qed
  with pl have cf: "conf c (phase_of s c) (mine c (sys_queue s)) (inbox_of s c) (view (sys_task s) c)" by (simp add: placed_def)
  show ?thesis
  proof (rule sys_inv_local [OF inv, of s' ms c])
    show "\<And>m. m \<in> set ms \<Longrightarrow> sender_of m = Some c" by (rule advance_sends [OF cf r])
    show "phase_version (phase_of s c) = Some u" if "view (sys_task s) c = VActive" "phase_version (phase_of s' c) = Some u" for u
      by (rule advance_version [OF cf [unfolded that(1)] r]) (use that in \<open>simp add: s' phase_of_def\<close>)
    show "conf c (phase_of s' c) (mine c (sys_queue s) @ ms) (inbox_of s' c) (view (sys_task s) c)"
      using conf_advance [OF cf r] by (simp add: s' phase_of_def)
  qed (use run in \<open>simp_all add: s' phase_of_def\<close>)
qed

lemma sys_inv_drop:
  assumes inv: "sys_inv s" and p: "perform h s (DropCommand c) = Next s'"
  shows "sys_inv s'"
proof -
  obtain ms where r: "drop_lease c (phase_of s c) = Some ms"
    and s': "s' = preempt_all (unread_effects (inbox_of s c)) (send ms (set_client c ((client s c)\<lparr>cl_phase := Dropped, cl_inbox := []\<rparr>) s))"
    using p by (auto simp: perform_def split: option.splits)
  show ?thesis
  proof (rule sys_inv_local [OF inv, of s' ms c])
    show "\<And>m. m \<in> set ms \<Longrightarrow> sender_of m = Some c" by (rule drop_sends [OF r])
    show "conf c (phase_of s' c) (mine c (sys_queue s) @ ms) (inbox_of s' c) (view (sys_task s) c)"
      if "conf c (phase_of s c) (mine c (sys_queue s)) (inbox_of s c) (view (sys_task s) c)"
      using conf_drop [OF that r] by (simp add: s' phase_of_def)
  qed (simp_all add: s' phase_of_def phase_version_def)
qed

lemma sys_inv_send:
  assumes inv: "sys_inv s" and "sender_of m = None" "sys_task s1 = sys_task s" "sys_queue s1 = sys_queue s" "sys_stopped s1 = sys_stopped s" "client s1 = client s"
  shows "sys_inv (send [m] s1)"
  using assms by (auto simp: sys_inv_def placed_def phase_of_def)

lemma perform_panicked: "perform h s a = Panicked \<Longrightarrow> \<exists>fut. a = Coordinate fut"
  by (cases a) (auto simp: perform_def Let_def split: phase.splits list.splits option.splits if_splits)

theorem sys_inv_perform:
  assumes inv: "sys_inv s"
  shows "perform h s a \<noteq> Panicked \<and> (\<forall>s'. perform h s a = Next s' \<longrightarrow> sys_inv s')"
proof (cases a)
  case (Coordinate fut)
  show ?thesis
  proof (cases "sys_queue s")
    case Nil
    with Coordinate show ?thesis by (simp add: perform_def coordinate_def)
  next
    case (Cons m q)
    from sys_inv_coordinate [OF inv Cons, of fut] Coordinate Cons show ?thesis by (auto simp: perform_def coordinate_def Let_def)
  qed
next
  case (CleanupFinished e)
  then show ?thesis using sys_inv_send [OF inv, of "CleanupCompleted e None" "s\<lparr>sys_cleanups := remove1 e (sys_cleanups s)\<rparr>"]
    by (simp add: perform_def)
next
  case RetireHandler
  then show ?thesis using sys_inv_send [OF inv, of Retire s] by (simp add: perform_def)
qed (use perform_panicked [of h s a] sys_inv_enter [OF inv] sys_inv_start [OF inv] sys_inv_receive [OF inv]
      sys_inv_receive_stopped [OF inv] sys_inv_input [OF inv] sys_inv_drop [OF inv] in blast)+

lemma system_run_inv: "system_run h s \<Longrightarrow> sys_inv s"
proof (induction rule: system_run.induct)
  case (step s action s')
  with sys_inv_perform [OF step.IH, of h action] show ?case by blast
qed (rule sys_inv_new)


section \<open>What the invariant gives\<close>

lemma sys_inv_placed: "sys_inv s \<Longrightarrow> placed s c"
  by (simp add: sys_inv_def)

lemmas placed_defs = placed_def conf_def lost_def quiet_iff

lemma placed_running:
  assumes "placed s c" "phase_of s c = Observing u \<or> phase_of s c = Executing u"
  shows "view (sys_task s) c = VActive"
  using assms by (auto simp: placed_defs split: if_splits list.splits)

lemma executing_version: "sys_inv s \<Longrightarrow> phase_of s c = Executing v \<Longrightarrow> active_version (sys_task s) = Some v"
  using placed_running [of s c v] by (auto simp: sys_inv_def phase_version_def dest: spec [of _ c])

lemma placed_updating:
  assumes "placed s c" "phase_of s c = Updating p b \<or> phase_of s c = Moving p b \<or> phase_of s c = Committing p b"
  shows "view (sys_task s) c = VHolding (pu_attempt p)"
  using assms by (auto simp: placed_defs split: if_splits list.splits)

lemma placed_stopped:
  assumes "placed s c" "sys_stopped s"
  shows "phase_of s c = Outside \<or> (\<exists>rq. phase_of s c = Starting rq) \<or> phase_of s c = AwaitBefore
    \<or> (\<exists>r. phase_of s c = Leaving r \<or> phase_of s c = Left r) \<or> phase_of s c = Dropped"
  using assms by (cases "phase_of s c") (auto simp: placed_defs)

lemma placed_left: "placed s c \<Longrightarrow> phase_of s c = Left r \<Longrightarrow> benign r"
  by (auto simp: placed_defs split: if_splits list.splits)

text \<open>No message and no reply is under way.\<close>

definition quiescent :: "'f system \<Rightarrow> bool" where
  "quiescent s \<longleftrightarrow> sys_queue s = [] \<and> list_all (\<lambda>(c, k). cl_inbox k = []) (sys_clients s)"

lemma quiescent_inbox: "quiescent s \<Longrightarrow> inbox_of s c = []"
  by (force simp: quiescent_def client_def list_all_iff split: option.splits dest: map_of_SomeD)

lemma quiescent_active:
  assumes inv: "sys_inv s" and q: "quiescent s" and v: "view (sys_task s) c = VActive"
  shows "\<exists>u. phase_of s c = Observing u \<or> phase_of s c = Executing u"
proof -
  have "placed s c" "inbox_of s c = []" "sys_queue s = []"
    using sys_inv_placed [OF inv] quiescent_inbox [OF q] q by (simp_all add: quiescent_def)
  with v show ?thesis by (cases "phase_of s c") (auto simp: placed_defs split: if_splits)
qed

lemma quiescent_holding:
  assumes inv: "sys_inv s" and q: "quiescent s" and v: "view (sys_task s) c = VHolding a"
  shows "\<exists>p b. phase_of s c = Updating p b \<or> phase_of s c = Committing p b"
proof -
  have "placed s c" "inbox_of s c = []" "sys_queue s = []"
    using sys_inv_placed [OF inv] quiescent_inbox [OF q] q by (simp_all add: quiescent_def)
  with v show ?thesis by (cases "phase_of s c") (auto simp: placed_defs split: if_splits)
qed

lemma blocked_behind_active:
  assumes "good_task t" "view t c = VBlocked"
  shows "\<exists>d. view t d = VActive"
proof -
  have i: "task_inv t" "sound t" using assms(1) by (simp_all add: good_task_def)
  have "c \<in> set (blocked_waiters t)" using assms(2) by (simp add: view_def entries_def)
  then have "acts (task_data t) \<noteq> []" using task_invD(4) [OF i(1)] by (auto simp: blocked_inv_def)
  then obtain d where d: "d \<in> set (acts (task_data t))" by (metis list.set_intros(1) neq_Nil_conv)
  have "view t d = VActive" using i(2) d by (cases rule: sound_cases [where c = d]) (simp_all add: view_def entries_def del: set_map)
  then show ?thesis ..
qed

lemma waiting_behind_holder:
  assumes "good_task t" "view t c = VWaiting a"
  shows "\<exists>d b. view t d = VHolding b"
proof -
  have i: "task_inv t" "sound t" using assms(1) by (simp_all add: good_task_def)
  have "update_waiters t \<noteq> []" using assms(2) by (auto simp: view_def entries_def)
  then obtain d b where d: "update_in_flight t = Some (d, b)" using task_invD(3) [OF i(1)] by (cases "update_in_flight t") auto
  have "view t d = VHolding b" using i(2) d by (cases rule: sound_cases [where c = d]) (auto simp: view_def entries_def lane_of_def)
  then show ?thesis by blast
qed

text \<open>What a command can be doing then: nothing, work of its own, or waiting for a command that works.\<close>

definition waits_justified :: "'f system \<Rightarrow> command_id \<Rightarrow> bool" where
  "waits_justified s c \<longleftrightarrow>
     (case phase_of s c of
        AwaitLane _ \<Rightarrow> \<exists>d p b. phase_of s d = Updating p b \<or> phase_of s d = Committing p b
      | WaitBlocked _ _ _ \<Rightarrow> \<exists>d u. phase_of s d = Observing u \<or> phase_of s d = Executing u
      | AwaitBefore \<Rightarrow> sys_stopped s
      | Leaving _ \<Rightarrow> sys_stopped s
      | AwaitCleanupAck _ \<Rightarrow> False
      | Moving _ _ \<Rightarrow> False
      | AwaitAfter _ _ \<Rightarrow> False
      | AwaitQueued _ \<Rightarrow> False
      | _ \<Rightarrow> True)"

lemma quiescent_justified:
  assumes inv: "sys_inv s" and q: "quiescent s"
  shows "waits_justified s c"
proof -
  have g: "good_task (sys_task s)" using inv by (simp add: sys_inv_def)
  have p: "placed s c" "inbox_of s c = []" "sys_queue s = []"
    using sys_inv_placed [OF inv] quiescent_inbox [OF q] q by (simp_all add: quiescent_def)
  show ?thesis
  proof (cases "phase_of s c")
    case (AwaitLane pu)
    with p have "view (sys_task s) c = VWaiting (pu_attempt pu)" by (auto simp: placed_defs split: if_splits)
    from waiting_behind_holder [OF g this] quiescent_holding [OF inv q] AwaitLane show ?thesis by (fastforce simp: waits_justified_def)
  next
    case (WaitBlocked b x y)
    with p have "view (sys_task s) c = VBlocked" by (auto simp: placed_defs split: if_splits)
    from blocked_behind_active [OF g this] quiescent_active [OF inv q] WaitBlocked show ?thesis by (fastforce simp: waits_justified_def)
  qed (use p in \<open>auto simp: placed_defs waits_justified_def split: if_splits\<close>)
qed

end
