(* ===== verification/Admission_Preempt.thy ===== *)
theory Admission_Preempt
  imports Admission_Reachable
begin

text \<open>
  Preemption in \<^verbatim>\<open>app/buck2_concurrency/src/lib.rs\<close>: only commands that asked to be preemptible are preempted.
  The setting of a command travels with its request through the queue, the pending and the active commands; the
  effects of a comparison name active commands whose setting allows it.
\<close>

section \<open>Settings in the coordinator\<close>

abbreviation setting :: "admission_request \<Rightarrow> preemptible_when" where
  "setting rq \<equiv> cd_preemption_setting (rq_command rq)"

definition settings_ok :: "(command_id \<Rightarrow> preemptible_when option) \<Rightarrow> 'f coordinator_state \<Rightarrow> bool" where
  "settings_ok f st \<longleftrightarrow> (\<forall>(c, p)\<in>set (pending_commands st). f c = Some (setting (pc_request p)) \<and> rq_command_id (pc_request p) = c)
     \<and> (\<forall>(c, d)\<in>set (active_commands st). f c = Some (cd_preemption_setting d))"

definition effects_ok :: "(command_id \<Rightarrow> preemptible_when option) \<Rightarrow> admission_effects \<Rightarrow> bool" where
  "effects_ok f es \<longleftrightarrow> (\<forall>c x. Preempt c x \<in> set es \<longrightarrow> (\<exists>w. f c = Some w \<and> w \<noteq> Never))"

lemma effects_ok_simps [simp]:
  "effects_ok f []" "effects_ok f (DiceEquality b # es) = effects_ok f es" "effects_ok f (es @ es') \<longleftrightarrow> effects_ok f es \<and> effects_ok f es'"
  "effects_ok f (Preempt c x # es) \<longleftrightarrow> (\<exists>w. f c = Some w \<and> w \<noteq> Never) \<and> effects_ok f es"
  by (auto simp: effects_ok_def)

lemma take_preemptions_ok:
  assumes "\<forall>(c, d)\<in>set m. f c = Some (cd_preemption_setting d)" "take_preemptions same m = (es, m')"
  shows "effects_ok f es \<and> (\<forall>(c, d)\<in>set m'. f c = Some (cd_preemption_setting d))"
  using assms
proof (induction same m arbitrary: es m' rule: take_preemptions.induct)
  case (2 same c d rest)
  obtain es1 m1 where r: "take_preemptions same rest = (es1, m1)" by fastforce
  from 2 r have IH: "effects_ok f es1" "\<forall>(c, d)\<in>set m1. f c = Some (cd_preemption_setting d)" by auto
  have "cd_preemption_setting d \<noteq> Never" if "preempts same (cd_preemption_setting d)" using that by (auto simp: preempts_def)
  with 2(2,3) r IH show ?case by (auto split: option.splits if_splits)
qed simp

lemma after_state_comparison_ok:
  assumes "settings_ok f st" "after_state_comparison st same = (es, st')"
  shows "effects_ok f es" "settings_ok f st'"
proof -
  obtain ps m where t: "take_preemptions same (active_commands st) = (ps, m)" by fastforce
  from take_preemptions_ok [OF _ t, of f] assms(1)
  have "effects_ok f ps" "\<forall>(c, d)\<in>set m. f c = Some (cd_preemption_setting d)" by (auto simp: settings_ok_def)
  with assms t show "effects_ok f es" "settings_ok f st'"
    by (auto simp: after_state_comparison_def settings_ok_def Let_def split: if_splits)
qed

lemma restore_preemption_ok: "settings_ok f st \<Longrightarrow> settings_ok f (restore_preemption st e)"
  by (auto simp: restore_preemption_def settings_ok_def split: admission_effect.splits option.splits dest!: alist_update_member map_of_SomeD)

lemma restore_preemptions_ok: "settings_ok f st \<Longrightarrow> settings_ok f (restore_preemptions es st)"
  unfolding restore_preemptions_def by (induction es arbitrary: st) (simp_all add: restore_preemption_ok)

lemma settings_ok_pending:
  "settings_ok f st \<Longrightarrow> (\<And>c p. (c, p) \<in> set m \<Longrightarrow> f c = Some (setting (pc_request p)) \<and> rq_command_id (pc_request p) = c) \<Longrightarrow>
    settings_ok f (st\<lparr>pending_commands := m\<rparr>)"
  by (auto simp: settings_ok_def)

lemma settings_ok_frame [simp]:
  "settings_ok f (st\<lparr>dice_status := a\<rparr>) = settings_ok f st" "settings_ok f (st\<lparr>next_update_attempt := n\<rparr>) = settings_ok f st"
  "settings_ok f (st\<lparr>cleanup_epoch := n\<rparr>) = settings_ok f st" "settings_ok f (st\<lparr>state_tainted := b\<rparr>) = settings_ok f st"
  by (simp_all add: settings_ok_def)

lemma settings_ok_set_pending:
  assumes "settings_ok f st" "f c = Some (setting (pc_request p))" "rq_command_id (pc_request p) = c"
  shows "settings_ok f (st\<lparr>pending_commands := AList.update c p (pending_commands st)\<rparr>)"
  using assms by (intro settings_ok_pending) (auto simp: settings_ok_def dest!: alist_update_member)

lemma settings_ok_delete:
  "settings_ok f st \<Longrightarrow> settings_ok f (st\<lparr>pending_commands := AList.delete c (pending_commands st)\<rparr>)"
  "settings_ok f st \<Longrightarrow> settings_ok f (st\<lparr>active_commands := AList.delete c (active_commands st)\<rparr>)"
  by (auto simp: settings_ok_def dest!: alist_delete_member)

lemma settings_ok_pend: "settings_ok f st \<Longrightarrow> pend st c = Some p \<Longrightarrow> f c = Some (setting (pc_request p)) \<and> rq_command_id (pc_request p) = c"
  by (force simp: settings_ok_def dest: map_of_SomeD)


section \<open>Settings under the decisions\<close>

lemma decide_before_update_for_ok:
  assumes "settings_ok f st" "decide_before_update_for st c = (r, st')"
  shows "settings_ok f st'"
proof (cases rule: decide_before_update_for_cases [of st c])
  case 1
  with assms show ?thesis by simp
next
  case (2 p d n a)
  have "settings_ok f (st\<lparr>pending_commands := AList.update c (p\<lparr>pc_update_attempt := a\<rparr>) (pending_commands st)\<rparr>)"
    by (rule settings_ok_set_pending [OF assms(1)]) (use settings_ok_pend [OF assms(1) 2(1)] in simp_all)
  with 2(2) assms(2) show ?thesis by (auto simp: settings_ok_def)
qed

lemma begin_admission_ok:
  assumes "settings_ok f st" "f (rq_command_id rq) = Some (setting rq)" "begin_admission st rq = (r, st')"
  shows "settings_ok f st'"
proof -
  have "settings_ok f (st\<lparr>pending_commands := AList.update (rq_command_id rq) \<lparr>pc_request = rq, pc_update_attempt = None\<rparr> (pending_commands st)\<rparr>)"
    by (rule settings_ok_set_pending [OF assms(1)]) (use assms(2) in simp_all)
  with assms decide_before_update_for_ok show ?thesis by (auto simp: begin_admission_def Let_def split: if_splits)
qed

lemma decide_after_update_ok:
  assumes ok: "settings_ok f st" and d: "decide_after_update st rq u = Some (r, st')"
  shows "settings_ok f st' \<and> (\<forall>x es. r = Inr (Retain x es) \<or> (\<exists>a. r = Inr (AdmitPending a es)) \<longrightarrow> effects_ok f es)"
proof -
  obtain es1 st1 where c1: "after_state_comparison st True = (es1, st1)" by fastforce
  obtain es2 st2 where c2: "after_state_comparison st False = (es2, st2)" by fastforce
  note O = after_state_comparison_ok [OF ok c1] after_state_comparison_ok [OF ok c2]
  have "(\<exists>x. (r = Inl x \<or> (\<exists>d. r = Inr (Retain d [])) \<or> (\<exists>a. r = Inr (AdmitPending a []))) \<and> settings_ok f st')
     \<or> (\<exists>a. r = Inr (AdmitPending a es1) \<and> st' = st1) \<or> (\<exists>x. r = Inr (Retain x es2) \<and> st' = st2)"
    using d ok c1 c2
    by (auto simp: decide_after_update_def retain_after_comparison_def begin_cleanup_def Let_def
      split: if_splits dice_status.splits option.splits sum.splits bypass_semaphore.splits list.splits prod.splits)
  with O show ?thesis by auto
qed

lemma admit_command_ok:
  assumes "settings_ok f st" "f (rq_command_id rq) = Some (setting rq)" "admit_command st rq a = Some (d, st')"
  shows "settings_ok f st'"
  using assms by (auto simp: admit_command_def register_command_def settings_ok_def Let_def split: sum.splits if_splits dest!: alist_update_member)

lemma decide_after_update_for_ok:
  assumes ok: "settings_ok f st" and d: "decide_after_update_for st c u = Some (r, st')"
  shows "settings_ok f st' \<and> (\<forall>x es. r = Inr (x, es) \<longrightarrow> effects_ok f es)"
proof (cases "ensure_update_attempt_current st c (cu_attempt u)")
  case (Inl e)
  with assms show ?thesis by (auto simp: decide_after_update_for_def)
next
  case (Inr x)
  then obtain p where p: "pend st c = Some p" by (auto simp: ensure_update_attempt_current_def split: option.splits)
  let ?rq = "pc_request p" and ?st1 = "st\<lparr>pending_commands := AList.delete c (pending_commands st)\<rparr>"
  note S = settings_ok_pend [OF ok p]
  obtain r2 st2 where d2: "decide_after_update ?st1 ?rq u = Some (r2, st2)"
    using d Inr p by (auto simp: decide_after_update_for_def Let_def bind_eq_Some_conv)
  note D = decide_after_update_ok [OF settings_ok_delete(1) [OF ok] d2]
  have re: "settings_ok f (st2\<lparr>pending_commands := AList.update c \<lparr>pc_request = ?rq, pc_update_attempt = None\<rparr> (pending_commands st2)\<rparr>)"
    by (rule settings_ok_set_pending) (use D S in auto)
  show ?thesis
  proof (cases "\<exists>a es. r2 = Inr (AdmitPending a es)")
    case True
    then obtain a es where r2: "r2 = Inr (AdmitPending a es)" by blast
    then obtain x where ad: "admit_command st2 ?rq a = Some (x, st')" "r = Inr (x, es)"
      using d d2 Inr p by (auto simp: decide_after_update_for_def Let_def bind_eq_Some_conv)
    from admit_command_ok [OF conjunct1 [OF D] _ ad(1)] S D r2 ad(2) show ?thesis by auto
  next
    case False
    with d d2 Inr p D re show ?thesis
      by (auto simp: decide_after_update_for_def Let_def split: sum.splits pending_admission_decision.splits)
  qed
qed

lemma release_pending_or_active_ok: "settings_ok f st \<Longrightarrow> release_pending_or_active st c = Some (e, st') \<Longrightarrow> settings_ok f st'"
  by (auto simp: release_pending_or_active_def apply_event_def settings_ok_delete Let_def split: if_splits option.splits)

lemma apply_event_ok:
  assumes "settings_ok f st" "apply_event st e = Some (x, st')"
  shows "settings_ok f st'"
  using assms by (cases e) (auto simp: apply_event_def settings_ok_delete Let_def split: if_splits option.splits dice_status.splits)


section \<open>Settings under the messages\<close>

definition reply_effects :: "'f reply \<Rightarrow> admission_effects" where
  "reply_effects r =
     (case r of
        ReplyAfter _ (Inr (Outcome _ es)) \<Rightarrow> es
      | ReplyAfter _ (Inr (PostBlock _ es)) \<Rightarrow> es
      | _ \<Rightarrow> [])"

definition replies_ok :: "(command_id \<Rightarrow> preemptible_when option) \<Rightarrow> 'f reply list \<Rightarrow> bool" where
  "replies_ok f rs \<longleftrightarrow> (\<forall>r\<in>set rs. effects_ok f (reply_effects r))"

lemma replies_ok_simps [simp]:
  "replies_ok f []" "replies_ok f (r # rs) \<longleftrightarrow> effects_ok f (reply_effects r) \<and> replies_ok f rs"
  "replies_ok f (rs @ rs') \<longleftrightarrow> replies_ok f rs \<and> replies_ok f rs'"
  by (auto simp: replies_ok_def)

lemma grant_ok:
  assumes "grant_next_update alive t = (t', out)"
  shows "task_data t' = task_data t" "replies_ok f out"
proof -
  have "reply_effects r = []" if "r \<in> set out" for r
    using grant_loop_replies [of alive "task_data t" "task_branch t" "update_waiters t" _ _ _ r] assms that
    by (fastforce simp: grant_next_update_def reply_effects_def split: if_splits prod.splits)
  then show "replies_ok f out" by (simp add: replies_ok_def)
  show "task_data t' = task_data t" using assms by (auto simp: grant_next_update_def split: if_splits prod.splits)
qed

lemma apply_effect_ok: "apply_effect t e = (t', out) \<Longrightarrow> task_data t' = task_data t \<and> replies_ok f out"
  by (auto simp: apply_effect_def replies_ok_def reply_effects_def split: state_effect.splits)

lemma finish_update_ok: "finish_update alive t c a = (t', out) \<Longrightarrow> task_data t' = task_data t \<and> replies_ok f out"
  using grant_ok(1) [of alive "t\<lparr>update_in_flight := None\<rparr>" t' out] grant_ok(2) [of alive "t\<lparr>update_in_flight := None\<rparr>" t' out f] by (auto simp: finish_update_def split: if_splits)

lemma release_command_ok:
  assumes ok: "settings_ok f (task_data t)" and r: "release_command alive t c = Some (t', out)"
  shows "settings_ok f (task_data t') \<and> replies_ok f out"
proof -
  define t1 where "t1 = t\<lparr>blocked_waiters := filter (\<lambda>x. x \<noteq> c) (blocked_waiters t), update_waiters := filter (\<lambda>(w, _). w \<noteq> c) (update_waiters t)\<rparr>"
  from r obtain eff st where p: "release_pending_or_active (task_data t) c = Some (eff, st)"
    by (auto simp: release_command_def Let_def bind_eq_Some_conv)
  obtain t2 woken where e: "apply_effect (t1\<lparr>task_data := st\<rparr>) eff = (t2, woken)" by fastforce
  obtain t3 granted where g: "grant_next_update alive (t2\<lparr>update_in_flight := None\<rparr>) = (t3, granted)" by fastforce
  have "t' = t2 \<and> out = woken \<or> t' = t3 \<and> out = woken @ granted"
    using r p e g by (auto simp: release_command_def t1_def Let_def split: if_splits)
  with release_pending_or_active_ok [OF ok p] apply_effect_ok [OF e, of f] grant_ok(1) [OF g] grant_ok(2) [OF g, of f] show ?thesis by auto
qed

definition result_effects :: "(admission_error + 'f post_update_decision) \<Rightarrow> admission_effects" where
  "result_effects res = reply_effects (ReplyAfter 0 res)"

lemma after_update_ok:
  assumes ok: "settings_ok f (task_data t)" and a: "after_update alive fut t c u = Some (res, t', out)"
  shows "settings_ok f (task_data t') \<and> replies_ok f out \<and> effects_ok f (result_effects res)"
proof (cases "update_in_flight t = Some (c, cu_attempt u)")
  case False
  with assms show ?thesis by (auto simp: after_update_def result_effects_def reply_effects_def)
next
  case lane: True
  then obtain r st where d: "decide_after_update_for (task_data t) c u = Some (r, st)"
    using a by (auto simp: after_update_def bind_eq_Some_conv)
  note D = decide_after_update_for_ok [OF ok d]
  have fin: "task_data t2 = task_data t1 \<and> replies_ok f o2" if "finish_update alive t1 c (cu_attempt u) = (t2, o2)" for t1 t2 o2
    by (rule finish_update_ok [OF that])
  show ?thesis
  proof (cases "\<exists>e es. r = Inr (StartCleanup e, es)")
    case True
    then obtain e es where re: "r = Inr (StartCleanup e, es)" by blast
    then obtain eff st2 where ev: "apply_event st (CleanupPrepared e fut) = Some (eff, st2)"
      using a d lane by (auto simp: after_update_def bind_eq_Some_conv)
    obtain t2 woken where ae: "apply_effect (t\<lparr>task_data := st2\<rparr>) eff = (t2, woken)" by fastforce
    obtain t3 granted where g: "finish_update alive t2 c (cu_attempt u) = (t3, granted)" by fastforce
    have "res = Inr (AwaitCleanup fut e)" "t' = t3" "out = woken @ granted" using a d re ev ae g lane by (auto simp: after_update_def)
    with apply_event_ok [OF conjunct1 [OF D] ev] apply_effect_ok [OF ae, of f] fin [OF g] show ?thesis
      by (simp add: result_effects_def reply_effects_def)
  next
    case False
    with a d lane have "(finish_update alive (t\<lparr>task_data := st\<rparr>) c (cu_attempt u) = (t', out)
         \<or> finish_update alive (t\<lparr>task_data := st, blocked_waiters := blocked_waiters t @ [c]\<rparr>) c (cu_attempt u) = (t', out))
      \<and> (result_effects res = [] \<or> (\<exists>x es. r = Inr (x, es) \<and> result_effects res = es))"
      by (auto simp: after_update_def Let_def result_effects_def reply_effects_def
        split: sum.splits admission_decision.splits dice_status.splits if_splits)
    with fin [of "t\<lparr>task_data := st\<rparr>" t' out] fin [of "t\<lparr>task_data := st, blocked_waiters := blocked_waiters t @ [c]\<rparr>" t' out] D
    show ?thesis by auto
  qed
qed

lemma respond_ok:
  assumes "settings_ok f (task_data t)" "effects_ok f (reply_effects reply)" "respond alive t c owns reply = Some (t', out)"
  shows "settings_ok f (task_data t') \<and> replies_ok f out"
  using assms release_command_ok [of f t alive c t' out] by (cases "alive c"; cases owns) (auto simp: respond_def)

lemma respond_after_update_ok:
  assumes ok: "settings_ok f (task_data t)" "effects_ok f (result_effects res)" and r: "respond_after_update alive t c owns res = Some (t', out)"
  shows "settings_ok f (task_data t') \<and> replies_ok f out"
proof (cases "alive c")
  case True
  with assms show ?thesis by (auto simp: respond_after_update_def result_effects_def reply_effects_def)
next
  case False
  let ?t1 = "\<lambda>d. t\<lparr>task_data := post_restore_preemptions d (task_data t)\<rparr>"
  have k: "settings_ok f (task_data (?t1 d))" for d
    using ok(1) by (auto simp: post_restore_preemptions_def restore_preemptions_ok split: post_update_decision.splits)
  have pre: "effects_ok f (reply_effects (FinishAbandonedCleanup x y))" for x y by (simp add: reply_effects_def)
  show ?thesis
  proof (cases res)
    case (Inl e)
    with r False ok(1) release_command_ok [of f t alive c t'] show ?thesis
      by (auto simp: respond_after_update_def bind_eq_Some_conv split: if_splits)
  next
    case (Inr d)
    show ?thesis
    proof (cases "\<exists>x y. d = AwaitCleanup x y")
      case True
      with r False Inr ok(1) pre release_command_ok [of f t alive c t'] show ?thesis
        by (auto simp: respond_after_update_def bind_eq_Some_conv split: if_splits)
    next
      case nc: False
      with r False Inr k [of d] release_command_ok [OF k [of d], of alive c t'] show ?thesis
        by (cases d) (auto simp: respond_after_update_def bind_eq_Some_conv split: if_splits)
    qed
  qed
qed

theorem handle_ok:
  assumes ok: "settings_ok f (task_data t)" and m: "\<And>rq. m = Begin rq \<Longrightarrow> f (rq_command_id rq) = Some (setting rq)"
    and h: "handle alive fut t m = Some (t', out)"
  shows "settings_ok f (task_data t') \<and> replies_ok f out"
proof (cases m)
  case (Begin rq)
  obtain r st where b: "(if retiring t then (Inl Retired, task_data t) else begin_admission (task_data t) rq) = (r, st)" by fastforce
  have "settings_ok f st" using b ok begin_admission_ok [OF ok m [OF Begin]] by (auto split: if_splits)
  with h b Begin respond_ok [of f "t\<lparr>task_data := st\<rparr>" "ReplyBefore (rq_command_id rq) r" alive "rq_command_id rq"] show ?thesis
    by (auto simp: handle_def Let_def reply_effects_def)
next
  case (BeforeUpdate c)
  obtain r st where b: "decide_before_update_for (task_data t) c = (r, st)" by fastforce
  from decide_before_update_for_ok [OF ok b] h b BeforeUpdate respond_ok [of f "t\<lparr>task_data := st\<rparr>" "ReplyBefore c r" alive c]
  show ?thesis by (auto simp: handle_def Let_def reply_effects_def)
next
  case (AcquireUpdate c a)
  obtain t1 o1 where g: "grant_next_update alive (t\<lparr>update_waiters := update_waiters t @ [(c, a)]\<rparr>) = (t1, o1)" by fastforce
  have "task_data t' = task_data t \<and> replies_ok f out"
    using h AcquireUpdate g grant_ok(1) [OF g] grant_ok(2) [OF g, of f]
    by (auto simp: handle_def acquire_update_def send_reply_def reply_effects_def split: sum.splits if_splits)
  with ok show ?thesis by simp
next
  case (MoveToBranch c a b ret)
  obtain r t1 where mv: "move_to_branch t c a b = (r, t1)" by fastforce
  have t1: "settings_ok f (task_data t1)" using mv ok by (auto simp: move_to_branch_def split: if_splits)
  obtain o1 where "respond alive t1 c (contains_command (pending_commands (task_data t1)) c) (ReplyMove c r) = Some (t', o1)"
    "out = (if ret then [RetireBranch (if isl r then b else task_branch t)] else []) @ o1"
    using h MoveToBranch mv by (auto simp: handle_def bind_eq_Some_conv)
  with respond_ok [OF t1, of "ReplyMove c r" alive c _ t' o1] show ?thesis by (auto simp: reply_effects_def)
next
  case (AfterUpdate c u)
  then obtain res t1 o1 o2 where a: "after_update alive fut t c u = Some (res, t1, o1)" "out = o1 @ o2"
    "respond_after_update alive t1 c (contains_command (pending_commands (task_data t1)) c \<or> contains_command (active_commands (task_data t1)) c) res = Some (t', o2)"
    using h by (auto simp: handle_def bind_eq_Some_conv)
  from after_update_ok [OF ok a(1)] respond_after_update_ok [OF _ _ a(3), of f] a(2) show ?thesis by simp
next
  case (CleanupCompleted e r)
  then obtain x st where ev: "apply_event (task_data t) (CleanupCompletedEvent e) = Some (x, st)"
    using h by (auto simp: handle_def bind_eq_Some_conv)
  obtain t1 woken where ae: "apply_effect (t\<lparr>task_data := st\<rparr>) x = (t1, woken)" by fastforce
  have "t' = t1" "out = woken @ (case r of None \<Rightarrow> [] | Some c \<Rightarrow> send_reply alive c (ReplyCleanup c))"
    using h CleanupCompleted ev ae by (auto simp: handle_def)
  with apply_event_ok [OF ok ev] apply_effect_ok [OF ae, of f] show ?thesis
    by (auto simp: send_reply_def reply_effects_def split: option.splits)
next
  case (Release c r)
  then obtain o1 where "release_command alive t c = Some (t', o1)" "out = o1 @ (if r then send_reply alive c (ReplyRelease c) else [])"
    using h by (auto simp: handle_def bind_eq_Some_conv)
  with release_command_ok [OF ok] show ?thesis by (auto simp: send_reply_def reply_effects_def)
qed (use ok h in \<open>auto simp: handle_def send_reply_def reply_effects_def\<close>)


section \<open>Settings in the system\<close>

definition asked :: "'f system \<Rightarrow> command_id \<Rightarrow> preemptible_when option" where
  "asked s c = map_option setting (cl_request (client s c))"

definition allowed :: "'f system \<Rightarrow> command_id \<Rightarrow> bool" where
  "allowed s c \<longleftrightarrow> (\<exists>w. asked s c = Some w \<and> w \<noteq> Never)"

definition exits_preempted :: "'f phase \<Rightarrow> bool" where
  "exits_preempted ph \<longleftrightarrow> ph = Leaving (Inl ExitOnPreemption) \<or> ph = Left (Inl ExitOnPreemption)"

definition preempt_local :: "'f system \<Rightarrow> command_id \<Rightarrow> bool" where
  "preempt_local s c \<longleftrightarrow> (\<forall>rq. phase_of s c = Starting rq \<longrightarrow> asked s c = Some (setting rq) \<and> rq_command_id rq = c)
     \<and> replies_ok (asked s) (inbox_of s c) \<and> (cl_preempted (client s c) \<or> exits_preempted (phase_of s c) \<longrightarrow> allowed s c)
     \<and> (phase_of s c = Outside \<longrightarrow> cl_request (client s c) = None)"

definition preempt_inv :: "'f system \<Rightarrow> bool" where
  "preempt_inv s \<longleftrightarrow> settings_ok (asked s) (task_data (sys_task s))
     \<and> (\<forall>rq. Begin rq \<in> set (sys_queue s) \<longrightarrow> asked s (rq_command_id rq) = Some (setting rq)) \<and> (\<forall>c. preempt_local s c)"

lemma preempt_all_request [simp]:
  "cl_request (client (preempt_all es s) d) = cl_request (client s d)"
  "cl_preempted (client (preempt_all es s) d) \<longleftrightarrow> cl_preempted (client s d) \<or> (\<exists>x. SendPreempt d x \<in> set es)"
  by (induction es s rule: preempt_all.induct) (auto split: command_event.splits)

lemma go_request [simp]:
  "cl_request (client (go c (ph, ms, es) s) d) = cl_request (client s d)"
  "cl_preempted (client (go c (ph, ms, es) s) d) \<longleftrightarrow> cl_preempted (client s d) \<or> (\<exists>x. SendPreempt d x \<in> set es)"
  by (simp_all add: go_def)

lemma deliver_request:
  "cl_request (client (deliver r s) d) = cl_request (client s d)" "cl_preempted (client (deliver r s) d) = cl_preempted (client s d)"
  by (cases r; simp add: deliver_def)+

lemma deliver_all_request [simp]:
  "cl_request (client (deliver_all rs s) d) = cl_request (client s d)" "cl_preempted (client (deliver_all rs s) d) = cl_preempted (client s d)"
  unfolding deliver_all_def by (induction rs arbitrary: s) (simp_all add: deliver_request)

text \<open>Where the preemptions sent come from.\<close>

lemma execute_preempts [simp]: "SendPreempt d x \<in> set (execute es) \<longleftrightarrow> Preempt d x \<in> set es"
  by (induction es) (auto simp: execute_def split: admission_effect.splits)

lemma receive_preempts:
  "receive h y c ph r = Some (ph', ms, es) \<Longrightarrow> SendPreempt d x \<in> set es \<Longrightarrow> Preempt d x \<in> set (reply_effects r)"
  by (auto simp: receive_def leave_def before_decided_def after_decided_def await_cleanup_def finish_admission_def reply_effects_def
    wait_for_blocked_command_def Let_def split: phase.splits reply.splits sum.splits pre_update_decision.splits
    post_update_decision.splits admission_decision.splits option.splits if_splits prod.splits)

lemma receive_exits: "receive h y c ph r = Some (ph', ms, es) \<Longrightarrow> exits_preempted ph' \<Longrightarrow> exits_preempted ph"
  by (auto simp: exits_preempted_def receive_def leave_def before_decided_def after_decided_def await_cleanup_def finish_admission_def
    wait_for_blocked_command_def rejected_def Let_def split: phase.splits reply.splits sum.splits pre_update_decision.splits
    post_update_decision.splits admission_decision.splits option.splits if_splits prod.splits rejection.splits)

lemma advance_exits:
  "advance c p ph inp = Some (ph', ms, es) \<Longrightarrow> (exits_preempted ph' \<longrightarrow> p) \<and> (\<forall>d x. SendPreempt d x \<notin> set es)"
  by (cases ph; cases inp) (auto simp: exits_preempted_def advance_def leave_def start_over_def complete_update_def split: option.splits if_splits)

lemma unread_preempts: "SendPreempt d x \<in> set (unread_effects rs) \<Longrightarrow> \<exists>r\<in>set rs. Preempt d x \<in> set (reply_effects r)"
  by (induction rs) (auto simp: unread_effects_def reply_effects_def split: reply.splits sum.splits post_update_decision.splits)

lemma replies_ok_preempt: "replies_ok f rs \<Longrightarrow> r \<in> set rs \<Longrightarrow> Preempt d x \<in> set (reply_effects r) \<Longrightarrow> \<exists>w. f d = Some w \<and> w \<noteq> Never"
  unfolding replies_ok_def effects_ok_def by blast

text \<open>A step of one command, which keeps the requests.\<close>

lemma preempt_inv_local:
  assumes inv: "preempt_inv s" and rq: "\<And>d. cl_request (client s' d) = cl_request (client s d)" and t: "sys_task s' = sys_task s"
    and q: "\<And>r. Begin r \<in> set (sys_queue s') \<Longrightarrow> Begin r \<in> set (sys_queue s) \<or> phase_of s (rq_command_id r) = Starting r"
    and other: "\<And>d. d \<noteq> c \<Longrightarrow> phase_of s' d = phase_of s d \<and> inbox_of s' d = inbox_of s d"
    and p: "\<And>d. cl_preempted (client s' d) \<Longrightarrow> cl_preempted (client s d) \<or> allowed s d"
    and i: "set (inbox_of s' c) \<subseteq> set (inbox_of s c)"
    and ph: "phase_of s' c \<noteq> Outside" "\<And>r. phase_of s' c \<noteq> Starting r" "exits_preempted (phase_of s' c) \<Longrightarrow> exits_preempted (phase_of s c) \<or> cl_preempted (client s c)"
  shows "preempt_inv s'"
proof -
  have a: "asked s' = asked s" by (simp add: asked_def rq fun_eq_iff)
  have l: "preempt_local s d" for d using inv by (simp add: preempt_inv_def)
  have "preempt_local s' d" for d
  proof (cases "d = c")
    case True
    have "replies_ok (asked s) (inbox_of s' c)" using l [of c] i by (auto simp: preempt_local_def replies_ok_def)
    with l [of c] ph p [of c] True show ?thesis by (auto simp: preempt_local_def a allowed_def)
  next
    case False
    with l [of d] other [OF False] p [of d] rq [of d] show ?thesis by (auto simp: preempt_local_def a allowed_def)
  qed
  moreover have "asked s (rq_command_id r) = Some (setting r)" if "Begin r \<in> set (sys_queue s')" for r
    using q [OF that] inv l [of "rq_command_id r"] by (auto simp: preempt_inv_def preempt_local_def)
  ultimately show ?thesis using inv by (simp add: preempt_inv_def a t)
qed

lemma receive_quiet:
  "receive h y c ph r = Some (ph', ms, es) \<Longrightarrow> Begin q \<notin> set ms \<and> ph' \<noteq> Outside \<and> ph' \<noteq> Starting q"
  by (auto simp: receive_def leave_def before_decided_def after_decided_def await_cleanup_def finish_admission_def
    wait_for_blocked_command_def Let_def split: phase.splits reply.splits sum.splits pre_update_decision.splits
    post_update_decision.splits admission_decision.splits option.splits if_splits prod.splits)

lemma advance_quiet:
  "advance c p ph inp = Some (ph', ms, es) \<Longrightarrow> Begin q \<notin> set ms \<and> ph' \<noteq> Outside \<and> ph' \<noteq> Starting q"
  by (cases ph; cases inp) (auto simp: advance_def leave_def start_over_def complete_update_def split: option.splits if_splits)

lemma stopped_quiet:
  "receive_stopped c ph = Some (ph', ms, es) \<Longrightarrow> Begin q \<notin> set ms \<and> ph' \<noteq> Outside \<and> ph' \<noteq> Starting q
    \<and> (exits_preempted ph' \<longrightarrow> exits_preempted ph) \<and> (\<forall>d x. SendPreempt d x \<notin> set es)"
  by (auto simp: receive_stopped_def leave_def exits_preempted_def split: phase.splits)

lemma preempt_inv_enter:
  assumes inv: "preempt_inv s" and p: "perform h s (Enter request) = Next s'"
  shows "preempt_inv s'"
proof -
  let ?c = "next_command_id s" and ?rq = "request\<lparr>rq_command_id := next_command_id s\<rparr>"
  have o: "phase_of s ?c = Outside" and s': "s' = set_client ?c ((client s ?c)\<lparr>cl_phase := Starting ?rq, cl_request := Some ?rq\<rparr>)
      (s\<lparr>next_command_id := usize_succ ?c\<rparr>)"
    using p by (auto simp: perform_def Let_def split: if_splits)
  have l: "preempt_local s d" for d using inv by (simp add: preempt_inv_def)
  have fresh: "asked s ?c = None" using l [of ?c] o by (simp add: preempt_local_def asked_def)
  have a: "asked s' = (asked s)(?c := Some (setting ?rq))" by (auto simp: asked_def s' fun_eq_iff)
  have mono: "asked s' d = Some w" if "asked s d = Some w" for d w using that fresh by (auto simp: a)
  have e: "effects_ok (asked s') es" if "effects_ok (asked s) es" for es
    using that mono unfolding effects_ok_def by blast
  have al: "allowed s' d" if "allowed s d" for d using that mono unfolding allowed_def by blast
  have fr: "phase_of s' d = (if d = ?c then Starting ?rq else phase_of s d)" "inbox_of s' d = inbox_of s d"
    "cl_preempted (client s' d) = cl_preempted (client s d)" "cl_request (client s' d) = (if d = ?c then Some ?rq else cl_request (client s d))" for d
    by (simp_all add: s' phase_of_def)
  have "preempt_local s' d" for d
  proof (cases "d = ?c")
    case True
    with l [of d] e al [of d] a show ?thesis by (auto simp: preempt_local_def replies_ok_def fr exits_preempted_def)
  next
    case False
    with l [of d] e al [of d] a show ?thesis by (auto simp: preempt_local_def replies_ok_def fr)
  qed
  moreover have "settings_ok (asked s') (task_data (sys_task s'))"
    using inv mono by (fastforce simp: preempt_inv_def settings_ok_def s')
  ultimately show ?thesis using inv mono by (auto simp: preempt_inv_def s')
qed

lemma preempt_inv_coordinate:
  assumes inv: "preempt_inv s" and p: "perform h s (Coordinate fut) = Next s'"
  shows "preempt_inv s'"
proof -
  obtain m q t out where q: "sys_queue s = m # q" and h: "handle (listening s) fut (sys_task s) m = Some (t, out)"
    and s': "s' = (if drained t then (deliver_all out (s\<lparr>sys_task := t, sys_queue := q\<rparr>))\<lparr>sys_queue := [], sys_stopped := True\<rparr>
                   else deliver_all out (s\<lparr>sys_task := t, sys_queue := q\<rparr>))"
    using p by (auto simp: perform_def coordinate_def Let_def split: list.splits option.splits)
  have fr: "phase_of s' d = phase_of s d" "inbox_of s' d = inbox_of s d @ (if phase_of s d \<noteq> Dropped then replies_to d out else [])"
    "cl_preempted (client s' d) = cl_preempted (client s d)" "cl_request (client s' d) = cl_request (client s d)" for d
    by (simp_all add: s' phase_of_def)
  have a: "asked s' = asked s" by (simp add: asked_def fr fun_eq_iff)
  have k: "settings_ok (asked s) (task_data t) \<and> replies_ok (asked s) out"
    by (rule handle_ok [OF _ _ h]) (use inv q in \<open>auto simp: preempt_inv_def\<close>)
  have "preempt_local s' d" for d
  proof -
    have "preempt_local s d" using inv by (simp add: preempt_inv_def)
    with k show ?thesis by (auto simp: preempt_local_def a allowed_def fr replies_ok_def replies_to_def)
  qed
  moreover have "set (sys_queue s') \<subseteq> set (sys_queue s)" "sys_task s' = t" by (auto simp: s' q)
  ultimately show ?thesis using inv k by (auto simp: preempt_inv_def a)
qed

lemma preempt_inv_receive:
  assumes inv: "preempt_inv s" and p: "perform h s (Receive c x) = Next s'"
  shows "preempt_inv s'"
proof -
  obtain r rs ph ms es where i: "inbox_of s c = r # rs" and r: "receive h x c (phase_of s c) r = Some (ph, ms, es)"
    and s': "s' = go c (ph, ms, es) (set_client c ((client s c)\<lparr>cl_inbox := rs\<rparr>) s)"
    using p by (fastforce simp: perform_def split: list.splits option.splits)
  have ok: "replies_ok (asked s) (inbox_of s c)" using inv by (simp add: preempt_inv_def preempt_local_def)
  have "allowed s d" if "SendPreempt d y \<in> set es" for d y
    using replies_ok_preempt [OF ok, of r d y] receive_preempts [OF r that] by (simp add: i allowed_def)
  then show ?thesis
    by (intro preempt_inv_local [OF inv, of s' c])
      (use receive_quiet [OF r] receive_exits [OF r] i in \<open>auto simp: s' phase_of_def split: if_splits\<close>)
qed

lemma preempt_inv_drop:
  assumes inv: "preempt_inv s" and p: "perform h s (DropCommand c) = Next s'"
  shows "preempt_inv s'"
proof -
  obtain ms where r: "drop_lease c (phase_of s c) = Some ms"
    and s': "s' = preempt_all (unread_effects (inbox_of s c)) (send ms (set_client c ((client s c)\<lparr>cl_phase := Dropped, cl_inbox := []\<rparr>) s))"
    using p by (auto simp: perform_def split: option.splits)
  have ms: "Begin q \<notin> set ms" for q using r by (auto simp: drop_lease_def split: phase.splits)
  have "replies_ok (asked s) (inbox_of s c)" using inv by (simp add: preempt_inv_def preempt_local_def)
  then have "allowed s d" if "SendPreempt d y \<in> set (unread_effects (inbox_of s c))" for d y
    using unread_preempts [OF that] unfolding allowed_def by (auto intro: replies_ok_preempt)
  then show ?thesis
    by (intro preempt_inv_local [OF inv, of s' c]) (use ms in \<open>auto simp: s' phase_of_def exits_preempted_def split: if_splits\<close>)
qed

lemma preempt_inv_input:
  assumes inv: "preempt_inv s" and p: "perform h s (Input c inp) = Next s'"
  shows "preempt_inv s'"
proof -
  obtain ph ms es where r: "advance c (cl_preempted (client s c)) (phase_of s c) inp = Some (ph, ms, es)" and s': "s' = go c (ph, ms, es) s"
    using p by (auto simp: perform_def split: option.splits)
  show ?thesis
    by (rule preempt_inv_local [OF inv, of s' c])
      (use advance_quiet [OF r] advance_exits [OF r] in \<open>auto simp: s' phase_of_def split: if_splits\<close>)
qed

lemma preempt_inv_stopped:
  assumes inv: "preempt_inv s" and p: "perform h s (ReceiveStopped c) = Next s'"
  shows "preempt_inv s'"
proof -
  obtain ph ms es where r: "receive_stopped c (phase_of s c) = Some (ph, ms, es)" and s': "s' = go c (ph, ms, es) s"
    using p by (auto simp: perform_def split: if_splits option.splits)
  show ?thesis
    by (rule preempt_inv_local [OF inv, of s' c]) (use stopped_quiet [OF r] in \<open>auto simp: s' phase_of_def split: if_splits\<close>)
qed

lemma preempt_inv_start:
  assumes inv: "preempt_inv s" and p: "perform h s (StartWaiting c) = Next s'"
  shows "preempt_inv s'"
proof -
  obtain rq where o: "phase_of s c = Starting rq" and s': "s' = go c (AwaitBefore, [Begin rq], []) s"
    using p by (auto simp: perform_def split: phase.splits)
  have "rq_command_id rq = c" using inv o by (auto simp: preempt_inv_def preempt_local_def dest: spec [of _ c])
  with o show ?thesis
    by (intro preempt_inv_local [OF inv, of s' c]) (auto simp: s' phase_of_def exits_preempted_def split: if_splits)
qed

lemma preempt_inv_send:
  assumes "preempt_inv s" "\<And>q. m \<noteq> Begin q" "sys_task s1 = sys_task s" "sys_queue s1 = sys_queue s" "client s1 = client s"
  shows "preempt_inv (send [m] s1)"
proof -
  have a: "asked (send [m] s1) = asked s" by (simp add: asked_def assms(5) fun_eq_iff)
  show ?thesis using assms by (auto simp: preempt_inv_def preempt_local_def a phase_of_def allowed_def split: if_splits)
qed

lemma preempt_inv_perform:
  assumes inv: "preempt_inv s" and p: "perform h s a = Next s'"
  shows "preempt_inv s'"
proof (cases a)
  case (CleanupFinished e)
  then show ?thesis using p preempt_inv_send [OF inv, of "CleanupCompleted e None" "s\<lparr>sys_cleanups := remove1 e (sys_cleanups s)\<rparr>"]
    by (auto simp: perform_def split: if_splits)
next
  case RetireHandler
  then show ?thesis using p preempt_inv_send [OF inv, of Retire s] by (auto simp: perform_def)
next
  case (Enter rq)
  with p preempt_inv_enter [OF inv] show ?thesis by simp
next
  case (StartWaiting c)
  with p preempt_inv_start [OF inv] show ?thesis by simp
next
  case (Coordinate fut)
  with p preempt_inv_coordinate [OF inv] show ?thesis by simp
next
  case (Receive c x)
  with p preempt_inv_receive [OF inv] show ?thesis by simp
next
  case (ReceiveStopped c)
  with p preempt_inv_stopped [OF inv] show ?thesis by simp
next
  case (Input c x)
  with p preempt_inv_input [OF inv] show ?thesis by simp
next
  case (DropCommand c)
  with p preempt_inv_drop [OF inv] show ?thesis by simp
qed

lemma system_run_preempt: "system_run h s \<Longrightarrow> preempt_inv s"
proof (induction rule: system_run.induct)
  case (start b)
  show ?case
    by (simp add: preempt_inv_def preempt_local_def settings_ok_def system_new_def task_new_def phase_of_def client_def exits_preempted_def)
next
  case (step s action s')
  then show ?case using preempt_inv_perform [OF step.IH step.hyps(2)] by simp
qed

lemma preempted_allowed: "system_run h s \<Longrightarrow> exits_preempted (phase_of s c) \<Longrightarrow> allowed s c"
  using system_run_preempt [of h s] by (auto simp: preempt_inv_def preempt_local_def)

end
