(* ===== verification/Admission_Display.thy ===== *)
theory Admission_Display
  imports Admission_State "HOL-Library.Sublist"
begin

text \<open>
  What a command shows of the others: the truncation of \<^verbatim>\<open>app/buck2_util/src/truncate.rs\<close>, the displayed
  command, the lists of trace identifiers and the queue of exclusive commands of
  \<^verbatim>\<open>app/buck2_concurrency/src/lib.rs\<close>. A string is its list of UTF-8 bytes, a panic \<^const>\<open>None\<close>.
\<close>

section \<open>Truncation\<close>

definition TRUNCATION_MSG :: string where
  "TRUNCATION_MSG = ''<<omitted>>''"

definition TRUNCATION_DELIM :: string where
  "TRUNCATION_DELIM = '', ''"

text \<open>The boundaries of \<^verbatim>\<open>str\<close>: a position before a byte that does not continue a character, or the end.\<close>

definition is_char_boundary :: "string \<Rightarrow> nat \<Rightarrow> bool" where
  "is_char_boundary s i \<longleftrightarrow> i = 0 \<or> i = length s \<or> i < length s \<and> \<not> ((128 :: nat) \<le> of_char (s ! i) \<and> of_char (s ! i) < (192 :: nat))"

fun floor_char_boundary :: "string \<Rightarrow> nat \<Rightarrow> nat" where
  "floor_char_boundary s 0 = 0"
| "floor_char_boundary s (Suc i) =
     (if length s \<le> Suc i then length s else if is_char_boundary s (Suc i) then Suc i else floor_char_boundary s i)"

function ceil_char_boundary :: "string \<Rightarrow> nat \<Rightarrow> nat" where
  "ceil_char_boundary s i =
     (if length s \<le> i then length s else if is_char_boundary s i then i else ceil_char_boundary s (Suc i))"
  by pat_completeness auto
termination by (relation "measure (\<lambda>(s, i). length s - i)") auto

declare ceil_char_boundary.simps [simp del]

text \<open>A slice panics unless both ends are boundaries in order.\<close>

definition slice :: "string \<Rightarrow> nat \<Rightarrow> nat \<Rightarrow> string option" where
  "slice s i j = (if i \<le> j \<and> j \<le> length s \<and> is_char_boundary s i \<and> is_char_boundary s j then Some (take (j - i) (drop i s)) else None)"

definition truncate_str :: "string \<Rightarrow> nat \<Rightarrow> string option" where
  "truncate_str msg max_length =
     (if length msg \<le> max_length then Some msg
      else if length TRUNCATION_MSG \<le> max_length
      then do {
        let half = (max_length - length TRUNCATION_MSG) div 2;
        before \<leftarrow> slice msg 0 (floor_char_boundary msg half);
        after \<leftarrow> slice msg (ceil_char_boundary msg (length msg - half)) (length msg);
        Some (before @ TRUNCATION_MSG @ after) }
      else Some TRUNCATION_MSG)"

text \<open>The loop of \<^verbatim>\<open>truncate_container\<close> over the items after the first.\<close>

fun truncate_items :: "nat \<Rightarrow> string \<Rightarrow> string list \<Rightarrow> string option" where
  "truncate_items max_length result [] = Some result"
| "truncate_items max_length result (v # rest) =
     (if length result + length TRUNCATION_DELIM + length v > max_length
      then do {
        delim \<leftarrow> slice TRUNCATION_DELIM 0 (min (max_length - length result) (length TRUNCATION_DELIM));
        let result' = result @ delim;
        if max_length < length result' then None
        else do {
          part \<leftarrow> slice v 0 (floor_char_boundary v (max_length - length result'));
          Some (result' @ part @ TRUNCATION_MSG) } }
      else truncate_items max_length (result @ TRUNCATION_DELIM @ v) rest)"

definition truncate_container :: "string list \<Rightarrow> nat \<Rightarrow> string option" where
  "truncate_container items max_length =
     (case items of
        [] \<Rightarrow> Some []
      | first # rest \<Rightarrow>
          if length first > max_length
          then map_option (\<lambda>part. part @ TRUNCATION_MSG) (slice first 0 (floor_char_boundary first max_length))
          else truncate_items max_length first rest)"

lemma floor_char_boundary_correct:
  "floor_char_boundary s i \<le> i \<and> floor_char_boundary s i \<le> length s \<and> is_char_boundary s (floor_char_boundary s i)"
  by (induction s i rule: floor_char_boundary.induct) (auto simp: is_char_boundary_def)

lemma ceil_char_boundary_correct:
  "i \<le> length s \<Longrightarrow> i \<le> ceil_char_boundary s i \<and> ceil_char_boundary s i \<le> length s \<and> is_char_boundary s (ceil_char_boundary s i)"
  by (induction s i rule: ceil_char_boundary.induct) (subst (1 2 3) ceil_char_boundary.simps, auto simp: is_char_boundary_def)

lemma slice_prefix: "\<exists>p. slice s 0 (floor_char_boundary s i) = Some p \<and> prefix p s \<and> length p \<le> i"
proof -
  have "slice s 0 (floor_char_boundary s i) = Some (take (floor_char_boundary s i) s)"
    using floor_char_boundary_correct [of s i] by (simp add: slice_def is_char_boundary_def [of s 0])
  then show ?thesis using floor_char_boundary_correct [of s i] by (auto simp: take_is_prefix)
qed

lemma slice_suffix:
  assumes "n \<le> length s"
  shows "\<exists>p. slice s (ceil_char_boundary s (length s - n)) (length s) = Some p \<and> suffix p s \<and> length p \<le> n"
proof -
  let ?i = "ceil_char_boundary s (length s - n)"
  have i: "length s - n \<le> ?i" "?i \<le> length s" "is_char_boundary s ?i" using ceil_char_boundary_correct [of "length s - n" s] by auto
  then have "slice s ?i (length s) = Some (drop ?i s)" by (simp add: slice_def is_char_boundary_def [of s "length s"])
  then show ?thesis using i assms by (auto simp: suffix_drop)
qed

lemma truncate_correct:
  "\<exists>r. truncate_str msg n = Some r \<and> (length msg \<le> n \<longrightarrow> r = msg) \<and> length r \<le> max n (length TRUNCATION_MSG)
    \<and> (n < length msg \<longrightarrow> (\<exists>p q. r = p @ TRUNCATION_MSG @ q \<and> prefix p msg \<and> suffix q msg))"
proof (cases "length msg \<le> n \<or> n < length TRUNCATION_MSG")
  case True
  then show ?thesis by (auto simp: truncate_str_def intro: exI [of _ "[]"])
next
  case False
  let ?h = "(n - length TRUNCATION_MSG) div 2"
  obtain p where p: "slice msg 0 (floor_char_boundary msg ?h) = Some p" "prefix p msg" "length p \<le> ?h" using slice_prefix by blast
  have "?h \<le> length msg" using False by auto
  then obtain q where q: "slice msg (ceil_char_boundary msg (length msg - ?h)) (length msg) = Some q" "suffix q msg" "length q \<le> ?h"
    using slice_suffix by blast
  have "length (p @ TRUNCATION_MSG @ q) \<le> n" using p(3) q(3) False by auto
  then show ?thesis using False p q by (auto simp: truncate_str_def Let_def)
qed

lemma truncate_items_correct:
  "length result \<le> n \<Longrightarrow> \<exists>r. truncate_items n result items = Some r \<and> length r \<le> n + length TRUNCATION_MSG"
proof (induction n result items rule: truncate_items.induct)
  case (2 n result v rest)
  show ?case
  proof (cases "length result + length TRUNCATION_DELIM + length v > n")
    case False
    with 2 show ?thesis by simp
  next
    case True
    let ?k = "min (n - length result) (length TRUNCATION_DELIM)"
    have "slice TRUNCATION_DELIM 0 ?k = Some (take ?k TRUNCATION_DELIM)"
      by (auto simp: slice_def is_char_boundary_def TRUNCATION_DELIM_def less_Suc_eq min_def numeral_2_eq_2)
    moreover obtain p where "slice v 0 (floor_char_boundary v (n - length (result @ take ?k TRUNCATION_DELIM))) = Some p"
      "length p \<le> n - length (result @ take ?k TRUNCATION_DELIM)" using slice_prefix by blast
    ultimately show ?thesis using True 2(2) by (auto simp: Let_def)
  qed
qed simp

lemma truncate_container_correct:
  "\<exists>r. truncate_container items n = Some r \<and> length r \<le> n + length TRUNCATION_MSG"
proof (cases items)
  case (Cons first rest)
  obtain p where "slice first 0 (floor_char_boundary first n) = Some p" "length p \<le> n" using slice_prefix by blast
  with Cons truncate_items_correct [of first n rest] show ?thesis by (auto simp: truncate_container_def)
qed (simp add: truncate_container_def)


section \<open>Commands and traces\<close>

fun join_with :: "string \<Rightarrow> string list \<Rightarrow> string" where
  "join_with sep [] = []"
| "join_with sep [x] = x"
| "join_with sep (x # y # zs) = x @ sep @ join_with sep (y # zs)"

text \<open>The first element of the arguments is the path of the executable; with no argument at all nothing is skipped.\<close>

definition format_command :: "string list \<Rightarrow> string option" where
  "format_command argv = truncate_str (''buck2 '' @ join_with '' '' (drop 1 argv)) 500"

definition format_elapsed :: "nat \<Rightarrow> string" where
  "format_elapsed secs = (if secs < 60 then show_nat secs @ ''s'' else show_nat (secs div 60) @ ''m'')"

text \<open>The insertion-ordered set of the identifiers: the first occurrence of each.\<close>

definition insertion_set :: "'a list \<Rightarrow> 'a list" where
  "insertion_set xs = foldl (\<lambda>seen x. if x \<in> set seen then seen else seen @ [x]) [] xs"

definition display_traces :: "(trace_id \<Rightarrow> string) \<Rightarrow> traces \<Rightarrow> string" where
  "display_traces show_id ts = join_with '', '' (map show_id (insertion_set ts))"

definition display_queued :: "(trace_id \<Rightarrow> string) \<Rightarrow> traces \<Rightarrow> string" where
  "display_queued show_id ts = (if ts = [] then [] else ''. Queued behind: '' @ display_traces show_id ts)"

lemma insertion_set_snoc: "insertion_set (xs @ [x]) = (if x \<in> set (insertion_set xs) then insertion_set xs else insertion_set xs @ [x])"
  by (simp add: insertion_set_def)

lemma insertion_set_correct: "distinct (insertion_set xs) \<and> set (insertion_set xs) = set xs \<and> subseq (insertion_set xs) xs"
proof (induction xs rule: rev_induct)
  case (snoc x xs)
  then show ?case by (auto simp: insertion_set_snoc intro: subseq_order.trans list_emb_append_mono)
qed (simp add: insertion_set_def)


section \<open>The queue of exclusive commands\<close>

text \<open>The queue beside the lock: the ticket counter wraps, a waiter removes its entry when it is dropped.\<close>

record exclusive_queue =
  xq_waiters :: "(nat \<times> string) list"
  xq_next_ticket :: nat

definition exclusive_new :: exclusive_queue where
  "exclusive_new = \<lparr>xq_waiters = [], xq_next_ticket = 0\<rparr>"

definition exclusive_join :: "string \<Rightarrow> exclusive_queue \<Rightarrow> exclusive_queue" where
  "exclusive_join cmd_name l =
     l\<lparr>xq_waiters := xq_waiters l @ [(xq_next_ticket l, cmd_name)], xq_next_ticket := usize_succ (xq_next_ticket l)\<rparr>"

definition exclusive_leave :: "nat \<Rightarrow> exclusive_queue \<Rightarrow> exclusive_queue" where
  "exclusive_leave ticket l = l\<lparr>xq_waiters := filter (\<lambda>(t, _). t \<noteq> ticket) (xq_waiters l)\<rparr>"

definition owning_command :: "exclusive_queue \<Rightarrow> string option" where
  "owning_command l = (case xq_waiters l of [] \<Rightarrow> None | (_, cmd_name) # _ \<Rightarrow> Some cmd_name)"

datatype queue_op = Join string | Leave nat

fun queue_step :: "exclusive_queue \<Rightarrow> queue_op \<Rightarrow> exclusive_queue" where
  "queue_step l (Join cmd_name) = exclusive_join cmd_name l"
| "queue_step l (Leave ticket) = exclusive_leave ticket l"

definition queue_run :: "queue_op list \<Rightarrow> exclusive_queue" where
  "queue_run ops = foldl queue_step exclusive_new ops"

text \<open>The commands that joined, numbered, and those of them that have not left.\<close>

definition joined :: "queue_op list \<Rightarrow> string list" where
  "joined ops = concat (map (\<lambda>op. case op of Join n \<Rightarrow> [n] | Leave _ \<Rightarrow> []) ops)"

definition in_play :: "queue_op list \<Rightarrow> (nat \<times> string) list" where
  "in_play ops = filter (\<lambda>(t, _). Leave t \<notin> set ops) (enumerate 0 (joined ops))"

text \<open>A command leaves after it joined.\<close>

definition leaves_after_join :: "queue_op list \<Rightarrow> bool" where
  "leaves_after_join ops = list_all (\<lambda>i. case ops ! i of Leave t \<Rightarrow> t < length (joined (take i ops)) | Join _ \<Rightarrow> True) [0..<length ops]"

lemma leaves_after_join_snoc:
  "leaves_after_join (ops @ [op]) \<longleftrightarrow> leaves_after_join ops \<and> (case op of Leave t \<Rightarrow> t < length (joined ops) | Join _ \<Rightarrow> True)"
  by (auto simp: leaves_after_join_def list_all_iff nth_append split: queue_op.splits)

lemma leave_known: "leaves_after_join ops \<Longrightarrow> Leave t \<in> set ops \<Longrightarrow> t < length (joined ops)"
proof (induction ops rule: rev_induct)
  case (snoc op ops)
  have "length (joined ops) \<le> length (joined (ops @ [op]))" by (simp add: joined_def)
  with snoc show ?case by (fastforce simp: leaves_after_join_snoc)
qed simp

lemma queue_run_correct:
  assumes "leaves_after_join ops" "length (joined ops) \<le> u64_max"
  shows "xq_waiters (queue_run ops) = in_play ops \<and> xq_next_ticket (queue_run ops) = length (joined ops)"
  using assms
proof (induction ops rule: rev_induct)
  case Nil
  then show ?case by (simp add: queue_run_def exclusive_new_def in_play_def joined_def)
next
  case (snoc op ops)
  have "length (joined ops) \<le> length (joined (ops @ [op]))" by (simp add: joined_def)
  with snoc have IH: "xq_waiters (queue_run ops) = in_play ops" "xq_next_ticket (queue_run ops) = length (joined ops)"
    and lv: "leaves_after_join ops" by (auto simp: leaves_after_join_snoc)
  have run: "queue_run (ops @ [op]) = queue_step (queue_run ops) op" by (simp add: queue_run_def)
  show ?case
  proof (cases op)
    case (Join n)
    have j: "joined (ops @ [op]) = joined ops @ [n]" by (simp add: joined_def Join)
    have "Leave (length (joined ops)) \<notin> set ops" using leave_known [OF lv] by blast
    then have "in_play (ops @ [op]) = in_play ops @ [(length (joined ops), n)]"
      unfolding in_play_def j by (simp add: Join enumerate_append_eq)
    with IH run Join j snoc.prems(2) show ?thesis by (simp add: exclusive_join_def usize_succ_def)
  next
    case (Leave t)
    have j: "joined (ops @ [op]) = joined ops" by (simp add: joined_def Leave)
    have "in_play (ops @ [op]) = filter (\<lambda>(x, _). x \<noteq> t) (in_play ops)"
      unfolding in_play_def j by (auto simp: Leave intro: filter_cong)
    with IH run Leave j show ?thesis by (simp add: exclusive_leave_def)
  qed
qed

end
