(* ===== verification/Path_Graph.thy ===== *)
theory Path_Graph
  imports Prelude
begin

text \<open>
  The graphs of \<^verbatim>\<open>app/buck2_critical_path\<close>: the types of \<^verbatim>\<open>types.rs\<close>, the graph of \<^verbatim>\<open>graph.rs\<close> and the
  builder of \<^verbatim>\<open>builder.rs\<close>. A vertex identifier is a number, data indexed by vertices a list; an index, a slice
  or an addition out of range is \<^const>\<open>None\<close>. An optional identifier is the \<^verbatim>\<open>i32\<close> the code keeps, with -1
  for none.
\<close>

section \<open>Types\<close>

type_synonym vertex_id = nat
type_synonym 'a vertex_data = "'a list"
type_synonym optional_vertex_id = int

definition i32_max :: nat where
  "i32_max = 2147483647"

definition index :: "'a list \<Rightarrow> nat \<Rightarrow> 'a option" where
  "index xs i = (if i < length xs then Some (xs ! i) else None)"

definition set_index :: "'a list \<Rightarrow> nat \<Rightarrow> 'a \<Rightarrow> 'a list option" where
  "set_index xs i x = (if i < length xs then Some (xs[i := x]) else None)"

text \<open>The conversion from an identifier is the cast of a \<^verbatim>\<open>u32\<close> to an \<^verbatim>\<open>i32\<close>, which wraps.\<close>

definition optional_none :: optional_vertex_id where
  "optional_none = -1"

definition optional_from :: "vertex_id \<Rightarrow> optional_vertex_id" where
  "optional_from v = (if v \<le> i32_max then int v else int v - 2 ^ 32)"

definition is_some :: "optional_vertex_id \<Rightarrow> bool" where
  "is_some v \<longleftrightarrow> v \<ge> 0"

definition into_option :: "optional_vertex_id \<Rightarrow> vertex_id option" where
  "into_option v = (if v \<ge> 0 then Some (nat v) else None)"

definition keys_of :: "'a vertex_data \<Rightarrow> vertex_id list option" where
  "keys_of xs = (if length xs \<le> u32_max then Some [0..<length xs] else None)"

text \<open>A loop whose body may panic.\<close>

primrec fold_opt :: "('a \<Rightarrow> 's \<Rightarrow> 's option) \<Rightarrow> 'a list \<Rightarrow> 's \<Rightarrow> 's option" where
  "fold_opt f [] s = Some s"
| "fold_opt f (x # xs) s = f x s \<bind> fold_opt f xs"

lemma index_Some [simp]: "i < length xs \<Longrightarrow> index xs i = Some (xs ! i)"
  by (simp add: index_def)

lemma set_index_Some [simp]: "i < length xs \<Longrightarrow> set_index xs i x = Some (xs[i := x])"
  by (simp add: set_index_def)

lemma into_option_none [simp]: "into_option optional_none = None"
  by (simp add: into_option_def optional_none_def)

lemma into_option_from [simp]: "v \<le> i32_max \<Longrightarrow> into_option (optional_from v) = Some v"
  by (simp add: into_option_def optional_from_def)

lemma is_some_into_option: "is_some v \<longleftrightarrow> into_option v \<noteq> None"
  by (simp add: is_some_def into_option_def)

lemma fold_opt_append: "fold_opt f (xs @ ys) s = fold_opt f xs s \<bind> fold_opt f ys"
  by (induction xs arbitrary: s) (simp_all split: bind_splits)

lemma fold_opt_concat: "fold_opt f (concat xss) s = fold_opt (fold_opt f) xss s"
  by (induction xss arbitrary: s) (simp_all add: fold_opt_append split: bind_splits)

lemma fold_opt_map: "fold_opt f (map g xs) s = fold_opt (\<lambda>x. f (g x)) xs s"
  by (induction xs arbitrary: s) (simp_all split: bind_splits)

lemma fold_opt_cong: "(\<And>x s. x \<in> set xs \<Longrightarrow> f x s = g x s) \<Longrightarrow> fold_opt f xs s = fold_opt g xs s"
  by (induction xs arbitrary: s) (auto split: bind_splits)

text \<open>The rule for such a loop: an invariant over the elements processed, which every step keeps without a
  panic.\<close>

lemma fold_opt_invariant:
  assumes "I [] s" and step: "\<And>ys x zs s. xs = ys @ x # zs \<Longrightarrow> I ys s \<Longrightarrow> \<exists>s'. f x s = Some s' \<and> I (ys @ [x]) s'"
  shows "\<exists>s'. fold_opt f xs s = Some s' \<and> I xs s'"
proof -
  have "\<exists>s'. fold_opt f zs s = Some s' \<and> I (ys @ zs) s'" if "I ys s" "xs = ys @ zs" for ys zs s
    using that
  proof (induction zs arbitrary: ys s)
    case (Cons z zs)
    obtain s' where s': "f z s = Some s'" "I (ys @ [z]) s'" using step Cons.prems by blast
    then show ?case using Cons.IH [of "ys @ [z]" s'] Cons.prems by simp
  qed simp
  from this [of "[]" s xs] assms(1) show ?thesis by simp
qed

lemma upt_split:
  assumes "[0..<n] = ys @ x # zs"
  shows "x = length ys" "x < n"
proof -
  have n: "length ys < n" using arg_cong [OF assms, of length] by simp
  have "[0..<n] ! length ys = x" unfolding assms by simp
  then show "x = length ys" using n by simp
  then show "x < n" using n by simp
qed


section \<open>Graphs\<close>

record graph_vertex =
  edges_idx :: nat
  edges_count :: nat

record graph =
  g_vertices :: "graph_vertex vertex_data"
  g_edges :: "vertex_id list"

definition iter_vertices :: "graph \<Rightarrow> vertex_id list option" where
  "iter_vertices g = keys_of (g_vertices g)"

definition iter_edges :: "graph \<Rightarrow> vertex_id \<Rightarrow> vertex_id list option" where
  "iter_edges g idx = do {
     vertex \<leftarrow> index (g_vertices g) idx;
     let range_from = edges_idx vertex;
     let range_to = range_from + edges_count vertex;
     (if range_to \<le> length (g_edges g) then Some (take (edges_count vertex) (drop range_from (g_edges g))) else None) }"

definition iter_all_edges :: "graph \<Rightarrow> (vertex_id \<times> vertex_id) list option" where
  "iter_all_edges g = do {
     is \<leftarrow> iter_vertices g;
     fold_opt (\<lambda>i out. map_option (\<lambda>js. out @ map (Pair i) js) (iter_edges g i)) is [] }"

definition allocate_vertex_data :: "graph \<Rightarrow> 'a \<Rightarrow> 'a vertex_data" where
  "allocate_vertex_data g x = replicate (length (g_vertices g)) x"

definition vertices_count :: "graph \<Rightarrow> nat" where
  "vertices_count g = length (g_vertices g)"

definition edges_count_of :: "graph \<Rightarrow> nat" where
  "edges_count_of g = length (g_edges g)"

text \<open>The edges of a vertex of a well-formed graph.\<close>

definition succs :: "graph \<Rightarrow> vertex_id \<Rightarrow> vertex_id list" where
  "succs g v = take (edges_count (g_vertices g ! v)) (drop (edges_idx (g_vertices g ! v)) (g_edges g))"

text \<open>The edges lie one vertex after the other and lead to vertices.\<close>

definition edges_before :: "graph_vertex list \<Rightarrow> nat \<Rightarrow> nat" where
  "edges_before vs v = sum_list (map edges_count (take v vs))"

definition laid_out :: "graph \<Rightarrow> bool" where
  "laid_out g \<longleftrightarrow> (\<forall>v<length (g_vertices g). edges_idx (g_vertices g ! v) = edges_before (g_vertices g) v)
     \<and> edges_before (g_vertices g) (length (g_vertices g)) = length (g_edges g)"

definition wf_graph :: "graph \<Rightarrow> bool" where
  "wf_graph g \<longleftrightarrow> laid_out g \<and> (\<forall>e\<in>set (g_edges g). e < length (g_vertices g))"

text \<open>The sizes the code's integers can hold.\<close>

definition fits :: "graph \<Rightarrow> bool" where
  "fits g \<longleftrightarrow> length (g_vertices g) \<le> i32_max + 1 \<and> length (g_edges g) \<le> u32_max"

abbreviation size_of :: "graph \<Rightarrow> nat" where
  "size_of g \<equiv> length (g_vertices g)"

text \<open>The edges of the whole graph, in the order of the vertices.\<close>

definition all_edges :: "graph \<Rightarrow> (vertex_id \<times> vertex_id) list" where
  "all_edges g = concat (map (\<lambda>u. map (Pair u) (succs g u)) [0..<length (g_vertices g)])"

lemma fits_vertices: "fits g \<Longrightarrow> iter_vertices g = Some [0..<size_of g]"
  by (simp add: fits_def iter_vertices_def keys_of_def i32_max_def u32_max_def)

lemma length_allocate [simp]: "length (allocate_vertex_data g x) = size_of g"
  by (simp add: allocate_vertex_data_def)

lemma nth_allocate [simp]: "v < size_of g \<Longrightarrow> allocate_vertex_data g x ! v = x"
  by (simp add: allocate_vertex_data_def)

lemma edges_before_Suc: "v < length vs \<Longrightarrow> edges_before vs (Suc v) = edges_before vs v + edges_count (vs ! v)"
  by (simp add: edges_before_def take_Suc_conv_app_nth)

lemma edges_before_mono: "v \<le> w \<Longrightarrow> edges_before vs v \<le> edges_before vs w"
proof (induction w)
  case (Suc w)
  have "edges_before vs w \<le> edges_before vs (Suc w)"
    by (cases "w < length vs") (simp_all add: edges_before_Suc, simp add: edges_before_def)
  with Suc show ?case by (cases "v = Suc w") auto
qed simp

lemma edges_before_append: "v \<le> length vs \<Longrightarrow> edges_before (vs @ ws) v = edges_before vs v"
  by (simp add: edges_before_def)

lemma laid_out_range:
  assumes "laid_out g" "v < size_of g"
  shows "edges_idx (g_vertices g ! v) = edges_before (g_vertices g) v"
    "edges_before (g_vertices g) v + edges_count (g_vertices g ! v) \<le> length (g_edges g)"
  using assms edges_before_mono [of "Suc v" "size_of g" "g_vertices g"] by (auto simp: laid_out_def edges_before_Suc)

lemma wf_graph_laid_out: "wf_graph g \<Longrightarrow> laid_out g"
  by (simp add: wf_graph_def)

lemmas wf_graph_range = laid_out_range [OF wf_graph_laid_out]

lemma iter_edges_succs: "wf_graph g \<Longrightarrow> v < size_of g \<Longrightarrow> iter_edges g v = Some (succs g v)"
  using wf_graph_range [of g v] by (simp add: iter_edges_def succs_def Let_def)

lemma length_succs: "wf_graph g \<Longrightarrow> v < size_of g \<Longrightarrow> length (succs g v) = edges_count (g_vertices g ! v)"
  using wf_graph_range [of g v] by (simp add: succs_def)

lemma succs_conv_drop: "laid_out g \<Longrightarrow> v < size_of g \<Longrightarrow>
    succs g v = take (edges_count (g_vertices g ! v)) (drop (edges_before (g_vertices g) v) (g_edges g))"
  using laid_out_range [of g v] by (simp add: succs_def)

lemma succs_bound:
  assumes "wf_graph g" "w \<in> set (succs g v)"
  shows "w < size_of g"
  using assms by (auto simp: wf_graph_def succs_def dest!: in_set_takeD in_set_dropD)


lemma concat_succs:
  assumes "laid_out g" "v \<le> size_of g"
  shows "concat (map (succs g) [0..<v]) = take (edges_before (g_vertices g) v) (g_edges g)"
  using assms(2)
proof (induction v)
  case 0 then show ?case by (simp add: edges_before_def)
next
  case (Suc v)
  then show ?case using assms(1) by (simp add: edges_before_Suc succs_conv_drop take_add)
qed

lemma targets_all_edges: "laid_out g \<Longrightarrow> map snd (all_edges g) = g_edges g"
  using concat_succs [of g "size_of g"] by (simp add: all_edges_def map_concat comp_def laid_out_def)

lemma all_edges_iff: "(u, v) \<in> set (all_edges g) \<longleftrightarrow> u < size_of g \<and> v \<in> set (succs g u)"
  by (auto simp: all_edges_def)

lemma iter_all_edges_eq:
  assumes "wf_graph g" "fits g"
  shows "iter_all_edges g = Some (all_edges g)"
proof -
  let ?f = "\<lambda>i out. map_option (\<lambda>js. out @ map (Pair i) js) (iter_edges g i)"
  have "\<exists>out. fold_opt ?f [0..<size_of g] [] = Some out \<and> out = concat (map (\<lambda>u. map (Pair u) (succs g u)) [0..<size_of g])"
  proof (rule fold_opt_invariant [where I = "\<lambda>is out. out = concat (map (\<lambda>u. map (Pair u) (succs g u)) is)"])
    fix ys x zs and out :: "(vertex_id \<times> vertex_id) list"
    assume xs: "[0..<size_of g] = ys @ x # zs" and "out = concat (map (\<lambda>u. map (Pair u) (succs g u)) ys)"
    have "x \<in> set [0..<size_of g]" unfolding xs by simp
    with assms show "\<exists>out'. ?f x out = Some out' \<and> out' = concat (map (\<lambda>u. map (Pair u) (succs g u)) (ys @ [x]))"
      by (simp add: iter_edges_succs \<open>out = _\<close>)
  qed simp
  then show ?thesis using fits_vertices [OF assms(2)] by (simp add: iter_all_edges_def all_edges_def)
qed


lemma wf_graphI:
  assumes "laid_out g" "\<And>u v. u < size_of g \<Longrightarrow> v \<in> set (succs g u) \<Longrightarrow> v < size_of g"
  shows "wf_graph g"
proof -
  have "e < size_of g" if "e \<in> set (g_edges g)" for e
  proof -
    have "e \<in> set (map snd (all_edges g))" using that targets_all_edges [OF assms(1)] by simp
    then obtain u where "(u, e) \<in> set (all_edges g)" by auto
    then show ?thesis by (auto simp: all_edges_iff intro: assms(2))
  qed
  then show ?thesis using assms(1) by (simp add: wf_graph_def)
qed


section \<open>The builder\<close>

datatype 'k push_error = DuplicateKey 'k | Overflow

record ('k, 'd) graph_builder =
  b_keys :: "('k \<times> vertex_id) list"
  b_data :: "'d list"
  b_vertices :: "graph_vertex list"
  b_edges :: "vertex_id list"

definition builder_new :: "('k, 'd) graph_builder" where
  "builder_new = \<lparr>b_keys = [], b_data = [], b_vertices = [], b_edges = []\<rparr>"

text \<open>The edges of the known dependencies; the others are left out.\<close>

definition known_deps :: "('k \<times> vertex_id) list \<Rightarrow> 'k list \<Rightarrow> vertex_id list" where
  "known_deps keys deps = List.map_filter (map_of keys) deps"

definition push :: "('k, 'd) graph_builder \<Rightarrow> 'k \<Rightarrow> 'k list \<Rightarrow> 'd
    \<Rightarrow> (('k push_error + unit) \<times> ('k, 'd) graph_builder) option" where
  "push b key deps data =
     (let idx = length (b_vertices b) in
      if idx > u32_max then Some (Inl Overflow, b)
      else if idx > i32_max then Some (Inl Overflow, b)
      else if map_of (b_keys b) key \<noteq> None then Some (Inl (DuplicateKey key), b)
      else
        (let b1 = b\<lparr>b_keys := b_keys b @ [(key, idx)], b_data := b_data b @ [data]\<rparr>;
             start = length (b_edges b) in
         if start > u32_max then Some (Inl Overflow, b1)
         else
           (let new_edges = known_deps (b_keys b1) deps in
            if length new_edges > u32_max then None
            else
              Some (Inr (), b1\<lparr>b_edges := b_edges b1 @ new_edges,
                b_vertices := b_vertices b1 @ [\<lparr>edges_idx = start, edges_count = length new_edges\<rparr>]\<rparr>))))"

definition finish :: "('k, 'd) graph_builder \<Rightarrow> graph \<times> ('k \<times> vertex_id) list \<times> 'd vertex_data" where
  "finish b = (\<lparr>g_vertices = b_vertices b, g_edges = b_edges b\<rparr>, b_keys b, b_data b)"

text \<open>A sequence of pushes, which stops at an error.\<close>

fun push_all :: "('k, 'd) graph_builder \<Rightarrow> ('k \<times> 'k list \<times> 'd) list \<Rightarrow> ('k push_error + ('k, 'd) graph_builder) option" where
  "push_all b [] = Some (Inr b)"
| "push_all b ((key, deps, data) # rest) =
     (case push b key deps data of
        None \<Rightarrow> None
      | Some (Inl e, _) \<Rightarrow> Some (Inl e)
      | Some (Inr _, b') \<Rightarrow> push_all b' rest)"

text \<open>What a builder that has not failed holds after a list of pushes: the keys are numbered in order, the edges
  lie one vertex after the other, and those of a vertex lead to its dependencies pushed no later, in their order.\<close>

definition builder_holds :: "('k \<times> 'k list \<times> 'd) list \<Rightarrow> ('k, 'd) graph_builder \<Rightarrow> bool" where
  "builder_holds ps b \<longleftrightarrow> b_keys b = zip (map fst ps) [0..<length ps] \<and> distinct (map fst ps)
     \<and> b_data b = map (snd \<circ> snd) ps \<and> length (b_vertices b) = length ps \<and> length ps \<le> i32_max + 1
     \<and> wf_graph (fst (finish b))
     \<and> (\<forall>i<length ps. succs (fst (finish b)) i = known_deps (zip (map fst (take (Suc i) ps)) [0..<Suc i]) (fst (snd (ps ! i))))"

lemma known_deps_bound: "w \<in> set (known_deps (zip ks [0..<n]) deps) \<Longrightarrow> w < n"
  by (fastforce simp: known_deps_def List.map_filter_def dest: map_of_SomeD set_zip_rightD)

lemma wf_graph_snoc:
  assumes wf: "wf_graph g" and bound: "\<And>w. w \<in> set new \<Longrightarrow> w \<le> size_of g"
    and g': "g_vertices g' = g_vertices g @ [\<lparr>edges_idx = length (g_edges g), edges_count = length new\<rparr>]"
      "g_edges g' = g_edges g @ new"
  shows "wf_graph g'" and "v < Suc (size_of g) \<Longrightarrow> succs g' v = (if v = size_of g then new else succs g v)"
proof -
  have total: "edges_before (g_vertices g) (size_of g) = length (g_edges g)" using wf by (simp add: wf_graph_def laid_out_def)
  have eb: "edges_before (g_vertices g') v = (if v \<le> size_of g then edges_before (g_vertices g) v else length (g_edges g'))"
    if "v \<le> Suc (size_of g)" for v
    using that total edges_before_Suc [of "size_of g" "g_vertices g'"] by (auto simp: g' edges_before_append le_Suc_eq)
  have "\<forall>w\<in>set (g_edges g'). w < size_of g'" using wf bound by (auto simp: wf_graph_def g' less_Suc_eq_le less_imp_le)
  then show "wf_graph g'"
    using wf eb by (auto simp: wf_graph_def laid_out_def g' nth_append less_Suc_eq)
  show "succs g' v = (if v = size_of g then new else succs g v)" if "v < Suc (size_of g)"
    using that wf_graph_range [OF wf, of v] by (auto simp: succs_def g' nth_append less_Suc_eq)
qed

lemma push_holds:
  assumes b: "builder_holds ps b" and p: "push b key deps data = Some (Inr (), b')"
  shows "builder_holds (ps @ [(key, deps, data)]) b'"
proof -
  let ?n = "length ps" and ?ps = "ps @ [(key, deps, data)]"
  let ?new = "known_deps (zip (map fst ?ps) [0..<Suc ?n]) deps"
  have keys: "b_keys b = zip (map fst ps) [0..<?n]" and n: "length (b_vertices b) = ?n" using b by (auto simp: builder_holds_def)
  have keys': "b_keys b @ [(key, ?n)] = zip (map fst ?ps) [0..<Suc ?n]" by (simp add: keys)
  have b': "b' = b\<lparr>b_keys := zip (map fst ?ps) [0..<Suc ?n], b_data := b_data b @ [data], b_edges := b_edges b @ ?new,
      b_vertices := b_vertices b @ [\<lparr>edges_idx = length (b_edges b), edges_count = length ?new\<rparr>]\<rparr>"
    and fresh: "key \<notin> set (map fst (b_keys b))" and small: "?n \<le> i32_max"
    unfolding keys' [symmetric] using p by (auto simp: push_def Let_def n map_of_eq_None_iff split: if_splits)
  have fst_keys: "map fst (b_keys b) = map fst ps" by (simp add: keys)
  let ?g = "fst (finish b)" and ?g' = "fst (finish b')"
  have wfg: "wf_graph ?g" and size: "size_of ?g = ?n" using b by (auto simp: builder_holds_def finish_def)
  have bound: "w \<le> size_of ?g" if "w \<in> set ?new" for w using known_deps_bound [OF that] size by simp
  have g': "g_vertices ?g' = g_vertices ?g @ [\<lparr>edges_idx = length (g_edges ?g), edges_count = length ?new\<rparr>]"
    "g_edges ?g' = g_edges ?g @ ?new" by (simp_all add: finish_def b')
  note snoc = wf_graph_snoc [OF wfg bound g']
  have "succs ?g' i = known_deps (zip (map fst (take (Suc i) ?ps)) [0..<Suc i]) (fst (snd (?ps ! i)))" if "i < Suc ?n" for i
    using that snoc(2) [of i] b by (auto simp: size nth_append builder_holds_def less_Suc_eq simp del: upt_Suc)
  then show ?thesis using b snoc(1) fresh small by (simp add: fst_keys builder_holds_def b' n del: set_map)
qed

lemma push_all_holds: "builder_holds ps b \<Longrightarrow> push_all b qs = Some (Inr b') \<Longrightarrow> builder_holds (ps @ qs) b'"
proof (induction b qs arbitrary: ps rule: push_all.induct)
  case (2 b key deps data rest)
  then obtain b1 where "push b key deps data = Some (Inr (), b1)" "push_all b1 rest = Some (Inr b')"
    by (auto split: option.splits prod.splits sum.splits)
  with 2 push_holds [OF 2(2)] show ?case by fastforce
qed simp

lemma builder_new_holds: "builder_holds [] builder_new"
  by (simp add: builder_holds_def builder_new_def finish_def wf_graph_def laid_out_def edges_before_def)

lemmas push_all_new = push_all_holds [OF builder_new_holds, unfolded append_Nil]

end
