(* ===== verification/Path_Reverse.thy ===== *)
theory Path_Reverse
  imports Path_Graph "HOL-Library.Multiset"
begin

text \<open>
  The two operations of \<^verbatim>\<open>app/buck2_critical_path/src/graph.rs\<close> that make a graph from a graph: \<^verbatim>\<open>reversed\<close>
  and \<^verbatim>\<open>add_edges\<close>.
\<close>

section \<open>Reversing\<close>

text \<open>The three loops: counting, numbering, and placing.\<close>

definition count_edge :: "vertex_id \<Rightarrow> graph_vertex vertex_data \<Rightarrow> graph_vertex vertex_data option" where
  "count_edge edge vs = do {
     v \<leftarrow> index vs edge;
     (if edges_count v + 1 \<le> u32_max then set_index vs edge (v\<lparr>edges_count := edges_count v + 1\<rparr>) else None) }"

fun assign_idx :: "graph_vertex list \<Rightarrow> nat \<Rightarrow> (graph_vertex list \<times> nat) option" where
  "assign_idx [] idx = Some ([], idx)"
| "assign_idx (v # vs) idx =
     (if idx + edges_count v \<le> u32_max
      then map_option (\<lambda>(vs', end). (v\<lparr>edges_idx := idx\<rparr> # vs', end)) (assign_idx vs (idx + edges_count v))
      else None)"

definition place_edge :: "graph_vertex vertex_data \<Rightarrow> vertex_id \<Rightarrow> vertex_id \<Rightarrow> nat vertex_data \<times> vertex_id list
    \<Rightarrow> (nat vertex_data \<times> vertex_id list) option" where
  "place_edge reverse_vertices from to st = do {
     let (vertex_edge_offset, reverse_edges) = st;
     offset \<leftarrow> index vertex_edge_offset to;
     v \<leftarrow> index reverse_vertices to;
     reverse_edges' \<leftarrow> set_index reverse_edges (edges_idx v + offset) from;
     vertex_edge_offset' \<leftarrow> set_index vertex_edge_offset to (offset + 1);
     Some (vertex_edge_offset', reverse_edges') }"

definition reversed :: "graph \<Rightarrow> graph option" where
  "reversed g = do {
     counted \<leftarrow> fold_opt count_edge (g_edges g) (allocate_vertex_data g \<lparr>edges_idx = 0, edges_count = 0\<rparr>);
     (reverse_vertices, idx) \<leftarrow> assign_idx counted 0;
     (if idx = length (g_edges g) then do {
        froms \<leftarrow> iter_vertices g;
        (_, reverse_edges) \<leftarrow> fold_opt (\<lambda>from st. do {
            tos \<leftarrow> iter_edges g from;
            fold_opt (place_edge reverse_vertices from) tos st })
          froms (allocate_vertex_data g 0, replicate (length (g_edges g)) 0);
        Some \<lparr>g_vertices = reverse_vertices, g_edges = reverse_edges\<rparr> }
      else None) }"

text \<open>The specification: the sources of the edges into a vertex, in order.\<close>

definition sources :: "graph \<Rightarrow> vertex_id \<Rightarrow> vertex_id list" where
  "sources g v = map fst (filter (\<lambda>e. snd e = v) (all_edges g))"

lemma set_sources: "u \<in> set (sources g v) \<longleftrightarrow> u < size_of g \<and> v \<in> set (succs g u)"
proof -
  have "u \<in> set (sources g v) \<longleftrightarrow> (u, v) \<in> set (all_edges g)" by (force simp: sources_def)
  then show ?thesis by (simp add: all_edges_iff)
qed

lemma count_edges:
  assumes "\<forall>e\<in>set es. e < n" "length es \<le> u32_max"
  shows "fold_opt count_edge es (replicate n \<lparr>edges_idx = 0, edges_count = 0\<rparr>)
    = Some (map (\<lambda>v. \<lparr>edges_idx = 0, edges_count = count_list es v\<rparr>) [0..<n])"
proof -
  let ?I = "\<lambda>ys vs. vs = map (\<lambda>v. \<lparr>edges_idx = 0, edges_count = count_list ys v\<rparr>) [0..<n]"
  have "\<exists>vs. fold_opt count_edge es (replicate n \<lparr>edges_idx = 0, edges_count = 0\<rparr>) = Some vs \<and> ?I es vs"
  proof (rule fold_opt_invariant [where I = ?I])
    fix ys x zs vs assume es: "es = ys @ x # zs" and vs: "?I ys vs"
    have "x < n" "count_list ys x + 1 \<le> u32_max" using assms count_le_length [of ys x] by (auto simp: es)
    then show "\<exists>vs'. count_edge x vs = Some vs' \<and> ?I (ys @ [x]) vs'"
      by (auto simp: count_edge_def vs nth_list_update intro!: nth_equalityI)
  qed (simp add: map_replicate_const)
  then show ?thesis by blast
qed

lemma assign_idx_eq:
  assumes "idx + sum_list (map edges_count vs) \<le> u32_max"
  shows "assign_idx vs idx = Some (map (\<lambda>v. (vs ! v)\<lparr>edges_idx := idx + edges_before vs v\<rparr>) [0..<length vs],
    idx + sum_list (map edges_count vs))"
  using assms
proof (induction vs idx rule: assign_idx.induct)
  case (2 v vs idx)
  have "edges_before (v # vs) (Suc i) = edges_count v + edges_before vs i" for i by (simp add: edges_before_def)
  then have "map (\<lambda>i. ((v # vs) ! i)\<lparr>edges_idx := idx + edges_before (v # vs) i\<rparr>) [0..<length (v # vs)]
    = v\<lparr>edges_idx := idx\<rparr> # map (\<lambda>i. (vs ! i)\<lparr>edges_idx := idx + edges_count v + edges_before vs i\<rparr>) [0..<length vs]"
    by (subst upt_conv_Cons) (simp_all add: map_Suc_upt [symmetric] comp_def edges_before_def ac_simps del: upt_Suc)
  with 2 show ?case by (simp del: upt_Suc)
qed simp

text \<open>Placing fills the ranges of the vertices side by side.\<close>

definition filled :: "graph_vertex vertex_data \<Rightarrow> (vertex_id \<times> vertex_id) list \<Rightarrow> nat vertex_data \<times> vertex_id list \<Rightarrow> bool" where
  "filled vs es st \<longleftrightarrow> length (fst st) = length vs \<and> length (snd st) = edges_before vs (length vs)
     \<and> (\<forall>v<length vs. fst st ! v = count_list (map snd es) v
          \<and> take (fst st ! v) (drop (edges_before vs v) (snd st)) = map fst (filter (\<lambda>e. snd e = v) es))"

lemma take_drop_update_other:
  assumes "v \<noteq> w" "v < length vs" "w < length vs" "k \<le> edges_count (vs ! v)" "j < edges_count (vs ! w)"
  shows "take k (drop (edges_before vs v) (r[edges_before vs w + j := u])) = take k (drop (edges_before vs v) r)"
proof (cases "v < w")
  case True
  then have "edges_before vs v + k \<le> edges_before vs w"
    using edges_before_mono [of "Suc v" w vs] assms by (simp add: edges_before_Suc)
  then show ?thesis by (simp add: drop_update_swap)
next
  case False
  then have "edges_before vs w + j < edges_before vs v"
    using edges_before_mono [of "Suc w" v vs] assms by (simp add: edges_before_Suc)
  then show ?thesis by simp
qed

lemma place_edge_filled:
  assumes st: "filled vs ys st" and w: "w < length vs" and idx: "edges_idx (vs ! w) = edges_before vs w"
    and room: "\<forall>v<length vs. count_list (map snd (ys @ [(u, w)])) v \<le> edges_count (vs ! v)"
  shows "\<exists>st'. place_edge vs u w st = Some st' \<and> filled vs (ys @ [(u, w)]) st'"
proof -
  obtain off r where [simp]: "st = (off, r)" by (cases st)
  let ?pos = "edges_before vs w + off ! w"
  have off: "length off = length vs" "length r = edges_before vs (length vs)"
    "\<And>v. v < length vs \<Longrightarrow> off ! v = count_list (map snd ys) v"
    "\<And>v. v < length vs \<Longrightarrow> take (off ! v) (drop (edges_before vs v) r) = map fst (filter (\<lambda>e. snd e = v) ys)"
    using st by (auto simp: filled_def)
  have o: "off ! w < edges_count (vs ! w)" using room w off(3) by fastforce
  have pos: "?pos < length r"
    using o w edges_before_mono [of "Suc w" "length vs" vs] off(2) by (simp add: edges_before_Suc)
  let ?st = "(off[w := Suc (off ! w)], r[?pos := u])"
  have "take (fst ?st ! v) (drop (edges_before vs v) (snd ?st)) = map fst (filter (\<lambda>e. snd e = v) (ys @ [(u, w)]))"
    if v: "v < length vs" for v
  proof (cases "v = w")
    case True
    have "?pos - edges_before vs w < length (drop (edges_before vs w) r)" using pos by simp
    then show ?thesis using True v off by (simp add: drop_update_swap take_Suc_conv_app_nth)
  next
    case False
    have "off ! v \<le> edges_count (vs ! v)" using room v off(3) [OF v] False by force
    with False v w o show ?thesis using off(4) [OF v] by (simp add: take_drop_update_other)
  qed
  then have "filled vs (ys @ [(u, w)]) ?st" using off w by (auto simp: filled_def nth_list_update)
  then show ?thesis using pos w off(1) by (simp add: place_edge_def idx)
qed

lemma place_edges:
  assumes "\<forall>v<length vs. edges_idx (vs ! v) = edges_before vs v \<and> edges_count (vs ! v) = count_list (map snd es) v"
    "\<forall>e\<in>set es. snd e < length vs"
  shows "\<exists>st. fold_opt (\<lambda>(u, w). place_edge vs u w) es (replicate (length vs) 0, replicate (edges_before vs (length vs)) 0)
    = Some st \<and> filled vs es st"
proof (rule fold_opt_invariant [where I = "filled vs"])
  fix ys x zs st assume es: "es = ys @ x # zs" and "filled vs ys st"
  then show "\<exists>st'. (case x of (u, w) \<Rightarrow> place_edge vs u w) st = Some st' \<and> filled vs (ys @ [x]) st'"
    using assms place_edge_filled [of vs ys st "snd x" "fst x"] by (auto simp: es case_prod_unfold)
qed (simp add: filled_def)

text \<open>The placing loop of the code, over the vertices and the edges of each, is one loop over all the edges.\<close>

lemma place_loop:
  assumes "wf_graph g"
  shows "fold_opt (\<lambda>from st. do { tos \<leftarrow> iter_edges g from; fold_opt (place_edge vs from) tos st }) [0..<size_of g] st
    = fold_opt (\<lambda>(u, w). place_edge vs u w) (all_edges g) st"
  by (auto simp: all_edges_def fold_opt_concat fold_opt_map iter_edges_succs assms intro!: fold_opt_cong)

lemma edges_before_counts: "map edges_count vs = map edges_count ws \<Longrightarrow> edges_before vs v = edges_before ws v"
  unfolding edges_before_def take_map [symmetric] by simp

lemma reversed_correct:
  assumes wf: "wf_graph g" and fits: "fits g"
  shows "\<exists>r. reversed g = Some r \<and> wf_graph r \<and> fits r \<and> size_of r = size_of g \<and> (\<forall>v<size_of g. succs r v = sources g v)"
proof -
  let ?n = "size_of g" and ?es = "g_edges g"
  define counted where "counted = map (\<lambda>v. \<lparr>edges_idx = 0, edges_count = count_list ?es v\<rparr>) [0..<?n]"
  define vs where "vs = map (\<lambda>v. (counted ! v)\<lparr>edges_idx := edges_before counted v\<rparr>) [0..<?n]"
  have bound: "\<forall>e\<in>set ?es. e < ?n" and small: "length ?es \<le> u32_max" using wf fits by (auto simp: wf_graph_def fits_def)
  have len: "length counted = ?n" "length vs = ?n" by (simp_all add: counted_def vs_def)
  have "map edges_count vs = map edges_count counted" by (auto simp: vs_def counted_def intro: nth_equalityI)
  note before = edges_before_counts [OF this]
  have vs: "edges_idx (vs ! v) = edges_before vs v" "edges_count (vs ! v) = count_list ?es v" if "v < ?n" for v
    using that by (simp_all add: before) (simp_all add: vs_def counted_def)
  have total: "sum_list (map edges_count counted) = length ?es"
    using sum_count_set [of ?es "{..<?n}"] bound by (auto simp: counted_def comp_def interv_sum_list_conv_sum_set_nat atLeast0LessThan)
  have total': "edges_before vs ?n = length ?es" using total len by (simp add: before) (simp add: edges_before_def)
  have es: "map snd (all_edges g) = ?es" by (rule targets_all_edges [OF wf_graph_laid_out [OF wf]])
  then have "\<forall>e\<in>set (all_edges g). snd e < length vs" using bound by (auto simp: len simp flip: es)
  then obtain off r where st: "fold_opt (\<lambda>(u, w). place_edge vs u w) (all_edges g) (replicate ?n 0, replicate (length ?es) 0) = Some (off, r)"
    "filled vs (all_edges g) (off, r)"
    using place_edges [of vs "all_edges g"] vs by (auto simp: len total' es)
  let ?r = "\<lparr>g_vertices = vs, g_edges = r\<rparr>"
  have r: "length r = length ?es" "\<And>v. v < ?n \<Longrightarrow> succs ?r v = sources g v"
    using st(2) vs by (auto simp: filled_def len total' es succs_def sources_def)
  have "reversed g = Some ?r"
    using count_edges [OF bound small] assign_idx_eq [of 0 counted] small total st(1)
    by (simp add: reversed_def fits_vertices [OF fits] place_loop [OF wf] allocate_vertex_data_def flip: counted_def)
      (simp add: len vs_def)
  moreover have "wf_graph ?r"
  proof (rule wf_graphI)
    show "laid_out ?r" using vs total' r(1) by (simp add: laid_out_def len)
  qed (simp add: len r set_sources)
  ultimately show ?thesis using r fits by (auto simp: len fits_def)
qed


text \<open>Reversing twice sorts the edges of every vertex.\<close>

lemma count_sources: "u < size_of g \<Longrightarrow> count_list (sources g v) u = count_list (succs g u) v"
proof -
  assume u: "u < size_of g"
  have pair: "count_list (map fst (filter (\<lambda>e. snd e = v) (map (Pair x) xs))) u = (if x = u then count_list xs v else 0)" for x xs
    by (induction xs) auto
  have "count_list (map fst (filter (\<lambda>e. snd e = v) (concat (map (\<lambda>x. map (Pair x) (succs g x)) [0..<n])))) u
    = (if u < n then count_list (succs g u) v else 0)" for n
    by (induction n) (auto simp: pair)
  then show ?thesis using u by (simp add: sources_def all_edges_def)
qed

lemma sources_concat: "sources g v = concat (map (\<lambda>u. replicate (count_list (succs g u) v) u) [0..<size_of g])"
proof -
  have "map fst (filter (\<lambda>e. snd e = v) (map (Pair u) xs)) = replicate (count_list xs v) u" for u :: nat and xs
    by (induction xs) auto
  then show ?thesis unfolding sources_def all_edges_def filter_concat map_concat map_map comp_def by simp
qed

lemma sorted_sources: "sorted (sources g v)"
proof -
  have "sorted (concat (map (\<lambda>u. replicate (f u) u) [0..<n]))" for f n
    by (induction n) (auto simp: sorted_append)
  then show ?thesis by (simp add: sources_concat)
qed

lemma sources_reversed:
  assumes wf: "wf_graph g" and r: "size_of r = size_of g" "\<forall>v<size_of g. succs r v = sources g v" and v: "v < size_of g"
  shows "sources r v = sort (succs g v)"
proof (rule properties_for_sort [symmetric, OF _ sorted_sources])
  have "count_list (sources r v) u = count_list (succs g v) u" for u
  proof (cases "u < size_of g")
    case True
    then show ?thesis using count_sources [of u r v] count_sources [of v g u] r v by simp
  next
    case False
    then have "u \<notin> set (sources r v)" "u \<notin> set (succs g v)" using r succs_bound [OF wf] by (auto simp: set_sources)
    then show ?thesis by simp
  qed
  then show "mset (sources r v) = mset (succs g v)" by (intro multiset_eqI) (simp add: count_mset)
qed

lemma reversed_twice:
  assumes "wf_graph g" "fits g"
  shows "\<exists>r g'. reversed g = Some r \<and> reversed r = Some g' \<and> size_of g' = size_of g \<and> (\<forall>v<size_of g. succs g' v = sort (succs g v))"
proof -
  obtain r where r: "reversed g = Some r" "wf_graph r" "fits r" "size_of r = size_of g" "\<forall>v<size_of g. succs r v = sources g v"
    using reversed_correct [OF assms] by blast
  obtain g' where g': "reversed r = Some g'" "size_of g' = size_of g" "\<forall>v<size_of g. succs g' v = sources r v"
    using reversed_correct [OF r(2, 3)] r(4) by auto
  then show ?thesis using r sources_reversed [OF assms(1) r(4, 5)] by auto
qed


section \<open>Adding edges\<close>

text \<open>The edges to add are a parameter, as they are a trait of the code; \<^verbatim>\<open>Overflow\<close> is never returned.\<close>

datatype add_edges_error = AddOverflow

text \<open>The state of the loops: the edges, their number (a \<^verbatim>\<open>u32\<close>), and the number of the edges of the vertex.\<close>

definition append_edge :: "vertex_id \<Rightarrow> vertex_id list \<times> nat \<times> nat \<Rightarrow> (vertex_id list \<times> nat \<times> nat) option" where
  "append_edge e st =
     (let (es, all_edges_idx, count) = st in
      if count + 1 \<le> u32_max \<and> all_edges_idx + 1 \<le> u32_max then Some (es @ [e], all_edges_idx + 1, count + 1) else None)"

definition add_vertex_edges :: "graph \<Rightarrow> (vertex_id \<Rightarrow> vertex_id list option) \<Rightarrow> vertex_id
    \<Rightarrow> graph_vertex vertex_data \<times> vertex_id list \<times> nat \<Rightarrow> (graph_vertex vertex_data \<times> vertex_id list \<times> nat) option" where
  "add_vertex_edges g add from st = do {
     let (vs, es, all_edges_idx) = st;
     let start = all_edges_idx;
     old \<leftarrow> iter_edges g from;
     (es1, idx1, count1) \<leftarrow> fold_opt append_edge old (es, all_edges_idx, 0);
     new \<leftarrow> add from;
     (es2, idx2, count2) \<leftarrow> fold_opt append_edge new (es1, idx1, count1);
     vs' \<leftarrow> set_index vs from \<lparr>edges_idx = start, edges_count = count2\<rparr>;
     Some (vs', es2, idx2) }"

definition add_edges :: "graph \<Rightarrow> (vertex_id \<Rightarrow> vertex_id list option) \<Rightarrow> (add_edges_error + graph) option" where
  "add_edges g add = do {
     froms \<leftarrow> iter_vertices g;
     (vs, es, _) \<leftarrow> fold_opt (add_vertex_edges g add) froms (allocate_vertex_data g \<lparr>edges_idx = 0, edges_count = 0\<rparr>, [], 0);
     Some (Inr \<lparr>g_vertices = vs, g_edges = es\<rparr>) }"

text \<open>The edges of \<^verbatim>\<open>VertexData<OptionalVertexId>\<close>.\<close>

definition edges_for_vertex :: "optional_vertex_id vertex_data \<Rightarrow> vertex_id \<Rightarrow> vertex_id list option" where
  "edges_for_vertex xs idx = map_option (\<lambda>v. case into_option v of None \<Rightarrow> [] | Some w \<Rightarrow> [w]) (index xs idx)"

lemma fold_append_edge:
  assumes "c \<le> k" "k + length xs \<le> u32_max"
  shows "fold_opt append_edge xs (es, k, c) = Some (es @ xs, k + length xs, c + length xs)"
  using assms by (induction xs arbitrary: es k c) (simp_all add: append_edge_def)

text \<open>What the loop over the vertices has laid out.\<close>

definition added :: "graph \<Rightarrow> (vertex_id \<Rightarrow> vertex_id list) \<Rightarrow> nat \<Rightarrow> graph_vertex vertex_data \<times> vertex_id list \<times> nat \<Rightarrow> bool" where
  "added g new n st \<longleftrightarrow>
     (let total = (\<lambda>v. length (concat (map (\<lambda>u. succs g u @ new u) [0..<v]))) in
      st = (map (\<lambda>v. if v < n then \<lparr>edges_idx = total v, edges_count = length (succs g v @ new v)\<rparr> else \<lparr>edges_idx = 0, edges_count = 0\<rparr>)
              [0..<size_of g], concat (map (\<lambda>u. succs g u @ new u) [0..<n]), total n))"

lemma length_concat_mono:
  "m \<le> n \<Longrightarrow> length (concat (map f [0..<m])) \<le> length (concat (map f [0..<n]))"
proof -
  assume "m \<le> n"
  then have "[0..<n] = [0..<m] @ [m..<n]" using upt_add_eq_append [of 0 m "n - m"] by simp
  then show ?thesis by simp
qed

lemma nth_concat_range:
  assumes "v < n"
  shows "take (length (f v)) (drop (length (concat (map f [0..<v]))) (concat (map f [0..<n]))) = f v"
proof -
  have "[0..<n] = [0..<v] @ v # [Suc v..<n]"
    using assms upt_add_eq_append [of 0 v "n - v"] upt_conv_Cons [of v n] by simp
  then show ?thesis by simp
qed

lemma add_vertex_edges_added:
  assumes wf: "wf_graph g" and n: "n < size_of g" and new: "add n = Some (new n)"
    and small: "length (concat (map (\<lambda>u. succs g u @ new u) [0..<Suc n])) \<le> u32_max" and st: "added g new n st"
  shows "\<exists>st'. add_vertex_edges g add n st = Some st' \<and> added g new (Suc n) st'"
proof -
  let ?l = "\<lambda>n. concat (map (\<lambda>u. succs g u @ new u) [0..<n])"
  have "fold_opt append_edge (succs g n) (?l n, length (?l n), 0)
      = Some (?l n @ succs g n, length (?l n) + length (succs g n), length (succs g n))"
    "fold_opt append_edge (new n) (?l n @ succs g n, length (?l n) + length (succs g n), length (succs g n))
      = Some (?l (Suc n), length (?l (Suc n)), length (succs g n @ new n))"
    using small by (simp_all add: fold_append_edge)
  then show ?thesis using st n new
    by (auto simp: add_vertex_edges_def added_def Let_def iter_edges_succs [OF wf] nth_list_update intro!: nth_equalityI)
qed

lemma add_edges_correct:
  assumes wf: "wf_graph g" and fits: "fits g"
    and new: "\<And>v. v < size_of g \<Longrightarrow> add v = Some (new v)" "\<And>v w. v < size_of g \<Longrightarrow> w \<in> set (new v) \<Longrightarrow> w < size_of g"
    and small: "length (concat (map (\<lambda>u. succs g u @ new u) [0..<size_of g])) \<le> u32_max"
  shows "\<exists>g'. add_edges g add = Some (Inr g') \<and> wf_graph g' \<and> fits g' \<and> size_of g' = size_of g
    \<and> (\<forall>v<size_of g. succs g' v = succs g v @ new v)"
proof -
  let ?n = "size_of g" and ?f = "\<lambda>u. succs g u @ new u"
  let ?vs = "map (\<lambda>v. \<lparr>edges_idx = length (concat (map ?f [0..<v])), edges_count = length (?f v)\<rparr>) [0..<?n]"
  let ?g' = "\<lparr>g_vertices = ?vs, g_edges = concat (map ?f [0..<?n])\<rparr>"
  let ?start = "(allocate_vertex_data g \<lparr>edges_idx = 0, edges_count = 0\<rparr>, [], 0)"
  have "\<exists>st. fold_opt (add_vertex_edges g add) [0..<?n] ?start = Some st \<and> added g new (length [0..<?n]) st"
  proof (rule fold_opt_invariant [where I = "\<lambda>ys. added g new (length ys)"])
    fix ys x zs st assume xs: "[0..<?n] = ys @ x # zs" and st: "added g new (length ys) st"
    show "\<exists>st'. add_vertex_edges g add x st = Some st' \<and> added g new (length (ys @ [x])) st'"
      using add_vertex_edges_added [OF wf, of x add new st] new(1) [of x] st small length_concat_mono [of "Suc x" ?n ?f]
        upt_split [OF xs] by simp
  qed (simp add: added_def allocate_vertex_data_def map_replicate_const)
  then have "add_edges g add = Some (Inr ?g')"
    by (auto simp: add_edges_def fits_vertices [OF fits] added_def Let_def intro!: map_cong)
  moreover have before: "edges_before ?vs v = length (concat (map ?f [0..<v]))" if "v \<le> ?n" for v
    using that by (simp add: edges_before_def take_map comp_def length_concat)
  have succs: "succs ?g' v = succs g v @ new v" if "v < ?n" for v
    using that nth_concat_range [of v ?n ?f] by (simp add: succs_def)
  moreover have "wf_graph ?g'"
  proof (rule wf_graphI)
    show "laid_out ?g'" using before by (simp add: laid_out_def)
    show "w < size_of ?g'" if "v < size_of ?g'" "w \<in> set (succs ?g' v)" for v w
    proof -
      have "v < ?n" using that(1) by simp
      then show ?thesis using that(2) succs_bound [OF wf] new(2) unfolding succs [OF \<open>v < ?n\<close>] by auto
    qed
  qed
  ultimately show ?thesis using fits small by (simp add: fits_def)
qed

end
