(* ===== verification/Path_Topo.thy ===== *)
theory Path_Topo
  imports Path_Graph
begin

text \<open>
  \<^verbatim>\<open>Graph::topo_sort\<close> of \<^verbatim>\<open>app/buck2_critical_path/src/graph.rs\<close>: the depth-first search with an explicit stack, its
  termination, and that it returns a topological order of the vertices or a cycle of the graph. The stack is a list
  with its top first.
\<close>

section \<open>The search\<close>

datatype work = Push | Pop

datatype topo_sort_error = Cycle "vertex_id list"

text \<open>The walk down the stack that collects the cycle.\<close>

fun collect_cycle :: "vertex_id \<Rightarrow> (vertex_id \<times> work) list \<Rightarrow> vertex_id list" where
  "collect_cycle j [] = []"
| "collect_cycle j ((node, Pop) # queue) = node # (if node = j then [] else collect_cycle j queue)"
| "collect_cycle j ((node, Push) # queue) = collect_cycle j queue"

text \<open>The vertices not yet marked: what the search has left.\<close>

definition unmarked :: "(bool \<times> bool) list \<Rightarrow> nat" where
  "unmarked state = length (filter (\<lambda>s. \<not> fst s) state)"

lemma unmarked_update:
  "j < length state \<Longrightarrow> unmarked (state[j := s]) + (if fst (state ! j) then 0 else 1) = unmarked state + (if fst s then 0 else 1)"
proof -
  assume j: "j < length state"
  let ?u = "\<lambda>xs. length (filter (\<lambda>s. \<not> fst s) xs)"
  have "?u state = ?u (take j state) + (if fst (state ! j) then 0 else 1) + ?u (drop (Suc j) state)"
    by (subst id_take_nth_drop [OF j]) simp
  moreover have "?u (state[j := s]) = ?u (take j state) + (if fst s then 0 else 1) + ?u (drop (Suc j) state)"
    by (subst upd_conv_take_nth_drop [OF j]) simp
  ultimately show ?thesis by (simp add: unmarked_def)
qed

function (sequential) search :: "graph \<Rightarrow> (bool \<times> bool) vertex_data \<Rightarrow> vertex_id list \<Rightarrow> nat \<Rightarrow> (vertex_id \<times> work) list
    \<Rightarrow> (topo_sort_error + (bool \<times> bool) vertex_data \<times> vertex_id list \<times> nat) option" where
  "search g state order cur [] = Some (Inr (state, order, cur))"
| "search g state order cur ((j, Push) # queue) = do {
     s \<leftarrow> index state j;
     (if snd s then search g state order cur queue
      else if fst s then Some (Inl (Cycle (rev (j # collect_cycle j queue))))
      else do {
        es \<leftarrow> iter_edges g j;
        search g (state[j := (True, snd s)]) order cur (rev (map (\<lambda>k. (k, Push)) es) @ (j, Pop) # queue) }) }"
| "search g state order cur ((j, Pop) # queue) = do {
     s \<leftarrow> index state j;
     order' \<leftarrow> set_index order cur j;
     search g (state[j := (fst s, True)]) order' (cur - 1) queue }"
  by pat_completeness auto

termination
proof (relation "measures [\<lambda>(g, state, order, cur, queue). unmarked state, \<lambda>(g, state, order, cur, queue). length queue]")
  fix g :: graph and state :: "(bool \<times> bool) list" and order queue cur j s and es :: "vertex_id list"
  assume "index state j = Some s" "\<not> snd s" "\<not> fst s"
  then have "unmarked (state[j := (True, snd s)]) < unmarked state"
    using unmarked_update [of j state "(True, snd s)"] by (auto simp: index_def split: if_splits)
  then show "((g, state[j := (True, snd s)], order, cur, rev (map (\<lambda>k. (k, Push)) es) @ (j, Pop) # queue), g, state, order, cur, (j, Push) # queue)
      \<in> measures [\<lambda>(g, state, order, cur, queue). unmarked state, \<lambda>(g, state, order, cur, queue). length queue]"
    by simp
next
  fix g :: graph and state :: "(bool \<times> bool) list" and order order' :: "vertex_id list" and queue cur j s
  assume "index state j = Some s"
  then have "unmarked (state[j := (fst s, True)]) = unmarked state"
    using unmarked_update [of j state "(fst s, True)"] by (auto simp: index_def split: if_splits)
  then show "((g, state[j := (fst s, True)], order', cur - 1, queue), g, state, order, cur, (j, Pop) # queue)
      \<in> measures [\<lambda>(g, state, order, cur, queue). unmarked state, \<lambda>(g, state, order, cur, queue). length queue]"
    by simp
qed auto

fun search_from :: "graph \<Rightarrow> vertex_id list \<Rightarrow> (bool \<times> bool) vertex_data \<times> vertex_id list \<times> nat
    \<Rightarrow> (topo_sort_error + vertex_id list) option" where
  "search_from g [] (state, order, cur) = Some (Inr order)"
| "search_from g (i # is) (state, order, cur) =
     (case search g state order cur [(i, Push)] of
        None \<Rightarrow> None
      | Some (Inl e) \<Rightarrow> Some (Inl e)
      | Some (Inr st) \<Rightarrow> search_from g is st)"

definition topo_sort :: "graph \<Rightarrow> (topo_sort_error + vertex_id list) option" where
  "topo_sort g = do {
     is \<leftarrow> iter_vertices g;
     search_from g is (allocate_vertex_data g (False, False), replicate (length (g_vertices g)) 0, length (g_vertices g) - 1) }"


section \<open>Paths and orders\<close>

text \<open>A path is a list of vertices, each an edge of the one before.\<close>

fun path :: "graph \<Rightarrow> vertex_id list \<Rightarrow> bool" where
  "path g [] \<longleftrightarrow> False"
| "path g [v] \<longleftrightarrow> v < length (g_vertices g)"
| "path g (u # v # vs) \<longleftrightarrow> u < length (g_vertices g) \<and> v \<in> set (succs g u) \<and> path g (v # vs)"

definition is_cycle :: "graph \<Rightarrow> vertex_id list \<Rightarrow> bool" where
  "is_cycle g c \<longleftrightarrow> path g c \<and> length c > 1 \<and> hd c = last c \<and> distinct (tl c)"

definition acyclic_graph :: "graph \<Rightarrow> bool" where
  "acyclic_graph g \<longleftrightarrow> (\<forall>c. \<not> is_cycle g c)"

fun topological :: "graph \<Rightarrow> vertex_id list \<Rightarrow> bool" where
  "topological g [] \<longleftrightarrow> True"
| "topological g (v # vs) \<longleftrightarrow> v \<notin> set vs \<and> set (succs g v) \<subseteq> set vs \<and> topological g vs"

definition is_topo_order :: "graph \<Rightarrow> vertex_id list \<Rightarrow> bool" where
  "is_topo_order g vs \<longleftrightarrow> topological g vs \<and> set vs = {..<length (g_vertices g)}"

lemma path_not_Nil: "path g p \<Longrightarrow> p \<noteq> []"
  by (cases p) auto

lemma path_bound: "path g p \<Longrightarrow> v \<in> set p \<Longrightarrow> v < size_of g"
  by (induction g p rule: path.induct) auto

lemma path_Cons: "path g (u # p) \<longleftrightarrow> u < size_of g \<and> (p = [] \<or> hd p \<in> set (succs g u) \<and> path g p)"
  by (cases p) auto

lemma path_append:
  "p \<noteq> [] \<Longrightarrow> q \<noteq> [] \<Longrightarrow> path g (p @ q) \<longleftrightarrow> path g p \<and> path g q \<and> hd q \<in> set (succs g (last p))"
  by (induction p) (auto simp: path_Cons hd_append)

lemma topological_distinct: "topological g vs \<Longrightarrow> distinct vs"
  by (induction vs) auto

lemma topological_append: "topological g (us @ vs) \<Longrightarrow> topological g vs \<and> set us \<inter> set vs = {}"
  by (induction us) auto

text \<open>Every edge leads forward.\<close>

lemma topological_nth:
  "topological g vs \<Longrightarrow> i < length vs \<Longrightarrow> v \<in> set (succs g (vs ! i)) \<Longrightarrow> \<exists>j. i < j \<and> j < length vs \<and> vs ! j = v"
proof (induction vs arbitrary: i)
  case (Cons u vs)
  show ?case
  proof (cases i)
    case 0
    then have "v \<in> set vs" using Cons.prems by auto
    then obtain j where "j < length vs" "vs ! j = v" by (auto simp: in_set_conv_nth)
    then show ?thesis using 0 by (intro exI [of _ "Suc j"]) simp
  next
    case (Suc k)
    then obtain j where "k < j" "j < length vs" "vs ! j = v" using Cons.IH [of k] Cons.prems by auto
    then show ?thesis using Suc by (intro exI [of _ "Suc j"]) simp
  qed
qed simp

lemma is_topo_order_nth:
  assumes "is_topo_order g vs"
  shows "distinct vs \<and> set vs = {..<size_of g} \<and> (\<forall>i<size_of g. \<forall>v\<in>set (succs g (vs ! i)). \<exists>j. i < j \<and> j < size_of g \<and> vs ! j = v)"
proof -
  have vs: "topological g vs" "distinct vs" "set vs = {..<size_of g}" using assms topological_distinct by (auto simp: is_topo_order_def)
  then have "length vs = size_of g" using distinct_card by fastforce
  then show ?thesis using vs topological_nth [OF vs(1)] by auto
qed

text \<open>A path of an order lies in what follows its first vertex.\<close>

lemma topological_path:
  "topological g (us @ v # vs) \<Longrightarrow> path g (v # p) \<Longrightarrow> set p \<subseteq> set vs"
proof (induction p arbitrary: us v vs)
  case (Cons w p)
  have order: "topological g (v # vs)" using Cons.prems(1) topological_append by blast
  then have "w \<in> set vs" using Cons.prems(2) by auto
  then obtain vs1 vs2 where vs: "vs = vs1 @ w # vs2" by (meson split_list)
  have "set p \<subseteq> set vs2" using Cons.IH [of "v # vs1" w vs2] order Cons.prems(2) by (auto simp: vs)
  then show ?case by (auto simp: vs)
qed simp

lemma topo_order_acyclic:
  assumes "is_topo_order g vs"
  shows "acyclic_graph g"
  unfolding acyclic_graph_def
proof (intro allI notI)
  fix c assume c: "is_cycle g c"
  then obtain v p where vp: "c = v # p" "p \<noteq> []" "last p = v" by (cases c) (auto simp: is_cycle_def)
  then have "v < size_of g" using c by (auto simp: is_cycle_def path_Cons)
  then have "v \<in> set vs" using assms by (auto simp: is_topo_order_def)
  then obtain us ws where vs: "vs = us @ v # ws" by (meson split_list)
  have "set p \<subseteq> set ws" using topological_path [of g us v ws p] assms c by (simp add: is_topo_order_def vs vp is_cycle_def)
  moreover have "v \<in> set p" using vp last_in_set by fastforce
  moreover have "distinct vs" using assms topological_distinct by (auto simp: is_topo_order_def)
  ultimately show False by (auto simp: vs)
qed


section \<open>The invariant of the search\<close>

text \<open>The \<^const>\<open>Pop\<close> entries of the stack are the path of the search, the last vertex first.\<close>

fun pops :: "(vertex_id \<times> work) list \<Rightarrow> vertex_id list" where
  "pops [] = []"
| "pops ((j, Pop) # queue) = j # pops queue"
| "pops ((j, Push) # queue) = pops queue"

text \<open>Every entry is an edge of the path below it.\<close>

fun linked :: "graph \<Rightarrow> (vertex_id \<times> work) list \<Rightarrow> bool" where
  "linked g [] \<longleftrightarrow> True"
| "linked g ((k, w) # queue) \<longleftrightarrow> (pops queue \<noteq> [] \<longrightarrow> k \<in> set (succs g (hd (pops queue)))) \<and> linked g queue"

text \<open>The edges of a vertex of the path are visited already or lie above it on the stack.\<close>

fun covered :: "graph \<Rightarrow> vertex_id set \<Rightarrow> (vertex_id \<times> work) list \<Rightarrow> bool" where
  "covered g A [] \<longleftrightarrow> True"
| "covered g A ((k, Push) # queue) \<longleftrightarrow> covered g (insert k A) queue"
| "covered g A ((j, Pop) # queue) \<longleftrightarrow> set (succs g j) \<subseteq> A \<and> covered g (insert j A) queue"

definition search_inv :: "graph \<Rightarrow> (bool \<times> bool) vertex_data \<Rightarrow> vertex_id list \<Rightarrow> nat \<Rightarrow> (vertex_id \<times> work) list
    \<Rightarrow> vertex_id list \<Rightarrow> bool" where
  "search_inv g state order cur queue out \<longleftrightarrow>
     length state = size_of g \<and> length order = size_of g \<and> cur = size_of g - 1 - length out
     \<and> drop (size_of g - length out) order = out
     \<and> topological g out \<and> set out \<subseteq> {..<size_of g}
     \<and> (\<forall>v<size_of g. snd (state ! v) \<longleftrightarrow> v \<in> set out)
     \<and> (\<forall>v<size_of g. fst (state ! v) \<longleftrightarrow> v \<in> set out \<or> v \<in> set (pops queue))
     \<and> distinct (pops queue @ out) \<and> covered g (set out) queue \<and> linked g queue \<and> fst ` set queue \<subseteq> {..<size_of g}"

lemma pops_append [simp]: "pops (xs @ ys) = pops xs @ pops ys"
  by (induction xs rule: pops.induct) auto

lemma pops_pushes [simp]: "pops (rev (map (\<lambda>k. (k, Push)) es)) = []"
  by (induction es) auto

lemma set_pops: "set (pops queue) \<subseteq> fst ` set queue"
  by (induction queue rule: pops.induct) auto

lemma linked_pushes:
  "pops queue \<noteq> [] \<Longrightarrow> set es \<subseteq> set (succs g (hd (pops queue))) \<Longrightarrow> linked g queue \<Longrightarrow> linked g (rev (map (\<lambda>k. (k, Push)) es) @ queue)"
  by (induction es rule: rev_induct) auto

lemma covered_mono: "covered g A queue \<Longrightarrow> A \<subseteq> B \<Longrightarrow> covered g B queue"
proof (induction g A queue arbitrary: B rule: covered.induct)
  case (2 g A k queue) from 2(1) [of "insert k B"] 2(2-) show ?case by auto
next
  case (3 g A k queue) from 3(1) [of "insert k B"] 3(2-) show ?case by auto
qed simp

lemma covered_pushes: "covered g A (rev (map (\<lambda>k. (k, Push)) es) @ queue) \<longleftrightarrow> covered g (A \<union> set es) queue"
  by (induction es arbitrary: A rule: rev_induct) auto

text \<open>The path, from a vertex of it down to an entry above it.\<close>

lemma linked_path:
  assumes "linked g queue" "pops queue \<noteq> []" "fst ` set queue \<subseteq> {..<size_of g}"
  shows "path g (rev (pops queue))"
  using assms
proof (induction queue rule: pops.induct)
  case (2 j queue)
  then show ?case by (cases "pops queue = []") (auto simp: path_append last_rev)
qed auto

lemma collect_cycle_split:
  "j \<in> set (pops queue) \<Longrightarrow> \<exists>rest. pops queue = collect_cycle j queue @ rest \<and> collect_cycle j queue \<noteq> [] \<and> last (collect_cycle j queue) = j"
  by (induction j queue rule: collect_cycle.induct) auto

lemma collected_is_cycle:
  assumes linked: "linked g ((j, Push) # queue)" and j: "j \<in> set (pops queue)"
    and bound: "fst ` set queue \<subseteq> {..<size_of g}" and dist: "distinct (pops queue)"
  shows "is_cycle g (rev (j # collect_cycle j queue))"
proof -
  let ?c = "collect_cycle j queue"
  obtain rest where c: "pops queue = ?c @ rest" "?c \<noteq> []" "last ?c = j" using collect_cycle_split [OF j] by blast
  have "path g (rev (pops queue))" using linked_path [of g queue] linked c(1, 2) bound by simp
  then have "path g (rev ?c)" using c by (cases "rest = []") (auto simp: path_append)
  moreover have "j \<in> set (succs g (hd ?c))" "hd ?c = last (rev ?c)" using linked c by (auto simp: last_rev)
  moreover have "j < size_of g" using j set_pops [of queue] bound by auto
  ultimately have "path g (rev (j # ?c))" using c(2) by (simp add: path_append)
  moreover have "distinct (tl (rev (j # ?c)))"
  proof -
    obtain c' where c': "?c = c' @ [j]" using c(2, 3) append_butlast_last_id by metis
    then have "distinct (c' @ [j])" using dist c(1) by simp
    then show ?thesis by (auto simp: c')
  qed
  moreover have "hd (rev (j # ?c)) = last (rev (j # ?c))" using c(2, 3) by (simp add: hd_append hd_rev)
  ultimately show ?thesis using c(2) by (simp add: is_cycle_def)
qed


section \<open>The steps of the search\<close>

lemma search_inv_visited:
  assumes "search_inv g state order cur ((j, Push) # queue) out" "snd (state ! j)"
  shows "search_inv g state order cur queue out"
  using assms by (auto simp: search_inv_def insert_absorb)

lemma search_inv_push:
  assumes inv: "search_inv g state order cur ((j, Push) # queue) out" and new: "\<not> fst (state ! j)" and wf: "wf_graph g"
  shows "search_inv g (state[j := (True, snd (state ! j))]) order cur
    (rev (map (\<lambda>k. (k, Push)) (succs g j)) @ (j, Pop) # queue) out"
proof -
  have j: "j < size_of g" "j \<notin> set out" "j \<notin> set (pops queue)" using inv new by (auto simp: search_inv_def)
  have "covered g (insert j (set out)) queue" using inv by (simp add: search_inv_def)
  then have "covered g (insert j (set out \<union> set (succs g j))) queue" by (rule covered_mono) auto
  moreover have "linked g (rev (map (\<lambda>k. (k, Push)) (succs g j)) @ (j, Pop) # queue)"
    using inv by (intro linked_pushes) (auto simp: search_inv_def)
  moreover have "fst ` set (rev (map (\<lambda>k. (k, Push)) (succs g j)) @ (j, Pop) # queue) \<subseteq> {..<size_of g}"
    using inv succs_bound [OF wf] by (auto simp: search_inv_def)
  ultimately show ?thesis using inv j by (auto simp: search_inv_def covered_pushes nth_list_update)
qed

lemma search_inv_pop:
  assumes inv: "search_inv g state order cur ((j, Pop) # queue) out"
  shows "cur < length order"
    "search_inv g (state[j := (fst (state ! j), True)]) (order[cur := j]) (cur - 1) queue (j # out)"
proof -
  let ?n = "size_of g"
  have j: "j < ?n" "j \<notin> set out" "distinct out" "set out \<subseteq> {..<?n}" using inv by (auto simp: search_inv_def)
  have len: "length out < ?n"
    using j psubset_card_mono [of "{..<?n}" "set out"] by (auto simp: distinct_card)
  have cur: "cur = ?n - 1 - length out" and order: "length order = ?n" using inv by (auto simp: search_inv_def)
  then show "cur < length order" using len by simp
  have "drop (?n - length (j # out)) (order[cur := j]) = j # out"
    using inv len cur Cons_nth_drop_Suc [of cur "order[cur := j]"] by (simp add: search_inv_def Suc_diff_Suc)
  then show "search_inv g (state[j := (fst (state ! j), True)]) (order[cur := j]) (cur - 1) queue (j # out)"
    using inv j cur by (auto simp: search_inv_def nth_list_update)
qed

text \<open>The search from a stack ends, with a cycle or with an empty stack and the invariant, and the vertices of the
  stack visited.\<close>

definition outcome :: "graph \<Rightarrow> vertex_id set \<Rightarrow> (topo_sort_error + (bool \<times> bool) vertex_data \<times> vertex_id list \<times> nat) option \<Rightarrow> bool" where
  "outcome g A r \<longleftrightarrow> (case r of
       None \<Rightarrow> False
     | Some (Inl (Cycle c)) \<Rightarrow> is_cycle g c
     | Some (Inr (state, order, cur)) \<Rightarrow> \<exists>out. search_inv g state order cur [] out \<and> A \<subseteq> set out)"

lemma outcome_mono: "outcome g A r \<Longrightarrow> B \<subseteq> A \<Longrightarrow> outcome g B r"
  by (auto simp: outcome_def split: option.splits sum.splits topo_sort_error.splits)

lemma outcome_cases:
  assumes "outcome g A r"
  obtains c where "r = Some (Inl (Cycle c))" "is_cycle g c"
  | state order cur out where "r = Some (Inr (state, order, cur))" "search_inv g state order cur [] out" "A \<subseteq> set out"
  using assms by (auto simp: outcome_def split: option.splits sum.splits topo_sort_error.splits)

lemma search_correct:
  assumes "wf_graph g" "search_inv g state order cur queue out"
  shows "outcome g (fst ` set queue \<union> set out) (search g state order cur queue)"
  using assms
proof (induction g state order cur queue arbitrary: out rule: search.induct)
  case (2 g state order cur j queue)
  note inv = 2(4)
  have j: "j < length state" "j < size_of g" using inv by (auto simp: search_inv_def)
  then have s: "index state j = Some (state ! j)" by simp
  consider (visited) "snd (state ! j)" | (cycle) "\<not> snd (state ! j)" "fst (state ! j)" | (new) "\<not> snd (state ! j)" "\<not> fst (state ! j)"
    by blast
  then show ?case
  proof cases
    case visited
    then have "j \<in> set out" using inv by (auto simp: search_inv_def)
    with outcome_mono [OF 2(1) [OF s visited 2(3) search_inv_visited [OF inv visited]]] visited show ?thesis by (simp add: s)
  next
    case cycle
    then have "j \<in> set (pops queue)" using inv j by (auto simp: search_inv_def)
    then have "is_cycle g (rev (j # collect_cycle j queue))"
      using inv by (intro collected_is_cycle) (auto simp: search_inv_def)
    then show ?thesis using cycle by (simp add: s outcome_def)
  next
    case new
    note IH = 2(2) [OF s new iter_edges_succs [OF 2(3) j(2)] 2(3) search_inv_push [OF inv new(2) 2(3)]]
    have "fst ` set ((j, Push) # queue) \<union> set out
        \<subseteq> fst ` set (rev (map (\<lambda>k. (k, Push)) (succs g j)) @ (j, Pop) # queue) \<union> set out" by auto
    from outcome_mono [OF IH this] new show ?thesis by (simp add: s iter_edges_succs [OF 2(3) j(2)])
  qed
next
  case (3 g state order cur j queue)
  note pop = search_inv_pop [OF 3(3)]
  have s: "index state j = Some (state ! j)" "set_index order cur j = Some (order[cur := j])"
    using 3(3) pop(1) by (auto simp: search_inv_def)
  show ?case using 3(1) [OF s 3(2) pop(2)] by (simp add: s)
qed (auto simp: outcome_def)

lemma search_inv_start:
  assumes "search_inv g state order cur [] out" "i < size_of g"
  shows "search_inv g state order cur [(i, Push)] out"
  using assms by (simp add: search_inv_def)

lemma search_from_correct:
  assumes wf: "wf_graph g" and "search_inv g state order cur [] out" "set is \<subseteq> {..<size_of g}"
  shows "(\<exists>c. search_from g is (state, order, cur) = Some (Inl (Cycle c)) \<and> is_cycle g c)
    \<or> (\<exists>state' order' cur' out'. search_from g is (state, order, cur) = Some (Inr order')
        \<and> search_inv g state' order' cur' [] out' \<and> set is \<union> set out \<subseteq> set out')"
  using assms(2, 3)
proof (induction "is" arbitrary: state order cur out)
  case Nil then show ?case by (auto intro!: exI [of _ state] exI [of _ cur])
next
  case (Cons i "is")
  have "search_inv g state order cur [(i, Push)] out" using Cons.prems by (simp add: search_inv_start)
  from search_correct [OF wf this] show ?case
  proof (cases rule: outcome_cases)
    case (2 state' order' cur' out')
    have eq: "search_from g (i # is) (state, order, cur) = search_from g is (state', order', cur')" using 2(1) by simp
    have sub: "set (i # is) \<union> set out \<subseteq> set is \<union> set out'" using 2(3) by auto
    have "set is \<subseteq> {..<size_of g}" using Cons.prems(2) by simp
    from Cons.IH [OF 2(2) this] sub show ?thesis unfolding eq by blast
  qed simp
qed

text \<open>A topological order, or a cycle.\<close>

lemma topo_sort_cases:
  assumes wf: "wf_graph g" and fits: "fits g"
  shows "(\<exists>c. topo_sort g = Some (Inl (Cycle c)) \<and> is_cycle g c) \<or> (\<exists>vs. topo_sort g = Some (Inr vs) \<and> is_topo_order g vs)"
proof -
  let ?n = "size_of g"
  have "search_inv g (allocate_vertex_data g (False, False)) (replicate ?n 0) (?n - 1) [] []" by (simp add: search_inv_def)
  from search_from_correct [OF wf this, of "[0..<?n]"]
  consider c where "topo_sort g = Some (Inl (Cycle c))" "is_cycle g c"
    | state order cur out where "topo_sort g = Some (Inr order)" "search_inv g state order cur [] out" "{..<?n} \<subseteq> set out"
    by (auto simp: topo_sort_def fits_vertices [OF fits] atLeast0LessThan)
  then show ?thesis
  proof cases
    case (2 state order cur out)
    then have out: "set out = {..<?n}" "topological g out" by (auto simp: search_inv_def)
    then have "length out = ?n" using topological_distinct distinct_card by fastforce
    then have "order = out" using 2 by (simp add: search_inv_def)
    then show ?thesis using 2 out by (simp add: is_topo_order_def)
  qed simp
qed

lemma topo_sort_acyclic:
  "wf_graph g \<Longrightarrow> fits g \<Longrightarrow> acyclic_graph g \<Longrightarrow> \<exists>vs. topo_sort g = Some (Inr vs) \<and> is_topo_order g vs"
  using topo_sort_cases [of g] by (auto simp: acyclic_graph_def)

lemma topo_sort_iff_acyclic:
  assumes "wf_graph g" "fits g"
  shows "(\<exists>vs. topo_sort g = Some (Inr vs)) \<longleftrightarrow> acyclic_graph g"
  using topo_sort_cases [OF assms] topo_sort_acyclic [OF assms] topo_order_acyclic by fastforce


section \<open>The graphs of the builder\<close>

lemma set_known_deps:
  assumes "distinct ks"
  shows "w \<in> set (known_deps (zip ks [0..<length ks]) deps) \<longleftrightarrow> w < length ks \<and> ks ! w \<in> set deps"
proof -
  have "map_of (zip ks [0..<length ks]) k = Some w \<longleftrightarrow> w < length ks \<and> ks ! w = k" for k
    using assms by (subst map_of_eq_Some_iff) (auto simp: in_set_zip)
  then show ?thesis by (force simp: known_deps_def List.map_filter_def)
qed

lemma built_edges:
  assumes b: "builder_holds ps b" and i: "i < length ps"
  shows "w \<in> set (succs (fst (finish b)) i) \<longleftrightarrow> w \<le> i \<and> fst (ps ! w) \<in> set (fst (snd (ps ! i)))"
proof -
  let ?ks = "map fst (take (Suc i) ps)"
  have d: "distinct ?ks" "length ?ks = Suc i" using b i by (auto simp: builder_holds_def take_map [symmetric])
  show ?thesis using b i set_known_deps [OF d(1), of w "fst (snd (ps ! i))"] unfolding d(2) by (auto simp: builder_holds_def less_Suc_eq_le)
qed

lemma built_graph:
  assumes "builder_holds ps b"
  shows "wf_graph (fst (finish b))" "size_of (fst (finish b)) = length ps"
  using assms by (simp_all add: builder_holds_def finish_def)

text \<open>A self-dependency is the only cycle the builder can make.\<close>

lemma built_acyclic_iff:
  assumes b: "builder_holds ps b"
  shows "acyclic_graph (fst (finish b)) \<longleftrightarrow> (\<forall>(key, deps, data)\<in>set ps. key \<notin> set deps)"
proof
  let ?g = "fst (finish b)"
  note size = built_graph(2) [OF b]
  assume acyclic: "acyclic_graph ?g"
  have "fst (ps ! i) \<notin> set (fst (snd (ps ! i)))" if i: "i < length ps" for i
  proof
    assume "fst (ps ! i) \<in> set (fst (snd (ps ! i)))"
    then have "is_cycle ?g [i, i]" using built_edges [OF b i, of i] i by (simp add: is_cycle_def size)
    then show False using acyclic by (simp add: acyclic_graph_def)
  qed
  then show "\<forall>(key, deps, data)\<in>set ps. key \<notin> set deps" unfolding in_set_conv_nth Ball_def by force
next
  let ?g = "fst (finish b)"
  note size = built_graph(2) [OF b]
  assume free: "\<forall>(key, deps, data)\<in>set ps. key \<notin> set deps"
  have "topological ?g (rev [0..<i])" if "i \<le> length ps" for i
    using that
  proof (induction i)
    case (Suc i)
    have i: "i < length ps" using Suc.prems by simp
    have self: "fst (ps ! i) \<notin> set (fst (snd (ps ! i)))" using free nth_mem [OF i] by (auto simp: case_prod_unfold)
    have "w < i" if "w \<in> set (succs ?g i)" for w using built_edges [OF b i, of w] that self by (cases "w = i") auto
    then have "set (succs ?g i) \<subseteq> {0..<i}" by auto
    then show ?case using Suc by simp
  qed simp
  from this [of "length ps"] have "is_topo_order ?g (rev [0..<length ps])" by (auto simp: is_topo_order_def size)
  then show "acyclic_graph ?g" by (rule topo_order_acyclic)
qed

end
