(* ===== verification/Path_Visit.thy ===== *)
theory Path_Visit
  imports Path_Topo
begin

text \<open>
  The traversal of \<^verbatim>\<open>app/buck2_critical_path/src/potential.rs\<close> (\<^verbatim>\<open>GraphVisitor\<close>) that marks what the vertices of
  the critical path reach: the loop with an explicit stack ends, and the mark of a vertex is the first of the visited
  vertices that reaches it.
\<close>

section \<open>The traversal\<close>

text \<open>An index above the range of an \<^verbatim>\<open>i32\<close> would read as unmarked, and the loop might then not end.\<close>

partial_function (option) visit :: "graph \<Rightarrow> nat \<Rightarrow> optional_vertex_id vertex_data \<Rightarrow> vertex_id list
    \<Rightarrow> optional_vertex_id vertex_data option" where
  "visit g cp_idx mark stack =
     (if stack = [] then Some mark
      else do {
        m \<leftarrow> index mark (hd stack);
        (if is_some m then visit g cp_idx mark (tl stack)
         else do {
           es \<leftarrow> iter_edges g (hd stack);
           visit g cp_idx (mark[hd stack := optional_from cp_idx]) (rev es @ tl stack) }) })"

declare visit.simps [code]

definition visit_all :: "graph \<Rightarrow> (nat \<times> vertex_id) list \<Rightarrow> optional_vertex_id vertex_data option" where
  "visit_all g starts = fold_opt (\<lambda>(cp_idx, vertex_idx) mark. visit g cp_idx mark [vertex_idx]) starts (allocate_vertex_data g optional_none)"


section \<open>Reachability\<close>

definition reaches :: "graph \<Rightarrow> vertex_id \<Rightarrow> vertex_id \<Rightarrow> bool" where
  "reaches g u v \<longleftrightarrow> (\<exists>p. path g p \<and> hd p = u \<and> last p = v)"

lemma reaches_refl: "v < size_of g \<Longrightarrow> reaches g v v"
  unfolding reaches_def by (intro exI [of _ "[v]"]) simp

lemma reaches_step:
  assumes "u < size_of g" "v \<in> set (succs g u)" "reaches g v w"
  shows "reaches g u w"
proof -
  obtain p where p: "path g p" "hd p = v" "last p = w" using assms(3) by (auto simp: reaches_def)
  then have "path g (u # p)" "last (u # p) = w" using assms path_not_Nil [OF p(1)] by (auto simp: path_Cons)
  then show ?thesis unfolding reaches_def by (intro exI [of _ "u # p"]) auto
qed

lemma reaches_trans:
  assumes "reaches g u v" "reaches g v w"
  shows "reaches g u w"
proof -
  obtain p where p: "path g p" "hd p = u" "last p = v" using assms(1) by (auto simp: reaches_def)
  show ?thesis using p
  proof (induction p arbitrary: u)
    case (Cons x p)
    then show ?case
      using assms(2) by (cases "p = []") (auto simp: path_Cons intro: reaches_step)
  qed simp
qed

lemma reaches_path:
  assumes "path g (xs @ u # ys @ v # zs)"
  shows "reaches g u v"
proof -
  have "path g (u # ys @ v # zs)" using assms by (cases "xs = []") (auto simp: path_append)
  then have "path g ((u # ys @ [v]) @ zs)" by simp
  then have "path g (u # ys @ [v])" by (cases "zs = []") (auto simp del: append_Cons append_assoc simp: path_append)
  then show ?thesis unfolding reaches_def by (intro exI [of _ "u # ys @ [v]"]) auto
qed

definition marked :: "optional_vertex_id vertex_data \<Rightarrow> vertex_id set" where
  "marked mark = {v. v < length mark \<and> is_some (mark ! v)}"

definition edge_closed :: "graph \<Rightarrow> vertex_id set \<Rightarrow> bool" where
  "edge_closed g M \<longleftrightarrow> (\<forall>v\<in>M. set (succs g v) \<subseteq> M)"

lemma edge_closed_reaches:
  assumes "edge_closed g M" "u \<in> M" "reaches g u v"
  shows "v \<in> M"
proof -
  obtain p where p: "path g p" "hd p = u" "last p = v" using assms(3) by (auto simp: reaches_def)
  show ?thesis using p assms(2)
  proof (induction p arbitrary: u)
    case (Cons x p)
    then show ?case using assms(1) by (cases "p = []") (auto simp: path_Cons edge_closed_def)
  qed simp
qed


section \<open>What a traversal marks\<close>

lemma marked_update: "v < length mark \<Longrightarrow> is_some k \<Longrightarrow> marked (mark[v := k]) = insert v (marked mark)"
  by (auto simp: marked_def nth_list_update)

lemma is_some_from: "cp \<le> i32_max \<Longrightarrow> is_some (optional_from cp)"
  by (simp add: is_some_def optional_from_def)

text \<open>The marks before and after: nothing marked changes, and what is new has the index and is reached.\<close>

definition mark_extends :: "graph \<Rightarrow> nat \<Rightarrow> vertex_id set \<Rightarrow> optional_vertex_id vertex_data \<Rightarrow> optional_vertex_id vertex_data \<Rightarrow> bool" where
  "mark_extends g cp A mark mark' \<longleftrightarrow> length mark' = length mark \<and> A \<union> marked mark \<subseteq> marked mark'
     \<and> (\<forall>v\<in>marked mark. mark' ! v = mark ! v)
     \<and> (\<forall>v\<in>marked mark' - marked mark. mark' ! v = optional_from cp \<and> (\<exists>u\<in>A. reaches g u v))"

lemma mark_extends_first:
  assumes ext: "mark_extends g cp (set (succs g v) \<union> A) (mark[v := optional_from cp]) mark'" and v: "v < size_of g" "v < length mark"
    "v \<notin> marked mark" and m: "marked (mark[v := optional_from cp]) = insert v (marked mark)"
  shows "mark_extends g cp (insert v A) mark mark'"
proof -
  let ?mark = "mark[v := optional_from cp]"
  have sub: "length mark' = length mark" "A \<union> insert v (marked mark) \<subseteq> marked mark'" using ext by (auto simp: mark_extends_def m)
  have same: "mark' ! u = ?mark ! u" if "u \<in> insert v (marked mark)" for u
    using ext that unfolding mark_extends_def m by blast
  have new: "mark' ! u = optional_from cp \<and> (\<exists>x\<in>set (succs g v) \<union> A. reaches g x u)" if "u \<in> marked mark'" "u \<notin> insert v (marked mark)" for u
    using ext that unfolding mark_extends_def m by blast
  have "mark' ! u = optional_from cp \<and> (\<exists>x\<in>insert v A. reaches g x u)" if "u \<in> marked mark' - marked mark" for u
  proof (cases "u = v")
    case True
    then show ?thesis using same [of v] v reaches_refl by simp
  next
    case False
    then show ?thesis using new [of u] that reaches_step [OF v(1)] by blast
  qed
  moreover have "mark' ! u = mark ! u" if "u \<in> marked mark" for u using same [of u] that v(3) by (cases "u = v") auto
  ultimately show ?thesis using sub by (simp add: mark_extends_def)
qed

lemma visit_correct:
  assumes wf: "wf_graph g" and cp: "cp \<le> i32_max"
    and "length mark = size_of g" "set stack \<subseteq> {..<size_of g}" "\<forall>v\<in>marked mark. set (succs g v) \<subseteq> marked mark \<union> set stack"
  shows "\<exists>mark'. visit g cp mark stack = Some mark' \<and> edge_closed g (marked mark') \<and> mark_extends g cp (set stack) mark mark'"
  using assms(3-)
proof (induction "(mark, stack)" arbitrary: mark stack
    rule: wf_induct_rule [OF wf_measures [of "[\<lambda>(mark, stack). card ({..<size_of g} - marked mark), \<lambda>(mark, stack). length stack]"]])
  case (1 mark stack)
  show ?case
  proof (cases stack)
    case Nil
    then show ?thesis using 1 by (simp add: visit.simps edge_closed_def mark_extends_def)
  next
    case (Cons v rest)
    then have v: "v < size_of g" "v < length mark" using 1 by auto
    show ?thesis
    proof (cases "v \<in> marked mark")
      case True
      have "\<exists>mark'. visit g cp mark rest = Some mark' \<and> edge_closed g (marked mark') \<and> mark_extends g cp (set rest) mark mark'"
        using 1 Cons True by (intro 1(1)) auto
      moreover have "visit g cp mark stack = visit g cp mark rest" using v True by (simp add: Cons visit.simps [of _ _ _ "v # rest"] marked_def)
      ultimately show ?thesis using True Cons by (auto simp: mark_extends_def)
    next
      case False
      let ?mark = "mark[v := optional_from cp]"
      have m: "marked ?mark = insert v (marked mark)" using marked_update v(2) is_some_from [OF cp] by blast
      have less: "card ({..<size_of g} - marked ?mark) < card ({..<size_of g} - marked mark)"
        using False v(1) by (intro psubset_card_mono) (auto simp: m)
      have "\<exists>mark'. visit g cp ?mark (rev (succs g v) @ rest) = Some mark' \<and> edge_closed g (marked mark')
          \<and> mark_extends g cp (set (rev (succs g v) @ rest)) ?mark mark'"
        using 1(2-) Cons succs_bound [OF wf] less by (intro 1(1)) (auto simp: m)
      then obtain mark' where mark': "visit g cp ?mark (rev (succs g v) @ rest) = Some mark'" "edge_closed g (marked mark')"
        "mark_extends g cp (set (rev (succs g v) @ rest)) ?mark mark'" by blast
      have "visit g cp mark stack = visit g cp ?mark (rev (succs g v) @ rest)"
        using v False by (simp add: Cons visit.simps [of _ _ _ "v # rest"] marked_def iter_edges_succs [OF wf])
      moreover have "mark_extends g cp (set stack) mark mark'"
        using mark_extends_first [OF _ v False m, of "set rest"] mark'(3) by (simp add: Cons)
      ultimately show ?thesis using mark' by auto
    qed
  qed
qed

lemma visit_start:
  assumes "wf_graph g" "cp \<le> i32_max" "length mark = size_of g" "u < size_of g" "edge_closed g (marked mark)"
  shows "\<exists>mark'. visit g cp mark [u] = Some mark' \<and> edge_closed g (marked mark') \<and> mark_extends g cp {u} mark mark'"
  using visit_correct [OF assms(1-3), of "[u]"] assms(4, 5) by (auto simp: edge_closed_def)

text \<open>The index a vertex is marked with: that of the first start that reaches it.\<close>

lemma mark_extends_into_option:
  assumes ext: "mark_extends g cp {u} mark mark'" and closed: "edge_closed g (marked mark')" and cp: "cp \<le> i32_max" and v: "v < length mark"
  shows "into_option (mark' ! v) = (case into_option (mark ! v) of Some k \<Rightarrow> Some k | None \<Rightarrow> if reaches g u v then Some cp else None)"
proof (cases "v \<in> marked mark")
  case True
  then have "mark' ! v = mark ! v" "into_option (mark ! v) \<noteq> None" using ext by (auto simp: mark_extends_def marked_def is_some_into_option)
  then show ?thesis by auto
next
  case False
  then have "into_option (mark ! v) = None" using v by (simp add: marked_def is_some_into_option)
  moreover have "reaches g u v \<longleftrightarrow> v \<in> marked mark'" using ext False edge_closed_reaches [OF closed, of u v] unfolding mark_extends_def by blast
  moreover have "into_option (mark' ! v) = (if v \<in> marked mark' then Some cp else None)"
  proof (cases "v \<in> marked mark'")
    case True
    then have "mark' ! v = optional_from cp" using ext \<open>v \<notin> marked mark\<close> unfolding mark_extends_def by blast
    then show ?thesis using True cp by simp
  next
    case False
    moreover have "length mark' = length mark" using ext unfolding mark_extends_def by blast
    ultimately have "\<not> is_some (mark' ! v)" using v by (simp add: marked_def)
    then show ?thesis using False by (simp add: is_some_into_option)
  qed
  ultimately show ?thesis by simp
qed

lemma visit_all_correct:
  assumes wf: "wf_graph g" and starts: "\<And>k u. (k, u) \<in> set starts \<Longrightarrow> k \<le> i32_max \<and> u < size_of g"
  shows "\<exists>mark. visit_all g starts = Some mark \<and> length mark = size_of g
    \<and> (\<forall>v<size_of g. into_option (mark ! v) = map_option fst (find (\<lambda>(k, u). reaches g u v) starts))"
proof -
  let ?I = "\<lambda>ys mark. length mark = size_of g \<and> edge_closed g (marked mark)
    \<and> (\<forall>v<size_of g. into_option (mark ! v) = map_option fst (find (\<lambda>(k, u). reaches g u v) ys))"
  have "\<exists>mark. visit_all g starts = Some mark \<and> ?I starts mark"
    unfolding visit_all_def
  proof (rule fold_opt_invariant [where I = ?I])
    show "?I [] (allocate_vertex_data g optional_none)"
      by (auto simp: edge_closed_def marked_def is_some_into_option)
  next
    fix ys x zs mark assume xs: "starts = ys @ x # zs" and I: "?I ys mark"
    obtain k u where x: "x = (k, u)" "k \<le> i32_max" "u < size_of g" using starts by (cases x) (auto simp: xs)
    obtain mark' where "visit g k mark [u] = Some mark'" "edge_closed g (marked mark')" "mark_extends g k {u} mark mark'"
      using visit_start [OF wf x(2) _ x(3)] I by blast
    then show "\<exists>mark'. (case x of (cp_idx, vertex_idx) \<Rightarrow> \<lambda>mark. visit g cp_idx mark [vertex_idx]) mark = Some mark' \<and> ?I (ys @ [x]) mark'"
      using I x mark_extends_into_option [of g k u mark mark'] by (auto simp: mark_extends_def find_append split: option.splits)
  qed
  then show ?thesis by blast
qed

end
