(* ===== verification/Path_Longest.thy ===== *)
theory Path_Longest
  imports Path_Topo
begin

text \<open>
  \<^verbatim>\<open>PathCost\<close> and \<^verbatim>\<open>Graph::find_longest_paths\<close> of \<^verbatim>\<open>app/buck2_critical_path/src/graph.rs\<close> and the accessor of
  \<^verbatim>\<open>critical_path_accessor.rs\<close>: the cost kept for a vertex is that of the longest path from it, and following the
  predecessors gives such a path.
\<close>

section \<open>Costs\<close>

datatype path_cost = PathCost (runtime: nat) (len: nat)

text \<open>The derived order compares the runtimes first; the derived sum adds both fields.\<close>

definition cost_le :: "path_cost \<Rightarrow> path_cost \<Rightarrow> bool" where
  [simp]: "cost_le a b \<longleftrightarrow> runtime a < runtime b \<or> runtime a = runtime b \<and> len a \<le> len b"

definition cost_plus :: "path_cost \<Rightarrow> path_cost \<Rightarrow> path_cost" where
  [simp]: "cost_plus a b = PathCost (runtime a + runtime b) (len a + len b)"

instantiation path_cost :: "{linorder, cancel_comm_monoid_add}"
begin

definition less_eq_path_cost :: "path_cost \<Rightarrow> path_cost \<Rightarrow> bool" where
  "a \<le> b \<longleftrightarrow> cost_le a b"

definition less_path_cost :: "path_cost \<Rightarrow> path_cost \<Rightarrow> bool" where
  "a < b \<longleftrightarrow> runtime a < runtime b \<or> runtime a = runtime b \<and> len a < len b"

definition zero_path_cost :: path_cost where
  "0 = PathCost 0 0"

definition plus_path_cost :: "path_cost \<Rightarrow> path_cost \<Rightarrow> path_cost" where
  "a + b = cost_plus a b"

definition minus_path_cost :: "path_cost \<Rightarrow> path_cost \<Rightarrow> path_cost" where
  "a - b = PathCost (runtime a - runtime b) (len a - len b)"

instance
  by standard (auto simp: less_eq_path_cost_def less_path_cost_def zero_path_cost_def plus_path_cost_def minus_path_cost_def
      path_cost.expand)

end

instance path_cost :: linordered_cancel_ab_semigroup_add
  by standard (auto simp: less_eq_path_cost_def plus_path_cost_def)

lemma cost_simps [simp]:
  "runtime (a + b) = runtime a + runtime b" "len (a + b) = len a + len b" "runtime (0 :: path_cost) = 0" "len (0 :: path_cost) = 0"
  by (simp_all add: plus_path_cost_def zero_path_cost_def)

lemma zero_le_cost [simp]: "(0 :: path_cost) \<le> c"
  by (auto simp: less_eq_path_cost_def)

definition default_cost :: path_cost where
  "default_cost = PathCost 0 0"

definition add_cost :: "path_cost \<Rightarrow> path_cost \<Rightarrow> path_cost option" where
  "add_cost a b =
     (if runtime a + runtime b \<le> u64_max \<and> len a + len b \<le> u32_max
      then Some (PathCost (runtime a + runtime b) (len a + len b)) else None)"


section \<open>Longest paths\<close>

definition better_edge :: "path_cost vertex_data \<Rightarrow> vertex_id \<Rightarrow> (path_cost \<times> vertex_id) option \<Rightarrow> (path_cost \<times> vertex_id) option option" where
  "better_edge costs from best = do {
     from_cost \<leftarrow> index costs from;
     let replace = (case best of Some (max_cost, _) \<Rightarrow> max_cost < from_cost | None \<Rightarrow> True);
     Some (if replace then Some (from_cost, from) else best) }"

definition relax :: "graph \<Rightarrow> nat vertex_data \<Rightarrow> vertex_id \<Rightarrow> path_cost vertex_data \<times> optional_vertex_id vertex_data
    \<Rightarrow> (path_cost vertex_data \<times> optional_vertex_id vertex_data) option" where
  "relax g weights idx st = do {
     let (costs, predecessor) = st;
     froms \<leftarrow> iter_edges g idx;
     best \<leftarrow> fold_opt (better_edge costs) froms None;
     weight \<leftarrow> index weights idx;
     let me = PathCost weight 1;
     (case best of
        Some (cost, vertex) \<Rightarrow> do {
          sum \<leftarrow> add_cost cost me;
          costs' \<leftarrow> set_index costs idx sum;
          predecessor' \<leftarrow> set_index predecessor idx (optional_from vertex);
          Some (costs', predecessor') }
      | None \<Rightarrow> do {
          costs' \<leftarrow> set_index costs idx me;
          predecessor' \<leftarrow> set_index predecessor idx optional_none;
          Some (costs', predecessor') }) }"

definition find_longest_paths :: "graph \<Rightarrow> vertex_id list \<Rightarrow> nat vertex_data
    \<Rightarrow> (path_cost vertex_data \<times> optional_vertex_id vertex_data) option" where
  "find_longest_paths g reverse_topo_order weights =
     fold_opt (relax g weights) reverse_topo_order (allocate_vertex_data g default_cost, allocate_vertex_data g optional_none)"


section \<open>The accessor\<close>

record critical_path_accessor =
  predecessors :: "optional_vertex_id vertex_data"
  cost_from_source :: "path_cost vertex_data"

definition step_back :: "critical_path_accessor \<Rightarrow> nat \<Rightarrow> nat \<Rightarrow> vertex_id list \<times> vertex_id \<Rightarrow> (vertex_id list \<times> vertex_id) option" where
  "step_back acc n i st = do {
     let (critical_path, idx) = st;
     critical_path' \<leftarrow> set_index critical_path (n - 1 - i) idx;
     (if i \<noteq> n - 1 then do {
        pred \<leftarrow> index (predecessors acc) idx;
        idx' \<leftarrow> into_option pred;
        Some (critical_path', idx') }
      else Some (critical_path', idx)) }"

definition critical_path_for_vertex_and_cost :: "critical_path_accessor \<Rightarrow> vertex_id \<Rightarrow> path_cost \<Rightarrow> vertex_id list option" where
  "critical_path_for_vertex_and_cost acc sink cost =
     map_option fst (fold_opt (step_back acc (len cost)) [0..<len cost] (replicate (len cost) 0, sink))"

text \<open>\<^term>\<open>Some None\<close> is the \<^verbatim>\<open>None\<close> of an invalid vertex.\<close>

definition critical_path_for_vertex :: "critical_path_accessor \<Rightarrow> vertex_id \<Rightarrow> (path_cost \<times> vertex_id list) option option" where
  "critical_path_for_vertex acc sink =
     (case index (cost_from_source acc) sink of
        None \<Rightarrow> Some None
      | Some cost \<Rightarrow> map_option (\<lambda>cp. Some (cost, cp)) (critical_path_for_vertex_and_cost acc sink cost))"


section \<open>The cost of a path\<close>

definition path_cost_of :: "nat vertex_data \<Rightarrow> vertex_id list \<Rightarrow> path_cost" where
  "path_cost_of w p = sum_list (map (\<lambda>v. PathCost (w ! v) 1) p)"

lemma path_cost_Cons [simp]: "path_cost_of w (v # p) = PathCost (w ! v) 1 + path_cost_of w p"
  by (simp add: path_cost_of_def)

lemma path_cost_append [simp]: "path_cost_of w (p @ q) = path_cost_of w p + path_cost_of w q"
  by (simp add: path_cost_of_def)

lemma path_cost_Nil [simp]: "path_cost_of w [] = 0"
  by (simp add: path_cost_of_def)

lemma path_cost_rev [simp]: "path_cost_of w (rev p) = path_cost_of w p"
  by (induction p) (simp_all add: add.commute)

lemma len_path_cost [simp]: "len (path_cost_of w p) = length p"
  by (induction p) simp_all

lemma runtime_path_cost: "runtime (path_cost_of w p) = sum_list (map ((!) w) p)"
  by (induction p) simp_all

text \<open>A cost is the longest of a set of paths.\<close>

definition longest :: "nat vertex_data \<Rightarrow> vertex_id list set \<Rightarrow> path_cost \<Rightarrow> bool" where
  "longest w P c \<longleftrightarrow> (\<exists>p\<in>P. path_cost_of w p = c) \<and> (\<forall>p\<in>P. path_cost_of w p \<le> c)"

definition paths_from :: "graph \<Rightarrow> vertex_id \<Rightarrow> vertex_id list set" where
  "paths_from g v = {p. path g p \<and> hd p = v}"

lemma longest_unique: "longest w P c \<Longrightarrow> longest w P d \<Longrightarrow> c = d"
  unfolding longest_def by (metis order_antisym)

lemma paths_from_iff: "p \<in> paths_from g v \<longleftrightarrow> (\<exists>q. p = v # q \<and> v < size_of g \<and> (q = [] \<or> (\<exists>u\<in>set (succs g v). q \<in> paths_from g u)))"
  by (cases p) (auto simp: paths_from_def path_Cons path_not_Nil)

lemma longest_len_pos:
  assumes "longest w (paths_from g v) c"
  shows "len c > 0"
proof -
  obtain p where "path g p" "path_cost_of w p = c" using assms by (auto simp: longest_def paths_from_def)
  then show ?thesis using path_not_Nil len_path_cost [of w p] by auto
qed

lemma distinct_runtime_bound:
  assumes "distinct p" "set p \<subseteq> {..<length w}"
  shows "runtime (path_cost_of w p) \<le> sum_list w"
proof -
  have "sum_list (map ((!) w) p) = (\<Sum>v\<in>set p. w ! v)" using assms(1) by (simp add: sum_list_distinct_conv_sum_set)
  also have "\<dots> \<le> (\<Sum>v\<in>{..<length w}. w ! v)" using assms(2) by (intro sum_mono2) auto
  also have "\<dots> = sum_list w" by (simp add: sum_list_sum_nth atLeast0LessThan)
  finally show ?thesis by (simp add: runtime_path_cost)
qed


section \<open>Dependencies first\<close>

text \<open>The orders \<^const>\<open>find_longest_paths\<close> is called with: every vertex after its edges.\<close>

definition edges_first :: "graph \<Rightarrow> vertex_id list \<Rightarrow> bool" where
  "edges_first g order \<longleftrightarrow> set order = {..<size_of g} \<and> topological g (rev order)"

lemma edges_first_split:
  assumes "edges_first g order" "order = ys @ x # zs"
  shows "set (succs g x) \<subseteq> set ys" "x \<notin> set ys" "x < size_of g"
proof -
  have "topological g (x # rev ys)" using assms topological_append [of g "rev zs" "x # rev ys"] by (simp add: edges_first_def)
  then show "set (succs g x) \<subseteq> set ys" "x \<notin> set ys" by auto
  have "x \<in> set order" by (simp add: assms(2))
  then show "x < size_of g" using assms(1) by (auto simp: edges_first_def)
qed

lemma edges_first_topo: "is_topo_order g vs \<Longrightarrow> edges_first g (rev vs)"
  by (simp add: edges_first_def is_topo_order_def)

lemma edges_first_distinct:
  assumes "edges_first g order" "path g p"
  shows "distinct p"
proof (rule ccontr)
  assume "\<not> distinct p"
  then obtain xs ys zs v where p: "p = xs @ [v] @ ys @ [v] @ zs" using not_distinct_decomp by blast
  have sub: "path g (v # ys @ [v] @ zs)" using assms(2) by (cases "xs = []") (auto simp: p path_append)
  have "v \<in> set (rev order)" using path_bound [OF sub, of v] assms(1) by (simp add: edges_first_def)
  then obtain us ws where order: "rev order = us @ v # ws" by (meson split_list)
  have "topological g (us @ v # ws)" using assms(1) by (simp add: edges_first_def order)
  with topological_path [OF this sub] show False using topological_append [of g us "v # ws"] by auto
qed

lemma path_cost_bounds:
  assumes "edges_first g order" "path g p" "length w = size_of g"
  shows "runtime (path_cost_of w p) \<le> sum_list w" "length p \<le> size_of g"
proof -
  have d: "distinct p" "set p \<subseteq> {..<size_of g}" using edges_first_distinct [OF assms(1, 2)] path_bound [OF assms(2)] by auto
  then show "runtime (path_cost_of w p) \<le> sum_list w" using distinct_runtime_bound [of p w] assms(3) by simp
  show "length p \<le> size_of g" using d card_mono [OF _ d(2)] by (simp add: distinct_card)
qed


section \<open>The best edge\<close>

definition best_of :: "path_cost vertex_data \<Rightarrow> vertex_id list \<Rightarrow> (path_cost \<times> vertex_id) option \<Rightarrow> bool" where
  "best_of costs froms best \<longleftrightarrow>
     (case best of None \<Rightarrow> froms = [] | Some (c, v) \<Rightarrow> v \<in> set froms \<and> c = costs ! v \<and> (\<forall>u\<in>set froms. costs ! u \<le> c))"

lemma best_edge:
  assumes "set froms \<subseteq> {..<length costs}"
  shows "\<exists>best. fold_opt (better_edge costs) froms None = Some best \<and> best_of costs froms best"
proof (rule fold_opt_invariant [where I = "best_of costs"])
  fix ys x zs best assume xs: "froms = ys @ x # zs" and best: "best_of costs ys best"
  have "x < length costs" using assms by (auto simp: xs)
  then have "better_edge costs x best = Some (if (case best of Some (c, _) \<Rightarrow> c < costs ! x | None \<Rightarrow> True) then Some (costs ! x, x) else best)"
    by (simp add: better_edge_def Let_def)
  moreover have "best_of costs (ys @ [x]) (if (case best of Some (c, _) \<Rightarrow> c < costs ! x | None \<Rightarrow> True) then Some (costs ! x, x) else best)"
    using best by (auto simp: best_of_def not_less split: option.splits intro: less_imp_le order.trans)
  ultimately show "\<exists>best'. better_edge costs x best = Some best' \<and> best_of costs (ys @ [x]) best'" by blast
qed (simp add: best_of_def)


section \<open>The costs found\<close>

text \<open>What is known of a vertex that was processed: its cost, and that its predecessor accounts for it.\<close>

definition found :: "graph \<Rightarrow> nat vertex_data \<Rightarrow> path_cost vertex_data \<times> optional_vertex_id vertex_data \<Rightarrow> vertex_id \<Rightarrow> bool" where
  "found g w st v \<longleftrightarrow> longest w (paths_from g v) (fst st ! v)
     \<and> (case into_option (snd st ! v) of
          None \<Rightarrow> fst st ! v = PathCost (w ! v) 1
        | Some u \<Rightarrow> u \<in> set (succs g v) \<and> fst st ! v = fst st ! u + PathCost (w ! v) 1)"

lemma longest_none: "v < size_of g \<Longrightarrow> succs g v = [] \<Longrightarrow> longest w (paths_from g v) (PathCost (w ! v) 1)"
  by (auto simp: longest_def paths_from_iff [of _ g v])

lemma longest_some:
  assumes v: "v < size_of g" and u: "u \<in> set (succs g v)" and lu: "longest w (paths_from g u) (costs ! u)"
    and best: "\<And>x. x \<in> set (succs g v) \<Longrightarrow> costs ! x \<le> costs ! u \<and> longest w (paths_from g x) (costs ! x)"
  shows "longest w (paths_from g v) (costs ! u + PathCost (w ! v) 1)"
  unfolding longest_def
proof (intro conjI ballI)
  obtain q where "q \<in> paths_from g u" "path_cost_of w q = costs ! u" using lu by (auto simp: longest_def)
  then show "\<exists>p\<in>paths_from g v. path_cost_of w p = costs ! u + PathCost (w ! v) 1"
    using v u by (intro bexI [of _ "v # q"]) (auto simp: paths_from_iff [of _ g v] add.commute)
next
  fix p assume "p \<in> paths_from g v"
  then obtain q where p: "p = v # q" "q = [] \<or> (\<exists>x\<in>set (succs g v). q \<in> paths_from g x)" by (auto simp: paths_from_iff [of p g v])
  have "path_cost_of w q \<le> costs ! u"
    using p(2) best unfolding longest_def by (metis order_trans path_cost_Nil zero_le_cost)
  then show "path_cost_of w p \<le> costs ! u + PathCost (w ! v) 1" by (simp add: p(1) add.commute)
qed

definition relaxed :: "graph \<Rightarrow> nat vertex_data \<Rightarrow> vertex_id list \<Rightarrow> path_cost vertex_data \<times> optional_vertex_id vertex_data \<Rightarrow> bool" where
  "relaxed g w ys st \<longleftrightarrow> length (fst st) = size_of g \<and> length (snd st) = size_of g \<and> (\<forall>v\<in>set ys. found g w st v)"

lemma found_update:
  assumes "found g w (costs, pred) v" "v \<noteq> x" "x \<notin> set (succs g v)"
  shows "found g w (costs[x := c], pred[x := k]) v"
proof (cases "into_option (pred ! v)")
  case (Some u)
  then have "u \<noteq> x" using assms by (auto simp: found_def)
  with Some assms show ?thesis by (auto simp: found_def)
qed (use assms in \<open>auto simp: found_def\<close>)

lemma relax_relaxed:
  assumes wf: "wf_graph g" and fits: "fits g" and order: "edges_first g order" "order = ys @ x # zs"
    and w: "length w = size_of g" "sum_list w \<le> u64_max" and st: "relaxed g w ys st"
  shows "\<exists>st'. relax g w x st = Some st' \<and> relaxed g w (ys @ [x]) st'"
proof -
  obtain costs pred where [simp]: "st = (costs, pred)" by (cases st)
  note x = edges_first_split [OF order]
  have lens: "length costs = size_of g" "length pred = size_of g" and known: "\<And>v. v \<in> set ys \<Longrightarrow> found g w (costs, pred) v"
    using st by (auto simp: relaxed_def)
  have es: "set (succs g x) \<subseteq> {..<length costs}" using succs_bound [OF wf] lens by auto
  obtain best where best: "fold_opt (better_edge costs) (succs g x) None = Some best" "best_of costs (succs g x) best"
    using best_edge [OF es] by blast
  have old: "x \<notin> set (succs g v)" if "v \<in> set ys" for v
  proof -
    from that obtain ys1 ys2 where "ys = ys1 @ v # ys2" by (meson split_list)
    then show ?thesis using edges_first_split(1) [OF order(1), of ys1 v "ys2 @ x # zs"] order(2) x(2) by auto
  qed
  have keep: "found g w (costs[x := c], pred[x := k]) v" if "v \<in> set ys" for v c k
    using that x(2) old by (intro found_update known) auto
  have len: "length w = size_of g" "size_of g \<le> u32_max" using w fits by (auto simp: fits_def i32_max_def u32_max_def)
  show ?thesis
  proof (cases best)
    case None
    then have "succs g x = []" using best by (simp add: best_of_def)
    moreover have "found g w (costs[x := PathCost (w ! x) 1], pred[x := optional_none]) x"
      using longest_none [OF x(3) \<open>succs g x = []\<close>] x(3) lens by (simp add: found_def)
    ultimately show ?thesis
      using best x lens keep len None by (auto simp: relax_def iter_edges_succs [OF wf] relaxed_def Let_def)
  next
    case (Some cu)
    obtain u where u: "cu = (costs ! u, u)" "u \<in> set (succs g x)" "\<And>y. y \<in> set (succs g x) \<Longrightarrow> costs ! y \<le> costs ! u"
      using best Some by (auto simp: best_of_def split: prod.splits)
    let ?c = "costs ! u + PathCost (w ! x) 1"
    have "longest w (paths_from g y) (costs ! y)" if "y \<in> set (succs g x)" for y
      using known [of y] that x(1) by (auto simp: found_def)
    then have long: "longest w (paths_from g x) ?c" using u x(3) by (intro longest_some) auto
    then obtain p where "path g p" "path_cost_of w p = ?c" by (auto simp: longest_def paths_from_def)
    then have "runtime ?c \<le> u64_max" "Groups.plus (len (costs ! u)) 1 \<le> u32_max"
      using path_cost_bounds [OF order(1), of p w] w len len_path_cost [of w p] by auto
    then have "add_cost (costs ! u) (PathCost (w ! x) 1) = Some ?c" by (simp add: add_cost_def plus_path_cost_def)
    moreover have "u \<le> i32_max" "u \<noteq> x" using u(2) x(1, 2) succs_bound [OF wf u(2)] fits by (auto simp: fits_def)
    then have "found g w (costs[x := ?c], pred[x := optional_from u]) x" using long u x(3) lens by (simp add: found_def)
    ultimately show ?thesis
      using best x lens keep len Some u by (auto simp: relax_def iter_edges_succs [OF wf] relaxed_def Let_def)
  qed
qed

lemma find_longest_paths_correct:
  assumes wf: "wf_graph g" and fits: "fits g" and order: "edges_first g order"
    and w: "length w = size_of g" "sum_list w \<le> u64_max"
  shows "\<exists>st. find_longest_paths g order w = Some st \<and> relaxed g w order st"
  unfolding find_longest_paths_def
proof (rule fold_opt_invariant [where I = "relaxed g w"])
  fix ys x zs st assume "order = ys @ x # zs" "relaxed g w ys st"
  then show "\<exists>st'. relax g w x st = Some st' \<and> relaxed g w (ys @ [x]) st'" using relax_relaxed [OF wf fits order _ w] by blast
qed (simp add: relaxed_def)


section \<open>The paths found\<close>

text \<open>The part of the path the loop has written, and the vertex it writes next.\<close>

definition traced :: "graph \<Rightarrow> nat vertex_data \<Rightarrow> path_cost vertex_data \<Rightarrow> vertex_id \<Rightarrow> nat \<Rightarrow> vertex_id list \<times> vertex_id \<Rightarrow> bool" where
  "traced g w costs sink i st \<longleftrightarrow>
     (let n = len (costs ! sink) in
      \<exists>p. fst st = replicate (n - i) 0 @ rev p \<and> length p = i
        \<and> (if i = n then path g p \<and> hd p = sink \<and> path_cost_of w p = costs ! sink
           else path g (p @ [snd st]) \<and> hd (p @ [snd st]) = sink \<and> path_cost_of w p + costs ! snd st = costs ! sink))"

lemma update_replicate: "(replicate (Suc m) x @ ys)[m := y] = replicate m x @ y # ys"
  by (induction m) auto

lemma step_back_traced:
  assumes wf: "wf_graph g" and acc: "acc = \<lparr>predecessors = pred, cost_from_source = costs\<rparr>" and found: "\<forall>v<size_of g. found g w (costs, pred) v"
    and len: "length pred = size_of g" and i: "i < len (costs ! sink)" and st: "traced g w costs sink i st"
  shows "\<exists>st'. step_back acc (len (costs ! sink)) i st = Some st' \<and> traced g w costs sink (Suc i) st'"
proof -
  let ?n = "len (costs ! sink)"
  obtain cp idx where [simp]: "st = (cp, idx)" by (cases st)
  obtain p where p: "cp = replicate (?n - i) 0 @ rev p" "length p = i" "path g (p @ [idx])" "hd (p @ [idx]) = sink"
    "path_cost_of w p + costs ! idx = costs ! sink" using st i by (auto simp: traced_def Let_def)
  have idx: "idx < size_of g" using path_bound [OF p(3)] by simp
  then have f: "found g w (costs, pred) idx" using found by blast
  have n: "i + len (costs ! idx) = ?n" using arg_cong [OF p(5), of len] p(2) by simp
  have cp: "set_index cp (?n - 1 - i) idx = Some (replicate (?n - Suc i) 0 @ rev (p @ [idx]))"
  proof -
    obtain m where m: "?n = Suc (i + m)" using less_iff_Suc_add [of i ?n] i by auto
    show ?thesis using update_replicate [of m 0 "rev p" idx] p(2) by (simp add: m p(1) set_index_def)
  qed
  show ?thesis
  proof (cases "into_option (pred ! idx)")
    case None
    then have "costs ! idx = PathCost (w ! idx) 1" using f by (simp add: found_def)
    moreover from this have "?n = Suc i" using n by simp
    ultimately show ?thesis using p cp acc by (auto simp: step_back_def traced_def Let_def intro!: exI [of _ "p @ [idx]"])
  next
    case (Some u)
    then have u: "u \<in> set (succs g idx)" "costs ! idx = costs ! u + PathCost (w ! idx) 1" using f by (auto simp: found_def)
    have "u < size_of g" using succs_bound [OF wf u(1)] .
    then have "longest w (paths_from g u) (costs ! u)" using found by (auto simp: found_def)
    then have "len (costs ! u) > 0" by (rule longest_len_pos)
    then have "Suc i < ?n" using n u(2) by simp
    moreover have "path g (p @ [idx, u])" using p(3) u(1) \<open>u < size_of g\<close> path_append [of "p @ [idx]" "[u]" g] by simp
    moreover have "hd (p @ [idx, u]) = sink" using p(4) by (cases p) auto
    ultimately show ?thesis using p cp acc u Some idx len
      by (auto simp: step_back_def traced_def Let_def ac_simps intro!: exI [of _ "p @ [idx]"])
  qed
qed

lemma critical_path_correct:
  assumes wf: "wf_graph g" and acc: "acc = \<lparr>predecessors = pred, cost_from_source = costs\<rparr>"
    and found: "\<forall>v<size_of g. found g w (costs, pred) v" and len: "length pred = size_of g" and sink: "sink < size_of g"
  shows "\<exists>p. critical_path_for_vertex_and_cost acc sink (costs ! sink) = Some (rev p)
    \<and> p \<in> paths_from g sink \<and> path_cost_of w p = costs ! sink"
proof -
  let ?n = "len (costs ! sink)"
  have "longest w (paths_from g sink) (costs ! sink)" using found sink by (auto simp: found_def)
  then have pos: "?n > 0" by (rule longest_len_pos)
  have "\<exists>st. fold_opt (step_back acc ?n) [0..<?n] (replicate ?n 0, sink) = Some st \<and> traced g w costs sink (length [0..<?n]) st"
  proof (rule fold_opt_invariant [where I = "\<lambda>ys. traced g w costs sink (length ys)"])
    fix ys x zs st assume "[0..<?n] = ys @ x # zs" and st: "traced g w costs sink (length ys) st"
    from upt_split [OF this(1)] step_back_traced [OF wf acc found len _ st]
    show "\<exists>st'. step_back acc ?n x st = Some st' \<and> traced g w costs sink (length (ys @ [x])) st'" by simp
  qed (use pos sink in \<open>simp add: traced_def Let_def\<close>)
  then obtain p where p: "critical_path_for_vertex_and_cost acc sink (costs ! sink) = Some (rev p)" "path g p" "hd p = sink"
    "path_cost_of w p = costs ! sink" by (auto simp: traced_def critical_path_for_vertex_and_cost_def)
  then show ?thesis by (auto simp: paths_from_def)
qed

end
