(* ===== verification/Path_Sweep.thy ===== *)
theory Path_Sweep
  imports Path_Longest "HOL-Library.Product_Lexorder" "HOL-Library.Option_ord"
begin

text \<open>
  The last part of \<^verbatim>\<open>compute_critical_path_potentials\<close> (\<^verbatim>\<open>app/buck2_critical_path/src/potential.rs\<close>): the sorted
  work items and the heap of the longest paths that avoid the critical path. Vertices enter the heap when they become
  valid and leave it when they are on top and no longer are; what is found for an index of the critical path is the
  maximum over the vertices valid there.
\<close>

section \<open>The heap\<close>

text \<open>\<^verbatim>\<open>std::collections::BinaryHeap\<close> of a cost and the index where it ends, compared in this order, \<^const>\<open>None\<close> first.\<close>

type_synonym heap_item = "path_cost \<times> nat option"

definition heap_push :: "heap_item \<Rightarrow> heap_item list \<Rightarrow> heap_item list" where
  "heap_push x heap = x # heap"

definition heap_peek :: "heap_item list \<Rightarrow> heap_item option" where
  "heap_peek heap = (if heap = [] then None else Some (Max (set heap)))"

definition heap_pop :: "heap_item list \<Rightarrow> heap_item list" where
  "heap_pop heap = (if heap = [] then [] else remove1 (Max (set heap)) heap)"

text \<open>What the sweep relies on: the top is a greatest element, and a pop removes nothing else.\<close>

locale max_heap =
  fixes push :: "'a :: linorder \<Rightarrow> 'q \<Rightarrow> 'q" and peek :: "'q \<Rightarrow> 'a option" and pop :: "'q \<Rightarrow> 'q"
    and elems :: "'q \<Rightarrow> 'a set" and count :: "'q \<Rightarrow> nat"
  assumes elems_push: "elems (push x q) = insert x (elems q)"
    and peek_empty: "peek q = None \<longleftrightarrow> elems q = {}"
    and peek_top: "peek q = Some x \<Longrightarrow> x \<in> elems q \<and> (\<forall>y\<in>elems q. y \<le> x)"
    and pop_elems: "peek q = Some x \<Longrightarrow> elems (pop q) \<subseteq> elems q \<and> elems q \<subseteq> insert x (elems (pop q))"
    and pop_count: "peek q = Some x \<Longrightarrow> count (pop q) < count q"
begin

lemma peek_cases:
  obtains "elems q = {}" "peek q = None"
  | x where "peek q = Some x" "x \<in> elems q" "\<forall>y\<in>elems q. y \<le> x" "count (pop q) < count q"
      "elems (pop q) \<subseteq> elems q" "elems q \<subseteq> insert x (elems (pop q))"
  using peek_empty [of q] peek_top [of q] pop_elems [of q] pop_count [of q] by (cases "peek q") auto

lemma peek_push: "peek (push x q) \<noteq> None"
  by (simp add: peek_empty elems_push)

end

interpretation bheap: max_heap heap_push heap_peek heap_pop set length
proof
  fix q :: "heap_item list" and x
  show "set (heap_push x q) = insert x (set q)" "heap_peek q = None \<longleftrightarrow> set q = {}"
    by (auto simp: heap_push_def heap_peek_def)
  assume "heap_peek q = Some x"
  then have q: "q \<noteq> []" "x = Max (set q)" by (auto simp: heap_peek_def split: if_splits)
  then show "x \<in> set q \<and> (\<forall>y\<in>set q. y \<le> x)" by simp
  show "set (heap_pop q) \<subseteq> set q \<and> set q \<subseteq> insert x (set (heap_pop q))"
    using q in_set_remove1 set_remove1_subset by (fastforce simp: heap_pop_def)
  show "length (heap_pop q) < length q" using q by (simp add: heap_pop_def length_remove1)
qed


section \<open>The work items\<close>

datatype work_item = NodeValid vertex_id "nat option" | Compute

fun item_rank :: "work_item \<Rightarrow> nat" where
  "item_rank (NodeValid _ _) = 0"
| "item_rank Compute = 1"

definition sort_work :: "(nat \<times> work_item) list \<Rightarrow> (nat \<times> work_item) list" where
  "sort_work work = sort_key (\<lambda>(idx, item). (idx, item_rank item)) work"

text \<open>The loop of \<^const>\<open>Compute\<close>: what is no longer valid is popped, then the top is compared.\<close>

function settle_index :: "nat \<Rightarrow> heap_item list \<times> path_cost list \<Rightarrow> (heap_item list \<times> path_cost list) option" where
  "settle_index i (heap, updated) =
     (case heap_peek heap of
        None \<Rightarrow> Some (heap, updated)
      | Some (cost, invalid_at) \<Rightarrow>
          if (case invalid_at of Some k \<Rightarrow> k > i | None \<Rightarrow> True)
          then do {
            curr_cost \<leftarrow> index updated i;
            updated' \<leftarrow> (if curr_cost < cost then set_index updated i cost else Some updated);
            Some (heap, updated') }
          else settle_index i (heap_pop heap, updated))"
  by pat_completeness auto

termination
proof (relation "measure (\<lambda>(i, heap, updated). length heap)")
  fix i :: nat and heap :: "heap_item list" and updated :: "path_cost list" and x c k
  assume "heap_peek heap = Some x"
  then have "length (heap_pop heap) < length heap" by (cases heap rule: bheap.peek_cases) auto
  then show "((i, heap_pop heap, updated), i, heap, updated) \<in> measure (\<lambda>(i, heap, updated). length heap)" by simp
qed simp

declare settle_index.simps [simp del]

definition process_item :: "path_cost vertex_data \<Rightarrow> nat \<times> work_item \<Rightarrow> heap_item list \<times> path_cost list
    \<Rightarrow> (heap_item list \<times> path_cost list) option" where
  "process_item vertices_cost w st =
     (let (critical_path_index, item) = w; (heap, updated) = st in
      case item of
        NodeValid idx invalid_at \<Rightarrow> map_option (\<lambda>cost. (heap_push (cost, invalid_at) heap, updated)) (index vertices_cost idx)
      | Compute \<Rightarrow> settle_index critical_path_index (heap, updated))"

definition sweep :: "path_cost vertex_data \<Rightarrow> (nat \<times> work_item) list \<Rightarrow> path_cost list \<Rightarrow> path_cost list option" where
  "sweep vertices_cost work initial = map_option snd (fold_opt (process_item vertices_cost) (sort_work work) ([], initial))"


section \<open>What an index gets\<close>

definition still_valid :: "nat \<Rightarrow> nat option \<Rightarrow> bool" where
  "still_valid i invalid_at \<longleftrightarrow> (case invalid_at of Some k \<Rightarrow> k > i | None \<Rightarrow> True)"

definition is_max :: "path_cost set \<Rightarrow> path_cost \<Rightarrow> bool" where
  "is_max A c \<longleftrightarrow> c \<in> A \<and> (\<forall>d\<in>A. d \<le> c)"

definition settled_at :: "nat \<Rightarrow> heap_item list \<Rightarrow> path_cost list \<Rightarrow> heap_item list \<times> path_cost list \<Rightarrow> bool" where
  "settled_at i heap updated st \<longleftrightarrow> length (snd st) = length updated
    \<and> is_max (insert (updated ! i) {c. \<exists>k. (c, k) \<in> set heap \<and> still_valid i k}) (snd st ! i)
    \<and> (\<forall>j. j \<noteq> i \<longrightarrow> snd st ! j = updated ! j)
    \<and> set (fst st) \<subseteq> set heap \<and> (\<forall>x\<in>set heap - set (fst st). \<not> still_valid i (snd x))"

lemma settled_at_pop:
  assumes "settled_at i heap' updated st" "set heap' \<subseteq> set heap" "set heap \<subseteq> insert x (set heap')" "\<not> still_valid i (snd x)"
  shows "settled_at i heap updated st"
proof -
  have "{c. \<exists>k. (c, k) \<in> set heap \<and> still_valid i k} = {c. \<exists>k. (c, k) \<in> set heap' \<and> still_valid i k}" using assms(2-4) by auto
  moreover have "\<forall>y\<in>set heap - set (fst st). \<not> still_valid i (snd y)" using assms unfolding settled_at_def by blast
  ultimately show ?thesis using assms unfolding settled_at_def by auto
qed

lemma settle_index_correct:
  assumes "i < length updated"
  shows "\<exists>st. settle_index i (heap, updated) = Some st \<and> settled_at i heap updated st"
  using assms
proof (induction "length heap" arbitrary: heap rule: less_induct)
  case less
  show ?case
  proof (cases heap rule: bheap.peek_cases)
    case 1
    then show ?thesis by (simp add: is_max_def settle_index.simps settled_at_def)
  next
    case (2 x)
    obtain c k where x: "x = (c, k)" by (cases x)
    have top: "d \<le> c" if "(d, k') \<in> set heap" for d k' using 2(3) that by (force simp: x less_eq_prod_def)
    show ?thesis
    proof (cases "still_valid i k")
      case True
      let ?u = "if updated ! i < c then updated[i := c] else updated"
      have "settle_index i (heap, updated) = Some (heap, ?u)"
        using True 2(1) less.prems unfolding still_valid_def x by (simp add: settle_index.simps)
      moreover have "is_max (insert (updated ! i) {c. \<exists>k. (c, k) \<in> set heap \<and> still_valid i k}) (?u ! i)"
        using True 2(2) top less.prems unfolding x is_max_def by (auto simp: not_less intro: order_trans)
      ultimately show ?thesis by (auto simp: settled_at_def)
    next
      case False
      have "settle_index i (heap, updated) = settle_index i (heap_pop heap, updated)"
        using False 2(1) unfolding still_valid_def x by (simp add: settle_index.simps [of _ heap])
      with less.hyps [OF 2(4) less.prems] settled_at_pop [OF _ 2(5, 6)] False show ?thesis by (auto simp: x)
    qed
  qed
qed


section \<open>The sweep\<close>

definition candidates :: "path_cost vertex_data \<Rightarrow> (nat \<times> work_item) set \<Rightarrow> nat \<Rightarrow> path_cost set" where
  "candidates vc W i = {vc ! v | a v k. (a, NodeValid v k) \<in> W \<and> a \<le> i \<and> still_valid i k}"

definition swept :: "path_cost vertex_data \<Rightarrow> (nat \<times> work_item) set \<Rightarrow> path_cost list \<Rightarrow> (nat \<times> work_item) list
    \<Rightarrow> heap_item list \<times> path_cost list \<Rightarrow> bool" where
  "swept vc W initial ys st \<longleftrightarrow> length (snd st) = length initial
     \<and> (\<forall>(c, k)\<in>set (fst st). \<exists>a v. (a, NodeValid v k) \<in> set ys \<and> c = vc ! v)
     \<and> (\<forall>a v k. (a, NodeValid v k) \<in> set ys \<longrightarrow> (vc ! v, k) \<in> set (fst st) \<or> (\<exists>i. (i, Compute) \<in> set ys \<and> \<not> still_valid i k))
     \<and> (\<forall>i<length initial. if (i, Compute) \<in> set ys then is_max (insert (initial ! i) (candidates vc W i)) (snd st ! i)
          else snd st ! i = initial ! i)"

lemma still_valid_mono: "still_valid j k \<Longrightarrow> i \<le> j \<Longrightarrow> still_valid i k"
  by (auto simp: still_valid_def split: option.splits)

lemma swept_push:
  assumes "swept vc W initial ys (heap, updated)"
  shows "swept vc W initial (ys @ [(a, NodeValid v k)]) (heap_push (vc ! v, k) heap, updated)"
  using assms unfolding swept_def heap_push_def by (auto 0 4)

text \<open>When an index is computed, the sorted prefix holds the vertices that became valid before it and no others.\<close>

lemma candidates_heap:
  assumes st: "swept vc W initial ys (heap, updated)"
    and nodes: "\<And>a v k. (a, NodeValid v k) \<in> W \<and> a \<le> i \<longleftrightarrow> (a, NodeValid v k) \<in> set ys"
    and earlier: "\<And>j. (j, Compute) \<in> set ys \<Longrightarrow> j \<le> i"
  shows "{c. \<exists>k. (c, k) \<in> set heap \<and> still_valid i k} = candidates vc W i"
proof (intro subset_antisym subsetI; clarify)
  fix c k assume "(c, k) \<in> set heap" and k: "still_valid i k"
  then obtain a v where "(a, NodeValid v k) \<in> set ys" "c = vc ! v" using st unfolding swept_def by fastforce
  then show "c \<in> candidates vc W i" using k nodes unfolding candidates_def by blast
next
  fix c assume "c \<in> candidates vc W i"
  then obtain a v k where v: "c = vc ! v" "(a, NodeValid v k) \<in> set ys" "still_valid i k" using nodes unfolding candidates_def by blast
  then have "(vc ! v, k) \<in> set heap \<or> (\<exists>j. (j, Compute) \<in> set ys \<and> \<not> still_valid j k)" using st unfolding swept_def by simp
  then have "(vc ! v, k) \<in> set heap" using still_valid_mono [OF v(3)] earlier by blast
  then show "\<exists>k. (c, k) \<in> set heap \<and> still_valid i k" using v by blast
qed

lemma swept_compute:
  assumes st: "swept vc W initial ys (heap, updated)" and i: "i < length initial" "(i, Compute) \<notin> set ys"
    and nodes: "\<And>a v k. (a, NodeValid v k) \<in> W \<and> a \<le> i \<longleftrightarrow> (a, NodeValid v k) \<in> set ys"
    and earlier: "\<And>j. (j, Compute) \<in> set ys \<Longrightarrow> j \<le> i"
  shows "\<exists>st'. settle_index i (heap, updated) = Some st' \<and> swept vc W initial (ys @ [(i, Compute)]) st'"
proof -
  have u: "i < length updated" "updated ! i = initial ! i" using st i by (auto simp: swept_def)
  obtain st' where st': "settle_index i (heap, updated) = Some st'" "settled_at i heap updated st'"
    using settle_index_correct [OF u(1), of heap] by blast
  obtain heap' updated' where [simp]: "st' = (heap', updated')" by (cases st')
  have res: "length updated' = length updated" "is_max (insert (initial ! i) (candidates vc W i)) (updated' ! i)"
    "\<And>j. j \<noteq> i \<Longrightarrow> updated' ! j = updated ! j" "set heap' \<subseteq> set heap" "\<And>x. x \<in> set heap - set heap' \<Longrightarrow> \<not> still_valid i (snd x)"
    using st'(2) candidates_heap [OF st nodes earlier] u(2) unfolding settled_at_def by auto
  have "(vc ! v, k) \<in> set heap' \<or> (\<exists>j. (j, Compute) \<in> set (ys @ [(i, Compute)]) \<and> \<not> still_valid j k)" if "(a, NodeValid v k) \<in> set ys" for a v k
  proof -
    have "(vc ! v, k) \<in> set heap \<or> (\<exists>j. (j, Compute) \<in> set ys \<and> \<not> still_valid j k)" using st that unfolding swept_def by simp
    then show ?thesis using res(5) [of "(vc ! v, k)"] by auto
  qed
  moreover have "\<forall>(c, k)\<in>set heap'. \<exists>a v. (a, NodeValid v k) \<in> set ys \<and> c = vc ! v" using st res(4) unfolding swept_def by auto
  moreover have "if (j, Compute) \<in> set (ys @ [(i, Compute)]) then is_max (insert (initial ! j) (candidates vc W j)) (updated' ! j)
      else updated' ! j = initial ! j" if "j < length initial" for j
    using st that res(2, 3) unfolding swept_def by (cases "j = i") auto
  ultimately have "swept vc W initial (ys @ [(i, Compute)]) (heap', updated')"
    using st res(1) unfolding swept_def by simp
  then show ?thesis using st'(1) by simp
qed

lemma sorted_split:
  assumes "sorted (map f (ys @ x # zs))"
  shows "\<And>y. y \<in> set ys \<Longrightarrow> f y \<le> f x" "\<And>z. z \<in> set zs \<Longrightarrow> f x \<le> f z"
  using assms by (auto simp: sorted_append)

lemma sweep_correct:
  assumes dist: "distinct work" and nodes: "\<And>a v k. (a, NodeValid v k) \<in> set work \<Longrightarrow> v < length vc"
    and computes: "\<And>i. (i, Compute) \<in> set work \<longleftrightarrow> i < length initial"
  shows "\<exists>updated. sweep vc work initial = Some updated \<and> length updated = length initial
    \<and> (\<forall>i<length initial. is_max (insert (initial ! i) (candidates vc (set work) i)) (updated ! i))"
proof -
  let ?key = "\<lambda>(idx, item). (idx, item_rank item)" and ?sorted = "sort_work work"
  have sorted: "sorted (map ?key ?sorted)" "set ?sorted = set work" "distinct ?sorted"
    using dist by (simp_all add: sort_work_def)
  have "\<exists>st. fold_opt (process_item vc) ?sorted ([], initial) = Some st \<and> swept vc (set work) initial ?sorted st"
  proof (rule fold_opt_invariant [where I = "swept vc (set work) initial"])
    fix ys x zs st assume xs: "?sorted = ys @ x # zs" and st: "swept vc (set work) initial ys st"
    obtain a item heap updated where [simp]: "x = (a, item)" "st = (heap, updated)" by (cases x, cases st)
    note split = sorted_split [of ?key ys x zs, OF sorted(1) [unfolded xs]]
    have W: "set work = set ys \<union> insert x (set zs)" using sorted(2) by (auto simp: xs)
    show "\<exists>st'. process_item vc x st = Some st' \<and> swept vc (set work) initial (ys @ [x]) st'"
    proof (cases item)
      case (NodeValid v k)
      then have "v < length vc" using nodes W by auto
      then show ?thesis using swept_push [of vc "set work" initial ys heap updated] st NodeValid by (simp add: process_item_def)
    next
      case Compute
      have in_ys: "(b, NodeValid v k) \<in> set work \<and> b \<le> a \<longleftrightarrow> (b, NodeValid v k) \<in> set ys" for b v k
        using split(1) [of "(b, NodeValid v k)"] split(2) [of "(b, NodeValid v k)"] Compute W by (auto simp: less_eq_prod_def)
      have "j \<le> a" if "(j, Compute) \<in> set ys" for j using split(1) [OF that] Compute by (auto simp: less_eq_prod_def)
      moreover have "a < length initial" "(a, Compute) \<notin> set ys" using computes W Compute sorted(3) by (auto simp: xs)
      ultimately show ?thesis using swept_compute [OF _ _ _ in_ys] st Compute by (simp add: process_item_def)
    qed
  qed (simp add: swept_def)
  then obtain st where st: "fold_opt (process_item vc) ?sorted ([], initial) = Some st" "swept vc (set work) initial ?sorted st" by blast
  then show ?thesis using computes by (auto simp: sweep_def swept_def sorted(2))
qed

end
