(* ===== verification/Path_Potential.thy ===== *)
theory Path_Potential
  imports Path_Reverse Path_Visit Path_Sweep
begin

text \<open>
  \<^verbatim>\<open>compute_critical_path_potentials\<close> of \<^verbatim>\<open>app/buck2_critical_path/src/potential.rs\<close>: the critical path of a graph and,
  for each of its vertices, the cost of the critical path if that vertex took no time. The threads of the function
  write to variables of their own and are joined before these are read; the model runs them one after the other.
\<close>

section \<open>The computation\<close>

definition vertex_iter :: "'a vertex_data \<Rightarrow> (vertex_id \<times> 'a) list option" where
  "vertex_iter xs = map_option (map (\<lambda>k. (k, xs ! k))) (keys_of xs)"

text \<open>\<^verbatim>\<open>max_by_key\<close> returns the last of several maximal elements.\<close>

definition max_by_cost :: "(vertex_id \<times> path_cost) list \<Rightarrow> (vertex_id \<times> path_cost) option" where
  "max_by_cost xs = foldl (\<lambda>best x. case best of None \<Rightarrow> Some x | Some b \<Rightarrow> if snd b \<le> snd x then Some x else Some b) None xs"

definition through_cost :: "path_cost \<Rightarrow> path_cost \<Rightarrow> nat \<Rightarrow> path_cost option" where
  "through_cost from_source to_sink weight = do {
     cost \<leftarrow> add_cost from_source to_sink;
     (if weight \<le> runtime cost \<and> 1 \<le> len cost then Some (PathCost (runtime cost - weight) (len cost - 1)) else None) }"

definition compute_vertices_cost :: "graph \<Rightarrow> nat vertex_data \<Rightarrow> path_cost vertex_data \<Rightarrow> path_cost vertex_data
    \<Rightarrow> path_cost vertex_data option" where
  "compute_vertices_cost deps weights from_source to_sink = do {
     idxs \<leftarrow> iter_vertices deps;
     fold_opt (\<lambda>idx vertices_cost. do {
         f \<leftarrow> index from_source idx;
         t \<leftarrow> index to_sink idx;
         w \<leftarrow> index weights idx;
         cost \<leftarrow> through_cost f t w;
         set_index vertices_cost idx cost })
       idxs (allocate_vertex_data deps default_cost) }"

definition work_items :: "graph \<Rightarrow> vertex_id list \<Rightarrow> optional_vertex_id vertex_data \<Rightarrow> optional_vertex_id vertex_data
    \<Rightarrow> (nat \<times> work_item) list option" where
  "work_items deps critical_path last_cp_predecessor first_cp_successor = do {
     cp_idxs \<leftarrow> keys_of critical_path;
     idxs \<leftarrow> iter_vertices deps;
     fold_opt (\<lambda>idx work. do {
         pred \<leftarrow> index last_cp_predecessor idx;
         succ \<leftarrow> index first_cp_successor idx;
         valid_at \<leftarrow> (case into_option pred of
             Some pred \<Rightarrow> if pred + 1 \<le> u32_max then Some (pred + 1) else None
           | None \<Rightarrow> Some 0);
         Some (work @ [(valid_at, NodeValid idx (into_option succ))]) })
       idxs (map (\<lambda>cp_idx. (cp_idx, Compute)) cp_idxs) }"

definition initial_costs :: "nat vertex_data \<Rightarrow> vertex_id list \<Rightarrow> path_cost \<Rightarrow> path_cost list option" where
  "initial_costs weights critical_path critical_path_cost = do {
     items \<leftarrow> vertex_iter critical_path;
     fold_opt (\<lambda>(idx, vertex) updated. do {
         w \<leftarrow> index weights vertex;
         (if w \<le> runtime critical_path_cost
          then set_index updated idx (PathCost (runtime critical_path_cost - w) (len critical_path_cost)) else None) })
       items (replicate (length critical_path) default_cost) }"

definition updated_costs :: "graph \<Rightarrow> graph \<Rightarrow> nat vertex_data \<Rightarrow> path_cost vertex_data \<Rightarrow> path_cost vertex_data
    \<Rightarrow> vertex_id list \<Rightarrow> path_cost \<Rightarrow> path_cost list option" where
  "updated_costs deps rdeps weights from_source to_sink critical_path critical_path_cost = do {
     items \<leftarrow> vertex_iter critical_path;
     last_cp_predecessor \<leftarrow> visit_all rdeps (rev items);
     first_cp_successor \<leftarrow> visit_all deps items;
     vertices_cost \<leftarrow> compute_vertices_cost deps weights from_source to_sink;
     work \<leftarrow> work_items deps critical_path last_cp_predecessor first_cp_successor;
     initial \<leftarrow> initial_costs weights critical_path critical_path_cost;
     sweep vertices_cost work initial }"

definition compute_critical_path_potentials :: "graph \<Rightarrow> nat vertex_data
    \<Rightarrow> (topo_sort_error + vertex_id list \<times> path_cost \<times> path_cost list \<times> critical_path_accessor) option" where
  "compute_critical_path_potentials deps weights = do {
     rdeps \<leftarrow> reversed deps;
     topo \<leftarrow> topo_sort deps;
     (case topo of
        Inl e \<Rightarrow> Some (Inl e)
      | Inr topo_order \<Rightarrow> do {
          (to_sink, _) \<leftarrow> find_longest_paths rdeps topo_order weights;
          (from_source, pred) \<leftarrow> find_longest_paths deps (rev topo_order) weights;
          let acc = \<lparr>predecessors = pred, cost_from_source = from_source\<rparr>;
          ends \<leftarrow> vertex_iter from_source;
          (case max_by_cost ends of
             None \<Rightarrow> Some (Inr ([], default_cost, [], acc))
           | Some (sink, cost) \<Rightarrow> do {
               critical_path \<leftarrow> critical_path_for_vertex_and_cost acc sink cost;
               updated \<leftarrow> updated_costs deps rdeps weights from_source to_sink critical_path cost;
               Some (Inr (critical_path, cost, updated, acc)) }) }) }"


section \<open>The reversed graph\<close>

text \<open>What is used of \<^term>\<open>reversed\<close>: the edges are turned around.\<close>

definition reverse_of :: "graph \<Rightarrow> graph \<Rightarrow> bool" where
  "reverse_of g r \<longleftrightarrow> wf_graph r \<and> fits r \<and> size_of r = size_of g \<and> (\<forall>v<size_of g. set (succs r v) = {u. u < size_of g \<and> v \<in> set (succs g u)})"

lemma reversed_reverse_of:
  assumes "wf_graph g" "fits g"
  shows "\<exists>r. reversed g = Some r \<and> reverse_of g r"
  using reversed_correct [OF assms] by (auto simp: reverse_of_def set_sources)

lemma path_reverse:
  assumes r: "reverse_of g r" and wf: "wf_graph g"
  shows "path r p \<longleftrightarrow> path g (rev p)"
proof (induction p)
  case (Cons v p)
  have size: "size_of r = size_of g" using r by (simp add: reverse_of_def)
  have edge: "u \<in> set (succs r v) \<longleftrightarrow> u < size_of g \<and> v \<in> set (succs g u)" if "v < size_of g" for u
    using r that by (simp add: reverse_of_def)
  show ?case
  proof (cases "p = []")
    case False
    have "path g (rev p @ [v]) \<longleftrightarrow> path g (rev p) \<and> v < size_of g \<and> v \<in> set (succs g (hd p))"
      using False by (simp add: path_append last_rev)
    moreover have "path g (rev p) \<Longrightarrow> hd p < size_of g" using False path_bound [of g "rev p" "hd p"] by simp
    ultimately show ?thesis using Cons False edge by (auto simp: path_Cons size)
  qed (simp add: size)
qed simp

lemma reaches_reverse:
  assumes "reverse_of g r" "wf_graph g"
  shows "reaches r u v \<longleftrightarrow> reaches g v u"
proof
  assume "reaches r u v"
  then obtain p where p: "path r p" "hd p = u" "last p = v" by (auto simp: reaches_def)
  then show "reaches g v u" unfolding reaches_def using path_reverse [OF assms] path_not_Nil [OF p(1)]
    by (intro exI [of _ "rev p"]) (auto simp: hd_rev last_rev)
next
  assume "reaches g v u"
  then obtain p where p: "path g p" "hd p = v" "last p = u" by (auto simp: reaches_def)
  then show "reaches r u v" unfolding reaches_def using path_reverse [OF assms, of "rev p"] path_not_Nil [OF p(1)]
    by (intro exI [of _ "rev p"]) (auto simp: hd_rev last_rev)
qed

lemma edges_first_reverse:
  assumes r: "reverse_of g r" and vs: "is_topo_order g vs"
  shows "edges_first r vs"
proof -
  have size: "size_of r = size_of g" using r by (simp add: reverse_of_def)
  have "topological r (rev us)" if "vs = us @ ws" for us ws
    using that
  proof (induction us arbitrary: ws rule: rev_induct)
    case (snoc x us)
    have order: "topological g vs" and all: "set vs = {..<size_of g}" using vs by (auto simp: is_topo_order_def)
    have x: "x < size_of g" using all snoc.prems by auto
    have "distinct vs" using topological_distinct [OF order] .
    have "u \<in> set us" if "u < size_of g" "x \<in> set (succs g u)" for u
    proof -
      have "u \<in> set us \<union> {x} \<union> set ws" using that all snoc.prems by auto
      moreover have "u \<noteq> x" using order that snoc.prems topological_append [of g us "x # ws"] by auto
      moreover have "u \<notin> set ws"
      proof
        assume "u \<in> set ws"
        then obtain w1 w2 where ws: "ws = w1 @ u # w2" by (meson split_list)
        then have "x \<in> set w2" using order that snoc.prems topological_append [of g "us @ x # w1" "u # w2"] by auto
        then show False using \<open>distinct vs\<close> snoc.prems by (auto simp: ws)
      qed
      ultimately show ?thesis by simp
    qed
    then show ?case using snoc.IH [of "x # ws"] snoc.prems r x \<open>distinct vs\<close> by (auto simp: reverse_of_def)
  qed simp
  from this [of vs "[]"] show ?thesis using vs by (simp add: edges_first_def is_topo_order_def size)
qed


section \<open>The loops\<close>

lemma vertex_iter_eq: "length xs \<le> u32_max \<Longrightarrow> vertex_iter xs = Some (map (\<lambda>k. (k, xs ! k)) [0..<length xs])"
  by (simp add: vertex_iter_def keys_of_def)

lemma max_by_cost_Nil: "max_by_cost [] = None"
  by (simp add: max_by_cost_def)

lemma max_by_cost_correct:
  assumes "xs \<noteq> []"
  shows "\<exists>v c. max_by_cost xs = Some (v, c) \<and> (v, c) \<in> set xs \<and> (\<forall>(u, d)\<in>set xs. d \<le> c)"
  using assms
proof (induction xs rule: rev_nonempty_induct)
  case (single x) then show ?case by (cases x) (simp add: max_by_cost_def)
next
  case (snoc x xs)
  then obtain v c where vc: "max_by_cost xs = Some (v, c)" "(v, c) \<in> set xs" "\<forall>(u, d)\<in>set xs. d \<le> c" by blast
  obtain y d where [simp]: "x = (y, d)" by (cases x)
  have eq: "max_by_cost (xs @ [x]) = (if c \<le> d then Some (y, d) else Some (v, c))" using vc(1) by (simp add: max_by_cost_def)
  show ?case
  proof (cases "c \<le> d")
    case True
    then show ?thesis using eq vc(3) by (intro exI [of _ y] exI [of _ d]) (auto intro: order_trans)
  next
    case False
    then show ?thesis using eq vc by (intro exI [of _ v] exI [of _ c]) auto
  qed
qed

text \<open>A loop that fills a list index by index.\<close>

lemma fold_opt_fill:
  assumes "length xs = n" and step: "\<And>i ys. i < n \<Longrightarrow> length ys = n \<Longrightarrow> f i ys = Some (ys[i := h i])"
  shows "fold_opt f [0..<n] xs = Some (map h [0..<n])"
proof -
  let ?I = "\<lambda>is ys. length ys = n \<and> (\<forall>i<length is. ys ! i = h i)"
  have "\<exists>ys. fold_opt f [0..<n] xs = Some ys \<and> ?I [0..<n] ys"
  proof (rule fold_opt_invariant [where I = ?I])
    fix js i zs ys assume xs: "[0..<n] = js @ i # zs" and I: "?I js ys"
    show "\<exists>ys'. f i ys = Some ys' \<and> ?I (js @ [i]) ys'"
      using step [of i ys] upt_split [OF xs] I by (auto simp: nth_list_update less_Suc_eq)
  qed (simp add: assms(1))
  then show ?thesis by (auto intro!: nth_equalityI)
qed

lemma fold_opt_collect:
  assumes "\<And>i ys. i \<in> set is \<Longrightarrow> f i ys = Some (ys @ [h i])"
  shows "fold_opt f is xs = Some (xs @ map h is)"
  using assms by (induction "is" arbitrary: xs) simp_all

lemma compute_vertices_cost_eq:
  assumes fits: "fits g" and lens: "length weights = size_of g" "length f = size_of g" "length t = size_of g"
    and c: "\<And>v. v < size_of g \<Longrightarrow> through_cost (f ! v) (t ! v) (weights ! v) = Some (c v)"
  shows "compute_vertices_cost g weights f t = Some (map c [0..<size_of g])"
  unfolding compute_vertices_cost_def fits_vertices [OF fits] bind.bind_lunit
  by (rule fold_opt_fill) (simp_all add: lens c)

definition valid_from :: "nat option \<Rightarrow> nat" where
  "valid_from pred = (case pred of Some k \<Rightarrow> k + 1 | None \<Rightarrow> 0)"

lemma work_items_eq:
  assumes fits: "fits g" and cp: "length cp \<le> u32_max" and lens: "length ps = size_of g" "length ss = size_of g"
    and small: "\<And>v k. v < size_of g \<Longrightarrow> into_option (ps ! v) = Some k \<Longrightarrow> k < length cp"
  shows "work_items g cp ps ss = Some (map (\<lambda>i. (i, Compute)) [0..<length cp]
    @ map (\<lambda>v. (valid_from (into_option (ps ! v)), NodeValid v (into_option (ss ! v)))) [0..<size_of g])"
proof -
  have cp': "keys_of cp = Some [0..<length cp]" using cp by (simp add: keys_of_def)
  show ?thesis
    unfolding work_items_def fits_vertices [OF fits] cp' bind.bind_lunit
  proof (rule fold_opt_collect, goal_cases)
    case (1 v work)
    then have "v < size_of g" by simp
    then show ?case using small [of v] lens cp by (auto simp: valid_from_def split: option.splits)
  qed
qed

lemma initial_costs_eq:
  assumes "length cp \<le> u32_max" "\<And>v. v \<in> set cp \<Longrightarrow> v < length weights \<and> weights ! v \<le> runtime cost"
  shows "initial_costs weights cp cost = Some (map (\<lambda>v. PathCost (runtime cost - weights ! v) (len cost)) cp)"
proof -
  let ?f = "\<lambda>(idx, vertex) updated. do {
         w \<leftarrow> index weights vertex;
         (if w \<le> runtime cost then set_index updated idx (PathCost (runtime cost - w) (len cost)) else None) }"
  have "fold_opt (\<lambda>i. ?f (i, cp ! i)) [0..<length cp] (replicate (length cp) default_cost)
      = Some (map (\<lambda>i. PathCost (runtime cost - weights ! (cp ! i)) (len cost)) [0..<length cp])"
    by (rule fold_opt_fill) (use assms(2) in \<open>simp_all\<close>)
  moreover have "map (\<lambda>i. PathCost (runtime cost - weights ! (cp ! i)) (len cost)) [0..<length cp]
      = map (\<lambda>v. PathCost (runtime cost - weights ! v) (len cost)) cp" by (auto intro: nth_equalityI)
  ultimately show ?thesis using assms(1) by (simp add: initial_costs_def vertex_iter_eq fold_opt_map)
qed


section \<open>The longest path through a vertex\<close>

definition paths_to :: "graph \<Rightarrow> vertex_id \<Rightarrow> vertex_id list set" where
  "paths_to g v = {p. path g p \<and> last p = v}"

definition paths_through :: "graph \<Rightarrow> vertex_id \<Rightarrow> vertex_id list set" where
  "paths_through g v = {p. path g p \<and> v \<in> set p}"

lemma longest_to:
  assumes r: "reverse_of g r" and wf: "wf_graph g" and "longest w (paths_from r v) c"
  shows "longest w (paths_to g v) c"
proof -
  have "paths_to g v = rev ` paths_from r v"
  proof (intro subset_antisym subsetI)
    fix p assume "p \<in> paths_to g v"
    then show "p \<in> rev ` paths_from r v" using path_reverse [OF r wf, of "rev p"] path_not_Nil [of g p]
      by (intro image_eqI [of _ _ "rev p"]) (auto simp: paths_to_def paths_from_def hd_rev)
  qed (use path_reverse [OF r wf] path_not_Nil in \<open>auto simp: paths_to_def paths_from_def last_rev\<close>)
  then show ?thesis using assms(3) by (simp add: longest_def)
qed

lemma path_join:
  assumes "path g (p @ [v])" "path g (v # q)"
  shows "path g (p @ v # q)"
  using assms by (cases "p = []") (auto simp: path_append)

lemma path_split:
  assumes "path g (p @ v # q)"
  shows "path g (p @ [v])" "path g (v # q)"
proof -
  show q: "path g (v # q)" using assms by (cases "p = []") (auto simp: path_append)
  have "path g (p @ [v]) \<longleftrightarrow> p = [] \<or> path g p \<and> v \<in> set (succs g (last p))" using path_bound [OF q] by (cases "p = []") (auto simp: path_append)
  then show "path g (p @ [v])" using assms by (cases "p = []") (auto simp: path_append)
qed

lemma longest_through:
  assumes f: "longest w (paths_from g v) f" and t: "longest w (paths_to g v) t" and c: "c + PathCost (w ! v) 1 = f + t"
  shows "longest w (paths_through g v) c"
  unfolding longest_def
proof (intro conjI ballI)
  obtain p where p: "path g p" "hd p = v" "path_cost_of w p = f" using f by (auto simp: longest_def paths_from_def)
  obtain q where q: "path g q" "last q = v" "path_cost_of w q = t" using t by (auto simp: longest_def paths_to_def)
  obtain p' where p': "p = v # p'" using p(2) path_not_Nil [OF p(1)] by (cases p) auto
  obtain q' where q': "q = q' @ [v]" using q(2) path_not_Nil [OF q(1)] by (cases q rule: rev_cases) auto
  have "path_cost_of w (q' @ v # p') + PathCost (w ! v) 1 = c + PathCost (w ! v) 1"
    using p(3) q(3) unfolding c by (simp add: p' q' ac_simps flip: p(3) q(3))
  moreover have "q' @ v # p' \<in> paths_through g v" using path_join p(1) q(1) by (simp add: paths_through_def p' q')
  ultimately show "\<exists>p\<in>paths_through g v. path_cost_of w p = c" by (metis add_right_cancel)
next
  fix p assume "p \<in> paths_through g v"
  then obtain x y where p: "p = x @ v # y" "path g p" by (auto simp: paths_through_def dest!: split_list)
  have "path_cost_of w (x @ [v]) \<le> t" "path_cost_of w (v # y) \<le> f"
    using path_split [of g x v y] p f t by (auto simp: longest_def paths_from_def paths_to_def simp del: path_cost_append path_cost_Cons)
  then have "path_cost_of w (v # y) + path_cost_of w (x @ [v]) \<le> f + t" by (rule add_mono [rotated])
  then have "path_cost_of w p + PathCost (w ! v) 1 \<le> c + PathCost (w ! v) 1" unfolding c by (simp add: p(1) ac_simps)
  then show "path_cost_of w p \<le> c" by simp
qed


section \<open>Where a vertex is valid\<close>

text \<open>A vertex is valid at the indices of the critical path it neither reaches nor is reached from.\<close>

lemma critical_path_reaches:
  assumes cp: "path g (rev cp)" and ij: "i \<le> j" "j < length cp"
  shows "reaches g (cp ! j) (cp ! i)"
proof (cases "i = j")
  case True
  then show ?thesis using path_bound [OF cp, of "cp ! j"] ij reaches_refl by simp
next
  case False
  then have "take j cp = take i cp @ cp ! i # drop (Suc i) (take j cp)"
    using ij id_take_nth_drop [of i "take j cp"] by simp
  then obtain x y where "take j cp = x @ cp ! i # y" by blast
  then have "cp = (x @ cp ! i # y) @ cp ! j # drop (Suc j) cp" using id_take_nth_drop [OF ij(2)] by simp
  then obtain z where "cp = (x @ cp ! i # y) @ cp ! j # z" by blast
  then have "rev cp = rev ((x @ cp ! i # y) @ cp ! j # z)" by (rule arg_cong)
  then show ?thesis using cp reaches_path [of g "rev z" "cp ! j" "rev y" "cp ! i" "rev x"] by simp
qed

lemma still_valid_find:
  assumes mono: "\<And>k. k \<le> i \<Longrightarrow> P (cp ! k) \<Longrightarrow> P (cp ! i)" and i: "i < length cp"
  shows "still_valid i (map_option fst (find (\<lambda>(k, u). P u) (map (\<lambda>k. (k, cp ! k)) [0..<length cp]))) \<longleftrightarrow> \<not> P (cp ! i)"
proof (cases "find (\<lambda>(k, u). P u) (map (\<lambda>k. (k, cp ! k)) [0..<length cp])")
  case None
  then have "\<not> P (cp ! i)" using i by (auto simp: find_None_iff)
  then show ?thesis using None by (simp add: still_valid_def)
next
  case (Some ku)
  then obtain k where "ku = (k, cp ! k)" "k < length cp" "P (cp ! k)" "\<And>j. j < k \<Longrightarrow> \<not> P (cp ! j)" by (auto simp: find_Some_iff)
  then show ?thesis using Some mono [of k] by (cases "i < k") (auto simp: still_valid_def)
qed

lemma valid_find:
  assumes mono: "\<And>k. i \<le> k \<Longrightarrow> k < length cp \<Longrightarrow> P (cp ! k) \<Longrightarrow> P (cp ! i)" and i: "i < length cp"
  shows "valid_from (map_option fst (find (\<lambda>(k, u). P u) (rev (map (\<lambda>k. (k, cp ! k)) [0..<length cp])))) \<le> i \<longleftrightarrow> \<not> P (cp ! i)"
proof (cases "find (\<lambda>(k, u). P u) (rev (map (\<lambda>k. (k, cp ! k)) [0..<length cp]))")
  case None
  then have "\<not> P (cp ! i)" using i by (auto simp: find_None_iff)
  then show ?thesis using None by (simp add: valid_from_def)
next
  case (Some ku)
  then obtain j where j: "j < length cp" "ku = (length cp - 1 - j, cp ! (length cp - 1 - j))" "P (cp ! (length cp - 1 - j))"
    "\<And>j'. j' < j \<Longrightarrow> \<not> P (cp ! (length cp - 1 - j'))" by (auto simp: find_Some_iff rev_nth)
  let ?k = "length cp - 1 - j"
  have "\<not> P (cp ! i)" if "?k < i"
  proof -
    have "length cp - 1 - i < j" "length cp - 1 - (length cp - 1 - i) = i" using that i j(1) by auto
    then show ?thesis using j(4) [of "length cp - 1 - i"] by simp
  qed
  moreover have "P (cp ! i)" if "\<not> ?k < i" using mono [of ?k] that j(1, 3) by simp
  ultimately show ?thesis using Some j(2) by (cases "?k < i") (auto simp: valid_from_def)
qed


section \<open>Taking no time\<close>

lemma path_cost_zeroed_other: "c \<notin> set p \<Longrightarrow> path_cost_of (w[c := 0]) p = path_cost_of w p"
  by (induction p) auto

lemma path_cost_zeroed:
  assumes "distinct p" "c \<in> set p" "c < length w"
  shows "path_cost_of (w[c := 0]) p + PathCost (w ! c) 0 = path_cost_of w p"
proof -
  obtain x y where p: "p = x @ c # y" using assms(2) by (meson split_list)
  have "path_cost_of (w[c := 0]) p = path_cost_of w x + (PathCost 0 1 + path_cost_of w y)"
    using assms(1, 3) by (simp add: p path_cost_zeroed_other)
  then show ?thesis by (simp add: p plus_path_cost_def ac_simps)
qed

lemma sum_list_zeroed: "sum_list (w[c := 0]) \<le> sum_list (w :: nat list)"
  by (cases "c < length w") (simp_all add: sum_list_update list_update_beyond not_less)

lemma extend_right:
  assumes "p = [] \<or> path g p \<and> reaches g (last p) c" "c \<notin> set p" "c < size_of g"
  shows "\<exists>m. path g (p @ m @ [c])"
proof (cases p rule: rev_cases)
  case Nil
  then show ?thesis using assms(3) by (intro exI [of _ "[]"]) simp
next
  case (snoc p' v)
  then obtain s where s: "path g s" "hd s = v" "last s = c" using assms(1) by (auto simp: reaches_def)
  then obtain s' where "s = v # s'" using path_not_Nil by (cases s) auto
  moreover from this obtain m where "s' = m @ [c]" using s assms(2) snoc by (cases s' rule: rev_cases) auto
  ultimately show ?thesis using path_join [of g p' v] assms(1) s(1) snoc by auto
qed

lemma extend_left:
  assumes "p = [] \<or> path g p \<and> reaches g c (hd p)" "c \<notin> set p" "c < size_of g"
  shows "\<exists>m. path g (c # m @ p)"
proof (cases p)
  case Nil
  then show ?thesis using assms(3) by (intro exI [of _ "[]"]) simp
next
  case (Cons v p')
  then obtain s where s: "path g s" "hd s = c" "last s = v" using assms(1) by (auto simp: reaches_def)
  then obtain s' where "s = s' @ [v]" using path_not_Nil by (cases s rule: rev_cases) auto
  moreover from this obtain m where "s' = c # m" using s assms(2) Cons by (cases s') auto
  ultimately show ?thesis using path_join [of g s' v p'] assms(1) s(1) Cons by auto
qed

text \<open>A path that avoids a vertex passes a vertex not comparable with it or has a detour through it.\<close>

lemma detour:
  assumes p: "path g p" and c: "c \<notin> set p" "c < size_of g"
  shows "(\<exists>v\<in>set p. \<not> reaches g v c \<and> \<not> reaches g c v) \<or> (\<exists>q. path g q \<and> c \<in> set q \<and> path_cost_of w p \<le> path_cost_of w q)"
proof (cases "\<exists>v\<in>set p. \<not> reaches g v c \<and> \<not> reaches g c v")
  case False
  let ?p1 = "takeWhile (\<lambda>v. reaches g v c) p" and ?p2 = "dropWhile (\<lambda>v. reaches g v c) p"
  have "path g (?p1 @ ?p2)" using p by simp
  then have parts: "?p1 = [] \<or> path g ?p1" "?p2 = [] \<or> path g ?p2"
    using path_append [of ?p1 ?p2 g] by (metis append_Nil append_Nil2)+
  have last: "reaches g (last ?p1) c" if "?p1 \<noteq> []" using last_in_set [OF that] by (rule set_takeWhileD [THEN conjunct2])
  have "c \<notin> set ?p1" "c \<notin> set ?p2" using c(1) by (auto dest: set_takeWhileD set_dropWhileD)
  then obtain m1 where m1: "path g (?p1 @ m1 @ [c])" using extend_right [of ?p1 g c] parts(1) last c(2) by blast
  have "reaches g c (hd ?p2)" if "?p2 \<noteq> []"
  proof -
    have "hd ?p2 \<in> set p" using set_dropWhileD [OF hd_in_set [OF that]] .
    then show ?thesis using hd_dropWhile [OF that] False by blast
  qed
  then obtain m2 where m2: "path g (c # m2 @ ?p2)" using extend_left [of ?p2 g c] parts(2) \<open>c \<notin> set ?p2\<close> c(2) by blast
  have "path g ((?p1 @ m1) @ c # m2 @ ?p2)" using path_join [of g "?p1 @ m1" c "m2 @ ?p2"] m1 m2 by simp
  moreover have "path_cost_of w p \<le> path_cost_of w ((?p1 @ m1) @ c # m2 @ ?p2)"
  proof -
    have "path_cost_of w p = path_cost_of w ?p1 + path_cost_of w ?p2" by (simp flip: path_cost_append)
    also have "\<dots> \<le> path_cost_of w ?p1 + (path_cost_of w (m1 @ c # m2) + path_cost_of w ?p2)"
      using add_right_mono [OF zero_le_cost, of "path_cost_of w ?p2"] by (intro add_left_mono) simp
    finally show ?thesis by (simp add: ac_simps)
  qed
  ultimately show ?thesis by (intro disjI2 exI conjI) auto
qed simp


section \<open>The updated costs\<close>

text \<open>The maximum of the critical path without the vertex's time and of the longest paths through the vertices not
  comparable with it is the longest path of the graph in which the vertex takes no time.\<close>

lemma in_two_split:
  assumes "a \<in> set p" "b \<in> set p" "a \<noteq> b"
  shows "\<exists>x y z. p = x @ a # y @ b # z \<or> p = x @ b # y @ a # z"
proof -
  obtain x y where p: "p = x @ a # y" using assms(1) by (meson split_list)
  then consider "b \<in> set x" | "b \<in> set y" using assms by auto
  then show ?thesis
  proof cases
    case 1
    then obtain x1 x2 where "x = x1 @ b # x2" by (meson split_list)
    then show ?thesis using p by auto
  next
    case 2
    then obtain y1 y2 where "y = y1 @ b # y2" by (meson split_list)
    then show ?thesis using p by blast
  qed
qed

lemma incomparable_avoids:
  assumes p: "path g p" "v \<in> set p" and v: "\<not> reaches g v c" "\<not> reaches g c v"
  shows "c \<notin> set p"
proof
  assume "c \<in> set p"
  moreover have "v \<noteq> c" using v reaches_refl path_bound [OF p] by auto
  ultimately obtain x y z where "p = x @ v # y @ c # z \<or> p = x @ c # y @ v # z" using in_two_split [OF p(2)] by blast
  then show False using reaches_path p(1) v by blast
qed

lemma longest_zeroed:
  assumes order: "edges_first g order" and w: "length w = size_of g"
    and crit: "longest w {p. path g p} cost" and cp: "path g cp" "path_cost_of w cp = cost" and c: "c \<in> set cp"
    and vc: "\<And>v. v < size_of g \<Longrightarrow> longest w (paths_through g v) (vc v)"
    and u: "is_max (insert (PathCost (runtime cost - w ! c) (len cost)) {vc v |v. v < size_of g \<and> \<not> reaches g v c \<and> \<not> reaches g c v}) u"
  shows "longest (w[c := 0]) {p. path g p} u"
proof -
  let ?w = "w[c := 0]" and ?init = "PathCost (runtime cost - w ! c) (len cost)"
  have cn: "c < size_of g" using path_bound cp(1) c by blast
  have zeroed: "path_cost_of ?w p + PathCost (w ! c) 0 = path_cost_of w p" if "path g p" "c \<in> set p" for p
    using path_cost_zeroed edges_first_distinct [OF order that(1)] that(2) cn w by simp
  have "w ! c \<le> runtime cost" using arg_cong [OF zeroed [OF cp(1) c], of runtime] cp(2) by simp
  then have init: "?init + PathCost (w ! c) 0 = cost" by (simp add: plus_path_cost_def)
  then have cp_cost: "path_cost_of ?w cp = ?init" using zeroed [OF cp(1) c] cp(2) by (metis add_right_cancel)
  have through_c: "path_cost_of ?w p \<le> ?init" if "path g p" "c \<in> set p" for p
  proof -
    have "path_cost_of ?w p + PathCost (w ! c) 0 \<le> ?init + PathCost (w ! c) 0"
      using zeroed [OF that] crit that(1) by (simp add: init longest_def)
    then show ?thesis by simp
  qed
  have u_max: "?init \<le> u" "\<And>v. v < size_of g \<Longrightarrow> \<not> reaches g v c \<Longrightarrow> \<not> reaches g c v \<Longrightarrow> vc v \<le> u"
    using u by (auto simp: is_max_def)
  have "path_cost_of ?w p \<le> u" if p: "path g p" for p
  proof (cases "c \<in> set p")
    case True
    then show ?thesis using through_c [OF p] u_max(1) by simp
  next
    case False
    from detour [OF p False cn, of ?w] show ?thesis
    proof
      assume "\<exists>v\<in>set p. \<not> reaches g v c \<and> \<not> reaches g c v"
      then obtain v where v: "v \<in> set p" "\<not> reaches g v c" "\<not> reaches g c v" by blast
      then have "path_cost_of w p \<le> vc v" "vc v \<le> u"
        using vc [of v] p path_bound [OF p] u_max(2) by (auto simp: longest_def paths_through_def)
      then show ?thesis using path_cost_zeroed_other [OF False, of w] by simp
    next
      assume "\<exists>q. path g q \<and> c \<in> set q \<and> path_cost_of ?w p \<le> path_cost_of ?w q"
      then obtain q where "path g q" "c \<in> set q" "path_cost_of ?w p \<le> path_cost_of ?w q" by blast
      then show ?thesis using through_c [of q] u_max(1) by simp
    qed
  qed
  moreover have "\<exists>p. path g p \<and> path_cost_of ?w p = u"
  proof (cases "u = ?init")
    case True
    then show ?thesis using cp cp_cost by blast
  next
    case False
    then obtain v where v: "v < size_of g" "\<not> reaches g v c" "\<not> reaches g c v" "u = vc v" using u by (auto simp: is_max_def)
    then obtain p where p: "path g p" "v \<in> set p" "path_cost_of w p = u" using vc [of v] by (auto simp: longest_def paths_through_def)
    have "c \<notin> set p" using incomparable_avoids p v by blast
    then show ?thesis using p path_cost_zeroed_other by auto
  qed
  ultimately show ?thesis by (auto simp: longest_def)
qed

lemma weight_le_runtime: "v \<in> set p \<Longrightarrow> w ! v \<le> runtime (path_cost_of w p)"
  by (induction p) auto

text \<open>What the cost of a vertex is computed from.\<close>

lemma through_cost_correct:
  assumes r: "reverse_of g r" and wf: "wf_graph g" and fits: "fits g" and order: "edges_first g order"
    and w: "length w = size_of g" "2 * sum_list w \<le> u64_max"
    and f: "longest w (paths_from g v) f" and t: "longest w (paths_from r v) t"
  shows "\<exists>c. through_cost f t (w ! v) = Some c \<and> longest w (paths_through g v) c"
proof -
  let ?c = "PathCost (runtime f + runtime t - w ! v) (len f + len t - 1)"
  have t': "longest w (paths_to g v) t" using longest_to [OF r wf t] .
  obtain p where p: "path g p" "hd p = v" "path_cost_of w p = f" using f by (auto simp: longest_def paths_from_def)
  obtain q where q: "path g q" "path_cost_of w q = t" using t' by (auto simp: longest_def paths_to_def)
  have le: "w ! v \<le> runtime f" "1 \<le> len f"
    using weight_le_runtime [of v p w] p hd_in_set [OF path_not_Nil [OF p(1)]] path_not_Nil [OF p(1)] len_path_cost [of w p]
    by (auto simp: Suc_le_eq)
  have c: "?c + PathCost (w ! v) 1 = f + t" using le by (simp add: plus_path_cost_def)
  have long: "longest w (paths_through g v) ?c" by (rule longest_through [OF f t' c])
  then obtain s where s: "path g s" "path_cost_of w s = ?c" by (auto simp: longest_def paths_through_def)
  have "len f + len t - 1 \<le> size_of g" using path_cost_bounds(2) [OF order s(1) w(1)] arg_cong [OF s(2), of len] by simp
  moreover have "runtime f + runtime t \<le> u64_max"
    using path_cost_bounds(1) [OF order p(1) w(1)] path_cost_bounds(1) [OF order q(1) w(1)] p(3) q(2) w(2) by simp
  moreover have "size_of g \<le> i32_max + 1" using fits by (simp add: fits_def)
  ultimately have "add_cost f t = Some (PathCost (runtime f + runtime t) (len f + len t))"
    by (simp add: add_cost_def i32_max_def u32_max_def)
  then show ?thesis using le long by (simp add: through_cost_def)
qed

text \<open>The work items at an index: the vertices not comparable with the vertex there.\<close>

lemma candidates_eq:
  assumes r: "reverse_of g r" and wf: "wf_graph g" and cp: "path g (rev cp)" and i: "i < length cp"
    and ps: "\<And>v. v < size_of g \<Longrightarrow> P v = map_option fst (find (\<lambda>(k, u). reaches r u v) (rev (map (\<lambda>k. (k, cp ! k)) [0..<length cp])))"
    and ss: "\<And>v. v < size_of g \<Longrightarrow> S v = map_option fst (find (\<lambda>(k, u). reaches g u v) (map (\<lambda>k. (k, cp ! k)) [0..<length cp]))"
  shows "candidates (map vc [0..<size_of g])
      (set (map (\<lambda>i. (i, Compute)) [0..<length cp] @ map (\<lambda>v. (valid_from (P v), NodeValid v (S v))) [0..<size_of g])) i
    = {vc v |v. v < size_of g \<and> \<not> reaches g v (cp ! i) \<and> \<not> reaches g (cp ! i) v}"
proof -
  have "valid_from (P v) \<le> i \<longleftrightarrow> \<not> reaches g v (cp ! i)" if "v < size_of g" for v
  proof -
    have "valid_from (P v) \<le> i \<longleftrightarrow> \<not> reaches r (cp ! i) v"
      unfolding ps [OF that]
      by (rule valid_find [OF _ i]) (use reaches_reverse [OF r wf] critical_path_reaches [OF cp] reaches_trans in blast)
    then show ?thesis using reaches_reverse [OF r wf] by simp
  qed
  moreover have "still_valid i (S v) \<longleftrightarrow> \<not> reaches g (cp ! i) v" if "v < size_of g" for v
    unfolding ss [OF that] by (rule still_valid_find [OF _ i]) (use critical_path_reaches [OF cp _ i] reaches_trans in blast)
  ultimately have iff: "v < size_of g \<and> valid_from (P v) \<le> i \<and> still_valid i (S v) \<longleftrightarrow> v < size_of g \<and> \<not> reaches g v (cp ! i) \<and> \<not> reaches g (cp ! i) v" for v
    by blast
  let ?work = "map (\<lambda>i. (i, Compute)) [0..<length cp] @ map (\<lambda>v. (valid_from (P v), NodeValid v (S v))) [0..<size_of g]"
  have "candidates (map vc [0..<size_of g]) (set ?work) i
    = {vc v |v. v < size_of g \<and> valid_from (P v) \<le> i \<and> still_valid i (S v)}"
  proof (intro subset_antisym subsetI)
    fix c assume "c \<in> {vc v |v. v < size_of g \<and> valid_from (P v) \<le> i \<and> still_valid i (S v)}"
    then obtain v where v: "c = map vc [0..<size_of g] ! v" "v < size_of g" "valid_from (P v) \<le> i" "still_valid i (S v)" by auto
    then show "c \<in> candidates (map vc [0..<size_of g]) (set ?work) i"
      unfolding candidates_def by (intro CollectI exI [of _ v] exI conjI) auto
  qed (auto simp: candidates_def)
  then show ?thesis unfolding iff .
qed

lemma updated_costs_correct:
  assumes r: "reverse_of g r" and wf: "wf_graph g" and fits: "fits g" and order: "edges_first g order"
    and w: "length w = size_of g" "2 * sum_list w \<le> u64_max"
    and f: "length f = size_of g" "\<And>v. v < size_of g \<Longrightarrow> longest w (paths_from g v) (f ! v)"
    and t: "length t = size_of g" "\<And>v. v < size_of g \<Longrightarrow> longest w (paths_from r v) (t ! v)"
    and cp: "path g (rev cp)" "path_cost_of w cp = cost" and crit: "longest w {p. path g p} cost"
  shows "\<exists>upd. updated_costs g r w f t cp cost = Some upd \<and> length upd = length cp
    \<and> (\<forall>i<length cp. longest (w[cp ! i := 0]) {p. path g p} (upd ! i))"
proof -
  let ?n = "size_of g" and ?m = "length cp" and ?items = "map (\<lambda>k. (k, cp ! k)) [0..<length cp]"
  have "?m \<le> ?n" using path_cost_bounds(2) [OF order cp(1) w(1)] by simp
  then have m: "?m \<le> i32_max + 1" "?m \<le> u32_max" using fits by (auto simp: fits_def i32_max_def u32_max_def)
  have bound: "cp ! k < ?n" if "k < ?m" for k using path_bound [OF cp(1), of "cp ! k"] that by simp
  have items: "k \<le> i32_max \<and> u < ?n" if "(k, u) \<in> set ?items" for k u using that m(1) bound by auto
  obtain ps where ps: "visit_all r (rev ?items) = Some ps" "length ps = ?n"
    "\<And>v. v < ?n \<Longrightarrow> into_option (ps ! v) = map_option fst (find (\<lambda>(k, u). reaches r u v) (rev ?items))"
  proof -
    have "wf_graph r" and size: "size_of r = ?n" using r by (auto simp: reverse_of_def)
    moreover have "k \<le> i32_max \<and> u < size_of r" if "(k, u) \<in> set (rev ?items)" for k u using items that unfolding set_rev size .
    ultimately show thesis using visit_all_correct [of r "rev ?items"] that unfolding size by blast
  qed
  obtain ss where ss: "visit_all g ?items = Some ss" "length ss = ?n"
    "\<And>v. v < ?n \<Longrightarrow> into_option (ss ! v) = map_option fst (find (\<lambda>(k, u). reaches g u v) ?items)"
    using visit_all_correct [OF wf items] by blast
  obtain vc where vc: "\<And>v. v < ?n \<Longrightarrow> through_cost (f ! v) (t ! v) (w ! v) = Some (vc v) \<and> longest w (paths_through g v) (vc v)"
    using through_cost_correct [OF r wf fits order w f(2) t(2)] by metis
  have vcs: "compute_vertices_cost g w f t = Some (map vc [0..<?n])" using compute_vertices_cost_eq [OF fits w(1) f(1) t(1)] vc by blast
  let ?work = "map (\<lambda>i. (i, Compute)) [0..<?m] @ map (\<lambda>v. (valid_from (into_option (ps ! v)), NodeValid v (into_option (ss ! v)))) [0..<?n]"
  have work: "work_items g cp ps ss = Some ?work"
    by (rule work_items_eq [OF fits m(2) ps(2) ss(2)]) (auto simp: ps(3) find_Some_iff rev_nth)
  let ?init = "map (\<lambda>v. PathCost (runtime cost - w ! v) (len cost)) cp"
  have init: "initial_costs w cp cost = Some ?init"
    using weight_le_runtime [of _ cp w] cp(2) path_bound [OF cp(1)] w(1) by (intro initial_costs_eq m(2)) auto
  have "distinct ?work" by (auto simp: distinct_map inj_on_def)
  then obtain upd where upd: "sweep (map vc [0..<?n]) ?work ?init = Some upd" "length upd = ?m"
    "\<And>i. i < ?m \<Longrightarrow> is_max (insert (?init ! i) (candidates (map vc [0..<?n]) (set ?work) i)) (upd ! i)"
  proof -
    have "v < length (map vc [0..<?n])" if "(a, NodeValid v k) \<in> set ?work" for a v k using that by auto
    moreover have "(i, Compute) \<in> set ?work \<longleftrightarrow> i < length ?init" for i by auto
    ultimately show thesis using sweep_correct [OF \<open>distinct ?work\<close>, of "map vc [0..<?n]" ?init] that unfolding length_map by blast
  qed
  have "longest (w[cp ! i := 0]) {p. path g p} (upd ! i)" if i: "i < ?m" for i
    using longest_zeroed [OF order w(1) crit cp(1), of "cp ! i" vc "upd ! i"] cp(2) i vc upd(3) [OF i]
      candidates_eq [OF r wf cp(1) i ps(3) ss(3), of vc] by simp
  then show ?thesis using upd by (simp add: updated_costs_def vertex_iter_eq [OF m(2)] ps(1) ss(1) vcs work init)
qed


section \<open>The result\<close>

lemma find_longest:
  assumes "wf_graph g" "fits g" "edges_first g order" "length w = size_of g" "sum_list w \<le> u64_max"
  shows "\<exists>f p. find_longest_paths g order w = Some (f, p) \<and> length f = size_of g \<and> length p = size_of g
    \<and> (\<forall>v<size_of g. found g w (f, p) v \<and> longest w (paths_from g v) (f ! v))"
proof -
  obtain f p where fp: "find_longest_paths g order w = Some (f, p)" "relaxed g w order (f, p)"
    using find_longest_paths_correct [OF assms] by auto
  moreover have "set order = {..<size_of g}" using assms(3) by (simp add: edges_first_def)
  ultimately show ?thesis by (auto simp: relaxed_def found_def)
qed

text \<open>The vertex with the highest cost ends a longest path of the graph.\<close>

lemma longest_end:
  assumes f: "length f = size_of g" "\<And>v. v < size_of g \<Longrightarrow> longest w (paths_from g v) (f ! v)" and pos: "size_of g > 0"
  shows "\<exists>v. max_by_cost (map (\<lambda>k. (k, f ! k)) [0..<size_of g]) = Some (v, f ! v) \<and> v < size_of g \<and> longest w {p. path g p} (f ! v)"
proof -
  obtain v where v: "max_by_cost (map (\<lambda>k. (k, f ! k)) [0..<size_of g]) = Some (v, f ! v)" "v < size_of g"
    "\<And>u. u < size_of g \<Longrightarrow> f ! u \<le> f ! v"
    using max_by_cost_correct [of "map (\<lambda>k. (k, f ! k)) [0..<size_of g]"] pos by fastforce
  have "path_cost_of w p \<le> f ! v" if "path g p" for p
  proof -
    have h: "hd p < size_of g" using path_bound [OF that hd_in_set [OF path_not_Nil [OF that]]] .
    then have "path_cost_of w p \<le> f ! hd p" using f(2) [OF h] that by (simp add: longest_def paths_from_def)
    then show ?thesis using v(3) [OF h] by simp
  qed
  moreover have "\<exists>p. path g p \<and> path_cost_of w p = f ! v" using f(2) [OF v(2)] by (auto simp: longest_def paths_from_def)
  ultimately show ?thesis using v(1, 2) by (auto simp: longest_def)
qed

definition accessor_correct :: "graph \<Rightarrow> nat vertex_data \<Rightarrow> critical_path_accessor \<Rightarrow> bool" where
  "accessor_correct g w acc \<longleftrightarrow> (\<forall>v<size_of g. \<exists>cp c. critical_path_for_vertex acc v = Some (Some (c, cp))
     \<and> rev cp \<in> paths_from g v \<and> path_cost_of w cp = c \<and> longest w (paths_from g v) c)"

lemma accessor_correctI:
  assumes wf: "wf_graph g" and len: "length f = size_of g" "length pred = size_of g"
    and found: "\<forall>v<size_of g. found g w (f, pred) v"
  shows "accessor_correct g w \<lparr>predecessors = pred, cost_from_source = f\<rparr>"
  unfolding accessor_correct_def
proof (intro allI impI)
  fix v assume v: "v < size_of g"
  then obtain p where p: "critical_path_for_vertex_and_cost \<lparr>predecessors = pred, cost_from_source = f\<rparr> v (f ! v) = Some (rev p)"
    "p \<in> paths_from g v" "path_cost_of w p = f ! v" using critical_path_correct [OF wf refl found len(2)] by blast
  then show "\<exists>cp c. critical_path_for_vertex \<lparr>predecessors = pred, cost_from_source = f\<rparr> v = Some (Some (c, cp))
      \<and> rev cp \<in> paths_from g v \<and> path_cost_of w cp = c \<and> longest w (paths_from g v) c"
    using found v len(1) by (auto simp: critical_path_for_vertex_def found_def)
qed

lemma potentials_correct:
  assumes wf: "wf_graph g" and fits: "fits g" and acyclic: "acyclic_graph g"
    and w: "length w = size_of g" "2 * sum_list w \<le> u64_max"
  shows "\<exists>cp cost upd acc. compute_critical_path_potentials g w = Some (Inr (cp, cost, upd, acc)) \<and> accessor_correct g w acc
    \<and> (if size_of g = 0 then cp = [] \<and> cost = PathCost 0 0
       else path g (rev cp) \<and> path_cost_of w cp = cost \<and> longest w {p. path g p} cost)
    \<and> length upd = length cp \<and> (\<forall>i<length cp. longest (w[cp ! i := 0]) {p. path g p} (upd ! i))"
proof -
  let ?n = "size_of g"
  obtain r where r: "reversed g = Some r" "reverse_of g r" using reversed_reverse_of [OF wf fits] by blast
  then have rg: "wf_graph r" "fits r" "size_of r = ?n" by (auto simp: reverse_of_def)
  obtain vs where vs: "topo_sort g = Some (Inr vs)" "is_topo_order g vs" using topo_sort_acyclic [OF wf fits acyclic] by blast
  note order = edges_first_topo [OF vs(2)]
  have sum: "sum_list w \<le> u64_max" using w(2) by simp
  obtain t tp where t: "find_longest_paths r vs w = Some (t, tp)" "length t = ?n" "\<forall>v<?n. longest w (paths_from r v) (t ! v)"
    using find_longest [OF rg(1, 2) edges_first_reverse [OF r(2) vs(2)], of w] w(1) sum rg(3) by auto
  obtain f pred where f: "find_longest_paths g (rev vs) w = Some (f, pred)" "length f = ?n" "length pred = ?n"
    "\<forall>v<?n. found g w (f, pred) v" "\<And>v. v < ?n \<Longrightarrow> longest w (paths_from g v) (f ! v)"
    using find_longest [OF wf fits order w(1) sum] by auto
  let ?acc = "\<lparr>predecessors = pred, cost_from_source = f\<rparr>"
  have acc: "accessor_correct g w ?acc" by (rule accessor_correctI [OF wf f(2-4)])
  have "?n \<le> u32_max" using fits by (simp add: fits_def i32_max_def u32_max_def)
  then have ends: "vertex_iter f = Some (map (\<lambda>k. (k, f ! k)) [0..<?n])" using vertex_iter_eq [of f] f(2) by simp
  note start = compute_critical_path_potentials_def r(1) vs(1) t(1) f(1) ends
  show ?thesis
  proof (cases "?n = 0")
    case True
    then show ?thesis using acc by (simp add: start max_by_cost_Nil default_cost_def)
  next
    case False
    then obtain v where v: "max_by_cost (map (\<lambda>k. (k, f ! k)) [0..<?n]) = Some (v, f ! v)" "v < ?n" "longest w {p. path g p} (f ! v)"
      using longest_end [OF f(2, 5)] by auto
    obtain p where p: "critical_path_for_vertex_and_cost ?acc v (f ! v) = Some (rev p)" "path g p" "path_cost_of w p = f ! v"
      using critical_path_correct [OF wf refl f(4, 3) v(2)] by (auto simp: paths_from_def)
    obtain upd where "updated_costs g r w f t (rev p) (f ! v) = Some upd" "length upd = length (rev p)"
      "\<forall>i<length (rev p). longest (w[rev p ! i := 0]) {p. path g p} (upd ! i)"
      using updated_costs_correct [OF r(2) wf fits order w f(2, 5) t(2), of "rev p" "f ! v"] t(3) p v(3) by auto
    then show ?thesis using acc False v p by (simp add: start)
  qed
qed

lemma potentials_cycle:
  assumes wf: "wf_graph g" and fits: "fits g" and cyclic: "\<not> acyclic_graph g"
  shows "\<exists>c. compute_critical_path_potentials g w = Some (Inl (Cycle c)) \<and> is_cycle g c"
proof -
  obtain r where r: "reversed g = Some r" using reversed_reverse_of [OF wf fits] by blast
  from topo_sort_cases [OF wf fits] topo_order_acyclic cyclic
  obtain c where "topo_sort g = Some (Inl (Cycle c))" "is_cycle g c" by blast
  then show ?thesis by (simp add: compute_critical_path_potentials_def r)
qed

end
