(* ===== verification/Deps_Encoding.thy ===== *)
theory Deps_Encoding
  imports Prelude "HOL-Library.Word"
begin

text \<open>
  The encoding of the series-parallel structure of recorded dependencies, \<^verbatim>\<open>dice/dice/src/deps/encoding.rs\<close>, on 32-bit
  words: four bits of tag over 28 bits of value. \<^const>\<open>None\<close> is a failed assertion. The text of an error is left as the
  parts it is made from.
\<close>

unbundle bit_operations_syntax

section \<open>Headers and items\<close>

datatype sp_series_header = Simple "32 word" | Complex "32 word" "32 word"

datatype sp_item = Keys "32 word" | Parallel "32 word" "32 word"

definition keys_len :: "sp_series_header \<Rightarrow> 32 word" where
  "keys_len h = (case h of Simple key_count \<Rightarrow> key_count | Complex key_count _ \<Rightarrow> key_count)"

text \<open>The additions of the code on \<^verbatim>\<open>u32\<close> panic on overflow.\<close>

definition add_u32 :: "32 word \<Rightarrow> 32 word \<Rightarrow> 32 word option" where
  "add_u32 a b = (if unat a + unat b \<le> u32_max then Some (a + b) else None)"

definition header_encoded_len :: "sp_series_header \<Rightarrow> 32 word option" where
  "header_encoded_len h = (case h of Simple _ \<Rightarrow> Some 1 | Complex _ spec_count \<Rightarrow> add_u32 2 spec_count)"

definition item_encoded_len :: "sp_item \<Rightarrow> 32 word" where
  "item_encoded_len i = (case i of Keys _ \<Rightarrow> 1 | Parallel _ _ \<Rightarrow> 2)"


section \<open>Tags\<close>

datatype sp_tag = HeaderSimple | HeaderComplexKeys | HeaderComplexSpecs | ItemKeys | ItemParallelKeys | ItemParallelSpecs

datatype sp_decoder_error =
    InvalidItem "sp_tag list" "(sp_tag \<times> 32 word) option" "(32 word \<times> 32 word) list"
  | InvalidTag "32 word"

fun tag_encode :: "sp_tag \<Rightarrow> 32 word" where
  "tag_encode HeaderSimple = 0"
| "tag_encode HeaderComplexKeys = 1"
| "tag_encode HeaderComplexSpecs = 2"
| "tag_encode ItemKeys = 3"
| "tag_encode ItemParallelKeys = 4"
| "tag_encode ItemParallelSpecs = 5"

definition tag_of :: "32 word \<Rightarrow> sp_tag option" where
  "tag_of v =
     (if v = 0 then Some HeaderSimple
      else if v = 1 then Some HeaderComplexKeys
      else if v = 2 then Some HeaderComplexSpecs
      else if v = 3 then Some ItemKeys
      else if v = 4 then Some ItemParallelKeys
      else if v = 5 then Some ItemParallelSpecs
      else None)"

definition tag_decode :: "32 word \<Rightarrow> (sp_decoder_error + sp_tag) option" where
  "tag_decode v =
     (case tag_of v of
        None \<Rightarrow> Some (Inl (InvalidTag v))
      | Some r \<Rightarrow> if tag_encode r = v then Some (Inr r) else None)"


section \<open>Writing\<close>

definition push_spec :: "sp_tag \<Rightarrow> 32 word \<Rightarrow> 32 word list \<Rightarrow> 32 word list option" where
  "push_spec tag value vec =
     (if value < push_bit 28 1 then Some (vec @ [push_bit 28 (tag_encode tag) OR value]) else None)"

definition write_series_header :: "sp_series_header \<Rightarrow> 32 word list \<Rightarrow> 32 word list option" where
  "write_series_header header vec =
     (case header of
        Simple key_count \<Rightarrow> push_spec HeaderSimple key_count vec
      | Complex key_count spec_count \<Rightarrow>
          push_spec HeaderComplexKeys key_count vec \<bind> push_spec HeaderComplexSpecs spec_count)"

definition write_item :: "sp_item \<Rightarrow> 32 word list \<Rightarrow> 32 word list option" where
  "write_item item vec =
     (case item of
        Keys key_count \<Rightarrow> push_spec ItemKeys key_count vec
      | Parallel key_count spec_count \<Rightarrow>
          push_spec ItemParallelKeys key_count vec \<bind> push_spec ItemParallelSpecs spec_count)"


section \<open>Reading\<close>

type_synonym sp_decoder = "32 word list"

definition split_word :: "32 word \<Rightarrow> 32 word \<times> 32 word" where
  "split_word v = (drop_bit 28 v, v AND 0x0FFFFFFF)"

definition read_word :: "sp_decoder \<Rightarrow> ((sp_decoder_error + (sp_tag \<times> 32 word) option) \<times> sp_decoder) option" where
  "read_word d =
     (case d of
        [] \<Rightarrow> Some (Inr None, [])
      | v # rest \<Rightarrow>
          (let (tag, val) = split_word v in
           map_option (\<lambda>r. (case r of Inl e \<Rightarrow> Inl e | Inr t \<Rightarrow> Inr (Some (t, val)), rest)) (tag_decode tag)))"

text \<open>An error takes the rest of the input for its description.\<close>

definition read_series_header :: "sp_decoder \<Rightarrow> ((sp_decoder_error + sp_series_header option) \<times> sp_decoder) option" where
  "read_series_header d = do {
     (r, d1) \<leftarrow> read_word d;
     (case r of
        Inl e \<Rightarrow> Some (Inl e, d1)
      | Inr None \<Rightarrow> Some (Inr None, d1)
      | Inr (Some (HeaderSimple, key_count)) \<Rightarrow> Some (Inr (Some (Simple key_count)), d1)
      | Inr (Some (HeaderComplexKeys, key_count)) \<Rightarrow> do {
          (r2, d2) \<leftarrow> read_word d1;
          (case r2 of
             Inl e \<Rightarrow> Some (Inl e, d2)
           | Inr (Some (HeaderComplexSpecs, spec_count)) \<Rightarrow> Some (Inr (Some (Complex key_count spec_count)), d2)
           | Inr v \<Rightarrow> Some (Inl (InvalidItem [HeaderComplexSpecs] v (map split_word d2)), [])) }
      | Inr v \<Rightarrow> Some (Inl (InvalidItem [HeaderSimple, HeaderComplexKeys] v (map split_word d1)), [])) }"

definition read_item :: "sp_decoder \<Rightarrow> ((sp_decoder_error + sp_item option) \<times> sp_decoder) option" where
  "read_item d = do {
     (r, d1) \<leftarrow> read_word d;
     (case r of
        Inl e \<Rightarrow> Some (Inl e, d1)
      | Inr None \<Rightarrow> Some (Inr None, d1)
      | Inr (Some (ItemKeys, key_count)) \<Rightarrow> Some (Inr (Some (Keys key_count)), d1)
      | Inr (Some (ItemParallelKeys, key_count)) \<Rightarrow> do {
          (r2, d2) \<leftarrow> read_word d1;
          (case r2 of
             Inl e \<Rightarrow> Some (Inl e, d2)
           | Inr (Some (ItemParallelSpecs, spec_count)) \<Rightarrow> Some (Inr (Some (Parallel key_count spec_count)), d2)
           | Inr v \<Rightarrow> Some (Inl (InvalidItem [ItemParallelSpecs] v (map split_word d2)), [])) }
      | Inr v \<Rightarrow> Some (Inl (InvalidItem [ItemKeys, ItemParallelKeys] v (map split_word d1)), [])) }"

text \<open>Slices split only within their length.\<close>

definition decoder_split_at :: "sp_decoder \<Rightarrow> 32 word \<Rightarrow> (sp_decoder \<times> sp_decoder) option" where
  "decoder_split_at d specs =
     (if unat specs \<le> length d then Some (take (unat specs) d, drop (unat specs) d) else None)"


section \<open>What is written is read\<close>

text \<open>An encoding that is read back: equal codes are codes of equal values.\<close>

locale codec =
  fixes encode :: "'a \<Rightarrow> 'b" and decode :: "'b \<Rightarrow> 'a option" and encodable :: "'a \<Rightarrow> bool"
  assumes decode_encode: "encodable x \<Longrightarrow> decode (encode x) = Some x"
begin

lemma encode_inject: "encodable x \<Longrightarrow> encodable y \<Longrightarrow> encode x = encode y \<longleftrightarrow> x = y"
  by (metis decode_encode option.inject)

lemma decode_unique: "encodable x \<Longrightarrow> encode x = c \<Longrightarrow> decode c = Some y \<Longrightarrow> y = x"
  using decode_encode by fastforce

end

interpretation tags: codec tag_encode tag_of "\<lambda>_. True"
proof
  show "tag_of (tag_encode t) = Some t" for t by (cases t) (simp_all add: tag_of_def)
qed

text \<open>The word of a tag and a value below \<open>2 ^ 28\<close>.\<close>

definition spec_word :: "sp_tag \<Rightarrow> nat \<Rightarrow> 32 word" where
  "spec_word tag n = push_bit 28 (tag_encode tag) OR of_nat n"

definition spec_limit :: nat where
  "spec_limit = 2 ^ 28"

lemma tag_decode_encode [simp]: "tag_decode (tag_encode t) = Some (Inr t)"
  by (simp add: tag_decode_def tags.decode_encode)

text \<open>Decoding a tag never fails its assertion: it is an error or a tag.\<close>

lemma tag_decode_total: "tag_decode v = Some (case tag_of v of None \<Rightarrow> Inl (InvalidTag v) | Some t \<Rightarrow> Inr t)"
  by (auto simp: tag_decode_def tag_of_def)

lemma unat_of_nat_u32: "n < 2 ^ 32 \<Longrightarrow> unat (of_nat n :: 32 word) = n"
  by (simp add: unat_of_nat take_bit_nat_eq_self)

lemma of_nat_less_limit: "n < spec_limit \<Longrightarrow> (of_nat n :: 32 word) < 268435456"
  by (simp add: spec_limit_def word_less_nat_alt unat_of_nat_u32)

lemma split_spec_word:
  assumes "n < spec_limit"
  shows "split_word (spec_word t n) = (tag_encode t, of_nat n)"
proof -
  have v: "take_bit 28 (of_nat n :: 32 word) = of_nat n"
    using assms by (simp add: spec_limit_def take_bit_of_nat take_bit_nat_eq_self)
  then have "(drop_bit 28 (of_nat n) :: 32 word) = 0" by (metis drop_bit_take_bit diff_self_eq_0 take_bit_0)
  moreover have "drop_bit 28 (push_bit 28 (tag_encode t)) = tag_encode t" by (cases t) simp_all
  moreover have "take_bit 28 (push_bit 28 (tag_encode t)) = 0" by (cases t) simp_all
  moreover have "v AND 0x0FFFFFFF = take_bit 28 v" for v :: "32 word" by (simp add: take_bit_eq_mask mask_numeral)
  ultimately show ?thesis by (simp add: split_word_def spec_word_def v)
qed

lemma push_spec_eq: "n < spec_limit \<Longrightarrow> push_spec t (of_nat n) vec = Some (vec @ [spec_word t n])"
  by (simp add: push_spec_def of_nat_less_limit spec_word_def)

lemma read_word_eq: "n < spec_limit \<Longrightarrow> read_word (spec_word t n # d) = Some (Inr (Some (t, of_nat n)), d)"
  by (simp add: read_word_def split_spec_word)

lemmas write_read_simps = write_series_header_def write_item_def read_series_header_def read_item_def
  push_spec_eq read_word_eq

lemma write_header_eq:
  "n < spec_limit \<Longrightarrow> write_series_header (Simple (of_nat n)) vec = Some (vec @ [spec_word HeaderSimple n])"
  "n < spec_limit \<Longrightarrow> m < spec_limit \<Longrightarrow> write_series_header (Complex (of_nat n) (of_nat m)) vec =
     Some (vec @ [spec_word HeaderComplexKeys n, spec_word HeaderComplexSpecs m])"
  by (simp_all add: write_read_simps)

lemma write_item_eq:
  "n < spec_limit \<Longrightarrow> write_item (Keys (of_nat n)) vec = Some (vec @ [spec_word ItemKeys n])"
  "n < spec_limit \<Longrightarrow> m < spec_limit \<Longrightarrow> write_item (Parallel (of_nat n) (of_nat m)) vec =
     Some (vec @ [spec_word ItemParallelKeys n, spec_word ItemParallelSpecs m])"
  by (simp_all add: write_read_simps)

lemma read_header_eq:
  "n < spec_limit \<Longrightarrow> read_series_header (spec_word HeaderSimple n # d) = Some (Inr (Some (Simple (of_nat n))), d)"
  "n < spec_limit \<Longrightarrow> m < spec_limit \<Longrightarrow>
     read_series_header (spec_word HeaderComplexKeys n # spec_word HeaderComplexSpecs m # d) =
     Some (Inr (Some (Complex (of_nat n) (of_nat m))), d)"
  by (simp_all add: write_read_simps)

lemma read_item_eq:
  "n < spec_limit \<Longrightarrow> read_item (spec_word ItemKeys n # d) = Some (Inr (Some (Keys (of_nat n))), d)"
  "n < spec_limit \<Longrightarrow> m < spec_limit \<Longrightarrow>
     read_item (spec_word ItemParallelKeys n # spec_word ItemParallelSpecs m # d) =
     Some (Inr (Some (Parallel (of_nat n) (of_nat m))), d)"
  by (simp_all add: write_read_simps)

lemma read_empty [simp]: "read_item [] = Some (Inr None, [])" "read_series_header [] = Some (Inr None, [])"
  by (simp_all add: read_item_def read_series_header_def read_word_def)

text \<open>Reading takes at most what is there, and takes something when it finds something.\<close>

lemma read_word_shrinks: "read_word d = Some (Inr (Some tv), d') \<Longrightarrow> length d = Suc (length d')"
  by (auto simp: read_word_def map_option_case split: list.split_asm prod.split_asm option.split_asm sum.split_asm)

lemma read_word_none: "read_word d = Some (Inr None, d') \<Longrightarrow> d' = d"
  by (auto simp: read_word_def map_option_case split: list.split_asm prod.split_asm option.split_asm sum.split_asm)

lemmas read_splits = Option.bind_split_asm prod.split_asm sum.split_asm option.split_asm sp_tag.split_asm

lemma read_series_header_shrinks: "read_series_header d = Some (Inr (Some h), d') \<Longrightarrow> length d' < length d"
  by (auto simp: read_series_header_def dest!: read_word_shrinks split: read_splits)

lemma read_item_shrinks: "read_item d = Some (Inr (Some i), d') \<Longrightarrow> length d' < length d"
  by (auto simp: read_item_def dest!: read_word_shrinks split: read_splits)

lemma read_item_none: "read_item d = Some (Inr None, d') \<Longrightarrow> d' = d"
  by (auto simp: read_item_def dest!: read_word_none split: read_splits)

end
