(* ===== verification/Deps_Graph.thy ===== *)
theory Deps_Graph
  imports Deps_Encoding Dice_Ids
begin

text \<open>
  Recorded dependencies as a series-parallel graph: \<^verbatim>\<open>dice/dice/src/deps/graph.rs\<close> and the iterators of
  \<^verbatim>\<open>dice/dice/src/deps/iterator.rs\<close>. A \<^verbatim>\<open>MiniVec\<close> and a slice iterator are lists, and \<^const>\<open>None\<close> is a panic. Capacity
  (\<^verbatim>\<open>reserve\<close>, \<^verbatim>\<open>shrink_to_fit\<close>) has no counterpart.
\<close>

section \<open>The graph\<close>

record 'r dep_edge =
  edge_key :: key
  edge_revision :: 'r

record 'r many_deps =
  many_edges :: "'r dep_edge list"
  many_spec :: "32 word list"
  trailing_deps_start :: "32 word"

datatype 'r deps = NoDeps | OneDep "'r dep_edge" | ManyDeps "'r many_deps"

text \<open>The conversions \<^verbatim>\<open>usize\<close> to \<^verbatim>\<open>u32\<close> panic where the value does not fit.\<close>

definition try_into_u32 :: "nat \<Rightarrow> 32 word option" where
  "try_into_u32 n = (if n \<le> u32_max then Some (of_nat n) else None)"

definition many_new :: "'r many_deps" where
  "many_new = \<lparr>many_edges = [], many_spec = [], trailing_deps_start = 0\<rparr>"

definition many_push :: "'r many_deps \<Rightarrow> 'r dep_edge \<Rightarrow> 'r many_deps" where
  "many_push m e = m\<lparr>many_edges := many_edges m @ [e]\<rparr>"

definition upgrade_to_many :: "'r deps \<Rightarrow> 'r many_deps" where
  "upgrade_to_many d =
     (case d of
        NoDeps \<Rightarrow> many_new
      | OneDep e \<Rightarrow> many_push many_new e
      | ManyDeps m \<Rightarrow> m)"

definition deps_insert :: "'r deps \<Rightarrow> 'r dep_edge \<Rightarrow> 'r deps" where
  "deps_insert d e =
     (case d of
        NoDeps \<Rightarrow> OneDep e
      | OneDep _ \<Rightarrow> ManyDeps (many_push (upgrade_to_many d) e)
      | ManyDeps m \<Rightarrow> ManyDeps (many_push m e))"

definition deps_header :: "'r deps \<Rightarrow> sp_series_header option" where
  "deps_header d =
     (case d of
        NoDeps \<Rightarrow> Some (Simple 0)
      | OneDep _ \<Rightarrow> Some (Simple 1)
      | ManyDeps m \<Rightarrow>
          (if many_spec m = [] then map_option Simple (try_into_u32 (length (many_edges m)))
           else do {
             k \<leftarrow> try_into_u32 (length (many_edges m));
             s \<leftarrow> try_into_u32 (length (many_spec m));
             Some (Complex k s) }))"

definition serial_from_edges :: "'r dep_edge list \<Rightarrow> 'r deps" where
  "serial_from_edges es =
     (if length es = 0 then NoDeps
      else if length es = 1 then OneDep (last es)
      else ManyDeps \<lparr>many_edges = es, many_spec = [], trailing_deps_start = 0\<rparr>)"

definition deps_edges :: "'r deps \<Rightarrow> 'r dep_edge list" where
  "deps_edges d = (case d of NoDeps \<Rightarrow> [] | OneDep e \<Rightarrow> [e] | ManyDeps m \<Rightarrow> many_edges m)"

definition deps_keys :: "'r deps \<Rightarrow> key list" where
  "deps_keys d = map edge_key (deps_edges d)"

definition deps_is_empty :: "'r deps \<Rightarrow> bool" where
  "deps_is_empty d = (case d of NoDeps \<Rightarrow> True | OneDep _ \<Rightarrow> False | ManyDeps m \<Rightarrow> many_edges m = [])"

definition many_equal_ignoring_revisions :: "'r many_deps \<Rightarrow> 'q many_deps \<Rightarrow> bool" where
  "many_equal_ignoring_revisions a b =
     (if many_spec a \<noteq> many_spec b \<or> trailing_deps_start a \<noteq> trailing_deps_start b then False
      else if length (many_edges a) \<noteq> length (many_edges b) then False
      else list_all (\<lambda>(x, y). edge_key x = edge_key y) (zip (many_edges a) (many_edges b)))"

fun equal_ignoring_revisions :: "'r deps \<Rightarrow> 'q deps \<Rightarrow> bool" where
  "equal_ignoring_revisions NoDeps NoDeps = True"
| "equal_ignoring_revisions (OneDep a) (OneDep b) = (edge_key a = edge_key b)"
| "equal_ignoring_revisions (ManyDeps a) (ManyDeps b) = many_equal_ignoring_revisions a b"
| "equal_ignoring_revisions _ _ = False"

definition deps_eq :: "revision deps \<Rightarrow> revision deps \<Rightarrow> bool" where
  "deps_eq a b \<longleftrightarrow> equal_ignoring_revisions a b \<and>
     list_all (\<lambda>(x, y). edge_revision x = edge_revision y) (zip (deps_edges a) (deps_edges b))"

definition deps_premises :: "revision deps \<Rightarrow> premise list" where
  "deps_premises d = map (\<lambda>e. \<lparr>premise_key = edge_key e, premise_revision = edge_revision e\<rparr>) (deps_edges d)"

definition certify_edge :: "revision option dep_edge \<Rightarrow> revision dep_edge option" where
  "certify_edge e = map_option (\<lambda>r. \<lparr>edge_key = edge_key e, edge_revision = r\<rparr>) (edge_revision e)"

definition deps_certify :: "revision option deps \<Rightarrow> revision deps option" where
  "deps_certify d =
     (case d of
        NoDeps \<Rightarrow> Some NoDeps
      | OneDep e \<Rightarrow> map_option OneDep (certify_edge e)
      | ManyDeps m \<Rightarrow>
          map_option
            (\<lambda>es. ManyDeps \<lparr>many_edges = es, many_spec = many_spec m, trailing_deps_start = trailing_deps_start m\<rparr>)
            (those (map certify_edge (many_edges m))))"

text \<open>The loop of \<^verbatim>\<open>insert_parallel\<close>, over the series of the parallel node.\<close>

fun write_branches :: "'r deps list \<Rightarrow> 32 word list \<Rightarrow> 'r dep_edge list \<Rightarrow> (32 word list \<times> 'r dep_edge list) option" where
  "write_branches [] spec edges = Some (spec, edges)"
| "write_branches (d # ds) spec edges = do {
     h \<leftarrow> deps_header d;
     spec \<leftarrow> write_series_header h spec;
     (case d of
        NoDeps \<Rightarrow> write_branches ds spec edges
      | OneDep e \<Rightarrow> write_branches ds spec (edges @ [e])
      | ManyDeps m \<Rightarrow> write_branches ds (spec @ many_spec m) (edges @ many_edges m)) }"

definition many_insert_parallel ::
  "'r many_deps \<Rightarrow> 'r deps list \<Rightarrow> 32 word \<Rightarrow> 32 word \<Rightarrow> 'r many_deps option" where
  "many_insert_parallel m parallel new_keys new_specs =
     (if length (many_edges m) < unat (trailing_deps_start m) then None
      else do {
        n \<leftarrow> try_into_u32 (length (many_edges m) - unat (trailing_deps_start m));
        let trailing_keys = (if n = 0 then None else Some (Keys n));
        let parallel_item = Parallel new_keys new_specs;
        t \<leftarrow> (case trailing_keys of None \<Rightarrow> Some new_specs | Some i \<Rightarrow> add_u32 new_specs (item_encoded_len i));
        total_new_specs \<leftarrow> add_u32 t (item_encoded_len parallel_item);
        let expected_total_specs = length (many_spec m) + unat total_new_specs;
        spec \<leftarrow> (case trailing_keys of None \<Rightarrow> Some (many_spec m) | Some i \<Rightarrow> write_item i (many_spec m));
        spec \<leftarrow> write_item parallel_item spec;
        (spec, edges) \<leftarrow> write_branches parallel spec (many_edges m);
        if length spec \<noteq> expected_total_specs then None
        else do {
          start \<leftarrow> try_into_u32 (length edges);
          Some \<lparr>many_edges = edges, many_spec = spec, trailing_deps_start = start\<rparr> } })"

definition deps_insert_parallel :: "'r deps \<Rightarrow> 'r deps list \<Rightarrow> 32 word \<Rightarrow> 32 word \<Rightarrow> 'r deps option" where
  "deps_insert_parallel d parallel new_keys new_specs =
     map_option ManyDeps (many_insert_parallel (upgrade_to_many d) parallel new_keys new_specs)"


section \<open>The iterators\<close>

record 'r iterator_data =
  it_deps :: "'r dep_edge list"
  it_specs :: sp_decoder

record 'r series_iterator =
  s_data :: "'r iterator_data"
  keys_to_next_spec :: "32 word"

record 'r parallel_iterator =
  p_data :: "'r iterator_data"

datatype 'r iterator_item = KeyItem "'r dep_edge" | ParallelItem "'r parallel_iterator"

definition series_new :: "'r dep_edge list \<Rightarrow> 32 word list \<Rightarrow> 'r series_iterator" where
  "series_new edges specs = \<lparr>s_data = \<lparr>it_deps = edges, it_specs = specs\<rparr>, keys_to_next_spec = 0\<rparr>"

text \<open>The part that is split off, and what is left.\<close>

definition data_split_at ::
  "'r iterator_data \<Rightarrow> 32 word \<Rightarrow> 32 word \<Rightarrow> ('r iterator_data \<times> 'r iterator_data) option" where
  "data_split_at d ks specs =
     (if unat ks \<le> length (it_deps d) then
        map_option
          (\<lambda>(split, rest). (\<lparr>it_deps = take (unat ks) (it_deps d), it_specs = split\<rparr>,
                            \<lparr>it_deps = drop (unat ks) (it_deps d), it_specs = rest\<rparr>))
          (decoder_split_at (it_specs d) specs)
      else None)"

definition next_edge :: "'r iterator_data \<Rightarrow> 'r dep_edge option \<times> 'r iterator_data" where
  "next_edge d = (case it_deps d of [] \<Rightarrow> (None, d) | e # es \<Rightarrow> (Some e, d\<lparr>it_deps := es\<rparr>))"

text \<open>The end of \<^verbatim>\<open>next\<close>, with \<open>n\<close> keys to the next spec: the subtraction panics at 0.\<close>

definition series_next_key ::
  "32 word \<Rightarrow> 'r iterator_data \<Rightarrow> ('r iterator_item option \<times> 'r series_iterator) option" where
  "series_next_key n d =
     (if n = 0 then None
      else let (e, d') = next_edge d in Some (map_option KeyItem e, \<lparr>s_data = d', keys_to_next_spec = n - 1\<rparr>))"

definition series_next :: "'r series_iterator \<Rightarrow> ('r iterator_item option \<times> 'r series_iterator) option" where
  "series_next it =
     (if keys_to_next_spec it = 0 then do {
        (item, specs) \<leftarrow> read_item (it_specs (s_data it));
        let d = (s_data it)\<lparr>it_specs := specs\<rparr>;
        (case item of
           Inl _ \<Rightarrow> None
         | Inr (Some (Keys n)) \<Rightarrow> series_next_key n d
         | Inr (Some (Parallel ks specs)) \<Rightarrow> do {
             (parallel_data, d) \<leftarrow> data_split_at d ks specs;
             Some (Some (ParallelItem \<lparr>p_data = parallel_data\<rparr>), \<lparr>s_data = d, keys_to_next_spec = 0\<rparr>) }
         | Inr None \<Rightarrow> series_next_key (- 1) d) }
      else series_next_key (keys_to_next_spec it) (s_data it))"

definition parallel_next ::
  "'r parallel_iterator \<Rightarrow> ('r series_iterator option \<times> 'r parallel_iterator) option" where
  "parallel_next p = do {
     (header, specs) \<leftarrow> read_series_header (it_specs (p_data p));
     let d = (p_data p)\<lparr>it_specs := specs\<rparr>;
     (case header of
        Inl _ \<Rightarrow> None
      | Inr None \<Rightarrow> Some (None, \<lparr>p_data = d\<rparr>)
      | Inr (Some h) \<Rightarrow> do {
          (series_data, d) \<leftarrow>
            (case h of
               Complex ks specs \<Rightarrow> data_split_at d ks specs
             | Simple ks \<Rightarrow> data_split_at d ks 0);
          Some (Some \<lparr>s_data = series_data, keys_to_next_spec = 0\<rparr>, \<lparr>p_data = d\<rparr>) }) }"

text \<open>The iterator of a recorded graph: of at most one item, or of a node.\<close>

datatype 'r deps_iterator = AtMost "'r dep_edge option" | Node "'r series_iterator"

definition deps_iter :: "'r deps \<Rightarrow> 'r deps_iterator" where
  "deps_iter d =
     (case d of
        NoDeps \<Rightarrow> AtMost None
      | OneDep e \<Rightarrow> AtMost (Some e)
      | ManyDeps m \<Rightarrow> Node (series_new (many_edges m) (many_spec m)))"

definition deps_iter_next :: "'r deps_iterator \<Rightarrow> ('r iterator_item option \<times> 'r deps_iterator) option" where
  "deps_iter_next it =
     (case it of
        AtMost e \<Rightarrow> Some (map_option KeyItem e, AtMost None)
      | Node s \<Rightarrow> map_option (\<lambda>(i, s'). (i, Node s')) (series_next s))"

end
