(* ===== verification/Deps_Trees.thy ===== *)
theory Deps_Trees
  imports Deps_Graph
begin

text \<open>
  The series-parallel tree a recorded graph stands for, the encoding of a tree as edges and words, and the proof that
  the operations of \<^verbatim>\<open>graph.rs\<close> build the encoding of the tree and the iterators of \<^verbatim>\<open>iterator.rs\<close> read it back.
\<close>

section \<open>Trees and their encoding\<close>

text \<open>A series is a list of keys and of parallel nodes; a parallel node is a list of series.\<close>

datatype 'e sp = Key 'e | Par "'e sp list list"

fun series_keys :: "'e sp list \<Rightarrow> 'e list" and parallel_keys :: "'e sp list list \<Rightarrow> 'e list" where
  "series_keys [] = []"
| "series_keys (Key e # ts) = e # series_keys ts"
| "series_keys (Par ss # ts) = parallel_keys ss @ series_keys ts"
| "parallel_keys [] = []"
| "parallel_keys (s # ss) = series_keys s @ parallel_keys ss"

text \<open>The words of a series of which \<open>n\<close> keys have been passed since the last parallel node.\<close>

definition keys_words :: "nat \<Rightarrow> 32 word list" where
  "keys_words n = (if n = 0 then [] else [spec_word ItemKeys n])"

definition header_words :: "nat \<Rightarrow> nat \<Rightarrow> 32 word list" where
  "header_words ks specs =
     (if specs = 0 then [spec_word HeaderSimple ks]
      else [spec_word HeaderComplexKeys ks, spec_word HeaderComplexSpecs specs])"

fun series_words :: "nat \<Rightarrow> 'e sp list \<Rightarrow> 32 word list" and parallel_words :: "'e sp list list \<Rightarrow> 32 word list" where
  "series_words n [] = []"
| "series_words n (Key e # ts) = series_words (Suc n) ts"
| "series_words n (Par ss # ts) =
     keys_words n @
     [spec_word ItemParallelKeys (length (parallel_keys ss)), spec_word ItemParallelSpecs (length (parallel_words ss))] @
     parallel_words ss @ series_words 0 ts"
| "parallel_words [] = []"
| "parallel_words (s # ss) =
     header_words (length (series_keys s)) (length (series_words 0 s)) @ series_words 0 s @ parallel_words ss"

text \<open>The keys after the last parallel node, of which \<open>n\<close> precede the series.\<close>

fun trailing :: "nat \<Rightarrow> 'e sp list \<Rightarrow> nat" where
  "trailing n [] = n"
| "trailing n (Key e # ts) = trailing (Suc n) ts"
| "trailing n (Par ss # ts) = trailing 0 ts"

definition many_of :: "'r dep_edge sp list \<Rightarrow> 'r many_deps" where
  "many_of ts =
     \<lparr>many_edges = series_keys ts, many_spec = series_words 0 ts,
      trailing_deps_start = of_nat (length (series_keys ts) - trailing 0 ts)\<rparr>"

fun deps_of :: "'r dep_edge sp list \<Rightarrow> 'r deps" where
  "deps_of [] = NoDeps"
| "deps_of [Key e] = OneDep e"
| "deps_of ts = ManyDeps (many_of ts)"

text \<open>The sizes the encoding has room for.\<close>

definition series_fits :: "'e sp list \<Rightarrow> bool" where
  "series_fits ts \<longleftrightarrow> length (series_keys ts) < spec_limit \<and> length (series_words 0 ts) < spec_limit"

definition parallel_fits :: "'e sp list list \<Rightarrow> bool" where
  "parallel_fits ss \<longleftrightarrow> length (parallel_keys ss) < spec_limit \<and> length (parallel_words ss) < spec_limit"

lemma series_keys_append [simp]: "series_keys (ts @ us) = series_keys ts @ series_keys us"
  by (induction ts rule: series_keys_parallel_keys.induct(1) [where ?Q = "\<lambda>_. True"]) auto

lemma series_keys_Keys [simp]: "series_keys (map Key es) = es"
  by (induction es) auto

lemma series_words_append: "series_words n (ts @ us) = series_words n ts @ series_words (trailing n ts) us"
  by (induction n ts rule: trailing.induct) auto

lemma series_words_Keys [simp]: "series_words n (map Key es) = []"
  by (induction es arbitrary: n) auto

lemma trailing_append [simp]: "trailing n (ts @ us) = trailing (trailing n ts) us"
  by (induction n ts rule: trailing.induct) auto

lemma trailing_le: "trailing n ts \<le> n + length (series_keys ts)"
proof (induction n ts rule: trailing.induct)
  case (3 n ss ts) then show ?case by auto
qed auto

lemma header_words_length: "length (header_words ks specs) = (if specs = 0 then 1 else 2)"
  by (simp add: header_words_def)

lemma parallel_fits_Cons: "parallel_fits (s # ss) \<Longrightarrow> series_fits s \<and> parallel_fits ss"
  by (auto simp: parallel_fits_def series_fits_def)

lemma spec_limit_u32: "n < spec_limit \<Longrightarrow> n \<le> u32_max" "n < spec_limit \<Longrightarrow> n < 4294967296"
  by (simp_all add: spec_limit_def u32_max_def)

lemma unat_fits [simp]: "n < spec_limit \<Longrightarrow> unat (of_nat n :: 32 word) = n"
  using unat_of_nat_u32 [of n] by (simp add: spec_limit_def)

lemma try_into_fits [simp]: "n < spec_limit \<Longrightarrow> try_into_u32 n = Some (of_nat n)"
  by (simp add: try_into_u32_def spec_limit_u32)

lemma of_nat_eq_0_fits [simp]:
  assumes "n < spec_limit" shows "(of_nat n = (0 :: 32 word)) = (n = 0)"
  using unat_fits [OF assms] by force


section \<open>Recording builds the encoding\<close>

lemma upgrade_deps_of: "upgrade_to_many (deps_of ts) = many_of ts"
  by (cases ts rule: deps_of.cases)
     (simp_all add: upgrade_to_many_def many_new_def many_push_def many_of_def)

lemma deps_insert_deps_of: "deps_insert (deps_of ts) e = deps_of (ts @ [Key e])"
proof -
  have push: "many_push (many_of ts) e = many_of (ts @ [Key e])"
    by (simp add: many_push_def many_of_def series_words_append)
  show ?thesis
    using push upgrade_deps_of [of ts]
    by (cases ts rule: deps_of.cases) (simp_all add: deps_insert_def)
qed

lemma deps_edges_deps_of [simp]: "deps_edges (deps_of ts) = series_keys ts"
  by (cases ts rule: deps_of.cases) (simp_all add: deps_edges_def many_of_def)

lemma deps_of_Many: "series_words 0 ts \<noteq> [] \<Longrightarrow> deps_of ts = ManyDeps (many_of ts)"
  by (cases ts rule: deps_of.cases) simp_all

lemma deps_of_snoc_Par [simp]: "deps_of (ts @ [Par ss]) = ManyDeps (many_of (ts @ [Par ss]))"
  by (rule deps_of_Many) (simp add: series_words_append)

lemma deps_header_deps_of:
  assumes "series_fits ts"
  shows "\<exists>h. deps_header (deps_of ts) = Some h \<and> keys_len h = of_nat (length (series_keys ts)) \<and>
    (\<forall>vec. write_series_header h vec =
       Some (vec @ header_words (length (series_keys ts)) (length (series_words 0 ts)))) \<and>
    header_encoded_len h = Some (of_nat (length (header_words (length (series_keys ts)) (length (series_words 0 ts)))
       + length (series_words 0 ts)))"
proof -
  have b: "length (series_keys ts) < spec_limit" "length (series_words 0 ts) < spec_limit" "1 < spec_limit"
    using assms by (auto simp: series_fits_def spec_limit_def)
  show ?thesis
  proof (cases "series_words 0 ts = []")
    case True
    have "deps_header (deps_of ts) = Some (Simple (of_nat (length (series_keys ts))))"
      using True b by (cases ts rule: deps_of.cases) (simp_all add: deps_header_def many_of_def)
    then show ?thesis
      using True b write_header_eq(1) [OF b(1)]
      by (simp add: keys_len_def header_encoded_len_def header_words_def)
  next
    case False
    then have "deps_of ts = ManyDeps (many_of ts)" by (rule deps_of_Many)
    then have "deps_header (deps_of ts) =
        Some (Complex (of_nat (length (series_keys ts))) (of_nat (length (series_words 0 ts))))"
      using False b by (simp add: deps_header_def many_of_def)
    moreover have "2 + length (series_words 0 ts) \<le> u32_max" using b by (simp add: spec_limit_def u32_max_def)
    ultimately show ?thesis
      using False b write_header_eq(2) [OF b(1,2)]
      by (simp add: keys_len_def header_encoded_len_def header_words_def add_u32_def)
  qed
qed

lemma write_branches_deps_of:
  "parallel_fits ss \<Longrightarrow>
     write_branches (map deps_of ss) spec edges = Some (spec @ parallel_words ss, edges @ parallel_keys ss)"
proof (induction ss arbitrary: spec edges)
  case (Cons s ss)
  note fits = parallel_fits_Cons [OF Cons.prems]
  obtain h where h: "deps_header (deps_of s) = Some h"
    "\<And>vec. write_series_header h vec =
       Some (vec @ header_words (length (series_keys s)) (length (series_words 0 s)))"
    using deps_header_deps_of fits by blast
  have "write_branches (deps_of s # ds) spec edges =
      write_branches ds (spec @ header_words (length (series_keys s)) (length (series_words 0 s)) @ series_words 0 s)
        (edges @ series_keys s)" for ds
    using h by (cases s rule: deps_of.cases) (simp_all add: many_of_def)
  with Cons fits show ?case by simp
qed simp

lemma keys_words_length: "length (keys_words n) = (if n = 0 then 0 else 1)"
  by (simp add: keys_words_def)

lemma insert_parallel_deps_of:
  assumes "length (series_keys ts) < spec_limit" "parallel_fits ss"
    and "length (series_keys ts) + length (parallel_keys ss) < spec_limit"
  shows "deps_insert_parallel (deps_of ts) (map deps_of ss) (of_nat (length (parallel_keys ss)))
           (of_nat (length (parallel_words ss))) = Some (deps_of (ts @ [Par ss]))"
proof -
  define t where "t = trailing 0 ts"
  define k where "k = length (parallel_keys ss)"
  define w where "w = length (parallel_words ss)"
  have t: "t \<le> length (series_keys ts)" using trailing_le [of 0 ts] by (simp add: t_def)
  have b: "t < spec_limit" "k < spec_limit" "w < spec_limit" "length (series_keys ts) - t < spec_limit"
    using assms t by (auto simp: k_def w_def parallel_fits_def)
  have u: "w + 3 \<le> u32_max" using b by (simp add: spec_limit_def u32_max_def)
  have n: "unat (2 + of_nat w :: 32 word) = Suc (Suc w)" "unat (3 + of_nat w :: 32 word) = Suc (Suc (Suc w))"
      "unat (1 + of_nat w :: 32 word) = Suc w"
    using unat_of_nat_u32 [of "Suc w"] unat_of_nat_u32 [of "Suc (Suc w)"] unat_of_nat_u32 [of "Suc (Suc (Suc w))"] u
    by (simp_all add: u32_max_def)
  have words: "series_words 0 (ts @ [Par ss]) =
      series_words 0 ts @ keys_words t @ [spec_word ItemParallelKeys k, spec_word ItemParallelSpecs w] @ parallel_words ss"
    by (simp add: series_words_append t_def k_def w_def)
  have many: "many_insert_parallel (many_of ts) (map deps_of ss) (of_nat k) (of_nat w) = Some (many_of (ts @ [Par ss]))"
  proof (cases "t = 0")
    case True
    have "add_u32 (of_nat w) 2 = Some (of_nat (w + 2))" using u b by (simp add: add_u32_def)
    with True b u assms show ?thesis
      by (simp add: many_insert_parallel_def many_of_def words t_def [symmetric] k_def [symmetric] item_encoded_len_def
          write_item_eq write_branches_deps_of keys_words_def w_def [symmetric] n add.commute [of _ 3] del: of_nat_diff)
  next
    case False
    have "add_u32 (of_nat w) 1 = Some (of_nat (w + 1))" using u b by (simp add: add_u32_def)
    moreover have "add_u32 (of_nat (w + 1)) 2 = Some (of_nat (w + 3))" using u b n by (simp add: add_u32_def)
    ultimately show ?thesis using False b u assms t
      by (simp add: many_insert_parallel_def many_of_def words t_def [symmetric] k_def [symmetric] item_encoded_len_def
          write_item_eq write_branches_deps_of keys_words_def w_def [symmetric] n add.commute [of _ 3] del: of_nat_diff)
  qed
  from many show ?thesis by (simp add: deps_insert_parallel_def upgrade_deps_of k_def w_def)
qed

end
