(* ===== verification/Deps_Iterate.thy ===== *)
theory Deps_Iterate
  imports Deps_Trees
begin

text \<open>
  Reading a recorded graph to its end with the iterators of \<^verbatim>\<open>iterator.rs\<close>: every node that is handed out is read as
  well, as the dependency check does. The tree comes back, so the encoding of a tree determines it, and comparing two
  encodings compares the trees.
\<close>

section \<open>Reading to the end\<close>

definition data_size :: "'r iterator_data \<Rightarrow> nat" where
  "data_size d = length (it_deps d) + length (it_specs d)"

lemma data_split_size:
  "data_split_at d ks specs = Some (a, b) \<Longrightarrow> data_size a + data_size b = data_size d"
  by (auto simp: data_split_at_def decoder_split_at_def data_size_def split: if_splits)

lemma series_next_key_size:
  "series_next_key n d = Some (Some i, it) \<Longrightarrow> (\<exists>e. i = KeyItem e) \<and> data_size (s_data it) < data_size d"
  by (auto simp: series_next_key_def next_edge_def data_size_def Let_def split: if_splits list.splits)

lemma series_next_size:
  assumes "series_next it = Some (Some i, it')"
  shows "data_size (s_data it') < data_size (s_data it) \<and>
    (\<forall>p. i = ParallelItem p \<longrightarrow> data_size (p_data p) < data_size (s_data it))"
proof (cases "keys_to_next_spec it = 0")
  case False
  then show ?thesis using assms series_next_key_size by (fastforce simp: series_next_def)
next
  case True
  obtain item specs where r: "read_item (it_specs (s_data it)) = Some (item, specs)"
    using assms True by (auto simp: series_next_def split: Option.bind_split_asm)
  show ?thesis
  proof (cases item)
    case (Inr o')
    show ?thesis
    proof (cases o')
      case None
      then show ?thesis using assms True r Inr read_item_none [of "it_specs (s_data it)" specs]
        by (auto simp: series_next_def data_size_def dest!: series_next_key_size)
    next
      case (Some x)
      then have "length specs < length (it_specs (s_data it))" using r Inr read_item_shrinks by blast
      then show ?thesis using assms True r Inr Some
        by (cases x) (fastforce simp: series_next_def data_size_def bind_eq_Some_conv
            dest!: series_next_key_size data_split_size)+
    qed
  qed (use assms True r in \<open>simp add: series_next_def\<close>)
qed

lemma parallel_next_size:
  assumes "parallel_next p = Some (Some it, p')"
  shows "data_size (s_data it) < data_size (p_data p) \<and> data_size (p_data p') < data_size (p_data p)"
proof -
  obtain header specs where r: "read_series_header (it_specs (p_data p)) = Some (header, specs)"
    using assms by (auto simp: parallel_next_def split: Option.bind_split_asm)
  obtain h where h: "header = Inr (Some h)"
    using assms r by (auto simp: parallel_next_def Let_def split: sum.split_asm option.split_asm)
  then have "length specs < length (it_specs (p_data p))" using r read_series_header_shrinks by blast
  then show ?thesis using assms r h
    by (cases h) (fastforce simp: parallel_next_def data_size_def bind_eq_Some_conv dest!: data_split_size)+
qed

function (sequential) series_items :: "'r series_iterator \<Rightarrow> 'r dep_edge sp list option"
  and parallel_items :: "'r parallel_iterator \<Rightarrow> 'r dep_edge sp list list option" where
  "series_items it =
     (case series_next it of
        None \<Rightarrow> None
      | Some (None, _) \<Rightarrow> Some []
      | Some (Some (KeyItem e), it') \<Rightarrow> map_option ((#) (Key e)) (series_items it')
      | Some (Some (ParallelItem p), it') \<Rightarrow>
          (case parallel_items p of
             None \<Rightarrow> None
           | Some ss \<Rightarrow> map_option ((#) (Par ss)) (series_items it')))"
| "parallel_items p =
     (case parallel_next p of
        None \<Rightarrow> None
      | Some (None, _) \<Rightarrow> Some []
      | Some (Some it, p') \<Rightarrow>
          (case series_items it of
             None \<Rightarrow> None
           | Some s \<Rightarrow> map_option ((#) s) (parallel_items p')))"
  by pat_completeness auto

termination
  by (relation "measure (\<lambda>x. case x of Inl it \<Rightarrow> data_size (s_data it) | Inr p \<Rightarrow> data_size (p_data p))")
     (auto dest: series_next_size parallel_next_size)

declare series_items.simps [simp del] parallel_items.simps [simp del]

definition deps_items :: "'r deps \<Rightarrow> 'r dep_edge sp list option" where
  "deps_items d =
     (case deps_iter d of AtMost e \<Rightarrow> Some (case e of None \<Rightarrow> [] | Some e \<Rightarrow> [Key e]) | Node s \<Rightarrow> series_items s)"


section \<open>The tree comes back\<close>

abbreviation series_at :: "'r dep_edge list \<Rightarrow> 32 word list \<Rightarrow> 32 word \<Rightarrow> 'r series_iterator" where
  "series_at edges specs n \<equiv> \<lparr>s_data = \<lparr>it_deps = edges, it_specs = specs\<rparr>, keys_to_next_spec = n\<rparr>"

abbreviation parallel_at :: "'r dep_edge list \<Rightarrow> 32 word list \<Rightarrow> 'r parallel_iterator" where
  "parallel_at edges specs \<equiv> \<lparr>p_data = \<lparr>it_deps = edges, it_specs = specs\<rparr>\<rparr>"

lemmas next_simps = series_next_def series_next_key_def next_edge_def data_split_at_def decoder_split_at_def

text \<open>The trailing keys.\<close>

lemma series_items_drain: "series_items (series_at es [] n) = Some (map Key es)"
  by (induction es arbitrary: n) (subst series_items.simps; simp add: next_simps)+

text \<open>Keys that a word announces.\<close>

lemma series_items_keys:
  "length es < spec_limit \<Longrightarrow>
     series_items (series_at (es @ edges) specs (of_nat (length es))) =
     map_option ((@) (map Key es)) (series_items (series_at edges specs 0))"
proof (induction es)
  case Nil then show ?case by (simp add: option.map_ident_strong)
next
  case (Cons e es)
  moreover have "(of_nat (length (e # es)) :: 32 word) \<noteq> 0" using Cons.prems by (simp del: of_nat_Suc length_Cons)
  ultimately show ?case
    by (subst series_items.simps) (cases "series_items (series_at edges specs 0)"; simp add: next_simps)
qed

lemma series_items_parallel:
  assumes "parallel_fits ss" "parallel_items (parallel_at (parallel_keys ss) (parallel_words ss)) = Some ss"
  shows "series_items (series_at (parallel_keys ss @ edges)
      (spec_word ItemParallelKeys (length (parallel_keys ss)) # spec_word ItemParallelSpecs (length (parallel_words ss)) #
       parallel_words ss @ specs) 0) = map_option ((#) (Par ss)) (series_items (series_at edges specs 0))"
  using assms by (subst series_items.simps) (simp add: next_simps read_item_eq parallel_fits_def)

lemma parallel_items_series:
  assumes "series_fits s" "series_items (series_at (series_keys s) (series_words 0 s) 0) = Some s"
  shows "parallel_items (parallel_at (series_keys s @ edges)
      (header_words (length (series_keys s)) (length (series_words 0 s)) @ series_words 0 s @ specs)) =
    map_option ((#) s) (parallel_items (parallel_at edges specs))"
  using assms
  by (subst parallel_items.simps, cases "series_words 0 s = []")
     (simp_all add: parallel_next_def header_words_def read_header_eq data_split_at_def decoder_split_at_def series_fits_def)

lemma series_items_words:
  fixes ts :: "'r dep_edge sp list" and ss :: "'r dep_edge sp list list"
  shows "length es + length (series_keys ts) < spec_limit \<Longrightarrow> length (series_words (length es) ts) < spec_limit \<Longrightarrow>
      series_items (series_at (es @ series_keys ts) (series_words (length es) ts) 0) = Some (map Key es @ ts)"
    and "parallel_fits ss \<Longrightarrow> parallel_items (parallel_at (parallel_keys ss) (parallel_words ss)) = Some ss"
proof (induction ts and ss arbitrary: es rule: series_keys_parallel_keys.induct)
  case 1
  then show ?case by (simp add: series_items_drain)
next
  case (2 e ts)
  show ?case using 2(1) [of "es @ [e]"] 2(2,3) by simp
next
  case (3 ss ts)
  have fits: "parallel_fits ss" "length (series_keys ts) < spec_limit" "length (series_words 0 ts) < spec_limit"
      "length es < spec_limit"
    using 3(3,4) by (auto simp: parallel_fits_def)
  note items = 3(2) [of "[]", simplified, OF fits(2,3)] and par = series_items_parallel [OF fits(1) 3(1) [OF fits(1)]]
  show ?case
  proof (cases "length es = 0")
    case True
    then show ?thesis using items par by (simp add: keys_words_def)
  next
    case False
    have "series_items (series_at (es @ edges) (spec_word ItemKeys (length es) # specs) 0) =
        series_items (series_at (es @ edges) specs (of_nat (length es)))" for edges and specs
      using False fits(4) by (subst (1 2) series_items.simps) (simp add: next_simps read_item_eq Let_def)
    then show ?thesis using False fits(4) items par by (simp add: keys_words_def series_items_keys)
  qed
next
  case 4
  show ?case by (subst parallel_items.simps) (simp add: parallel_next_def)
next
  case (5 s ss)
  have fits: "series_fits s" "parallel_fits ss" using parallel_fits_Cons 5(3) by auto
  then have "series_items (series_at (series_keys s) (series_words 0 s) 0) = Some s"
    using 5(1) [of "[]"] by (simp add: series_fits_def)
  from parallel_items_series [OF fits(1) this] 5(2) [OF fits(2)] show ?case by simp
qed

lemma deps_items_deps_of:
  assumes "series_fits ts" shows "deps_items (deps_of ts) = Some ts"
  using series_items_words(1) [of "[]" ts] assms
  by (cases ts rule: deps_of.cases)
     (simp_all add: deps_items_def deps_iter_def series_fits_def many_of_def series_new_def)

interpretation graph_codes: codec deps_of deps_items series_fits
  by unfold_locales (rule deps_items_deps_of)


section \<open>Comparing recorded graphs\<close>

lemma list_all_zip_map:
  "length xs = length ys \<Longrightarrow> list_all (\<lambda>(x, y). f x = g y) (zip xs ys) \<longleftrightarrow> map f xs = map g ys"
  by (induction xs ys rule: list_induct2) auto

lemma edges_eqI:
  fixes es :: "'r dep_edge list"
  shows "map edge_key es = map edge_key fs \<Longrightarrow> map edge_revision es = map edge_revision fs \<Longrightarrow> es = fs"
proof (induction es arbitrary: fs)
  case (Cons e es)
  then obtain f gs where "fs = f # gs" by (cases fs) auto
  with Cons show ?case by (cases e; cases f) auto
qed simp

text \<open>Equality of recorded graphs, as \<^verbatim>\<open>PartialEq\<close> has it, is equality.\<close>

lemma many_equal_ignoring_iff:
  "many_equal_ignoring_revisions a b \<longleftrightarrow>
     many_spec a = many_spec b \<and> trailing_deps_start a = trailing_deps_start b \<and>
     map edge_key (many_edges a) = map edge_key (many_edges b)"
  by (auto simp: many_equal_ignoring_revisions_def list_all_zip_map dest: map_eq_imp_length_eq)

lemma deps_eq_iff: "deps_eq a b \<longleftrightarrow> a = b"
proof
  assume eq: "deps_eq a b"
  show "a = b"
  proof (cases a; cases b)
    fix m n assume ab: "a = ManyDeps m" "b = ManyDeps n"
    then have k: "map edge_key (many_edges m) = map edge_key (many_edges n)"
        "many_spec m = many_spec n" "trailing_deps_start m = trailing_deps_start n"
      using eq by (auto simp: deps_eq_def many_equal_ignoring_iff)
    moreover have "map edge_revision (many_edges m) = map edge_revision (many_edges n)"
      using eq ab map_eq_imp_length_eq [OF k(1)]
      by (simp add: deps_eq_def deps_edges_def list_all_zip_map)
    ultimately show ?thesis using edges_eqI ab by (cases m; cases n) fastforce
  qed (use eq in \<open>auto simp: deps_eq_def deps_edges_def\<close>)
next
  have "equal_ignoring_revisions b b" by (cases b) (simp_all add: many_equal_ignoring_iff)
  moreover assume "a = b"
  ultimately show "deps_eq a b" by (simp add: deps_eq_def list_all_zip_map)
qed

text \<open>The shape of a tree determines its words.\<close>

lemma series_keys_map: "series_keys (map (map_sp f) ts) = map f (series_keys ts)"
  and parallel_keys_map: "parallel_keys (map (map (map_sp f)) ss) = map f (parallel_keys ss)"
  by (induction ts and ss rule: series_keys_parallel_keys.induct) auto

lemma series_words_map: "series_words n (map (map_sp f) ts) = series_words n ts"
  and parallel_words_map: "parallel_words (map (map (map_sp f)) ss) = parallel_words ss"
  by (induction n ts and ss rule: series_words_parallel_words.induct) (auto simp: series_keys_map parallel_keys_map)

lemma trailing_map: "trailing n (map (map_sp f) ts) = trailing n ts"
  by (induction n ts rule: trailing.induct) auto

lemmas shape_map = series_keys_map series_words_map trailing_map

text \<open>The same graph with other edges; with the revisions forgotten.\<close>

definition deps_map :: "('r dep_edge \<Rightarrow> 'q dep_edge) \<Rightarrow> 'r deps \<Rightarrow> 'q deps" where
  "deps_map f d =
     (case d of
        NoDeps \<Rightarrow> NoDeps
      | OneDep e \<Rightarrow> OneDep (f e)
      | ManyDeps m \<Rightarrow> ManyDeps \<lparr>many_edges = map f (many_edges m), many_spec = many_spec m,
                               trailing_deps_start = trailing_deps_start m\<rparr>)"

definition forget :: "'r dep_edge \<Rightarrow> unit dep_edge" where
  "forget e = \<lparr>edge_key = edge_key e, edge_revision = ()\<rparr>"

lemma deps_map_deps_of: "deps_map f (deps_of ts) = deps_of (map (map_sp f) ts)"
proof -
  have "many_of (map (map_sp f) ts) =
      \<lparr>many_edges = map f (many_edges (many_of ts)), many_spec = many_spec (many_of ts),
       trailing_deps_start = trailing_deps_start (many_of ts)\<rparr>"
    by (simp add: many_of_def shape_map)
  then show ?thesis by (cases ts rule: deps_of.cases) (simp_all add: deps_map_def)
qed

lemma forget_eq: "forget e = forget f \<longleftrightarrow> edge_key e = edge_key f"
  by (simp add: forget_def)

lemma map_forget:
  fixes es :: "'r dep_edge list" and fs :: "'q dep_edge list"
  shows "map forget es = map forget fs \<longleftrightarrow> map edge_key es = map edge_key fs"
  using list_all_zip_map [of es fs forget forget] list_all_zip_map [of es fs edge_key edge_key]
  by (auto simp: forget_eq dest: map_eq_imp_length_eq)

lemma equal_ignoring_iff: "equal_ignoring_revisions a b \<longleftrightarrow> deps_map forget a = deps_map forget b"
  by (cases a; cases b) (auto simp: deps_map_def many_equal_ignoring_iff map_forget forget_eq)

lemma map_sp_forget:
  "map (map_sp forget) ts = map (map_sp (\<lambda>k. \<lparr>edge_key = k, edge_revision = ()\<rparr>)) (map (map_sp edge_key) ts)"
  "map (map_sp edge_key) (map (map_sp forget) ts) = map (map_sp edge_key) ts"
  by (simp_all add: sp.map_comp comp_def forget_def [abs_def])

lemma equal_ignoring_deps_of:
  assumes "series_fits ts" "series_fits us"
  shows "equal_ignoring_revisions (deps_of ts) (deps_of us) \<longleftrightarrow> map (map_sp edge_key) ts = map (map_sp edge_key) us"
proof -
  have "series_fits (map (map_sp forget) ts)" "series_fits (map (map_sp forget) us)"
    using assms by (simp_all add: series_fits_def shape_map)
  then have "equal_ignoring_revisions (deps_of ts) (deps_of us) \<longleftrightarrow> map (map_sp forget) ts = map (map_sp forget) us"
    by (simp add: equal_ignoring_iff deps_map_deps_of graph_codes.encode_inject)
  also have "\<dots> \<longleftrightarrow> map (map_sp edge_key) ts = map (map_sp edge_key) us"
    using map_sp_forget [of ts] map_sp_forget [of us] by metis
  finally show ?thesis .
qed

end
