(* ===== verification/Deps_Tracker.thy ===== *)
theory Deps_Tracker
  imports Deps_Iterate
begin

text \<open>
  Recording the dependencies of a computation: \<^verbatim>\<open>dice/dice/src/deps.rs\<close>, the branches of a parallel computation
  (\<^verbatim>\<open>epoch/branches.rs\<close>) and the contexts that record (\<^verbatim>\<open>epoch/ctx.rs\<close>), with \<^verbatim>\<open>DiceValidity\<close> of \<^verbatim>\<open>value.rs\<close> and
  \<^verbatim>\<open>InvalidationSources\<close> of \<^verbatim>\<open>api/invalidation_tracking.rs\<close>. Every branch of a parallel computation has a context, and
  so a tracker, of its own; how the branches interleave does not show in it.
\<close>

section \<open>Validity and invalidation sources\<close>

datatype validity = ValidValue | TransientValue

definition validity_and :: "validity \<Rightarrow> validity \<Rightarrow> validity" where
  "validity_and self other = (if other = TransientValue then TransientValue else self)"

record invalidation_sources =
  src_normal :: "version option"
  src_high :: "version option"

datatype source_priority = Ignored | NormalPriority | HighPriority

definition sources_NONE :: invalidation_sources where
  "sources_NONE = \<lparr>src_normal = None, src_high = None\<rparr>"

definition sources_source :: "source_priority \<Rightarrow> version \<Rightarrow> invalidation_sources" where
  "sources_source priority v =
     (case priority of
        Ignored \<Rightarrow> sources_NONE
      | NormalPriority \<Rightarrow> \<lparr>src_normal = Some v, src_high = None\<rparr>
      | HighPriority \<Rightarrow> \<lparr>src_normal = Some v, src_high = Some v\<rparr>)"

fun later :: "version option \<Rightarrow> version option \<Rightarrow> version option" where
  "later (Some a) (Some b) = Some (if cmp_on_chain a b = Less then b else a)"
| "later (Some a) None = Some a"
| "later None b = b"

definition sources_merge :: "invalidation_sources \<Rightarrow> invalidation_sources \<Rightarrow> invalidation_sources" where
  "sources_merge a b =
     \<lparr>src_normal = later (src_normal a) (src_normal b), src_high = later (src_high a) (src_high b)\<rparr>"


section \<open>Recorded dependencies\<close>

type_synonym read_edge = "revision option dep_edge"

record recorded_deps =
  rd_deps :: "revision option deps"
  rd_validity :: validity
  rd_sources :: invalidation_sources

definition rd_new :: recorded_deps where
  "rd_new = \<lparr>rd_deps = NoDeps, rd_validity = ValidValue, rd_sources = sources_NONE\<rparr>"

definition rd_update_sources :: "recorded_deps \<Rightarrow> invalidation_sources \<Rightarrow> recorded_deps" where
  "rd_update_sources d s = d\<lparr>rd_sources := sources_merge (rd_sources d) s\<rparr>"

definition rd_record :: "recorded_deps \<Rightarrow> read_edge \<Rightarrow> validity \<Rightarrow> invalidation_sources \<Rightarrow> recorded_deps" where
  "rd_record d e v s =
     rd_update_sources
       (d\<lparr>rd_deps := deps_insert (rd_deps d) e, rd_validity := validity_and (rd_validity d) v\<rparr>) s"

text \<open>The first loop of \<^verbatim>\<open>insert_parallel\<close>.\<close>

fun sum_branches ::
  "recorded_deps \<Rightarrow> recorded_deps list \<Rightarrow> 32 word \<Rightarrow> 32 word \<Rightarrow> (recorded_deps \<times> 32 word \<times> 32 word) option" where
  "sum_branches d [] new_keys new_specs = Some (d, new_keys, new_specs)"
| "sum_branches d (b # bs) new_keys new_specs = do {
     let d = d\<lparr>rd_validity := validity_and (rd_validity d) (rd_validity b)\<rparr>;
     let d = rd_update_sources d (rd_sources b);
     h \<leftarrow> deps_header (rd_deps b);
     new_keys \<leftarrow> add_u32 new_keys (keys_len h);
     l \<leftarrow> header_encoded_len h;
     new_specs \<leftarrow> add_u32 new_specs l;
     sum_branches d bs new_keys new_specs }"

definition rd_insert_parallel :: "recorded_deps \<Rightarrow> recorded_deps list \<Rightarrow> recorded_deps option" where
  "rd_insert_parallel d parallel = do {
     (d, new_keys, new_specs) \<leftarrow> sum_branches d parallel 0 0;
     if new_keys = 0 then Some d
     else map_option (\<lambda>ds. d\<lparr>rd_deps := ds\<rparr>)
            (deps_insert_parallel (rd_deps d) (map rd_deps parallel) new_keys new_specs) }"


section \<open>Trackers\<close>

text \<open>
  A tracker is what it has recorded and the branches of the parallel computation that is going on, if any: for each, whether it was
  driven to completion, and its tracker.
\<close>

datatype tracker = Tracker (tr_deps: recorded_deps) (curr_parallel: "(bool \<times> tracker) list option")

definition tracker_new :: "invalidation_sources \<Rightarrow> tracker" where
  "tracker_new s = Tracker (rd_new\<lparr>rd_sources := s\<rparr>) None"

fun collect_deps :: "tracker \<Rightarrow> recorded_deps option"
  and take_deps :: "(bool \<times> tracker) list \<Rightarrow> recorded_deps list option" where
  "collect_deps (Tracker d None) = Some d"
| "collect_deps (Tracker d (Some branches)) = take_deps branches \<bind> rd_insert_parallel d"
| "take_deps [] = Some []"
| "take_deps ((completed, t) # es) =
     (if completed then do { d \<leftarrow> collect_deps t; ds \<leftarrow> take_deps es; Some (d # ds) } else take_deps es)"

definition flatten_parallel :: "tracker \<Rightarrow> tracker option" where
  "flatten_parallel t = map_option (\<lambda>d. Tracker d None) (collect_deps t)"

definition tracker_record :: "tracker \<Rightarrow> read_edge \<Rightarrow> validity \<Rightarrow> invalidation_sources \<Rightarrow> tracker option" where
  "tracker_record t e v s = do {
     t \<leftarrow> flatten_parallel t;
     Some (Tracker (rd_record (tr_deps t) e v s) (curr_parallel t)) }"

definition tracker_update_sources :: "tracker \<Rightarrow> invalidation_sources \<Rightarrow> tracker" where
  "tracker_update_sources t s = Tracker (rd_update_sources (tr_deps t) s) (curr_parallel t)"

definition tracker_sources :: "tracker \<Rightarrow> (invalidation_sources \<times> tracker) option" where
  "tracker_sources t = map_option (\<lambda>t. (rd_sources (tr_deps t), t)) (flatten_parallel t)"

definition push_parallel :: "tracker \<Rightarrow> (bool \<times> tracker) list \<Rightarrow> tracker option" where
  "push_parallel t arena = do {
     t \<leftarrow> flatten_parallel t;
     if curr_parallel t = None then Some (Tracker (tr_deps t) (Some arena)) else None }"

text \<open>The tracker shared by the contexts of a linear recompute, and the calls on it in the order they take its lock.\<close>

definition linear_new :: "invalidation_sources \<Rightarrow> recorded_deps" where
  "linear_new s = rd_new\<lparr>rd_sources := s\<rparr>"

datatype linear_call =
    LinearRecord read_edge validity invalidation_sources
  | LinearUpdate invalidation_sources

fun linear_step :: "linear_call \<Rightarrow> recorded_deps \<Rightarrow> recorded_deps" where
  "linear_step (LinearRecord e v s) d = rd_record d e v s"
| "linear_step (LinearUpdate s) d = rd_update_sources d s"


section \<open>Contexts\<close>

text \<open>
  What a computation does with its context: it reads a key, asks for its sources, starts branches (with whether each is driven to
  completion, and what it does), runs a computation as a task of its own, or runs a linear recompute.
\<close>

datatype ctx_step =
    Read read_edge validity invalidation_sources
  | AskSources
  | Branches "(bool \<times> ctx_step list) list"
  | Spawned "ctx_step list"
  | LinearRecompute "linear_call list"

text \<open>The ends of \<^verbatim>\<open>spawned\<close> and \<^verbatim>\<open>with_linear_recompute\<close>: the edges one by one, with the validity of all.\<close>

fun record_edges :: "tracker \<Rightarrow> read_edge list \<Rightarrow> validity \<Rightarrow> tracker option" where
  "record_edges t [] v = Some t"
| "record_edges t (e # es) v = do { t \<leftarrow> tracker_record t e v sources_NONE; record_edges t es v }"

definition absorb :: "tracker \<Rightarrow> recorded_deps \<Rightarrow> tracker option" where
  "absorb t d = do {
     t \<leftarrow> record_edges t (deps_edges (rd_deps d)) (rd_validity d);
     Some (tracker_update_sources t (rd_sources d)) }"

definition with_linear_recompute :: "tracker \<Rightarrow> linear_call list \<Rightarrow> tracker option" where
  "with_linear_recompute t calls = absorb t (fold linear_step calls (linear_new sources_NONE))"

fun run_ctx :: "tracker \<Rightarrow> ctx_step list \<Rightarrow> tracker option"
  and run_branches :: "invalidation_sources \<Rightarrow> (bool \<times> ctx_step list) list \<Rightarrow> (bool \<times> tracker) list option" where
  "run_ctx t [] = Some t"
| "run_ctx t (Read e v s # steps) = do { t \<leftarrow> tracker_record t e v s; run_ctx t steps }"
| "run_ctx t (AskSources # steps) = do { (_, t) \<leftarrow> tracker_sources t; run_ctx t steps }"
| "run_ctx t (Branches bs # steps) = do {
     (s, t) \<leftarrow> tracker_sources t;
     arena \<leftarrow> run_branches s bs;
     t \<leftarrow> push_parallel t arena;
     run_ctx t steps }"
| "run_ctx t (Spawned inner # steps) = do {
     t' \<leftarrow> run_ctx (tracker_new sources_NONE) inner;
     d \<leftarrow> collect_deps t';
     t \<leftarrow> absorb t d;
     run_ctx t steps }"
| "run_ctx t (LinearRecompute calls # steps) = do { t \<leftarrow> with_linear_recompute t calls; run_ctx t steps }"
| "run_branches s [] = Some []"
| "run_branches s ((completed, steps) # bs) = do {
     t \<leftarrow> run_ctx (tracker_new s) steps;
     arena \<leftarrow> run_branches s bs;
     Some ((completed, t) # arena) }"

end
