(* ===== verification/Deps_Recorded.thy ===== *)
theory Deps_Recorded
  imports Deps_Tracker
begin

text \<open>
  What a computation has recorded when it ends: the series-parallel tree of its reads, and the reads of its completed
  branches decide the validity and the invalidation sources. Sizes below the limit of the encoding never fail an assertion.
\<close>

section \<open>Merging sources\<close>

lemma later_None [simp]: "later a None = a"
  by (cases a) auto

lemma cmp_total: "cmp_on_chain a b = Less \<or> a = b \<or> cmp_on_chain b a = Less"
  by (cases a; cases b) (auto simp: cmp_on_chain_lex)

lemma cmp_asym: "cmp_on_chain a b = Less \<Longrightarrow> cmp_on_chain b a \<noteq> Less"
  by (auto simp: cmp_on_chain_lex)

lemma cmp_trans: "cmp_on_chain a b = Less \<Longrightarrow> cmp_on_chain b c = Less \<Longrightarrow> cmp_on_chain a c = Less"
  by (auto simp: cmp_on_chain_lex)

lemma later_idem: "later a a = a"
  by (cases a) auto

lemma later_commute: "later a b = later b a"
proof (cases a; cases b)
  fix x y assume "a = Some x" "b = Some y"
  then show ?thesis using cmp_total [of x y] cmp_asym [of x y] by auto
qed auto

lemma later_assoc: "later (later a b) c = later a (later b c)"
proof (cases a; cases b; cases c)
  fix x y z assume "a = Some x" "b = Some y" "c = Some z"
  then show ?thesis
    using cmp_trans [of x y z] cmp_trans [of y z x] cmp_trans [of z x y] cmp_trans [of x z y] cmp_trans [of y x z]
      cmp_total [of x y] cmp_total [of y z] cmp_total [of x z] cmp_asym [of x y] by auto
qed auto

interpretation source_order: semilattice_neutr sources_merge sources_NONE
  by unfold_locales
     (auto simp: sources_merge_def sources_NONE_def later_idem later_assoc intro: later_commute)

lemmas merge_laws = source_order.idem source_order.commute source_order.assoc

lemmas merge_NONE [simp] = source_order.right_neutral source_order.left_neutral

definition merge_all :: "invalidation_sources \<Rightarrow> invalidation_sources list \<Rightarrow> invalidation_sources" where
  "merge_all s xs = foldl sources_merge s xs"

lemma merge_all_simps [simp]:
  "merge_all s [] = s" "merge_all s (x # xs) = merge_all (sources_merge s x) xs"
  "merge_all s (xs @ ys) = merge_all (merge_all s xs) ys"
  by (simp_all add: merge_all_def)

lemma merge_merge_all: "sources_merge a (merge_all b xs) = merge_all (sources_merge a b) xs"
  by (induction xs arbitrary: b) (simp_all add: merge_laws(3) [symmetric])

lemma merge_merge_all_left: "sources_merge (merge_all b xs) a = merge_all (sources_merge b a) xs"
  by (metis merge_laws(2) merge_merge_all)

lemma merge_all_again: "sources_merge s (merge_all s xs) = merge_all s xs"
  by (simp add: merge_merge_all merge_laws)


section \<open>What is recorded\<close>

fun linear_reads :: "linear_call list \<Rightarrow> (read_edge \<times> validity) list" where
  "linear_reads [] = []"
| "linear_reads (LinearRecord e v s # cs) = (e, v) # linear_reads cs"
| "linear_reads (LinearUpdate s # cs) = linear_reads cs"

fun linear_sources :: "linear_call list \<Rightarrow> invalidation_sources list" where
  "linear_sources [] = []"
| "linear_sources (LinearRecord e v s # cs) = s # linear_sources cs"
| "linear_sources (LinearUpdate s # cs) = s # linear_sources cs"

text \<open>The reads of a computation and of its completed branches, the sources they report, and the tree they form.\<close>

fun ctx_reads :: "ctx_step list \<Rightarrow> (read_edge \<times> validity) list"
  and branch_reads :: "(bool \<times> ctx_step list) list \<Rightarrow> (read_edge \<times> validity) list" where
  "ctx_reads [] = []"
| "ctx_reads (Read e v s # steps) = (e, v) # ctx_reads steps"
| "ctx_reads (AskSources # steps) = ctx_reads steps"
| "ctx_reads (Branches bs # steps) = branch_reads bs @ ctx_reads steps"
| "ctx_reads (Spawned inner # steps) = ctx_reads inner @ ctx_reads steps"
| "ctx_reads (LinearRecompute calls # steps) = linear_reads calls @ ctx_reads steps"
| "branch_reads [] = []"
| "branch_reads ((completed, steps) # bs) = (if completed then ctx_reads steps else []) @ branch_reads bs"

fun ctx_sources :: "ctx_step list \<Rightarrow> invalidation_sources list"
  and branch_sources :: "(bool \<times> ctx_step list) list \<Rightarrow> invalidation_sources list" where
  "ctx_sources [] = []"
| "ctx_sources (Read e v s # steps) = s # ctx_sources steps"
| "ctx_sources (AskSources # steps) = ctx_sources steps"
| "ctx_sources (Branches bs # steps) = branch_sources bs @ ctx_sources steps"
| "ctx_sources (Spawned inner # steps) = ctx_sources inner @ ctx_sources steps"
| "ctx_sources (LinearRecompute calls # steps) = linear_sources calls @ ctx_sources steps"
| "branch_sources [] = []"
| "branch_sources ((completed, steps) # bs) = (if completed then ctx_sources steps else []) @ branch_sources bs"

definition serial :: "'e list \<Rightarrow> 'e sp list" where
  "serial es = map Key es"

definition parallel_node :: "'e sp list list \<Rightarrow> 'e sp list" where
  "parallel_node ss = (if parallel_keys ss = [] then [] else [Par ss])"

fun ctx_tree :: "ctx_step list \<Rightarrow> read_edge sp list"
  and branch_trees :: "(bool \<times> ctx_step list) list \<Rightarrow> read_edge sp list list" where
  "ctx_tree [] = []"
| "ctx_tree (Read e v s # steps) = Key e # ctx_tree steps"
| "ctx_tree (AskSources # steps) = ctx_tree steps"
| "ctx_tree (Branches bs # steps) = parallel_node (branch_trees bs) @ ctx_tree steps"
| "ctx_tree (Spawned inner # steps) = serial (series_keys (ctx_tree inner)) @ ctx_tree steps"
| "ctx_tree (LinearRecompute calls # steps) = serial (map fst (linear_reads calls)) @ ctx_tree steps"
| "branch_trees [] = []"
| "branch_trees ((completed, steps) # bs) = (if completed then ctx_tree steps # branch_trees bs else branch_trees bs)"

text \<open>An upper bound of the edges and of the words it takes to record a computation.\<close>

fun ctx_weight :: "ctx_step list \<Rightarrow> nat" and branch_weight :: "(bool \<times> ctx_step list) list \<Rightarrow> nat" where
  "ctx_weight [] = 0"
| "ctx_weight (Read e v s # steps) = 1 + ctx_weight steps"
| "ctx_weight (AskSources # steps) = ctx_weight steps"
| "ctx_weight (Branches bs # steps) = 3 + branch_weight bs + ctx_weight steps"
| "ctx_weight (Spawned inner # steps) = ctx_weight inner + ctx_weight steps"
| "ctx_weight (LinearRecompute calls # steps) = length calls + ctx_weight steps"
| "branch_weight [] = 0"
| "branch_weight ((completed, steps) # bs) = 2 + ctx_weight steps + branch_weight bs"

lemma serial_simps [simp]:
  "serial [] = []" "serial (e # es) = Key e # serial es"
  "series_keys (serial es) = es" "series_words n (serial es) = []" "trailing n (serial es) = n + length es"
proof -
  show "trailing n (serial es) = n + length es" by (induction es arbitrary: n) (auto simp: serial_def)
qed (simp_all add: serial_def)

lemma series_keys_node [simp]: "series_keys (parallel_node ss) = parallel_keys ss"
  by (simp add: parallel_node_def)

lemma ctx_tree_reads: "series_keys (ctx_tree steps) = map fst (ctx_reads steps)"
  and branch_trees_reads: "parallel_keys (branch_trees bs) = map fst (branch_reads bs)"
  by (induction steps and bs rule: ctx_reads_branch_reads.induct) auto

lemma linear_reads_length: "length (linear_reads calls) \<le> length calls"
  by (induction calls rule: linear_reads.induct) auto

lemma ctx_keys_weight: "length (series_keys (ctx_tree steps)) \<le> ctx_weight steps"
  and branch_keys_weight: "length (parallel_keys (branch_trees bs)) \<le> branch_weight bs"
proof (induction steps and bs rule: ctx_weight_branch_weight.induct)
  case (6 calls steps) then show ?case using linear_reads_length [of calls] by simp
qed auto

lemma ctx_words_weight: "length (series_words n (ctx_tree steps)) \<le> ctx_weight steps"
  and branch_words_weight: "length (parallel_words (branch_trees bs)) \<le> branch_weight bs"
proof (induction steps and bs arbitrary: n rule: ctx_weight_branch_weight.induct)
  case (4 bs steps)
  have "length (series_words n (parallel_node (branch_trees bs))) \<le> 3 + branch_weight bs"
    using 4(1) by (simp add: parallel_node_def keys_words_def)
  with 4(2) show ?case by (simp add: series_words_append add_mono)
next
  case (8 completed steps bs)
  have "length (header_words (length (series_keys (ctx_tree steps))) (length (series_words 0 (ctx_tree steps)))) \<le> 2"
    by (simp add: header_words_length)
  with 8(1) [of 0] 8(2) show ?case by simp
qed (auto simp: series_words_append intro: le_SucI trans_le_add2)


section \<open>Recording keeps the tree\<close>

definition validity_all :: "validity \<Rightarrow> validity list \<Rightarrow> validity" where
  "validity_all v vs = (if TransientValue \<in> set vs then TransientValue else v)"

lemma validity_all_simps [simp]:
  "validity_all v [] = v" "validity_all v (x # xs) = validity_all (validity_and v x) xs"
  "validity_all v (xs @ ys) = validity_all (validity_all v xs) ys"
  by (auto simp: validity_all_def validity_and_def)

lemma validity_and_all: "validity_and a (validity_all ValidValue xs) = validity_all a xs"
  by (auto simp: validity_all_def validity_and_def intro: validity.exhaust)

abbreviation rd_of :: "read_edge sp list \<Rightarrow> validity \<Rightarrow> invalidation_sources \<Rightarrow> recorded_deps" where
  "rd_of ts v s \<equiv> \<lparr>rd_deps = deps_of ts, rd_validity = v, rd_sources = s\<rparr>"

lemma add_u32_fits: "a + b < spec_limit \<Longrightarrow> add_u32 (of_nat a) (of_nat b) = Some (of_nat (a + b))"
  by (simp add: add_u32_def spec_limit_u32)

lemma sum_branches_rd_of:
  assumes "k + length (parallel_keys (map fst L)) < spec_limit" "w + length (parallel_words (map fst L)) < spec_limit"
  shows "sum_branches d (map (\<lambda>(ts, v, s). rd_of ts v s) L) (of_nat k) (of_nat w) =
    Some (d\<lparr>rd_validity := validity_all (rd_validity d) (map (fst \<circ> snd) L),
            rd_sources := merge_all (rd_sources d) (map (snd \<circ> snd) L)\<rparr>,
          of_nat (k + length (parallel_keys (map fst L))), of_nat (w + length (parallel_words (map fst L))))"
  using assms
proof (induction L arbitrary: d k w)
  case (Cons b L)
  obtain ts v s where b: "b = (ts, v, s)" by (cases b)
  let ?k = "length (series_keys ts)" and ?w = "length (series_words 0 ts)"
  let ?h = "length (header_words ?k ?w)"
  have "series_fits ts" using Cons.prems by (auto simp: b series_fits_def)
  from deps_header_deps_of [OF this] obtain h where h: "deps_header (deps_of ts) = Some h"
      "keys_len h = of_nat ?k" "header_encoded_len h = Some (of_nat (?h + ?w))" by blast
  have "add_u32 (of_nat k) (of_nat ?k) = Some (of_nat (k + ?k))"
      "add_u32 (of_nat w) (of_nat (?h + ?w)) = Some (of_nat (w + (?h + ?w)))"
    using Cons.prems by (intro add_u32_fits; simp add: b)+
  moreover note Cons.IH [of "k + ?k" "w + (?h + ?w)"] Cons.prems
  ultimately show ?case using h
    by (simp add: b rd_update_sources_def del: of_nat_add) (simp add: add.assoc)
qed simp

lemma rd_insert_parallel_rd_of:
  assumes "parallel_fits (map fst L)" "length (series_keys ts) + length (parallel_keys (map fst L)) < spec_limit"
  shows "rd_insert_parallel (rd_of ts v s) (map (\<lambda>(ts, v, s). rd_of ts v s) L) =
    Some (rd_of (ts @ parallel_node (map fst L)) (validity_all v (map (fst \<circ> snd) L)) (merge_all s (map (snd \<circ> snd) L)))"
proof -
  have fits: "length (parallel_keys (map fst L)) < spec_limit" "length (parallel_words (map fst L)) < spec_limit"
    using assms(1) by (auto simp: parallel_fits_def)
  have ds: "map rd_deps (map (\<lambda>(ts, v, s). rd_of ts v s) L) = map deps_of (map fst L)" by auto
  have sum: "sum_branches (rd_of ts v s) (map (\<lambda>(ts, v, s). rd_of ts v s) L) 0 0 =
      Some (rd_of ts (validity_all v (map (fst \<circ> snd) L)) (merge_all s (map (snd \<circ> snd) L)),
        of_nat (length (parallel_keys (map fst L))), of_nat (length (parallel_words (map fst L))))"
    using sum_branches_rd_of [of 0 L 0 "rd_of ts v s"] fits by simp
  show ?thesis
  proof (cases "parallel_keys (map fst L) = []")
    case True
    with sum show ?thesis by (simp add: rd_insert_parallel_def parallel_node_def)
  next
    case False
    with sum fits ds insert_parallel_deps_of [of ts "map fst L"] assms show ?thesis
      by (simp add: rd_insert_parallel_def parallel_node_def del: map_map)
  qed
qed

text \<open>Sources that are merged before a parallel node is flattened are merged after.\<close>

lemma sum_branches_update:
  "sum_branches (rd_update_sources d x) bs k w =
     map_option (\<lambda>(d, k, w). (rd_update_sources d x, k, w)) (sum_branches d bs k w)"
proof (induction bs arbitrary: d k w)
  case (Cons b bs)
  have "rd_update_sources ((rd_update_sources d x)\<lparr>rd_validity := v\<rparr>) s =
      rd_update_sources (rd_update_sources (d\<lparr>rd_validity := v\<rparr>) s) x" for v s
    by (simp add: rd_update_sources_def) (metis merge_laws(2,3))
  moreover have "rd_validity (rd_update_sources d x) = rd_validity d" by (simp add: rd_update_sources_def)
  ultimately show ?case by (simp add: Cons.IH Let_def split: Option.bind_split)
qed simp

lemma rd_insert_parallel_update:
  "rd_insert_parallel (rd_update_sources d x) ds = map_option (\<lambda>d. rd_update_sources d x) (rd_insert_parallel d ds)"
proof -
  have "rd_deps (rd_update_sources a x) = rd_deps a"
    "(rd_update_sources a x)\<lparr>rd_deps := y\<rparr> = rd_update_sources (a\<lparr>rd_deps := y\<rparr>) x" for a y
    by (simp_all add: rd_update_sources_def)
  then show ?thesis
    by (cases "sum_branches d ds 0 0")
       (auto simp: rd_insert_parallel_def sum_branches_update option.map_comp comp_def)
qed

lemma collect_update: "collect_deps (tracker_update_sources t x) = map_option (\<lambda>d. rd_update_sources d x) (collect_deps t)"
proof (cases t)
  case (Tracker d p)
  then show ?thesis
    by (cases p; cases "take_deps (the p)") (simp_all add: tracker_update_sources_def rd_insert_parallel_update)
qed

lemma tracker_record_rd_of:
  assumes "collect_deps t = Some (rd_of ts v s)"
  shows "\<exists>t'. tracker_record t e v' s' = Some t' \<and>
    collect_deps t' = Some (rd_of (ts @ [Key e]) (validity_and v v') (sources_merge s s'))"
  using assms
  by (simp add: tracker_record_def flatten_parallel_def rd_record_def rd_update_sources_def deps_insert_deps_of)

lemma record_edges_rd_of:
  "collect_deps t = Some (rd_of ts v s) \<Longrightarrow>
   \<exists>t'. record_edges t es v' = Some t' \<and>
     collect_deps t' = Some (rd_of (ts @ serial es) (if es = [] then v else validity_and v v') s)"
proof (induction es arbitrary: t ts v)
  case (Cons e es)
  from tracker_record_rd_of [OF Cons.prems] obtain t1 where t1: "tracker_record t e v' sources_NONE = Some t1"
      "collect_deps t1 = Some (rd_of (ts @ [Key e]) (validity_and v v') s)" by fastforce
  moreover have "validity_and (validity_and v v') v' = validity_and v v'" by (simp add: validity_and_def)
  ultimately show ?case using Cons.IH [OF t1(2)] by (auto split: if_splits)
qed simp

lemma absorb_rd_of:
  assumes "collect_deps t = Some (rd_of ts v s)" "deps_edges (rd_deps d) = [] \<Longrightarrow> rd_validity d = ValidValue"
  shows "\<exists>t'. absorb t d = Some t' \<and> collect_deps t' =
    Some (rd_of (ts @ serial (deps_edges (rd_deps d))) (validity_and v (rd_validity d)) (sources_merge s (rd_sources d)))"
  using record_edges_rd_of [OF assms(1), of "deps_edges (rd_deps d)" "rd_validity d"] assms(2)
  by (fastforce simp: absorb_def collect_update rd_update_sources_def validity_and_def)

lemma linear_rd_of:
  "fold linear_step calls (rd_of ts v s) =
     rd_of (ts @ serial (map fst (linear_reads calls))) (validity_all v (map snd (linear_reads calls)))
       (merge_all s (linear_sources calls))"
  by (induction calls arbitrary: ts v s rule: linear_reads.induct)
     (simp_all add: rd_record_def rd_update_sources_def deps_insert_deps_of)

text \<open>What the completed branches hand over, started with the sources \<open>s\<close>.\<close>

definition branch_result ::
  "invalidation_sources \<Rightarrow> ctx_step list \<Rightarrow> read_edge sp list \<times> validity \<times> invalidation_sources" where
  "branch_result s steps =
     (ctx_tree steps, validity_all ValidValue (map snd (ctx_reads steps)), merge_all s (ctx_sources steps))"

definition branch_results ::
  "invalidation_sources \<Rightarrow> (bool \<times> ctx_step list) list \<Rightarrow> (read_edge sp list \<times> validity \<times> invalidation_sources) list" where
  "branch_results s bs = map (branch_result s) (map snd (filter fst bs))"

lemma branch_results_simps [simp]:
  "branch_results s [] = []"
  "branch_results s ((c, steps) # bs) = (if c then [branch_result s steps] else []) @ branch_results s bs"
  by (simp_all add: branch_results_def)

lemma branch_results_trees: "map fst (branch_results s bs) = branch_trees bs"
  by (induction bs) (auto simp: branch_result_def)

lemma branch_results_validity:
  "validity_all v (map (fst \<circ> snd) (branch_results s bs)) = validity_all v (map snd (branch_reads bs))"
  by (induction bs arbitrary: v) (auto simp: branch_result_def validity_and_all)

lemma branch_results_sources:
  "sources_merge s' s = s' \<Longrightarrow>
     merge_all s' (map (snd \<circ> snd) (branch_results s bs)) = merge_all s' (branch_sources bs)"
proof (induction bs arbitrary: s')
  case (Cons b bs)
  obtain c steps where b: "b = (c, steps)" by (cases b)
  have "sources_merge (merge_all s' xs) s = merge_all s' xs" for xs
    using Cons.prems by (simp add: merge_merge_all_left)
  with Cons show ?case by (simp add: b branch_result_def merge_merge_all)
qed simp

lemma flatten_rd_of: "collect_deps t = Some d \<Longrightarrow> flatten_parallel t = Some (Tracker d None)"
  by (simp add: flatten_parallel_def)

lemma collect_branches:
  assumes "take_deps arena = Some (map (\<lambda>(ts, v, s). rd_of ts v s) (branch_results s bs))"
    and "branch_weight bs < spec_limit" "length (series_keys ts) + branch_weight bs < spec_limit"
  shows "collect_deps (Tracker (rd_of ts v s) (Some arena)) = Some (rd_of (ts @ parallel_node (branch_trees bs))
      (validity_all v (map snd (branch_reads bs))) (merge_all s (branch_sources bs)))"
proof -
  have keys: "length (parallel_keys (branch_trees bs)) \<le> branch_weight bs" by (rule branch_keys_weight)
  have "parallel_fits (map fst (branch_results s bs))"
    using assms(2) keys branch_words_weight [of bs] by (simp add: parallel_fits_def branch_results_trees)
  then show ?thesis
    using assms keys
    by (simp add: rd_insert_parallel_rd_of branch_results_trees branch_results_validity branch_results_sources merge_laws)
qed

text \<open>A computation that ran apart adds its reads one by one; it is transient only if it has read something.\<close>

lemma absorb_apart:
  assumes "collect_deps t = Some (rd_of ts v s)" "series_keys us = map fst reads"
  shows "\<exists>t'. absorb t (rd_of us (validity_all ValidValue (map snd reads)) (merge_all sources_NONE xs)) = Some t' \<and>
    collect_deps t' = Some (rd_of (ts @ serial (map fst reads)) (validity_all v (map snd reads)) (merge_all s xs))"
  using absorb_rd_of [OF assms(1), of "rd_of us (validity_all ValidValue (map snd reads)) (merge_all sources_NONE xs)"] assms(2)
  by (auto simp: validity_and_all merge_merge_all)

lemma collect_new: "collect_deps (tracker_new s) = Some (rd_of [] ValidValue s)"
  by (simp add: tracker_new_def rd_new_def)

lemma run_ctx_rd_of:
  shows "collect_deps t = Some (rd_of ts v s) \<Longrightarrow>
      length (series_keys ts) + ctx_weight steps < spec_limit \<Longrightarrow>
      \<exists>t'. run_ctx t steps = Some t' \<and> collect_deps t' =
        Some (rd_of (ts @ ctx_tree steps) (validity_all v (map snd (ctx_reads steps))) (merge_all s (ctx_sources steps)))"
    and "branch_weight bs < spec_limit \<Longrightarrow>
      \<exists>arena. run_branches s bs = Some arena \<and>
        take_deps arena = Some (map (\<lambda>(ts, v, s). rd_of ts v s) (branch_results s bs))"
proof (induction steps and bs arbitrary: t ts v s and s rule: ctx_weight_branch_weight.induct)
  case 1
  then show ?case by simp
next
  case (2 e v' s' steps)
  from tracker_record_rd_of [OF 2(2), of e v' s'] obtain t1 where t1: "tracker_record t e v' s' = Some t1"
      "collect_deps t1 = Some (rd_of (ts @ [Key e]) (validity_and v v') (sources_merge s s'))" by blast
  from 2(1) [OF t1(2)] 2(3) show ?case by (simp add: t1)
next
  case (3 steps)
  from 3(1) [of "Tracker (rd_of ts v s) None"] 3(2,3) show ?case
    by (simp add: tracker_sources_def flatten_rd_of)
next
  case (4 bs steps)
  have w: "branch_weight bs < spec_limit" "length (series_keys ts) + branch_weight bs < spec_limit"
    using 4(4) by simp_all
  from 4(1) [OF w(1)] obtain arena where arena: "run_branches s bs = Some arena"
      "take_deps arena = Some (map (\<lambda>(ts, v, s). rd_of ts v s) (branch_results s bs))" by blast
  from 4(2) [OF collect_branches [OF arena(2) w]] 4(4) branch_keys_weight [of bs] show ?case
    by (simp add: tracker_sources_def push_parallel_def flatten_rd_of 4(3) arena(1))
next
  case (5 inner steps)
  from 5(1) [OF collect_new] 5(4) obtain t' where t': "run_ctx (tracker_new sources_NONE) inner = Some t'"
      "collect_deps t' = Some (rd_of (ctx_tree inner) (validity_all ValidValue (map snd (ctx_reads inner)))
         (merge_all sources_NONE (ctx_sources inner)))" by auto
  from absorb_apart [OF 5(3) ctx_tree_reads] obtain t1 where t1:
      "absorb t (rd_of (ctx_tree inner) (validity_all ValidValue (map snd (ctx_reads inner)))
         (merge_all sources_NONE (ctx_sources inner))) = Some t1"
      "collect_deps t1 = Some (rd_of (ts @ serial (map fst (ctx_reads inner)))
         (validity_all v (map snd (ctx_reads inner))) (merge_all s (ctx_sources inner)))" by blast
  from 5(2) [OF t1(2)] 5(4) ctx_keys_weight [of inner] show ?case by (simp add: t' t1 ctx_tree_reads)
next
  case (6 calls steps)
  from absorb_apart [OF 6(2), of "serial (map fst (linear_reads calls))" "linear_reads calls" "linear_sources calls"]
    linear_rd_of [of calls "[]" ValidValue sources_NONE]
  obtain t1 where t1: "with_linear_recompute t calls = Some t1"
      "collect_deps t1 = Some (rd_of (ts @ serial (map fst (linear_reads calls)))
         (validity_all v (map snd (linear_reads calls))) (merge_all s (linear_sources calls)))"
    by (auto simp: with_linear_recompute_def linear_new_def rd_new_def)
  from 6(1) [OF t1(2)] 6(3) linear_reads_length [of calls] show ?case by (simp add: t1)
next
  case 7
  then show ?case by simp
next
  case (8 completed steps bs)
  from 8(1) [OF collect_new, of s] 8(2) [of s] 8(3) show ?case by (auto simp: branch_result_def)
qed


section \<open>The record of a computation\<close>

text \<open>A computation that starts with the sources of its own key, and hands over what it recorded.\<close>

definition record_ctx :: "invalidation_sources \<Rightarrow> ctx_step list \<Rightarrow> recorded_deps option" where
  "record_ctx own_sources steps = run_ctx (tracker_new own_sources) steps \<bind> collect_deps"

lemma record_ctx_eq:
  assumes "ctx_weight steps < spec_limit"
  shows "record_ctx s steps =
    Some (rd_of (ctx_tree steps) (validity_all ValidValue (map snd (ctx_reads steps))) (merge_all s (ctx_sources steps)))"
  using run_ctx_rd_of(1) [OF collect_new, of steps s] assms by (auto simp: record_ctx_def)

lemma ctx_tree_fits: "ctx_weight steps < spec_limit \<Longrightarrow> series_fits (ctx_tree steps)"
  using ctx_keys_weight [of steps] ctx_words_weight [of 0 steps] by (simp add: series_fits_def)

definition certified :: "read_edge \<Rightarrow> revision dep_edge" where
  "certified e = \<lparr>edge_key = edge_key e, edge_revision = the (edge_revision e)\<rparr>"

lemma those_certify:
  "(\<forall>e\<in>set es. edge_revision e \<noteq> None) \<Longrightarrow> those (map certify_edge es) = Some (map certified es)"
  by (induction es) (auto simp: certify_edge_def certified_def)

lemma certify_edge_eq: "edge_revision e \<noteq> None \<Longrightarrow> certify_edge e = Some (certified e)"
  by (auto simp: certify_edge_def certified_def)

lemma certify_eq: "\<forall>e\<in>set (deps_edges d). edge_revision e \<noteq> None \<Longrightarrow> deps_certify d = Some (deps_map certified d)"
  by (cases d) (simp_all add: deps_certify_def deps_map_def deps_edges_def those_certify certify_edge_eq)

end
