(* ===== verification/Deps_Check.thy ===== *)
theory Deps_Check
  imports Deps_Recorded
begin

text \<open>
  The dependency check of \<^verbatim>\<open>dice/dice/src/epoch/worker.rs\<close>: whether the premises of a certificate still hold, with the series of a
  parallel node checked at the same time and their answers taken in the order they come. The evaluator that brings a
  dependency up to date is a parameter, as the answers it gives.
\<close>

section \<open>One dependency\<close>

record computed_value =
  cv_revision :: "revision option"
  cv_sources :: invalidation_sources
  cv_resident :: bool

text \<open>
  What \<^verbatim>\<open>check_dependency\<close> asks of the evaluator: the base of a projection key, the value of a key at this version (none for a
  cycle), the projection as the core state has it (none where it has to be recomputed), and the value of a key read back
  from storage (none for an error).
\<close>

record evaluator =
  projection_base :: "key \<Rightarrow> key option"
  bring_up_to_date :: "key \<Rightarrow> computed_value option"
  projection_validation :: "key \<Rightarrow> computed_value option"
  page_in :: "key \<Rightarrow> computed_value option"

datatype dependency_result = DepChanged | DepNoChange invalidation_sources

definition compare_revision :: "computed_value \<Rightarrow> revision dep_edge \<Rightarrow> dependency_result" where
  "compare_revision v e =
     (case cv_revision v of
        Some current \<Rightarrow> if current = edge_revision e then DepNoChange (cv_sources v) else DepChanged
      | None \<Rightarrow> DepChanged)"

definition check_key :: "evaluator \<Rightarrow> revision dep_edge \<Rightarrow> dependency_result" where
  "check_key ev e =
     (case bring_up_to_date ev (edge_key e) of
        Some v \<Rightarrow> compare_revision v e
      | None \<Rightarrow> DepChanged)"

definition check_dependency :: "evaluator \<Rightarrow> revision dep_edge \<Rightarrow> dependency_result" where
  "check_dependency ev e =
     (case projection_base ev (edge_key e) of
        None \<Rightarrow> check_key ev e
      | Some b \<Rightarrow>
          (case bring_up_to_date ev b of
             None \<Rightarrow> DepChanged
           | Some v \<Rightarrow>
               if cv_revision v = None then DepChanged
               else if cv_resident v then check_key ev e
               else
                 (case projection_validation ev (edge_key e) of
                    Some projection \<Rightarrow> compare_revision projection e
                  | None \<Rightarrow>
                      (case page_in ev b of
                         Some v' \<Rightarrow> if cv_revision v' \<noteq> None then check_key ev e else DepChanged
                       | None \<Rightarrow> DepChanged))))"


section \<open>The check as futures\<close>

text \<open>
  A future of \<^verbatim>\<open>check_dependencies_series\<close>: it awaits the answer for a dependency, or the series of a parallel node, with the rest
  of its own series and the sources merged so far; or it is done, with what can still be continued.
\<close>

type_synonym cert_edge = "revision dep_edge"

datatype check =
    AwaitDep cert_edge "cert_edge sp list" invalidation_sources
  | AwaitSeries "check list" "cert_edge sp list" invalidation_sources
  | NoChange invalidation_sources
  | Changed "check list"

datatype check_start = NothingToCheck | Check check

fun series_start :: "invalidation_sources \<Rightarrow> cert_edge sp list \<Rightarrow> check" where
  "series_start s [] = NoChange s"
| "series_start s (Key e # ts) = AwaitDep e ts s"
| "series_start s (Par ss # ts) = AwaitSeries (map (series_start sources_NONE) ss) ts s"

text \<open>The whole check: \<^const>\<open>None\<close> where an iterator panics.\<close>

definition check_dependencies :: "revision deps \<Rightarrow> check_start option" where
  "check_dependencies d =
     (if deps_is_empty d then Some NothingToCheck
      else map_option (\<lambda>ts. Check (series_start sources_NONE ts)) (deps_items d))"

text \<open>
  A step of a future that is not done: an answer comes, one of the series of a parallel node takes a step, or is done and taken from the
  set of those that are awaited. A change ends the future; what it awaited, and what its own series left, can be
  continued.
\<close>

inductive check_step :: "(cert_edge \<Rightarrow> dependency_result) \<Rightarrow> check \<Rightarrow> check \<Rightarrow> bool" for answer where
  unchanged: "answer e = DepNoChange s' \<Longrightarrow>
    check_step answer (AwaitDep e ts s) (series_start (sources_merge s s') ts)"
| changed: "answer e = DepChanged \<Longrightarrow> check_step answer (AwaitDep e ts s) (Changed [])"
| series: "check_step answer c c' \<Longrightarrow>
    check_step answer (AwaitSeries (xs @ c # ys) ts s) (AwaitSeries (xs @ c' # ys) ts s)"
| series_unchanged:
    "check_step answer (AwaitSeries (xs @ NoChange s' # ys) ts s) (AwaitSeries (xs @ ys) ts (sources_merge s s'))"
| series_changed: "check_step answer (AwaitSeries (xs @ Changed cs # ys) ts s) (Changed (cs @ xs @ ys))"
| joined: "check_step answer (AwaitSeries [] ts s) (series_start s ts)"

text \<open>Continuing after a change: \<^verbatim>\<open>drain_continuables\<close> polls what is left, and drops what is done.\<close>

fun check_done :: "check \<Rightarrow> bool" where
  "check_done (NoChange s) = True"
| "check_done (Changed cs) = True"
| "check_done _ = False"

inductive drain_step :: "(cert_edge \<Rightarrow> dependency_result) \<Rightarrow> check \<Rightarrow> check \<Rightarrow> bool" for answer where
  polled: "check_step answer c c' \<Longrightarrow> drain_step answer (Changed (xs @ c # ys)) (Changed (xs @ c' # ys))"
| dropped: "check_done c \<Longrightarrow> drain_step answer (Changed (xs @ c # ys)) (Changed (xs @ ys))"

inductive_cases check_step_doneE: "check_step answer (NoChange s) c" "check_step answer (Changed cs) c"

definition check_moves :: "(cert_edge \<Rightarrow> dependency_result) \<Rightarrow> check \<Rightarrow> check \<Rightarrow> bool" where
  "check_moves answer c c' \<longleftrightarrow> check_step answer c c' \<or> drain_step answer c c'"


section \<open>What a check may ask for\<close>

definition dep_holds :: "(cert_edge \<Rightarrow> dependency_result) \<Rightarrow> cert_edge \<Rightarrow> bool" where
  "dep_holds answer e \<longleftrightarrow> answer e \<noteq> DepChanged"

definition source_of :: "(cert_edge \<Rightarrow> dependency_result) \<Rightarrow> cert_edge \<Rightarrow> invalidation_sources" where
  "source_of answer e = (case answer e of DepNoChange s \<Rightarrow> s | DepChanged \<Rightarrow> sources_NONE)"

text \<open>The dependencies all of whose predecessors in their series, and in the series around it, hold.\<close>

fun may_ask :: "(cert_edge \<Rightarrow> dependency_result) \<Rightarrow> cert_edge sp list \<Rightarrow> cert_edge set"
  and may_ask_any :: "(cert_edge \<Rightarrow> dependency_result) \<Rightarrow> cert_edge sp list list \<Rightarrow> cert_edge set" where
  "may_ask answer [] = {}"
| "may_ask answer (Key e # ts) = insert e (if dep_holds answer e then may_ask answer ts else {})"
| "may_ask answer (Par ss # ts) =
     may_ask_any answer ss \<union> (if list_all (dep_holds answer) (parallel_keys ss) then may_ask answer ts else {})"
| "may_ask_any answer [] = {}"
| "may_ask_any answer (s # ss) = may_ask answer s \<union> may_ask_any answer ss"

fun awaited_deps :: "check \<Rightarrow> cert_edge set" where
  "awaited_deps (AwaitDep e ts s) = {e}"
| "awaited_deps (AwaitSeries cs ts s) = (\<Union>c\<in>set cs. awaited_deps c)"
| "awaited_deps (NoChange s) = {}"
| "awaited_deps (Changed cs) = (\<Union>c\<in>set cs. awaited_deps c)"



section \<open>What is left of a check\<close>

text \<open>Whether what is left holds, what it may ask for, the sources it ends with, and the steps it takes at most.\<close>

fun left_holds :: "(cert_edge \<Rightarrow> dependency_result) \<Rightarrow> check \<Rightarrow> bool" where
  "left_holds answer (AwaitDep e ts s) = (dep_holds answer e \<and> list_all (dep_holds answer) (series_keys ts))"
| "left_holds answer (AwaitSeries cs ts s) =
     ((\<forall>c\<in>set cs. left_holds answer c) \<and> list_all (dep_holds answer) (series_keys ts))"
| "left_holds answer (NoChange s) = True"
| "left_holds answer (Changed cs) = False"

fun left_may_ask :: "(cert_edge \<Rightarrow> dependency_result) \<Rightarrow> check \<Rightarrow> cert_edge set" where
  "left_may_ask answer (AwaitDep e ts s) = insert e (if dep_holds answer e then may_ask answer ts else {})"
| "left_may_ask answer (AwaitSeries cs ts s) =
     (\<Union>c\<in>set cs. left_may_ask answer c) \<union> (if \<forall>c\<in>set cs. left_holds answer c then may_ask answer ts else {})"
| "left_may_ask answer (NoChange s) = {}"
| "left_may_ask answer (Changed cs) = (\<Union>c\<in>set cs. left_may_ask answer c)"

fun left_sources :: "(cert_edge \<Rightarrow> dependency_result) \<Rightarrow> check \<Rightarrow> invalidation_sources" where
  "left_sources answer (AwaitDep e ts s) = merge_all s (map (source_of answer) (e # series_keys ts))"
| "left_sources answer (AwaitSeries cs ts s) =
     merge_all s (map (left_sources answer) cs @ map (source_of answer) (series_keys ts))"
| "left_sources answer (NoChange s) = s"
| "left_sources answer (Changed cs) = sources_NONE"

fun series_steps :: "cert_edge sp list \<Rightarrow> nat" and parallel_steps :: "cert_edge sp list list \<Rightarrow> nat" where
  "series_steps [] = 0"
| "series_steps (Key e # ts) = 1 + series_steps ts"
| "series_steps (Par ss # ts) = 1 + parallel_steps ss + series_steps ts"
| "parallel_steps [] = 0"
| "parallel_steps (s # ss) = 1 + series_steps s + parallel_steps ss"

fun left_steps :: "check \<Rightarrow> nat" where
  "left_steps (AwaitDep e ts s) = 1 + series_steps ts"
| "left_steps (AwaitSeries cs ts s) = 1 + (\<Sum>c\<leftarrow>cs. 1 + left_steps c) + series_steps ts"
| "left_steps (NoChange s) = 0"
| "left_steps (Changed cs) = 0"

lemma left_holds_start: "left_holds answer (series_start s ts) = list_all (dep_holds answer) (series_keys ts)"
  and left_holds_starts:
    "(\<forall>t\<in>set ss. left_holds answer (series_start sources_NONE t)) = list_all (dep_holds answer) (parallel_keys ss)"
  by (induction ts and ss arbitrary: s rule: series_keys_parallel_keys.induct) auto

lemma left_may_ask_start: "left_may_ask answer (series_start s ts) = may_ask answer ts"
  and left_may_ask_starts:
    "(\<Union>t\<in>set ss. left_may_ask answer (series_start sources_NONE t)) = may_ask_any answer ss"
  by (induction ts and ss arbitrary: s rule: series_keys_parallel_keys.induct) (auto simp: left_holds_starts)

lemma left_sources_start: "left_sources answer (series_start s ts) = merge_all s (map (source_of answer) (series_keys ts))"
  and left_sources_starts:
    "merge_all s (map (\<lambda>t. left_sources answer (series_start sources_NONE t)) ss) =
     merge_all s (map (source_of answer) (parallel_keys ss))"
  by (induction ts and ss arbitrary: s and s rule: series_keys_parallel_keys.induct) (auto simp: comp_def merge_merge_all)

lemma left_steps_start: "left_steps (series_start s ts) = series_steps ts"
  and left_steps_starts: "(\<Sum>t\<leftarrow>ss. 1 + left_steps (series_start sources_NONE t)) = parallel_steps ss"
  by (induction ts and ss arbitrary: s rule: series_keys_parallel_keys.induct) (auto simp: comp_def)

lemmas left_start = left_holds_start left_may_ask_start left_sources_start left_steps_start

lemma awaited_may_ask: "awaited_deps c \<subseteq> left_may_ask answer c"
  by (induction c) auto

lemma check_step_holds: "check_step answer c c' \<Longrightarrow> left_holds answer c' = left_holds answer c"
  by (induction rule: check_step.induct) (auto simp: left_start dep_holds_def)

lemma check_step_may_ask: "check_step answer c c' \<Longrightarrow> left_may_ask answer c' \<subseteq> left_may_ask answer c"
proof (induction rule: check_step.induct)
  case (series c c' xs ys ts s)
  with check_step_holds [OF series.hyps] show ?case by auto
qed (auto simp: left_start dep_holds_def)

lemma check_step_steps: "check_step answer c c' \<Longrightarrow> left_steps c' < left_steps c"
  by (induction rule: check_step.induct) (auto simp: left_start)

lemma check_step_sources:
  "check_step answer c c' \<Longrightarrow> left_holds answer c \<Longrightarrow> left_sources answer c' = left_sources answer c"
  by (induction rule: check_step.induct) (auto simp: left_start source_of_def dep_holds_def merge_merge_all_left)

lemma drain_step_left:
  "drain_step answer c c' \<Longrightarrow> left_holds answer c' = left_holds answer c \<and> left_may_ask answer c' \<subseteq> left_may_ask answer c"
  by (induction rule: drain_step.induct) (auto dest: subsetD [OF check_step_may_ask])

lemma check_moves_left:
  "check_moves answer c c' \<Longrightarrow> left_holds answer c' = left_holds answer c \<and> left_may_ask answer c' \<subseteq> left_may_ask answer c"
  using check_step_holds check_step_may_ask drain_step_left by (fastforce simp: check_moves_def)


section \<open>Runs of a check\<close>

lemma check_run_left:
  "(check_moves answer)\<^sup>*\<^sup>* c c' \<Longrightarrow>
     left_holds answer c' = left_holds answer c \<and> left_may_ask answer c' \<subseteq> left_may_ask answer c"
  by (induction rule: rtranclp_induct) (use check_moves_left in blast)+

lemma check_run_awaited:
  "(check_moves answer)\<^sup>*\<^sup>* (series_start sources_NONE ts) c \<Longrightarrow> awaited_deps c \<subseteq> may_ask answer ts"
  using check_run_left [of answer "series_start sources_NONE ts" c] awaited_may_ask [of c answer]
  by (auto simp: left_may_ask_start)

lemma check_run_sources:
  "(check_step answer)\<^sup>*\<^sup>* c c' \<Longrightarrow> left_holds answer c \<Longrightarrow>
     left_holds answer c' \<and> left_sources answer c' = left_sources answer c"
  by (induction rule: rtranclp_induct) (auto simp: check_step_sources check_step_holds)

lemma check_run_done:
  assumes "(check_step answer)\<^sup>*\<^sup>* (series_start sources_NONE ts) c" "check_done c"
  shows "if list_all (dep_holds answer) (series_keys ts)
     then c = NoChange (merge_all sources_NONE (map (source_of answer) (series_keys ts)))
     else \<exists>cs. c = Changed cs"
proof -
  have "(check_moves answer)\<^sup>*\<^sup>* (series_start sources_NONE ts) c"
    using assms(1) by (rule rtranclp_mono [THEN predicate2D, rotated]) (auto simp: check_moves_def)
  from check_run_left [OF this] have "left_holds answer c = list_all (dep_holds answer) (series_keys ts)"
    by (simp add: left_holds_start)
  moreover have "list_all (dep_holds answer) (series_keys ts) \<Longrightarrow>
      left_sources answer c = merge_all sources_NONE (map (source_of answer) (series_keys ts))"
    using check_run_sources [OF assms(1)] by (simp add: left_start)
  ultimately show ?thesis using assms(2) by (cases c) auto
qed

lemma check_run_bound: "(check_step answer ^^ n) c c' \<Longrightarrow> n + left_steps c' \<le> left_steps c"
proof (induction n arbitrary: c')
  case (Suc n)
  then obtain d where "(check_step answer ^^ n) c d" "check_step answer d c'" by auto
  with Suc.IH [of d] check_step_steps [of answer d c'] show ?case by simp
qed simp

text \<open>A check that is not done takes a step once the dependencies it awaits are answered.\<close>

lemma check_progress: "\<not> check_done c \<Longrightarrow> \<exists>c'. check_step answer c c'"
proof (induction c)
  case (AwaitDep e ts s)
  show ?case by (cases "answer e") (blast intro: check_step.intros)+
next
  case (AwaitSeries cs ts s)
  show ?case
  proof (cases cs)
    case Nil
    then show ?thesis by (blast intro: check_step.joined)
  next
    case (Cons c cs')
    then show ?thesis
      using AwaitSeries.IH [of c] check_step.series [of answer c _ "[]" cs' ts s]
        check_step.series_unchanged [of answer "[]" _ cs' ts s] check_step.series_changed [of answer "[]" _ cs' ts s]
      by (cases c) auto
  qed
qed auto

lemma check_dependency_no_change:
  "check_dependency ev e = DepNoChange s \<Longrightarrow>
     \<exists>v. cv_revision v = Some (edge_revision e) \<and> cv_sources v = s \<and>
       (bring_up_to_date ev (edge_key e) = Some v \<or> projection_validation ev (edge_key e) = Some v)"
  by (auto simp: check_dependency_def check_key_def compare_revision_def split: option.splits if_splits)

lemma check_completes: "\<exists>c'. (check_step answer)\<^sup>*\<^sup>* c c' \<and> check_done c'"
proof (induction "left_steps c" arbitrary: c rule: less_induct)
  case less
  show ?case
  proof (cases "check_done c")
    case False
    then obtain d where d: "check_step answer c d" using check_progress by blast
    from less [OF check_step_steps [OF d]] obtain c' where "(check_step answer)\<^sup>*\<^sup>* d c'" "check_done c'" by blast
    with d show ?thesis by (meson converse_rtranclp_into_rtranclp)
  qed blast
qed


section \<open>The check of a recorded certificate\<close>

abbreviation cert_tree :: "ctx_step list \<Rightarrow> cert_edge sp list" where
  "cert_tree steps \<equiv> map (map_sp certified) (ctx_tree steps)"

lemma certify_Some: "deps_certify d = Some c \<Longrightarrow> \<forall>e\<in>set (deps_edges d). edge_revision e \<noteq> None"
proof -
  have es: "those (map certify_edge es) = Some cs \<Longrightarrow> \<forall>e\<in>set es. edge_revision e \<noteq> None" for es cs
    by (induction es arbitrary: cs) (auto simp: certify_edge_def split: option.splits)
  show "deps_certify d = Some c \<Longrightarrow> ?thesis"
    by (cases d) (auto simp: deps_certify_def deps_edges_def certify_edge_def dest!: es)
qed

lemma recorded_certificate:
  assumes w: "ctx_weight steps < spec_limit" and r: "record_ctx s steps = Some d" and c: "deps_certify (rd_deps d) = Some c"
  shows "c = deps_of (cert_tree steps)" "series_fits (cert_tree steps)" "series_keys (cert_tree steps) = map (certified \<circ> fst) (ctx_reads steps)"
proof -
  have d: "rd_deps d = deps_of (ctx_tree steps)" using record_ctx_eq [OF w, of s] r by (auto simp: simp_thms)
  show "c = deps_of (cert_tree steps)" using certify_eq [OF certify_Some [OF c]] c by (simp add: d deps_map_deps_of)
  show "series_fits (cert_tree steps)" using ctx_tree_fits [OF w] by (simp add: series_fits_def shape_map)
  show "series_keys (cert_tree steps) = map (certified \<circ> fst) (ctx_reads steps)" by (simp add: shape_map ctx_tree_reads)
qed

lemma recorded_check:
  assumes "ctx_weight steps < spec_limit" "record_ctx s steps = Some d" "deps_certify (rd_deps d) = Some c"
  shows "check_dependencies c =
    Some (if deps_is_empty c then NothingToCheck else Check (series_start sources_NONE (cert_tree steps)))"
  by (simp add: check_dependencies_def recorded_certificate(1) [OF assms] deps_items_deps_of [OF recorded_certificate(2) [OF assms]])

lemma deps_is_empty_edges: "deps_is_empty d \<longleftrightarrow> deps_edges d = []"
  by (cases d) (simp_all add: deps_is_empty_def deps_edges_def)

lemma recorded_empty:
  assumes "ctx_weight steps < spec_limit" "record_ctx s steps = Some d" "deps_certify (rd_deps d) = Some c"
  shows "deps_is_empty c \<longleftrightarrow> ctx_reads steps = []"
  by (simp add: deps_is_empty_edges recorded_certificate(1) [OF assms] recorded_certificate(3) [OF assms])

lemma recorded_certifies:
  assumes "ctx_weight steps < spec_limit" "list_all (\<lambda>(e, _). edge_revision e \<noteq> None) (ctx_reads steps)"
  shows "\<exists>d c. record_ctx s steps = Some d \<and> deps_certify (rd_deps d) = Some c"
proof -
  have "\<forall>e\<in>set (series_keys (ctx_tree steps)). edge_revision e \<noteq> None"
    using assms(2) by (auto simp: ctx_tree_reads list_all_iff)
  then show ?thesis
    using record_ctx_eq [OF assms(1), of s] certify_eq [of "deps_of (ctx_tree steps)"] by simp
qed

lemma validity_all_valid: "validity_all a vs = ValidValue \<longleftrightarrow> a = ValidValue \<and> list_all (\<lambda>v. v = ValidValue) vs"
proof (induction vs arbitrary: a)
  case (Cons v vs)
  then show ?case by (cases a; cases v) (auto simp: validity_and_def)
qed simp

end
