(* ===== verification/Value_Paging.thy ===== *)
theory Value_Paging
  imports Dice_Interface Deps_Check
begin

text \<open>
  The values behind the revisions of one key: \<^verbatim>\<open>dice/dice/src/core/graph/lifecycle.rs\<close>, \<^verbatim>\<open>graph/revision.rs\<close> and the
  types \<^verbatim>\<open>KeyValues\<close> and \<^verbatim>\<open>PagableIndex\<close> of \<^verbatim>\<open>core/graph.rs\<close>. A value is its allocation, so equal values share an
  allocation; the comparison \<^verbatim>\<open>Key::equality\<close> of the user is a parameter. The process-wide counter of residency generations is passed along, and
  \<^const>\<open>None\<close> is a panic.
\<close>

section \<open>lifecycle.rs\<close>

type_synonym data_key = nat

datatype page_out_policy = OncePerKey | OncePerValue

datatype eviction_policy = OnIdle | OnMemoryPressure

record 'v backed_value =
  bk_value :: 'v
  bk_data_key :: data_key
  bk_bytes :: nat
  bk_generation :: nat

datatype 'v pagable_value =
    NeverPagedOut 'v
  | PagedOut data_key
  | NonPageable 'v
  | Recomputed 'v
  | Backed "'v backed_value"

datatype row_commit = RowEvicted | RowBacked | RowUnchanged

datatype 'v maybe_resident = Resident 'v | AtDataKey data_key

text \<open>\<^verbatim>\<open>fetch_add\<close> of the counter, and the addition of 1 to what it returns.\<close>

definition backed_new :: "'v \<Rightarrow> data_key \<Rightarrow> nat \<Rightarrow> nat \<Rightarrow> ('v backed_value \<times> nat) option" where
  "backed_new v dk bytes gen =
     (if gen + 1 \<le> u64_max
      then Some (\<lparr>bk_value = v, bk_data_key = dk, bk_bytes = bytes, bk_generation = gen + 1\<rparr>, gen + 1) else None)"

fun as_hydrated :: "'v pagable_value \<Rightarrow> 'v option" where
  "as_hydrated (NeverPagedOut v) = Some v"
| "as_hydrated (NonPageable v) = Some v"
| "as_hydrated (Recomputed v) = Some v"
| "as_hydrated (Backed b) = Some (bk_value b)"
| "as_hydrated (PagedOut _) = None"

fun data_key_of :: "'v pagable_value \<Rightarrow> data_key option" where
  "data_key_of (PagedOut dk) = Some dk"
| "data_key_of _ = None"

fun is_page_out_candidate :: "'v pagable_value \<Rightarrow> page_out_policy \<Rightarrow> bool" where
  "is_page_out_candidate (NeverPagedOut _) policy = True"
| "is_page_out_candidate (Recomputed _) policy = (policy = OncePerValue)"
| "is_page_out_candidate _ policy = False"

definition as_maybe_resident :: "'v pagable_value \<Rightarrow> 'v maybe_resident option" where
  "as_maybe_resident p =
     (case p of PagedOut dk \<Rightarrow> Some (AtDataKey dk) | _ \<Rightarrow> map_option Resident (as_hydrated p))"

definition lifecycle_after :: "'v pagable_value option \<Rightarrow> 'v \<Rightarrow> 'v pagable_value" where
  "lifecycle_after previous =
     (case previous of
        None \<Rightarrow> NeverPagedOut
      | Some p \<Rightarrow>
          (case p of
             NeverPagedOut _ \<Rightarrow> NeverPagedOut
           | NonPageable _ \<Rightarrow> NonPageable
           | Recomputed _ \<Rightarrow> Recomputed
           | PagedOut _ \<Rightarrow> Recomputed
           | Backed _ \<Rightarrow> Recomputed))"

definition make_resident ::
  "'v pagable_value \<Rightarrow> 'v \<Rightarrow> nat \<Rightarrow> page_out_policy \<Rightarrow> nat \<Rightarrow> ('v pagable_value \<times> nat) option" where
  "make_resident p v bytes policy gen =
     (case p of
        PagedOut dk \<Rightarrow>
          (case policy of
             OncePerKey \<Rightarrow> Some (Recomputed v, gen)
           | OncePerValue \<Rightarrow> map_option (\<lambda>(b, gen). (Backed b, gen)) (backed_new v dk bytes gen))
      | _ \<Rightarrow> Some (p, gen))"

definition row_committed ::
  "'v pagable_value \<Rightarrow> data_key \<Rightarrow> nat \<Rightarrow> eviction_policy \<Rightarrow> nat
   \<Rightarrow> (row_commit \<times> 'v pagable_value \<times> nat) option" where
  "row_committed p dk bytes policy gen =
     (case p of
        NeverPagedOut v \<Rightarrow>
          (case policy of
             OnIdle \<Rightarrow> Some (RowEvicted, PagedOut dk, gen)
           | OnMemoryPressure \<Rightarrow> map_option (\<lambda>(b, gen). (RowBacked, Backed b, gen)) (backed_new v dk bytes gen))
      | Recomputed v \<Rightarrow> map_option (\<lambda>(b, gen). (RowBacked, Backed b, gen)) (backed_new v dk bytes gen)
      | other \<Rightarrow> Some (RowUnchanged, other, gen))"

definition evict_value :: "'v pagable_value \<Rightarrow> nat \<Rightarrow> bool \<times> 'v pagable_value" where
  "evict_value p cutoff =
     (case p of
        Backed b \<Rightarrow> if bk_generation b > cutoff then (False, p) else (True, PagedOut (bk_data_key b))
      | _ \<Rightarrow> (False, p))"


section \<open>The values of a key\<close>

record 'v key_values =
  kv_mint :: revision
  kv_injected :: bool
  kv_entries :: "(revision \<times> 'v pagable_value) list"

datatype storage_type = NormalStorage | InjectedStorage

definition kv_default :: "'v key_values" where
  "kv_default = \<lparr>kv_mint = revision_FIRST, kv_injected = False, kv_entries = []\<rparr>"

definition kv_mint_next :: "'v key_values \<Rightarrow> (revision \<times> 'v key_values) option" where
  "kv_mint_next kv = map_option (\<lambda>n. (kv_mint kv, kv\<lparr>kv_mint := n\<rparr>)) (revision_next (kv_mint kv))"

definition kv_entry :: "'v key_values \<Rightarrow> revision \<Rightarrow> 'v pagable_value option" where
  "kv_entry kv r = map_of (kv_entries kv) r"

definition kv_lifecycle :: "'v key_values \<Rightarrow> 'v \<Rightarrow> 'v pagable_value" where
  "kv_lifecycle kv = lifecycle_after (if kv_entries kv = [] then None else Some (snd (last (kv_entries kv))))"

definition kv_insert :: "'v key_values \<Rightarrow> revision \<Rightarrow> 'v pagable_value \<Rightarrow> 'v key_values option" where
  "kv_insert kv r p =
     (if kv_entry kv r = None then Some (kv\<lparr>kv_entries := kv_entries kv @ [(r, p)]\<rparr>) else None)"

definition kv_adopt ::
  "revision \<Rightarrow> 'v \<Rightarrow> page_out_policy \<Rightarrow> 'v key_values \<Rightarrow> nat \<Rightarrow> ('v \<times> 'v key_values \<times> nat) option" where
  "kv_adopt r v policy kv gen =
     (case kv_entry kv r of
        Some stored \<Rightarrow> do {
          (stored, gen) \<leftarrow> make_resident stored v 0 policy gen;
          v \<leftarrow> as_hydrated stored;
          Some (v, kv\<lparr>kv_entries := AList.update r stored (kv_entries kv)\<rparr>, gen) }
      | None \<Rightarrow> do { kv \<leftarrow> kv_insert kv r (kv_lifecycle kv v); Some (v, kv, gen) })"

text \<open>The first retained value that is resident and equal.\<close>

definition find_equal :: "('v \<Rightarrow> 'v \<Rightarrow> bool) \<Rightarrow> 'v \<Rightarrow> 'v key_values \<Rightarrow> (revision \<times> 'v) option" where
  "find_equal eq v kv =
     (case find (\<lambda>(_, p). case as_hydrated p of Some e \<Rightarrow> eq e v | None \<Rightarrow> False) (kv_entries kv) of
        Some (r, p) \<Rightarrow> map_option (Pair r) (as_hydrated p)
      | None \<Rightarrow> None)"

definition intern_computed ::
  "('v \<Rightarrow> 'v \<Rightarrow> bool) \<Rightarrow> 'v \<Rightarrow> 'v key_values \<Rightarrow> nat \<Rightarrow> ((revision \<times> 'v) \<times> 'v key_values \<times> nat) option" where
  "intern_computed eq v kv gen =
     (case find_equal eq v kv of
        Some (r, existing) \<Rightarrow> Some ((r, existing), kv, gen)
      | None \<Rightarrow> do {
          (r, kv) \<leftarrow> kv_mint_next kv;
          kv \<leftarrow> kv_insert kv r (kv_lifecycle kv v);
          Some ((r, v), kv, gen) })"

definition intern_asserted ::
  "('v \<Rightarrow> 'v \<Rightarrow> bool) \<Rightarrow> 'v \<Rightarrow> storage_type \<Rightarrow> 'v key_values \<Rightarrow> nat \<Rightarrow> (revision \<times> 'v key_values \<times> nat) option" where
  "intern_asserted eq v storage kv gen =
     (let kv = kv\<lparr>kv_injected := (storage = InjectedStorage)\<rparr> in
      (case find_equal eq v kv of
         Some (r, _) \<Rightarrow> Some (r, kv, gen)
       | None \<Rightarrow> do {
           (r, kv) \<leftarrow> kv_mint_next kv;
           kv \<leftarrow> kv_insert kv r (if kv_injected kv then NonPageable v else kv_lifecycle kv v);
           Some (r, kv, gen) }))"

definition kv_restore ::
  "revision \<Rightarrow> 'v maybe_resident \<Rightarrow> page_out_policy \<Rightarrow> 'v key_values \<Rightarrow> nat
   \<Rightarrow> ('v maybe_resident \<times> 'v key_values \<times> nat) option" where
  "kv_restore r v policy kv gen =
     (case kv_entry kv r of
        Some stored \<Rightarrow> do {
          (stored, gen) \<leftarrow> (case v of Resident v \<Rightarrow> make_resident stored v 0 policy gen | AtDataKey _ \<Rightarrow> Some (stored, gen));
          out \<leftarrow> as_maybe_resident stored;
          Some (out, kv\<lparr>kv_entries := AList.update r stored (kv_entries kv)\<rparr>, gen) }
      | None \<Rightarrow> do {
          let p = (case v of Resident v \<Rightarrow> kv_lifecycle kv v | AtDataKey dk \<Rightarrow> PagedOut dk);
          out \<leftarrow> as_maybe_resident p;
          kv \<leftarrow> kv_insert kv r p;
          Some (out, kv, gen) })"


section \<open>Tallies\<close>

record contribution =
  c_resident :: nat
  c_paged_out :: nat
  c_candidates :: nat
  c_backed :: nat
  c_backed_bytes :: nat

definition c_zero :: contribution where
  "c_zero = \<lparr>c_resident = 0, c_paged_out = 0, c_candidates = 0, c_backed = 0, c_backed_bytes = 0\<rparr>"

definition c_add_value :: "page_out_policy \<Rightarrow> 'v pagable_value \<Rightarrow> contribution \<Rightarrow> contribution" where
  "c_add_value policy p c =
     (case p of
        PagedOut _ \<Rightarrow> c\<lparr>c_paged_out := c_paged_out c + 1\<rparr>
      | NeverPagedOut _ \<Rightarrow> c\<lparr>c_resident := c_resident c + 1,
          c_candidates := c_candidates c + (if is_page_out_candidate p policy then 1 else 0)\<rparr>
      | Recomputed _ \<Rightarrow> c\<lparr>c_resident := c_resident c + 1,
          c_candidates := c_candidates c + (if is_page_out_candidate p policy then 1 else 0)\<rparr>
      | Backed b \<Rightarrow> c\<lparr>c_resident := c_resident c + 1, c_backed := c_backed c + 1,
          c_backed_bytes := c_backed_bytes c + bk_bytes b\<rparr>
      | NonPageable _ \<Rightarrow> c\<lparr>c_resident := c_resident c + 1\<rparr>)"

definition kv_tally :: "page_out_policy \<Rightarrow> 'v key_values \<Rightarrow> contribution" where
  "kv_tally policy kv =
     (if kv_injected kv then c_zero else fold (\<lambda>(_, p). c_add_value policy p) (kv_entries kv) c_zero)"

text \<open>The sum of bytes is the one addition that may overflow: it does if its total does.\<close>

definition contribution_of :: "page_out_policy \<Rightarrow> 'v key_values \<Rightarrow> contribution option" where
  "contribution_of policy kv =
     (let c = kv_tally policy kv in if c_backed_bytes c \<le> u64_max then Some c else None)"

text \<open>A bit set is the ascending list of its members.\<close>

record pagable_index =
  i_candidates :: "nat list"
  i_candidate_count :: nat
  i_backed :: "nat list"
  i_backed_count :: nat
  i_backed_bytes :: nat
  i_resident_count :: nat
  i_paged_out_count :: nat

definition index_default :: pagable_index where
  "index_default = \<lparr>i_candidates = [], i_candidate_count = 0, i_backed = [], i_backed_count = 0, i_backed_bytes = 0,
     i_resident_count = 0, i_paged_out_count = 0\<rparr>"

text \<open>\<^verbatim>\<open>count + after - before\<close>, checked.\<close>

definition shift_count :: "nat \<Rightarrow> nat \<Rightarrow> nat \<Rightarrow> nat option" where
  "shift_count n after before =
     (if n + after \<le> u64_max \<and> before \<le> n + after then Some (n + after - before) else None)"

definition index_track :: "nat list \<Rightarrow> key \<Rightarrow> nat \<Rightarrow> nat \<Rightarrow> nat list" where
  "index_track set_bits key before after =
     (if before = 0 \<and> after > 0 then insort_insert key set_bits
      else if before > 0 \<and> after = 0 then remove1 key set_bits
      else set_bits)"

definition index_apply :: "pagable_index \<Rightarrow> key \<Rightarrow> contribution \<Rightarrow> contribution \<Rightarrow> pagable_index option" where
  "index_apply i key before after =
     (if before = after then Some i
      else do {
        resident \<leftarrow> shift_count (i_resident_count i) (c_resident after) (c_resident before);
        paged_out \<leftarrow> shift_count (i_paged_out_count i) (c_paged_out after) (c_paged_out before);
        candidates \<leftarrow> shift_count (i_candidate_count i) (c_candidates after) (c_candidates before);
        backed \<leftarrow> shift_count (i_backed_count i) (c_backed after) (c_backed before);
        bytes \<leftarrow> shift_count (i_backed_bytes i) (c_backed_bytes after) (c_backed_bytes before);
        Some \<lparr>i_candidates = index_track (i_candidates i) key (c_candidates before) (c_candidates after),
              i_candidate_count = candidates,
              i_backed = index_track (i_backed i) key (c_backed before) (c_backed after),
              i_backed_count = backed, i_backed_bytes = bytes,
              i_resident_count = resident, i_paged_out_count = paged_out\<rparr> })"

end
