(* ===== verification/Value_Graph.thy ===== *)
theory Value_Graph
  imports Value_Paging
begin

text \<open>
  The core state with its values, \<^verbatim>\<open>VersionedGraph\<close> of \<^verbatim>\<open>dice/dice/src/core/graph.rs\<close>, over the operations of the core: lookups
  hand out the value behind a revision, a write interns its value first, and values that no claim or assertion names are dropped. The
  state carries the two process-wide counters, of untracked-input tokens and of residency generations; dropping values on a thread of its
  own, and shrinking, leave no trace in it.
\<close>

section \<open>The environment\<close>

type_synonym dice_state = "(revision deps, source_priority, invalidation_sources) core_state"
type_synonym dice_cert = "revision deps cert"

definition dice_env :: "(revision deps, source_priority, invalidation_sources) env" where
  "dice_env =
     \<lparr>premises_of = deps_premises, env_EMPTY = sources_NONE, env_assertion = \<lambda>v priority. sources_source priority v,
      env_combine = sources_merge\<rparr>"


section \<open>The state\<close>

record 'v versioned_graph =
  vg_core :: dice_state
  vg_values :: "'v key_values key_map"
  vg_index :: pagable_index
  vg_policy :: page_out_policy
  vg_tokens :: nat
  vg_generation :: nat

definition vg_new :: "nat \<Rightarrow> nat \<Rightarrow> 'v versioned_graph" where
  "vg_new tokens generation =
     \<lparr>vg_core = core_new, vg_values = [], vg_index = index_default, vg_policy = OncePerValue, vg_tokens = tokens,
      vg_generation = generation\<rparr>"

definition set_page_out_policy :: "'v versioned_graph \<Rightarrow> page_out_policy \<Rightarrow> 'v versioned_graph option" where
  "set_page_out_policy g policy =
     (if i_resident_count (vg_index g) + i_paged_out_count (vg_index g) = 0 then Some (g\<lparr>vg_policy := policy\<rparr>) else None)"

definition vg_head :: "'v versioned_graph \<Rightarrow> branch_id \<Rightarrow> version option" where
  "vg_head g b = head_of (vg_core g) b"

definition vg_branch_count :: "'v versioned_graph \<Rightarrow> nat" where
  "vg_branch_count g = length (live_branches (vg_core g))"

definition vg_key_count :: "'v versioned_graph \<Rightarrow> nat" where
  "vg_key_count g = key_count (vg_core g)"

definition vg_fork :: "'v versioned_graph \<Rightarrow> version \<Rightarrow> (branch_id \<times> 'v versioned_graph) option" where
  "vg_fork g v = map_option (\<lambda>(b, st). (b, g\<lparr>vg_core := st\<rparr>)) (fork dice_env (vg_core g) v)"

definition vg_new_root :: "'v versioned_graph \<Rightarrow> (branch_id \<times> 'v versioned_graph) option" where
  "vg_new_root g = map_option (\<lambda>(b, st). (b, g\<lparr>vg_core := st\<rparr>)) (new_root (vg_core g))"

text \<open>The one path through which the values of a key change.\<close>

definition values_of :: "'v versioned_graph \<Rightarrow> key \<Rightarrow> 'v key_values" where
  "values_of g k = (case map_of (vg_values g) k of Some kv \<Rightarrow> kv | None \<Rightarrow> kv_default)"

definition with_values ::
  "'v versioned_graph \<Rightarrow> key \<Rightarrow> ('v key_values \<Rightarrow> nat \<Rightarrow> ('r \<times> 'v key_values \<times> nat) option)
   \<Rightarrow> ('r \<times> 'v versioned_graph) option" where
  "with_values g k f = do {
     let kv = values_of g k;
     before \<leftarrow> contribution_of (vg_policy g) kv;
     (result, kv, generation) \<leftarrow> f kv (vg_generation g);
     after \<leftarrow> contribution_of (vg_policy g) kv;
     index \<leftarrow> index_apply (vg_index g) k before after;
     Some (result, g\<lparr>vg_values := AList.update k kv (vg_values g), vg_index := index, vg_generation := generation\<rparr>) }"

definition vg_stored :: "'v versioned_graph \<Rightarrow> key \<Rightarrow> revision \<Rightarrow> 'v maybe_resident option" where
  "vg_stored g k r = do { kv \<leftarrow> map_of (vg_values g) k; p \<leftarrow> kv_entry kv r; as_maybe_resident p }"


section \<open>Commits and deletions\<close>

datatype 'v change_type = Invalidate | UpdateValue 'v storage_type

fun intern_changes ::
  "('v \<Rightarrow> 'v \<Rightarrow> bool) \<Rightarrow> (key \<times> 'v change_type \<times> source_priority) list \<Rightarrow> 'v versioned_graph
   \<Rightarrow> (source_priority change list \<times> 'v versioned_graph) option" where
  "intern_changes eq [] g = Some ([], g)"
| "intern_changes eq ((k, Invalidate, priority) # cs) g = do {
     (changes, g) \<leftarrow> intern_changes eq cs g;
     Some (Dirty k priority # changes, g) }"
| "intern_changes eq ((k, UpdateValue v storage, priority) # cs) g = do {
     (r, g) \<leftarrow> with_values g k (intern_asserted eq v storage);
     (changes, g) \<leftarrow> intern_changes eq cs g;
     Some (Assert k r priority # changes, g) }"

definition vg_commit ::
  "('v \<Rightarrow> 'v \<Rightarrow> bool) \<Rightarrow> 'v versioned_graph \<Rightarrow> branch_id \<Rightarrow> (key \<times> 'v change_type \<times> source_priority) list
   \<Rightarrow> (version \<times> 'v versioned_graph) option" where
  "vg_commit eq g b cs = do {
     (changes, g) \<leftarrow> intern_changes eq cs g;
     (st, tokens, v) \<leftarrow> commit dice_env (vg_core g) (vg_tokens g) b changes;
     Some (v, g\<lparr>vg_core := st, vg_tokens := tokens\<rparr>) }"

text \<open>The entries of a key that the core still references.\<close>

definition kv_retain :: "dice_state \<Rightarrow> key \<Rightarrow> 'v key_values \<Rightarrow> nat \<Rightarrow> (unit \<times> 'v key_values \<times> nat) option" where
  "kv_retain st k kv gen =
     Some ((), kv\<lparr>kv_entries := filter (\<lambda>(r, _). is_referenced st k r) (kv_entries kv)\<rparr>, gen)"

fun release_unreferenced :: "key list \<Rightarrow> 'v versioned_graph \<Rightarrow> 'v versioned_graph option" where
  "release_unreferenced [] g = Some g"
| "release_unreferenced (k # ks) g = do {
     (_, g) \<leftarrow> with_values g k (kv_retain (vg_core g) k);
     release_unreferenced ks g }"

definition vg_delete_branch :: "'v versioned_graph \<Rightarrow> branch_id \<Rightarrow> 'v versioned_graph option" where
  "vg_delete_branch g b = do {
     (affected, st) \<leftarrow> delete_branch (vg_core g) b;
     release_unreferenced affected (g\<lparr>vg_core := st\<rparr>) }"


section \<open>Lookups\<close>

record 'v computed_entry =
  cp_value :: "'v maybe_resident"
  cp_sources :: invalidation_sources
  cp_revision :: revision

record 'v candidate =
  cand_cert :: dice_cert
  cand_entry :: "'v maybe_resident"
  cand_revalidatable :: bool

datatype 'v graph_result =
    Match "'v computed_entry"
  | NoMatch "'v candidate option" epsilon_token invalidation_sources

definition vg_get :: "'v versioned_graph \<Rightarrow> key \<Rightarrow> version \<Rightarrow> 'v graph_result option" where
  "vg_get g k v =
     (if \<not> is_live (vg_core g) (vbranch v) then Some (NoMatch None epsilon_INITIAL sources_NONE)
      else do {
        l \<leftarrow> lookup dice_env (vg_core g) k v;
        (case l of
           Valid r attribute \<Rightarrow> do {
             stored \<leftarrow> vg_stored g k r;
             Some (Match \<lparr>cp_value = stored, cp_sources = attribute, cp_revision = r\<rparr>) }
         | Unknown cand eps own \<Rightarrow> do {
             (cert, revalidatable) \<leftarrow>
               (case cand of
                  Some cert \<Rightarrow> Some (Some cert, True)
                | None \<Rightarrow> map_option (\<lambda>c. (c, False)) (nearest_certificate (vg_core g) k v));
             candidate \<leftarrow>
               (case cert of
                  None \<Rightarrow> Some None
                | Some cert \<Rightarrow> map_option
                    (\<lambda>entry. Some \<lparr>cand_cert = cert, cand_entry = entry, cand_revalidatable = revalidatable\<rparr>)
                    (vg_stored g k (cert_revision cert)));
             Some (NoMatch candidate eps own) }) })"

definition recovery_untracked ::
  "'v versioned_graph \<Rightarrow> key \<Rightarrow> version \<Rightarrow> (epsilon_token \<times> invalidation_sources) option option" where
  "recovery_untracked g k v =
     (if is_asserted (vg_core g) k then Some None
      else if is_live (vg_core g) (vbranch v) then map_option Some (untracked dice_env (vg_core g) k v)
      else Some (Some (epsilon_INITIAL, sources_NONE)))"


section \<open>Writes\<close>

definition finish_write ::
  "'v versioned_graph \<Rightarrow> key \<Rightarrow> version \<Rightarrow> dice_cert \<Rightarrow> invalidation_sources
   \<Rightarrow> (invalidation_sources \<times> 'v versioned_graph) option" where
  "finish_write g k v cert sources = do {
     (_, own) \<leftarrow> untracked dice_env (vg_core g) k v;
     if sources_merge sources own \<noteq> sources then None
     else do {
       (st, _) \<leftarrow> write_cert dice_env (vg_core g) cert;
       (_, g) \<leftarrow> with_values (g\<lparr>vg_core := st\<rparr>) k (kv_retain st k);
       l \<leftarrow> lookup dice_env (vg_core g) k v;
       Some (case l of Valid _ attribute \<Rightarrow> attribute | Unknown _ _ _ \<Rightarrow> sources, g) } }"

definition update_computed ::
  "('v \<Rightarrow> 'v \<Rightarrow> bool) \<Rightarrow> 'v versioned_graph \<Rightarrow> key \<Rightarrow> version \<Rightarrow> 'v \<Rightarrow> revision deps \<Rightarrow> epsilon_token
   \<Rightarrow> invalidation_sources \<Rightarrow> ('v computed_entry \<times> 'v versioned_graph) option" where
  "update_computed eq g k v value deps eps sources =
     (if \<not> is_live (vg_core g) (vbranch v) then do {
        (r, g) \<leftarrow> with_values g k (\<lambda>kv gen. map_option (\<lambda>(r, kv). (r, kv, gen)) (kv_mint_next kv));
        Some (\<lparr>cp_value = Resident value, cp_sources = sources, cp_revision = r\<rparr>, g) }
      else do {
        current \<leftarrow> epsilon (vg_core g) k v;
        if eps \<noteq> current then None
        else do {
          (cert, stored, g) \<leftarrow>
            (case find (\<lambda>c. cert_epsilon c = eps \<and> deps_eq (cert_deps c) deps) (pinned_certs (vg_core g) k) of
               Some cert \<Rightarrow> do {
                 (stored, g) \<leftarrow> with_values g k (kv_adopt (cert_revision cert) value (vg_policy g));
                 Some (cert, stored, g) }
             | None \<Rightarrow> do {
                 ((r, stored), g) \<leftarrow> with_values g k (intern_computed eq value);
                 Some (\<lparr>cert_key = k, cert_revision = r, cert_deps = deps, cert_epsilon = eps\<rparr>, stored, g) });
          (sources, g) \<leftarrow> finish_write g k v cert sources;
          Some (\<lparr>cp_value = Resident stored, cp_sources = sources, cp_revision = cert_revision cert\<rparr>, g) } })"

definition revalidate ::
  "'v versioned_graph \<Rightarrow> key \<Rightarrow> version \<Rightarrow> 'v candidate \<Rightarrow> invalidation_sources
   \<Rightarrow> ('v computed_entry \<times> 'v versioned_graph) option" where
  "revalidate g k v c sources =
     (let r = cert_revision (cand_cert c) in
      if \<not> is_live (vg_core g) (vbranch v)
      then Some (\<lparr>cp_value = cand_entry c, cp_sources = sources, cp_revision = r\<rparr>, g)
      else do {
        (value, g) \<leftarrow> with_values g k (kv_restore r (cand_entry c) (vg_policy g));
        (sources, g) \<leftarrow> finish_write g k v (cand_cert c) sources;
        Some (\<lparr>cp_value = value, cp_sources = sources, cp_revision = r\<rparr>, g) })"


section \<open>Paging\<close>

definition candidates_of :: "page_out_policy \<Rightarrow> key \<Rightarrow> 'v key_values \<Rightarrow> (key \<times> 'v) list option" where
  "candidates_of policy k kv =
     those (map (\<lambda>(_, p). map_option (Pair k) (as_hydrated p))
              (filter (\<lambda>(_, p). is_page_out_candidate p policy) (kv_entries kv)))"

definition keys_to_page_out :: "'v versioned_graph \<Rightarrow> (key \<times> 'v) list option" where
  "keys_to_page_out g =
     map_option concat
       (those (map (\<lambda>k. case map_of (vg_values g) k of Some kv \<Rightarrow> candidates_of (vg_policy g) k kv | None \<Rightarrow> Some [])
                 (i_candidates (vg_index g))))"

definition paged_out_keys :: "'v versioned_graph \<Rightarrow> (key \<times> data_key) list" where
  "paged_out_keys g =
     concat (map (\<lambda>(k, kv). if kv_injected kv then []
                            else map (Pair k) (List.map_filter (\<lambda>(_, p). data_key_of p) (kv_entries kv)))
               (vg_values g))"

definition is_paged_out :: "'v pagable_value \<Rightarrow> bool" where
  "is_paged_out p = (case p of PagedOut _ \<Rightarrow> True | _ \<Rightarrow> False)"

definition is_backed :: "'v pagable_value \<Rightarrow> bool" where
  "is_backed p = (case p of Backed _ \<Rightarrow> True | _ \<Rightarrow> False)"

definition keys_by_paging_state :: "'v versioned_graph \<Rightarrow> key list \<times> key list \<times> key list" where
  "keys_by_paging_state g =
     (let paging = filter (\<lambda>(_, kv). \<not> kv_injected kv) (vg_values g);
          keys_where = \<lambda>P. concat (map (\<lambda>(k, kv). map (\<lambda>_. k) (filter (\<lambda>(_, p). P p) (kv_entries kv))) paging) in
      (keys_where (\<lambda>p. \<not> is_paged_out p), keys_where is_paged_out, keys_where is_backed))"

definition pagable_node_counts :: "'v versioned_graph \<Rightarrow> contribution" where
  "pagable_node_counts g =
     \<lparr>c_resident = i_resident_count (vg_index g), c_paged_out = i_paged_out_count (vg_index g),
      c_candidates = i_candidate_count (vg_index g), c_backed = i_backed_count (vg_index g),
      c_backed_bytes = i_backed_bytes (vg_index g)\<rparr>"

text \<open>A loop over the values of a key that changes each, with an accumulated count.\<close>

fun each_value ::
  "('v pagable_value \<Rightarrow> nat \<Rightarrow> (nat \<times> 'v pagable_value \<times> nat) option) \<Rightarrow> (revision \<times> 'v pagable_value) list \<Rightarrow> nat
   \<Rightarrow> (nat \<times> (revision \<times> 'v pagable_value) list \<times> nat) option" where
  "each_value f [] gen = Some (0, [], gen)"
| "each_value f ((r, p) # es) gen = do {
     (n, p, gen) \<leftarrow> f p gen;
     (m, es, gen) \<leftarrow> each_value f es gen;
     Some (n + m, (r, p) # es, gen) }"

definition kv_each ::
  "('v pagable_value \<Rightarrow> nat \<Rightarrow> (nat \<times> 'v pagable_value \<times> nat) option) \<Rightarrow> 'v key_values \<Rightarrow> nat
   \<Rightarrow> (nat \<times> 'v key_values \<times> nat) option" where
  "kv_each f kv gen =
     map_option (\<lambda>(n, es, gen). (n, kv\<lparr>kv_entries := es\<rparr>, gen)) (each_value f (kv_entries kv) gen)"

record 'v page_out_result =
  po_value :: 'v
  po_data_key :: data_key
  po_bytes :: nat

definition commit_row ::
  "'v page_out_result \<Rightarrow> eviction_policy \<Rightarrow> 'v pagable_value \<Rightarrow> nat \<Rightarrow> (nat \<times> 'v pagable_value \<times> nat) option" where
  "commit_row po policy p gen =
     (if as_hydrated p = Some (po_value po) then
        map_option (\<lambda>(out, p, gen). (if out = RowEvicted then 1 else 0, p, gen))
          (row_committed p (po_data_key po) (po_bytes po) policy gen)
      else Some (0, p, gen))"

fun commit_page_out ::
  "eviction_policy \<Rightarrow> (key \<times> 'v page_out_result) list \<Rightarrow> 'v versioned_graph \<Rightarrow> (nat \<times> 'v versioned_graph) option" where
  "commit_page_out policy [] g = Some (0, g)"
| "commit_page_out policy ((k, po) # ks) g = do {
     (n, g) \<leftarrow> with_values g k (kv_each (commit_row po policy));
     (m, g) \<leftarrow> commit_page_out policy ks g;
     Some (n + m, g) }"

definition backed_snapshot :: "'v versioned_graph \<Rightarrow> key list \<times> nat" where
  "backed_snapshot g = (i_backed (vg_index g), vg_generation g)"

fun evict_backed :: "nat \<Rightarrow> key list \<Rightarrow> 'v versioned_graph \<Rightarrow> (nat \<times> 'v versioned_graph) option" where
  "evict_backed cutoff [] g = Some (0, g)"
| "evict_backed cutoff (k # ks) g = do {
     (n, g) \<leftarrow> with_values g k
       (kv_each (\<lambda>p gen. let (out, p) = evict_value p cutoff in Some (if out then 1 else 0, p, gen)));
     (m, g) \<leftarrow> evict_backed cutoff ks g;
     Some (n + m, g) }"

fun mark_non_pageable :: "(key \<times> 'v) list \<Rightarrow> 'v versioned_graph \<Rightarrow> 'v versioned_graph option" where
  "mark_non_pageable [] g = Some g"
| "mark_non_pageable ((k, inspected) # ks) g = do {
     (_, g) \<leftarrow> with_values g k
       (kv_each (\<lambda>p gen. Some (0, if as_hydrated p = Some inspected then NonPageable inspected else p, gen)));
     mark_non_pageable ks g }"

definition kv_rehydrate ::
  "data_key \<Rightarrow> 'v \<Rightarrow> nat \<Rightarrow> page_out_policy \<Rightarrow> 'v key_values \<Rightarrow> nat \<Rightarrow> (unit \<times> 'v key_values \<times> nat) option" where
  "kv_rehydrate dk v bytes policy kv gen =
     (case find (\<lambda>(_, p). data_key_of p = Some dk) (kv_entries kv) of
        None \<Rightarrow> Some ((), kv, gen)
      | Some (r, stored) \<Rightarrow> do {
          (stored, gen) \<leftarrow> make_resident stored v bytes policy gen;
          Some ((), kv\<lparr>kv_entries := AList.update r stored (kv_entries kv)\<rparr>, gen) })"

definition rehydrate :: "'v versioned_graph \<Rightarrow> key \<Rightarrow> data_key \<Rightarrow> 'v \<Rightarrow> nat \<Rightarrow> 'v versioned_graph option" where
  "rehydrate g k dk v bytes = map_option snd (with_values g k (kv_rehydrate dk v bytes (vg_policy g)))"

end
