(* ===== verification/Value_Invariant.thy ===== *)
theory Value_Invariant
  imports Value_Graph
begin

text \<open>
  What every operation on the graph keeps: every revision that a claim or an assertion names has its value, the revisions retained for a
  key are distinct and older than the next one, and the tallies and bit sets of the paging index are those of a full
  scan. This is \<^verbatim>\<open>assert_consistent\<close> of the tests of \<^verbatim>\<open>core/graph.rs\<close>, but for its converse part (no value is retained in vain), and it is
  what lookups need to return.
\<close>

section \<open>The values of a key\<close>

definition kv_revisions :: "'v key_values \<Rightarrow> revision set" where
  "kv_revisions kv = fst ` set (kv_entries kv)"

definition kv_ok :: "'v key_values \<Rightarrow> bool" where
  "kv_ok kv \<longleftrightarrow> distinct (map fst (kv_entries kv)) \<and> (\<forall>r\<in>kv_revisions kv. r < kv_mint kv)"

text \<open>Nothing is lost and the mint does not go back.\<close>

definition kv_grows :: "'v key_values \<Rightarrow> 'v key_values \<Rightarrow> bool" where
  "kv_grows kv kv' \<longleftrightarrow> kv_ok kv' \<and> kv_revisions kv \<subseteq> kv_revisions kv' \<and> kv_mint kv \<le> kv_mint kv'"

lemma kv_revisions_simps [simp]:
  "kv_revisions (kv\<lparr>kv_mint := n\<rparr>) = kv_revisions kv" "kv_revisions (kv\<lparr>kv_injected := b\<rparr>) = kv_revisions kv"
  "kv_revisions (kv\<lparr>kv_entries := es\<rparr>) = fst ` set es"
  by (simp_all add: kv_revisions_def)

lemma kv_entry_None: "kv_entry kv r = None \<longleftrightarrow> r \<notin> kv_revisions kv"
  by (simp add: kv_entry_def kv_revisions_def map_of_eq_None)

lemma kv_default_ok [simp]: "kv_ok kv_default" "kv_revisions kv_default = {}"
  by (simp_all add: kv_ok_def kv_revisions_def kv_default_def)

lemma kv_mint_next_grows:
  assumes "kv_mint_next kv = Some (r, kv')" "kv_ok kv"
  shows "kv_ok kv' \<and> kv_entries kv' = kv_entries kv \<and> kv_injected kv' = kv_injected kv \<and> r = kv_mint kv \<and> kv_mint kv' = Suc r"
  using assms by (auto simp: kv_mint_next_def revision_next_def kv_ok_def less_Suc_eq split: if_splits)

lemma kv_insert_grows:
  assumes "kv_insert kv r p = Some kv'" "kv_ok kv" "r < kv_mint kv"
  shows "kv_grows kv kv' \<and> kv_revisions kv' = insert r (kv_revisions kv)"
proof -
  have kv': "kv' = kv\<lparr>kv_entries := kv_entries kv @ [(r, p)]\<rparr>" "r \<notin> kv_revisions kv"
    using assms(1) by (auto simp: kv_insert_def kv_entry_None split: if_splits)
  then have "kv_revisions kv' = insert r (kv_revisions kv)" by (simp add: kv_revisions_def)
  with kv' assms show ?thesis by (simp add: kv_grows_def kv_ok_def subset_insertI) (simp add: kv_revisions_def subset_insertI)
qed

lemma kv_update_grows:
  assumes "kv_ok kv" "r \<in> kv_revisions kv"
  shows "kv_grows kv (kv\<lparr>kv_entries := AList.update r p (kv_entries kv)\<rparr>)"
  using assms by (auto simp: kv_grows_def kv_ok_def kv_revisions_def keys_update distinct_keys_update)

lemma kv_grows_refl: "kv_ok kv \<Longrightarrow> kv_grows kv kv"
  by (simp add: kv_grows_def)

lemma kv_grows_trans: "kv_grows a b \<Longrightarrow> kv_grows b c \<Longrightarrow> kv_grows a c"
  by (auto simp: kv_grows_def)

lemma find_equal_in: "find_equal eq v kv = Some (r, e) \<Longrightarrow> r \<in> kv_revisions kv \<and> eq e v"
  by (force simp: find_equal_def kv_revisions_def dest!: find_Some_in split: option.splits)

lemma mint_insert_grows:
  assumes "kv_mint_next kv = Some (r, kv1)" "kv_insert kv1 r p = Some kv'" "kv_ok kv"
  shows "kv_grows kv kv' \<and> r \<in> kv_revisions kv'"
proof -
  note m = kv_mint_next_grows [OF assms(1,3)]
  have "kv_grows kv1 kv' \<and> kv_revisions kv' = insert r (kv_revisions kv1)"
    using kv_insert_grows [OF assms(2)] m by auto
  with m show ?thesis by (auto simp: kv_grows_def kv_revisions_def)
qed

lemma intern_computed_grows:
  assumes "intern_computed eq v kv gen = Some ((r, e), kv', gen')" "kv_ok kv"
  shows "kv_grows kv kv' \<and> r \<in> kv_revisions kv'"
  using assms mint_insert_grows [of kv _ _ _ kv'] find_equal_in [of eq v kv] kv_grows_refl
  by (auto simp: intern_computed_def bind_eq_Some_conv split: option.splits)

lemma intern_asserted_grows:
  assumes "intern_asserted eq v storage kv gen = Some (r, kv', gen')" "kv_ok kv"
  shows "kv_grows kv kv' \<and> r \<in> kv_revisions kv'"
proof -
  let ?kv = "kv\<lparr>kv_injected := (storage = InjectedStorage)\<rparr>"
  have ok: "kv_ok ?kv" "kv_grows kv ?kv" using assms(2) by (simp_all add: kv_ok_def kv_grows_def kv_revisions_def)
  have "kv_grows ?kv kv' \<and> r \<in> kv_revisions kv'"
    using assms(1) ok mint_insert_grows [of ?kv _ _ _ kv'] find_equal_in [of eq v ?kv] kv_grows_refl
    by (auto simp: intern_asserted_def Let_def bind_eq_Some_conv split: option.splits)
  with ok(2) kv_grows_trans show ?thesis by blast
qed

lemma kv_adopt_grows:
  assumes "kv_adopt r v policy kv gen = Some (e, kv', gen')" "kv_ok kv" "r < kv_mint kv"
  shows "kv_grows kv kv' \<and> r \<in> kv_revisions kv'"
proof (cases "kv_entry kv r")
  case None
  with assms kv_insert_grows [of kv r _ kv'] show ?thesis by (auto simp: kv_adopt_def bind_eq_Some_conv)
next
  case (Some stored)
  then have r: "r \<in> kv_revisions kv" using kv_entry_None [of kv r] by simp
  obtain p where kv': "kv' = kv\<lparr>kv_entries := AList.update r p (kv_entries kv)\<rparr>"
    using assms(1) Some by (auto simp: kv_adopt_def bind_eq_Some_conv)
  from kv_update_grows [OF assms(2) r, of p] r show ?thesis by (auto simp: kv' kv_grows_def)
qed

lemma kv_restore_grows:
  assumes "kv_restore r v policy kv gen = Some (e, kv', gen')" "kv_ok kv" "r < kv_mint kv"
  shows "kv_grows kv kv' \<and> r \<in> kv_revisions kv'"
proof (cases "kv_entry kv r")
  case None
  with assms kv_insert_grows [of kv r _ kv'] show ?thesis by (auto simp: kv_restore_def Let_def bind_eq_Some_conv)
next
  case (Some stored)
  then have r: "r \<in> kv_revisions kv" using kv_entry_None [of kv r] by simp
  obtain p where kv': "kv' = kv\<lparr>kv_entries := AList.update r p (kv_entries kv)\<rparr>"
    using assms(1) Some by (auto simp: kv_restore_def bind_eq_Some_conv)
  from kv_update_grows [OF assms(2) r, of p] r show ?thesis by (auto simp: kv' kv_grows_def)
qed

lemma each_value_fst: "each_value f es gen = Some (n, es', gen') \<Longrightarrow> map fst es' = map fst es"
  by (induction f es gen arbitrary: n es' gen' rule: each_value.induct) (auto simp: bind_eq_Some_conv)

lemma kv_grows_same:
  assumes "map fst (kv_entries kv') = map fst (kv_entries kv)" "kv_mint kv' = kv_mint kv" "kv_ok kv"
  shows "kv_grows kv kv'"
proof -
  have "kv_revisions kv' = kv_revisions kv" using arg_cong [OF assms(1), of set] by (simp add: kv_revisions_def)
  with assms show ?thesis by (simp add: kv_grows_def kv_ok_def)
qed

lemma kv_each_grows: "kv_each f kv gen = Some (n, kv', gen') \<Longrightarrow> kv_ok kv \<Longrightarrow> kv_grows kv kv'"
  by (auto simp: kv_each_def intro!: kv_grows_same dest: each_value_fst)

lemma kv_rehydrate_grows:
  assumes "kv_rehydrate dk v bytes policy kv gen = Some (u, kv', gen')" "kv_ok kv"
  shows "kv_grows kv kv'"
  using assms kv_update_grows [of kv] kv_grows_refl [of kv]
  by (fastforce simp: kv_rehydrate_def bind_eq_Some_conv kv_revisions_def dest!: find_Some_in split: option.splits)



section \<open>The paging index\<close>

text \<open>The tallies of a full scan.\<close>

definition tally_sum :: "page_out_policy \<Rightarrow> (contribution \<Rightarrow> nat) \<Rightarrow> 'v key_values key_map \<Rightarrow> nat" where
  "tally_sum policy f m = (\<Sum>(k, kv)\<leftarrow>m. f (kv_tally policy kv))"

definition tallied :: "page_out_policy \<Rightarrow> (contribution \<Rightarrow> nat) \<Rightarrow> 'v key_values key_map \<Rightarrow> key set" where
  "tallied policy f m = {k. \<exists>kv. map_of m k = Some kv \<and> f (kv_tally policy kv) > 0}"

definition index_ok :: "page_out_policy \<Rightarrow> 'v key_values key_map \<Rightarrow> pagable_index \<Rightarrow> bool" where
  "index_ok policy m i \<longleftrightarrow>
     i_resident_count i = tally_sum policy c_resident m \<and> i_paged_out_count i = tally_sum policy c_paged_out m
   \<and> i_candidate_count i = tally_sum policy c_candidates m \<and> i_backed_count i = tally_sum policy c_backed m
   \<and> i_backed_bytes i = tally_sum policy c_backed_bytes m
   \<and> sorted (i_candidates i) \<and> distinct (i_candidates i) \<and> set (i_candidates i) = tallied policy c_candidates m
   \<and> sorted (i_backed i) \<and> distinct (i_backed i) \<and> set (i_backed i) = tallied policy c_backed m"

definition kv_of :: "'v key_values key_map \<Rightarrow> key \<Rightarrow> 'v key_values" where
  "kv_of m k = (case map_of m k of Some kv \<Rightarrow> kv | None \<Rightarrow> kv_default)"

lemma kv_tally_default: "kv_tally policy kv_default = c_zero"
  by (simp add: kv_tally_def kv_default_def)

lemma c_zero_fields [simp]:
  "c_resident c_zero = 0" "c_paged_out c_zero = 0" "c_candidates c_zero = 0" "c_backed c_zero = 0" "c_backed_bytes c_zero = 0"
  by (simp_all add: c_zero_def)

lemma tally_sum_update:
  assumes "f c_zero = 0"
  shows "tally_sum policy f (AList.update k kv m) + f (kv_tally policy (kv_of m k)) =
     tally_sum policy f m + f (kv_tally policy kv)"
  by (induction m) (auto simp: tally_sum_def kv_of_def kv_tally_default assms)

lemma tally_sum_ge: "f c_zero = 0 \<Longrightarrow> f (kv_tally policy (kv_of m k)) \<le> tally_sum policy f m"
  by (induction m) (auto simp: tally_sum_def kv_of_def kv_tally_default)

lemma tallied_kv_of: "f c_zero = 0 \<Longrightarrow> k \<in> tallied policy f m \<longleftrightarrow> f (kv_tally policy (kv_of m k)) > 0"
  by (auto simp: tallied_def kv_of_def kv_tally_default split: option.splits)

lemma kv_of_update [simp]: "kv_of (AList.update k kv m) = (kv_of m)(k := kv)"
  by (auto simp: kv_of_def fun_eq_iff)

lemma index_track_ok:
  assumes "f c_zero = 0" "sorted is" "distinct is" "set is = tallied policy f m"
  shows "sorted (index_track is k (f (kv_tally policy (kv_of m k))) (f (kv_tally policy kv))) \<and>
    distinct (index_track is k (f (kv_tally policy (kv_of m k))) (f (kv_tally policy kv))) \<and>
    set (index_track is k (f (kv_tally policy (kv_of m k))) (f (kv_tally policy kv))) =
      tallied policy f (AList.update k kv m)"
proof -
  have mem: "x \<in> tallied policy f (AList.update k kv m) \<longleftrightarrow>
      (if x = k then f (kv_tally policy kv) > 0 else x \<in> tallied policy f m)" for x
    by (simp add: tallied_kv_of assms(1))
  have k: "k \<in> set is \<longleftrightarrow> f (kv_tally policy (kv_of m k)) > 0" using assms by (simp add: tallied_kv_of)
  show ?thesis
    using assms(2,3) k
    by (auto simp: index_track_def sorted_insort_insert distinct_insort_insert set_insort_insert sorted_remove1
        set_eq_iff mem assms(4) split: if_splits)
qed

lemma shift_count_tally:
  assumes "shift_count n (f (kv_tally policy kv)) (f (kv_tally policy (kv_of m k))) = Some n'"
    and "n = tally_sum policy f m" "f c_zero = 0"
  shows "n' = tally_sum policy f (AList.update k kv m)"
  using assms tally_sum_update [of f policy k kv m] by (auto simp: shift_count_def split: if_splits)

lemma same_tally_update:
  assumes "kv_tally policy (kv_of m k) = kv_tally policy kv" "f c_zero = 0"
  shows "tally_sum policy f (AList.update k kv m) = tally_sum policy f m"
    and "tallied policy f (AList.update k kv m) = tallied policy f m"
  using tally_sum_update [of f policy k kv m] assms
  by (simp_all add: set_eq_iff tallied_kv_of)

lemma index_apply_ok:
  assumes ok: "index_ok policy m i"
    and ap: "index_apply i k (kv_tally policy (kv_of m k)) (kv_tally policy kv) = Some i'"
  shows "index_ok policy (AList.update k kv m) i'"
proof (cases "kv_tally policy (kv_of m k) = kv_tally policy kv")
  case True
  then have "i' = i" using ap by (simp add: index_apply_def)
  with ok same_tally_update [OF True] show ?thesis by (simp add: index_ok_def)
next
  case False
  let ?b = "kv_tally policy (kv_of m k)" and ?a = "kv_tally policy kv"
  from ap False obtain res po ca ba bs where
    c: "shift_count (i_resident_count i) (c_resident ?a) (c_resident ?b) = Some res"
      "shift_count (i_paged_out_count i) (c_paged_out ?a) (c_paged_out ?b) = Some po"
      "shift_count (i_candidate_count i) (c_candidates ?a) (c_candidates ?b) = Some ca"
      "shift_count (i_backed_count i) (c_backed ?a) (c_backed ?b) = Some ba"
      "shift_count (i_backed_bytes i) (c_backed_bytes ?a) (c_backed_bytes ?b) = Some bs"
    and i': "i' = \<lparr>i_candidates = index_track (i_candidates i) k (c_candidates ?b) (c_candidates ?a), i_candidate_count = ca,
      i_backed = index_track (i_backed i) k (c_backed ?b) (c_backed ?a), i_backed_count = ba, i_backed_bytes = bs,
      i_resident_count = res, i_paged_out_count = po\<rparr>"
    by (auto simp: index_apply_def bind_eq_Some_conv)
  note o' = ok [unfolded index_ok_def]
  have "res = tally_sum policy c_resident (AList.update k kv m)" "po = tally_sum policy c_paged_out (AList.update k kv m)"
      "ca = tally_sum policy c_candidates (AList.update k kv m)" "ba = tally_sum policy c_backed (AList.update k kv m)"
      "bs = tally_sum policy c_backed_bytes (AList.update k kv m)"
    using c o' by (auto intro: shift_count_tally)
  moreover have "sorted (i_candidates i')" "distinct (i_candidates i')"
      "set (i_candidates i') = tallied policy c_candidates (AList.update k kv m)"
    using index_track_ok [of c_candidates "i_candidates i" policy m k kv] o' by (auto simp: i')
  moreover have "sorted (i_backed i')" "distinct (i_backed i')" "set (i_backed i') = tallied policy c_backed (AList.update k kv m)"
    using index_track_ok [of c_backed "i_backed i" policy m k kv] o' by (auto simp: i')
  ultimately show ?thesis by (simp add: index_ok_def) (simp add: i')
qed

text \<open>Nothing overflows below a quarter of the range, with room for \<open>n\<close> more.\<close>

definition index_room :: "nat \<Rightarrow> pagable_index \<Rightarrow> bool" where
  "index_room n i \<longleftrightarrow> i_resident_count i + n < 2 ^ 62 \<and> i_paged_out_count i + n < 2 ^ 62 \<and> i_candidate_count i + n < 2 ^ 62
     \<and> i_backed_count i + n < 2 ^ 62 \<and> i_backed_bytes i + n < 2 ^ 62"

definition tally_room :: "contribution \<Rightarrow> bool" where
  "tally_room c \<longleftrightarrow> c_resident c \<le> 2 ^ 62 \<and> c_paged_out c \<le> 2 ^ 62 \<and> c_candidates c \<le> 2 ^ 62
     \<and> c_backed c \<le> 2 ^ 62 \<and> c_backed_bytes c \<le> 2 ^ 62"

lemma index_apply_total:
  assumes "index_ok policy m i" "index_room n i" "tally_room (kv_tally policy kv)"
  shows "\<exists>i'. index_apply i k (kv_tally policy (kv_of m k)) (kv_tally policy kv) = Some i'"
proof -
  have "shift_count (tally_sum policy f m) (f (kv_tally policy kv)) (f (kv_tally policy (kv_of m k))) =
      Some (tally_sum policy f m + f (kv_tally policy kv) - f (kv_tally policy (kv_of m k)))"
    if "f c_zero = 0" "tally_sum policy f m < 2 ^ 62" "f (kv_tally policy kv) \<le> 2 ^ 62" for f
    using that tally_sum_ge [of f policy m k] by (simp add: shift_count_def u64_max_def trans_le_add1)
  with assms show ?thesis by (simp add: index_apply_def index_ok_def index_room_def tally_room_def)
qed

end
