(* ===== verification/Value_Retained.thy ===== *)
theory Value_Retained
  imports Value_Invariant
begin

text \<open>
  What the core references after each of its operations, and the invariant of the graph: every revision the core may
  answer with has a value.
\<close>

section \<open>What the core references\<close>

lemma pinned_certs_iff:
  assumes "wf_core st"
  shows "c \<in> set (pinned_certs st k) \<longleftrightarrow> c \<in> all_certs st \<and> cert_key c = k"
proof
  assume "c \<in> all_certs st \<and> cert_key c = k"
  then obtain k' b x where x: "claim_at st k' b = Some x" "claim_cert x = c" "cert_key c = k" by (auto simp: all_certs_def)
  then have "k' = k" using wf_coreD(2) [OF assms] by (auto simp: wf_claims_def)
  with x claim_at_pinned show "c \<in> set (pinned_certs st k)" by blast
qed (rule pinned_all_certs [OF assms])

lemma asserted_revision_iff:
  assumes "wf_store st"
  shows "(case map_of (assertions st) k of None \<Rightarrow> False
      | Some hs \<Rightarrow> \<exists>(_, history)\<in>set hs. \<exists>e\<in>set history. entry_revision e = r) \<longleftrightarrow>
    (\<exists>b. \<exists>e\<in>set (hist st k b). entry_revision e = r)"
proof (cases "map_of (assertions st) k")
  case (Some hs)
  then have d: "distinct (map fst hs)" using assms by (auto simp: wf_store_defs)
  have in_hist: "hist st k b = h" if "(b, h) \<in> set hs" for b h
    using find_distinct_map [OF d that, of b] Some by (simp add: hist_def history_of_find)
  have of_hist: "(b, hist st k b) \<in> set hs" if "e \<in> set (hist st k b)" for b e
    using that Some by (auto simp: hist_def history_of_find dest!: find_Some_in split: option.splits)
  have "(\<exists>(_, history)\<in>set hs. \<exists>e\<in>set history. entry_revision e = r) \<longleftrightarrow>
      (\<exists>b. \<exists>e\<in>set (hist st k b). entry_revision e = r)" (is "?l \<longleftrightarrow> ?r")
  proof
    show "?l \<Longrightarrow> ?r" using in_hist by blast
    show "?r \<Longrightarrow> ?l" using of_hist by blast
  qed
  with Some show ?thesis by simp
qed (simp add: hist_def)

lemma is_referenced_iff:
  assumes "wf_core st"
  shows "is_referenced st k r \<longleftrightarrow>
    (\<exists>c\<in>all_certs st. cert_key c = k \<and> cert_revision c = r) \<or> (\<exists>b. \<exists>e\<in>set (hist st k b). entry_revision e = r)"
  unfolding is_referenced_def asserted_revision_iff [OF wf_coreD(4) [OF assms]]
  using pinned_certs_iff [OF assms] by blast

lemma referenced_mono:
  assumes "wf_core st" "wf_core st'" "all_certs st' \<subseteq> all_certs st"
    and "\<And>b e. e \<in> set (hist st' k b) \<Longrightarrow> \<exists>d. \<exists>e'\<in>set (hist st k d). entry_revision e' = entry_revision e"
    and "is_referenced st' k r"
  shows "is_referenced st k r"
  using assms by (fastforce simp: is_referenced_iff)

lemma core_inv_wf: "core_inv E st \<Longrightarrow> wf_core st"
  by (simp add: core_inv_def)

lemma new_root_referenced:
  assumes "new_root st = Some (b, st')"
  shows "is_referenced st' k r = is_referenced st k r"
  using new_root_grown(1) [OF assms] by (auto simp: grown_def is_referenced_def pinned_certs_def slots_of_def)

lemma new_root_inv:
  assumes "new_root st = Some (b, st')" "core_inv E st"
  shows "core_inv E st'"
  using new_root_correct [OF assms] by blast

lemma fork_referenced:
  assumes "core_inv E st" "core_inv E st'" "forked E st b s c st'" "is_referenced st' k r"
  shows "is_referenced st k r"
  using referenced_mono [OF core_inv_wf [OF assms(1)] core_inv_wf [OF assms(2)] _ _ assms(4)] assms(3)
  by (auto simp: forked_def)

lemma inherit_history_revisions:
  "e \<in> set (inherit_history first s own inherited) \<Longrightarrow>
     \<exists>e'\<in>set own \<union> set inherited. entry_revision e' = entry_revision e"
  by (fastforce simp: inherit_history_def entry_at_first_def history_at_def split: option.splits if_splits dest: find_Some_in)

lemma delete_referenced:
  assumes inv: "core_inv E st" "core_inv E st'" and del: "deleted b st st'" and certs: "all_certs st' \<subseteq> all_certs st"
    and ref: "is_referenced st' k r"
  shows "is_referenced st k r"
proof (rule referenced_mono [OF core_inv_wf [OF inv(1)] core_inv_wf [OF inv(2)] certs _ ref])
  fix d e assume e: "e \<in> set (hist st' k d)"
  then have "hist st' k d \<noteq> []" by auto
  then have "is_live st' d" by (rule wf_store_hist_live [OF wf_coreD(4) [OF core_inv_wf [OF inv(2)]]])
  then have "is_live st d" "d \<noteq> b" using del by (auto simp: deleted_def split: if_splits)
  then have "hist st' k d = (case forked_from st b d of None \<Rightarrow> hist st k d
      | Some s \<Rightarrow> inherit_history (fseq st d) s (hist st k d) (hist st k b))" using del by (simp add: deleted_def)
  with e show "\<exists>d. \<exists>e'\<in>set (hist st k d). entry_revision e' = entry_revision e"
    by (auto split: option.splits dest!: inherit_history_revisions)
qed

lemma commit_referenced:
  assumes cm: "commit E st nxt b cs = Some (st', nxt', v)" and inv: "core_inv E st" "core_inv E st'"
    and ref: "is_referenced st' k r"
  shows "is_referenced st k r \<or> (\<exists>d. Assert k r d \<in> set cs)"
proof -
  from commit_correct [OF cm inv(1)] consider "st' = st" | V where "committed E st b cs V st'" by blast
  then show ?thesis
  proof cases
    case 1 then show ?thesis using ref by simp
  next
    case (2 V)
    then obtain Q st1 where ch: "changed st b cs Q st1" and adv: "advanced st1 b V st'" by (auto simp: committed_def)
    have hist: "hist st' = hist st1" using adv by (simp add: advanced_def)
    have "(\<exists>d. \<exists>e'\<in>set (hist st k d). entry_revision e' = entry_revision e) \<or> (\<exists>d. Assert k (entry_revision e) d \<in> set cs)"
      if e: "e \<in> set (hist st' k d)" for d e
    proof (cases "\<exists>r d. Assert k r d \<in> set cs")
      case True
      then obtain r' p where a: "Assert k r' p \<in> set cs" by blast
      then have "d \<noteq> b \<Longrightarrow> hist st1 k d = hist st k d"
        "(\<exists>x. hist st1 k b = hist st k b @ [x] \<and> entry_revision x = r') \<or> hist st1 k = hist st k"
        using ch unfolding changed_def by blast+
      with e a hist show ?thesis by (cases "d = b") fastforce+
    next
      case False
      then have "hist st1 k = hist st k" using ch by (simp add: changed_def)
      with e hist show ?thesis by auto
    qed
    moreover have "all_certs st' \<subseteq> all_certs st" using committed_tree(8) [OF 2] .
    ultimately show ?thesis
      using ref unfolding is_referenced_iff [OF core_inv_wf [OF inv(1)]] is_referenced_iff [OF core_inv_wf [OF inv(2)]] by blast
  qed
qed

lemma write_referenced:
  assumes inv: "core_inv E st" and as: "\<not> is_asserted st (cert_key cert)"
  shows "\<exists>st' out. write_cert E st cert = Some (st', out) \<and> core_inv E st' \<and> same_world st st' \<and>
    (\<forall>k r. is_referenced st' k r \<longrightarrow> is_referenced st k r \<or> k = cert_key cert \<and> r = cert_revision cert)"
proof -
  let ?A = "insert cert (all_certs st)"
  from write_correct [OF inv as order_refl] obtain st' out where
    w: "write_cert E st cert = Some (st', out)" and steps: "(write_step E ?A cert)\<^sup>*\<^sup>* st st'" by blast
  from write_steps_inv [OF steps inv] have inv': "core_inv E st'" and sw: "same_world st st'" and certs: "all_certs st' \<subseteq> ?A" by auto
  have "is_referenced st k r \<or> k = cert_key cert \<and> r = cert_revision cert" if "is_referenced st' k r" for k r
    using that certs sw
    unfolding is_referenced_iff [OF core_inv_wf [OF inv]] is_referenced_iff [OF core_inv_wf [OF inv']]
    by (auto simp: same_world_def)
  with w inv' sw show ?thesis by blast
qed

end
