(* ===== verification/Value_Run.thy ===== *)
theory Value_Run
  imports Value_Retained
begin

text \<open>
  The runs of the graph: every operation keeps its invariant, whatever the transactions do in between. A run remembers the certificates it
  has handed out as candidates, which may come back to be revalidated after the state has dropped them, and the
  untracked-input token each lookup answered, with which a transaction writes later.
\<close>

section \<open>The invariant\<close>

definition values_ok :: "'v versioned_graph \<Rightarrow> bool" where
  "values_ok g \<longleftrightarrow> (\<forall>k. kv_ok (values_of g k)) \<and> index_ok (vg_policy g) (vg_values g) (vg_index g)"

definition retained :: "'v versioned_graph \<Rightarrow> bool" where
  "retained g \<longleftrightarrow> (\<forall>k r. is_referenced (vg_core g) k r \<longrightarrow> r \<in> kv_revisions (values_of g k))"

definition graph_ok :: "'v versioned_graph \<Rightarrow> bool" where
  "graph_ok g \<longleftrightarrow> core_inv dice_env (vg_core g) \<and> values_ok g \<and> retained g"

text \<open>What a version keeps while its branch lives; a branch that is gone stays gone.\<close>

definition core_keeps :: "('p, 'd, 'a) core_state \<Rightarrow> ('p, 'd, 'a) core_state \<Rightarrow> bool" where
  "core_keeps st st' \<longleftrightarrow> length (branches st) \<le> length (branches st')
     \<and> (\<forall>b < length (branches st). is_live st' b \<longrightarrow> is_live st b
          \<and> fseq st' b = fseq st b \<and> hseq st b \<le> hseq st' b
          \<and> (\<forall>k s. fseq st b \<le> s \<longrightarrow> s \<le> hseq st b \<longrightarrow> eps_at st' k b s = eps_at st k b s))"

definition graph_keeps :: "'v versioned_graph \<Rightarrow> 'v versioned_graph \<Rightarrow> bool" where
  "graph_keeps g g' \<longleftrightarrow> graph_ok g' \<and> core_keeps (vg_core g) (vg_core g')
     \<and> (\<forall>k. kv_mint (values_of g k) \<le> kv_mint (values_of g' k))"

lemma core_keeps_refl [simp]: "core_keeps st st"
  by (simp add: core_keeps_def)

lemma core_keeps_trans:
  assumes ab: "core_keeps a b" and bc: "core_keeps b c"
  shows "core_keeps a c"
proof -
  have len: "length (branches a) \<le> length (branches b)" "length (branches b) \<le> length (branches c)"
    using ab bc by (simp_all add: core_keeps_def)
  have "is_live a d \<and> fseq c d = fseq a d \<and> hseq a d \<le> hseq c d \<and>
      (\<forall>k s. fseq a d \<le> s \<longrightarrow> s \<le> hseq a d \<longrightarrow> eps_at c k d s = eps_at a k d s)"
    if d: "d < length (branches a)" "is_live c d" for d
  proof -
    have c: "is_live b d" "fseq c d = fseq b d" "hseq b d \<le> hseq c d"
        "fseq b d \<le> s \<Longrightarrow> s \<le> hseq b d \<Longrightarrow> eps_at c k d s = eps_at b k d s" for k s
      using bc d len by (auto simp: core_keeps_def)
    moreover have "is_live a d" "fseq b d = fseq a d" "hseq a d \<le> hseq b d"
        "fseq a d \<le> s \<Longrightarrow> s \<le> hseq a d \<Longrightarrow> eps_at b k d s = eps_at a k d s" for k s
      using ab c(1) d(1) by (auto simp: core_keeps_def)
    ultimately show ?thesis by auto
  qed
  with len show ?thesis by (auto simp: core_keeps_def)
qed

lemma graph_keeps_trans: "graph_keeps a b \<Longrightarrow> graph_keeps b c \<Longrightarrow> graph_keeps a c"
  using core_keeps_trans by (fastforce simp: graph_keeps_def intro: le_trans)

lemma graph_keeps_refl: "graph_ok g \<Longrightarrow> graph_keeps g g"
  by (simp add: graph_keeps_def)

lemma values_of_kv_of: "values_of g k = kv_of (vg_values g) k"
  by (simp add: values_of_def kv_of_def)

lemma graph_okD:
  assumes "graph_ok g"
  shows "core_inv dice_env (vg_core g)" "wf_core (vg_core g)" "wf_tree (vg_core g)" "kv_ok (values_of g k)"
    "index_ok (vg_policy g) (vg_values g) (vg_index g)" "is_referenced (vg_core g) k r \<Longrightarrow> r \<in> kv_revisions (values_of g k)"
  using assms by (auto simp: graph_ok_def values_ok_def retained_def core_inv_def wf_core_def)

lemma referenced_minted: "graph_ok g \<Longrightarrow> is_referenced (vg_core g) k r \<Longrightarrow> r < kv_mint (values_of g k)"
  using graph_okD(4,6) by (fastforce simp: kv_ok_def)


section \<open>Changing the values of a key\<close>

text \<open>The graph with other values for a key, and the index that goes with them.\<close>

definition set_values :: "key \<Rightarrow> 'v key_values \<Rightarrow> 'v versioned_graph \<Rightarrow> 'v versioned_graph \<Rightarrow> bool" where
  "set_values k kv g g' \<longleftrightarrow> vg_core g' = vg_core g \<and> vg_policy g' = vg_policy g \<and> vg_tokens g' = vg_tokens g
     \<and> values_of g' = (values_of g)(k := kv) \<and> (values_ok g \<longrightarrow> kv_ok kv \<longrightarrow> values_ok g')"

lemma with_values_set:
  assumes "with_values g k f = Some (x, g')"
  shows "\<exists>kv gen. f (values_of g k) (vg_generation g) = Some (x, kv, gen) \<and> set_values k kv g g'"
proof -
  let ?kv = "values_of g k"
  from assms obtain kv gen index where f: "f ?kv (vg_generation g) = Some (x, kv, gen)"
    and i: "index_apply (vg_index g) k (kv_tally (vg_policy g) ?kv) (kv_tally (vg_policy g) kv) = Some index"
    and g': "g' = g\<lparr>vg_values := AList.update k kv (vg_values g), vg_index := index, vg_generation := gen\<rparr>"
    by (auto simp: with_values_def Let_def contribution_of_def bind_eq_Some_conv split: if_splits)
  have v: "values_of g' = (values_of g)(k := kv)" by (rule ext) (simp add: values_of_kv_of g')
  moreover have "values_ok g'" if "values_ok g" "kv_ok kv"
    using that v index_apply_ok [of "vg_policy g" "vg_values g" "vg_index g" k kv index] i
    by (simp add: values_ok_def g' values_of_kv_of)
  ultimately show ?thesis using f by (auto simp: set_values_def g')
qed

lemma with_values_total:
  assumes ok: "values_ok g" and f: "f (values_of g k) (vg_generation g) = Some (x, kv, gen)"
    and room: "index_room n (vg_index g)" "tally_room (kv_tally (vg_policy g) kv)"
  shows "\<exists>g'. with_values g k f = Some (x, g')"
proof -
  have i: "index_ok (vg_policy g) (vg_values g) (vg_index g)" using ok by (simp add: values_ok_def)
  have "c_backed_bytes (kv_tally (vg_policy g) (values_of g k)) < 2 ^ 62"
    using tally_sum_ge [of c_backed_bytes "vg_policy g" "vg_values g" k] i room(1)
    by (simp add: index_ok_def index_room_def values_of_kv_of)
  then have before: "contribution_of (vg_policy g) (values_of g k) = Some (kv_tally (vg_policy g) (values_of g k))"
    by (simp add: contribution_of_def u64_max_def)
  have after: "contribution_of (vg_policy g) kv = Some (kv_tally (vg_policy g) kv)"
    using room(2) by (simp add: contribution_of_def tally_room_def u64_max_def)
  from index_apply_total [OF i room, of k] before after f show ?thesis
    by (auto simp: with_values_def Let_def values_of_kv_of)
qed

lemma set_values_keeps:
  assumes g: "graph_ok g" and s: "set_values k kv g g'" and ok: "kv_ok kv" and mint: "kv_mint (values_of g k) \<le> kv_mint kv"
    and ret: "\<And>r. is_referenced (vg_core g) k r \<Longrightarrow> r \<in> kv_revisions kv"
  shows "graph_keeps g g'"
proof -
  have "values_ok g'" using g s ok by (simp add: set_values_def graph_ok_def)
  moreover have "retained g'" using graph_okD(6) [OF g] ret s by (auto simp: retained_def set_values_def)
  ultimately show ?thesis using g s mint by (auto simp: graph_keeps_def graph_ok_def set_values_def)
qed

lemma set_values_grows:
  assumes "graph_ok g" "set_values k kv g g'" "kv_grows (values_of g k) kv"
  shows "graph_keeps g g'"
  using set_values_keeps [OF assms(1,2)] graph_okD(6) [OF assms(1)] assms(3) by (auto simp: kv_grows_def)

lemma with_values_keeps:
  assumes "with_values g k f = Some (x, g')" "graph_ok g"
    and "\<And>gen kv gen'. f (values_of g k) gen = Some (x, kv, gen') \<Longrightarrow> kv_grows (values_of g k) kv"
  shows "graph_keeps g g'"
  using with_values_set [OF assms(1)] set_values_grows [OF assms(2)] assms(3) by blast


section \<open>Changing the core\<close>

text \<open>A core operation that keeps versions and references nothing new.\<close>

lemma core_step_keeps:
  assumes g: "graph_ok g" and inv: "core_inv dice_env st" and keeps: "core_keeps (vg_core g) st"
    and ref: "\<And>k r. is_referenced st k r \<Longrightarrow> r \<in> kv_revisions (values_of g k)"
  shows "graph_keeps g (g\<lparr>vg_core := st, vg_tokens := tokens\<rparr>)"
proof -
  have v: "values_of (g\<lparr>vg_core := st, vg_tokens := tokens\<rparr>) = values_of g" by (simp add: values_of_def fun_eq_iff)
  then show ?thesis using g inv keeps ref by (simp add: graph_keeps_def graph_ok_def values_ok_def retained_def)
qed

lemma new_root_keeps:
  assumes "new_root st = Some (b, st')" "core_inv E st"
  shows "core_keeps st st'"
proof -
  from new_root_correct [OF assms] have g: "grown st b None st'" by blast
  then show ?thesis using grown_answers(3) [OF g] by (auto simp: core_keeps_def grown_def)
qed

lemma fork_keeps:
  assumes "forked E st b s (length (branches st)) st'"
  shows "core_keeps st st'"
  using assms by (auto simp: core_keeps_def forked_def)

lemma commit_keeps:
  assumes cm: "commit E st nxt b cs = Some (st', nxt', v)" and inv: "core_inv E st"
  shows "core_keeps st st'"
proof -
  from commit_correct [OF cm inv] consider "st' = st" | V where "committed E st b cs V st'" by blast
  then show ?thesis
  proof cases
    case (2 V)
    from committed_tree [OF 2] committed_old(3) [OF 2 core_inv_wf [OF inv]] show ?thesis by (auto simp: core_keeps_def)
  qed simp
qed

lemma delete_keeps:
  assumes "deleted b st st'" "\<forall>d. is_live st d \<longrightarrow> d \<noteq> b \<longrightarrow> same_answers st st' d"
  shows "core_keeps st st'"
  using assms by (auto simp: core_keeps_def deleted_def same_answers_def)

lemma same_world_keeps: "same_world st st' \<Longrightarrow> core_keeps st st'"
  by (simp add: core_keeps_def same_world_views same_world_asserted_views)



section \<open>The operations\<close>

lemma vg_new_ok: "graph_ok (vg_new tokens generation)"
proof -
  have "\<not> is_referenced core_new k r" for k r
    by (simp add: is_referenced_def pinned_certs_def slots_of_def core_new_def map_filter_def)
  moreover have "core_inv dice_env core_new" by (rule core_new_inv)
  ultimately show ?thesis
    by (auto simp: graph_ok_def vg_new_def values_ok_def retained_def values_of_def index_ok_def index_default_def
        tally_sum_def tallied_def)
qed

lemma vg_new_root_keeps:
  assumes "vg_new_root g = Some (b, g')" "graph_ok g"
  shows "graph_keeps g g'"
proof -
  obtain st where nr: "new_root (vg_core g) = Some (b, st)" and g': "g' = g\<lparr>vg_core := st, vg_tokens := vg_tokens g\<rparr>"
    using assms(1) by (auto simp: vg_new_root_def)
  show ?thesis unfolding g'
    by (rule core_step_keeps [OF assms(2) new_root_inv [OF nr graph_okD(1) [OF assms(2)]] new_root_keeps [OF nr graph_okD(1) [OF assms(2)]]])
       (use graph_okD(6) [OF assms(2)] new_root_referenced [OF nr] in blast)
qed

lemma fork_Some_room: "fork E st v = Some (b, st') \<Longrightarrow> length (branches st) \<le> u32_max"
  by (auto simp: fork_def Let_def branch_from_index_def split: Option.bind_split_asm if_split_asm)

lemma vg_fork_keeps:
  assumes f: "vg_fork g v = Some (b, g')" and g: "graph_ok g" and v: "version_in (vg_core g) v"
  shows "graph_keeps g g'"
proof -
  note I = graph_okD(1) [OF g]
  obtain st where fk: "fork dice_env (vg_core g) v = Some (b, st)" and g': "g' = g\<lparr>vg_core := st, vg_tokens := vg_tokens g\<rparr>"
    using f by (auto simp: vg_fork_def)
  obtain d s where vv: "v = Version d s" by (cases v)
  have live: "is_live (vg_core g) d" "fseq (vg_core g) d \<le> s" "s \<le> hseq (vg_core g) d"
    using v by (simp_all add: version_in_def vv)
  from fork_correct [OF I live fork_Some_room [OF fk]] fk vv
  have inv: "core_inv dice_env st" and fd: "forked dice_env (vg_core g) d s (length (branches (vg_core g))) st" by auto
  show ?thesis unfolding g'
    by (rule core_step_keeps [OF g inv fork_keeps [OF fd]]) (use graph_okD(6) [OF g] fork_referenced [OF I inv fd] in blast)
qed

lemma intern_changes_keeps:
  "intern_changes eq cs g = Some (changes, g') \<Longrightarrow> graph_ok g \<Longrightarrow>
     graph_keeps g g' \<and> vg_core g' = vg_core g \<and> vg_tokens g' = vg_tokens g \<and>
     (\<forall>k. kv_revisions (values_of g k) \<subseteq> kv_revisions (values_of g' k)) \<and>
     (\<forall>k r p. Assert k r p \<in> set changes \<longrightarrow> r \<in> kv_revisions (values_of g' k))"
proof (induction eq cs g arbitrary: changes g' rule: intern_changes.induct)
  case (1 eq g)
  then show ?case by (auto intro: graph_keeps_refl)
next
  case (2 eq k priority cs g)
  then obtain changes1 where "intern_changes eq cs g = Some (changes1, g')" "changes = Dirty k priority # changes1"
    by (auto simp: bind_eq_Some_conv)
  with 2(1) [OF this(1) 2(3)] show ?case by auto
next
  case (3 eq k v storage priority cs g)
  from 3(2) obtain r g1 changes1 where w: "with_values g k (intern_asserted eq v storage) = Some (r, g1)"
    and rest: "intern_changes eq cs g1 = Some (changes1, g')" and ch: "changes = Assert k r priority # changes1"
    by (auto simp: bind_eq_Some_conv)
  from with_values_set [OF w] obtain kv gen where f: "intern_asserted eq v storage (values_of g k) (vg_generation g) = Some (r, kv, gen)"
    and s: "set_values k kv g g1" by blast
  note grows = intern_asserted_grows [OF f graph_okD(4) [OF 3(3)]]
  have k1: "graph_keeps g g1" using set_values_grows [OF 3(3) s] grows by blast
  then have "graph_ok g1" by (simp add: graph_keeps_def)
  from 3(1) [OF w refl rest this] have IH: "graph_keeps g1 g'" "vg_core g' = vg_core g1" "vg_tokens g' = vg_tokens g1"
    "kv_revisions (values_of g1 j) \<subseteq> kv_revisions (values_of g' j)"
    "Assert j q p \<in> set changes1 \<Longrightarrow> q \<in> kv_revisions (values_of g' j)" for j q p by blast+
  have r: "r \<in> kv_revisions (values_of g1 k)" and sub: "kv_revisions (values_of g j) \<subseteq> kv_revisions (values_of g1 j)" for j
    using grows s by (auto simp: set_values_def kv_grows_def)
  from s IH(2,3) have "vg_core g' = vg_core g" "vg_tokens g' = vg_tokens g" by (simp_all add: set_values_def)
  moreover have "q \<in> kv_revisions (values_of g' j)" if "Assert j q p \<in> set changes" for j q p
    using that r IH(4,5) by (auto simp: ch)
  ultimately show ?case using graph_keeps_trans [OF k1 IH(1)] sub IH(4) by blast
qed

lemma vg_commit_keeps:
  assumes c: "vg_commit eq g b cs = Some (v, g')" and g: "graph_ok g"
  shows "graph_keeps g g'"
proof -
  from c obtain changes g1 st tokens where i: "intern_changes eq cs g = Some (changes, g1)"
    and cm: "commit dice_env (vg_core g1) (vg_tokens g1) b changes = Some (st, tokens, v)"
    and g': "g' = g1\<lparr>vg_core := st, vg_tokens := tokens\<rparr>"
    by (auto simp: vg_commit_def bind_eq_Some_conv)
  from intern_changes_keeps [OF i g] have k1: "graph_keeps g g1" and a: "\<And>k r p. Assert k r p \<in> set changes \<Longrightarrow> r \<in> kv_revisions (values_of g1 k)"
    by blast+
  then have ok1: "graph_ok g1" by (simp add: graph_keeps_def)
  note I = graph_okD(1) [OF ok1]
  have inv: "core_inv dice_env st" using commit_answers [OF cm I] by blast
  have "graph_keeps g1 g'" unfolding g'
    by (rule core_step_keeps [OF ok1 inv commit_keeps [OF cm I]])
       (use commit_referenced [OF cm I inv] a graph_okD(6) [OF ok1] in blast)
  with k1 show ?thesis by (rule graph_keeps_trans)
qed

lemma kv_retain_set:
  assumes w: "with_values g k (kv_retain (vg_core g) k) = Some (u, g')" and g: "graph_ok g"
  shows "graph_keeps g g'" "vg_core g' = vg_core g"
proof -
  from with_values_set [OF w] obtain kv where kv: "kv = (values_of g k)\<lparr>kv_entries := filter (\<lambda>(r, _). is_referenced (vg_core g) k r) (kv_entries (values_of g k))\<rparr>"
    and s: "set_values k kv g g'" by (auto simp: kv_retain_def)
  have revs: "kv_revisions kv = {r \<in> kv_revisions (values_of g k). is_referenced (vg_core g) k r}"
    by (force simp: kv kv_revisions_def)
  have "kv_ok kv" using graph_okD(4) [OF g, of k] by (auto simp: kv kv_ok_def kv_revisions_def distinct_map_filter)
  then show "graph_keeps g g'"
    by (rule set_values_keeps [OF g s]) (use graph_okD(6) [OF g] revs in \<open>auto simp: kv\<close>)
  show "vg_core g' = vg_core g" using s by (simp add: set_values_def)
qed

lemma release_unreferenced_keeps:
  "release_unreferenced ks g = Some g' \<Longrightarrow> graph_ok g \<Longrightarrow> graph_keeps g g'"
proof (induction ks g rule: release_unreferenced.induct)
  case (1 g)
  then show ?case by (simp add: graph_keeps_refl)
next
  case (2 k ks g)
  then obtain u g1 where w: "with_values g k (kv_retain (vg_core g) k) = Some (u, g1)" and rest: "release_unreferenced ks g1 = Some g'"
    by (auto simp: bind_eq_Some_conv)
  have k1: "graph_keeps g g1" by (rule kv_retain_set(1) [OF w 2(3)])
  moreover from k1 have "graph_ok g1" by (simp add: graph_keeps_def)
  ultimately show ?case using 2(1) [OF w refl rest] graph_keeps_trans by blast
qed

lemma delete_branch_live: "delete_branch st b = Some x \<Longrightarrow> is_live st b"
  by (auto simp: delete_branch_def is_live_branch_of split: Option.bind_split_asm)

lemma vg_delete_keeps:
  assumes d: "vg_delete_branch g b = Some g'" and g: "graph_ok g"
  shows "graph_keeps g g'"
proof -
  note I = graph_okD(1) [OF g]
  from d obtain ks st where db: "delete_branch (vg_core g) b = Some (ks, st)"
    and rel: "release_unreferenced ks (g\<lparr>vg_core := st\<rparr>) = Some g'"
    by (auto simp: vg_delete_branch_def bind_eq_Some_conv)
  from delete_branch_correct [OF I delete_branch_live [OF db]] db have inv: "core_inv dice_env st" and del: "deleted b (vg_core g) st"
    and certs: "all_certs st \<subseteq> all_certs (vg_core g)"
    and sa: "\<forall>d. is_live (vg_core g) d \<longrightarrow> d \<noteq> b \<longrightarrow> same_answers (vg_core g) st d" by auto
  have "graph_keeps g (g\<lparr>vg_core := st, vg_tokens := vg_tokens g\<rparr>)"
    by (rule core_step_keeps [OF g inv delete_keeps [OF del sa]])
       (use graph_okD(6) [OF g] delete_referenced [OF I inv del certs] in blast)
  then have k1: "graph_keeps g (g\<lparr>vg_core := st\<rparr>)" by simp
  then have "graph_ok (g\<lparr>vg_core := st\<rparr>)" by (simp add: graph_keeps_def)
  from graph_keeps_trans [OF k1 release_unreferenced_keeps [OF rel this]] show ?thesis .
qed

lemma finish_write_core:
  assumes f: "finish_write g k v cert sources = Some (s', g')"
  shows "\<exists>st out u. write_cert dice_env (vg_core g) cert = Some (st, out) \<and>
    with_values (g\<lparr>vg_core := st\<rparr>) k (kv_retain st k) = Some (u, g')"
  using f by (auto simp: finish_write_def split: Option.bind_split_asm if_split_asm prod.split_asm)

lemma finish_write_keeps:
  assumes f: "finish_write g k v cert sources = Some (s', g')" and g: "graph_ok g"
    and k: "cert_key cert = k" and r: "cert_revision cert \<in> kv_revisions (values_of g k)"
  shows "graph_keeps g g'"
proof -
  note I = graph_okD(1) [OF g]
  from finish_write_core [OF f] obtain st out u where w: "write_cert dice_env (vg_core g) cert = Some (st, out)"
    and ret: "with_values (g\<lparr>vg_core := st\<rparr>) k (kv_retain st k) = Some (u, g')" by blast
  have "\<not> is_asserted (vg_core g) (cert_key cert)" using w by (auto simp: write_cert_def split: if_splits)
  from write_referenced [OF I this] w have inv: "core_inv dice_env st" and sw: "same_world (vg_core g) st"
    and ref: "\<And>k r. is_referenced st k r \<Longrightarrow> is_referenced (vg_core g) k r \<or> k = cert_key cert \<and> r = cert_revision cert" by auto
  have "graph_keeps g (g\<lparr>vg_core := st, vg_tokens := vg_tokens g\<rparr>)"
    by (rule core_step_keeps [OF g inv same_world_keeps [OF sw]]) (use ref graph_okD(6) [OF g] r k in blast)
  then have k1: "graph_keeps g (g\<lparr>vg_core := st\<rparr>)" by simp
  then have ok: "graph_ok (g\<lparr>vg_core := st\<rparr>)" by (simp add: graph_keeps_def)
  have ret': "with_values (g\<lparr>vg_core := st\<rparr>) k (kv_retain (vg_core (g\<lparr>vg_core := st\<rparr>)) k) = Some (u, g')" using ret by simp
  from graph_keeps_trans [OF k1 kv_retain_set(1) [OF ret' ok]] show ?thesis .
qed

lemma update_computed_keeps:
  assumes u: "update_computed eq g k v value deps eps sources = Some (c, g')" and g: "graph_ok g"
  shows "graph_keeps g g'"
proof (cases "is_live (vg_core g) (vbranch v)")
  case False
  then obtain r where w: "with_values g k (\<lambda>kv gen. map_option (\<lambda>(r, kv). (r, kv, gen)) (kv_mint_next kv)) = Some (r, g')"
    using u by (auto simp: update_computed_def bind_eq_Some_conv)
  show ?thesis
    by (rule with_values_keeps [OF w g])
       (use kv_mint_next_grows [OF _ graph_okD(4) [OF g]] in \<open>fastforce simp: kv_grows_def kv_revisions_def\<close>)
next
  case True
  show ?thesis
  proof (cases "find (\<lambda>c. cert_epsilon c = eps \<and> deps_eq (cert_deps c) deps) (pinned_certs (vg_core g) k)")
    case (Some cert)
    then have pin: "cert \<in> set (pinned_certs (vg_core g) k)" by (rule find_Some_in [THEN conjunct1])
    then have key: "cert_key cert = k" using pinned_certs_iff [OF graph_okD(2) [OF g]] by blast
    have "is_referenced (vg_core g) k (cert_revision cert)" using pin by (auto simp: is_referenced_def)
    note minted = referenced_minted [OF g this]
    from u True Some obtain stored g1 s' where w: "with_values g k (kv_adopt (cert_revision cert) value (vg_policy g)) = Some (stored, g1)"
      and fw: "finish_write g1 k v cert sources = Some (s', g')"
      by (auto simp: update_computed_def bind_eq_Some_conv split: if_splits)
    from with_values_set [OF w] obtain kv gen where f: "kv_adopt (cert_revision cert) value (vg_policy g) (values_of g k) (vg_generation g) = Some (stored, kv, gen)"
      and s: "set_values k kv g g1" by blast
    note grows = kv_adopt_grows [OF f graph_okD(4) [OF g] minted]
    have k1: "graph_keeps g g1" using set_values_grows [OF g s] grows by blast
    then have "graph_ok g1" by (simp add: graph_keeps_def)
    moreover have "cert_revision cert \<in> kv_revisions (values_of g1 k)" using grows s by (simp add: set_values_def)
    ultimately show ?thesis using graph_keeps_trans [OF k1] finish_write_keeps [OF fw _ key] by blast
  next
    case None
    from u True None obtain r stored g1 s' where w: "with_values g k (intern_computed eq value) = Some ((r, stored), g1)"
      and fw: "finish_write g1 k v \<lparr>cert_key = k, cert_revision = r, cert_deps = deps, cert_epsilon = eps\<rparr> sources = Some (s', g')"
      by (auto simp: update_computed_def bind_eq_Some_conv split: if_splits)
    from with_values_set [OF w] obtain kv gen where f: "intern_computed eq value (values_of g k) (vg_generation g) = Some ((r, stored), kv, gen)"
      and s: "set_values k kv g g1" by blast
    note grows = intern_computed_grows [OF f graph_okD(4) [OF g]]
    have k1: "graph_keeps g g1" using set_values_grows [OF g s] grows by blast
    then have "graph_ok g1" by (simp add: graph_keeps_def)
    moreover have "r \<in> kv_revisions (values_of g1 k)" using grows s by (simp add: set_values_def)
    ultimately show ?thesis using graph_keeps_trans [OF k1] finish_write_keeps [OF fw] by simp
  qed
qed

lemma revalidate_keeps:
  assumes u: "revalidate g k v c sources = Some (x, g')" and g: "graph_ok g"
    and key: "cert_key (cand_cert c) = k" and minted: "cert_revision (cand_cert c) < kv_mint (values_of g k)"
  shows "graph_keeps g g'"
proof (cases "is_live (vg_core g) (vbranch v)")
  case False
  then show ?thesis using u g by (auto simp: revalidate_def Let_def graph_keeps_refl)
next
  case True
  from u True obtain val g1 s' where w: "with_values g k (kv_restore (cert_revision (cand_cert c)) (cand_entry c) (vg_policy g)) = Some (val, g1)"
    and fw: "finish_write g1 k v (cand_cert c) sources = Some (s', g')"
    by (auto simp: revalidate_def Let_def bind_eq_Some_conv)
  from with_values_set [OF w] obtain kv gen where f: "kv_restore (cert_revision (cand_cert c)) (cand_entry c) (vg_policy g) (values_of g k) (vg_generation g) = Some (val, kv, gen)"
    and s: "set_values k kv g g1" by blast
  note grows = kv_restore_grows [OF f graph_okD(4) [OF g] minted]
  have k1: "graph_keeps g g1" using set_values_grows [OF g s] grows by blast
  then have "graph_ok g1" by (simp add: graph_keeps_def)
  moreover have "cert_revision (cand_cert c) \<in> kv_revisions (values_of g1 k)" using grows s by (simp add: set_values_def)
  ultimately show ?thesis using graph_keeps_trans [OF k1] finish_write_keeps [OF fw _ key] by blast
qed

lemma with_each_keeps: "with_values g k (kv_each f) = Some (n, g') \<Longrightarrow> graph_ok g \<Longrightarrow> graph_keeps g g'"
  by (erule with_values_keeps) (auto intro: kv_each_grows graph_okD(4))

lemma commit_page_out_keeps: "commit_page_out policy ks g = Some (n, g') \<Longrightarrow> graph_ok g \<Longrightarrow> graph_keeps g g'"
proof (induction policy ks g arbitrary: n g' rule: commit_page_out.induct)
  case (2 policy k po ks g)
  then obtain m g1 l where w: "with_values g k (kv_each (commit_row po policy)) = Some (m, g1)" "commit_page_out policy ks g1 = Some (l, g')"
    by (auto simp: bind_eq_Some_conv)
  with 2(1) [OF w(1) refl w(2)] with_each_keeps [OF w(1) 2(3)] graph_keeps_trans show ?case by (auto simp: graph_keeps_def)
qed (auto intro: graph_keeps_refl)

lemma evict_backed_keeps: "evict_backed cutoff ks g = Some (n, g') \<Longrightarrow> graph_ok g \<Longrightarrow> graph_keeps g g'"
proof (induction cutoff ks g arbitrary: n g' rule: evict_backed.induct)
  case (2 cutoff k ks g)
  then obtain m g1 l where w: "with_values g k
      (kv_each (\<lambda>p gen. let (out, p) = evict_value p cutoff in Some (if out then 1 else 0, p, gen))) = Some (m, g1)"
      "evict_backed cutoff ks g1 = Some (l, g')"
    by (auto simp: bind_eq_Some_conv)
  with 2(1) [OF w(1) refl w(2)] with_each_keeps [OF w(1) 2(3)] graph_keeps_trans show ?case by (auto simp: graph_keeps_def)
qed (auto intro: graph_keeps_refl)

lemma mark_non_pageable_keeps: "mark_non_pageable ks g = Some g' \<Longrightarrow> graph_ok g \<Longrightarrow> graph_keeps g g'"
proof (induction ks g arbitrary: g' rule: mark_non_pageable.induct)
  case (2 k inspected ks g)
  then obtain m g1 where w: "with_values g k
      (kv_each (\<lambda>p gen. Some (0, if as_hydrated p = Some inspected then NonPageable inspected else p, gen))) = Some (m, g1)"
      "mark_non_pageable ks g1 = Some g'"
    by (auto simp: bind_eq_Some_conv)
  with 2(1) [OF w(1) refl w(2)] with_each_keeps [OF w(1) 2(3)] graph_keeps_trans show ?case by (auto simp: graph_keeps_def)
qed (auto intro: graph_keeps_refl)

lemma rehydrate_keeps:
  assumes "rehydrate g k dk v bytes = Some g'" "graph_ok g"
  shows "graph_keeps g g'"
proof -
  obtain u where "with_values g k (kv_rehydrate dk v bytes (vg_policy g)) = Some (u, g')" using assms(1) by (auto simp: rehydrate_def)
  then show ?thesis by (rule with_values_keeps [OF _ assms(2)]) (rule kv_rehydrate_grows [OF _ graph_okD(4) [OF assms(2)]])
qed

end
