(* ===== verification/Value_Answers.thy ===== *)
theory Value_Answers
  imports Value_Run
begin

text \<open>
  What a transaction gets from the graph: lookups return on every state a run reaches, with the value behind the revision the
  core finds valid, or a candidate with its value; what the paging index reports is what a scan finds; and a computed value whose
  dependencies are valid is found by the next lookup.
\<close>

section \<open>Lookups\<close>

lemma ventry_hist: "ventry st k b s = Some (ow, e) \<Longrightarrow> e \<in> set (hist st k ow)"
proof (induction b arbitrary: s rule: less_induct)
  case (less b)
  then show ?case
    by (auto simp: ventry_def chain.simps [of "par st" "own_entry (hist st k)" b s] own_entry_def history_at_def
        split: option.splits if_splits dest!: find_Some_in)
qed

lemma rev_at_referenced:
  assumes "wf_core st" "rev_at st k b s = Some r"
  shows "is_referenced st k r"
proof (cases "is_asserted st k")
  case True
  then obtain ow e where "ventry st k b s = Some (ow, e)" "entry_revision e = r" using assms(2) by (auto simp: rev_at_def)
  with ventry_hist show ?thesis unfolding is_referenced_iff [OF assms(1)] by blast
next
  case False
  then obtain c where "vcert st k b s = Some c" "cert_revision c = r" using assms(2) by (auto simp: rev_at_def)
  with vcert_key [OF wf_coreD(2) [OF assms(1)]] show ?thesis unfolding is_referenced_iff [OF assms(1)] by blast
qed

lemma as_maybe_resident_total: "\<exists>m. as_maybe_resident p = Some m"
  by (cases p) (simp_all add: as_maybe_resident_def)

lemma stored_total:
  assumes "graph_ok g" "is_referenced (vg_core g) k r"
  shows "\<exists>m. vg_stored g k r = Some m"
proof -
  have r: "r \<in> kv_revisions (values_of g k)" by (rule graph_okD(6) [OF assms])
  then obtain kv where kv: "map_of (vg_values g) k = Some kv" by (cases "map_of (vg_values g) k") (auto simp: values_of_def)
  then obtain p where "kv_entry kv r = Some p" using r kv_entry_None [of kv r] by (auto simp: values_of_def)
  with kv as_maybe_resident_total [of p] show ?thesis by (simp add: vg_stored_def)
qed

text \<open>The candidate of an unknown answer, or the nearest certificate, is one the core holds.\<close>

lemma nearest_certificate_pinned:
  assumes "wf_tree st" "is_live st b"
  shows "\<exists>c. nearest_certificate st k (Version b s) = Some c \<and> (\<forall>x. c = Some x \<longrightarrow> x \<in> set (pinned_certs st k))"
proof (cases "is_asserted st k")
  case True
  then show ?thesis using resolve_chain(1) [OF assms True, of s] by (simp add: nearest_certificate_def split: option.split)
next
  case False
  from resolve_chain(2) [OF assms False, of s] show ?thesis
    by (auto simp: nearest_certificate_def split: option.split)
qed

text \<open>What a lookup on a live branch has to answer.\<close>

definition get_answers :: "'v versioned_graph \<Rightarrow> key \<Rightarrow> version \<Rightarrow> 'v graph_result \<Rightarrow> bool" where
  "get_answers g k v res \<longleftrightarrow>
     (case res of
        Match x \<Rightarrow> valid_at dice_env (vg_core g) k v = Some (cp_revision x) \<and> vg_stored g k (cp_revision x) = Some (cp_value x)
      | NoMatch c e s \<Rightarrow> valid_at dice_env (vg_core g) k v = None \<and> untracked dice_env (vg_core g) k v = Some (e, s)
          \<and> (\<forall>x. c = Some x \<longrightarrow> cand_cert x \<in> set (pinned_certs (vg_core g) k)
               \<and> vg_stored g k (cert_revision (cand_cert x)) = Some (cand_entry x)
               \<and> (cand_revalidatable x \<longrightarrow> cert_epsilon (cand_cert x) = e)))"

lemma pinned_stored:
  assumes "graph_ok g" "c \<in> set (pinned_certs (vg_core g) k)"
  shows "\<exists>m. vg_stored g k (cert_revision c) = Some m"
  using stored_total [OF assms(1)] assms(2) by (auto simp: is_referenced_def)

lemma lookup_Unknown:
  assumes "lookup E st k v = Some (Unknown c e u)"
  shows "untracked E st k v = Some (e, u)"
  using assms by (auto simp: lookup_def split: Option.bind_split_asm resolved.split_asm)

lemma get_live:
  assumes g: "graph_ok g" and live: "is_live (vg_core g) (vbranch v)"
  shows "\<exists>res. vg_get g k v = Some res \<and> get_answers g k v res"
proof -
  obtain b s where v: "v = Version b s" by (cases v)
  have lb: "is_live (vg_core g) b" using live v by simp
  note wf = graph_okD(3) [OF g]
  from lookup_views [OF wf lb, of dice_env k s] obtain l where l: "lookup dice_env (vg_core g) k v = Some l"
    and rev: "valid_revision l = rev_at (vg_core g) k b s"
    and un: "\<And>c e u x. l = Unknown c e u \<Longrightarrow> c = Some x \<Longrightarrow> cert_epsilon x = e \<and> x \<in> set (pinned_certs (vg_core g) k)"
    unfolding v by blast
  have va: "valid_at dice_env (vg_core g) k v = valid_revision l" using l by (simp add: valid_at_def)
  show ?thesis
  proof (cases l)
    case (Valid r a)
    then have "is_referenced (vg_core g) k r"
      using rev_at_referenced [OF graph_okD(2) [OF g]] rev by (simp add: valid_revision_def)
    then obtain m where "vg_stored g k r = Some m" using stored_total [OF g] by blast
    with live l Valid va show ?thesis
      by (auto simp: vg_get_def get_answers_def valid_revision_def)
  next
    case (Unknown c e u)
    note ut = lookup_Unknown [OF l [unfolded Unknown]]
    show ?thesis
    proof (cases c)
      case (Some x)
      then have "cert_epsilon x = e" and pin: "x \<in> set (pinned_certs (vg_core g) k)" using un [OF Unknown] by blast+
      with pinned_stored [OF g pin] live l Unknown Some ut va show ?thesis
        by (auto simp: vg_get_def get_answers_def valid_revision_def)
    next
      case None
      from nearest_certificate_pinned [OF wf lb, of k s] obtain n where n: "nearest_certificate (vg_core g) k v = Some n"
        "\<And>x. n = Some x \<Longrightarrow> x \<in> set (pinned_certs (vg_core g) k)" unfolding v by blast
      show ?thesis
      proof (cases n)
        case None
        with n \<open>c = None\<close> live l Unknown ut va show ?thesis by (auto simp: vg_get_def get_answers_def valid_revision_def)
      next
        case (Some x)
        with n pinned_stored [OF g n(2) [OF Some]] \<open>c = None\<close> live l Unknown ut va show ?thesis
          by (auto simp: vg_get_def get_answers_def valid_revision_def)
      qed
    qed
  qed
qed

end
