(* ===== verification/Value_Actor.thy ===== *)
theory Value_Actor
  imports Value_Answers
begin

text \<open>
  The actor that owns the graph: the transactions in flight (\<^verbatim>\<open>dice/dice/src/core/versions.rs\<close>), the state
  (\<^verbatim>\<open>core/internals.rs\<close>) and its loop over requests (\<^verbatim>\<open>core/processor.rs\<close>). The shared task caches belong to the evaluation: the actor
  sees of them their identity, whether a weak reference can still be upgraded and the tasks that may still run, which are parameters here, as is
  whether the receiver of a channel is gone. Metrics of freed memory and introspection are left out.
\<close>

section \<open>Transactions in flight\<close>

type_synonym cache = nat
type_synonym waiter = nat
type_synonym task = nat

record surroundings =
  cache_alive :: "cache \<Rightarrow> bool"
  pending_tasks :: "cache \<Rightarrow> task list"
  waiter_closed :: "waiter \<Rightarrow> bool"

record active_version_data =
  per_transaction_data :: cache
  ref_count :: nat

record version_tracker =
  active_versions :: "(version \<times> active_version_data) list"
  vt_draining :: "(version \<times> cache) list"
  vt_released :: "(branch_id option \<times> waiter) list"
  next_cache :: cache
  next_waiter :: waiter

record idle_status =
  active_transactions :: nat
  idle_draining :: "task list"
  idle_released :: "waiter option"

definition is_idle :: "idle_status \<Rightarrow> bool" where
  "is_idle i \<longleftrightarrow> active_transactions i = 0 \<and> idle_draining i = []"

definition vt_new :: version_tracker where
  "vt_new = \<lparr>active_versions = [], vt_draining = [], vt_released = [], next_cache = 0, next_waiter = 0\<rparr>"

definition vt_at :: "version_tracker \<Rightarrow> version \<Rightarrow> (cache \<times> version_tracker) option" where
  "vt_at t v =
     (let (entry, fresh) = (case map_of (active_versions t) v of
            Some entry \<Rightarrow> (entry, 0)
          | None \<Rightarrow> (\<lparr>per_transaction_data = next_cache t, ref_count = 0\<rparr>, 1)) in
      if ref_count entry + 1 \<le> u64_max
      then Some (per_transaction_data entry,
             t\<lparr>active_versions := AList.update v (entry\<lparr>ref_count := ref_count entry + 1\<rparr>) (active_versions t),
               next_cache := next_cache t + fresh\<rparr>)
      else None)"

text \<open>The waiters that are told, and those that go on waiting.\<close>

fun tell_waiters ::
  "('w \<Rightarrow> bool) \<Rightarrow> version \<Rightarrow> (branch_id option \<times> 'w) list \<Rightarrow> 'w list \<times> (branch_id option \<times> 'w) list" where
  "tell_waiters closed v [] = ([], [])"
| "tell_waiters closed v ((scope, waiter) # ws) =
     (let (told, kept) = tell_waiters closed v ws in
      if (case scope of None \<Rightarrow> True | Some b \<Rightarrow> b = vbranch v) then (waiter # told, kept)
      else if \<not> closed waiter then (told, (scope, waiter) # kept)
      else (told, kept))"

definition drop_at_version ::
  "surroundings \<Rightarrow> version_tracker \<Rightarrow> version \<Rightarrow> (waiter list \<times> version_tracker) option" where
  "drop_at_version w t v = do {
     entry \<leftarrow> map_of (active_versions t) v;
     if ref_count entry < 1 then None
     else if ref_count entry - 1 = 0 then
       (let (told, kept) = tell_waiters (waiter_closed w) v (vt_released t) in
        Some (told, t\<lparr>active_versions := AList.delete v (active_versions t),
                      vt_draining := filter (\<lambda>(_, c). cache_alive w c) (vt_draining t) @ [(v, per_transaction_data entry)],
                      vt_released := kept\<rparr>))
     else Some ([], t\<lparr>active_versions := AList.update v (entry\<lparr>ref_count := ref_count entry - 1\<rparr>) (active_versions t)\<rparr>) }"

definition in_scope :: "branch_id option \<Rightarrow> version \<Rightarrow> bool" where
  "in_scope branch v = (case branch of None \<Rightarrow> True | Some b \<Rightarrow> vbranch v = b)"

fun drain_scan ::
  "surroundings \<Rightarrow> branch_id option \<Rightarrow> (version \<times> cache) list \<Rightarrow> task list \<times> (version \<times> cache) list" where
  "drain_scan w branch [] = ([], [])"
| "drain_scan w branch ((v, c) # ds) =
     (let (tasks, kept) = drain_scan w branch ds in
      if \<not> cache_alive w c then (tasks, kept)
      else if \<not> in_scope branch v then (tasks, (v, c) # kept)
      else (pending_tasks w c @ tasks, if pending_tasks w c \<noteq> [] then (v, c) # kept else kept))"

definition draining_tasks :: "surroundings \<Rightarrow> version_tracker \<Rightarrow> branch_id option \<Rightarrow> task list \<times> version_tracker" where
  "draining_tasks w t branch =
     (let (tasks, kept) = drain_scan w branch (vt_draining t) in (tasks, t\<lparr>vt_draining := kept\<rparr>))"

definition idle_status_of ::
  "surroundings \<Rightarrow> version_tracker \<Rightarrow> branch_id option \<Rightarrow> (idle_status \<times> version_tracker) option" where
  "idle_status_of w t branch =
     (let n = (\<Sum>(v, d)\<leftarrow>filter (\<lambda>(v, _). in_scope branch v) (active_versions t). ref_count d);
          (draining, t) = draining_tasks w t branch in
      if n > u64_max then None
      else if n > 0 then
        Some (\<lparr>active_transactions = n, idle_draining = draining, idle_released = Some (next_waiter t)\<rparr>,
              t\<lparr>vt_released := vt_released t @ [(branch, next_waiter t)], next_waiter := next_waiter t + 1\<rparr>)
      else Some (\<lparr>active_transactions = n, idle_draining = draining, idle_released = None\<rparr>, t))"

definition running_tasks_of :: "surroundings \<Rightarrow> version_tracker \<Rightarrow> branch_id option \<Rightarrow> task list \<times> version_tracker" where
  "running_tasks_of w t branch =
     (let (running, t) = draining_tasks w t branch in
      (running @ concat (map (\<lambda>(_, d). pending_tasks w (per_transaction_data d))
                           (filter (\<lambda>(v, _). in_scope branch v) (active_versions t))), t))"


section \<open>The state of the actor\<close>

record 'v actor_state =
  ac_tracker :: version_tracker
  ac_graph :: "'v versioned_graph"

record pagable_status_raw =
  ps_total_nodes :: nat
  ps_counts :: contribution
  ps_resident :: "key list"
  ps_paged_out :: "key list"
  ps_backed :: "key list"

record metrics =
  me_key_count :: nat
  me_active_transaction_count :: nat
  me_branch_count :: nat

text \<open>The counters of tokens and generations are those of the process.\<close>

definition actor_new :: "page_out_policy option \<Rightarrow> nat \<Rightarrow> nat \<Rightarrow> 'v actor_state option" where
  "actor_new paging tokens generation = do {
     graph \<leftarrow> (case paging of
       Some policy \<Rightarrow> set_page_out_policy (vg_new tokens generation) policy
     | None \<Rightarrow> Some (vg_new tokens generation));
     Some \<lparr>ac_tracker = vt_new, ac_graph = graph\<rparr> }"

definition update_value :: "storage_type \<Rightarrow> ('v versioned_graph \<Rightarrow> 'r option) \<Rightarrow> 'v versioned_graph \<Rightarrow> 'r option" where
  "update_value storage update g = (if storage = InjectedStorage then None else update g)"

definition pagable_status :: "'v versioned_graph \<Rightarrow> pagable_status_raw option" where
  "pagable_status g =
     (let (resident, paged_out, backed) = keys_by_paging_state g; counts = pagable_node_counts g in
      if length resident = c_resident counts \<and> length paged_out = c_paged_out counts \<and> length backed = c_backed counts
      then Some \<lparr>ps_total_nodes = vg_key_count g, ps_counts = counts, ps_resident = resident, ps_paged_out = paged_out,
                 ps_backed = backed\<rparr>
      else None)"

definition actor_metrics :: "'v actor_state \<Rightarrow> metrics option" where
  "actor_metrics a =
     (let n = (\<Sum>(v, d)\<leftarrow>active_versions (ac_tracker a). ref_count d) in
      if n > u64_max then None
      else Some \<lparr>me_key_count = vg_key_count (ac_graph a), me_active_transaction_count = n mod 2 ^ 32,
                 me_branch_count = vg_branch_count (ac_graph a)\<rparr>)"


section \<open>Requests\<close>

datatype 'v state_request =
    UpdateState branch_id "(key \<times> 'v change_type \<times> source_priority) list"
  | CtxAtVersion version
  | DropCtxAtVersion version
  | CurrentVersion branch_id
  | ForkAt version
  | FreshRoot
  | DeleteBranch branch_id
  | LookupKey key version
  | RecoveryUntracked key version
  | UpdateComputed key version storage_type 'v "revision deps" epsilon_token invalidation_sources
  | Revalidate key version storage_type "'v candidate" invalidation_sources
  | IdleStatus "branch_id option"
  | RunningTasks "branch_id option"
  | PagedOutKeys
  | PagableStatus
  | PagableNodeCounts
  | KeysToPageOut
  | CommitPageOut "(key \<times> 'v page_out_result) list" eviction_policy
  | BackedSnapshot
  | EvictBacked "key list" nat
  | MarkNonPageable "(key \<times> 'v) list"
  | Rehydrate key data_key 'v nat
  | MetricsRequest

datatype 'v state_reply =
    NoReply
  | VersionReply version
  | CtxReply version cache
  | ToldReply "waiter list"
  | BranchReply branch_id
  | LookupReply "'v graph_result"
  | UntrackedReply "(epsilon_token \<times> invalidation_sources) option"
  | ComputedReply "'v computed_entry"
  | IdleReply "idle_status"
  | TasksReply "task list"
  | PagedOutReply "(key \<times> data_key) list"
  | StatusReply pagable_status_raw
  | CountsReply contribution
  | CandidatesReply "(key \<times> 'v) list"
  | SnapshotReply "key list" nat
  | EvictedReply nat
  | MetricsReply metrics

definition on_graph ::
  "'v actor_state \<Rightarrow> ('x \<Rightarrow> 'v state_reply) \<Rightarrow> ('x \<times> 'v versioned_graph) option
   \<Rightarrow> ('v state_reply \<times> 'v actor_state) option" where
  "on_graph a reply result = map_option (\<lambda>(x, g). (reply x, a\<lparr>ac_graph := g\<rparr>)) result"

definition on_tracker ::
  "'v actor_state \<Rightarrow> ('x \<Rightarrow> 'v state_reply) \<Rightarrow> ('x \<times> version_tracker) option
   \<Rightarrow> ('v state_reply \<times> 'v actor_state) option" where
  "on_tracker a reply result = map_option (\<lambda>(x, t). (reply x, a\<lparr>ac_tracker := t\<rparr>)) result"

text \<open>One request; \<^const>\<open>None\<close> is a panic of the actor's thread.\<close>

fun iteration ::
  "('v \<Rightarrow> 'v \<Rightarrow> bool) \<Rightarrow> surroundings \<Rightarrow> 'v actor_state \<Rightarrow> 'v state_request
   \<Rightarrow> ('v state_reply \<times> 'v actor_state) option" where
  "iteration eq w a (UpdateState branch changes) = on_graph a VersionReply (vg_commit eq (ac_graph a) branch changes)"
| "iteration eq w a (CtxAtVersion v) = on_tracker a (CtxReply v) (vt_at (ac_tracker a) v)"
| "iteration eq w a (DropCtxAtVersion v) = on_tracker a ToldReply (drop_at_version w (ac_tracker a) v)"
| "iteration eq w a (CurrentVersion branch) = map_option (\<lambda>v. (VersionReply v, a)) (vg_head (ac_graph a) branch)"
| "iteration eq w a (ForkAt from) = on_graph a BranchReply (vg_fork (ac_graph a) from)"
| "iteration eq w a FreshRoot = on_graph a BranchReply (vg_new_root (ac_graph a))"
| "iteration eq w a (DeleteBranch branch) =
     on_graph a (\<lambda>_. NoReply) (map_option (Pair ()) (vg_delete_branch (ac_graph a) branch))"
| "iteration eq w a (LookupKey k v) = map_option (\<lambda>r. (LookupReply r, a)) (vg_get (ac_graph a) k v)"
| "iteration eq w a (RecoveryUntracked k v) =
     map_option (\<lambda>r. (UntrackedReply r, a)) (recovery_untracked (ac_graph a) k v)"
| "iteration eq w a (UpdateComputed k v storage x deps eps sources) =
     on_graph a ComputedReply
       (update_value storage (\<lambda>g. update_computed eq g k v x deps eps sources) (ac_graph a))"
| "iteration eq w a (Revalidate k v storage c sources) =
     on_graph a ComputedReply (update_value storage (\<lambda>g. revalidate g k v c sources) (ac_graph a))"
| "iteration eq w a (IdleStatus branch) = on_tracker a IdleReply (idle_status_of w (ac_tracker a) branch)"
| "iteration eq w a (RunningTasks branch) = on_tracker a TasksReply (Some (running_tasks_of w (ac_tracker a) branch))"
| "iteration eq w a PagedOutKeys = Some (PagedOutReply (paged_out_keys (ac_graph a)), a)"
| "iteration eq w a PagableStatus = map_option (\<lambda>s. (StatusReply s, a)) (pagable_status (ac_graph a))"
| "iteration eq w a PagableNodeCounts = Some (CountsReply (pagable_node_counts (ac_graph a)), a)"
| "iteration eq w a KeysToPageOut = map_option (\<lambda>ks. (CandidatesReply ks, a)) (keys_to_page_out (ac_graph a))"
| "iteration eq w a (CommitPageOut keys policy) =
     on_graph a (\<lambda>_. NoReply) (commit_page_out policy keys (ac_graph a))"
| "iteration eq w a BackedSnapshot =
     (let (keys, cutoff) = backed_snapshot (ac_graph a) in Some (SnapshotReply keys cutoff, a))"
| "iteration eq w a (EvictBacked keys cutoff) = on_graph a EvictedReply (evict_backed cutoff keys (ac_graph a))"
| "iteration eq w a (MarkNonPageable keys) =
     on_graph a (\<lambda>_. NoReply) (map_option (Pair ()) (mark_non_pageable keys (ac_graph a)))"
| "iteration eq w a (Rehydrate k dk x bytes) =
     on_graph a (\<lambda>_. NoReply) (map_option (Pair ()) (rehydrate (ac_graph a) k dk x bytes))"
| "iteration eq w a MetricsRequest = map_option (\<lambda>m. (MetricsReply m, a)) (actor_metrics a)"

end
