(* ===== verification/Value_Reachable.thy ===== *)
theory Value_Reachable
  imports Value_Actor
begin

text \<open>
  The runs of the actor, for any order of requests. What the transactions know is part of a run: the versions they were told, the
  candidates they were handed, which may come back to be revalidated after the state has dropped them, the untracked-input
  token each lookup answered, with which a value is written later, and the versions they hold. Requests other than these are made at any time.
\<close>

section \<open>Runs\<close>

record 'v knowledge =
  kn_versions :: "version list"
  kn_candidates :: "(key \<times> 'v candidate) list"
  kn_tickets :: "(key \<times> version \<times> epsilon_token) list"
  kn_held :: "version list"

definition kn_none :: "'v knowledge" where
  "kn_none = \<lparr>kn_versions = [], kn_candidates = [], kn_tickets = [], kn_held = []\<rparr>"

fun allowed :: "'v knowledge \<Rightarrow> 'v state_request \<Rightarrow> bool" where
  "allowed kn (ForkAt v) = (v \<in> set (kn_versions kn))"
| "allowed kn (CtxAtVersion v) = (v \<in> set (kn_versions kn))"
| "allowed kn (DropCtxAtVersion v) = (v \<in> set (kn_held kn))"
| "allowed kn (LookupKey k v) = (v \<in> set (kn_versions kn))"
| "allowed kn (RecoveryUntracked k v) = (v \<in> set (kn_versions kn))"
| "allowed kn (UpdateComputed k v storage x deps eps sources) = ((k, v, eps) \<in> set (kn_tickets kn))"
| "allowed kn (Revalidate k v storage c sources) = ((k, c) \<in> set (kn_candidates kn))"
| "allowed kn rq = True"

definition learn :: "'v state_request \<Rightarrow> 'v state_reply \<Rightarrow> 'v knowledge \<Rightarrow> 'v knowledge" where
  "learn rq rp kn =
     (case rp of
        VersionReply v \<Rightarrow> kn\<lparr>kn_versions := v # kn_versions kn\<rparr>
      | CtxReply v c \<Rightarrow> kn\<lparr>kn_held := v # kn_held kn\<rparr>
      | ToldReply ws \<Rightarrow> (case rq of DropCtxAtVersion v \<Rightarrow> kn\<lparr>kn_held := remove1 v (kn_held kn)\<rparr> | _ \<Rightarrow> kn)
      | LookupReply r \<Rightarrow>
          (case rq of
             LookupKey k v \<Rightarrow>
               (case r of
                  Match x \<Rightarrow> kn
                | NoMatch c eps s \<Rightarrow>
                    kn\<lparr>kn_candidates := (case c of None \<Rightarrow> [] | Some c \<Rightarrow> [(k, c)]) @ kn_candidates kn,
                       kn_tickets := (k, v, eps) # kn_tickets kn\<rparr>)
           | _ \<Rightarrow> kn)
      | UntrackedReply u \<Rightarrow>
          (case rq of
             RecoveryUntracked k v \<Rightarrow>
               (case u of None \<Rightarrow> kn | Some (eps, s) \<Rightarrow> kn\<lparr>kn_tickets := (k, v, eps) # kn_tickets kn\<rparr>)
           | _ \<Rightarrow> kn)
      | _ \<Rightarrow> kn)"

inductive actor_run :: "('v \<Rightarrow> 'v \<Rightarrow> bool) \<Rightarrow> 'v actor_state \<Rightarrow> 'v knowledge \<Rightarrow> bool" for eq where
  start: "actor_new paging tokens generation = Some a \<Longrightarrow> actor_run eq a kn_none"
| request: "actor_run eq a kn \<Longrightarrow> allowed kn rq \<Longrightarrow> iteration eq w a rq = Some (rp, a')
    \<Longrightarrow> actor_run eq a' (learn rq rp kn)"

text \<open>A run as a list of requests.\<close>

fun run_requests ::
  "('v \<Rightarrow> 'v \<Rightarrow> bool) \<Rightarrow> surroundings \<Rightarrow> 'v state_request list \<Rightarrow> 'v actor_state \<Rightarrow> 'v knowledge
   \<Rightarrow> ('v state_reply list \<times> 'v actor_state \<times> 'v knowledge) option" where
  "run_requests eq w [] a kn = Some ([], a, kn)"
| "run_requests eq w (rq # rqs) a kn =
     (if allowed kn rq then do {
        (rp, a) \<leftarrow> iteration eq w a rq;
        (rps, a, kn) \<leftarrow> run_requests eq w rqs a (learn rq rp kn);
        Some (rp # rps, a, kn) }
      else None)"

lemma run_requests_run:
  "run_requests eq w rqs a kn = Some (rps, a', kn') \<Longrightarrow> actor_run eq a kn \<Longrightarrow> actor_run eq a' kn'"
proof (induction rqs arbitrary: a kn rps)
  case (Cons rq rqs)
  then obtain rp a1 rps1 where i: "allowed kn rq" "iteration eq w a rq = Some (rp, a1)"
    and r: "run_requests eq w rqs a1 (learn rq rp kn) = Some (rps1, a', kn')"
    by (auto split: if_splits Option.bind_split_asm)
  show ?case by (rule Cons.IH [OF r request [OF Cons.prems(2) i]])
qed simp


section \<open>What the transactions know\<close>

definition known :: "('p, 'd, 'a) core_state \<Rightarrow> version \<Rightarrow> bool" where
  "known st v \<longleftrightarrow> vbranch v < length (branches st) \<and> (is_live st (vbranch v) \<longrightarrow> version_in st v)"

definition ticket_ok :: "('p, 'd, 'a) core_state \<Rightarrow> key \<times> version \<times> epsilon_token \<Rightarrow> bool" where
  "ticket_ok st = (\<lambda>(k, v, e). known st v \<and> (is_live st (vbranch v) \<longrightarrow> epsilon st k v = Some e))"

definition candidate_ok :: "'v versioned_graph \<Rightarrow> key \<times> 'v candidate \<Rightarrow> bool" where
  "candidate_ok g = (\<lambda>(k, c). cert_key (cand_cert c) = k \<and> cert_revision (cand_cert c) < kv_mint (values_of g k))"

definition knows :: "'v versioned_graph \<Rightarrow> 'v knowledge \<Rightarrow> bool" where
  "knows g kn \<longleftrightarrow> list_all (known (vg_core g)) (kn_versions kn) \<and> list_all (ticket_ok (vg_core g)) (kn_tickets kn)
     \<and> list_all (candidate_ok g) (kn_candidates kn)"

lemma known_keeps: "core_keeps st st' \<Longrightarrow> known st v \<Longrightarrow> known st' v"
  by (auto simp: core_keeps_def known_def version_in_def)

lemma ticket_keeps:
  assumes "core_keeps st st'" "ticket_ok st x" "wf_tree st" "wf_tree st'"
  shows "ticket_ok st' x"
proof -
  obtain k b s e where x: "x = (k, Version b s, e)" by (cases x) (metis version.exhaust)
  have kn: "known st (Version b s)" "known st' (Version b s)" using assms(2) known_keeps [OF assms(1)] by (auto simp: x ticket_ok_def)
  moreover have "epsilon st' k (Version b s) = Some e" if l: "is_live st' b"
  proof -
    have b: "b < length (branches st)" "is_live st b" using kn(1) assms(1) l by (auto simp: known_def core_keeps_def)
    then have "fseq st b \<le> s" "s \<le> hseq st b" using kn(1) by (auto simp: known_def version_in_def)
    then have "eps_at st' k b s = eps_at st k b s" using assms(1) b(1) l by (auto simp: core_keeps_def)
    with assms(2) b(2) epsilon_eps_at [OF assms(3) b(2)] epsilon_eps_at [OF assms(4) l] show ?thesis
      by (auto simp: x ticket_ok_def)
  qed
  ultimately show ?thesis by (auto simp: x ticket_ok_def)
qed

lemma knows_keeps:
  assumes g: "graph_ok g" and keeps: "graph_keeps g g'" and kn: "knows g kn"
  shows "knows g' kn"
proof -
  have core: "core_keeps (vg_core g) (vg_core g')" and wf: "wf_tree (vg_core g)" "wf_tree (vg_core g')"
    using g keeps graph_okD(3) by (auto simp: graph_keeps_def)
  have "candidate_ok g' x" if "candidate_ok g x" for x
    using that keeps by (cases x) (auto simp: candidate_ok_def graph_keeps_def intro: less_le_trans)
  with kn known_keeps [OF core] ticket_keeps [OF core _ wf] show ?thesis
    by (auto simp: knows_def list_all_iff)
qed

lemma head_known:
  assumes "wf_tree (vg_core g)" "vg_head g b = Some v"
  shows "known (vg_core g) v"
  using wf_tree_seqs [OF assms(1)] assms(2) newest_head [of "vg_core g" b]
  by (auto simp: vg_head_def known_def newest_def version_in_def head_of_def is_live_branch_of dest: branch_of_length)

lemma commit_known:
  assumes c: "vg_commit eq g b cs = Some (v, g')" and g: "graph_ok g"
  shows "known (vg_core g') v"
proof -
  from c obtain changes g1 st tokens where i: "intern_changes eq cs g = Some (changes, g1)"
    and cm: "commit dice_env (vg_core g1) (vg_tokens g1) b changes = Some (st, tokens, v)" and st: "vg_core g' = st"
    by (auto simp: vg_commit_def bind_eq_Some_conv)
  have I: "core_inv dice_env (vg_core g1)" using intern_changes_keeps [OF i g] graph_okD(1) [OF g] by simp
  from commit_answers [OF cm I] commit_keeps [OF cm I] have v: "v = newest st b" "b < length (branches st)" and "wf_tree st"
    by (auto simp: core_keeps_def core_inv_def wf_core_def dest: is_live_less)
  with wf_tree_seqs st show ?thesis by (auto simp: known_def newest_def version_in_def)
qed

lemma untracked_epsilon: "untracked E st k v = Some (e, s) \<Longrightarrow> epsilon st k v = Some e"
  by (auto simp: untracked_def epsilon_def split: option.splits)

lemma fork_live: "fork E st v = Some x \<Longrightarrow> is_live st (vbranch v)"
  by (auto simp: fork_def Let_def is_live_branch_of split: Option.bind_split_asm if_split_asm)

text \<open>The answer to a lookup is a ticket, and its candidate may come back.\<close>

lemma lookup_learns:
  assumes g: "graph_ok g" and v: "known (vg_core g) v" and get: "vg_get g k v = Some (NoMatch c e s)"
  shows "ticket_ok (vg_core g) (k, v, e)" "c = Some x \<Longrightarrow> candidate_ok g (k, x)"
proof -
  have an: "get_answers g k v (NoMatch c e s)" if "is_live (vg_core g) (vbranch v)"
    using get_live [OF g that, of k] get by simp
  then show "ticket_ok (vg_core g) (k, v, e)"
    using v untracked_epsilon by (auto simp: ticket_ok_def get_answers_def)
  assume x: "c = Some x"
  then have "is_live (vg_core g) (vbranch v)" using get by (auto simp: vg_get_def split: if_splits)
  with an x have "cand_cert x \<in> set (pinned_certs (vg_core g) k)" by (simp add: get_answers_def)
  then show "candidate_ok g (k, x)"
    using referenced_minted [OF g, of k "cert_revision (cand_cert x)"] pinned_certs_iff [OF graph_okD(2) [OF g]]
    by (auto simp: candidate_ok_def is_referenced_def)
qed

lemma recovery_learns:
  assumes "known (vg_core g) v" "recovery_untracked g k v = Some (Some (e, s))"
  shows "ticket_ok (vg_core g) (k, v, e)"
  using assms untracked_epsilon by (auto simp: recovery_untracked_def ticket_ok_def split: if_splits)


section \<open>The invariant of runs\<close>

lemmas on_defs = on_graph_def on_tracker_def

lemma iteration_keeps:
  assumes it: "iteration eq w a rq = Some (rp, a')" and g: "graph_ok (ac_graph a)" and kn: "knows (ac_graph a) kn"
    and al: "allowed kn rq"
  shows "graph_keeps (ac_graph a) (ac_graph a')"
proof (cases rq)
  case (UpdateState b cs)
  with it vg_commit_keeps [OF _ g] show ?thesis by (auto simp: on_graph_def)
next
  case (ForkAt v)
  have "graph_keeps (ac_graph a) g'" if f: "vg_fork (ac_graph a) v = Some (b, g')" for b g'
  proof (rule vg_fork_keeps [OF f g])
    have "is_live (vg_core (ac_graph a)) (vbranch v)" using f fork_live by (auto simp: vg_fork_def)
    then show "version_in (vg_core (ac_graph a)) v" using kn al by (auto simp: ForkAt knows_def list_all_iff known_def)
  qed
  then show ?thesis using it by (auto simp: ForkAt on_graph_def)
next
  case FreshRoot
  with it vg_new_root_keeps [OF _ g] show ?thesis by (auto simp: on_graph_def)
next
  case (DeleteBranch b)
  with it vg_delete_keeps [OF _ g] show ?thesis by (auto simp: on_graph_def)
next
  case (UpdateComputed k v storage x deps eps sources)
  with it update_computed_keeps [OF _ g] show ?thesis by (auto simp: on_graph_def update_value_def split: if_splits)
next
  case (Revalidate k v storage c sources)
  have "cert_key (cand_cert c) = k" "cert_revision (cand_cert c) < kv_mint (values_of (ac_graph a) k)"
    using kn al by (auto simp: Revalidate knows_def list_all_iff candidate_ok_def)
  then show ?thesis using it revalidate_keeps [OF _ g]
    by (auto simp: on_graph_def Revalidate update_value_def split: if_splits)
next
  case (CommitPageOut keys policy)
  with it commit_page_out_keeps [OF _ g] show ?thesis by (auto simp: on_graph_def)
next
  case (EvictBacked keys cutoff)
  with it evict_backed_keeps [OF _ g] show ?thesis by (auto simp: on_graph_def)
next
  case (MarkNonPageable keys)
  with it mark_non_pageable_keeps [OF _ g] show ?thesis by (auto simp: on_graph_def)
next
  case (Rehydrate k dk x bytes)
  with it rehydrate_keeps [OF _ g] show ?thesis by (auto simp: on_graph_def)
qed (use it g in \<open>auto simp: on_tracker_def intro!: graph_keeps_refl split: prod.splits\<close>)

lemma knows_learn_simps:
  "knows g (kn\<lparr>kn_versions := v # kn_versions kn\<rparr>) \<longleftrightarrow> known (vg_core g) v \<and> knows g kn"
  "knows g (kn\<lparr>kn_held := vs\<rparr>) = knows g kn"
  "knows g (kn\<lparr>kn_tickets := x # kn_tickets kn\<rparr>) \<longleftrightarrow> ticket_ok (vg_core g) x \<and> knows g kn"
  by (auto simp: knows_def)

lemma iteration_learns:
  assumes it: "iteration eq w a rq = Some (rp, a')" and g: "graph_ok (ac_graph a)" and kn: "knows (ac_graph a) kn"
    and al: "allowed kn rq"
  shows "knows (ac_graph a') (learn rq rp kn)"
proof -
  have kn': "knows (ac_graph a') kn" by (rule knows_keeps [OF g iteration_keeps [OF assms] kn])
  have v: "known (vg_core (ac_graph a)) v" if "v \<in> set (kn_versions kn)" for v using that kn by (simp add: knows_def list_all_iff)
  show ?thesis
  proof (cases rq)
    case (UpdateState b cs)
    with it kn' commit_known [OF _ g] show ?thesis by (auto simp: on_graph_def learn_def knows_learn_simps)
  next
    case (CurrentVersion b)
    with it kn' head_known [OF graph_okD(3) [OF g]] show ?thesis by (auto simp: learn_def knows_learn_simps)
  next
    case (LookupKey k v')
    then obtain r where r: "vg_get (ac_graph a) k v' = Some r" "rp = LookupReply r" "a' = a" using it by auto
    show ?thesis
    proof (cases r)
      case (NoMatch c e s)
      have "known (vg_core (ac_graph a)) v'" using v al LookupKey by simp
      from lookup_learns [OF g this r(1) [unfolded NoMatch]] kn' show ?thesis
        by (cases c) (auto simp: LookupKey learn_def r(2,3) NoMatch knows_def)
    qed (use kn' in \<open>simp add: LookupKey learn_def r\<close>)
  next
    case (RecoveryUntracked k v')
    then obtain r where r: "recovery_untracked (ac_graph a) k v' = Some r" "rp = UntrackedReply r" "a' = a" using it by auto
    have "known (vg_core (ac_graph a)) v'" using v al RecoveryUntracked by simp
    with r kn' recovery_learns show ?thesis
      by (auto simp: RecoveryUntracked learn_def knows_learn_simps split: option.split prod.split)
  qed (use it kn' in \<open>auto simp: on_defs learn_def knows_learn_simps Let_def split: prod.splits\<close>)
qed

lemma actor_new_ok:
  assumes "actor_new paging tokens generation = Some a"
  shows "graph_ok (ac_graph a)" "ac_tracker a = vt_new"
proof -
  have "graph_ok ((vg_new tokens generation)\<lparr>vg_policy := p\<rparr>)" for p
    using vg_new_ok [of tokens generation]
    by (auto simp: graph_ok_def vg_new_def values_ok_def retained_def values_of_def index_ok_def index_default_def
        tally_sum_def tallied_def)
  with assms vg_new_ok show "graph_ok (ac_graph a)" "ac_tracker a = vt_new"
    by (auto simp: actor_new_def set_page_out_policy_def split: option.splits Option.bind_split_asm if_splits)
qed

theorem run_ok:
  assumes "actor_run eq a kn"
  shows "graph_ok (ac_graph a)" "knows (ac_graph a) kn"
proof -
  have "graph_ok (ac_graph a) \<and> knows (ac_graph a) kn"
    using assms
  proof induction
    case (start paging tokens generation a)
    then show ?case using actor_new_ok by (auto simp: knows_def kn_none_def)
  next
    case (request a kn rq w rp a')
    then show ?case using iteration_keeps iteration_learns by (fastforce simp: graph_keeps_def)
  qed
  then show "graph_ok (ac_graph a)" "knows (ac_graph a) kn" by blast+
qed

end
