(* ===== verification/Value_Transactions.thy ===== *)
theory Value_Transactions
  imports Value_Reachable
begin

text \<open>
  The transactions in flight, in every run: a version is active as long as somebody holds it, with the count of its holders, and
  whoever waits for a scope to become idle is told before its last transaction is forgotten.
\<close>

definition refs :: "version_tracker \<Rightarrow> version \<Rightarrow> nat" where
  "refs t v = (case map_of (active_versions t) v of None \<Rightarrow> 0 | Some d \<Rightarrow> ref_count d)"

definition tracker_ok :: "version_tracker \<Rightarrow> version list \<Rightarrow> bool" where
  "tracker_ok t held \<longleftrightarrow> distinct (map fst (active_versions t)) \<and> (\<forall>v. refs t v = count_list held v)
     \<and> (\<forall>v d. map_of (active_versions t) v = Some d \<longrightarrow> 0 < ref_count d)
     \<and> (\<forall>(scope, w)\<in>set (vt_released t). \<exists>v\<in>set held. in_scope scope v)"

lemma refs_update [simp]:
  "refs (t\<lparr>active_versions := AList.update v d (active_versions t)\<rparr>) u = (if u = v then ref_count d else refs t u)"
  by (simp add: refs_def update_conv')

lemma refs_other [simp]:
  "refs (t\<lparr>vt_draining := ds\<rparr>) = refs t" "refs (t\<lparr>vt_released := rs\<rparr>) = refs t" "refs (t\<lparr>next_cache := c\<rparr>) = refs t"
  "refs (t\<lparr>next_waiter := n\<rparr>) = refs t"
  by (simp_all add: refs_def fun_eq_iff)

lemma vt_new_ok: "tracker_ok vt_new []"
  by (simp add: tracker_ok_def vt_new_def refs_def)

lemma tracker_okD:
  assumes "tracker_ok t held"
  shows "distinct (map fst (active_versions t))" "refs t v = count_list held v"
    "map_of (active_versions t) v = Some d \<Longrightarrow> 0 < ref_count d"
    "(scope, x) \<in> set (vt_released t) \<Longrightarrow> \<exists>v\<in>set held. in_scope scope v"
  using assms by (auto simp: tracker_ok_def)

lemma active_iff_held:
  assumes "tracker_ok t held"
  shows "map_of (active_versions t) v = None \<longleftrightarrow> v \<notin> set held"
proof -
  have "map_of (active_versions t) v = None \<longleftrightarrow> refs t v = 0"
    using tracker_okD(3) [OF assms, of v] by (fastforce simp: refs_def split: option.splits)
  then show ?thesis using tracker_okD(2) [OF assms, of v] count_list_0_iff by metis
qed

lemma vt_at_ok:
  assumes at: "vt_at t v = Some (c, t')" and ok: "tracker_ok t held"
  shows "tracker_ok t' (v # held)"
proof -
  let ?new = "\<lparr>per_transaction_data = next_cache t, ref_count = 0\<rparr>"
  define e where "e = (case map_of (active_versions t) v of Some d \<Rightarrow> d | None \<Rightarrow> ?new)\<lparr>ref_count := refs t v + 1\<rparr>"
  have e: "ref_count e = refs t v + 1" by (simp add: e_def)
  have a: "active_versions t' = AList.update v e (active_versions t)" and r: "vt_released t' = vt_released t"
    unfolding e_def using at by (auto simp: vt_at_def refs_def Let_def split: if_splits option.splits)
  have "refs t' u = (if u = v then ref_count e else refs t u)" for u by (simp add: refs_def a update_conv')
  with e tracker_okD [OF ok] show ?thesis
    by (fastforce simp: tracker_ok_def a r update_conv' distinct_update)
qed

lemma tell_waiters_split:
  assumes "tell_waiters closed v ws = (told, kept)"
  shows "set kept \<subseteq> {x \<in> set ws. \<not> in_scope (fst x) v}" "(scope, x) \<in> set ws \<Longrightarrow> in_scope scope v \<Longrightarrow> x \<in> set told"
  using assms
  by (induction ws arbitrary: told kept)
     (auto simp: Let_def in_scope_def split: prod.splits if_splits option.splits, fastforce+)

lemma count_list_remove1: "count_list (remove1 x xs) y = (if x = y then count_list xs y - 1 else count_list xs y)"
proof (induction xs)
  case (Cons a xs)
  then show ?case using count_list_0_iff [of xs y] by (auto simp: Suc_diff_le)
qed simp

lemma drop_total:
  assumes ok: "tracker_ok t held" and v: "v \<in> set held"
  shows "\<exists>told t'. drop_at_version w t v = Some (told, t')"
proof -
  obtain e where e: "map_of (active_versions t) v = Some e" using active_iff_held [OF ok, of v] v by auto
  then show ?thesis using tracker_okD(3) [OF ok e] by (auto simp: drop_at_version_def split: prod.split)
qed

lemma drop_ok:
  assumes dr: "drop_at_version w t v = Some (told, t')" and ok: "tracker_ok t held" and v: "v \<in> set held"
  shows "tracker_ok t' (remove1 v held)"
proof -
  note D = tracker_okD [OF ok]
  obtain e where e: "map_of (active_versions t) v = Some e" using dr by (auto simp: drop_at_version_def split: Option.bind_split_asm)
  then have r: "ref_count e = count_list held v" using D(2) [of v] by (simp add: refs_def)
  show ?thesis
  proof (cases "ref_count e - 1 = 0")
    case True
    obtain kept where t': "active_versions t' = AList.delete v (active_versions t)" "vt_released t' = kept"
      and tell: "tell_waiters (waiter_closed w) v (vt_released t) = (told, kept)"
      using dr e True by (auto simp: drop_at_version_def split: prod.splits if_splits)
    have "count_list held v = 1" using True D(3) [OF e] r by simp
    then have gone: "v \<notin> set (remove1 v held)" using count_list_remove1 [of v held v] count_list_0_iff [of "remove1 v held" v] by simp
    have "refs t' u = count_list (remove1 v held) u" for u
      using D(2) [of u] \<open>count_list held v = 1\<close> by (auto simp: refs_def t' delete_conv' count_list_remove1)
    moreover have "\<exists>u\<in>set (remove1 v held). in_scope scope u" if "(scope, x) \<in> set kept" for scope x
    proof -
      have "(scope, x) \<in> set (vt_released t)" "\<not> in_scope scope v" using tell_waiters_split(1) [OF tell] that by auto
      with D(4) obtain u where "u \<in> set held" "in_scope scope u" "u \<noteq> v" by blast
      then show ?thesis using in_set_remove1 [of u v held] by blast
    qed
    ultimately show ?thesis using D(1,3) by (auto simp: tracker_ok_def t' distinct_delete delete_conv' split: if_splits)
  next
    case False
    then have t': "t' = t\<lparr>active_versions := AList.update v (e\<lparr>ref_count := ref_count e - 1\<rparr>) (active_versions t)\<rparr>"
      using dr e D(3) [OF e] by (auto simp: drop_at_version_def split: if_splits)
    have "set (remove1 v held) = set held"
    proof -
      have "v \<in> set (remove1 v held)" using count_list_remove1 [of v held v] count_list_0_iff [of "remove1 v held" v] False r by auto
      then show ?thesis by (metis in_set_remove1 subsetI subset_antisym set_remove1_subset)
    qed
    with D r False show ?thesis by (auto simp: tracker_ok_def t' distinct_update count_list_remove1 update_conv' split: if_splits)
  qed
qed

lemma indicator_sum:
  "distinct ks \<Longrightarrow> (\<Sum>v\<leftarrow>filter P ks. if x = v then 1 else 0) = (if x \<in> set ks \<and> P x then 1 else 0 :: nat)"
  by (induction ks) auto

lemma count_sum:
  assumes "distinct ks"
  shows "(\<Sum>v\<leftarrow>filter P ks. count_list xs v) = length (filter (\<lambda>x. P x \<and> x \<in> set ks) xs)"
proof (induction xs)
  case Nil
  then show ?case by (simp add: sum_list_triv)
next
  case (Cons x xs)
  have "(\<Sum>v\<leftarrow>filter P ks. count_list (x # xs) v) = (\<Sum>v\<leftarrow>filter P ks. (if x = v then 1 else 0) + count_list xs v)"
    by (intro arg_cong [where f = sum_list] map_cong refl) auto
  also have "\<dots> = (if x \<in> set ks \<and> P x then 1 else 0) + length (filter (\<lambda>x. P x \<and> x \<in> set ks) xs)"
    by (simp add: sum_list_addf Cons.IH indicator_sum [OF assms])
  finally show ?case by simp
qed

lemma scope_sum:
  assumes "tracker_ok t held"
  shows "(\<Sum>(v, d)\<leftarrow>filter (\<lambda>(v, _). P v) (active_versions t). ref_count d) = length (filter P held)"
proof -
  have d: "distinct (map fst (active_versions t))" by (rule tracker_okD(1) [OF assms])
  have "ref_count d = count_list held v" if "(v, d) \<in> set (active_versions t)" for v d
    using tracker_okD(2) [OF assms, of v] map_of_is_SomeI [OF d that] by (simp add: refs_def)
  then have "(\<Sum>(v, d)\<leftarrow>filter (\<lambda>(v, _). P v) (active_versions t). ref_count d) =
      (\<Sum>(v, d)\<leftarrow>filter (\<lambda>(v, _). P v) (active_versions t). count_list held v)"
    by (intro arg_cong [where f = sum_list] map_cong refl) auto
  also have "\<dots> = (\<Sum>v\<leftarrow>filter P (map fst (active_versions t)). count_list held v)"
    by (simp add: filter_map comp_def case_prod_unfold)
  also have "\<dots> = length (filter (\<lambda>x. P x \<and> x \<in> set (map fst (active_versions t))) held)" by (rule count_sum [OF d])
  also have "\<dots> = length (filter P held)"
    using active_iff_held [OF assms] by (intro arg_cong [where f = length] filter_cong refl) (auto simp: map_of_eq_None_iff)
  finally show ?thesis .
qed

lemma draining_tasks_same:
  assumes "draining_tasks w t branch = (tasks, t')"
  shows "active_versions t' = active_versions t" "vt_released t' = vt_released t" "next_waiter t' = next_waiter t"
    "tracker_ok t' held = tracker_ok t held"
  using assms by (auto simp: draining_tasks_def tracker_ok_def Let_def refs_def split: prod.splits)

text \<open>The tasks of dropped transactions that are reported, and the caches that stay.\<close>

lemma drain_scan_eq:
  "drain_scan w branch ds =
     (concat (map (\<lambda>(_, c). pending_tasks w c) (filter (\<lambda>(v, c). cache_alive w c \<and> in_scope branch v) ds)),
      filter (\<lambda>(v, c). cache_alive w c \<and> (in_scope branch v \<longrightarrow> pending_tasks w c \<noteq> [])) ds)"
  by (induction w branch ds rule: drain_scan.induct) (auto simp: Let_def)

lemma idle_status_ok:
  assumes i: "idle_status_of w t branch = Some (s, t')" and ok: "tracker_ok t held"
  shows "tracker_ok t' held" "active_transactions s = length (filter (in_scope branch) held)"
    "(idle_released s = None) = (active_transactions s = 0)"
    "idle_released s = Some x \<Longrightarrow> (branch, x) \<in> set (vt_released t')"
proof -
  obtain tasks t1 where d: "draining_tasks w t branch = (tasks, t1)" by fastforce
  note same = draining_tasks_same [OF d]
  note s = i [unfolded idle_status_of_def Let_def scope_sum [OF ok] d prod.case]
  show "active_transactions s = length (filter (in_scope branch) held)" "(idle_released s = None) = (active_transactions s = 0)"
    using s by (auto split: if_splits)
  show "tracker_ok t' held"
  proof (cases "filter (in_scope branch) held = []")
    case True
    then have "t' = t1" using s by (auto split: if_splits)
    then show ?thesis using same(4) ok by simp
  next
    case False
    then obtain v where "v \<in> set held" "in_scope branch v" by (auto simp: filter_empty_conv)
    moreover have "t' = t1\<lparr>vt_released := vt_released t1 @ [(branch, next_waiter t1)], next_waiter := next_waiter t1 + 1\<rparr>"
      using s False by (auto split: if_splits)
    moreover have "tracker_ok t1 held" using same(4) ok by simp
    ultimately show ?thesis by (auto simp: tracker_ok_def)
  qed
  show "(branch, x) \<in> set (vt_released t')" if "idle_released s = Some x" using s that by (auto split: if_splits)
qed


lemma idle_status_total:
  assumes "tracker_ok t held" "length held \<le> u64_max"
  shows "\<exists>s t'. idle_status_of w t branch = Some (s, t')"
proof -
  have "\<not> u64_max < length (filter (in_scope branch) held)" using length_filter_le [of "in_scope branch" held] assms(2) by linarith
  then show ?thesis by (simp add: idle_status_of_def Let_def scope_sum [OF assms(1)] split: prod.split)
qed

lemma drop_tells:
  assumes dr: "drop_at_version w t v = Some (told, t')" and ok: "tracker_ok t held" and v: "v \<in> set held" "v \<notin> set (remove1 v held)"
    and x: "(scope, x) \<in> set (vt_released t)" "in_scope scope v"
  shows "x \<in> set told"
proof -
  obtain e where e: "map_of (active_versions t) v = Some e" using dr by (auto simp: drop_at_version_def split: Option.bind_split_asm)
  then have "ref_count e = count_list held v" using tracker_okD(2) [OF ok, of v] by (simp add: refs_def)
  moreover have "count_list (remove1 v held) v = 0" using v(2) count_list_0_iff by metis
  then have "count_list held v - 1 = 0" using count_list_remove1 [of v held v] by simp
  ultimately obtain kept where "tell_waiters (waiter_closed w) v (vt_released t) = (told, kept)"
    using dr e by (auto simp: drop_at_version_def split: prod.splits if_splits)
  from tell_waiters_split(2) [OF this x] show ?thesis .
qed


section \<open>Runs\<close>

theorem run_tracker_ok: "actor_run eq a kn \<Longrightarrow> tracker_ok (ac_tracker a) (kn_held kn)"
proof (induction rule: actor_run.induct)
  case (start paging tokens generation a)
  then show ?case using actor_new_ok(2) [OF start] vt_new_ok by (simp add: kn_none_def)
next
  case (request a kn rq w rp a')
  show ?case
  proof (cases rq)
    case (CtxAtVersion v)
    with request vt_at_ok show ?thesis by (auto simp: on_tracker_def learn_def)
  next
    case (DropCtxAtVersion v)
    with request drop_ok show ?thesis by (fastforce simp: on_tracker_def learn_def)
  next
    case (IdleStatus b)
    with request idle_status_ok(1) show ?thesis by (fastforce simp: on_tracker_def learn_def)
  next
    case (RunningTasks b)
    with request draining_tasks_same(4) [of w "ac_tracker a" b] show ?thesis
      by (auto simp: on_tracker_def learn_def running_tasks_of_def Let_def split: prod.splits)
  next
    case (LookupKey k v)
    with request show ?thesis by (auto simp: learn_def split: graph_result.split)
  next
    case (RecoveryUntracked k v)
    with request show ?thesis by (auto simp: learn_def split: option.split)
  qed (use request in \<open>auto simp: on_defs learn_def Let_def split: prod.splits\<close>)
qed

end
