(* ===== verification/Value_Status.thy ===== *)
theory Value_Status
  imports Value_Transactions
begin

text \<open>
  What the paging index reports is what a scan of the values finds: the counts that \<^verbatim>\<open>pagable_status\<close> asserts equal to the lengths of its
  lists, and the values offered to the next page-out.
\<close>

lemma tally_fold:
  "c_resident (fold (\<lambda>(_, p). c_add_value policy p) es c) = c_resident c + length (filter (\<lambda>(_, p). \<not> is_paged_out p) es)"
  "c_paged_out (fold (\<lambda>(_, p). c_add_value policy p) es c) = c_paged_out c + length (filter (\<lambda>(_, p). is_paged_out p) es)"
  "c_backed (fold (\<lambda>(_, p). c_add_value policy p) es c) = c_backed c + length (filter (\<lambda>(_, p). is_backed p) es)"
  "c_candidates (fold (\<lambda>(_, p). c_add_value policy p) es c) =
     c_candidates c + length (filter (\<lambda>(_, p). is_page_out_candidate p policy) es)"
  by (induction es arbitrary: c) (auto simp: c_add_value_def is_paged_out_def is_backed_def split: pagable_value.splits)

lemma kv_tally_lengths:
  "c_resident (kv_tally policy kv) = (if kv_injected kv then 0 else length (filter (\<lambda>(_, p). \<not> is_paged_out p) (kv_entries kv)))"
  "c_paged_out (kv_tally policy kv) = (if kv_injected kv then 0 else length (filter (\<lambda>(_, p). is_paged_out p) (kv_entries kv)))"
  "c_backed (kv_tally policy kv) = (if kv_injected kv then 0 else length (filter (\<lambda>(_, p). is_backed p) (kv_entries kv)))"
  "c_candidates (kv_tally policy kv) =
     (if kv_injected kv then 0 else length (filter (\<lambda>(_, p). is_page_out_candidate p policy) (kv_entries kv)))"
  by (simp_all add: kv_tally_def tally_fold)

lemma keys_where_length:
  assumes "\<And>kv. f (kv_tally policy kv) = (if kv_injected kv then 0 else length (filter (\<lambda>(_, p). P p) (kv_entries kv)))"
  shows "length (concat (map (\<lambda>(k, kv). map (\<lambda>_. k) (filter (\<lambda>(_, p). P p) (kv_entries kv)))
      (filter (\<lambda>(_, kv). \<not> kv_injected kv) m))) = tally_sum policy f m"
  by (induction m) (auto simp: tally_sum_def assms)

theorem status_total:
  assumes "graph_ok g"
  shows "\<exists>s. pagable_status g = Some s"
proof -
  have i: "index_ok (vg_policy g) (vg_values g) (vg_index g)" by (rule graph_okD(5) [OF assms])
  show ?thesis
    using keys_where_length [OF kv_tally_lengths(1) [of "vg_policy g"], of "vg_values g"] keys_where_length [OF kv_tally_lengths(2) [of "vg_policy g"], of "vg_values g"]
      keys_where_length [OF kv_tally_lengths(3) [of "vg_policy g"], of "vg_values g"] i
    by (simp add: pagable_status_def keys_by_paging_state_def pagable_node_counts_def Let_def index_ok_def)
qed

lemma candidate_hydrated: "is_page_out_candidate p policy \<Longrightarrow> \<exists>x. as_hydrated p = Some x"
  by (cases p) auto

lemma candidates_of_eq:
  "\<exists>xs. candidates_of policy k kv = Some xs \<and>
     set xs = {(k, x) |x r p. (r, p) \<in> set (kv_entries kv) \<and> is_page_out_candidate p policy \<and> as_hydrated p = Some x}"
proof -
  have "\<exists>xs. those (map (\<lambda>(_, p). map_option (Pair k) (as_hydrated p)) (filter (\<lambda>(_, p). is_page_out_candidate p policy) es)) = Some xs \<and>
     set xs = {(k, x) |x r p. (r, p) \<in> set es \<and> is_page_out_candidate p policy \<and> as_hydrated p = Some x}" for es
  proof (induction es)
    case (Cons e es)
    then obtain xs where xs: "those (map (\<lambda>(_, p). map_option (Pair k) (as_hydrated p))
        (filter (\<lambda>(_, p). is_page_out_candidate p policy) es)) = Some xs"
      "set xs = {(k, x) |x r p. (r, p) \<in> set es \<and> is_page_out_candidate p policy \<and> as_hydrated p = Some x}" by blast
    show ?case
    proof (cases "is_page_out_candidate (snd e) policy")
      case True
      with candidate_hydrated obtain x where "as_hydrated (snd e) = Some x" by blast
      with True xs show ?thesis by (cases e) auto
    next
      case False
      with xs show ?thesis by (cases e) auto
    qed
  qed simp
  then show ?thesis by (simp add: candidates_of_def)
qed

text \<open>The values a page-out may serialize: those of keys that are computed.\<close>

definition offered :: "'v versioned_graph \<Rightarrow> key \<Rightarrow> 'v \<Rightarrow> bool" where
  "offered g k x \<longleftrightarrow> (\<exists>kv r p. map_of (vg_values g) k = Some kv \<and> \<not> kv_injected kv \<and> (r, p) \<in> set (kv_entries kv)
     \<and> is_page_out_candidate p (vg_policy g) \<and> as_hydrated p = Some x)"

lemma keys_to_page_out_iff:
  assumes "graph_ok g"
  shows "\<exists>ks. keys_to_page_out g = Some ks \<and> (\<forall>k x. (k, x) \<in> set ks \<longleftrightarrow> offered g k x)"
proof -
  let ?p = "vg_policy g" and ?m = "vg_values g"
  have ix: "set (i_candidates (vg_index g)) = tallied ?p c_candidates ?m"
    using graph_okD(5) [OF assms] by (simp add: index_ok_def)
  define cs where "cs k = the (case map_of ?m k of Some kv \<Rightarrow> candidates_of ?p k kv | None \<Rightarrow> Some [])" for k
  have cs: "(case map_of ?m k of Some kv \<Rightarrow> candidates_of ?p k kv | None \<Rightarrow> Some []) = Some (cs k)
    \<and> (\<forall>j x. (j, x) \<in> set (cs k) \<longleftrightarrow> j = k \<and> (\<exists>kv r p. map_of ?m k = Some kv \<and> (r, p) \<in> set (kv_entries kv)
       \<and> is_page_out_candidate p ?p \<and> as_hydrated p = Some x))" for k
  proof (cases "map_of ?m k")
    case (Some kv)
    from candidates_of_eq [of ?p k kv] obtain xs where "candidates_of ?p k kv = Some xs"
      "set xs = {(k, x) |x r p. (r, p) \<in> set (kv_entries kv) \<and> is_page_out_candidate p ?p \<and> as_hydrated p = Some x}" by blast
    with Some show ?thesis by (auto simp: cs_def)
  qed (simp add: cs_def)
  have "keys_to_page_out g = Some (concat (map cs (i_candidates (vg_index g))))"
    using those_map_Some [of "i_candidates (vg_index g)" _ cs] cs by (simp add: keys_to_page_out_def)
  moreover have "(k, x) \<in> set (concat (map cs (i_candidates (vg_index g)))) \<longleftrightarrow> offered g k x" for k x
  proof -
    have "k \<in> tallied ?p c_candidates ?m \<longleftrightarrow> (\<exists>kv r p. map_of ?m k = Some kv \<and> \<not> kv_injected kv \<and> (r, p) \<in> set (kv_entries kv)
        \<and> is_page_out_candidate p ?p)"
      by (auto simp: tallied_def kv_tally_lengths filter_empty_conv split: if_splits)
    moreover have "(k, x) \<in> set (concat (map cs (i_candidates (vg_index g)))) \<longleftrightarrow> k \<in> tallied ?p c_candidates ?m \<and> (k, x) \<in> set (cs k)"
      using cs by (auto simp: ix)
    ultimately show ?thesis using cs [of k] unfolding offered_def by (cases "map_of ?m k") (simp_all, blast)
  qed
  ultimately show ?thesis by blast
qed

end
