(* ===== verification/Value_Found.thy ===== *)
theory Value_Found
  imports Value_Status
begin

text \<open>
  A computed value is kept: a write with the token of its lookup returns when the counters have room, and where the dependencies of the
  value are valid the next lookup finds it.
\<close>

section \<open>Room in the index\<close>

abbreviation part :: "page_out_policy \<Rightarrow> (contribution \<Rightarrow> nat) \<Rightarrow> 'v pagable_value \<Rightarrow> nat" where
  "part policy f p \<equiv> f (c_add_value policy p c_zero)"

lemma fold_parts:
  "c_resident (fold (\<lambda>(_, p). c_add_value policy p) es c) = c_resident c + (\<Sum>(r, p)\<leftarrow>es. part policy c_resident p)"
  "c_paged_out (fold (\<lambda>(_, p). c_add_value policy p) es c) = c_paged_out c + (\<Sum>(r, p)\<leftarrow>es. part policy c_paged_out p)"
  "c_candidates (fold (\<lambda>(_, p). c_add_value policy p) es c) = c_candidates c + (\<Sum>(r, p)\<leftarrow>es. part policy c_candidates p)"
  "c_backed (fold (\<lambda>(_, p). c_add_value policy p) es c) = c_backed c + (\<Sum>(r, p)\<leftarrow>es. part policy c_backed p)"
  "c_backed_bytes (fold (\<lambda>(_, p). c_add_value policy p) es c) = c_backed_bytes c + (\<Sum>(r, p)\<leftarrow>es. part policy c_backed_bytes p)"
  by (induction es arbitrary: c) (auto simp: c_add_value_def split: pagable_value.splits)

text \<open>New values of a key that add at most \<open>n\<close> to each tally.\<close>

definition tally_step :: "page_out_policy \<Rightarrow> nat \<Rightarrow> 'v key_values \<Rightarrow> 'v key_values \<Rightarrow> bool" where
  "tally_step policy n kv kv' \<longleftrightarrow>
     list_all (\<lambda>f. f (kv_tally policy kv') \<le> f (kv_tally policy kv) + n)
       [c_resident, c_paged_out, c_candidates, c_backed, c_backed_bytes]"

lemma tally_stepI:
  assumes "kv_injected kv' = kv_injected kv"
    and "\<And>f. f \<in> {c_resident, c_paged_out, c_candidates, c_backed, c_backed_bytes} \<Longrightarrow>
      (\<Sum>(r, p)\<leftarrow>kv_entries kv'. part policy f p) \<le> (\<Sum>(r, p)\<leftarrow>kv_entries kv. part policy f p) + n"
  shows "tally_step policy n kv kv'"
  using assms by (simp add: tally_step_def kv_tally_def fold_parts)

lemma update_sum: "(\<Sum>(r, p)\<leftarrow>AList.update k q es. h p) \<le> (\<Sum>(r, p)\<leftarrow>es. h p) + (h q :: nat)"
  by (induction es) auto

lemma filter_sum: "(\<Sum>(r, p)\<leftarrow>filter P es. h p) \<le> (\<Sum>(r, p)\<leftarrow>es. h p :: nat)"
  by (induction es) auto

lemma part_le_1:
  assumes "f \<in> {c_resident, c_paged_out, c_candidates, c_backed, c_backed_bytes}" "\<And>b. p = Backed b \<Longrightarrow> bk_bytes b \<le> 1"
  shows "part policy f p \<le> 1"
  using assms by (cases p) (auto simp: c_add_value_def)

lemma tally_step_append:
  assumes "kv_injected kv' = kv_injected kv" "kv_entries kv' = kv_entries kv @ [(r, p)]" "\<And>b. p = Backed b \<Longrightarrow> bk_bytes b \<le> 1"
  shows "tally_step policy 1 kv kv'"
  by (rule tally_stepI) (use assms part_le_1 [OF _ assms(3), where policy = policy] in auto)

lemma tally_step_update:
  assumes "kv_injected kv' = kv_injected kv" "kv_entries kv' = AList.update r p (kv_entries kv)" "\<And>b. p = Backed b \<Longrightarrow> bk_bytes b \<le> 1"
  shows "tally_step policy 1 kv kv'"
proof (rule tally_stepI [OF assms(1)])
  fix f :: "contribution \<Rightarrow> nat" assume "f \<in> {c_resident, c_paged_out, c_candidates, c_backed, c_backed_bytes}"
  from part_le_1 [OF this, of p policy] assms(3) update_sum [where h = "part policy f" and es = "kv_entries kv" and k = r and q = p]
  show "(\<Sum>(r, p)\<leftarrow>kv_entries kv'. part policy f p) \<le> (\<Sum>(r, p)\<leftarrow>kv_entries kv. part policy f p) + 1"
    by (simp add: assms(2))
qed

lemma kv_tally_mint [simp]: "kv_tally policy (kv\<lparr>kv_mint := n\<rparr>) = kv_tally policy kv"
  by (simp add: kv_tally_def cong: if_cong)

lemma tally_step_refl: "tally_step policy 1 kv kv"
  by (simp add: tally_step_def)

lemma tally_step_room:
  assumes "tally_step policy m (values_of g k) kv" "index_ok policy (vg_values g) i" "index_room (n + m) i"
  shows "tally_room (kv_tally policy kv)"
  using assms tally_sum_ge [of c_resident policy "vg_values g" k] tally_sum_ge [of c_paged_out policy "vg_values g" k]
    tally_sum_ge [of c_candidates policy "vg_values g" k] tally_sum_ge [of c_backed policy "vg_values g" k]
    tally_sum_ge [of c_backed_bytes policy "vg_values g" k]
  by (simp add: tally_step_def tally_room_def index_ok_def index_room_def values_of_kv_of)

lemma sum_step:
  assumes "f c_zero = 0" "f (kv_tally policy kv) \<le> f (kv_tally policy (kv_of m k)) + n"
  shows "tally_sum policy f (AList.update k kv m) \<le> tally_sum policy f m + n"
  using tally_sum_update [of f policy k kv m] assms by simp

lemma room_step:
  assumes "tally_step policy m (kv_of vs k) kv" "index_ok policy vs i" "index_ok policy (AList.update k kv vs) i'"
    and "index_room (n + m) i"
  shows "index_room n i'"
  using assms sum_step [of c_resident policy kv vs k m] sum_step [of c_paged_out policy kv vs k m]
    sum_step [of c_candidates policy kv vs k m] sum_step [of c_backed policy kv vs k m] sum_step [of c_backed_bytes policy kv vs k m]
  by (simp add: tally_step_def index_ok_def index_room_def)

lemma with_values_step:
  assumes ok: "values_ok g" and f: "f (values_of g k) (vg_generation g) = Some (x, kv, gen)"
    and kv: "kv_ok kv" "tally_step (vg_policy g) m (values_of g k) kv" and room: "index_room (n + m) (vg_index g)"
  shows "\<exists>g'. with_values g k f = Some (x, g') \<and> set_values k kv g g' \<and> index_room n (vg_index g') \<and> map_of (vg_values g') k = Some kv"
proof -
  have i: "index_ok (vg_policy g) (vg_values g) (vg_index g)" using ok by (simp add: values_ok_def)
  from with_values_total [of g f k x kv gen] ok f room tally_step_room [OF kv(2) i room] obtain g' where g': "with_values g k f = Some (x, g')" by blast
  have s: "set_values k kv g g'" using with_values_set [OF g'] f by auto
  have v: "vg_values g' = AList.update k kv (vg_values g)"
    using g' f by (auto simp: with_values_def Let_def bind_eq_Some_conv)
  have "index_ok (vg_policy g) (AList.update k kv (vg_values g)) (vg_index g')"
    using s ok kv(1) v by (auto simp: set_values_def values_ok_def)
  from room_step [OF kv(2) [unfolded values_of_kv_of] i this room] g' s v show ?thesis by (simp add: update_conv')
qed


section \<open>Interning and adopting\<close>

text \<open>The entry of a revision is resident with the value that is handed back.\<close>

definition holds_value :: "'v key_values \<Rightarrow> revision \<Rightarrow> 'v \<Rightarrow> bool" where
  "holds_value kv r x \<longleftrightarrow> (\<exists>p. kv_entry kv r = Some p \<and> as_hydrated p = Some x)"

lemma lifecycle_hydrated [simp]: "as_hydrated (kv_lifecycle kv x) = Some x"
  by (auto simp: kv_lifecycle_def lifecycle_after_def split: option.split pagable_value.split)

lemma lifecycle_not_backed: "kv_lifecycle kv x \<noteq> Backed b"
  by (auto simp: kv_lifecycle_def lifecycle_after_def split: option.split pagable_value.split)

lemma insert_total:
  assumes "r \<notin> kv_revisions kv" "as_hydrated p = Some x" "\<And>b. p \<noteq> Backed b"
  shows "\<exists>kv'. kv_insert kv r p = Some kv' \<and> holds_value kv' r x \<and> tally_step policy 1 kv kv'"
proof -
  have n: "kv_entry kv r = None" using assms(1) by (simp add: kv_entry_None)
  then have "map_of (kv_entries kv @ [(r, p)]) r = Some p" by (simp add: kv_entry_def map_add_def)
  moreover have "tally_step policy 1 kv (kv\<lparr>kv_entries := kv_entries kv @ [(r, p)]\<rparr>)"
    by (rule tally_step_append) (use assms(3) in auto)
  ultimately show ?thesis using n assms(2) by (simp add: kv_insert_def holds_value_def kv_entry_def)
qed

lemma intern_computed_total:
  assumes ok: "kv_ok kv" and mint: "kv_mint kv < u32_max"
  shows "\<exists>r e kv'. intern_computed eq x kv gen = Some ((r, e), kv', gen) \<and> (e = x \<or> eq e x \<and> holds_value kv r e)
    \<and> holds_value kv' r e
    \<and> tally_step policy 1 kv kv'"
proof (cases "find_equal eq x kv")
  case (Some re)
  obtain r e where re: "re = (r, e)" by (cases re)
  from Some re obtain p where p: "(r, p) \<in> set (kv_entries kv)" "as_hydrated p = Some e" "eq e x"
    by (auto simp: find_equal_def split: option.splits dest!: find_Some_in)
  then have "holds_value kv r e" using ok map_of_is_SomeI [of "kv_entries kv" r p] by (auto simp: kv_ok_def holds_value_def kv_entry_def)
  with Some re p tally_step_refl [of policy kv] show ?thesis by (auto simp: intern_computed_def)
next
  case None
  let ?kv = "kv\<lparr>kv_mint := kv_mint kv + 1\<rparr>"
  have m: "kv_mint_next kv = Some (kv_mint kv, ?kv)" using mint by (simp add: kv_mint_next_def revision_next_def)
  have "kv_mint kv \<notin> kv_revisions ?kv" using ok by (auto simp: kv_ok_def)
  from insert_total [OF this lifecycle_hydrated lifecycle_not_backed, of ?kv x policy]
  obtain kv' where kv': "kv_insert ?kv (kv_mint kv) (kv_lifecycle ?kv x) = Some kv'" "holds_value kv' (kv_mint kv) x"
    "tally_step policy 1 ?kv kv'" by blast
  then have "tally_step policy 1 kv kv'" by (simp add: tally_step_def)
  with None m kv' show ?thesis by (simp add: intern_computed_def)
qed

lemma make_resident_total:
  assumes "gen < u64_max"
  shows "\<exists>q gen'. make_resident p x 0 policy gen = Some (q, gen')
    \<and> (if is_paged_out p then as_hydrated q = Some x \<and> (\<forall>b. q = Backed b \<longrightarrow> bk_bytes b = 0) else q = p)"
  using assms by (cases p; cases policy) (auto simp: make_resident_def backed_new_def is_paged_out_def)

lemma AList_update_same: "map_of es r = Some p \<Longrightarrow> AList.update r p es = es"
  by (induction es) (auto split: if_splits)

lemma kv_adopt_total:
  assumes "gen < u64_max"
  shows "\<exists>e kv' gen'. kv_adopt r x policy kv gen = Some (e, kv', gen') \<and> (e = x \<or> holds_value kv r e) \<and> holds_value kv' r e
    \<and> tally_step policy 1 kv kv'"
proof (cases "kv_entry kv r")
  case None
  then have "r \<notin> kv_revisions kv" by (simp add: kv_entry_None)
  from insert_total [OF this lifecycle_hydrated lifecycle_not_backed, of kv x policy] None show ?thesis
    by (auto simp: kv_adopt_def)
next
  case (Some p)
  from make_resident_total [OF assms, of p x policy] obtain q gen' where q: "make_resident p x 0 policy gen = Some (q, gen')"
    "if is_paged_out p then as_hydrated q = Some x \<and> (\<forall>b. q = Backed b \<longrightarrow> bk_bytes b = 0) else q = p" by blast
  let ?kv = "kv\<lparr>kv_entries := AList.update r q (kv_entries kv)\<rparr>"
  obtain e where e: "as_hydrated q = Some e" using q(2) by (cases p) (auto simp: is_paged_out_def)
  have "tally_step policy 1 kv ?kv"
  proof (cases "is_paged_out p")
    case True
    then show ?thesis using q(2) by (intro tally_step_update) auto
  next
    case False
    then have "AList.update r q (kv_entries kv) = kv_entries kv" using q(2) Some AList_update_same by (simp add: kv_entry_def)
    then show ?thesis using tally_step_refl by simp
  qed
  moreover have "e = x \<or> holds_value kv r e" using q(2) e Some by (auto simp: holds_value_def split: if_splits)
  moreover have "holds_value ?kv r e" using e by (simp add: holds_value_def kv_entry_def update_conv')
  ultimately show ?thesis using Some q(1) e by (simp add: kv_adopt_def)
qed



section \<open>Writes return\<close>

lemma holds_value_in: "holds_value kv r x \<Longrightarrow> r \<in> kv_revisions kv"
  using kv_entry_None [of kv r] by (auto simp: holds_value_def)

lemma holds_value_stored:
  assumes "map_of (vg_values g) k = Some kv" "holds_value kv r x"
  shows "vg_stored g k r = Some (Resident x)"
  using assms by (auto simp: vg_stored_def holds_value_def as_maybe_resident_def split: pagable_value.split)

lemma held_before_stored: "holds_value (values_of g k) r x \<Longrightarrow> vg_stored g k r = Some (Resident x)"
  by (rule holds_value_stored [of _ _ "values_of g k"]) (auto simp: values_of_def holds_value_def kv_entry_def kv_default_def split: option.splits)

definition kv_kept :: "dice_state \<Rightarrow> key \<Rightarrow> 'v key_values \<Rightarrow> 'v key_values" where
  "kv_kept st k kv = kv\<lparr>kv_entries := filter (\<lambda>(r, _). is_referenced st k r) (kv_entries kv)\<rparr>"

lemma kv_kept_ok: "kv_ok kv \<Longrightarrow> kv_ok (kv_kept st k kv)"
  by (auto simp: kv_kept_def kv_ok_def kv_revisions_def distinct_map_filter)

lemma kv_kept_step: "tally_step policy 0 kv (kv_kept st k kv)"
  by (rule tally_stepI) (use filter_sum in \<open>auto simp: kv_kept_def\<close>)

lemma map_of_filter_key: "P r \<Longrightarrow> map_of (filter (\<lambda>(r, _). P r) es) r = map_of es r"
  by (induction es) auto

lemma kv_kept_holds: "is_referenced st k r \<Longrightarrow> holds_value kv r x \<Longrightarrow> holds_value (kv_kept st k kv) r x"
  by (simp add: holds_value_def kv_kept_def kv_entry_def map_of_filter_key)

lemma finish_write_total:
  assumes g: "graph_ok g" and live: "is_live (vg_core g) (vbranch v)" and as: "\<not> is_asserted (vg_core g) k"
    and src: "untracked dice_env (vg_core g) k v = Some (e, own)" "sources_merge sources own = sources"
    and cert: "cert_key cert = k" and room: "index_room 0 (vg_index g)"
  shows "\<exists>s' g' out. finish_write g k v cert sources = Some (s', g') \<and> write_cert dice_env (vg_core g) cert = Some (vg_core g', out)
    \<and> map_of (vg_values g') k = Some (kv_kept (vg_core g') k (values_of g k))"
proof -
  note I = graph_okD(1) [OF g]
  from write_referenced [OF I, of cert] as cert obtain st out where w: "write_cert dice_env (vg_core g) cert = Some (st, out)"
    and inv: "core_inv dice_env st" and sw: "same_world (vg_core g) st" by auto
  let ?g = "g\<lparr>vg_core := st\<rparr>"
  have v: "values_of ?g = values_of g" by (simp add: values_of_def fun_eq_iff)
  have "values_ok ?g" using g by (simp add: graph_ok_def values_ok_def v)
  have ret: "kv_retain st k (values_of ?g k) (vg_generation ?g) = Some ((), kv_kept st k (values_of g k), vg_generation g)"
    by (simp add: kv_retain_def kv_kept_def v)
  have step: "tally_step (vg_policy ?g) 0 (values_of ?g k) (kv_kept st k (values_of g k))" using kv_kept_step v by simp
  have "index_room (0 + 0) (vg_index ?g)" using room by simp
  from with_values_step [of ?g "kv_retain st k" k, OF \<open>values_ok ?g\<close> ret kv_kept_ok [OF graph_okD(4) [OF g]] step this] obtain g' where g': "with_values ?g k (kv_retain st k) = Some ((), g')" "set_values k (kv_kept st k (values_of g k)) ?g g'"
    "map_of (vg_values g') k = Some (kv_kept st k (values_of g k))" by blast
  have core: "vg_core g' = st" using g'(2) by (simp add: set_values_def)
  have "is_live st (vbranch v)" "wf_tree st" using live sw inv by (auto simp: same_world_views core_inv_def wf_core_def)
  then obtain l where "lookup dice_env st k v = Some l" using lookup_views [of st "vbranch v" dice_env k "vseq v"] by (cases v) auto
  then show ?thesis using w g' core src by (auto simp: finish_write_def)
qed

text \<open>Room for one more value of a key.\<close>

definition graph_room :: "'v versioned_graph \<Rightarrow> key \<Rightarrow> bool" where
  "graph_room g k \<longleftrightarrow> index_room 1 (vg_index g) \<and> kv_mint (values_of g k) < u32_max \<and> vg_generation g < u64_max"

text \<open>The value a write hands back: the one that was computed; or a resident one the key had, which is equal to it or has been
  computed from the same dependencies under the same untracked input.\<close>

definition handed_back :: "('v \<Rightarrow> 'v \<Rightarrow> bool) \<Rightarrow> 'v versioned_graph \<Rightarrow> key \<Rightarrow> 'v \<Rightarrow> revision deps \<Rightarrow> epsilon_token \<Rightarrow> 'v \<Rightarrow> bool" where
  "handed_back eq g k val deps eps e \<longleftrightarrow> e = val \<or> (\<exists>r. vg_stored g k r = Some (Resident e)
     \<and> (eq e val \<or> (\<exists>c\<in>set (pinned_certs (vg_core g) k). cert_revision c = r \<and> cert_epsilon c = eps \<and> cert_deps c = deps)))"

lemma update_computed_total:
  assumes g: "graph_ok g" and live: "is_live (vg_core g) (vbranch v)" and as: "\<not> is_asserted (vg_core g) k"
    and eps: "untracked dice_env (vg_core g) k v = Some (eps, own)" "sources_merge sources own = sources"
    and room: "graph_room g k"
  shows "\<exists>x e g' out. update_computed eq g k v val deps eps sources = Some (x, g') \<and> cp_value x = Resident e \<and> handed_back eq g k val deps eps e
    \<and> write_cert dice_env (vg_core g) \<lparr>cert_key = k, cert_revision = cp_revision x, cert_deps = deps, cert_epsilon = eps\<rparr> =
        Some (vg_core g', out)
    \<and> (is_referenced (vg_core g') k (cp_revision x) \<longrightarrow> vg_stored g' k (cp_revision x) = Some (Resident e))"
proof -
  have fin: "\<exists>s' g' out. finish_write g1 k v cert sources = Some (s', g') \<and> write_cert dice_env (vg_core g) cert = Some (vg_core g', out)
      \<and> (is_referenced (vg_core g') k r \<longrightarrow> vg_stored g' k r = Some (Resident e))"
    if s: "set_values k kv g g1" and kv: "kv_grows (values_of g k) kv" "holds_value kv r e" and key: "cert_key cert = k"
      and rm: "index_room 0 (vg_index g1)" for kv g1 cert r e
  proof -
    have g1: "graph_ok g1" using set_values_grows [OF g s kv(1)] by (simp add: graph_keeps_def)
    have core: "vg_core g1 = vg_core g" "values_of g1 k = kv" using s by (simp_all add: set_values_def)
    from finish_write_total [OF g1, of v k eps own sources cert] live as eps key rm core obtain s' g' out where
      "finish_write g1 k v cert sources = Some (s', g')" "write_cert dice_env (vg_core g) cert = Some (vg_core g', out)"
      "map_of (vg_values g') k = Some (kv_kept (vg_core g') k kv)" by auto
    moreover from this(3) have "vg_stored g' k r = Some (Resident e)" if "is_referenced (vg_core g') k r"
      by (rule holds_value_stored) (rule kv_kept_holds [OF that kv(2)])
    ultimately show ?thesis by blast
  qed
  have cur: "epsilon (vg_core g) k v = Some eps" by (rule untracked_epsilon [OF eps(1)])
  have ok: "values_ok g" "kv_ok (values_of g k)" using g graph_okD(4) by (auto simp: graph_ok_def)
  have rm: "index_room (0 + 1) (vg_index g)" "kv_mint (values_of g k) < u32_max" "vg_generation g < u64_max"
    using room by (simp_all add: graph_room_def)
  show ?thesis
  proof (cases "find (\<lambda>c. cert_epsilon c = eps \<and> deps_eq (cert_deps c) deps) (pinned_certs (vg_core g) k)")
    case (Some cert)
    then have c: "cert \<in> set (pinned_certs (vg_core g) k)" "cert_epsilon cert = eps" "cert_deps cert = deps"
      using find_Some_in [OF Some] by (auto simp: deps_eq_iff)
    then have key: "cert_key cert = k" and ref: "is_referenced (vg_core g) k (cert_revision cert)"
      using pinned_certs_iff [OF graph_okD(2) [OF g]] by (auto simp: is_referenced_def)
    from kv_adopt_total [OF rm(3), of "cert_revision cert" val "vg_policy g" "values_of g k"] obtain e kv gen where
      ad: "kv_adopt (cert_revision cert) val (vg_policy g) (values_of g k) (vg_generation g) = Some (e, kv, gen)"
      "holds_value kv (cert_revision cert) e" "tally_step (vg_policy g) 1 (values_of g k) kv"
      and old: "e = val \<or> holds_value (values_of g k) (cert_revision cert) e" by blast
    have hb: "handed_back eq g k val deps eps e" using old c held_before_stored [of g k] by (auto simp: handed_back_def)
    have gr: "kv_grows (values_of g k) kv" using kv_adopt_grows [OF ad(1) ok(2) referenced_minted [OF g ref]] by blast
    then have "kv_ok kv" by (simp add: kv_grows_def)
    from with_values_step [of g "kv_adopt (cert_revision cert) val (vg_policy g)" k, OF ok(1) ad(1) this ad(3) rm(1)] obtain g1 where
      w: "with_values g k (kv_adopt (cert_revision cert) val (vg_policy g)) = Some (e, g1)" "set_values k kv g g1" "index_room 0 (vg_index g1)"
      by blast
    have "\<lparr>cert_key = k, cert_revision = cert_revision cert, cert_deps = deps, cert_epsilon = eps\<rparr> = cert"
      using c key by simp
    with fin [OF w(2) gr ad(2) key w(3)] Some live cur w(1) hb show ?thesis by (auto simp: update_computed_def)
  next
    case None
    from intern_computed_total [OF ok(2) rm(2), of eq val "vg_generation g" "vg_policy g"] obtain r e kv where
      ic: "intern_computed eq val (values_of g k) (vg_generation g) = Some ((r, e), kv, vg_generation g)" "holds_value kv r e"
      "tally_step (vg_policy g) 1 (values_of g k) kv" and old: "e = val \<or> eq e val \<and> holds_value (values_of g k) r e" by blast
    have hb: "handed_back eq g k val deps eps e" using old held_before_stored [of g k] by (auto simp: handed_back_def)
    have gr: "kv_grows (values_of g k) kv" using intern_computed_grows [OF ic(1) ok(2)] by blast
    then have "kv_ok kv" by (simp add: kv_grows_def)
    from with_values_step [of g "intern_computed eq val" k, OF ok(1) ic(1) this ic(3) rm(1)] obtain g1 where
      w: "with_values g k (intern_computed eq val) = Some ((r, e), g1)" "set_values k kv g g1" "index_room 0 (vg_index g1)" by blast
    let ?cert = "\<lparr>cert_key = k, cert_revision = r, cert_deps = deps, cert_epsilon = eps\<rparr> :: dice_cert"
    from fin [OF w(2) gr ic(2) _ w(3), of ?cert] None live cur w(1) hb show ?thesis by (auto simp: update_computed_def)
  qed
qed

text \<open>The value is found where its dependencies are valid.\<close>

lemma valid_referenced:
  assumes "graph_ok g" "is_live (vg_core g) (vbranch v)" "valid_at dice_env (vg_core g) k v = Some r"
  shows "is_referenced (vg_core g) k r"
  using assms valid_at_rev_at [OF graph_okD(3) [OF assms(1)], of "vbranch v" dice_env k "vseq v"]
    rev_at_referenced [OF graph_okD(2) [OF assms(1)]] by (cases v) auto

lemma computed_found:
  assumes g: "graph_ok g" and live: "is_live (vg_core g) b" and v: "v = newest (vg_core g) b"
    and as: "\<not> is_asserted (vg_core g) k" and eps: "untracked dice_env (vg_core g) k v = Some (eps, own)"
    and src: "sources_merge sources own = sources" and room: "graph_room g k"
    and none: "valid_at dice_env (vg_core g) k v = None"
    and prem: "list_all (\<lambda>p. valid_at dice_env (vg_core g) (premise_key p) v = Some (premise_revision p)) (deps_premises deps)"
  shows "\<exists>x g' y e. update_computed eq g k v val deps eps sources = Some (x, g') \<and> vg_get g' k v = Some (Match y)
    \<and> cp_revision y = cp_revision x \<and> cp_value y = cp_value x \<and> cp_value x = Resident e \<and> handed_back eq g k val deps eps e"
proof -
  have vb: "vbranch v = b" using v by (simp add: newest_def)
  from update_computed_total [OF g _ as eps src room, of eq val deps] live vb obtain x e g' out where
    u: "update_computed eq g k v val deps eps sources = Some (x, g')" "cp_value x = Resident e" "handed_back eq g k val deps eps e"
    and w: "write_cert dice_env (vg_core g) \<lparr>cert_key = k, cert_revision = cp_revision x, cert_deps = deps, cert_epsilon = eps\<rparr> =
        Some (vg_core g', out)"
    and st: "is_referenced (vg_core g') k (cp_revision x) \<Longrightarrow> vg_stored g' k (cp_revision x) = Some (Resident e)" by auto
  let ?cert = "\<lparr>cert_key = k, cert_revision = cp_revision x, cert_deps = deps, cert_epsilon = eps\<rparr> :: dice_cert"
  have g': "graph_ok g'" using update_computed_keeps [OF u(1) g] by (simp add: graph_keeps_def)
  have "cert_premises dice_env ?cert = deps_premises deps" by (simp add: cert_premises_def dice_env_def)
  then have re: "re_established dice_env (vg_core g) ?cert v" using untracked_epsilon [OF eps] prem by (simp add: re_established_def)
  from write_answers [OF graph_okD(1) [OF g], of ?cert] as w re none live
  have va: "valid_at dice_env (vg_core g') k v = Some (cp_revision x)" and live': "is_live (vg_core g') (vbranch v)"
    by (auto simp: v newest_def)
  note ref = valid_referenced [OF g' live' va]
  from get_live [OF g' live', of k] obtain res where res: "vg_get g' k v = Some res" "get_answers g' k v res" by blast
  with va st [OF ref] u show ?thesis by (cases res) (auto simp: get_answers_def)
qed

end
