(* ===== verification/Spec2Isabelle.thy ===== *)
theory Spec2Isabelle
  imports Dice_Interface Dice_Total Dice_Collections Admission_Runs Admission_Preempt Admission_Display Path_Potential Value_Found
    "HOL-Library.Code_Target_Nat"
begin

text \<open>
  A verification development for the parts of Buck2 that decide what a build may reuse, what may run together, and where its
  time went: the incremental computation core (\<^verbatim>\<open>src/dice/dice_core\<close>), the recorded dependencies, the values and the actor around
  it (\<^verbatim>\<open>src/dice/dice\<close>), the admission of concurrent commands
  (\<^verbatim>\<open>src/app/buck2_concurrency\<close>), with the truncation of messages (\<^verbatim>\<open>src/app/buck2_util\<close>) the
  latter shows, and the critical path of a build (\<^verbatim>\<open>src/app/buck2_critical_path\<close>).

  \<^bold>\<open>How the parts fit.\<close> A command of the daemon enters admission, updates DICE with what the file watcher saw, and
  commits; the commit makes a version. The coordinator admits the command beside the running ones if their versions are
  the same. The transaction the command then works on looks keys up at its version: the core answers with a value that is
  valid there, or says that it does not know, and takes certificates of new computations. A computation records what it reads, in series and in
  parallel; when it has to be run again, its recorded dependencies are checked first, and if they hold the old value is
  reissued. All this goes through one actor, which owns the core, the values behind its revisions and the list of transactions in
  flight, and serves one request at a time. The admission part sees versions and branches as the identifiers of the core; what
  DICE answers is an input there.

  \<^bold>\<open>The core.\<close> \<open>Prelude\<close> has the lemmas on lists, options and association lists. \<open>Delegation\<close> is the abstract
  specification of a fork tree in which a branch delegates to its parent (a locale, interpreted on the model's histories and
  claims). \<open>Dice_Ids\<close> (ids.rs, env.rs, cert.rs) has sequence numbers, versions, revisions, certificates and the
  environment; \<open>Dice_Collections\<close> (collections.rs) the key maps; \<open>Dice_Slot\<close> (history.rs, slot.rs, branch.rs)
  histories, windows, claims, slots, branches; \<open>Dice_State\<close> (state.rs) the state and its accessors; \<open>Dice_Resolve\<close>
  and \<open>Dice_Cover\<close> (resolve.rs) resolution, piece lists, covers, window picking and lookup; \<open>Dice_Oracle\<close>
  (oracle.rs) the reference judgment of what is valid, by an inductive predicate, and the code's saturation loop;
  \<open>Dice_Invariant\<close> the invariant; \<open>Dice_Write\<close>, \<open>Dice_Commit\<close>, \<open>Dice_Fork\<close>, \<open>Dice_Delete\<close> (the files
  of these names) the four operations, each with its effect on all answers; \<open>Dice_Run\<close> the reachable states;
  \<open>Dice_Fuzz\<close> (fuzz.rs) the generated runs, and \<open>Dice_Total\<close> that they return; \<open>Dice_Checks\<close> (invariants.rs) the executable checks; \<open>Dice_Interface\<close>
  the locale of what a client may rely on, interpreted on the operations. The state is a record with the fields of
  \<^verbatim>\<open>CoreState\<close>; insertion-ordered maps are association lists; an operation returns \<^const>\<open>None\<close> where the code
  panics, so a theorem that it returns excludes every panic and debug assertion on its way.

  \<^bold>\<open>Recorded dependencies.\<close> \<open>Deps_Encoding\<close> (deps/encoding.rs) has the words of an encoded graph, kept at 32 bits, with a locale of
  codecs; \<open>Deps_Graph\<close> (deps/graph.rs, deps/iterator.rs) the graphs of keys and words, their construction, comparison and iterators;
  \<open>Deps_Trees\<close> the series-parallel trees they stand for, and \<open>Deps_Iterate\<close> that the iterators end and decode them (an interpretation of
  the locale). \<open>Deps_Tracker\<close> (deps.rs, epoch/branches.rs, epoch/ctx.rs, api/invalidation_tracking.rs) has what contexts record, as
  sequences of what a computation does with its context, and \<open>Deps_Recorded\<close> the tree, validity and sources a whole computation records.
  \<open>Deps_Check\<close> (epoch/worker.rs) is the dependency check as a step relation on its futures, whose answers come in any order.

  \<^bold>\<open>Values and the actor.\<close> \<open>Value_Paging\<close> (core/graph/lifecycle.rs and the values of a key in core/graph.rs) has the residency of
  values, interning and the paging index; \<open>Value_Graph\<close> (core/graph.rs) the state with every operation, over the operations of the
  core above with the environment of DICE; \<open>Value_Invariant\<close>, \<open>Value_Retained\<close> and \<open>Value_Run\<close> that each operation keeps the
  invariant: revisions the core may answer with have values, and the index is that of a scan. \<open>Value_Answers\<close> says what a lookup answers.
  \<open>Value_Actor\<close> (core/versions.rs, core/internals.rs, core/processor.rs) is the actor, one definition per request; \<open>Value_Reachable\<close> its
  runs, with what the transactions know; \<open>Value_Transactions\<close>, \<open>Value_Status\<close> and \<open>Value_Found\<close> follow the transactions in flight, the paging
  status and a computed value through them. A value stands for its allocation, and the comparison of values is a parameter.

  \<^bold>\<open>Admission.\<close> \<open>Admission_State\<close> has the types and the decisions of \<^verbatim>\<open>CoordinatorState\<close>;
  \<open>Admission_Task\<close> the coordinator task, message by message; \<open>Admission_Invariant\<close> its invariant;
  \<open>Admission_Runs\<close> sequences of messages. \<open>Admission_Client\<close> is the other side: a command as a machine over the awaits
  of \<^verbatim>\<open>enter\<close>, \<^verbatim>\<open>wait_for_others\<close> and what they call, and the system of the commands, the queue and the
  coordinator, in which a command may be dropped at any await. \<open>Admission_View\<close> and \<open>Admission_Serve\<close> say how a
  message changes what the coordinator knows of its sender and of the others; \<open>Admission_System\<close> states that as a locale
  the commands rely on and interprets it on the task; \<open>Admission_Reachable\<close> proves the invariant of the system by
  induction over its steps; \<open>Admission_Preempt\<close> follows the preemption settings through it. \<open>Admission_Display\<close>
  has what commands show of each other.

  \<^bold>\<open>Critical paths.\<close> After a build the signals of what ran become a graph with a weight per vertex, whose critical path is
  reported with, for each of its vertices, what the cost of the critical path would be if it took no time. \<open>Path_Graph\<close> has the
  types (types.rs, graph.rs) and the builder (builder.rs), with the rule for loops that may panic; \<open>Path_Reverse\<close> reversal and
  added edges; \<open>Path_Topo\<close> the topological sort, and paths and cycles; \<open>Path_Longest\<close> costs, longest paths and the
  accessor (critical_path_accessor.rs); \<open>Path_Visit\<close>, \<open>Path_Sweep\<close> and \<open>Path_Potential\<close> the parts of
  potential.rs: the marking traversal, the sweep with its heap (a locale, interpreted on the heap of the model) and the whole function.
  What \<^verbatim>\<open>buck2_build_signals\<close> does with it is not modelled: a graph is any the builder makes, or any well-formed one.

  \<^bold>\<open>What is shown.\<close> C1 to C10: what a lookup answers is justified, for every sequence of operations; lookups, commits,
  forks, deletions and writes return, and do to the answers what they are for; the code's own checks pass on every reachable
  state, and the generated runs never panic. C11 to C15: the loops inside (support of a fork, oracle, covers, resolution) compute their specifications. C16: one assertion of the
  checks is not an invariant. C17 to C21: recorded dependencies decode to the reads of the computation, compare as their trees do, and are
  checked with the verdict, in the order and within the steps they should be. C22 to C26: in every run of the actor lookups are answered with
  values, a computed value is found again, the paging index is exact and whoever waits for idleness is told; and one assertion of the
  writes can fail. C27: the coordinator under any orderly sequence of messages. C28 to C36: the system of commands and coordinator: one state at a time, one
  updater at a time, no panic, replies of the awaited type, no internal error, no deadlock, an orderly stop, nobody who waits without a cause
  (C35, of the coordinator), and no preemption without consent; the lemma \<open>lease_release_can_fail\<close> is a run in which the release
  of a rejected command goes unanswered. C37 to C40: the critical
  path is a longest path, and what is reported for each of its vertices is the cost a recomputation without its time would
  give; the topological sort ends with an order or a cycle; and which graphs the builder makes, self-loops included. Beside these stand smaller
  facts on intersection, edge removal, hashes and printed versions, the coordinator alone, truncation, exclusive commands and reversal.

  \<^bold>\<open>Bounds.\<close> Sequence numbers, identifiers and epochs have the width of the code and overflow is a branch of the model (an
  error where the code panics, wrap-around where it wraps). Debug assertions and checked arithmetic are on in the DICE parts, as in a debug build:
  a failed one is a panic; the counters of the coordinator wrap. A coordinator that stops closes its queue at once, where the code
  may first wait for its branch to become idle. The theorems assume room in the counters where they need it. The recursion
  of a write down the branch tree carries fuel, the number of branches, which is enough because a child's index exceeds its
  parent's; the other loops are partial functions, proved to return. A command's identifier is taken only while it is free, that
  is, fewer than \<open>2 ^ 64\<close> commands are in play. The graphs of the critical path have at most \<open>2 ^ 31\<close> vertices and
  \<open>2 ^ 32 - 1\<close> edges, as their integers hold, and weights of which twice the sum fits in 64 bits, so no addition of costs overflows.
  A computation records fewer than \<open>2 ^ 28\<close> keys and words, as the encoding has 28 bits for a count; the tallies of the paging index stay below
  \<open>2 ^ 62\<close> where a write is shown to return.

  \<^bold>\<open>Not modelled.\<close> The reference-counted pointer of \<^verbatim>\<open>arc.rs\<close>, over raw memory; in fuzz.rs the decoding of raw fuzzer
  input and the honest mode; the read-write lock behind exclusive commands, a library type; events beyond the ones the commands emit
  at admission; of the \<^verbatim>\<open>dice\<close> crate the asynchronous evaluation of keys, its tasks, caches and cancellation, the storage of
  paged-out values, introspection and memory metrics, which need an executor, raw pointers or a database; and the rest of Buck2: the Starlark
  interpreter, configuration and analysis, queries, execution and remote execution, tests, clients and consoles.
\<close>

section \<open>A run to evaluate\<close>

text \<open>
  Two keys asserted, a value computed from the first and another from that one, and a fork between the two
  writes; and a state in which a commit has since invalidated what the fork inherited.
\<close>

definition demo_ops :: "op list" where
  "demo_ops = [OpCommit 0 [GenAssert 0 1, GenAssert 1 3], OpWrite 0 1 [(0, 1)] 0, OpFork 0 1, OpWrite 1 2 [(4, 1)] 0]"

definition demo_run :: test_run where
  "demo_run = fst (the (run_ops 2 1 demo_ops))"

abbreviation demo_state :: "(premise list, stamp, stamp option) core_state" where
  "demo_state \<equiv> run_state demo_run"

lemma demo_run_reachable: "reachable test_env demo_run"
proof -
  have "run_ops 2 1 demo_ops \<noteq> None" by code_simp
  then obtain r s where "run_ops 2 1 demo_ops = Some (r, s)" by auto
  moreover from this have "demo_run = r" by (simp add: demo_run_def)
  ultimately show ?thesis using run_ops_reachable by blast
qed

lemma reachable_core_inv: "reachable E run \<Longrightarrow> core_inv E (run_state run)"
  using reachable_inv [of E run] by (simp add: run_inv_def)

lemma demo_inv: "core_inv test_env demo_state"
  by (rule reachable_core_inv [OF demo_run_reachable])

lemma demo_wf: "wf_tree demo_state" "wf_claims demo_state" "wf_hists demo_state" "is_live demo_state 0"
proof -
  show "is_live demo_state 0" by code_simp
  show "wf_tree demo_state" "wf_claims demo_state" "wf_hists demo_state"
    using demo_inv by (simp_all add: core_inv_def wf_core_def)
qed


section \<open>Lookups\<close>

text \<open>C1. Soundness. Whatever sequence of new roots, commits, forks, deletions and writes made the state, a
  lookup that finds a revision valid at a version finds one that the oracle justifies there from the
  assertions committed and the certificates written, and the oracle returns.\<close>

theorem lookup_sound:
  assumes "reachable E run" "version_in (run_state run) v" "valid_at E (run_state run) k v = Some r"
  shows "is_justified (run_model run) k r v = Some True"
  using run_inv_sound(1) [OF reachable_inv [OF assms(1)] assms(2)] assms(3)
  by (auto simp: valid_at_def bind_eq_Some_conv)

theorem lookup_sound_witness:
  "valid_at test_env demo_state 5 (Version 1 1) = Some 2 \<and> is_justified (run_model demo_run) 5 2 (Version 1 1) = Some True"
proof -
  have v: "version_in demo_state (Version 1 1)" and r: "valid_at test_env demo_state 5 (Version 1 1) = Some 2"
    by code_simp+
  with lookup_sound [OF demo_run_reachable v r] show ?thesis by simp
qed

text \<open>C2. A lookup at a version of a live branch returns: either a valid revision, or \<open>Unknown\<close> with
  the key's current untracked-input token and, if any, a candidate certificate of that key made under that
  same token and written before.\<close>

theorem lookup_total:
  assumes "reachable E run" "version_in (run_state run) v"
  shows "\<exists>l e. lookup E (run_state run) k v = Some l \<and> epsilon (run_state run) k v = Some e
    \<and> (\<forall>c e' u. l = Unknown c e' u \<longrightarrow> e' = e \<and> (\<forall>x. c = Some x \<longrightarrow> cert_epsilon x = e \<and> cert_key x = k
         \<and> cert_record_of E x \<in> set (m_written (run_model run))))"
proof -
  obtain b s where v: "v = Version b s" by (cases v)
  note R = reachable_inv [OF assms(1)]
  have inv: "core_inv E (run_state run)" by (rule reachable_core_inv [OF assms(1)])
  then have t: "wf_core (run_state run)" "wf_tree (run_state run)" by (simp_all add: core_inv_def wf_core_def)
  have b: "is_live (run_state run) b" using assms(2) by (simp add: v version_in_def)
  from lookup_views [OF t(2) b, of E k s] obtain l where l: "lookup E (run_state run) k v = Some l"
    "\<forall>c e u. l = Unknown c e u \<longrightarrow> e = eps_at (run_state run) k b s
        \<and> (\<forall>x. c = Some x \<longrightarrow> cert_epsilon x = e \<and> x \<in> set (pinned_certs (run_state run) k))" unfolding v by blast
  have e: "epsilon (run_state run) k v = Some (eps_at (run_state run) k b s)"
    using epsilon_eps_at [OF t(2) b] by (simp add: v)
  have "cert_key x = k \<and> cert_record_of E x \<in> set (m_written (run_model run))" if "x \<in> set (pinned_certs (run_state run) k)" for x
    using pinned_all_certs [of "run_state run" x k] pinned_claim_at [of "run_state run" x k] t(1) that run_invD(9) [OF R]
    by (auto simp: wf_core_def wf_claims_def)
  with l e show ?thesis by blast
qed

theorem lookup_total_witness:
  "\<exists>l e. lookup test_env demo_state 6 (Version 1 1) = Some l \<and> epsilon demo_state 6 (Version 1 1) = Some e
    \<and> (\<forall>c e' u. l = Unknown c e' u \<longrightarrow> e' = e)"
proof -
  have v: "version_in demo_state (Version 1 1)" by code_simp
  from lookup_total [OF demo_run_reachable v, of 6] show ?thesis by blast
qed

section \<open>Invariants\<close>

text \<open>C3. In every state the operations reach, the structural checks of \<^verbatim>\<open>check_invariants\<close> hold: the fork tree
  and its children lists, the order and the bounds of the histories, the windows of the claims and the index of the closed ones,
  the separation of asserted from computed keys, and the key count.\<close>

theorem store_invariants:
  assumes "reachable E run"
  shows "check_store (run_state run)"
  by (rule check_store_passes) (use reachable_core_inv [OF assms] in \<open>simp add: core_inv_def\<close>)

theorem store_invariants_witness: "check_store demo_state"
  by (rule store_invariants [OF demo_run_reachable])

text \<open>C4. In every state the operations reach, a claim attached at the head of a live branch was made under the untracked
  input current there, each of its premises resolves there to the revision it names, and the branch's reverse
  dependencies hold the edge from each premise to the claim's key.\<close>

theorem attached_invariants:
  assumes "reachable E run" "is_live (run_state run) b" "(k, att) \<in> set (attached_keys (run_state run) b)"
  shows "check_attached_epsilon (run_state run) b k att \<and> check_attached_premises E (run_state run) b att
    \<and> (\<forall>p\<in>set (cert_premises E (claim_cert (attached_claim att))). (premise_key p, k) \<in> set (actual_edges (run_state run) b))"
  using check_attached_passes [OF reachable_core_inv [OF assms(1)] assms(2,3)] by blast

theorem attached_invariants_witness:
  "\<exists>att. (4, att) \<in> set (attached_keys demo_state 1) \<and> check_attached_premises test_env demo_state 1 att"
proof -
  have l: "is_live demo_state 1" by code_simp
  have "\<exists>x\<in>set (attached_keys demo_state 1). fst x = 4" by code_simp
  then obtain att where a: "(4, att) \<in> set (attached_keys demo_state 1)" by auto
  from attached_invariants [OF demo_run_reachable l a] a show ?thesis by blast
qed




section \<open>Operations\<close>

text \<open>C6. Writing a certificate for a key that is not asserted returns and changes no answer about other keys at any version.
  At the head of each live branch an answer the key already had stays, and where it had none and the certificate's
  premises are valid, its revision becomes valid.\<close>

theorem write_effect:
  assumes "core_inv E st" "\<not> is_asserted st (cert_key cert)"
  shows "\<exists>st' out. write_cert E st cert = Some (st', out) \<and> core_inv E st' \<and> is_live st' = is_live st
    \<and> (\<forall>v k. version_in st v \<longrightarrow> k \<noteq> cert_key cert \<longrightarrow> valid_at E st' k v = valid_at E st k v)
    \<and> (\<forall>b. is_live st b \<longrightarrow> valid_at E st (cert_key cert) (newest st b) \<noteq> None \<longrightarrow>
         valid_at E st' (cert_key cert) (newest st b) = valid_at E st (cert_key cert) (newest st b))
    \<and> (\<forall>b. is_live st b \<longrightarrow> valid_at E st (cert_key cert) (newest st b) = None \<longrightarrow> re_established E st cert (newest st b) \<longrightarrow>
         valid_at E st' (cert_key cert) (newest st b) = Some (cert_revision cert))"
  by (rule write_answers [OF assms])

definition demo_cert :: "premise list cert" where
  "demo_cert = test_cert 6 7 [(1, 3)] 1"

theorem write_effect_witness:
  "\<exists>st' out. write_cert test_env demo_state demo_cert = Some (st', out)
    \<and> valid_at test_env st' (cert_key demo_cert) (newest demo_state 0) = Some (cert_revision demo_cert)"
proof -
  have a: "\<not> is_asserted demo_state (cert_key demo_cert)" by code_simp
  have b: "is_live demo_state 0" "valid_at test_env demo_state (cert_key demo_cert) (newest demo_state 0) = None"
    "re_established test_env demo_state demo_cert (newest demo_state 0)" by code_simp+
  from write_effect [OF demo_inv a] b show ?thesis by blast
qed

text \<open>C7. A commit keeps every answer at every existing version. Either it changes nothing and returns the old head, or
  the branch gets one new version, where every asserted revision is valid, every dirtied key is unknown, and any
  other key answers as at the old head or, if computed, has become unknown.\<close>

theorem commit_effect:
  assumes "commit E st nxt b cs = Some (st', nxt', v)" "core_inv E st"
  shows "core_inv E st' \<and> is_live st b \<and> (v = newest st b \<and> st' = st \<and> (\<nexists>k d. Dirty k d \<in> set cs)
    \<or> v = Version b (Suc (hseq st b)) \<and> v = newest st' b
      \<and> (\<forall>u k. version_in st u \<longrightarrow> version_in st' u \<and> valid_at E st' k u = valid_at E st k u)
      \<and> (\<forall>k r d. Assert k r d \<in> set cs \<longrightarrow> valid_at E st' k v = Some r)
      \<and> (\<forall>k. (\<nexists>r d. Assert k r d \<in> set cs) \<longrightarrow>
           valid_at E st' k v = valid_at E st k (newest st b) \<or> \<not> is_asserted st k \<and> valid_at E st' k v = None)
      \<and> (\<forall>k d. Dirty k d \<in> set cs \<longrightarrow> valid_at E st' k v = None))"
  by (rule commit_answers [OF assms])

theorem commit_effect_witness:
  "\<exists>st' nxt' v. commit test_env demo_state 2 0 [Assert 0 9 1] = Some (st', nxt', v) \<and> valid_at test_env st' 0 v = Some 9"
proof -
  have ne: "commit test_env demo_state 2 0 [Assert 0 9 1] \<noteq> None"
    and ch: "map_option (\<lambda>(_, _, v). v) (commit test_env demo_state 2 0 [Assert 0 9 1]) \<noteq> Some (newest demo_state 0)" by code_simp+
  from ne obtain st' nxt' v where c: "commit test_env demo_state 2 0 [Assert 0 9 1] = Some (st', nxt', v)" by auto
  with ch have "v \<noteq> newest demo_state 0" by simp
  with commit_effect [OF c demo_inv] have "valid_at test_env st' 0 v = Some 9" by auto
  with c show ?thesis by blast
qed

text \<open>C8. A commit does not panic: on a live branch, with changes to distinct keys that assert only keys no
  certificate was written for and dirty only keys that are not asserted, and with room in the sequence and token counters, it returns.\<close>

theorem commit_returns:
  assumes "core_inv E st" "is_live st b" "hseq st b < u32_max" "valid_changes st cs" "0 < nxt" "nxt + length cs \<le> u64_max"
  shows "\<exists>st' nxt' v. commit E st nxt b cs = Some (st', nxt', v)"
  by (rule commit_total [OF assms])

theorem commit_returns_witness:
  "\<exists>st' nxt' v. commit test_env demo_state 2 1 [Dirty 4 7, Assert 0 2 8] = Some (st', nxt', v)"
proof -
  have h: "is_live demo_state 1" "hseq demo_state 1 < u32_max" "valid_changes demo_state [Dirty 4 7, Assert 0 2 8]"
    "(0::nat) < 2" "2 + length [Dirty 4 7, Assert 0 2 (8::stamp)] \<le> u64_max" by code_simp+
  show ?thesis by (rule commit_returns [OF demo_inv h])
qed

text \<open>C9. Forking at a version of a live branch returns the next branch index; every existing version keeps its answers; at the
  fork's head assertions answer as at the version forked at, and so does every key still valid at the parent's head,
  while any other key answers the same or is unknown.\<close>

theorem fork_effect:
  assumes "core_inv E st" "version_in st v" "length (branches st) \<le> u32_max"
  shows "\<exists>st' c. fork E st v = Some (c, st') \<and> core_inv E st' \<and> c = length (branches st) \<and> version_in st' (newest st' c)
    \<and> (\<forall>u k. version_in st u \<longrightarrow> version_in st' u \<and> valid_at E st' k u = valid_at E st k u)
    \<and> (\<forall>k. is_asserted st k \<longrightarrow> valid_at E st' k (newest st' c) = valid_at E st k v)
    \<and> (\<forall>k. valid_at E st' k (newest st' c) \<in> {None, valid_at E st k v})
    \<and> (\<forall>k. valid_at E st k (newest st (vbranch v)) \<noteq> None \<longrightarrow> valid_at E st' k (newest st' c) = valid_at E st k v)"
  by (rule fork_answers [OF assms])

theorem fork_effect_witness: "\<exists>st'. fork test_env demo_state (Version 0 2) = Some (2, st') \<and> core_inv test_env st'"
proof -
  have h: "version_in demo_state (Version 0 2)" "length (branches demo_state) \<le> u32_max" "length (branches demo_state) = 2" by code_simp+
  from fork_effect [OF demo_inv h(1,2)] h(3) show ?thesis by auto
qed

text \<open>C10. Deleting a live branch returns, and no surviving branch notices: at each of its versions every key keeps its
  valid revision and its untracked-input token.\<close>

theorem delete_effect:
  assumes "core_inv E st" "is_live st b"
  shows "\<exists>ks st'. delete_branch st b = Some (ks, st') \<and> core_inv E st' \<and> \<not> is_live st' b
    \<and> (\<forall>u. vbranch u \<noteq> b \<longrightarrow> version_in st' u = version_in st u)
    \<and> (\<forall>u k. version_in st u \<longrightarrow> vbranch u \<noteq> b \<longrightarrow>
         valid_at E st' k u = valid_at E st k u \<and> epsilon st' k u = epsilon st k u)"
  by (rule delete_answers [OF assms])

theorem delete_effect_witness:
  "\<exists>ks st'. delete_branch demo_state 0 = Some (ks, st') \<and> valid_at test_env st' 5 (Version 1 1) = Some 2"
proof -
  have h: "is_live demo_state 0" "version_in demo_state (Version 1 1)" "vbranch (Version 1 1) \<noteq> 0"
    "valid_at test_env demo_state 5 (Version 1 1) = Some 2" by code_simp+
  from delete_effect [OF demo_inv h(1)] h(2-4) show ?thesis by metis
qed


section \<open>Algorithms\<close>

text \<open>C11. The worklist \<^verbatim>\<open>fork\<close> settles the undecided claims with returns, and keeps exactly the least set of claims that
  hold at the fork point and whose undecided premises are in the set: claims that only support each other are not kept.\<close>

theorem fork_support_is_least:
  assumes "wf_tree st" "is_live st b" "distinct (map fst und)"
  shows "\<exists>p ws r S. scan_undecided E st (Version b s) und und [] [] [] = Some (p, ws, r)
    \<and> support_loop ws p r [] = Some S \<and> (\<forall>k. k \<in> set S \<longleftrightarrow> well_supported E st b s und k)"
  by (rule support_computed [OF assms])

theorem fork_support_is_least_witness:
  "\<exists>p ws r S. scan_undecided test_env demo_state (Version 0 2) [(9, \<lparr>claim_cert = test_cert 9 1 [(0, 1)] 1, claim_window = window_open 2, claim_attribute = None\<rparr>)]
      [(9, \<lparr>claim_cert = test_cert 9 1 [(0, 1)] 1, claim_window = window_open 2, claim_attribute = None\<rparr>)] [] [] [] = Some (p, ws, r)
    \<and> support_loop ws p r [] = Some S"
  using fork_support_is_least [OF demo_wf(1,4), of "[(9, \<lparr>claim_cert = test_cert 9 1 [(0, 1)] 1, claim_window = window_open 2, claim_attribute = None\<rparr>)]" test_env 2]
  by auto

text \<open>C12. The oracle decides the judgment: on a history that records every version up to the root, its saturation loop returns
  and answers whether the revision is derivable by assertion and certificate steps.\<close>

theorem oracle_decides_judgment:
  assumes "\<And>a. asserted M a v \<noteq> None"
  shows "\<exists>j. is_justified M k r v = Some j \<and> (j \<longleftrightarrow> justified M v (AKey k) r)"
  by (rule is_justified_iff [OF assms])

theorem oracle_decides_judgment_witness:
  "\<exists>j. is_justified (run_model demo_run) 5 2 (Version 1 1) = Some j \<and> (j \<longleftrightarrow> justified (run_model demo_run) (Version 1 1) (AKey 5) 2)"
proof -
  have v: "is_live demo_state 1" "fseq demo_state 1 \<le> 1" "1 \<le> hseq demo_state 1" by code_simp+
  have "asserted (run_model demo_run) a (Version 1 1) \<noteq> None" for a
    using run_invD(6,7) [OF reachable_inv [OF demo_run_reachable] v] by (cases a) simp_all
  from oracle_decides_judgment [OF this] show ?thesis .
qed

text \<open>C13. The pieces \<^verbatim>\<open>cover\<close> computes for a certificate are ordered and disjoint, within the branch, and contain exactly
  the versions of the branch at which the certificate's untracked input and all its premises are valid.\<close>

theorem cover_is_validity:
  assumes "wf_tree st" "wf_claims st" "wf_hists st" "is_live st b"
  shows "\<exists>ps. cover E st b cert = Some ps \<and> pieces_ok (fseq st b) ps \<and> bounded (hseq st b) ps
    \<and> pset ps = {s. fseq st b \<le> s \<and> holds E st cert b s}"
  by (rule cover_correct [OF assms])

theorem cover_is_validity_witness:
  "\<exists>ps. cover test_env demo_state 0 (test_cert 7 1 [(4, 1)] 1) = Some ps \<and> 2 \<in> pset ps"
proof -
  have h: "fseq demo_state 0 \<le> 2" "holds test_env demo_state (test_cert 7 1 [(4, 1)] 1) 0 2" by code_simp+
  from cover_is_validity [OF demo_wf, of test_env "test_cert 7 1 [(4, 1)] 1"] h show ?thesis by blast
qed

text \<open>C14. The window picked from an ordered cover lies inside it, within the branch, is never empty, and is open exactly if the
  cover reaches the head; an empty cover gives no window. The debug assertions of \<^verbatim>\<open>pick_window\<close> hold.\<close>

theorem picked_window_in_cover:
  assumes "is_live st b" "pieces_ok (fseq st b) cov" "bounded (hseq st b) cov"
  shows "\<exists>r. pick_window st b cov = Some r \<and> (r = None \<longleftrightarrow> cov = [])
    \<and> (\<forall>w a. r = Some (w, a) \<longrightarrow> window_ok st b w \<and> (\<forall>s. covers w s \<longrightarrow> s \<in> pset cov)
          \<and> (is_open w \<longleftrightarrow> hseq st b \<in> pset cov) \<and> (covers w (hseq st b) \<longleftrightarrow> is_open w) \<and> \<not> window_is_empty w)"
  by (rule pick_window_correct [OF assms])

theorem picked_window_in_cover_witness:
  "\<exists>r. pick_window demo_state 0 [mk_piece 1 (Some 2) (None :: stamp option)] = Some r \<and> r \<noteq> None"
proof -
  have h: "is_live demo_state 0" "pieces_ok (fseq demo_state 0) [mk_piece 1 (Some 2) (None :: stamp option)]"
    "2 \<le> hseq demo_state 0" by code_simp+
  have "bounded (hseq demo_state 0) [mk_piece 1 (Some 2) (None :: stamp option)]" using h(3) by (simp add: bounded_def mk_piece_def)
  from picked_window_in_cover [OF h(1,2) this] show ?thesis by auto
qed

text \<open>C15. Resolution refines delegation. The loops of \<^verbatim>\<open>resolve\<close> and \<^verbatim>\<open>resolve_untracked\<close> end on any fork tree, and find what the
  nearest ancestor says: the assertion history, the claim whose window covers the version, or the untracked input.\<close>

theorem resolve_refines_delegation:
  assumes "wf_tree st" "is_live st b"
  shows "\<exists>r. resolve st k (Version b s) = Some r \<and> resolved_revision r = rev_at st k b s
    \<and> resolve_untracked st k (Version b s) = Some (vdirt st k b s)"
  using resolve_revision [OF assms] resolve_untracked_chain [OF assms] by blast

theorem resolve_refines_delegation_witness:
  "\<exists>r. resolve demo_state 4 (Version 0 2) = Some r \<and> resolved_revision r = Some 1"
proof -
  have "rev_at demo_state 4 0 2 = Some 1" by code_simp
  with resolve_refines_delegation [OF demo_wf(1,4), of 4 2] show ?thesis by metis
qed

text \<open>The merge of two ordered piece lists contains exactly the common versions.\<close>

theorem intersect_is_intersection:
  assumes "pieces_ok la a" "pieces_ok lb b"
  shows "pset (intersect E a b) = pset a \<inter> pset b"
  by (rule pset_intersect [OF assms])

text \<open>Removing edges in place, a compaction with a read and a write index, filters the dependents of one key and keeps the
  other keys' edges.\<close>

theorem remove_edges_filters:
  "rdeps_of (remove_edges br dep ds) x =
     (if x = dep then filter (\<lambda>k. k \<notin> set ds) (rdeps_of br x) else rdeps_of br x)"
  by (rule rdeps_of_remove_edges)

text \<open>The hash of the key maps never collides: distinct keys have distinct hashes.\<close>

theorem key_hash_injective: "inj hash_key"
  by (rule injI) (rule hash_key_injective)

text \<open>Distinct versions print differently.\<close>

theorem version_display_injective: "inj version_fmt"
  by (rule injI) (rule version_fmt_injective)


section \<open>A failing invariant\<close>

text \<open>
  A child forked below two claims. The parent re-derives the first from another input, which moves the
  old claim to the child; then it re-derives the second by the same certificate, whose attribute now is another one.
  \<^verbatim>\<open>cascades\<close> leaves the child alone because the traces are the same, so the child inherits the new attribute.
\<close>

definition attribute_ops :: "op list" where
  "attribute_ops = [OpCommit 0 [GenAssert 0 1], OpCommit 0 [GenAssert 1 1], OpWrite 0 1 [(0, 1)] 0, OpWrite 1 1 [(4, 1)] 0,
     OpFork 0 2, OpCommit 0 [GenAssert 0 2], OpWrite 0 1 [(1, 1)] 0, OpWrite 1 1 [(4, 1)] 0]"

definition attribute_run :: "nat \<Rightarrow> test_run" where
  "attribute_run n = fst (the (run_ops 2 10 (take n attribute_ops)))"

text \<open>C16. The attribute check of \<^verbatim>\<open>check_attachment\<close> is not an invariant: it holds before the last write of this
  generated run and fails after it, when the child's key 5 carries the attribute 11 although its only premise,
  key 4, carries 10 there.\<close>

theorem attribute_not_invariant:
  "check_invariants test_env (run_state (attribute_run 7)) \<and> \<not> check_invariants test_env (run_state (attribute_run 8))
   \<and> map (\<lambda>k. lookup test_env (run_state (attribute_run 8)) k (Version 1 1)) [4, 5]
       = [Some (Valid 1 (Some 10)), Some (Valid 1 (Some 11))]
   \<and> (\<exists>stamps. run_ops 2 10 attribute_ops = Some (attribute_run 8, stamps))"
proof (intro conjI)
  show "check_invariants test_env (run_state (attribute_run 7))" by code_simp
  show "\<not> check_invariants test_env (run_state (attribute_run 8))" by code_simp
  show "map (\<lambda>k. lookup test_env (run_state (attribute_run 8)) k (Version 1 1)) [4, 5]
       = [Some (Valid 1 (Some 10)), Some (Valid 1 (Some 11))]" by code_simp
  have "run_ops 2 10 attribute_ops \<noteq> None" by code_simp
  moreover have "take 8 attribute_ops = attribute_ops" by code_simp
  ultimately show "\<exists>stamps. run_ops 2 10 attribute_ops = Some (attribute_run 8, stamps)"
    by (auto simp: attribute_run_def)
qed


section \<open>Recorded dependencies\<close>

text \<open>A computation that reads a key, three branches of which one is dropped, a task of its own and a last key.\<close>

definition sample_read :: "key \<Rightarrow> revision \<Rightarrow> ctx_step" where
  "sample_read k r = Read \<lparr>edge_key = k, edge_revision = Some r\<rparr> ValidValue sources_NONE"

definition sample_ctx :: "ctx_step list" where
  "sample_ctx = [sample_read 1 10,
     Branches [(True, [sample_read 2 20, sample_read 3 30]), (False, [sample_read 4 40]), (True, [sample_read 5 50])],
     Spawned [sample_read 6 60], sample_read 7 70]"

lemma sample_ctx_weight: "ctx_weight sample_ctx < spec_limit"
  by (simp add: sample_ctx_def sample_read_def spec_limit_def)

text \<open>C17. Whatever a computation does with its context, the dependencies recorded for it, one array of keys and one of words, decode to the
  tree of its reads: in series and in parallel as they were made, without those of branches that were not driven to completion. They are
  valid exactly if every read was, and the sources are those of all reads merged into the ones the computation started with.\<close>

theorem recorded_graph_reads_back:
  assumes "ctx_weight steps < spec_limit"
  shows "\<exists>d. record_ctx s steps = Some d \<and> deps_items (rd_deps d) = Some (ctx_tree steps)
    \<and> deps_edges (rd_deps d) = map fst (ctx_reads steps)
    \<and> (rd_validity d = ValidValue \<longleftrightarrow> list_all (\<lambda>v. v = ValidValue) (map snd (ctx_reads steps)))
    \<and> rd_sources d = merge_all s (ctx_sources steps)"
  using record_ctx_eq [OF assms, of s] deps_items_deps_of [OF ctx_tree_fits [OF assms]]
  by (simp add: ctx_tree_reads validity_all_valid)

theorem recorded_graph_reads_back_witness:
  "\<exists>d. record_ctx sources_NONE sample_ctx = Some d \<and> map edge_key (deps_edges (rd_deps d)) = [1, 2, 3, 5, 6, 7]"
proof -
  have "map (edge_key \<circ> fst) (ctx_reads sample_ctx) = [1, 2, 3, 5, 6, 7]" by code_simp
  with recorded_graph_reads_back [OF sample_ctx_weight, of sources_NONE] show ?thesis by auto
qed

text \<open>C18. Comparing the encodings decides what it is meant to: two certificates have equal dependencies exactly if the trees of their reads
  with the revisions are equal, and the comparison that ignores revisions is equality of the trees of keys.\<close>

theorem recorded_graphs_equal:
  assumes "ctx_weight steps < spec_limit" "ctx_weight steps' < spec_limit"
    and "record_ctx s steps = Some d" "record_ctx s' steps' = Some d'"
    and "deps_certify (rd_deps d) = Some c" "deps_certify (rd_deps d') = Some c'"
  shows "(deps_eq c c' \<longleftrightarrow> cert_tree steps = cert_tree steps')
    \<and> (equal_ignoring_revisions c c' \<longleftrightarrow> map (map_sp edge_key) (ctx_tree steps) = map (map_sp edge_key) (ctx_tree steps'))"
proof -
  note c = recorded_certificate [OF assms(1,3,5)] and c' = recorded_certificate [OF assms(2,4,6)]
  have keys: "map (map_sp edge_key) (cert_tree xs) = map (map_sp edge_key) (ctx_tree xs)" for xs
    by (simp add: sp.map_comp comp_def certified_def)
  show ?thesis
    unfolding c(1) c'(1) deps_eq_iff equal_ignoring_deps_of [OF c(2) c'(2)] graph_codes.encode_inject [OF c(2) c'(2)] keys by simp
qed

definition sample_deps :: "ctx_step list \<Rightarrow> revision deps" where
  "sample_deps steps = the (record_ctx sources_NONE steps \<bind> (\<lambda>d. deps_certify (rd_deps d)))"

lemma sample_recorded:
  assumes "ctx_weight steps < spec_limit" "list_all (\<lambda>(e, _). edge_revision e \<noteq> None) (ctx_reads steps)"
  obtains d where "record_ctx sources_NONE steps = Some d" "deps_certify (rd_deps d) = Some (sample_deps steps)"
  using recorded_certifies [OF assms, of sources_NONE] by (auto simp: sample_deps_def)

theorem recorded_graphs_equal_witness:
  "\<not> equal_ignoring_revisions (sample_deps sample_ctx) (sample_deps [sample_read 1 10, sample_read 2 20])
    \<and> equal_ignoring_revisions (sample_deps [sample_read 1 10, sample_read 2 20]) (sample_deps [sample_read 1 10, sample_read 2 21])
    \<and> \<not> deps_eq (sample_deps [sample_read 1 10, sample_read 2 20]) (sample_deps [sample_read 1 10, sample_read 2 21])"
proof -
  let ?b = "[sample_read 1 10, sample_read 2 20]" and ?c = "[sample_read 1 10, sample_read 2 21]"
  have w: "ctx_weight ?b < spec_limit" "ctx_weight ?c < spec_limit" by (simp_all add: sample_read_def spec_limit_def)
  have "list_all (\<lambda>(e, _). edge_revision e \<noteq> None) (ctx_reads sample_ctx)"
    "list_all (\<lambda>(e, _). edge_revision e \<noteq> None) (ctx_reads ?b)" "list_all (\<lambda>(e, _). edge_revision e \<noteq> None) (ctx_reads ?c)"
    by code_simp+
  then obtain d e f where d: "record_ctx sources_NONE sample_ctx = Some d" "deps_certify (rd_deps d) = Some (sample_deps sample_ctx)"
    and e: "record_ctx sources_NONE ?b = Some e" "deps_certify (rd_deps e) = Some (sample_deps ?b)"
    and f: "record_ctx sources_NONE ?c = Some f" "deps_certify (rd_deps f) = Some (sample_deps ?c)"
    using sample_recorded sample_ctx_weight w by metis
  have "map (map_sp edge_key) (ctx_tree sample_ctx) \<noteq> map (map_sp edge_key) (ctx_tree ?b)"
    "map (map_sp edge_key) (ctx_tree ?b) = map (map_sp edge_key) (ctx_tree ?c)" "cert_tree ?b \<noteq> cert_tree ?c" by code_simp+
  with recorded_graphs_equal [OF sample_ctx_weight w(1) d(1) e(1) d(2) e(2)]
    recorded_graphs_equal [OF w(1) w(2) e(1) f(1) e(2) f(2)] show ?thesis by blast
qed

text \<open>C19. The dependency check of a certificate finds a change exactly if one of the recorded reads has changed, in whatever order the
  parallel answers come; without one it ends with the sources of all dependencies merged.\<close>

theorem check_verdict:
  assumes "ctx_weight steps < spec_limit" "record_ctx s steps = Some d" "deps_certify (rd_deps d) = Some c"
    and "check_dependencies c = Some (Check start)" "(check_step (check_dependency ev))\<^sup>*\<^sup>* start result" "check_done result"
  shows "let checks = map (check_dependency ev \<circ> certified \<circ> fst) (ctx_reads steps) in
    if DepChanged \<in> set checks then \<exists>continuables. result = Changed continuables
    else result = NoChange (merge_all sources_NONE (map (source_of (check_dependency ev) \<circ> certified \<circ> fst) (ctx_reads steps)))"
proof -
  have start: "start = series_start sources_NONE (cert_tree steps)" using recorded_check [OF assms(1-3)] assms(4) by (auto split: if_splits)
  have "list_all (dep_holds (check_dependency ev)) (series_keys (cert_tree steps)) \<longleftrightarrow>
      DepChanged \<notin> set (map (check_dependency ev \<circ> certified \<circ> fst) (ctx_reads steps))"
    by (force simp: recorded_certificate(3) [OF assms(1-3)] list_all_iff dep_holds_def)
  with check_run_done [OF assms(5) [unfolded start] assms(6)] show ?thesis
    by (simp add: recorded_certificate(3) [OF assms(1-3)] comp_assoc)
qed

definition sample_evaluator :: evaluator where
  "sample_evaluator =
     \<lparr>projection_base = \<lambda>_. None,
      bring_up_to_date = \<lambda>k. Some \<lparr>cv_revision = Some (k * 10), cv_sources = sources_source NormalPriority (Version 0 k), cv_resident = True\<rparr>,
      projection_validation = \<lambda>_. None, page_in = \<lambda>_. None\<rparr>"

lemma sample_check:
  obtains d start where "record_ctx sources_NONE sample_ctx = Some d" "deps_certify (rd_deps d) = Some (sample_deps sample_ctx)"
    "check_dependencies (sample_deps sample_ctx) = Some (Check start)"
proof -
  have "list_all (\<lambda>(e, _). edge_revision e \<noteq> None) (ctx_reads sample_ctx)" and ne: "ctx_reads sample_ctx \<noteq> []" by code_simp+
  with sample_recorded [OF sample_ctx_weight] obtain d where
    d: "record_ctx sources_NONE sample_ctx = Some d" "deps_certify (rd_deps d) = Some (sample_deps sample_ctx)" by blast
  with ne recorded_check [OF sample_ctx_weight d] recorded_empty [OF sample_ctx_weight d] that show ?thesis by simp
qed

theorem check_verdict_witness:
  "\<exists>start. check_dependencies (sample_deps sample_ctx) = Some (Check start)
    \<and> (check_step (check_dependency sample_evaluator))\<^sup>*\<^sup>* start (NoChange (sources_source NormalPriority (Version 0 7)))"
proof -
  obtain d start where d: "record_ctx sources_NONE sample_ctx = Some d" "deps_certify (rd_deps d) = Some (sample_deps sample_ctx)"
    and start: "check_dependencies (sample_deps sample_ctx) = Some (Check start)" by (rule sample_check)
  obtain result where run: "(check_step (check_dependency sample_evaluator))\<^sup>*\<^sup>* start result" "check_done result"
    using check_completes by blast
  have "DepChanged \<notin> set (map (check_dependency sample_evaluator \<circ> certified \<circ> fst) (ctx_reads sample_ctx))"
    "merge_all sources_NONE (map (source_of (check_dependency sample_evaluator) \<circ> certified \<circ> fst) (ctx_reads sample_ctx)) =
       sources_source NormalPriority (Version 0 7)" by code_simp+
  with check_verdict [OF sample_ctx_weight d start run] have "result = NoChange (sources_source NormalPriority (Version 0 7))"
    by (simp add: Let_def)
  with start run(1) show ?thesis by blast
qed

text \<open>C20. The check is no more eager than the computation: at every moment, also while what is left of it is drained after a change, it
  awaits only dependencies whose predecessors, in their own series and in the series around it, hold.\<close>

theorem check_asks_in_order:
  assumes "ctx_weight steps < spec_limit" "record_ctx s steps = Some d" "deps_certify (rd_deps d) = Some c"
    and "check_dependencies c = Some (Check start)" "(check_moves (check_dependency ev))\<^sup>*\<^sup>* start c'"
  shows "awaited_deps c' \<subseteq> may_ask (check_dependency ev) (cert_tree steps)"
  using check_run_awaited assms(5) recorded_check [OF assms(1-3)] assms(4) by (auto split: if_splits)

theorem check_asks_in_order_witness:
  "\<exists>start. check_dependencies (sample_deps sample_ctx) = Some (Check start)
    \<and> awaited_deps start \<subseteq> may_ask (check_dependency sample_evaluator) (cert_tree sample_ctx)"
proof -
  obtain d start where d: "record_ctx sources_NONE sample_ctx = Some d" "deps_certify (rd_deps d) = Some (sample_deps sample_ctx)"
    and start: "check_dependencies (sample_deps sample_ctx) = Some (Check start)" by (rule sample_check)
  from check_asks_in_order [OF sample_ctx_weight d start, of sample_evaluator start] start show ?thesis by simp
qed

text \<open>C21. The check does not panic and ends. If nothing was read there is nothing to check. If something was read there is a check: it
  can be run to its end, no run of it takes more steps than the tree of reads has nodes, and a check that is not done takes another step.\<close>

theorem check_ends:
  assumes "ctx_weight steps < spec_limit" "record_ctx s steps = Some d" "deps_certify (rd_deps d) = Some c"
  shows "if ctx_reads steps = [] then check_dependencies c = Some NothingToCheck
    else \<exists>start. check_dependencies c = Some (Check start)
        \<and> (\<exists>result. (check_step answer)\<^sup>*\<^sup>* start result \<and> check_done result)
        \<and> (\<forall>n c'. (check_step answer ^^ n) start c' \<longrightarrow> n \<le> series_steps (cert_tree steps)
             \<and> (\<not> check_done c' \<longrightarrow> (\<exists>c''. check_step answer c' c'')))"
proof (cases "ctx_reads steps = []")
  case True
  then show ?thesis using recorded_check [OF assms] recorded_empty [OF assms] by simp
next
  case False
  then have "check_dependencies c = Some (Check (series_start sources_NONE (cert_tree steps)))"
    using recorded_check [OF assms] recorded_empty [OF assms] by simp
  moreover have "n \<le> series_steps (cert_tree steps)" if "(check_step answer ^^ n) (series_start sources_NONE (cert_tree steps)) c'" for n c'
    using check_run_bound [OF that] by (simp add: left_start)
  ultimately show ?thesis using False check_completes check_progress by auto
qed

theorem check_ends_witness:
  "\<exists>start result. check_dependencies (sample_deps sample_ctx) = Some (Check start)
    \<and> (check_step (check_dependency sample_evaluator))\<^sup>*\<^sup>* start result \<and> check_done result"
proof -
  obtain d start where d: "record_ctx sources_NONE sample_ctx = Some d" "deps_certify (rd_deps d) = Some (sample_deps sample_ctx)"
    and start: "check_dependencies (sample_deps sample_ctx) = Some (Check start)" by (rule sample_check)
  have "ctx_reads sample_ctx \<noteq> []" by code_simp
  with check_ends [OF sample_ctx_weight d, of "check_dependency sample_evaluator"] start show ?thesis by auto
qed


section \<open>Values and requests\<close>

text \<open>
  Requests to the actor in surroundings in which nothing else happens: a key is injected, a transaction looks up another one and somebody asks to be
  told when it is gone.
\<close>

definition quiet :: surroundings where
  "quiet = \<lparr>cache_alive = \<lambda>_. True, pending_tasks = \<lambda>_. [], waiter_closed = \<lambda>_. False\<rparr>"

definition served :: "nat state_request list \<Rightarrow> (nat state_reply list \<times> nat actor_state \<times> nat knowledge) option" where
  "served rqs = actor_new None 1 0 \<bind> (\<lambda>a. run_requests (=) quiet rqs a kn_none)"

definition actor_after :: "nat state_request list \<Rightarrow> nat actor_state" where
  "actor_after rqs = fst (snd (the (served rqs)))"

definition known_after :: "nat state_request list \<Rightarrow> nat knowledge" where
  "known_after rqs = snd (snd (the (served rqs)))"

lemma served_run: "served rqs \<noteq> None \<Longrightarrow> actor_run (=) (actor_after rqs) (known_after rqs)"
  by (auto simp: served_def actor_after_def known_after_def split: Option.bind_splits intro: run_requests_run actor_run.start)

definition demo_requests :: "nat state_request list" where
  "demo_requests = [FreshRoot, UpdateState 0 [(1, UpdateValue 10 InjectedStorage, NormalPriority)], CtxAtVersion (Version 0 2),
     LookupKey 2 (Version 0 2), IdleStatus None]"

lemma demo_served: "actor_run (=) (actor_after demo_requests) (known_after demo_requests)"
proof (rule served_run)
  show "served demo_requests \<noteq> None" by code_simp
qed

text \<open>C22. In every run of the actor, whatever the requests and their order, a lookup at a version a transaction was told returns. On a live
  branch it answers with the value behind the revision the core finds valid, or that it does not know, with the current
  untracked input and a candidate the core still holds, with its value; on a deleted branch it knows nothing.\<close>

theorem lookups_answer:
  assumes "actor_run eq a kn" "v \<in> set (kn_versions kn)"
  shows "\<exists>res. iteration eq w a (LookupKey k v) = Some (LookupReply res, a)
    \<and> (if is_live (vg_core (ac_graph a)) (vbranch v) then get_answers (ac_graph a) k v res
       else res = NoMatch None epsilon_INITIAL sources_NONE)"
proof (cases "is_live (vg_core (ac_graph a)) (vbranch v)")
  case True
  with get_live [OF run_ok(1) [OF assms(1)] True, of k] show ?thesis by auto
qed (simp add: vg_get_def)

theorem lookups_answer_witness:
  "\<exists>res. iteration (=) quiet (actor_after demo_requests) (LookupKey 1 (Version 0 2)) = Some (LookupReply res, actor_after demo_requests)
    \<and> get_answers (ac_graph (actor_after demo_requests)) 1 (Version 0 2) res"
proof -
  have "Version 0 2 \<in> set (kn_versions (known_after demo_requests))"
    "is_live (vg_core (ac_graph (actor_after demo_requests))) (vbranch (Version 0 2))" by code_simp+
  with lookups_answer [OF demo_served, of "Version 0 2" quiet 1] show ?thesis by simp
qed

text \<open>C23. A computed value is kept. Take a write with the token of a lookup, at the head of a live branch, of a key that is not asserted and is
  unknown there, from dependencies that are valid there, whose sources include those of the key's own dirty, while the counters
  have room. It returns and hands back a resident value: the one that was computed, or one the key had that is equal to it or comes from a
  certificate with the same dependencies and token. The next lookup finds that value, with the revision that was handed back.\<close>

theorem computed_is_found:
  assumes run: "actor_run eq a kn" "(k, v, eps) \<in> set (kn_tickets kn)"
    and head: "is_live (vg_core (ac_graph a)) b" "v = newest (vg_core (ac_graph a)) b"
    and key: "\<not> is_asserted (vg_core (ac_graph a)) k" "valid_at dice_env (vg_core (ac_graph a)) k v = None" "graph_room (ac_graph a) k"
    and src: "untracked dice_env (vg_core (ac_graph a)) k v = Some (e, own)" "sources_merge srcs own = srcs"
    and prem: "list_all (\<lambda>p. valid_at dice_env (vg_core (ac_graph a)) (premise_key p) v = Some (premise_revision p)) (deps_premises deps)"
  shows "\<exists>x a' y z. iteration eq w a (UpdateComputed k v NormalStorage x0 deps eps srcs) = Some (ComputedReply x, a')
    \<and> iteration eq w' a' (LookupKey k v) = Some (LookupReply (Match y), a') \<and> cp_revision y = cp_revision x \<and> cp_value y = cp_value x
    \<and> cp_value x = Resident z \<and> handed_back eq (ac_graph a) k x0 deps eps z"
proof -
  note g = run_ok(1) [OF run(1)]
  have "ticket_ok (vg_core (ac_graph a)) (k, v, eps)" using run_ok(2) [OF run(1)] run(2) by (simp add: knows_def list_all_iff)
  then have "e = eps" using untracked_epsilon [OF src(1)] head by (auto simp: ticket_ok_def newest_def)
  from computed_found [OF g head key(1) src(1) [unfolded this] src(2) key(3,2) prem, of eq x0] show ?thesis
    by (auto simp: on_graph_def update_value_def)
qed

text \<open>C24. In every run the tallies of the paging index are those of a full scan, as the status request asserts; and the values offered to the next
  page-out are exactly the resident candidates of computed keys.\<close>

theorem paging_status_exact:
  assumes "actor_run eq a kn"
  shows "(\<exists>s. iteration eq w a PagableStatus = Some (StatusReply s, a))
    \<and> (\<exists>ks. iteration eq w a KeysToPageOut = Some (CandidatesReply ks, a) \<and> (\<forall>k x. (k, x) \<in> set ks \<longleftrightarrow> offered (ac_graph a) k x))"
  using status_total [OF run_ok(1) [OF assms]] keys_to_page_out_iff [OF run_ok(1) [OF assms]] by auto

text \<open>C25. In every run a transaction can be dropped by who holds it, and the last one of a version tells everybody who waits for a scope around it; the
  idle status counts the transactions in the scope, with a signal exactly if there are any; and nobody waits in a scope without a transaction.\<close>

theorem waiters_are_told:
  assumes "actor_run eq a kn" "length (kn_held kn) \<le> u64_max"
  shows "(v \<in> set (kn_held kn) \<longrightarrow> (\<exists>ws a'. iteration eq w a (DropCtxAtVersion v) = Some (ToldReply ws, a')
        \<and> (v \<notin> set (remove1 v (kn_held kn)) \<longrightarrow>
             (\<forall>scope x. (scope, x) \<in> set (vt_released (ac_tracker a)) \<longrightarrow> in_scope scope v \<longrightarrow> x \<in> set ws))))
    \<and> (\<exists>s a'. iteration eq w a (IdleStatus branch) = Some (IdleReply s, a')
        \<and> active_transactions s = length (filter (in_scope branch) (kn_held kn))
        \<and> (active_transactions s = 0 \<longleftrightarrow> idle_released s = None))
    \<and> ((scope, x) \<in> set (vt_released (ac_tracker a)) \<longrightarrow> filter (in_scope scope) (kn_held kn) \<noteq> [])"
proof (intro conjI impI)
  note ok = run_tracker_ok [OF assms(1)]
  assume v: "v \<in> set (kn_held kn)"
  from drop_total [OF ok v, of w] obtain ws t' where "drop_at_version w (ac_tracker a) v = Some (ws, t')" by blast
  with drop_tells [OF this ok v] show "\<exists>ws a'. iteration eq w a (DropCtxAtVersion v) = Some (ToldReply ws, a')
        \<and> (v \<notin> set (remove1 v (kn_held kn)) \<longrightarrow>
             (\<forall>scope x. (scope, x) \<in> set (vt_released (ac_tracker a)) \<longrightarrow> in_scope scope v \<longrightarrow> x \<in> set ws))"
    by (auto simp: on_tracker_def)
next
  note ok = run_tracker_ok [OF assms(1)]
  from idle_status_total [OF ok assms(2), of w branch] obtain s t' where "idle_status_of w (ac_tracker a) branch = Some (s, t')" by blast
  with idle_status_ok(2,3) [OF this ok] show "\<exists>s a'. iteration eq w a (IdleStatus branch) = Some (IdleReply s, a')
        \<and> active_transactions s = length (filter (in_scope branch) (kn_held kn))
        \<and> (active_transactions s = 0 \<longleftrightarrow> idle_released s = None)"
    by (auto simp: on_tracker_def)
next
  assume "(scope, x) \<in> set (vt_released (ac_tracker a))"
  from tracker_okD(4) [OF run_tracker_ok [OF assms(1)] this] show "filter (in_scope scope) (kn_held kn) \<noteq> []"
    by (auto simp: filter_empty_conv)
qed

theorem waiters_are_told_witness:
  "\<exists>ws a'. iteration (=) quiet (actor_after demo_requests) (DropCtxAtVersion (Version 0 2)) = Some (ToldReply ws, a') \<and> 0 \<in> set ws"
proof -
  have h: "length (kn_held (known_after demo_requests)) \<le> u64_max" "Version 0 2 \<in> set (kn_held (known_after demo_requests))"
    "Version 0 2 \<notin> set (remove1 (Version 0 2) (kn_held (known_after demo_requests)))"
    "(None, 0) \<in> set (vt_released (ac_tracker (actor_after demo_requests)))" "in_scope None (Version 0 2)" by code_simp+
  from waiters_are_told [OF demo_served h(1), of "Version 0 2" quiet] h(2-5) show ?thesis by blast
qed

definition demo_found :: "revision deps" where
  "demo_found = OneDep \<lparr>edge_key = 1, edge_revision = 1\<rparr>"

theorem computed_is_found_witness:
  "\<exists>x a' y. iteration (=) quiet (actor_after demo_requests) (UpdateComputed 2 (Version 0 2) NormalStorage 20 demo_found epsilon_INITIAL sources_NONE)
      = Some (ComputedReply x, a')
    \<and> iteration (=) quiet a' (LookupKey 2 (Version 0 2)) = Some (LookupReply (Match y), a') \<and> cp_value y = Resident 20"
proof -
  let ?st = "vg_core (ac_graph (actor_after demo_requests))"
  have h: "(2, Version 0 2, epsilon_INITIAL) \<in> set (kn_tickets (known_after demo_requests))" "is_live ?st 0" "Version 0 2 = newest ?st 0"
    "\<not> is_asserted ?st 2" "valid_at dice_env ?st 2 (Version 0 2) = None" "untracked dice_env ?st 2 (Version 0 2) = Some (epsilon_INITIAL, sources_NONE)"
    "sources_merge sources_NONE sources_NONE = sources_NONE"
    "list_all (\<lambda>p. valid_at dice_env ?st (premise_key p) (Version 0 2) = Some (premise_revision p)) (deps_premises demo_found)"
    by code_simp+
  have room: "graph_room (ac_graph (actor_after demo_requests)) 2" by code_simp
  have new: "map_of (vg_values (ac_graph (actor_after demo_requests))) 2 = None" by code_simp
  then have "z = 20" if "handed_back (=) (ac_graph (actor_after demo_requests)) 2 20 demo_found epsilon_INITIAL z" for z
    using that by (auto simp: handed_back_def vg_stored_def)
  with computed_is_found [OF demo_served h(1-5) room h(6-8), of quiet 20 quiet] show ?thesis by metis
qed

definition paging_requests :: "nat state_request list" where
  "paging_requests = demo_requests @ [UpdateComputed 2 (Version 0 2) NormalStorage 20 demo_found epsilon_INITIAL sources_NONE]"

theorem paging_status_exact_witness:
  "\<exists>ks. iteration (=) quiet (actor_after paging_requests) KeysToPageOut = Some (CandidatesReply ks, actor_after paging_requests)
    \<and> (2, 20) \<in> set ks"
proof -
  have "served paging_requests \<noteq> None" by code_simp
  note run = served_run [OF this]
  have "map_of (vg_values (ac_graph (actor_after paging_requests))) 2 =
      Some \<lparr>kv_mint = 2, kv_injected = False, kv_entries = [(1, NeverPagedOut 20)]\<rparr>" by code_simp
  then have "offered (ac_graph (actor_after paging_requests)) 2 20" by (auto simp: offered_def)
  with paging_status_exact [OF run, of quiet] show ?thesis by blast
qed

definition stale_requests :: "nat state_request list" where
  "stale_requests = [FreshRoot, UpdateState 0 [(7, Invalidate, NormalPriority)], ForkAt (Version 0 2), CurrentVersion 1,
     LookupKey 7 (Version 1 1), DeleteBranch 0]"

definition stale_update :: "nat state_request" where
  "stale_update =
     (case fst (the (served stale_requests)) ! 4 of
        LookupReply (NoMatch _ eps srcs) \<Rightarrow> UpdateComputed 7 (Version 1 1) NormalStorage 5 NoDeps eps srcs
      | _ \<Rightarrow> FreshRoot)"

text \<open>C26. The assertion that a transaction's sources start from its key's own dirty can fail: if the branch a key was dirtied on is deleted while a
  transaction on a fork of it computes the key, the entry the fork inherits is dated by the fork, and the write of the transaction, which
  merges the sources its lookup answered, panics the actor.\<close>

theorem stale_sources_panic:
  "actor_run (=) (actor_after stale_requests) (known_after stale_requests) \<and> stale_update \<noteq> FreshRoot
    \<and> allowed (known_after stale_requests) stale_update \<and> is_live (vg_core (ac_graph (actor_after stale_requests))) 1
    \<and> iteration (=) quiet (actor_after stale_requests) stale_update = None"
proof -
  have "served stale_requests \<noteq> None" by code_simp
  moreover have "stale_update \<noteq> FreshRoot \<and> allowed (known_after stale_requests) stale_update
    \<and> is_live (vg_core (ac_graph (actor_after stale_requests))) 1
    \<and> iteration (=) quiet (actor_after stale_requests) stale_update = None" by code_simp
  ultimately show ?thesis using served_run by blast
qed


section \<open>Concurrent commands\<close>

text \<open>Three commands: the first admitted at a version, the second beside it at the same one, the third
  blocked at another.\<close>

definition demo_request :: "command_id \<Rightarrow> admission_request" where
  "demo_request c =
     \<lparr>rq_command_id = c,
      rq_command = \<lparr>cd_trace_id = c, cd_display_command = ''buck2 build'', cd_preemption_setting = OnDifferentState, cd_preempt = Some c\<rparr>,
      rq_is_nested = False, rq_exit_when = ExitNever\<rparr>"

definition demo_update :: "attempt_id \<Rightarrow> version \<Rightarrow> completed_update" where
  "demo_update a v = \<lparr>cu_attempt = a, cu_version = v, cu_conflict_on_arrival = None, cu_dice_was_draining = False\<rparr>"

definition demo_messages :: "(message \<times> command_id list) list" where
  "demo_messages = map (\<lambda>m. (m, []))
     [Begin (demo_request 1), AcquireUpdate 1 0, AfterUpdate 1 (demo_update 0 (Version 0 4)),
      Begin (demo_request 2), AcquireUpdate 2 1, AfterUpdate 2 (demo_update 1 (Version 0 4)),
      Begin (demo_request 3), AcquireUpdate 3 2, AfterUpdate 3 (demo_update 2 (Version 0 5))]"

definition demo_admission :: "unit admission_task \<times> version command_map" where
  "demo_admission = the (handle_all () (task_new 0, []) demo_messages)"

lemma demo_admission_run: "admission_run (fst demo_admission) (snd demo_admission)"
proof -
  have "handle_all () (task_new 0, []) demo_messages \<noteq> None" by code_simp
  then obtain t g where tg: "handle_all () (task_new 0, []) demo_messages = Some (t, g)" by auto
  from handle_all_run [OF tg admission_run.start] show ?thesis by (simp add: demo_admission_def tg)
qed

text \<open>C27. Commands run together only on the same state: at every moment the running commands were all admitted with an
  update that ended at the same version, which is the version the coordinator holds as active.\<close>

theorem commands_share_version:
  assumes "admission_run t g" "c \<in> set (acts (task_data t))" "d \<in> set (acts (task_data t))"
  shows "\<exists>v. map_of g c = Some v \<and> map_of g d = Some v \<and> dice_status (task_data t) = Available (Some v)"
proof -
  note V = admission_run_versions [OF assms(1), THEN conjunct2, rule_format]
  obtain v w where v: "map_of g c = Some v" "dice_status (task_data t) = Available (Some v)"
    "map_of g d = Some w" "dice_status (task_data t) = Available (Some w)" using V [OF assms(2)] V [OF assms(3)] by blast
  then show ?thesis by simp
qed

theorem commands_share_version_witness:
  "\<exists>v. map_of (snd demo_admission) 1 = Some v \<and> map_of (snd demo_admission) 2 = Some v"
proof -
  have "1 \<in> set (acts (task_data (fst demo_admission)))" "2 \<in> set (acts (task_data (fst demo_admission)))" by code_simp+
  from commands_share_version [OF demo_admission_run this] show ?thesis by blast
qed

text \<open>The coordinator never panics, whatever messages arrive, as long as a blocked command asks again only once woken; and it
  never sends one of the replies a command answers with an internal error: an unprepared cleanup, a retry outside a
  cleanup, an unprocessed decision.\<close>

theorem coordinator_never_panics:
  assumes "admission_run t g" "orderly t m"
  shows "\<exists>t' out. handle alive fut t m = Some (t', out) \<and> (\<forall>x\<in>set out. expected x)"
  using handle_correct [OF admission_run_inv [OF assms(1)] assms(2)] by blast



text \<open>Taking preemptions back: if the command an answer was meant for is gone, restoring the effects of the comparison gives every
  running command its preemption sender back, and the state of before.\<close>

theorem preemptions_restored:
  assumes "after_state_comparison st same = (es, st')" "distinct (acts st)"
  shows "restore_preemptions es st' = st"
  by (rule restore_after_state_comparison [OF assms])

section \<open>The commands and the coordinator together\<close>

text \<open>Five commands: two execute at the same version, a third is blocked at another one, a fourth updates and a fifth waits
  for the lane; no message is under way.\<close>

definition demo_arrival :: "command_id \<Rightarrow> unit action list" where
  "demo_arrival c = [Enter (demo_request c), StartWaiting c, Coordinate (), Receive c False, Coordinate ()]"

definition demo_sync :: "command_id \<Rightarrow> version \<Rightarrow> unit action list" where
  "demo_sync c v = demo_arrival c @ [Receive c False, Input c (UpdateDone None), Input c (CommitDone v), Coordinate (), Receive c False]"

definition demo_actions :: "unit action list" where
  "demo_actions = demo_sync 0 (Version 0 4) @ [Input 0 (ObserverDone True)] @ demo_sync 1 (Version 0 4) @ [Input 1 (ObserverDone True)]
     @ demo_sync 2 (Version 0 5) @ demo_arrival 3 @ [Receive 3 False] @ demo_arrival 4"

definition reached :: "'f action list \<Rightarrow> 'f system" where
  "reached as = (case perform_all False (system_new 0) as of Next s \<Rightarrow> s | _ \<Rightarrow> system_new 0)"

lemma reached_run: "system_run False (reached as)"
  unfolding reached_def by (cases "perform_all False (system_new 0) as") (auto intro: perform_all_run system_run.start)

definition demo_system :: "unit system" where
  "demo_system = reached demo_actions"

lemma demo_system_run: "system_run False demo_system"
  unfolding demo_system_def by (rule reached_run)

lemma demo_system_phases:
  "phase_of demo_system 0 = Executing (Version 0 4)" "phase_of demo_system 1 = Executing (Version 0 4)"
  "case phase_of demo_system 2 of WaitBlocked _ _ _ \<Rightarrow> True | _ \<Rightarrow> False" "case phase_of demo_system 3 of Updating _ _ \<Rightarrow> True | _ \<Rightarrow> False"
  "case phase_of demo_system 4 of AwaitLane _ \<Rightarrow> True | _ \<Rightarrow> False" "quiescent demo_system"
  by code_simp+

definition demo_retired :: "unit action list" where
  "demo_retired = demo_sync 0 (Version 0 4) @ [Input 0 (ObserverDone True), RetireHandler, Coordinate (),
     Enter (demo_request 1), StartWaiting 1, Coordinate (), Receive 1 False, Input 0 ExecDone]"

definition demo_stopped :: "unit action list" where
  "demo_stopped = demo_sync 0 (Version 0 4) @ [Input 0 (ObserverDone True), RetireHandler, Coordinate (),
     Enter (demo_request 1), StartWaiting 1, Coordinate (), Input 0 ExecDone, Receive 1 False, Coordinate (), ReceiveStopped 1]"

text \<open>C28. Commands execute together only on the same state: in every state the commands, their messages and the coordinator reach,
  with commands cancelled at any await, two commands that execute hold transactions of the same version, the coordinator's.\<close>

theorem executing_together:
  assumes "system_run h s" "phase_of s c = Executing v" "phase_of s d = Executing w"
  shows "v = w \<and> active_version (sys_task s) = Some v"
proof -
  note inv = system_run_inv [OF assms(1)]
  show ?thesis using executing_version [OF inv assms(2)] executing_version [OF inv assms(3)] by simp
qed

theorem executing_together_witness:
  "active_version (sys_task demo_system) = Some (Version 0 4)"
  using executing_together [OF demo_system_run demo_system_phases(1,2)] by simp

text \<open>C29. Updates are serialized: at most one command at a time talks to the file watcher, moves the handler to a fresh root or
  commits.\<close>

theorem single_updater:
  assumes "system_run h s"
    and "phase_of s c = Updating p b \<or> phase_of s c = Moving p b \<or> phase_of s c = Committing p b"
    and "phase_of s d = Updating q e \<or> phase_of s d = Moving q e \<or> phase_of s d = Committing q e"
  shows "c = d"
proof -
  note P = sys_inv_placed [OF system_run_inv [OF assms(1)]]
  have "lane_of (sys_task s) c \<noteq> None" "lane_of (sys_task s) d \<noteq> None"
    using placed_updating [OF P assms(2)] placed_updating [OF P assms(3)] by (simp_all add: view_def entries_def)
  then show ?thesis by (auto simp: lane_of_def split: option.splits if_splits)
qed

theorem single_updater_witness:
  "\<forall>p b. phase_of demo_system 4 \<noteq> Updating p b"
proof -
  obtain p b where "phase_of demo_system 3 = Updating p b" using demo_system_phases(4) by (auto split: phase.splits)
  with single_updater [OF demo_system_run, of 3 p b 4] show ?thesis by auto
qed

text \<open>C30. The coordinator of the running system never panics, so the daemon is not aborted: the protocol the commands follow excludes the
  messages it could not handle, also when commands are cancelled while they wait.\<close>

theorem system_never_panics:
  assumes "system_run h s"
  shows "perform h s a \<noteq> Panicked"
  using sys_inv_perform [OF system_run_inv [OF assms]] by blast

theorem system_never_panics_witness:
  "perform False demo_system (Coordinate ()) \<noteq> Panicked \<and> perform False (reached demo_retired) (Coordinate ()) \<noteq> Panicked"
  using system_never_panics [OF demo_system_run] system_never_panics [OF reached_run] by blast

text \<open>C31. Requests and replies match in type: the reply a command reads next is always one to the request it awaits.\<close>

theorem replies_well_typed:
  assumes "system_run h s" "cl_inbox (client s c) = r # rs"
  shows "receive h draining c (phase_of s c) r \<noteq> None"
proof -
  have p: "placed s c" by (rule sys_inv_placed [OF system_run_inv [OF assms(1)]])
  show ?thesis
  proof (cases "sys_stopped s")
    case False
    with p assms(2) have "conf c (phase_of s c) (mine c (sys_queue s)) (r # rs) (view (sys_task s) c)" by (simp add: placed_def)
    from conf_receive [OF this, of h draining] show ?thesis by auto
  next
    case True
    with p assms(2) have "answered c (phase_of s c) (r # rs) VAbsent" by (auto simp: placed_def lost_def)
    from lands_receive [OF this, of h draining] show ?thesis by simp
  qed
qed

theorem replies_well_typed_witness:
  "receive False True 0 AwaitBefore (ReplyBefore 0 (Inr (Update 0 None)) :: unit reply) \<noteq> None"
proof -
  let ?s = "reached (take 3 (demo_arrival 0))"
  have "phase_of ?s 0 = AwaitBefore" "cl_inbox (client ?s 0) = [ReplyBefore 0 (Inr (Update 0 None))]" by code_simp+
  with replies_well_typed [OF reached_run, of "take 3 (demo_arrival 0)" 0 "ReplyBefore 0 (Inr (Update 0 None))" "[]" True]
  show ?thesis by simp
qed

text \<open>C32. A command never ends with an error inside the coordinator: not with an unprepared cleanup or an unprocessed decision, and the only
  error the coordinator itself answers is that it was retired.\<close>

theorem no_internal_errors:
  assumes "system_run h s" "phase_of s c = Left (Inl e)"
  shows "e \<noteq> UnpreparedCleanup \<and> e \<noteq> UnprocessedDecision \<and> (\<forall>x. e = CoordinatorError x \<longrightarrow> x = Retired)"
  using placed_left [OF sys_inv_placed [OF system_run_inv [OF assms(1)]] assms(2)] by (auto simp: benign_def split: command_error.splits)

theorem no_internal_errors_witness:
  "\<exists>e. phase_of (reached demo_stopped) 1 = Left (Inl e) \<and> e \<noteq> UnprocessedDecision"
proof -
  have "phase_of (reached demo_stopped) 1 = Left (Inl (CoordinatorError Retired))" by code_simp
  with no_internal_errors [OF reached_run this] show ?thesis by blast
qed

text \<open>C33. No deadlock: when no message and no unread reply is under way, a command waits for the update lane only while another one updates or
  commits, is blocked only while another one executes or is about to, and no command waits for a reply of a coordinator that runs.\<close>

theorem no_deadlock:
  assumes "system_run h s" "quiescent s"
  shows "waits_justified s c"
  by (rule quiescent_justified [OF system_run_inv [OF assms(1)] assms(2)])

theorem no_deadlock_witness:
  "\<exists>d u. phase_of demo_system d = Observing u \<or> phase_of demo_system d = Executing u"
  using no_deadlock [OF demo_system_run demo_system_phases(6), of 2] demo_system_phases(3)
  by (auto simp: waits_justified_def split: phase.splits)

text \<open>C34. The coordinator stops only when it has drained: after that no command is admitted, updating or waiting for one; those left are
  not yet admitted, on their way out, or gone.\<close>

theorem stops_when_drained:
  assumes "system_run h s" "sys_stopped s"
  shows "phase_of s c = Outside \<or> (\<exists>rq. phase_of s c = Starting rq) \<or> phase_of s c = AwaitBefore
    \<or> (\<exists>r. phase_of s c = Leaving r \<or> phase_of s c = Left r) \<or> phase_of s c = Dropped"
  by (rule placed_stopped [OF sys_inv_placed [OF system_run_inv [OF assms(1)]] assms(2)])

theorem stops_when_drained_witness:
  "sys_stopped (reached demo_stopped) \<and> phase_of (reached demo_stopped) 0 \<noteq> AwaitIdle () 0"
proof -
  have st: "sys_stopped (reached demo_stopped)" by code_simp
  with stops_when_drained [OF reached_run st, of 0] show ?thesis by auto
qed

text \<open>The release of a command rejected by a retired coordinator can fail: if the last admitted command leaves before the rejected
  one's release is handled, the coordinator stops and the release's answer is lost.\<close>

theorem lease_release_can_fail:
  "phase_of (reached demo_stopped) 1 = Left (Inl (CoordinatorError Retired))
   \<and> LeaseReleaseFailed \<in> set (cl_events (client (reached demo_stopped) 1))"
  by code_simp

definition demo_preempted :: "unit action list" where
  "demo_preempted = demo_sync 0 (Version 0 4) @ [Input 0 (ObserverDone True)] @ demo_sync 1 (Version 0 5)
     @ [Input 0 PreemptReceived, Coordinate (), Receive 0 False]"

text \<open>C36. Only a command that asked for it is preempted: whatever the others do, and also when they are cancelled, a command that ends with
  the preemption error was entered with a setting other than never.\<close>

theorem preempted_only_if_allowed:
  assumes "system_run h s" "phase_of s c = Left (Inl ExitOnPreemption)"
  shows "\<exists>rq. cl_request (client s c) = Some rq \<and> cd_preemption_setting (rq_command rq) \<noteq> Never"
  using preempted_allowed [OF assms(1), of c] assms(2) by (auto simp: exits_preempted_def allowed_def asked_def)

theorem preempted_only_if_allowed_witness:
  "\<exists>rq. cl_request (client (reached demo_preempted) 0) = Some rq \<and> cd_preemption_setting (rq_command rq) \<noteq> Never"
proof -
  have "phase_of (reached demo_preempted) 0 = Left (Inl ExitOnPreemption)" by code_simp
  then show ?thesis by (rule preempted_only_if_allowed [OF reached_run])
qed

text \<open>The truncation of a message never panics on a character boundary; it keeps a message that fits, and gives otherwise a prefix and a
  suffix around the placeholder, within the maximal length or, where that is shorter, the placeholder alone.\<close>

theorem truncate_bounds:
  "\<exists>r. truncate_str msg n = Some r \<and> (length msg \<le> n \<longrightarrow> r = msg) \<and> length r \<le> max n (length TRUNCATION_MSG)
    \<and> (n < length msg \<longrightarrow> (\<exists>p q. r = p @ TRUNCATION_MSG @ q \<and> prefix p msg \<and> suffix q msg))"
  by (rule truncate_correct)

text \<open>The length given is not always kept.\<close>

lemma truncate_can_exceed: "truncate_str ''twelve bytes'' 5 = Some ''<<omitted>>'' \<and> 5 < length ''<<omitted>>''"
  by code_simp

text \<open>The exclusive command others are told to wait for is the oldest in play: as long as a command leaves the queue only after it joined
  and the tickets do not wrap, the queue holds exactly the commands that joined and have not left, in the order they joined.\<close>

theorem owning_command_is_oldest:
  assumes "leaves_after_join ops" "length (joined ops) \<le> u64_max"
  shows "owning_command (queue_run ops) = (case in_play ops of [] \<Rightarrow> None | (t, n) # rest \<Rightarrow> Some n)"
  using queue_run_correct [OF assms] by (simp add: owning_command_def)

section \<open>Critical paths\<close>

text \<open>The graph of the crate's own tests: four vertices, the last of which needs two others, one of which needs the first.\<close>

definition sample_graph :: graph where
  "sample_graph = \<lparr>g_vertices = [\<lparr>edges_idx = 0, edges_count = 0\<rparr>, \<lparr>edges_idx = 0, edges_count = 1\<rparr>, \<lparr>edges_idx = 1, edges_count = 0\<rparr>,
     \<lparr>edges_idx = 1, edges_count = 2\<rparr>], g_edges = [0, 2, 1]\<rparr>"

lemma sample_graph_ok: "wf_graph sample_graph" "fits sample_graph" "acyclic_graph sample_graph"
proof -
  show "wf_graph sample_graph" by code_simp
  show "fits sample_graph" by code_simp
  have "is_topo_order sample_graph [3, 2, 1, 0]" by code_simp
  then show "acyclic_graph sample_graph" by (rule topo_order_acyclic)
qed

definition sample_weights :: "nat list" where
  "sample_weights = [20, 10, 28, 5]"

lemma sample_weights_ok: "length sample_weights = size_of sample_graph" "2 * sum_list sample_weights \<le> u64_max" "g_vertices sample_graph \<noteq> []"
  by code_simp+

text \<open>C37. On a graph without cycles the critical path computation returns. What it calls the critical path is a path of the graph with the
  cost returned, and no path costs more, a longer one of the same runtime included; and for every vertex the accessor returns a path that ends
  in it, with its cost, and no path that ends there costs more.\<close>

theorem critical_path_is_longest:
  assumes "wf_graph g" "fits g" "acyclic_graph g" "length w = size_of g" "2 * sum_list w \<le> u64_max" "g_vertices g \<noteq> []"
  shows "\<exists>cp cost upd acc. compute_critical_path_potentials g w = Some (Inr (cp, cost, upd, acc))
    \<and> path g (rev cp) \<and> path_cost_of w cp = cost \<and> (\<forall>p. path g p \<longrightarrow> path_cost_of w p \<le> cost)
    \<and> (\<forall>v < size_of g. \<exists>c vp. critical_path_for_vertex acc v = Some (Some (c, vp)) \<and> path g (rev vp) \<and> hd (rev vp) = v
         \<and> path_cost_of w vp = c \<and> (\<forall>p. path g p \<and> hd p = v \<longrightarrow> path_cost_of w p \<le> c))"
proof -
  obtain cp cost upd acc where r: "compute_critical_path_potentials g w = Some (Inr (cp, cost, upd, acc))" "accessor_correct g w acc"
    "path g (rev cp)" "path_cost_of w cp = cost" "longest w {p. path g p} cost"
    using potentials_correct [OF assms(1-5)] assms(6) by auto
  have "\<exists>c vp. critical_path_for_vertex acc v = Some (Some (c, vp)) \<and> path g (rev vp) \<and> hd (rev vp) = v
      \<and> path_cost_of w vp = c \<and> (\<forall>p. path g p \<and> hd p = v \<longrightarrow> path_cost_of w p \<le> c)" if "v < size_of g" for v
    using r(2) that unfolding accessor_correct_def longest_def paths_from_def by blast
  with r show ?thesis by (auto simp: longest_def)
qed

theorem critical_path_is_longest_witness:
  "\<exists>cp cost upd acc. compute_critical_path_potentials sample_graph sample_weights = Some (Inr (cp, cost, upd, acc))
    \<and> cp = [0, 1, 3] \<and> cost = PathCost 35 3 \<and> path_cost_of sample_weights cp = cost"
proof -
  obtain cp cost upd acc where r: "compute_critical_path_potentials sample_graph sample_weights = Some (Inr (cp, cost, upd, acc))"
    "path_cost_of sample_weights cp = cost"
    using critical_path_is_longest [OF sample_graph_ok sample_weights_ok] by blast
  have "map_option (map_sum id (\<lambda>(cp, cost, _). (cp, cost))) (compute_critical_path_potentials sample_graph sample_weights)
      = Some (Inr ([0, 1, 3], PathCost 35 3))" by code_simp
  with r show ?thesis by simp
qed

text \<open>C38. What is returned for a vertex of the critical path is what the computation itself would return as the cost of the critical path if
  that vertex took no time: the sweep over the sorted work items with its heap does without the recomputation.\<close>

theorem potentials_are_recomputed_costs:
  assumes "wf_graph g" "fits g" "acyclic_graph g" "length w = size_of g" "2 * sum_list w \<le> u64_max"
  shows "\<exists>cp cost upd acc. compute_critical_path_potentials g w = Some (Inr (cp, cost, upd, acc)) \<and> length upd = length cp
    \<and> (\<forall>i<length cp. \<exists>cp' upd' acc'. compute_critical_path_potentials g (w[cp ! i := 0]) = Some (Inr (cp', upd ! i, upd', acc')))"
proof -
  obtain cp cost upd acc where r: "compute_critical_path_potentials g w = Some (Inr (cp, cost, upd, acc))" "length upd = length cp"
    "\<And>i. i < length cp \<Longrightarrow> longest (w[cp ! i := 0]) {p. path g p} (upd ! i)" "size_of g = 0 \<Longrightarrow> cp = []"
    using potentials_correct [OF assms] by (auto split: if_splits)
  have "\<exists>cp' upd' acc'. compute_critical_path_potentials g (w[cp ! i := 0]) = Some (Inr (cp', upd ! i, upd', acc'))" if i: "i < length cp" for i
  proof -
    let ?w = "w[cp ! i := 0]"
    have "size_of g \<noteq> 0" using r(4) i by auto
    moreover have "2 * sum_list ?w \<le> u64_max" using sum_list_zeroed [of w "cp ! i"] assms(5) by simp
    ultimately obtain cp' cost' upd' acc' where "compute_critical_path_potentials g ?w = Some (Inr (cp', cost', upd', acc'))"
      "longest ?w {p. path g p} cost'" using potentials_correct [OF assms(1-3), of ?w] assms(4) by auto
    then show ?thesis using longest_unique [OF _ r(3) [OF i]] by auto
  qed
  with r(1, 2) show ?thesis by blast
qed

theorem potentials_are_recomputed_costs_witness:
  "\<exists>cp cost upd acc cp' upd' acc'. compute_critical_path_potentials sample_graph sample_weights = Some (Inr (cp, cost, upd, acc))
    \<and> upd ! 1 = PathCost 33 2
    \<and> compute_critical_path_potentials sample_graph (sample_weights[cp ! 1 := 0]) = Some (Inr (cp', upd ! 1, upd', acc'))"
proof -
  have v: "map_option (map_sum id (\<lambda>(cp, _, upd, _). (cp, upd))) (compute_critical_path_potentials sample_graph sample_weights)
      = Some (Inr ([0, 1, 3], [PathCost 33 2, PathCost 33 2, PathCost 30 3]))" by code_simp
  from potentials_are_recomputed_costs [OF sample_graph_ok sample_weights_ok(1, 2)] v show ?thesis by fastforce
qed

text \<open>C39. The topological sort ends on every graph. If the graph has no cycle, it returns an order of all the vertices in which every edge leads
  forward; if it has one, it returns a cycle of the graph that passes no vertex twice.\<close>

theorem topo_sort_decides:
  assumes "wf_graph g" "fits g"
  shows "if acyclic_graph g
    then \<exists>vs. topo_sort g = Some (Inr vs) \<and> distinct vs \<and> set vs = {..< size_of g}
      \<and> (\<forall>i < size_of g. \<forall>v\<in>set (succs g (vs ! i)). \<exists>j. i < j \<and> j < size_of g \<and> vs ! j = v)
    else \<exists>c. topo_sort g = Some (Inl (Cycle c)) \<and> path g c \<and> length c > 1 \<and> hd c = last c \<and> distinct (tl c)"
  using topo_sort_acyclic [OF assms] topo_sort_cases [OF assms] topo_order_acyclic [of g] is_topo_order_nth [of g]
  by (auto simp: is_cycle_def)

theorem topo_sort_decides_witness:
  "topo_sort sample_graph = Some (Inr [3, 2, 1, 0]) \<and> distinct [3, 2, 1, 0 :: nat]
    \<and> 1 \<in> set (succs sample_graph 3) \<and> (\<exists>j. 0 < j \<and> j < 4 \<and> [3, 2, 1, 0] ! j = (1 :: nat))"
proof -
  have v: "topo_sort sample_graph = Some (Inr [3, 2, 1, 0])" "size_of sample_graph = 4" "1 \<in> set (succs sample_graph 3)" by code_simp+
  obtain vs where vs: "topo_sort sample_graph = Some (Inr vs)" "distinct vs"
    "\<forall>i < size_of sample_graph. \<forall>v\<in>set (succs sample_graph (vs ! i)). \<exists>j. i < j \<and> j < size_of sample_graph \<and> vs ! j = v"
    using topo_sort_decides [OF sample_graph_ok(1, 2)] sample_graph_ok(3) by auto
  then have "vs = [3, 2, 1, 0]" using v(1) by simp
  with vs v show ?thesis by force
qed

text \<open>Reversing a graph turns every edge around, and reversing it twice gives back the edges of every vertex, sorted.\<close>

theorem reversed_twice_sorts:
  assumes "wf_graph g" "fits g"
  shows "\<exists>r g'. reversed g = Some r \<and> reversed r = Some g' \<and> size_of r = size_of g \<and> size_of g' = size_of g
    \<and> (\<forall>v < size_of g. \<forall>u. u \<in> set (succs r v) \<longleftrightarrow> u < size_of g \<and> v \<in> set (succs g u))
    \<and> (\<forall>v < size_of g. succs g' v = sort (succs g v))"
proof -
  obtain r where r: "reversed g = Some r" "size_of r = size_of g" "\<forall>v < size_of g. succs r v = sources g v"
    using reversed_correct [OF assms] by blast
  obtain g' where "reversed r = Some g'" "size_of g' = size_of g" "\<forall>v < size_of g. succs g' v = sort (succs g v)"
    using reversed_twice [OF assms] r(1) by auto
  with r show ?thesis by (auto simp: set_sources)
qed

text \<open>C40. The graph a builder makes has, for every push, the edges to those dependencies that were pushed no later, the vertex itself included;
  so the topological sort succeeds on it exactly if no vertex was pushed with itself among its dependencies.\<close>

theorem built_graph_sorts_iff:
  assumes "push_all builder_new ps = Some (Inr b)" "length (b_edges b) \<le> u32_max"
  shows "(\<forall>i<length ps. \<forall>j. j \<in> set (succs (fst (finish b)) i) \<longleftrightarrow> j \<le> i \<and> fst (ps ! j) \<in> set (fst (snd (ps ! i))))
    \<and> ((\<exists>vs. topo_sort (fst (finish b)) = Some (Inr vs)) \<longleftrightarrow> (\<forall>(key, deps, data)\<in>set ps. key \<notin> set deps))"
proof -
  have b: "builder_holds ps b" by (rule push_all_new [OF assms(1)])
  then have "fits (fst (finish b))" using assms(2) by (simp add: fits_def builder_holds_def finish_def)
  then show ?thesis using built_edges [OF b] built_acyclic_iff [OF b] topo_sort_iff_acyclic [OF built_graph(1) [OF b]] by simp
qed

text \<open>A key that depends on itself is accepted and gives a graph with a cycle.\<close>

theorem built_graph_sorts_iff_witness:
  "\<exists>b. push_all builder_new [(''key'', [''key''], ())] = Some (Inr b) \<and> \<not> (\<exists>vs. topo_sort (fst (finish b)) = Some (Inr vs))
    \<and> topo_sort (fst (finish b)) = Some (Inl (Cycle [0, 0]))"
proof -
  let ?ps = "[(''key'', [''key''], ())]"
  let ?b = "\<lparr>b_keys = [(''key'', 0)], b_data = [()], b_vertices = [\<lparr>edges_idx = 0, edges_count = 1\<rparr>], b_edges = [0]\<rparr>"
  have b: "push_all builder_new ?ps = Some (Inr ?b)" "length (b_edges ?b) \<le> u32_max" "topo_sort (fst (finish ?b)) = Some (Inl (Cycle [0, 0]))"
    by code_simp+
  with built_graph_sorts_iff [OF b(1, 2)] show ?thesis by auto
qed

end
